(* ===== verification/Redis_Prelude.thy ===== *)
theory Redis_Prelude
  imports Main "HOL-Library.Word" "HOL-Library.Monad_Syntax"
begin

text \<open>
  Shared vocabulary of the development: the C integer types, a byte-addressed block of memory with
  bounds-checked access, little-endian encodings of machine integers, and the generic facts on
  lists, options and words that the component theories use.

  Conventions used by every component theory:
  \<^item> an unsigned C integer of \<open>w\<close> bits is a \<open>w word\<close>; a signed one is the same word read through
    \<^term>\<open>sint\<close> where its value is compared, or an \<^typ>\<open>int\<close> where the code keeps it in range;
  \<^item> undefined behaviour (an access outside a block, a null dereference) and a failed \<open>assert\<close>
    are the value \<^term>\<open>None\<close> of an option, so that a theorem concluding \<open>= Some r\<close> also states
    that the execution is free of them.
\<close>

unbundle bit_operations_syntax

declare of_nat_unat [simp del]

type_synonym u8 = "8 word"
type_synonym u16 = "16 word"
type_synonym u32 = "32 word"
type_synonym u64 = "64 word"
type_synonym bytes = "u8 list"

named_theorems bytes_simps \<open>lengths and accesses of byte blocks\<close>
named_theorems codec_simps \<open>round trips of integer encodings\<close>

subsection \<open>Bounds-checked memory blocks\<close>

definition mem_read :: "'a list \<Rightarrow> nat \<Rightarrow> nat \<Rightarrow> 'a list option" where
  "mem_read bs off n = (if off + n \<le> length bs then Some (take n (drop off bs)) else None)"

definition mem_write :: "'a list \<Rightarrow> nat \<Rightarrow> 'a list \<Rightarrow> 'a list option" where
  "mem_write bs off ys =
     (if off + length ys \<le> length bs
      then Some (take off bs @ ys @ drop (off + length ys) bs) else None)"

text \<open>\<open>memmove(dst, src, n)\<close> inside one block: the source is read before anything is written.\<close>

definition mem_move :: "'a list \<Rightarrow> nat \<Rightarrow> nat \<Rightarrow> nat \<Rightarrow> 'a list option" where
  "mem_move bs dst src n = mem_read bs src n \<bind> mem_write bs dst"

text \<open>
  \<open>zrealloc\<close> keeps the common prefix and leaves the new bytes unspecified; \<open>junk\<close> supplies them, and
  every theorem is proved for all \<open>junk\<close>.
\<close>

definition zrealloc :: "(nat \<Rightarrow> 'a) \<Rightarrow> 'a list \<Rightarrow> nat \<Rightarrow> 'a list" where
  "zrealloc junk bs n = take n bs @ map junk [length bs..<n]"

lemma length_zrealloc [simp, bytes_simps]: "length (zrealloc junk bs n) = n"
  by (auto simp: zrealloc_def min_def)

lemma take_zrealloc [bytes_simps]: "m \<le> length bs \<Longrightarrow> m \<le> n \<Longrightarrow> take m (zrealloc junk bs n) = take m bs"
  by (simp add: zrealloc_def min_def)

lemma zrealloc_shrink: "n \<le> length bs \<Longrightarrow> zrealloc junk bs n = take n bs"
  by (simp add: zrealloc_def)

lemma mem_read_Some [bytes_simps]:
  "off + n \<le> length bs \<Longrightarrow> mem_read bs off n = Some (take n (drop off bs))"
  by (simp add: mem_read_def)

lemma mem_write_Some [bytes_simps]:
  "off + length ys \<le> length bs \<Longrightarrow>
     mem_write bs off ys = Some (take off bs @ ys @ drop (off + length ys) bs)"
  by (simp add: mem_write_def)

lemma mem_write_length: "mem_write bs off ys = Some bs' \<Longrightarrow> length bs' = length bs"
  by (auto simp: mem_write_def split: if_splits)

lemma mem_move_Some:
  "src + n \<le> length bs \<Longrightarrow> dst + n \<le> length bs \<Longrightarrow>
     mem_move bs dst src n = Some (take dst bs @ take n (drop src bs) @ drop (dst + n) bs)"
  by (simp add: mem_move_def mem_read_Some mem_write_Some)

lemma take_drop_write_other:
  assumes "off + length ys \<le> length bs"
    and "a + n \<le> off \<or> off + length ys \<le> a"
  shows "take n (drop a (take off bs @ ys @ drop (off + length ys) bs)) = take n (drop a bs)"
  using assms(2)
proof
  assume a: "a + n \<le> off"
  have "take n (drop a zs) = drop a (take (a + n) zs)" for zs :: "'a list"
    by (simp add: drop_take)
  moreover have "take (a + n) (take off bs @ ys @ drop (off + length ys) bs) = take (a + n) bs"
    using a assms(1) by (simp add: min_absorb1)
  ultimately show ?thesis by (simp only:)
next
  assume a: "off + length ys \<le> a"
  have "drop a (take off bs @ ys @ drop (off + length ys) bs) = drop a bs"
    using a assms(1) by (simp add: min_def)
  then show ?thesis by simp
qed

lemma take_drop_write_same:
  assumes "off + length ys \<le> length bs"
  shows "take (length ys) (drop off (take off bs @ ys @ drop (off + length ys) bs)) = ys"
  using assms by (simp add: min_def)

subsection \<open>Little-endian integers\<close>

text \<open>The host is taken little endian, so \<open>memrev*ifbe\<close> and \<open>intrev*ifbe\<close> are the identity.\<close>

primrec le_bytes :: "nat \<Rightarrow> 'a::len word \<Rightarrow> bytes" where
  "le_bytes 0 w = []"
| "le_bytes (Suc n) w = ucast w # le_bytes n (drop_bit 8 w)"

primrec of_le :: "bytes \<Rightarrow> 'a::len word" where
  "of_le [] = 0"
| "of_le (b # bs) = ucast b OR push_bit 8 (of_le bs)"

lemma length_le_bytes [simp, bytes_simps]: "length (le_bytes n w) = n"
  by (induction n arbitrary: w) auto

lemma of_le_le_bytes [codec_simps]: "of_le (le_bytes n w) = (take_bit (8 * n) w :: 'a::len word)"
proof (induction n arbitrary: w)
  case (Suc n)
  show ?case
    by (rule bit_word_eqI)
       (auto simp: Suc bit_or_iff bit_push_bit_iff bit_take_bit_iff bit_drop_bit_eq bit_ucast_iff
             dest: bit_imp_le_length)
qed simp

lemma le_bytes_of_le [codec_simps]:
  "8 * length bs \<le> LENGTH('a) \<Longrightarrow> le_bytes (length bs) (of_le bs :: 'a::len word) = bs"
proof (induction bs)
  case (Cons b bs)
  let ?w = "of_le bs :: 'a word"
  have len: "8 \<le> LENGTH('a)" using Cons.prems by simp
  have hd: "ucast (ucast b OR push_bit 8 ?w) = b"
    using len by (intro bit_word_eqI) (auto simp: bit_ucast_iff bit_or_iff bit_push_bit_iff)
  have small: "bit ?w n \<Longrightarrow> n < 8 * length bs" for n
  proof (induction bs arbitrary: n)
    case (Cons c cs)
    have "bit (ucast c :: 'a word) n \<or> 8 \<le> n \<and> bit (of_le cs :: 'a word) (n - 8)"
      using Cons.prems by (auto simp: bit_or_iff bit_push_bit_iff)
    then show ?case using Cons.IH[of "n - 8"] by (auto simp: bit_ucast_iff dest: bit_imp_le_length)
  qed simp
  have tl: "drop_bit 8 (ucast b OR push_bit 8 ?w) = ?w"
    using Cons.prems
    by (intro bit_word_eqI)
       (auto simp: bit_drop_bit_eq bit_or_iff bit_push_bit_iff bit_ucast_iff
             dest: small bit_imp_le_length)
  show ?case
    using Cons by (simp only: of_le.simps le_bytes.simps list.size hd tl add_Suc_right add_0_right) simp
qed simp

lemma of_le_le_bytes_full [simp]:
  "of_le (le_bytes 2 w) = (w :: u16)"
  "of_le (le_bytes 4 x) = (x :: u32)"
  "of_le (le_bytes 8 y) = (y :: u64)"
  by (simp_all add: of_le_le_bytes take_bit_word_eq_self)

lemma le_bytes_inj:
  "le_bytes n v = le_bytes n w \<Longrightarrow> LENGTH('a) \<le> 8 * n \<Longrightarrow> v = (w :: 'a::len word)"
  using of_le_le_bytes[of n v] of_le_le_bytes[of n w]
  by (metis take_bit_word_eq_self)

subsection \<open>Conversions between words and numbers\<close>

lemma unat_word_of_int: "0 \<le> k \<Longrightarrow> k < 2 ^ LENGTH('a) \<Longrightarrow> unat (word_of_int k :: 'a::len word) = nat k"
  by (simp add: unat_eq_nat_uint uint_word_of_int del: nat_uint_eq)

lemma sint_small:
  assumes "unat (x :: 'a::len word) < 2 ^ (LENGTH('a) - 1)"
  shows "sint x = int (unat x)"
proof -
  have "int (unat x) < 2 ^ (LENGTH('a) - 1)" using assms by (metis of_nat_less_iff of_nat_numeral of_nat_power)
  moreover have "- (2 ^ (LENGTH('a) - 1)) \<le> int (unat x)"
    by (rule order_trans[of _ 0]) simp_all
  ultimately show ?thesis
    unfolding sint_uint uint_nat by (intro signed_take_bit_int_eq_self) (simp_all only: One_nat_def)
qed

subsection \<open>Lists indexed by position\<close>

lemma map_nth_insert:
  assumes "p \<le> n"
    and "\<And>i. i < p \<Longrightarrow> g i = f i" and "g p = v" and "\<And>i. p < i \<Longrightarrow> i \<le> n \<Longrightarrow> g i = f (i - 1)"
  shows "map g [0..<Suc n] = take p (map f [0..<n]) @ v # drop p (map f [0..<n])"
proof (rule nth_equalityI)
  fix i assume "i < length (map g [0..<Suc n])"
  then have "i \<le> n" by simp
  then show "map g [0..<Suc n] ! i = (take p (map f [0..<n]) @ v # drop p (map f [0..<n])) ! i"
    using assms by (cases i p rule: linorder_cases)
      (auto simp: nth_append nth_Cons' min_def simp del: upt_Suc)
qed (use assms(1) in simp)

lemma map_nth_remove:
  assumes "p < n" and "\<And>i. i < p \<Longrightarrow> g i = f i" and "\<And>i. p \<le> i \<Longrightarrow> Suc i < n \<Longrightarrow> g i = f (Suc i)"
  shows "map g [0..<n - 1] = take p (map f [0..<n]) @ drop (Suc p) (map f [0..<n])"
  by (rule nth_equalityI) (use assms in \<open>auto simp: nth_append min_def\<close>)

lemma sorted_wrt_less_nth_le:
  assumes "sorted_wrt (<) (xs :: 'a::linorder list)" "i \<le> j" "j < length xs"
  shows "xs ! i \<le> xs ! j"
  using assms by (metis le_neq_implies_less order.refl order.strict_implies_order sorted_wrt_nth_less)

text \<open>Bounds-checked access to an array by a signed index.\<close>

definition arr_get :: "'a list \<Rightarrow> int \<Rightarrow> 'a option" where
  "arr_get xs i = (if 0 \<le> i \<and> i < int (length xs) then Some (xs ! nat i) else None)"

definition arr_set :: "'a list \<Rightarrow> int \<Rightarrow> 'a \<Rightarrow> 'a list option" where
  "arr_set xs i x = (if 0 \<le> i \<and> i < int (length xs) then Some (xs[nat i := x]) else None)"

lemma arr_get_Some [bytes_simps]: "0 \<le> i \<Longrightarrow> i < int (length xs) \<Longrightarrow> arr_get xs i = Some (xs ! nat i)"
  by (simp add: arr_get_def)

lemma arr_set_Some [bytes_simps]: "0 \<le> i \<Longrightarrow> i < int (length xs) \<Longrightarrow> arr_set xs i x = Some (xs[nat i := x])"
  by (simp add: arr_set_def)

subsection \<open>Options\<close>

lemma bind_Some_conv: "(m \<bind> f) = Some y \<longleftrightarrow> (\<exists>x. m = Some x \<and> f x = Some y)"
  by (cases m) auto

end
