(* ===== verification/Redis_Interfaces.thy ===== *)
theory Redis_Interfaces
  imports Redis_Prelude
begin

text \<open>
  The contracts between components, as locales: what a client of a container may rely on. Each
  locale carries the lemmas clients need; the component theories interpret it on their operations.
\<close>

subsection \<open>Bounded sets with fallible operations\<close>

datatype 'a set_op = SetAdd 'a | SetRemove 'a | SetFind 'a

text \<open>
  A sequence of requests against an implementation, with the flag each of them returns; \<^term>\<open>None\<close>
  if some request is undefined.
\<close>

fun run_set_ops ::
  "('s \<Rightarrow> 'a \<Rightarrow> ('s \<times> bool) option) \<Rightarrow> ('s \<Rightarrow> 'a \<Rightarrow> ('s \<times> bool) option) \<Rightarrow> ('s \<Rightarrow> 'a \<Rightarrow> bool option) \<Rightarrow>
   's \<Rightarrow> 'a set_op list \<Rightarrow> ('s \<times> bool list) option" where
  "run_set_ops add rem mem s [] = Some (s, [])"
| "run_set_ops add rem mem s (SetAdd x # ops) =
     do { (s, b) \<leftarrow> add s x; (s, bs) \<leftarrow> run_set_ops add rem mem s ops; Some (s, b # bs) }"
| "run_set_ops add rem mem s (SetRemove x # ops) =
     do { (s, b) \<leftarrow> rem s x; (s, bs) \<leftarrow> run_set_ops add rem mem s ops; Some (s, b # bs) }"
| "run_set_ops add rem mem s (SetFind x # ops) =
     do { b \<leftarrow> mem s x; (s, bs) \<leftarrow> run_set_ops add rem mem s ops; Some (s, b # bs) }"

text \<open>The same requests against a mathematical set.\<close>

fun abs_set_ops :: "'b set \<Rightarrow> 'b set_op list \<Rightarrow> 'b set \<times> bool list" where
  "abs_set_ops A [] = (A, [])"
| "abs_set_ops A (SetAdd x # ops) =
     (let (A', bs) = abs_set_ops (insert x A) ops in (A', (x \<notin> A) # bs))"
| "abs_set_ops A (SetRemove x # ops) =
     (let (A', bs) = abs_set_ops (A - {x}) ops in (A', (x \<in> A) # bs))"
| "abs_set_ops A (SetFind x # ops) =
     (let (A', bs) = abs_set_ops A ops in (A', (x \<in> A) # bs))"

locale bounded_set =
  fixes empty :: 's
    and add :: "'s \<Rightarrow> 'a \<Rightarrow> ('s \<times> bool) option"
    and rem :: "'s \<Rightarrow> 'a \<Rightarrow> ('s \<times> bool) option"
    and mem :: "'s \<Rightarrow> 'a \<Rightarrow> bool option"
    and key :: "'a \<Rightarrow> 'b"
    and abs :: "'s \<Rightarrow> 'b set"
    and invar :: "'s \<Rightarrow> bool"
    and cap :: nat
  assumes invar_empty: "invar empty"
    and abs_empty: "abs empty = {}"
    and abs_finite: "finite (abs s)"
    and add_ok: "invar s \<Longrightarrow> card (abs s) < cap \<Longrightarrow>
      \<exists>s'. add s x = Some (s', key x \<notin> abs s) \<and> invar s' \<and> abs s' = insert (key x) (abs s)"
    and rem_ok: "invar s \<Longrightarrow>
      \<exists>s'. rem s x = Some (s', key x \<in> abs s) \<and> invar s' \<and> abs s' = abs s - {key x}"
    and mem_ok: "invar s \<Longrightarrow> mem s x = Some (key x \<in> abs s)"
begin

lemma run_refines:
  assumes "invar s" "card (abs s) + length ops \<le> cap"
  shows "\<exists>s' bs. run_set_ops add rem mem s ops = Some (s', bs) \<and> invar s' \<and>
    (abs s', bs) = abs_set_ops (abs s) (map (map_set_op key) ops)"
  using assms
proof (induction ops arbitrary: s)
  case (Cons op ops)
  show ?case
  proof (cases op)
    case (SetAdd x)
    then obtain s1 where s1: "add s x = Some (s1, key x \<notin> abs s)" "invar s1" "abs s1 = insert (key x) (abs s)"
      using add_ok Cons.prems by fastforce
    have "card (abs s1) \<le> card (abs s) + 1" using s1(3) abs_finite[of s] by (simp add: card_insert_if)
    then show ?thesis
      using Cons.IH[of s1] Cons.prems s1 SetAdd by (auto split: prod.splits)
  next
    case (SetRemove x)
    then obtain s1 where s1: "rem s x = Some (s1, key x \<in> abs s)" "invar s1" "abs s1 = abs s - {key x}"
      using rem_ok Cons.prems by blast
    have "card (abs s1) \<le> card (abs s)" using s1(3) abs_finite[of s] by (simp add: card_Diff1_le)
    then show ?thesis
      using Cons.IH[of s1] Cons.prems s1 SetRemove by (auto split: prod.splits)
  next
    case (SetFind x)
    then show ?thesis
      using Cons.IH[of s] Cons.prems mem_ok by (auto split: prod.splits)
  qed
qed simp

text \<open>From the empty container, every sequence that fits the capacity behaves as the abstract set.\<close>

lemma run_from_empty:
  "length ops \<le> cap \<Longrightarrow>
   \<exists>s' bs. run_set_ops add rem mem empty ops = Some (s', bs) \<and> invar s' \<and>
     (abs s', bs) = abs_set_ops {} (map (map_set_op key) ops)"
  using run_refines[OF invar_empty] by (simp add: abs_empty)

end

subsection \<open>Maps that reorganise themselves\<close>

text \<open>
  Requests to a map whose every operation, lookups included, may change the representation. A
  request carries the environment \<open>'e\<close> it runs in; \<open>MapWork\<close> is maintenance no client asks for.
\<close>

datatype ('e, 'w, 'k, 'v) map_op =
    MapAdd 'e 'k 'v | MapPut 'e 'k 'v | MapDel 'e 'k | MapGet 'e 'k | MapWork 'w

datatype 'v map_res = Done bool | Got "'v option" | Worked

record ('e, 'w, 'k, 'v, 's) map_impl =
  m_add :: "'e \<Rightarrow> 's \<Rightarrow> 'k \<Rightarrow> 'v \<Rightarrow> ('s \<times> bool) option"
  m_put :: "'e \<Rightarrow> 's \<Rightarrow> 'k \<Rightarrow> 'v \<Rightarrow> ('s \<times> bool) option"
  m_del :: "'e \<Rightarrow> 's \<Rightarrow> 'k \<Rightarrow> ('s \<times> bool) option"
  m_get :: "'e \<Rightarrow> 's \<Rightarrow> 'k \<Rightarrow> ('s \<times> 'v option) option"
  m_work :: "'w \<Rightarrow> 's \<Rightarrow> 's option"

fun map_step ::
  "('e, 'w, 'k, 'v, 's) map_impl \<Rightarrow> 's \<Rightarrow> ('e, 'w, 'k, 'v) map_op \<Rightarrow> ('s \<times> 'v map_res) option" where
  "map_step m s (MapAdd e k v) = map_option (apsnd Done) (m_add m e s k v)"
| "map_step m s (MapPut e k v) = map_option (apsnd Done) (m_put m e s k v)"
| "map_step m s (MapDel e k) = map_option (apsnd Done) (m_del m e s k)"
| "map_step m s (MapGet e k) = map_option (apsnd Got) (m_get m e s k)"
| "map_step m s (MapWork w) = map_option (\<lambda>s. (s, Worked)) (m_work m w s)"

primrec run_map_ops ::
  "('e, 'w, 'k, 'v, 's) map_impl \<Rightarrow> 's \<Rightarrow> ('e, 'w, 'k, 'v) map_op list \<Rightarrow> ('s \<times> 'v map_res list) option" where
  "run_map_ops m s [] = Some (s, [])"
| "run_map_ops m s (op # ops) =
     do { (s, r) \<leftarrow> map_step m s op; (s, rs) \<leftarrow> run_map_ops m s ops; Some (s, r # rs) }"

text \<open>The same requests against a mathematical map: environment and maintenance are invisible.\<close>

fun abs_map_step :: "('k \<rightharpoonup> 'v) \<Rightarrow> ('e, 'w, 'k, 'v) map_op \<Rightarrow> ('k \<rightharpoonup> 'v) \<times> 'v map_res" where
  "abs_map_step f (MapAdd e k v) = (if f k = None then f(k \<mapsto> v) else f, Done (f k = None))"
| "abs_map_step f (MapPut e k v) = (f(k \<mapsto> v), Done (f k = None))"
| "abs_map_step f (MapDel e k) = (f(k := None), Done (f k \<noteq> None))"
| "abs_map_step f (MapGet e k) = (f, Got (f k))"
| "abs_map_step f (MapWork w) = (f, Worked)"

primrec abs_map_ops :: "('k \<rightharpoonup> 'v) \<Rightarrow> ('e, 'w, 'k, 'v) map_op list \<Rightarrow> ('k \<rightharpoonup> 'v) \<times> 'v map_res list" where
  "abs_map_ops f [] = (f, [])"
| "abs_map_ops f (op # ops) =
     (let (f, r) = abs_map_step f op; (f, rs) = abs_map_ops f ops in (f, r # rs))"

locale adaptive_map =
  fixes m :: "('e, 'w, 'k, 'v, 's) map_impl"
    and abs :: "'s \<Rightarrow> 'k \<rightharpoonup> 'v"
    and invar :: "'s \<Rightarrow> bool"
  assumes add_ok: "invar s \<Longrightarrow> \<exists>s'. m_add m e s k v = Some (s', abs s k = None) \<and> invar s' \<and>
      abs s' = (if abs s k = None then (abs s)(k \<mapsto> v) else abs s)"
    and put_ok: "invar s \<Longrightarrow> \<exists>s'. m_put m e s k v = Some (s', abs s k = None) \<and> invar s' \<and>
      abs s' = (abs s)(k \<mapsto> v)"
    and del_ok: "invar s \<Longrightarrow> \<exists>s'. m_del m e s k = Some (s', abs s k \<noteq> None) \<and> invar s' \<and>
      abs s' = (abs s)(k := None)"
    and get_ok: "invar s \<Longrightarrow> \<exists>s'. m_get m e s k = Some (s', abs s k) \<and> invar s' \<and> abs s' = abs s"
    and work_ok: "invar s \<Longrightarrow> \<exists>s'. m_work m w s = Some s' \<and> invar s' \<and> abs s' = abs s"
begin

lemma step_refines:
  "invar s \<Longrightarrow> \<exists>s' r. map_step m s op = Some (s', r) \<and> invar s' \<and> (abs s', r) = abs_map_step (abs s) op"
proof (cases op)
  case (MapAdd e k v)
  then show "invar s \<Longrightarrow> ?thesis" using add_ok[of s e k v] by auto
next
  case (MapPut e k v)
  then show "invar s \<Longrightarrow> ?thesis" using put_ok[of s e k v] by auto
next
  case (MapDel e k)
  then show "invar s \<Longrightarrow> ?thesis" using del_ok[of s e k] by auto
next
  case (MapGet e k)
  then show "invar s \<Longrightarrow> ?thesis" using get_ok[of s e k] by auto
next
  case (MapWork w)
  then show "invar s \<Longrightarrow> ?thesis" using work_ok[of s w] by auto
qed

lemma run_refines:
  "invar s \<Longrightarrow> \<exists>s' rs. run_map_ops m s ops = Some (s', rs) \<and> invar s' \<and>
     (abs s', rs) = abs_map_ops (abs s) ops"
proof (induction ops arbitrary: s)
  case (Cons op ops)
  obtain s1 r where s1: "map_step m s op = Some (s1, r)" "invar s1" "(abs s1, r) = abs_map_step (abs s) op"
    using step_refines[OF Cons.prems] by blast
  then show ?case using Cons.IH[OF s1(2)] by (auto split: prod.splits)
qed simp

end

subsection \<open>Bounded sequences\<close>

text \<open>
  A sequence addressed by position: insertion before a position (at the end when it is the length),
  replacement, deletion of a range and reading.  Each element has a weight, and the container
  holds any sequence up to a total weight.
\<close>

datatype 'a seq_op = SeqInsert nat 'a | SeqReplace nat 'a | SeqDelete nat nat | SeqGet nat

record ('a, 's) seq_impl =
  q_insert :: "'s \<Rightarrow> nat \<Rightarrow> 'a \<Rightarrow> 's option"
  q_replace :: "'s \<Rightarrow> nat \<Rightarrow> 'a \<Rightarrow> 's option"
  q_delete :: "'s \<Rightarrow> nat \<Rightarrow> nat \<Rightarrow> 's option"
  q_get :: "'s \<Rightarrow> nat \<Rightarrow> 'a option option"

fun seq_step :: "('a, 's) seq_impl \<Rightarrow> 's \<Rightarrow> 'a seq_op \<Rightarrow> ('s \<times> 'a option) option" where
  "seq_step m s (SeqInsert i x) = map_option (\<lambda>s. (s, None)) (q_insert m s i x)"
| "seq_step m s (SeqReplace i x) = map_option (\<lambda>s. (s, None)) (q_replace m s i x)"
| "seq_step m s (SeqDelete i n) = map_option (\<lambda>s. (s, None)) (q_delete m s i n)"
| "seq_step m s (SeqGet i) = map_option (\<lambda>r. (s, r)) (q_get m s i)"

primrec run_seq_ops :: "('a, 's) seq_impl \<Rightarrow> 's \<Rightarrow> 'a seq_op list \<Rightarrow> ('s \<times> 'a option list) option" where
  "run_seq_ops m s [] = Some (s, [])"
| "run_seq_ops m s (op # ops) =
     do { (s, r) \<leftarrow> seq_step m s op; (s, rs) \<leftarrow> run_seq_ops m s ops; Some (s, r # rs) }"

text \<open>The same requests against a list.\<close>

fun abs_seq_step :: "'a list \<Rightarrow> 'a seq_op \<Rightarrow> 'a list \<times> 'a option" where
  "abs_seq_step xs (SeqInsert i x) = (take i xs @ x # drop i xs, None)"
| "abs_seq_step xs (SeqReplace i x) = (xs[i := x], None)"
| "abs_seq_step xs (SeqDelete i n) = (take i xs @ drop (i + n) xs, None)"
| "abs_seq_step xs (SeqGet i) = (xs, if i < length xs then Some (xs ! i) else None)"

primrec abs_seq_ops :: "'a list \<Rightarrow> 'a seq_op list \<Rightarrow> 'a list \<times> 'a option list" where
  "abs_seq_ops xs [] = (xs, [])"
| "abs_seq_ops xs (op # ops) =
     (let (xs, r) = abs_seq_step xs op; (xs, rs) = abs_seq_ops xs ops in (xs, r # rs))"

fun op_weight :: "('a \<Rightarrow> nat) \<Rightarrow> 'a seq_op \<Rightarrow> nat" where
  "op_weight w (SeqInsert i x) = w x"
| "op_weight w (SeqReplace i x) = w x"
| "op_weight w _ = 0"

lemma sum_list_map_drop_le: "sum_list (map w (take i xs @ drop (i + n) xs)) \<le> sum_list (map (w :: 'a \<Rightarrow> nat) xs)"
proof -
  have "sum_list (map w (drop (i + n) xs)) \<le> sum_list (map w (drop i xs))"
    unfolding drop_drop[symmetric] add.commute[of i n]
    using arg_cong[OF append_take_drop_id[of n "drop i xs"], of "\<lambda>ys. sum_list (map w ys)"]
    by (simp only: map_append sum_list_append drop_drop)
  moreover have "sum_list (map w xs) = sum_list (map w (take i xs)) + sum_list (map w (drop i xs))"
    by (metis append_take_drop_id map_append sum_list_append)
  ultimately show ?thesis by simp
qed

lemma sum_list_map_update_le: "sum_list (map w (xs[i := x])) \<le> sum_list (map (w :: 'a \<Rightarrow> nat) xs) + w x"
proof (induction xs arbitrary: i)
  case (Cons y ys)
  then show ?case using Cons.IH[of "i - 1"] by (cases i) auto
qed simp

lemma abs_seq_weight:
  "sum_list (map w (fst (abs_seq_step xs op))) \<le> sum_list (map w xs) + op_weight w op"
proof (cases op)
  case (SeqInsert i x)
  have "sum_list (map w xs) = sum_list (map w (take i xs)) + sum_list (map w (drop i xs))"
    by (metis append_take_drop_id map_append sum_list_append)
  then show ?thesis using SeqInsert by simp
next
  case (SeqReplace i x)
  then show ?thesis using sum_list_map_update_le[of w xs i x] by simp
next
  case (SeqDelete i n)
  then show ?thesis using sum_list_map_drop_le[of w i xs n] by simp
qed simp

locale bounded_seq =
  fixes m :: "('a, 's) seq_impl"
    and rep :: "'s \<Rightarrow> 'a list \<Rightarrow> bool"
    and weight :: "'a \<Rightarrow> nat"
    and cap :: nat
  assumes insert_ok: "rep s xs \<Longrightarrow> sum_list (map weight xs) + weight x \<le> cap \<Longrightarrow>
      \<exists>s'. q_insert m s i x = Some s' \<and> rep s' (take i xs @ x # drop i xs)"
    and replace_ok: "rep s xs \<Longrightarrow> sum_list (map weight xs) + weight x \<le> cap \<Longrightarrow>
      \<exists>s'. q_replace m s i x = Some s' \<and> rep s' (xs[i := x])"
    and delete_ok: "rep s xs \<Longrightarrow> \<exists>s'. q_delete m s i n = Some s' \<and> rep s' (take i xs @ drop (i + n) xs)"
    and get_ok: "rep s xs \<Longrightarrow> q_get m s i = Some (if i < length xs then Some (xs ! i) else None)"
begin

lemma step_refines:
  assumes "rep s xs" "sum_list (map weight xs) + op_weight weight op \<le> cap"
  shows "\<exists>s' r. seq_step m s op = Some (s', r) \<and> rep s' (fst (abs_seq_step xs op)) \<and> r = snd (abs_seq_step xs op)"
proof (cases op)
  case (SeqInsert i x)
  then show ?thesis using insert_ok[OF assms(1), of x i] assms(2) by auto
next
  case (SeqReplace i x)
  then show ?thesis using replace_ok[OF assms(1), of x i] assms(2) by auto
next
  case (SeqDelete i n)
  then show ?thesis using delete_ok[OF assms(1), of i n] by auto
next
  case (SeqGet i)
  then show ?thesis using get_ok[OF assms(1), of i] assms(1) by auto
qed

lemma run_refines:
  assumes "rep s xs" "sum_list (map weight xs) + sum_list (map (op_weight weight) ops) \<le> cap"
  shows "\<exists>s' rs. run_seq_ops m s ops = Some (s', rs) \<and> rep s' (fst (abs_seq_ops xs ops)) \<and> rs = snd (abs_seq_ops xs ops)"
  using assms
proof (induction ops arbitrary: s xs)
  case (Cons op ops)
  have "sum_list (map weight xs) + op_weight weight op \<le> cap" using Cons.prems(2) by simp
  then obtain s1 r where s1: "seq_step m s op = Some (s1, r)" "rep s1 (fst (abs_seq_step xs op))" "r = snd (abs_seq_step xs op)"
    using step_refines[OF Cons.prems(1)] by blast
  have "sum_list (map weight (fst (abs_seq_step xs op))) + sum_list (map (op_weight weight) ops) \<le> cap"
    using abs_seq_weight[of weight xs op] Cons.prems(2) by simp
  then show ?case using Cons.IH[OF s1(2)] s1 by (auto split: prod.splits)
qed simp

end

end
