(* ===== verification/Intset.thy ===== *)
theory Intset
  imports Redis_Interfaces
begin

text \<open>
  \<open>src/intset.c\<close>: a set of 64-bit integers kept as a sorted array of 16-, 32- or 64-bit
  little-endian values behind an eight-byte header. The model works on the bytes of the array: every
  read and write is bounds checked, \<open>zrealloc\<close> leaves new bytes unspecified (\<open>junk\<close>), and the
  re-encoding of an upgrade runs in place, back to front, as the code does.
\<close>

subsection \<open>Data and operations\<close>

record intset =
  is_encoding :: u32
  is_length :: u32
  is_contents :: bytes

definition INTSET_ENC_INT16 :: u32 where "INTSET_ENC_INT16 = 2"
definition INTSET_ENC_INT32 :: u32 where "INTSET_ENC_INT32 = 4"
definition INTSET_ENC_INT64 :: u32 where "INTSET_ENC_INT64 = 8"

lemmas intset_enc_defs = INTSET_ENC_INT16_def INTSET_ENC_INT32_def INTSET_ENC_INT64_def

definition intsetValueEncoding :: "u64 \<Rightarrow> u32" where
  "intsetValueEncoding v =
     (if sint v < - (2 ^ 31) \<or> sint v > 2 ^ 31 - 1 then INTSET_ENC_INT64
      else if sint v < - (2 ^ 15) \<or> sint v > 2 ^ 15 - 1 then INTSET_ENC_INT32
      else INTSET_ENC_INT16)"

text \<open>Element \<open>pos\<close> of an array of \<open>w\<close>-byte elements; a negative index is out of bounds.\<close>

definition array_read :: "bytes \<Rightarrow> int \<Rightarrow> nat \<Rightarrow> bytes option" where
  "array_read cs pos w = (if 0 \<le> pos then mem_read cs (nat pos * w) w else None)"

definition array_write :: "bytes \<Rightarrow> int \<Rightarrow> nat \<Rightarrow> bytes \<Rightarrow> bytes option" where
  "array_write cs pos w bs = (if 0 \<le> pos then mem_write cs (nat pos * w) bs else None)"

definition intsetGetEncoded :: "intset \<Rightarrow> int \<Rightarrow> u32 \<Rightarrow> u64 option" where
  "intsetGetEncoded is pos enc =
     (if enc = INTSET_ENC_INT64 then
        do { v64 \<leftarrow> array_read (is_contents is) pos 8; Some (of_le v64) }
      else if enc = INTSET_ENC_INT32 then
        do { v32 \<leftarrow> array_read (is_contents is) pos 4; Some (scast (of_le v32 :: u32)) }
      else
        do { v16 \<leftarrow> array_read (is_contents is) pos 2; Some (scast (of_le v16 :: u16)) })"

text \<open>\<open>_intsetGet\<close> (\<open>intsetGetAt\<close>) and \<open>_intsetSet\<close> (\<open>intsetSetAt\<close>) of the source, the accessors without a range check.\<close>

definition intsetGetAt :: "intset \<Rightarrow> int \<Rightarrow> u64 option" where
  "intsetGetAt is pos = intsetGetEncoded is pos (is_encoding is)"

definition intsetSetAt :: "intset \<Rightarrow> int \<Rightarrow> u64 \<Rightarrow> intset option" where
  "intsetSetAt is pos value =
     (if is_encoding is = INTSET_ENC_INT64 then
        do { cs \<leftarrow> array_write (is_contents is) pos 8 (le_bytes 8 value);
             Some (is\<lparr>is_contents := cs\<rparr>) }
      else if is_encoding is = INTSET_ENC_INT32 then
        do { cs \<leftarrow> array_write (is_contents is) pos 4 (le_bytes 4 (ucast value :: u32));
             Some (is\<lparr>is_contents := cs\<rparr>) }
      else
        do { cs \<leftarrow> array_write (is_contents is) pos 2 (le_bytes 2 (ucast value :: u16));
             Some (is\<lparr>is_contents := cs\<rparr>) })"

definition intsetNew :: intset where
  "intsetNew = \<lparr>is_encoding = INTSET_ENC_INT16, is_length = 0, is_contents = []\<rparr>"

definition SIZE_MAX :: nat where "SIZE_MAX = 2 ^ 64 - 1"

text \<open>\<open>sizeof(intset)\<close>: the two 32-bit header fields.\<close>

definition sizeof_intset :: nat where "sizeof_intset = 8"

definition intsetAllocSize :: "intset \<Rightarrow> nat option" where
  "intsetAllocSize is =
     (let size = unat (is_length is) * unat (is_encoding is) in
      if size \<le> SIZE_MAX - sizeof_intset then Some (sizeof_intset + size) else None)"

definition intsetResize :: "(nat \<Rightarrow> u8) \<Rightarrow> intset \<Rightarrow> u32 \<Rightarrow> intset option" where
  "intsetResize junk is len =
     (let size = unat len * unat (is_encoding is) in
      if size \<le> SIZE_MAX - sizeof_intset
      then Some (is\<lparr>is_contents := zrealloc junk (is_contents is) size\<rparr>) else None)"

text \<open>
  The binary search loop. \<open>lo\<close> and \<open>hi\<close> (\<open>min\<close> and \<open>max\<close> of the source)
  are non-negative \<open>int\<close>s when the body runs, so the unsigned sum of the source does not wrap and the shift is a division by two.
\<close>

function intsetSearch_loop :: "intset \<Rightarrow> u64 \<Rightarrow> int \<Rightarrow> int \<Rightarrow> int \<Rightarrow> u64 \<Rightarrow> (int \<times> int \<times> u64) option" where
  "intsetSearch_loop is value lo hi mid cur =
     (if hi \<ge> lo then
        (let mid = (lo + hi) div 2 in
         do { cur \<leftarrow> intsetGetAt is mid;
              if sint value > sint cur then intsetSearch_loop is value (mid + 1) hi mid cur
              else if sint value < sint cur then intsetSearch_loop is value lo (mid - 1) mid cur
              else Some (lo, mid, cur) })
      else Some (lo, mid, cur))"
  by pat_completeness auto
termination
  by (relation "measure (\<lambda>(is, value, lo, hi, mid, cur). nat (hi - lo + 1))") auto

declare intsetSearch_loop.simps [simp del]

text \<open>Result: found flag and the position written through \<open>pos\<close>.\<close>

definition intsetSearch :: "intset \<Rightarrow> u64 \<Rightarrow> (bool \<times> u32) option" where
  "intsetSearch is value =
     (let lo = 0; hi = sint (is_length is - 1); mid = -1; cur = -1 in
      if is_length is = 0 then Some (False, 0)
      else do {
        last \<leftarrow> intsetGetAt is hi;
        if sint value > sint last then Some (False, is_length is)
        else do {
          first \<leftarrow> intsetGetAt is 0;
          if sint value < sint first then Some (False, 0)
          else do {
            (lo, mid, cur) \<leftarrow> intsetSearch_loop is value lo hi mid cur;
            if value = cur then Some (True, of_int mid) else Some (False, of_int lo)
          }
        }
      })"

text \<open>\<open>while(length--)\<close> of the upgrade: the remaining count is the recursion argument.\<close>

primrec intsetUpgrade_loop :: "nat \<Rightarrow> intset \<Rightarrow> u32 \<Rightarrow> int \<Rightarrow> intset option" where
  "intsetUpgrade_loop 0 is curenc prepend = Some is"
| "intsetUpgrade_loop (Suc n) is curenc prepend =
     do { v \<leftarrow> intsetGetEncoded is (int n) curenc;
          is \<leftarrow> intsetSetAt is (int n + prepend) v;
          intsetUpgrade_loop n is curenc prepend }"

definition intsetUpgradeAndAdd :: "(nat \<Rightarrow> u8) \<Rightarrow> intset \<Rightarrow> u64 \<Rightarrow> intset option" where
  "intsetUpgradeAndAdd junk is value =
     (let curenc = is_encoding is;
          newenc = intsetValueEncoding value;
          len = sint (is_length is);
          prepend = (if sint value < 0 then 1 else 0) in
      do {
        is \<leftarrow> intsetResize junk (is\<lparr>is_encoding := newenc\<rparr>) (is_length is + 1);
        is \<leftarrow> (if len < 0 then None else intsetUpgrade_loop (nat len) is curenc prepend);
        is \<leftarrow> (if prepend \<noteq> 0 then intsetSetAt is 0 value
               else intsetSetAt is (sint (is_length is)) value);
        Some (is\<lparr>is_length := is_length is + 1\<rparr>)
      })"

text \<open>\<open>bytes\<close> is a 32-bit product, as in the source.\<close>

definition intsetMoveTail :: "intset \<Rightarrow> u32 \<Rightarrow> u32 \<Rightarrow> intset option" where
  "intsetMoveTail is from to =
     (let bytes = is_length is - from;
          w = (if is_encoding is = INTSET_ENC_INT64 then 8
               else if is_encoding is = INTSET_ENC_INT32 then 4 else 2 :: u32);
          src = unat from * unat w;
          dst = unat to * unat w;
          bytes = bytes * w in
      do { cs \<leftarrow> mem_move (is_contents is) dst src (unat bytes);
           Some (is\<lparr>is_contents := cs\<rparr>) })"

definition intsetAdd :: "(nat \<Rightarrow> u8) \<Rightarrow> intset \<Rightarrow> u64 \<Rightarrow> (intset \<times> bool) option" where
  "intsetAdd junk is value =
     (let valenc = intsetValueEncoding value in
      if valenc > is_encoding is then
        do { is \<leftarrow> intsetUpgradeAndAdd junk is value; Some (is, True) }
      else do {
        (found, pos) \<leftarrow> intsetSearch is value;
        if found then Some (is, False)
        else do {
          is \<leftarrow> intsetResize junk is (is_length is + 1);
          is \<leftarrow> (if pos < is_length is then intsetMoveTail is pos (pos + 1) else Some is);
          is \<leftarrow> intsetSetAt is (sint pos) value;
          Some (is\<lparr>is_length := is_length is + 1\<rparr>, True)
        }
      })"

definition intsetRemove :: "(nat \<Rightarrow> u8) \<Rightarrow> intset \<Rightarrow> u64 \<Rightarrow> (intset \<times> bool) option" where
  "intsetRemove junk is value =
     (let valenc = intsetValueEncoding value in
      if valenc \<le> is_encoding is then do {
        (found, pos) \<leftarrow> intsetSearch is value;
        if found then do {
          let len = is_length is;
          is \<leftarrow> (if pos < len - 1 then intsetMoveTail is (pos + 1) pos else Some is);
          is \<leftarrow> intsetResize junk is (len - 1);
          Some (is\<lparr>is_length := len - 1\<rparr>, True)
        } else Some (is, False)
      } else Some (is, False))"

definition intsetFind :: "intset \<Rightarrow> u64 \<Rightarrow> bool option" where
  "intsetFind is value =
     (let valenc = intsetValueEncoding value in
      if valenc \<le> is_encoding is then map_option fst (intsetSearch is value) else Some False)"

text \<open>\<open>rand()\<close> is a parameter: the value drawn.\<close>

definition intsetRandom :: "nat \<Rightarrow> intset \<Rightarrow> u64 option" where
  "intsetRandom rand is =
     (let len = is_length is in
      if len = 0 then None else intsetGetAt is (int (rand mod unat len)))"

definition intsetMax :: "intset \<Rightarrow> u64 option" where
  "intsetMax is = (let len = is_length is in intsetGetAt is (sint (len - 1)))"

definition intsetMin :: "intset \<Rightarrow> u64 option" where
  "intsetMin is = intsetGetAt is 0"

text \<open>Outer option: undefined behaviour. Inner option: the return code and \<open>*value\<close>.\<close>

definition intsetGet :: "intset \<Rightarrow> u32 \<Rightarrow> u64 option option" where
  "intsetGet is pos =
     (if pos < is_length is then map_option Some (intsetGetAt is (sint pos)) else Some None)"

definition intsetLen :: "intset \<Rightarrow> u32" where
  "intsetLen is = is_length is"

definition intsetBlobLen :: "intset \<Rightarrow> nat" where
  "intsetBlobLen is = sizeof_intset + unat (is_length is) * unat (is_encoding is)"

text \<open>The cast \<open>(intset *)p\<close> of a buffer of at least eight bytes, and its inverse.\<close>

definition intset_of_blob :: "bytes \<Rightarrow> intset" where
  "intset_of_blob p =
     \<lparr>is_encoding = of_le (take 4 p), is_length = of_le (take 4 (drop 4 p)), is_contents = drop 8 p\<rparr>"

definition blob_of_intset :: "intset \<Rightarrow> bytes" where
  "blob_of_intset is = le_bytes 4 (is_encoding is) @ le_bytes 4 (is_length is) @ is_contents is"

text \<open>The order check of the deep validation: \<open>n\<close> records are left, the next one is \<open>i\<close>.\<close>

primrec intsetValidate_loop :: "nat \<Rightarrow> intset \<Rightarrow> nat \<Rightarrow> u64 \<Rightarrow> bool option" where
  "intsetValidate_loop 0 is i prev = Some True"
| "intsetValidate_loop (Suc n) is i prev =
     do { cur \<leftarrow> intsetGetAt is (sint (of_nat i :: u32));
          if sint cur \<le> sint prev then Some False else intsetValidate_loop n is (Suc i) cur }"

definition intsetValidateIntegrity :: "bytes \<Rightarrow> nat \<Rightarrow> bool \<Rightarrow> bool option" where
  "intsetValidateIntegrity p sz deep =
     (if sz < sizeof_intset then Some False
      else
        let is = intset_of_blob p; encoding = is_encoding is in
        if encoding \<noteq> INTSET_ENC_INT64 \<and> encoding \<noteq> INTSET_ENC_INT32 \<and> encoding \<noteq> INTSET_ENC_INT16
        then Some False
        else
          let record_size = unat encoding; count = unat (is_length is) in
          if sizeof_intset + count * record_size \<noteq> sz then Some False
          else if count = 0 then Some False
          else if \<not> deep then Some True
          else do { prev \<leftarrow> intsetGetAt is 0; intsetValidate_loop (count - 1) is 1 prev })"


subsection \<open>Elements as bytes\<close>

definition decode_elem :: "nat \<Rightarrow> bytes \<Rightarrow> u64" where
  "decode_elem w bs =
     (if w = 8 then of_le bs else if w = 4 then scast (of_le bs :: u32) else scast (of_le bs :: u16))"

definition encode_elem :: "nat \<Rightarrow> u64 \<Rightarrow> bytes" where
  "encode_elem w v =
     (if w = 8 then le_bytes 8 v else if w = 4 then le_bytes 4 (ucast v :: u32)
      else le_bytes 2 (ucast v :: u16))"

definition elem_at :: "nat \<Rightarrow> bytes \<Rightarrow> nat \<Rightarrow> u64" where
  "elem_at w cs i = decode_elem w (take w (drop (i * w) cs))"

definition put_elem :: "nat \<Rightarrow> bytes \<Rightarrow> nat \<Rightarrow> u64 \<Rightarrow> bytes" where
  "put_elem w cs i v = take (i * w) cs @ encode_elem w v @ drop (i * w + w) cs"

definition width_ok :: "nat \<Rightarrow> bool" where
  "width_ok w \<longleftrightarrow> w = 2 \<or> w = 4 \<or> w = 8"

definition fits :: "nat \<Rightarrow> int \<Rightarrow> bool" where
  "fits w x \<longleftrightarrow> - (2 ^ (8 * w - 1)) \<le> x \<and> x < 2 ^ (8 * w - 1)"

lemma width_ok_numerals [simp]: "width_ok 2" "width_ok 4" "width_ok 8"
  by (simp_all add: width_ok_def)

lemma width_ok_encodingE:
  assumes "width_ok (unat (e :: u32))"
  obtains "e = 2" | "e = 4" | "e = 8"
proof -
  have "unat e = 2 \<Longrightarrow> e = 2" "unat e = 4 \<Longrightarrow> e = 4" "unat e = 8 \<Longrightarrow> e = 8"
    by (rule unsigned_word_eqI, simp)+
  then show thesis using assms that unfolding width_ok_def by blast
qed

lemma length_encode_elem [simp]: "width_ok w \<Longrightarrow> length (encode_elem w v) = w"
  by (auto simp: encode_elem_def width_ok_def)

lemma sint_scast_u64 [simp]:
  "sint (scast (x :: u32) :: u64) = sint x" "sint (scast (y :: u16) :: u64) = sint y"
  by (simp_all add: sint_up_scast is_up)

lemma sint_ucast_narrow:
  "sint (ucast (v :: u64) :: u32) = signed_take_bit 31 (sint v)"
  "sint (ucast v :: u16) = signed_take_bit 15 (sint v)"
  by (simp_all add: sint_uint unsigned_ucast_eq signed_take_bit_take_bit signed_take_bit_signed_take_bit
      min_def)

lemma fits_8: "fits 8 (sint (v :: u64))"
  using sint_ge[of v] sint_lt[of v] by (simp add: fits_def)

lemma fits_decode_elem: "width_ok w \<Longrightarrow> fits w (sint (decode_elem w bs))"
  using sint_ge[of "of_le bs :: u64"] sint_lt[of "of_le bs :: u64"]
    sint_ge[of "of_le bs :: u32"] sint_lt[of "of_le bs :: u32"]
    sint_ge[of "of_le bs :: u16"] sint_lt[of "of_le bs :: u16"]
  by (auto simp: width_ok_def decode_elem_def fits_def)

lemma fits_elem_at: "width_ok w \<Longrightarrow> fits w (sint (elem_at w cs i))"
  by (simp add: elem_at_def fits_decode_elem)

lemma decode_encode_elem:
  assumes "width_ok w" "fits w (sint v)"
  shows "decode_elem w (encode_elem w v) = v"
proof -
  have "sint (decode_elem w (encode_elem w v)) = sint v"
    using assms
    by (auto simp: width_ok_def fits_def decode_elem_def encode_elem_def sint_ucast_narrow
        signed_take_bit_int_eq_self)
  then show ?thesis by (rule signed_word_eqI)
qed

lemma fits_mono: "fits w x \<Longrightarrow> width_ok w \<Longrightarrow> width_ok w' \<Longrightarrow> w \<le> w' \<Longrightarrow> fits w' x"
  by (auto simp: fits_def width_ok_def)

lemma length_put_elem [simp]:
  "width_ok w \<Longrightarrow> i * w + w \<le> length cs \<Longrightarrow> length (put_elem w cs i v) = length cs"
  by (simp add: put_elem_def)

lemma elem_at_put_same:
  assumes "width_ok w" "fits w (sint v)" "i * w + w \<le> length cs"
  shows "elem_at w (put_elem w cs i v) i = v"
  using take_drop_write_same[of "i * w" "encode_elem w v" cs] assms
  by (simp add: elem_at_def put_elem_def decode_encode_elem)

text \<open>A write leaves every element, of any width, that does not overlap it.\<close>

lemma elem_at_put_disjoint:
  assumes "width_ok w" "i * w + w \<le> length cs"
    and "j * w' + w' \<le> i * w \<or> i * w + w \<le> j * w'"
  shows "elem_at w' (put_elem w cs i v) j = elem_at w' cs j"
  using take_drop_write_other[of "i * w" "encode_elem w v" cs "j * w'" w'] assms
  by (simp add: elem_at_def put_elem_def)

lemma elem_at_put_other:
  assumes "width_ok w" "i * w + w \<le> length cs" "i \<noteq> j"
  shows "elem_at w (put_elem w cs i v) j = elem_at w cs j"
proof -
  have "Suc j \<le> i \<or> Suc i \<le> j" using assms(3) by linarith
  then have "Suc j * w \<le> i * w \<or> Suc i * w \<le> j * w" by (meson mult_le_mono1)
  with assms show ?thesis by (intro elem_at_put_disjoint) (auto simp: add.commute)
qed

subsection \<open>Accessors on the bytes\<close>

lemma intsetGetEncoded_eq:
  assumes "width_ok (unat enc)" "i * unat enc + unat enc \<le> length (is_contents is)"
  shows "intsetGetEncoded is (int i) enc = Some (elem_at (unat enc) (is_contents is) i)"
  using assms
  by (elim width_ok_encodingE)
     (simp_all add: intsetGetEncoded_def intset_enc_defs array_read_def mem_read_Some elem_at_def
        decode_elem_def)

lemma intsetSetAt_eq:
  assumes "width_ok (unat (is_encoding is))"
    and "i * unat (is_encoding is) + unat (is_encoding is) \<le> length (is_contents is)"
  shows "intsetSetAt is (int i) v =
    Some (is\<lparr>is_contents := put_elem (unat (is_encoding is)) (is_contents is) i v\<rparr>)"
  using assms
  by (elim width_ok_encodingE)
     (simp_all add: intsetSetAt_def intset_enc_defs array_write_def mem_write_Some put_elem_def
        encode_elem_def)


subsection \<open>Well-formed intsets\<close>

abbreviation is_width :: "intset \<Rightarrow> nat" where "is_width is \<equiv> unat (is_encoding is)"
abbreviation is_count :: "intset \<Rightarrow> nat" where "is_count is \<equiv> unat (is_length is)"

definition intset_elems :: "intset \<Rightarrow> int list" where
  "intset_elems is = map (\<lambda>i. sint (elem_at (is_width is) (is_contents is) i)) [0..<is_count is]"

text \<open>
  The representation invariant: a valid encoding, exactly the bytes the header announces (and their
  number representable in 32 bits), elements in strictly increasing order.
\<close>

definition intset_shape :: "intset \<Rightarrow> bool" where
  "intset_shape is \<longleftrightarrow> width_ok (is_width is) \<and>
     length (is_contents is) = is_count is * is_width is \<and> is_count is * is_width is < 2 ^ 32"

definition intset_wf :: "intset \<Rightarrow> bool" where
  "intset_wf is \<longleftrightarrow> intset_shape is \<and> sorted_wrt (<) (intset_elems is)"

text \<open>Room for one more element of the widest encoding.\<close>

definition intset_room :: "intset \<Rightarrow> bool" where
  "intset_room is \<longleftrightarrow> (is_count is + 1) * 8 < 2 ^ 32"

lemma length_intset_elems [simp]: "length (intset_elems is) = is_count is"
  by (simp add: intset_elems_def)

lemma intset_elems_nth:
  "i < is_count is \<Longrightarrow> intset_elems is ! i = sint (elem_at (is_width is) (is_contents is) i)"
  by (simp add: intset_elems_def)

lemma intset_wfD:
  assumes "intset_wf is"
  shows "width_ok (is_width is)" "length (is_contents is) = is_count is * is_width is"
    "is_count is < 2 ^ 31" "sorted_wrt (<) (intset_elems is)" "is_count is * is_width is < 2 ^ 32"
  using assms by (auto simp: intset_wf_def intset_shape_def width_ok_def)

lemma intset_elems_fit: "intset_wf is \<Longrightarrow> x \<in> set (intset_elems is) \<Longrightarrow> fits (is_width is) x"
  by (auto simp: intset_elems_def intset_wf_def intset_shape_def fits_elem_at)

lemma elem_at_zrealloc:
  assumes "j * w + w \<le> length cs" "length cs \<le> n \<or> j * w + w \<le> n"
  shows "elem_at w (zrealloc junk cs n) j = elem_at w cs j"
proof -
  have "take (j * w + w) (zrealloc junk cs n) = take (j * w + w) cs"
    using assms by (intro take_zrealloc) auto
  then have "take w (drop (j * w) (zrealloc junk cs n)) = take w (drop (j * w) cs)"
    by (metis add.commute take_drop)
  then show ?thesis by (simp add: elem_at_def)
qed

lemma in_array_bound: "i < n \<Longrightarrow> length cs = n * w \<Longrightarrow> i * w + w \<le> length cs" for cs :: bytes
  by (metis Suc_leI add.commute mult_Suc mult_le_mono1)

lemma intsetGetAt_shape:
  assumes "intset_shape is" "i < is_count is"
  shows "\<exists>v. intsetGetAt is (int i) = Some v \<and> sint v = intset_elems is ! i"
  using assms
  by (simp add: intsetGetAt_def intset_shape_def intset_elems_nth intsetGetEncoded_eq [OF _ in_array_bound])

lemmas intsetGetAt_eq = intsetGetAt_shape [OF conjunct1 [OF intset_wf_def [THEN iffD1]]]

lemma unat_pred: "(x :: 'a::len word) \<noteq> 0 \<Longrightarrow> unat (x - 1) = unat x - 1"
  by (simp add: unat_minus_one)

lemma unat_succ_u32: "unat (x :: u32) + 1 < 2 ^ 32 \<Longrightarrow> unat (x + 1) = unat x + 1"
  by (simp add: unat_word_ariths)

subsection \<open>Binary search\<close>

text \<open>What the search promises: membership, the position of a member, the insertion point otherwise.\<close>

definition search_spec :: "int list \<Rightarrow> int \<Rightarrow> bool \<Rightarrow> nat \<Rightarrow> bool" where
  "search_spec xs v found p \<longleftrightarrow>
     (if found then p < length xs \<and> xs ! p = v
      else p \<le> length xs \<and> (\<forall>i<p. xs ! i < v) \<and> (\<forall>i. p \<le> i \<longrightarrow> i < length xs \<longrightarrow> v < xs ! i))"

lemma search_spec_mem: "search_spec xs v found p \<Longrightarrow> found \<longleftrightarrow> v \<in> set xs"
  by (auto simp: search_spec_def in_set_conv_nth split: if_splits)
     (metis less_irrefl linorder_not_le)

lemma intsetSearch_loop_spec:
  assumes wf: "intset_wf is" and "0 \<le> lo" "hi < int (is_count is)" "lo \<le> hi + 1"
    and "lo \<le> hi \<or> sint cur \<noteq> sint value"
    and "\<And>i. i < nat lo \<Longrightarrow> intset_elems is ! i < sint value"
    and "\<And>i. hi < int i \<Longrightarrow> i < is_count is \<Longrightarrow> sint value < intset_elems is ! i"
  shows "\<exists>lo' mid' cur'. intsetSearch_loop is value lo hi mid cur = Some (lo', mid', cur') \<and>
     (if value = cur' then 0 \<le> mid' \<and> search_spec (intset_elems is) (sint value) True (nat mid')
      else 0 \<le> lo' \<and> search_spec (intset_elems is) (sint value) False (nat lo'))"
  using assms
proof (induction "is" "value" lo hi mid cur rule: intsetSearch_loop.induct)
  case (1 "is" "value" lo hi mid cur)
  let ?xs = "intset_elems is"
  note wf = "1.prems"(1)
  have srt: "sorted_wrt (<) ?xs" using wf intset_wfD by blast
  show ?case
  proof (cases "lo \<le> hi")
    case True
    define m where "m = (lo + hi) div 2"
    have m: "lo \<le> m" "m \<le> hi" using True by (auto simp: m_def)
    then have mb: "0 \<le> m" "nat m < is_count is" using "1.prems" by auto
    then obtain c where c: "intsetGetAt is m = Some c" "sint c = ?xs ! nat m"
      using intsetGetAt_eq[OF wf, of "nat m"] by auto
    note step = intsetSearch_loop.simps[of "is" "value" lo hi mid cur]
    consider (gt) "sint value > sint c" | (lt) "sint value < sint c" | (eq) "sint value = sint c"
      by linarith
    then show ?thesis
    proof cases
      case gt
      have below: "?xs ! i < sint value" if "i < nat (m + 1)" for i
      proof -
        have "i \<le> nat m" using that by linarith
        then show ?thesis using sorted_wrt_less_nth_le[OF srt, of i "nat m"] mb c gt by simp
      qed
      have "intsetSearch_loop is value lo hi mid cur = intsetSearch_loop is value (m + 1) hi m c"
        using step True c gt by (simp add: m_def[symmetric])
      then show ?thesis
        using "1.IH"(1)[OF True m_def c(1) gt wf] below gt c m mb "1.prems" by auto
    next
      case lt
      have above: "sint value < ?xs ! i" if "m - 1 < int i" "i < is_count is" for i
      proof -
        have "nat m \<le> i" using that by linarith
        then show ?thesis using sorted_wrt_less_nth_le[OF srt, of "nat m" i] that mb c lt by simp
      qed
      have "intsetSearch_loop is value lo hi mid cur = intsetSearch_loop is value lo (m - 1) m c"
        using step True c lt by (simp add: m_def[symmetric])
      then show ?thesis
        using "1.IH"(2)[OF True m_def c(1) _ lt wf] above lt c m mb "1.prems" by auto
    next
      case eq
      then have "value = c" by (rule signed_word_eqI)
      then show ?thesis
        using c mb True step by (auto simp: m_def[symmetric] search_spec_def)
    qed
  next
    case False
    then have "value \<noteq> cur" "lo = hi + 1" using "1.prems" by auto
    then show ?thesis
      using False "1.prems" by (auto simp: intsetSearch_loop.simps[of "is"] search_spec_def)
  qed
qed

lemma intsetSearch_spec:
  assumes wf: "intset_wf is"
  shows "\<exists>found pos. intsetSearch is value = Some (found, pos) \<and>
    search_spec (intset_elems is) (sint value) found (unat pos)"
proof (cases "is_length is = 0")
  case True
  then show ?thesis by (auto simp: intsetSearch_def search_spec_def)
next
  case False
  let ?xs = "intset_elems is" and ?n = "is_count is"
  have n: "0 < ?n" "?n < 2 ^ 31" using False intset_wfD[OF wf] by (auto simp: unat_gt_0)
  have srt: "sorted_wrt (<) ?xs" using wf intset_wfD by blast
  have hi: "sint (is_length is - 1) = int (?n - 1)"
    using n False by (simp add: sint_small unat_pred)
  obtain l where l: "intsetGetAt is (int (?n - 1)) = Some l" "sint l = ?xs ! (?n - 1)"
    using intsetGetAt_eq[OF wf, of "?n - 1"] n by auto
  obtain f where f: "intsetGetAt is 0 = Some f" "sint f = ?xs ! 0"
    using intsetGetAt_eq[OF wf, of 0] n by auto
  show ?thesis
  proof (cases "sint value > sint l \<or> sint value < sint f")
    case True
    have "?xs ! i < sint value" if "sint value > sint l" "i < ?n" for i
    proof -
      have "i \<le> ?n - 1" using that by linarith
      then show ?thesis using sorted_wrt_less_nth_le[OF srt, of i "?n - 1"] that l n by simp
    qed
    moreover have "sint value < ?xs ! i" if "sint value < sint f" "i < ?n" for i
      using sorted_wrt_less_nth_le[OF srt, of 0 i] that f n by auto
    ultimately show ?thesis
      using True False l f hi by (auto simp: intsetSearch_def search_spec_def)
  next
    case inside: False
    obtain lo' mid' cur' where loop:
      "intsetSearch_loop is value 0 (int (?n - 1)) (-1) (-1) = Some (lo', mid', cur')"
      and res: "if value = cur' then 0 \<le> mid' \<and> search_spec ?xs (sint value) True (nat mid')
                else 0 \<le> lo' \<and> search_spec ?xs (sint value) False (nat lo')"
      using intsetSearch_loop_spec[OF wf, of 0 "int (?n - 1)" "-1" "value" "-1"] n by auto
    have "unat (word_of_int k :: u32) = nat k" if "0 \<le> k" "nat k \<le> ?n" for k
      using that n by (simp add: unat_word_of_int)
    then show ?thesis
      using res loop inside False l f hi
      by (auto simp: intsetSearch_def search_spec_def split: if_splits)
  qed
qed


subsection \<open>Upgrading in place\<close>

lemma intsetUpgrade_loop_spec:
  assumes "width_ok w" "width_ok (is_width is)" "w < is_width is" "unat curenc = w"
    and "(n + p) * is_width is \<le> length (is_contents is)"
  shows "\<exists>cs'. intsetUpgrade_loop n is curenc (int p) = Some (is\<lparr>is_contents := cs'\<rparr>) \<and>
     length cs' = length (is_contents is) \<and>
     (\<forall>j<n. elem_at (is_width is) cs' (j + p) = elem_at w (is_contents is) j) \<and>
     (\<forall>j\<ge>n + p. elem_at (is_width is) cs' j = elem_at (is_width is) (is_contents is) j)"
  using assms
proof (induction n arbitrary: "is")
  case 0
  then show ?case by (intro exI[of _ "is_contents is"]) simp
next
  case (Suc m)
  let ?w' = "is_width is" and ?cs = "is_contents is"
  let ?v = "elem_at w ?cs m"
  let ?cs1 = "put_elem ?w' ?cs (m + p) ?v"
  have b': "(m + p) * ?w' + ?w' \<le> length ?cs" using Suc.prems(5) by (simp add: algebra_simps)
  have low: "m * w \<le> (m + p) * ?w'" using Suc.prems(3) by (intro mult_le_mono) auto
  then have b: "m * w + w \<le> length ?cs" using b' Suc.prems(3) by linarith
  have fit: "fits ?w' (sint ?v)"
    using fits_mono[OF fits_elem_at[OF Suc.prems(1)] Suc.prems(1,2)] Suc.prems(3) by simp
  have step: "intsetUpgrade_loop (Suc m) is curenc (int p) =
      intsetUpgrade_loop m (is\<lparr>is_contents := ?cs1\<rparr>) curenc (int p)"
    using intsetGetEncoded_eq[of curenc m "is"] intsetSetAt_eq[of "is" "m + p" ?v] b b' Suc.prems
    by simp
  obtain cs' where cs': "intsetUpgrade_loop m (is\<lparr>is_contents := ?cs1\<rparr>) curenc (int p) =
        Some (is\<lparr>is_contents := cs'\<rparr>)"
      "length cs' = length ?cs"
      "\<forall>j<m. elem_at ?w' cs' (j + p) = elem_at w ?cs1 j"
      "\<forall>j\<ge>m + p. elem_at ?w' cs' j = elem_at ?w' ?cs1 j"
    using Suc.IH[of "is\<lparr>is_contents := ?cs1\<rparr>"] Suc.prems b' by (auto simp: algebra_simps)
  have old: "elem_at w ?cs1 j = elem_at w ?cs j" if "j < m" for j
  proof -
    have "j * w + w \<le> m * w" using that mult_le_mono1[of "Suc j" m w] by simp
    then show ?thesis using low b' Suc.prems(2) by (intro elem_at_put_disjoint) auto
  qed
  have new: "elem_at ?w' ?cs1 (m + p) = ?v"
    using elem_at_put_same[OF Suc.prems(2) fit b'] .
  have above: "elem_at ?w' ?cs1 j = elem_at ?w' ?cs j" if "Suc m + p \<le> j" for j
    using that elem_at_put_other[OF Suc.prems(2) b', of j] by simp
  show ?case
    using step cs' old new above by (intro exI[of _ cs']) (auto simp: less_Suc_eq)
qed

lemma intsetValueEncoding_width [simp]: "width_ok (unat (intsetValueEncoding v))"
  by (simp add: intsetValueEncoding_def intset_enc_defs)

lemma intsetValueEncoding_fits: "fits (unat (intsetValueEncoding v)) (sint v)"
  using fits_8[of v] by (auto simp: intsetValueEncoding_def intset_enc_defs fits_def)

lemma intsetValueEncoding_le_iff:
  assumes "width_ok (unat e)"
  shows "intsetValueEncoding v \<le> e \<longleftrightarrow> fits (unat e) (sint v)"
  using assms fits_8[of v]
  by (elim width_ok_encodingE) (auto simp: intsetValueEncoding_def intset_enc_defs fits_def)

lemma intsetResize_eq:
  assumes "width_ok (is_width is)"
  shows "intsetResize junk is len =
    Some (is\<lparr>is_contents := zrealloc junk (is_contents is) (unat len * is_width is)\<rparr>)"
proof -
  have "unat len < 2 ^ 32" using unsigned_less[of len] by simp
  then have "unat len * is_width is \<le> 2 ^ 32 * 8"
    using assms by (intro mult_le_mono) (auto simp: width_ok_def)
  then show ?thesis by (simp add: intsetResize_def SIZE_MAX_def sizeof_intset_def)
qed

lemma intsetUpgradeAndAdd_spec:
  assumes wf: "intset_wf is" and room: "intset_room is"
    and up: "is_encoding is < intsetValueEncoding v"
  shows "\<exists>is'. intsetUpgradeAndAdd junk is v = Some is' \<and> intset_wf is' \<and>
     is_encoding is' = intsetValueEncoding v \<and>
     intset_elems is' = (if sint v < 0 then sint v # intset_elems is else intset_elems is @ [sint v])"
proof -
  let ?e = "intsetValueEncoding v" and ?n = "is_count is" and ?w = "is_width is"
  let ?w' = "unat ?e"
  define p :: nat where "p = (if sint v < 0 then 1 else 0)"
  define q where "q = (if sint v < 0 then 0 else ?n)"
  note wfs = intset_wfD[OF wf]
  have n: "unat (is_length is + 1) = ?n + 1" "?n + 1 < 2 ^ 29"
    using room by (auto simp: intset_room_def unat_word_ariths)
  have w: "?w < ?w'" using up by (simp add: word_less_nat_alt)
  let ?cs = "zrealloc junk (is_contents is) ((?n + 1) * ?w')"
  let ?is1 = "is\<lparr>is_encoding := ?e, is_contents := ?cs\<rparr>"
  have res: "intsetResize junk (is\<lparr>is_encoding := ?e\<rparr>) (is_length is + 1) = Some ?is1"
    using intsetResize_eq[of "is\<lparr>is_encoding := ?e\<rparr>"] n by simp
  have len: "(?n + p) * is_width ?is1 \<le> length (is_contents ?is1)" by (simp add: p_def)
  have w1: "?w < is_width ?is1" "width_ok (is_width ?is1)" using w by simp_all
  obtain cs' where cs': "intsetUpgrade_loop ?n ?is1 (is_encoding is) (int p) = Some (?is1\<lparr>is_contents := cs'\<rparr>)"
      "length cs' = (?n + 1) * ?w'"
      "\<And>j. j < ?n \<Longrightarrow> elem_at ?w' cs' (j + p) = elem_at ?w ?cs j"
    using intsetUpgrade_loop_spec[OF wfs(1) w1(2,1) refl len] by auto
  have old: "elem_at ?w ?cs j = elem_at ?w (is_contents is) j" if "j < ?n" for j
  proof -
    have "length (is_contents is) \<le> (?n + 1) * ?w'"
      using wfs(2) w mult_le_mono[of ?n "?n + 1" ?w ?w'] by simp
    then show ?thesis using in_array_bound[OF that wfs(2)] by (intro elem_at_zrealloc) auto
  qed
  let ?cs2 = "put_elem ?w' cs' q v"
  let ?is2 = "?is1\<lparr>is_contents := ?cs2, is_length := is_length is + 1\<rparr>"
  have qb: "q \<le> ?n" "q * ?w' + ?w' \<le> length cs'"
    using in_array_bound[of q "?n + 1" cs' ?w'] cs'(2) by (auto simp: q_def)
  have set_q: "intsetSetAt (?is1\<lparr>is_contents := cs'\<rparr>) (int q) v = Some (?is1\<lparr>is_contents := ?cs2\<rparr>)"
    using intsetSetAt_eq[of "?is1\<lparr>is_contents := cs'\<rparr>" q v] qb by simp
  have run: "intsetUpgradeAndAdd junk is v = Some ?is2"
    using res cs'(1) set_q sint_small[of "is_length is"] wfs(3)
    by (auto simp: intsetUpgradeAndAdd_def Let_def p_def q_def)
  have elems: "intset_elems ?is2 = take q (intset_elems is) @ sint v # drop q (intset_elems is)"
  proof -
    have "sint (elem_at ?w' ?cs2 q) = sint v"
      using elem_at_put_same[OF _ intsetValueEncoding_fits qb(2)] by simp
    moreover have "elem_at ?w' ?cs2 i = elem_at ?w (is_contents is) (if i < q then i else i - 1)"
      if "i \<noteq> q" "i \<le> ?n" for i
      using that elem_at_put_other[OF _ qb(2), of i] cs'(3)[of "if i < q then i else i - 1"]
        old[of "if i < q then i else i - 1"]
      by (auto simp: p_def q_def split: if_splits)
    ultimately show ?thesis
      using qb(1) n unfolding intset_elems_def
      by (simp del: upt_Suc) (intro map_nth_insert; simp)
  qed
  have "\<not> fits ?w (sint v)"
    using intsetValueEncoding_le_iff[OF wfs(1), of v] up by (metis linorder_not_le)
  moreover have "fits ?w x" if "x \<in> set (intset_elems is)" for x
    using intset_elems_fit[OF wf that] .
  ultimately have "sorted_wrt (<) (intset_elems ?is2)"
    unfolding elems using wfs(4) by (force simp: q_def fits_def sorted_wrt_append)
  moreover have "(?n + 1) * ?w' < 2 ^ 32"
    using room intsetValueEncoding_width[of v] by (auto simp: intset_room_def width_ok_def)
  ultimately have "intset_wf ?is2"
    using n cs'(2) qb by (simp add: intset_wf_def intset_shape_def)
  with run elems show ?thesis by (auto simp: q_def)
qed


subsection \<open>Insertion and removal in the same encoding\<close>

lemma elem_at_splice:
  assumes b: "(from + k) * w \<le> length cs" "(to + k) * w \<le> length cs"
  defines "cs' \<equiv> take (to * w) cs @ take (k * w) (drop (from * w) cs) @ drop (to * w + k * w) cs"
  shows "elem_at w cs' j =
    (if to \<le> j \<and> j < to + k then elem_at w cs (j - to + from) else elem_at w cs j)"
proof (cases "to \<le> j \<and> j < to + k")
  case True
  have le: "(j - to) * w + w \<le> k * w"
  proof -
    have "Suc (j - to) \<le> k" using True by linarith
    from mult_le_mono1[OF this, of w] show ?thesis by simp
  qed
  have "to * w \<le> j * w" "j * w - to * w = (j - to) * w"
    using True by (simp_all add: diff_mult_distrib)
  then have "drop (j * w) cs' = drop ((j - to) * w) (take (k * w) (drop (from * w) cs) @ drop (to * w + k * w) cs)"
    using b by (simp add: cs'_def algebra_simps)
  then have "take w (drop (j * w) cs') = take w (drop ((j - to) * w) (take (k * w) (drop (from * w) cs)))"
    using b le by (simp add: algebra_simps)
  also have "\<dots> = take w (drop ((j - to + from) * w) cs)"
    using le by (simp add: drop_take algebra_simps min_def)
  finally show ?thesis using True by (simp add: elem_at_def)
next
  case False
  then have "Suc j \<le> to \<or> to + k \<le> j" by linarith
  then have "Suc j * w \<le> to * w \<or> (to + k) * w \<le> j * w" by (meson mult_le_mono1)
  then show ?thesis
    using take_drop_write_other[of "to * w" "take (k * w) (drop (from * w) cs)" cs "j * w" w] b False
    by (auto simp: elem_at_def cs'_def algebra_simps)
qed

lemma intsetMoveTail_spec:
  assumes ok: "width_ok (is_width is)" and "from \<le> is_length is"
    and k: "unat (is_length is) - unat from = k"
    and b: "(unat from + k) * is_width is \<le> length (is_contents is)"
      "(unat to + k) * is_width is \<le> length (is_contents is)" "k * is_width is < 2 ^ 32"
  shows "\<exists>cs'. intsetMoveTail is from to = Some (is\<lparr>is_contents := cs'\<rparr>) \<and>
     length cs' = length (is_contents is) \<and>
     (\<forall>j. elem_at (is_width is) cs' j =
        (if unat to \<le> j \<and> j < unat to + k
         then elem_at (is_width is) (is_contents is) (j - unat to + unat from)
         else elem_at (is_width is) (is_contents is) j))"
proof -
  let ?w = "is_width is" and ?cs = "is_contents is"
  have "unat (is_length is - from) = k" using assms(2) k by (simp add: unat_sub)
  then have bytes: "unat ((is_length is - from) * is_encoding is) = k * ?w"
    using b(3) by (simp add: unat_word_ariths)
  have enc: "(if is_encoding is = INTSET_ENC_INT64 then 8
      else if is_encoding is = INTSET_ENC_INT32 then 4 else 2) = is_encoding is"
    using ok by (elim width_ok_encodingE) (simp_all add: intset_enc_defs)
  let ?cs' = "take (unat to * ?w) ?cs @ take (k * ?w) (drop (unat from * ?w) ?cs) @
    drop (unat to * ?w + k * ?w) ?cs"
  have "intsetMoveTail is from to = Some (is\<lparr>is_contents := ?cs'\<rparr>)"
    using b(1,2) by (simp add: intsetMoveTail_def Let_def enc bytes mem_move_Some add_mult_distrib)
  moreover have "length ?cs' = length ?cs" using b(1,2) by (simp add: add_mult_distrib)
  ultimately show ?thesis using elem_at_splice[OF b(1,2)] by blast
qed

text \<open>The set is kept as its strictly increasing enumeration.\<close>

lemma sorted_insert_at:
  assumes "sorted_wrt (<) xs" "search_spec xs v False p"
  shows "sorted_wrt (<) (take p xs @ v # drop p xs)"
proof -
  have p: "p \<le> length xs" "\<forall>i<p. xs ! i < v" "\<forall>i. p \<le> i \<longrightarrow> i < length xs \<longrightarrow> v < xs ! i"
    using assms(2) by (auto simp: search_spec_def)
  have "\<forall>x\<in>set (take p xs). x < v" "\<forall>x\<in>set (drop p xs). v < x"
    using p by (auto simp: in_set_conv_nth)
  moreover have "sorted_wrt (<) (take p xs @ drop p xs)" using assms(1) by simp
  ultimately show ?thesis by (fastforce simp: sorted_wrt_append simp del: append_take_drop_id)
qed

lemma intsetAdd_same_encoding:
  assumes wf: "intset_wf is" and room: "intset_room is"
    and enc: "intsetValueEncoding v \<le> is_encoding is" and new: "sint v \<notin> set (intset_elems is)"
  shows "\<exists>is' p. intsetAdd junk is v = Some (is', True) \<and> intset_wf is' \<and>
     is_encoding is' = is_encoding is \<and> search_spec (intset_elems is) (sint v) False p \<and>
     intset_elems is' = take p (intset_elems is) @ sint v # drop p (intset_elems is)"
proof -
  let ?n = "is_count is" and ?w = "is_width is" and ?cs = "is_contents is"
  note wfs = intset_wfD[OF wf]
  obtain pos where pos: "intsetSearch is v = Some (False, pos)"
      and sp: "search_spec (intset_elems is) (sint v) False (unat pos)"
    using intsetSearch_spec[OF wf, of v] search_spec_mem new by metis
  define p where "p = unat pos"
  have p: "p \<le> ?n" using sp by (simp add: search_spec_def p_def)
  have n: "unat (is_length is + 1) = ?n + 1" "?n + 1 < 2 ^ 29" "(?n + 1) * ?w < 2 ^ 32"
    using room wfs(1) by (auto simp: intset_room_def unat_word_ariths width_ok_def)
  have p1: "unat (pos + 1) = p + 1" using p n by (simp add: p_def unat_word_ariths)
  define cs1 where "cs1 = zrealloc junk ?cs ((?n + 1) * ?w)"
  have l1: "length cs1 = (?n + 1) * ?w" by (simp add: cs1_def)
  have old: "elem_at ?w cs1 j = elem_at ?w ?cs j" if "j < ?n" for j
    using elem_at_zrealloc[OF in_array_bound[OF that wfs(2)]] wfs(2) by (simp add: cs1_def)
  let ?is1 = "is\<lparr>is_contents := cs1\<rparr>"
  obtain cs2 where mv: "(if pos < is_length ?is1 then intsetMoveTail ?is1 pos (pos + 1) else Some ?is1)
        = Some (is\<lparr>is_contents := cs2\<rparr>)"
      and l2: "length cs2 = length cs1"
      and cs2: "\<And>j. j < p \<Longrightarrow> elem_at ?w cs2 j = elem_at ?w cs1 j"
        "\<And>j. p < j \<Longrightarrow> j \<le> ?n \<Longrightarrow> elem_at ?w cs2 j = elem_at ?w cs1 (j - 1)"
  proof (cases "p < ?n")
    case True
    have "pos \<le> is_length ?is1" "pos < is_length ?is1"
      using True by (simp_all add: p_def word_le_nat_alt word_less_nat_alt)
    moreover have "(p + (?n - p)) * ?w \<le> length cs1" "(p + 1 + (?n - p)) * ?w \<le> length cs1"
      using True l1 by simp_all
    moreover have "(?n - p) * ?w < 2 ^ 32"
      using n(3) by (intro le_less_trans[OF mult_le_mono1[of "?n - p" "?n + 1" ?w]]) simp_all
    ultimately show thesis
      using intsetMoveTail_spec[of ?is1 pos "?n - p" "pos + 1"] wfs(1) p1 that
      by (auto simp: p_def)
  next
    case False
    then have "\<not> pos < is_length ?is1" by (simp add: p_def word_less_nat_alt)
    then show thesis using that[of cs1] False p by auto
  qed
  let ?cs3 = "put_elem ?w cs2 p v"
  let ?is3 = "is\<lparr>is_contents := ?cs3, is_length := is_length is + 1\<rparr>"
  have pb: "p * ?w + ?w \<le> length cs2" using in_array_bound[of p "?n + 1" cs2 ?w] l1 l2 p by simp
  have "sint pos = int p" using p n by (simp add: p_def sint_small)
  then have "intsetSetAt (is\<lparr>is_contents := cs2\<rparr>) (sint pos) v = Some (is\<lparr>is_contents := ?cs3\<rparr>)"
    using intsetSetAt_eq[of "is\<lparr>is_contents := cs2\<rparr>" p v] wfs(1) pb by simp
  moreover have "intsetResize junk is (is_length is + 1) = Some ?is1"
    using intsetResize_eq[OF wfs(1), of junk "is_length is + 1"] n by (simp add: cs1_def)
  ultimately have run: "intsetAdd junk is v = Some (?is3, True)"
    using enc pos mv by (simp add: intsetAdd_def Let_def linorder_not_less[symmetric] split: if_splits)
  have "fits ?w (sint v)" using enc intsetValueEncoding_le_iff[OF wfs(1)] by simp
  then have elems: "intset_elems ?is3 = take p (intset_elems is) @ sint v # drop p (intset_elems is)"
    using elem_at_put_same[OF wfs(1) _ pb] elem_at_put_other[OF wfs(1) pb] cs2 old p n(1)
    unfolding intset_elems_def by (simp del: upt_Suc) (intro map_nth_insert; simp)
  then have "sorted_wrt (<) (intset_elems ?is3)"
    using sorted_insert_at[OF wfs(4) sp] by (simp add: p_def)
  then have "intset_wf ?is3" using n l1 l2 pb wfs(1) by (simp add: intset_wf_def intset_shape_def)
  with run elems sp show ?thesis by (auto simp: p_def)
qed

text \<open>
  \<open>intsetAdd\<close> as set insertion: the result enumerates the set with the new element, in order,
  and the returned flag tells whether it was new.
\<close>

lemma sorted_wrt_less_unique:
  "sorted_wrt (<) xs \<Longrightarrow> xs = sorted_list_of_set (set xs)" for xs :: "'a::linorder list"
  by (simp add: strict_sorted_equal)

lemma intsetAdd_spec:
  assumes wf: "intset_wf is" and room: "intset_room is"
  shows "\<exists>is'. intsetAdd junk is v = Some (is', sint v \<notin> set (intset_elems is)) \<and> intset_wf is' \<and>
     set (intset_elems is') = insert (sint v) (set (intset_elems is)) \<and>
     is_encoding is' = max (is_encoding is) (intsetValueEncoding v)"
proof (cases "is_encoding is < intsetValueEncoding v")
  case True
  have "sint v \<notin> set (intset_elems is)"
    using True intset_elems_fit[OF wf] intsetValueEncoding_le_iff[OF intset_wfD(1)[OF wf], of v]
    by (metis linorder_not_le)
  with True intsetUpgradeAndAdd_spec[OF wf room True, of junk] show ?thesis
    by (auto simp: intsetAdd_def max_def)
next
  case False
  show ?thesis
  proof (cases "sint v \<in> set (intset_elems is)")
    case True
    obtain pos where "intsetSearch is v = Some (True, pos)"
      using intsetSearch_spec[OF wf, of v] search_spec_mem True by metis
    with True False wf show ?thesis by (auto simp: intsetAdd_def max_def)
  next
    case new: False
    have "set (take p xs @ x # drop p xs) = insert x (set xs)" for p xs and x :: int
      by (metis Un_insert_right append_take_drop_id list.simps(15) set_append)
    with intsetAdd_same_encoding[OF wf room _ new, of junk] False new show ?thesis
      by (fastforce simp: max_def)
  qed
qed


lemma intsetRemove_spec:
  assumes wf: "intset_wf is"
  shows "\<exists>is'. intsetRemove junk is v = Some (is', sint v \<in> set (intset_elems is)) \<and> intset_wf is' \<and>
     set (intset_elems is') = set (intset_elems is) - {sint v} \<and> is_encoding is' = is_encoding is"
proof (cases "sint v \<in> set (intset_elems is)")
  case False
  obtain pos where "intsetSearch is v = Some (False, pos)"
    using intsetSearch_spec[OF wf, of v] search_spec_mem False by metis
  with False wf show ?thesis by (auto simp: intsetRemove_def)
next
  case True
  let ?n = "is_count is" and ?w = "is_width is" and ?cs = "is_contents is" and ?xs = "intset_elems is"
  note wfs = intset_wfD[OF wf]
  have enc: "intsetValueEncoding v \<le> is_encoding is"
    using intset_elems_fit[OF wf True] intsetValueEncoding_le_iff[OF wfs(1)] by simp
  obtain pos where pos: "intsetSearch is v = Some (True, pos)"
      and sp: "search_spec ?xs (sint v) True (unat pos)"
    using intsetSearch_spec[OF wf, of v] search_spec_mem True by metis
  define p where "p = unat pos"
  have p: "p < ?n" "?xs ! p = sint v" using sp by (simp_all add: search_spec_def p_def)
  have n: "unat (is_length is - 1) = ?n - 1"
    using p by (intro unat_pred) auto
  have p1: "unat (pos + 1) = p + 1" using p wfs(3) by (simp add: p_def unat_word_ariths)
  obtain cs2 where mv: "(if pos < is_length is - 1 then intsetMoveTail is (pos + 1) pos else Some is)
        = Some (is\<lparr>is_contents := cs2\<rparr>)"
      and l2: "length cs2 = length ?cs"
      and cs2: "\<And>j. j < p \<Longrightarrow> elem_at ?w cs2 j = elem_at ?w ?cs j"
        "\<And>j. p \<le> j \<Longrightarrow> Suc j < ?n \<Longrightarrow> elem_at ?w cs2 j = elem_at ?w ?cs (Suc j)"
  proof (cases "p < ?n - 1")
    case True
    define k where "k = ?n - (p + 1)"
    have "pos < is_length is - 1" "pos + 1 \<le> is_length is"
      using True n p1 by (simp_all add: p_def word_less_nat_alt word_le_nat_alt)
    moreover have "(p + 1 + k) * ?w \<le> length ?cs" "(p + k) * ?w \<le> length ?cs"
      using p(1) wfs(2) by (simp_all add: k_def mult_le_mono1)
    moreover have "k * ?w < 2 ^ 32"
      using wfs(5) by (intro le_less_trans[OF mult_le_mono1[of k ?n ?w]]) (simp_all add: k_def)
    ultimately obtain cs' where "intsetMoveTail is (pos + 1) pos = Some (is\<lparr>is_contents := cs'\<rparr>)"
      "length cs' = length ?cs" "\<forall>j. elem_at ?w cs' j =
        (if p \<le> j \<and> j < p + k then elem_at ?w ?cs (j - p + (p + 1)) else elem_at ?w ?cs j)"
      using intsetMoveTail_spec[of "is" "pos + 1" k pos] wfs(1) p1 by (auto simp: p_def k_def)
    with \<open>pos < is_length is - 1\<close> show thesis by (intro that[of cs']) (auto simp: k_def)
  next
    case False
    then have "\<not> pos < is_length is - 1" using n by (simp add: p_def word_less_nat_alt)
    then show thesis using that[of ?cs] False p by auto
  qed
  let ?m = "?n - 1"
  let ?is3 = "is\<lparr>is_contents := take (?m * ?w) cs2, is_length := is_length is - 1\<rparr>"
  have len: "?m * ?w \<le> length cs2" "length cs2 = ?n * ?w" using l2 wfs(2) by (simp_all add: mult_le_mono1)
  have "intsetRemove junk is v = Some (?is3, True)"
    using enc pos mv intsetResize_eq[of "is\<lparr>is_contents := cs2\<rparr>" junk "is_length is - 1"] n wfs(1) len
    by (simp add: intsetRemove_def Let_def zrealloc_shrink)
  moreover have keep: "elem_at ?w (take (?m * ?w) cs2) j = elem_at ?w cs2 j" if "j < ?m" for j
  proof -
    have "j * ?w + ?w \<le> ?m * ?w" using in_array_bound[of j ?m "take (?m * ?w) cs2" ?w] that len by simp
    moreover from this have "j * ?w + ?w \<le> length cs2" using len(1) by linarith
    ultimately show ?thesis
      using elem_at_zrealloc[of j ?w cs2 "?m * ?w" undefined] len(1) by (simp add: zrealloc_shrink)
  qed
  have elems: "intset_elems ?is3 = take p ?xs @ drop (Suc p) ?xs"
    using n p(1) cs2 keep unfolding intset_elems_def
    by (simp del: One_nat_def) (intro map_nth_remove; simp)
  have xs: "?xs = take p ?xs @ sint v # drop (Suc p) ?xs"
    using id_take_nth_drop[of p ?xs] p by simp
  have "sorted_wrt (<) (take p ?xs @ sint v # drop (Suc p) ?xs)" using wfs(4) xs by metis
  then have srt: "sorted_wrt (<) (intset_elems ?is3)"
    and notin: "sint v \<notin> set (intset_elems ?is3)"
    unfolding elems by (auto simp: sorted_wrt_append)
  have "?m * ?w < 2 ^ 32"
    using wfs(5) by (intro le_less_trans[OF mult_le_mono1[of ?m ?n ?w]]) simp_all
  then have "intset_wf ?is3"
    using wfs len n srt by (simp add: intset_wf_def intset_shape_def)
  moreover have "set ?xs = insert (sint v) (set (intset_elems ?is3))"
    using arg_cong[OF xs, of set] unfolding elems by auto
  ultimately show ?thesis using True notin by auto
qed

lemma intsetFind_spec:
  assumes wf: "intset_wf is"
  shows "intsetFind is v = Some (sint v \<in> set (intset_elems is))"
proof -
  obtain f p where "intsetSearch is v = Some (f, p)" "f \<longleftrightarrow> sint v \<in> set (intset_elems is)"
    using intsetSearch_spec[OF wf, of v] search_spec_mem by metis
  moreover have "sint v \<in> set (intset_elems is) \<Longrightarrow> intsetValueEncoding v \<le> is_encoding is"
    using intset_elems_fit[OF wf] intsetValueEncoding_le_iff[OF intset_wfD(1)[OF wf]] by simp
  ultimately show ?thesis by (auto simp: intsetFind_def)
qed


subsection \<open>Serialised intsets\<close>

lemma intset_of_blob_of_intset [simp]: "intset_of_blob (blob_of_intset is) = is"
  by (simp add: intset_of_blob_def blob_of_intset_def)

lemma intsetValidate_loop_spec:
  assumes "intset_shape is" "i + n = is_count is"
  shows "intsetValidate_loop n is i prev = Some (sorted_wrt (<) (sint prev # drop i (intset_elems is)))"
  using assms(2)
proof (induction n arbitrary: i prev)
  case 0
  then show ?case by simp
next
  case (Suc n)
  have "is_count is < 2 ^ 31" using assms(1) by (auto simp: intset_shape_def width_ok_def)
  then have "sint (of_nat i :: u32) = int i"
    using Suc.prems sint_small[of "of_nat i :: u32"] by (simp add: unat_of_nat)
  moreover have "i < is_count is" using Suc.prems by simp
  ultimately obtain v where v: "intsetGetAt is (sint (of_nat i :: u32)) = Some v"
      "sint v = intset_elems is ! i"
    using intsetGetAt_shape[OF assms(1), of i] by metis
  have dr: "drop i (intset_elems is) = sint v # drop (Suc i) (intset_elems is)"
    using v(2) \<open>i < is_count is\<close> by (simp add: Cons_nth_drop_Suc)
  show ?case using v(1) Suc.IH[of "Suc i" v] Suc.prems by (fastforce simp: dr)
qed

lemma width_ok_iff: "width_ok (unat (e :: u32)) \<longleftrightarrow> e = 8 \<or> e = 4 \<or> e = 2"
  by (auto elim: width_ok_encodingE)

lemma intsetValidateIntegrity_eq:
  assumes "length p < 2 ^ 32 + 8"
  defines "is \<equiv> intset_of_blob p"
  shows "intsetValidateIntegrity p (length p) deep =
     Some (8 \<le> length p \<and> (if deep then intset_wf is else intset_shape is) \<and> is_length is \<noteq> 0)"
proof (cases "8 \<le> length p \<and> intset_shape is \<and> is_length is \<noteq> 0")
  case True
  then have shape: "intset_shape is" and n: "0 < is_count is" by (auto simp: unat_gt_0)
  have len: "8 + is_count is * is_width is = length p"
    using True by (auto simp: intset_shape_def is_def intset_of_blob_def)
  obtain v where v: "intsetGetAt is 0 = Some v" "sint v = intset_elems is ! 0"
    using intsetGetAt_shape[OF shape n] by auto
  have "sint v # drop 1 (intset_elems is) = intset_elems is"
    using v(2) n by (simp add: Cons_nth_drop_Suc)
  then have "intsetValidate_loop (is_count is - 1) is 1 v = Some (sorted_wrt (<) (intset_elems is))"
    using intsetValidate_loop_spec[OF shape, of 1 "is_count is - 1" v] n by simp
  moreover have "width_ok (is_width is)" using shape by (simp add: intset_shape_def)
  ultimately show ?thesis
    using True len v(1) n unfolding intsetValidateIntegrity_def is_def[symmetric]
    by (auto simp: sizeof_intset_def intset_enc_defs intset_wf_def width_ok_iff Let_def)
next
  case False
  note unfold = intsetValidateIntegrity_def[of p "length p" deep, folded is_def]
  have len: "8 \<le> length p \<Longrightarrow> length (is_contents is) = length p - 8"
    by (simp add: is_def intset_of_blob_def)
  consider "\<not> 8 \<le> length p" | "\<not> width_ok (is_width is)"
    | "8 \<le> length p" "width_ok (is_width is)" "8 + is_count is * is_width is \<noteq> length p"
    | "8 \<le> length p" "width_ok (is_width is)" "8 + is_count is * is_width is = length p"
    by blast
  then show ?thesis
  proof cases
    case 4
    then have "is_length is = 0"
      using False len assms(1) by (auto simp: intset_shape_def)
    then show ?thesis unfolding unfold by (simp add: sizeof_intset_def Let_def)
  qed (use len in \<open>auto simp: unfold sizeof_intset_def Let_def intset_enc_defs intset_wf_def
      intset_shape_def width_ok_iff\<close>)
qed


subsection \<open>The set interface\<close>

lemma intset_card: "intset_wf is \<Longrightarrow> card (set (intset_elems is)) = is_count is"
  by (simp add: intset_wf_def distinct_card strict_sorted_iff)

lemma intsetNew_wf: "intset_wf intsetNew" "intset_elems intsetNew = []"
  by (simp_all add: intset_wf_def intset_shape_def intsetNew_def intset_elems_def intset_enc_defs)

interpretation iset: bounded_set intsetNew "intsetAdd junk" "intsetRemove junk" intsetFind sint
  "\<lambda>is. set (intset_elems is)" intset_wf "2 ^ 29 - 2" for junk
proof (unfold_locales, goal_cases)
  case (4 s x)
  then have "intset_room s" by (simp add: intset_card intset_room_def)
  with 4 intsetAdd_spec[of s junk x] show ?case by blast
next
  case (5 s x)
  with intsetRemove_spec[of s junk x] show ?case by blast
qed (simp_all add: intsetNew_wf intsetFind_spec)


subsection \<open>Properties\<close>

lemmas intset_eval = intset_wf_def intset_shape_def intset_room_def intset_elems_def elem_at_def
  decode_elem_def intsetValueEncoding_def intset_enc_defs upt_rec

lemma example_intset:
  "intset_wf \<lparr>is_encoding = 2, is_length = 2, is_contents = [1, 0, 5, 0]\<rparr>"
  "intset_room \<lparr>is_encoding = 2, is_length = 2, is_contents = [1, 0, 5, 0]\<rparr>"
  "intset_elems \<lparr>is_encoding = 2, is_length = 2, is_contents = [1, 0, 5, 0]\<rparr> = [1, 5]"
  by (simp_all add: intset_eval)

text \<open>
  C5: from \<open>intsetNew\<close>, every sequence of at most \<open>2^29 - 2\<close> calls of \<open>intsetAdd\<close>,
  \<open>intsetRemove\<close> and \<open>intsetFind\<close> runs without undefined behaviour or a failed assertion, whatever
  the bytes \<open>zrealloc\<close> leaves uninitialised, returns exactly the flags the mathematical set returns,
  and ends in a well-formed intset that enumerates that set.
\<close>

theorem intset_run_correct:
  assumes "length ops \<le> 2 ^ 29 - 2"
  shows "\<exists>is bs. run_set_ops (intsetAdd junk) (intsetRemove junk) intsetFind intsetNew ops = Some (is, bs) \<and>
    intset_wf is \<and> (set (intset_elems is), bs) = abs_set_ops {} (map (map_set_op sint) ops)"
  using assms by (rule iset.run_from_empty)

theorem intset_run_correct_witness:
  "length [SetAdd 5, SetAdd 70000, SetFind 5, SetRemove 5, SetFind (5 :: u64)] \<le> 2 ^ 29 - 2 \<and>
   (\<exists>is bs. run_set_ops (intsetAdd (\<lambda>_. 170)) (intsetRemove (\<lambda>_. 170)) intsetFind intsetNew
      [SetAdd 5, SetAdd 70000, SetFind 5, SetRemove 5, SetFind 5] = Some (is, bs) \<and>
      bs = [True, True, True, True, False])"
  using intset_run_correct[of "[SetAdd 5, SetAdd 70000, SetFind 5, SetRemove 5, SetFind 5]" "\<lambda>_. 170"]
  by (fastforce simp: Let_def)

text \<open>
  \<open>intsetAdd\<close> on any well-formed intset with room: the flag says whether the value is new, the
  result is well formed and holds exactly the old elements and the value, and its encoding is the
  larger of the old one and the one the value needs (so an upgrade re-encodes every element, and no
  upgrade happens otherwise).
\<close>

theorem intsetAdd_correct:
  assumes "intset_wf is" "intset_room is"
  shows "\<exists>is'. intsetAdd junk is v = Some (is', sint v \<notin> set (intset_elems is)) \<and> intset_wf is' \<and>
     set (intset_elems is') = insert (sint v) (set (intset_elems is)) \<and>
     is_encoding is' = max (is_encoding is) (intsetValueEncoding v)"
  using assms by (rule intsetAdd_spec)

theorem intsetAdd_correct_witness:
  "let is = \<lparr>is_encoding = 2, is_length = 2, is_contents = [1, 0, 5, 0]\<rparr> in
   intset_wf is \<and> intset_room is \<and>
   (\<exists>is'. intsetAdd (\<lambda>_. 170) is (- 70000) = Some (is', True) \<and> intset_wf is' \<and>
      set (intset_elems is') = {- 70000, 1, 5} \<and> is_encoding is' = 4)"
proof -
  have enc: "intsetValueEncoding (- 70000) = 4" by (simp add: intset_eval)
  show ?thesis
    using intsetAdd_correct[OF example_intset(1,2), of "\<lambda>_. 170" "- 70000"] example_intset
    by (simp add: enc max_def)
qed

text \<open>
  C20: \<open>intsetRemove\<close> on any well-formed intset: the flag says whether the value was present, the
  result is well formed, keeps its encoding and holds exactly the other elements.
\<close>

theorem intsetRemove_correct:
  assumes "intset_wf is"
  shows "\<exists>is'. intsetRemove junk is v = Some (is', sint v \<in> set (intset_elems is)) \<and> intset_wf is' \<and>
     set (intset_elems is') = set (intset_elems is) - {sint v} \<and> is_encoding is' = is_encoding is"
  using assms by (rule intsetRemove_spec)

theorem intsetRemove_correct_witness:
  "let is = \<lparr>is_encoding = 2, is_length = 2, is_contents = [1, 0, 5, 0]\<rparr> in
   intset_wf is \<and>
   (\<exists>is'. intsetRemove (\<lambda>_. 170) is 1 = Some (is', True) \<and> intset_wf is' \<and>
      set (intset_elems is') = {5} \<and> is_encoding is' = 2)"
  using intsetRemove_correct[OF example_intset(1), of "\<lambda>_. 170" 1] example_intset by simp

text \<open>
  C21: \<open>intsetValidateIntegrity\<close> on an arbitrary buffer of fewer than \<open>2^32 + 8\<close> bytes never reads
  outside it, and the deep check accepts exactly the buffers whose cast is a well-formed, non-empty
  intset; the shallow check accepts exactly those with a consistent header.
\<close>

theorem intsetValidateIntegrity_correct:
  assumes "length p < 2 ^ 32 + 8"
  shows "intsetValidateIntegrity p (length p) deep =
     Some (8 \<le> length p \<and>
           (if deep then intset_wf (intset_of_blob p) else intset_shape (intset_of_blob p)) \<and>
           is_length (intset_of_blob p) \<noteq> 0)"
  using assms by (rule intsetValidateIntegrity_eq)

theorem intsetValidateIntegrity_correct_witness:
  "let p = [2, 0, 0, 0, 2, 0, 0, 0, 5, 0, 1, 0]; q = [2, 0, 0, 0, 2, 0, 0, 0, 1, 0, 5, 0] in
   intsetValidateIntegrity p (length p) True = Some False \<and>
   intsetValidateIntegrity q (length q) True = Some True"
proof -
  have "\<not> intset_wf (intset_of_blob [2, 0, 0, 0, 2, 0, 0, 0, 5, 0, 1, 0])"
    and "intset_wf (intset_of_blob [2, 0, 0, 0, 2, 0, 0, 0, 1, 0, 5, 0])"
    and "is_length (intset_of_blob [2, 0, 0, 0, 2, 0, 0, 0, 1, 0, 5, 0]) \<noteq> 0"
    by (simp_all add: intset_eval intset_of_blob_def)
  then show ?thesis
    using intsetValidateIntegrity_correct[of "[2, 0, 0, 0, 2, 0, 0, 0, 5, 0, 1, 0]" True]
      intsetValidateIntegrity_correct[of "[2, 0, 0, 0, 2, 0, 0, 0, 1, 0, 5, 0]" True]
    by simp
qed

end
