(* ===== verification/Fwtree.thy ===== *)
theory Fwtree
  imports Redis_Prelude
begin

text \<open>
  \<open>src/fwtree.c\<close>: the Fenwick tree (binary indexed tree) that \<open>kvstore\<close> and \<open>estore\<close> use to find
  the dictionary holding the n-th key. The model keeps the array of 64-bit counters, the C loops over
  \<open>idx & -idx\<close>, the assertion of the update, and out-of-bounds reads as \<^term>\<open>None\<close>.
  The null-pointer guards of the C functions have no counterpart: a tree is always a value here.
\<close>

subsection \<open>Data and operations\<close>

record fenwickTree =
  ft_tree :: "u64 list"
  ft_size_bits :: nat
  ft_size :: int
  ft_total :: u64

definition fwTreeCreate :: "nat \<Rightarrow> fenwickTree" where
  "fwTreeCreate sizeBits =
     (let size = 2 ^ sizeBits in
      \<lparr>ft_tree = replicate (nat (size + 1)) 0, ft_size_bits = sizeBits, ft_size = size, ft_total = 0\<rparr>)"

text \<open>\<open>idx & -idx\<close>, the lowest set bit.\<close>

definition lowbit :: "int \<Rightarrow> int" where
  "lowbit i = i AND (- i)"

lemma lowbit_odd:
  assumes "odd i"
  shows "lowbit i = 1"
proof -
  have half: "(- i) div 2 = NOT (i div 2)"
    using assms by (auto simp: not_int_def elim!: oddE)
  have "lowbit i = 1 + 2 * ((i div 2) AND ((- i) div 2))"
    using assms unfolding lowbit_def by (subst and_int_rec) simp
  then show ?thesis by (simp add: half)
qed

lemma lowbit_double: "lowbit (2 * i) = 2 * lowbit i"
proof -
  have "(- (2 * i)) div 2 = - i" by linarith
  then show ?thesis unfolding lowbit_def by (subst and_int_rec) simp
qed

text \<open>Induction over positive integers by halving.\<close>

lemma pos_halving_induct [consumes 1, case_names odd double]:
  assumes "0 < (i :: int)"
    and "\<And>i. 0 < i \<Longrightarrow> odd i \<Longrightarrow> P i"
    and "\<And>i. 0 < i \<Longrightarrow> P i \<Longrightarrow> P (2 * i)"
  shows "P i"
  using assms(1)
proof (induction i rule: measure_induct_rule[where f = nat])
  case (less i)
  show ?case
  proof (cases "odd i")
    case False
    then obtain k where k: "i = 2 * k" by (meson evenE)
    with less.prems have "nat k < nat i" "0 < k" by auto
    with less.IH assms(3) k show ?thesis by blast
  qed (use less.prems assms(2) in blast)
qed

lemma lowbit_pos: "0 < i \<Longrightarrow> 0 < lowbit i \<and> lowbit i \<le> i"
  by (induction rule: pos_halving_induct) (auto simp: lowbit_odd lowbit_double)

function fwTreePrefixSum_loop :: "u64 list \<Rightarrow> int \<Rightarrow> u64 \<Rightarrow> u64 option" where
  "fwTreePrefixSum_loop tree idx acc =
     (if idx > 0 then
        do { v \<leftarrow> arr_get tree idx; fwTreePrefixSum_loop tree (idx - lowbit idx) (acc + v) }
      else Some acc)"
  by pat_completeness auto
termination
  by (relation "measure (\<lambda>(tree, idx, acc). nat idx)") (auto dest: lowbit_pos)

declare fwTreePrefixSum_loop.simps [simp del]

definition fwTreePrefixSum :: "fenwickTree \<Rightarrow> int \<Rightarrow> u64 option" where
  "fwTreePrefixSum ft idx =
     (if idx < 0 then Some 0
      else
        let idx = (if idx \<ge> ft_size ft then ft_size ft - 1 else idx);
            idx = idx + 1
        in fwTreePrefixSum_loop (ft_tree ft) idx 0)"

text \<open>
  The update loop; \<^term>\<open>None\<close> when the assertion fails. It is entered with \<open>idx \<ge> 1\<close> and \<open>idx\<close> only
  grows (the C loop would not end from 0).
\<close>

function fwTreeUpdate_loop :: "u64 list \<Rightarrow> int \<Rightarrow> int \<Rightarrow> u64 \<Rightarrow> u64 list option" where
  "fwTreeUpdate_loop tree idx sz delta =
     (if idx < 1 then None
      else if idx \<le> sz then
        do { v \<leftarrow> arr_get tree idx;
             if sint delta < 0 \<and> v < - delta then None
             else do { tree \<leftarrow> arr_set tree idx (v + delta);
                       fwTreeUpdate_loop tree (idx + lowbit idx) sz delta } }
      else Some tree)"
  by pat_completeness auto
termination
  by (relation "measure (\<lambda>(tree, idx, sz, delta). nat (sz - idx + 1))")
     (auto dest!: lowbit_pos simp: not_less int_one_le_iff_zero_less)

declare fwTreeUpdate_loop.simps [simp del]

definition fwTreeUpdate :: "fenwickTree \<Rightarrow> int \<Rightarrow> u64 \<Rightarrow> fenwickTree option" where
  "fwTreeUpdate ft idx delta =
     (if idx < 0 \<or> idx \<ge> ft_size ft then Some ft
      else
        let idx = idx + 1; ft = ft\<lparr>ft_total := ft_total ft + delta\<rparr> in
        do { tree \<leftarrow> fwTreeUpdate_loop (ft_tree ft) idx (ft_size ft) delta;
             Some (ft\<lparr>ft_tree := tree\<rparr>) })"

text \<open>The descent \<open>for (i = 1 << size_bits; i != 0; i >>= 1)\<close>: \<open>k\<close> counts the remaining bits, so \<open>i = 2^(k-1)\<close>.\<close>

primrec fwTreeFindIndex_loop :: "nat \<Rightarrow> u64 list \<Rightarrow> int \<Rightarrow> u64 \<Rightarrow> int option" where
  "fwTreeFindIndex_loop 0 tree result target = Some result"
| "fwTreeFindIndex_loop (Suc k) tree result target =
     (let current = result + 2 ^ k in
      do { v \<leftarrow> arr_get tree current;
           if target > v then fwTreeFindIndex_loop k tree current (target - v)
           else fwTreeFindIndex_loop k tree result target })"

definition fwTreeFindIndex :: "fenwickTree \<Rightarrow> u64 \<Rightarrow> int option" where
  "fwTreeFindIndex ft target =
     (if target \<le> 0 then Some 0
      else fwTreeFindIndex_loop (Suc (ft_size_bits ft)) (ft_tree ft) 0 target)"

definition fwTreeFindFirstNonEmpty :: "fenwickTree \<Rightarrow> int option" where
  "fwTreeFindFirstNonEmpty ft = fwTreeFindIndex ft 1"

definition fwTreeFindNextNonEmpty :: "fenwickTree \<Rightarrow> int \<Rightarrow> int option" where
  "fwTreeFindNextNonEmpty ft idx =
     (if idx < 0 \<or> idx \<ge> ft_size ft then Some (-1)
      else do { s \<leftarrow> fwTreePrefixSum ft idx;
                let next_sum = s + 1;
                if next_sum \<le> ft_total ft then fwTreeFindIndex ft next_sum else Some (-1) })"

definition fwTreeClear :: "fenwickTree \<Rightarrow> fenwickTree" where
  "fwTreeClear ft = ft\<lparr>ft_tree := replicate (nat (ft_size ft + 1)) 0, ft_total := 0\<rparr>"

subsection \<open>The lowest set bit\<close>

lemma lowbit_step: "0 < i \<Longrightarrow> 2 * lowbit i \<le> lowbit (i + lowbit i)"
proof (induction rule: pos_halving_induct)
  case (odd i)
  then obtain k where "i + 1 = 2 * k" by (metis evenE even_plus_one_iff)
  moreover from this odd have "0 < k" by linarith
  ultimately show ?case using odd lowbit_pos[of k] by (simp add: lowbit_odd lowbit_double)
next
  case (double i)
  then show ?case using lowbit_double[of "i + lowbit i"] by (simp add: lowbit_double distrib_left)
qed

lemma lowbit_add_below: "0 < i \<Longrightarrow> 0 < r \<Longrightarrow> r < lowbit i \<Longrightarrow> lowbit (i + r) = lowbit r"
proof (induction arbitrary: r rule: pos_halving_induct)
  case (odd i)
  then show ?case by (simp add: lowbit_odd)
next
  case (double i)
  show ?case
  proof (cases "odd r")
    case True
    then show ?thesis by (simp add: lowbit_odd)
  next
    case False
    then obtain s where "r = 2 * s" by (meson evenE)
    then show ?thesis
      using double.IH[of s] double.prems lowbit_double[of "i + s"]
      by (simp add: lowbit_double distrib_left)
  qed
qed

lemma lowbit_power_mult: "0 < i \<Longrightarrow> odd i \<Longrightarrow> lowbit (2 ^ k * i) = 2 ^ k"
proof (induction k)
  case (Suc k)
  then show ?case using lowbit_double[of "2 ^ k * i"] by (simp add: algebra_simps)
qed (simp add: lowbit_odd)

lemma lowbit_add_power:
  assumes "0 \<le> r" "2 ^ Suc k dvd r"
  shows "lowbit (r + 2 ^ k) = 2 ^ k"
proof -
  obtain m where m: "r = 2 ^ Suc k * m" using assms(2) by (elim dvdE)
  then have "0 \<le> m" using assms(1) by (simp add: zero_le_mult_iff)
  moreover have "r + 2 ^ k = 2 ^ k * (2 * m + 1)" using m by (simp add: algebra_simps)
  ultimately show ?thesis by (simp add: lowbit_power_mult)
qed


subsection \<open>What a tree represents\<close>

text \<open>
  Node \<open>i\<close> (1-based) covers the elements \<open>i - lowbit i, \<dots>, i - 1\<close> (0-based). The tree represents the
  element function \<open>a\<close> when every node holds the sum of its elements, as 64-bit words.
\<close>

definition fw_sum :: "(int \<Rightarrow> 'b::comm_monoid_add) \<Rightarrow> int \<Rightarrow> int \<Rightarrow> 'b" where
  "fw_sum a lo hi = sum a {lo..<hi}"

definition fw_rep :: "fenwickTree \<Rightarrow> (int \<Rightarrow> u64) \<Rightarrow> bool" where
  "fw_rep ft a \<longleftrightarrow> ft_size_bits ft \<le> 29 \<and> ft_size ft = 2 ^ ft_size_bits ft \<and>
     int (length (ft_tree ft)) = ft_size ft + 1 \<and>
     (\<forall>i. 1 \<le> i \<longrightarrow> i \<le> ft_size ft \<longrightarrow> ft_tree ft ! nat i = fw_sum a (i - lowbit i) i) \<and>
     ft_total ft = fw_sum a 0 (ft_size ft)"

text \<open>The counters do not overflow: the true total fits 64 bits.\<close>

definition fw_exact :: "fenwickTree \<Rightarrow> (int \<Rightarrow> u64) \<Rightarrow> bool" where
  "fw_exact ft a \<longleftrightarrow> fw_sum (\<lambda>j. unat (a j)) 0 (ft_size ft) < 2 ^ 64"

lemma fw_sum_split: "lo \<le> mid \<Longrightarrow> mid \<le> hi \<Longrightarrow> fw_sum a lo hi = fw_sum a lo mid + fw_sum a mid hi"
  unfolding fw_sum_def by (subst ivl_disj_un_two(3)[symmetric, of lo mid hi]) (auto intro: sum.union_disjoint)

lemma fw_sum_empty [simp]: "hi \<le> lo \<Longrightarrow> fw_sum a lo hi = 0"
  by (simp add: fw_sum_def)

lemma fw_sum_single [simp]: "fw_sum a p (p + 1) = a p"
proof -
  have "{p..<p + 1} = {p}" by auto
  then show ?thesis by (simp add: fw_sum_def)
qed

lemma fw_sum_upd:
  "fw_sum (a(p := a p + d)) lo hi = fw_sum a lo hi + (if lo \<le> p \<and> p < hi then d else 0)"
proof -
  have "fw_sum (a(p := a p + d)) lo hi = sum (\<lambda>j. a j + (if j = p then d else 0)) {lo..<hi}"
    unfolding fw_sum_def by (intro sum.cong) auto
  also have "\<dots> = fw_sum a lo hi + (if lo \<le> p \<and> p < hi then d else 0)"
    unfolding sum.distrib fw_sum_def by (simp add: sum.delta)
  finally show ?thesis .
qed

lemma unat_fw_sum:
  assumes "fw_sum (\<lambda>j. unat (a j :: 'a::len word)) lo hi < 2 ^ LENGTH('a)"
  shows "unat (fw_sum a lo hi) = fw_sum (\<lambda>j. unat (a j)) lo hi"
proof -
  have "fw_sum a lo hi = of_nat (fw_sum (\<lambda>j. unat (a j)) lo hi)"
    unfolding fw_sum_def by (simp add: of_nat_unat)
  with assms show ?thesis by (simp add: unat_of_nat)
qed

lemma fw_sum_mono:
  "lo' \<le> lo \<Longrightarrow> hi \<le> hi' \<Longrightarrow> fw_sum (a :: int \<Rightarrow> nat) lo hi \<le> fw_sum a lo' hi'"
  unfolding fw_sum_def by (intro sum_mono2) auto

lemma fw_repD:
  assumes "fw_rep ft a"
  shows "ft_size ft = 2 ^ ft_size_bits ft" "0 < ft_size ft"
    "int (length (ft_tree ft)) = ft_size ft + 1" "ft_total ft = fw_sum a 0 (ft_size ft)"
    "\<And>i. 1 \<le> i \<Longrightarrow> i \<le> ft_size ft \<Longrightarrow> arr_get (ft_tree ft) i = Some (fw_sum a (i - lowbit i) i)"
  using assms by (auto simp: fw_rep_def arr_get_def)

subsection \<open>Prefix sums\<close>

lemma fwTreePrefixSum_loop_spec:
  assumes "fw_rep ft a" "0 \<le> idx" "idx \<le> ft_size ft"
  shows "fwTreePrefixSum_loop (ft_tree ft) idx acc = Some (acc + fw_sum a 0 idx)"
  using assms(2,3)
proof (induction "ft_tree ft" idx acc rule: fwTreePrefixSum_loop.induct)
  case (1 idx acc)
  show ?case
  proof (cases "0 < idx")
    case True
    have lb: "0 < lowbit idx" "lowbit idx \<le> idx" using lowbit_pos True by auto
    have "fw_sum a 0 idx = fw_sum a 0 (idx - lowbit idx) + fw_sum a (idx - lowbit idx) idx"
      using lb by (intro fw_sum_split) auto
    then show ?thesis
      using fw_repD(5)[OF assms(1), of idx] "1.hyps"[OF True] lb "1.prems" True
      by (subst fwTreePrefixSum_loop.simps) (simp add: algebra_simps)
  qed (use "1.prems" in \<open>simp add: fwTreePrefixSum_loop.simps\<close>)
qed

lemma fwTreePrefixSum_spec:
  assumes "fw_rep ft a"
  shows "fwTreePrefixSum ft idx =
    Some (if idx < 0 then 0 else fw_sum a 0 (min (idx + 1) (ft_size ft)))"
  using fwTreePrefixSum_loop_spec[OF assms] fw_repD(2)[OF assms]
  by (auto simp: fwTreePrefixSum_def Let_def min_def)


subsection \<open>Updates\<close>

definition covers :: "int \<Rightarrow> int \<Rightarrow> bool" where
  "covers i p \<longleftrightarrow> i - lowbit i \<le> p \<and> p < i"

lemma covers_next: "1 \<le> i \<Longrightarrow> covers i p \<Longrightarrow> covers (i + lowbit i) p"
  using lowbit_step[of i] lowbit_pos[of i] by (auto simp: covers_def)

lemma covers_gap:
  assumes "1 \<le> i" "covers i p" "i < k" "k < i + lowbit i"
  shows "\<not> covers k p"
  using lowbit_add_below[of i "k - i"] lowbit_pos[of "k - i"] assms by (auto simp: covers_def)

lemma covers_self: "0 \<le> p \<Longrightarrow> covers (p + 1) p"
  using lowbit_pos[of "p + 1"] by (auto simp: covers_def)

lemma fwTreeUpdate_loop_spec:
  assumes "int (length tree) = sz + 1" "1 \<le> idx" "covers idx p"
    and "\<And>k. idx \<le> k \<Longrightarrow> k \<le> sz \<Longrightarrow> covers k p \<Longrightarrow> sint d < 0 \<Longrightarrow> - d \<le> tree ! nat k"
  shows "\<exists>tree'. fwTreeUpdate_loop tree idx sz d = Some tree' \<and> length tree' = length tree \<and>
    (\<forall>k. 1 \<le> k \<longrightarrow> k \<le> sz \<longrightarrow>
       tree' ! nat k = tree ! nat k + (if idx \<le> k \<and> covers k p then d else 0))"
  using assms
proof (induction tree idx sz d rule: fwTreeUpdate_loop.induct)
  case (1 tree idx sz d)
  show ?case
  proof (cases "idx \<le> sz")
    case False
    then show ?thesis using "1.prems"(2) by (simp add: fwTreeUpdate_loop.simps)
  next
    case True
    let ?v = "tree ! nat idx" and ?next = "idx + lowbit idx"
    let ?tree = "tree[nat idx := ?v + d]"
    have lb: "0 < lowbit idx" using lowbit_pos "1.prems"(2) by simp
    have get: "arr_get tree idx = Some ?v" "arr_set tree idx (?v + d) = Some ?tree"
      using "1.prems"(1,2) True by (simp_all add: arr_get_def arr_set_def)
    have ok: "\<not> (sint d < 0 \<and> ?v < - d)"
      using "1.prems"(3) "1.prems"(4)[of idx] True by (meson leD order.refl)
    have nth: "?tree ! nat k = (if k = idx then ?v + d else tree ! nat k)" if "0 \<le> k" for k
      using that "1.prems"(1,2) True by (auto simp: nth_list_update nat_eq_iff)
    have "\<exists>tree'. fwTreeUpdate_loop ?tree ?next sz d = Some tree' \<and> length tree' = length ?tree \<and>
      (\<forall>k. 1 \<le> k \<longrightarrow> k \<le> sz \<longrightarrow>
         tree' ! nat k = ?tree ! nat k + (if ?next \<le> k \<and> covers k p then d else 0))"
    proof (rule "1.IH"[OF _ True get(1) ok get(2)])
      show "- d \<le> ?tree ! nat k" if "?next \<le> k" "k \<le> sz" "covers k p" "sint d < 0" for k
        using "1.prems"(2,4) that lb nth[of k] by auto
    qed (use "1.prems" lb covers_next in auto)
    then obtain tree' where t': "fwTreeUpdate_loop ?tree ?next sz d = Some tree'"
      "length tree' = length tree"
      "\<And>k. 1 \<le> k \<Longrightarrow> k \<le> sz \<Longrightarrow>
         tree' ! nat k = ?tree ! nat k + (if ?next \<le> k \<and> covers k p then d else 0)"
      by auto
    have "?next \<le> k \<and> covers k p \<or> k = idx \<longleftrightarrow> idx \<le> k \<and> covers k p" if "1 \<le> k" for k
      using covers_gap[OF "1.prems"(2,3), of k] "1.prems"(3) lb by force
    moreover have "\<not> ?next \<le> idx" using lb by simp
    ultimately have "\<forall>k. 1 \<le> k \<longrightarrow> k \<le> sz \<longrightarrow>
       tree' ! nat k = tree ! nat k + (if idx \<le> k \<and> covers k p then d else 0)"
      using t'(3) nth by (smt (verit) add.right_neutral)
    then show ?thesis
      using t' get ok True "1.prems"(2)
      by (intro exI[of _ tree']) (simp add: fwTreeUpdate_loop.simps[of tree])
  qed
qed

lemma fwTreeUpdate_spec:
  assumes rep: "fw_rep ft a" and p: "0 \<le> p" "p < ft_size ft"
    and enough: "sint d < 0 \<Longrightarrow> fw_exact ft a \<and> - d \<le> a p"
  shows "\<exists>ft'. fwTreeUpdate ft p d = Some ft' \<and> fw_rep ft' (a(p := a p + d)) \<and>
    ft_size_bits ft' = ft_size_bits ft"
proof -
  let ?sz = "ft_size ft" and ?tree = "ft_tree ft"
  have node: "?tree ! nat k = fw_sum a (k - lowbit k) k" if "1 \<le> k" "k \<le> ?sz" for k
    using rep that by (simp add: fw_rep_def)
  have assert: "- d \<le> ?tree ! nat k" if "p + 1 \<le> k" "k \<le> ?sz" "covers k p" "sint d < 0" for k
  proof -
    let ?u = "\<lambda>j. unat (a j)"
    have k: "0 \<le> k - lowbit k" "1 \<le> k" using lowbit_pos[of k] p that by auto
    have "fw_sum ?u (k - lowbit k) k \<le> fw_sum ?u 0 ?sz" using k that by (intro fw_sum_mono) auto
    then have "unat (fw_sum a (k - lowbit k) k) = fw_sum ?u (k - lowbit k) k"
      using enough[OF that(4)] by (intro unat_fw_sum) (auto simp: fw_exact_def)
    moreover have "?u p \<le> fw_sum ?u (k - lowbit k) k"
      using fw_sum_mono[of "k - lowbit k" p "p + 1" k ?u] that(3) by (simp add: covers_def)
    ultimately show ?thesis
      using enough[OF that(4)] node[OF k(2) that(2)] by (simp add: word_le_nat_alt)
  qed
  obtain tree' where t': "fwTreeUpdate_loop ?tree (p + 1) ?sz d = Some tree'"
      "length tree' = length ?tree"
      "\<forall>k. 1 \<le> k \<longrightarrow> k \<le> ?sz \<longrightarrow>
         tree' ! nat k = ?tree ! nat k + (if p + 1 \<le> k \<and> covers k p then d else 0)"
    using fwTreeUpdate_loop_spec[of ?tree ?sz "p + 1" p d] assert p covers_self fw_repD(3)[OF rep]
    by auto
  let ?ft' = "ft\<lparr>ft_total := ft_total ft + d, ft_tree := tree'\<rparr>"
  have "tree' ! nat k = fw_sum (a(p := a p + d)) (k - lowbit k) k" if "1 \<le> k" "k \<le> ?sz" for k
    using t'(3) that node[OF that] by (auto simp: fw_sum_upd covers_def)
  then have "fw_rep ?ft' (a(p := a p + d))"
    using rep t'(2) p by (auto simp: fw_rep_def fw_sum_upd)
  moreover have "fwTreeUpdate ft p d = Some ?ft'" using p t'(1) by (simp add: fwTreeUpdate_def Let_def)
  ultimately show ?thesis by simp
qed

subsection \<open>Searching\<close>

lemma fwTreeFindIndex_loop_spec:
  assumes rep: "fw_rep ft a" and ex: "fw_exact ft a"
  defines "S \<equiv> fw_sum (\<lambda>j. unat (a j)) 0"
  assumes "0 \<le> r" "2 ^ k dvd r" "r + 2 ^ k \<le> ft_size ft"
    and "S r + unat target = T" "S r < T" "T \<le> S (r + 2 ^ k)"
  shows "\<exists>r'. fwTreeFindIndex_loop k (ft_tree ft) r target = Some r' \<and>
    0 \<le> r' \<and> r' < ft_size ft \<and> S r' < T \<and> T \<le> S (r' + 1)"
  using assms(4-)
proof (induction k arbitrary: r target)
  case (Suc k)
  let ?c = "r + 2 ^ k" and ?u = "\<lambda>j. unat (a j)"
  have "(1 :: int) \<le> 2 ^ k" by simp
  then have c: "1 \<le> ?c" "?c \<le> ft_size ft"
    using Suc.prems(1,3) unfolding power_Suc by linarith+
  have Sc: "S ?c = S r + fw_sum ?u r ?c"
    unfolding S_def using Suc.prems(1) by (intro fw_sum_split) auto
  have "fw_sum ?u r ?c < 2 ^ 64"
    using ex c Suc.prems(1) by (auto simp: fw_exact_def intro: le_less_trans[OF fw_sum_mono])
  then have v: "unat (fw_sum a r ?c) = fw_sum ?u r ?c" by (intro unat_fw_sum) simp
  have get: "arr_get (ft_tree ft) ?c = Some (fw_sum a r ?c)"
    using fw_repD(5)[OF rep c] lowbit_add_power[OF Suc.prems(1,2)] by simp
  have dvd: "2 ^ k dvd r" using Suc.prems(2) by (auto intro: dvd_trans[OF le_imp_power_dvd])
  show ?case
  proof (cases "target > fw_sum a r ?c")
    case True
    then have "unat (target - fw_sum a r ?c) = unat target - fw_sum ?u r ?c"
      using v by (simp add: unat_sub order.strict_implies_order)
    moreover have "fw_sum ?u r ?c < unat target" using True v by (simp add: word_less_nat_alt)
    ultimately show ?thesis
      using Suc.IH[of ?c "target - fw_sum a r ?c"] Suc.prems Sc get True dvd
      by (simp add: Let_def add.assoc mult_2[symmetric])
  next
    case False
    then have "unat target \<le> fw_sum ?u r ?c" using v by (simp add: word_less_nat_alt)
    then show ?thesis
      using Suc.IH[of r target] Suc.prems Sc get False dvd c by (simp add: Let_def)
  qed
qed auto

lemma fwTreeFindIndex_spec:
  assumes rep: "fw_rep ft a" and ex: "fw_exact ft a" and t: "0 < target" "target \<le> ft_total ft"
  defines "S \<equiv> fw_sum (\<lambda>j. unat (a j)) 0"
  shows "\<exists>r. fwTreeFindIndex ft target = Some r \<and> 0 \<le> r \<and> r < ft_size ft \<and>
    S r < unat target \<and> unat target \<le> S (r + 1)"
proof -
  note R = fw_repD[OF rep]
  have tot: "unat (ft_total ft) = S (ft_size ft)"
    using ex unfolding R(4) S_def fw_exact_def by (intro unat_fw_sum) simp
  have "lowbit (ft_size ft) = ft_size ft"
    using lowbit_add_power[of 0 "ft_size_bits ft"] R(1) by simp
  then have "arr_get (ft_tree ft) (2 ^ ft_size_bits ft) = Some (ft_total ft)"
    using R(5)[of "ft_size ft"] R(1,2,4) by simp
  then have "fwTreeFindIndex ft target = fwTreeFindIndex_loop (ft_size_bits ft) (ft_tree ft) 0 target"
    using t by (auto simp: fwTreeFindIndex_def Let_def)
  moreover have "unat target \<le> S (ft_size ft)" "0 < unat target"
    using t tot by (simp_all add: word_le_nat_alt unat_gt_0 word_gt_0)
  ultimately show ?thesis
    using fwTreeFindIndex_loop_spec[OF rep ex, of 0 "ft_size_bits ft" target "unat target"] R(1)
    by (simp add: S_def)
qed


lemma fw_sum_eq_zeros:
  assumes "lo \<le> hi" "fw_sum a lo hi = (0 :: nat)" "lo \<le> j" "j < hi"
  shows "a j = 0"
  using assms by (auto simp: fw_sum_def)

lemma fwTreeFindNextNonEmpty_spec:
  assumes rep: "fw_rep ft a" and ex: "unat (ft_total ft) < 2 ^ 64 - 1" "fw_exact ft a"
    and i: "0 \<le> i" "i < ft_size ft"
  shows "if \<forall>j. i < j \<longrightarrow> j < ft_size ft \<longrightarrow> a j = 0 then fwTreeFindNextNonEmpty ft i = Some (-1)
    else \<exists>r. fwTreeFindNextNonEmpty ft i = Some r \<and> i < r \<and> r < ft_size ft \<and> a r \<noteq> 0 \<and>
      (\<forall>j. i < j \<longrightarrow> j < r \<longrightarrow> a j = 0)"
proof -
  let ?u = "\<lambda>j. unat (a j)" and ?sz = "ft_size ft"
  define S where "S = fw_sum ?u 0"
  note R = fw_repD[OF rep]
  have mono: "S x \<le> S y" if "x \<le> y" for x y unfolding S_def using that by (intro fw_sum_mono) auto
  have exact: "unat (fw_sum a 0 x) = S x" if "x \<le> ?sz" for x
    using ex(2) mono[OF that] unfolding S_def fw_exact_def by (intro unat_fw_sum) simp
  have tot: "unat (ft_total ft) = S ?sz" using exact R(4) by simp
  have pre: "fwTreePrefixSum ft i = Some (fw_sum a 0 (i + 1))"
    using fwTreePrefixSum_spec[OF rep] i by (simp add: min_def)
  let ?t = "fw_sum a 0 (i + 1) + 1"
  have "S (i + 1) \<le> S ?sz" using mono i by simp
  then have t: "unat ?t = S (i + 1) + 1"
    using exact[of "i + 1"] i ex(1) tot by (simp add: unat_word_ariths)
  have zeros: "a j = 0" if "S x = S y" "0 \<le> x" "x \<le> y" "x \<le> j" "j < y" for x y j
    using fw_sum_eq_zeros[of x y ?u j] fw_sum_split[of 0 x y ?u] that
    by (simp add: S_def unat_eq_zero)
  show ?thesis
  proof (cases "?t \<le> ft_total ft")
    case False
    then have "S ?sz = S (i + 1)" using t tot \<open>S (i + 1) \<le> S ?sz\<close> by (simp add: word_le_nat_alt)
    then have "\<forall>j. i < j \<longrightarrow> j < ?sz \<longrightarrow> a j = 0" using zeros[of "i + 1" ?sz] i by auto
    then show ?thesis using False i pre by (simp add: fwTreeFindNextNonEmpty_def Let_def)
  next
    case True
    have "0 < ?t" using t by (simp add: word_gt_0_no unat_gt_0[symmetric] word_less_nat_alt)
    then obtain r where r: "fwTreeFindIndex ft ?t = Some r" "0 \<le> r" "r < ?sz"
        "S r < S (i + 1) + 1" "S (i + 1) + 1 \<le> S (r + 1)"
      using fwTreeFindIndex_spec[OF rep ex(2) _ True] t by (auto simp: S_def)
    have ir: "i < r" using r mono[of "r + 1" "i + 1"] by (cases "r \<le> i") auto
    have "S (r + 1) = S r + ?u r" using fw_sum_split[of 0 r "r + 1" ?u] r by (simp add: S_def)
    then have "a r \<noteq> 0" using r mono[of "i + 1" r] ir by auto
    moreover have "a j = 0" if "i < j" "j < r" for j
      using zeros[of "i + 1" r j] that r mono[of "i + 1" r] i by auto
    moreover have "fwTreeFindNextNonEmpty ft i = Some r"
      using True i pre r(1) by (simp add: fwTreeFindNextNonEmpty_def Let_def)
    ultimately show ?thesis using ir r by auto
  qed
qed

lemma fwTreeCreate_rep: "bits \<le> 29 \<Longrightarrow> fw_rep (fwTreeCreate bits) (\<lambda>_. 0)"
  by (auto simp: fw_rep_def fwTreeCreate_def Let_def fw_sum_def nth_replicate nat_less_iff)


subsection \<open>Sequences of updates\<close>

primrec fwTree_run :: "fenwickTree \<Rightarrow> (int \<times> u64) list \<Rightarrow> fenwickTree option" where
  "fwTree_run ft [] = Some ft"
| "fwTree_run ft (u # us) = do { ft \<leftarrow> fwTreeUpdate ft (fst u) (snd u); fwTree_run ft us }"

definition deltas_at :: "(int \<times> u64) list \<Rightarrow> int \<Rightarrow> u64" where
  "deltas_at us p = sum_list (map snd (filter (\<lambda>u. fst u = p) us))"

text \<open>
  The condition on a sequence: the indices are valid, no delta is the least \<open>long long\<close> (the code negates it), and a decrement
  takes at most what is at its index, at a time when the total fits 64 bits.
\<close>

definition updates_ok :: "nat \<Rightarrow> (int \<times> u64) list \<Rightarrow> bool" where
  "updates_ok bits us \<longleftrightarrow> (\<forall>k<length us. case us ! k of (p, d) \<Rightarrow>
     0 \<le> p \<and> p < 2 ^ bits \<and> - (2 ^ 63) < sint d \<and>
     (sint d < 0 \<longrightarrow> - d \<le> deltas_at (take k us) p \<and> (\<Sum>j = 0..<2 ^ bits. unat (deltas_at (take k us) j)) < 2 ^ 64))"

lemma fwTree_run_append: "fwTree_run ft (us @ vs) = do { ft \<leftarrow> fwTree_run ft us; fwTree_run ft vs }"
  by (induction us arbitrary: ft) (simp_all add: Option.bind_assoc)

lemma fwTree_run_rep:
  assumes "bits \<le> 29" "updates_ok bits us"
  shows "\<exists>ft. fwTree_run (fwTreeCreate bits) us = Some ft \<and> fw_rep ft (deltas_at us) \<and> ft_size ft = 2 ^ bits"
  using assms(2)
proof (induction us rule: rev_induct)
  case Nil
  then show ?case using fwTreeCreate_rep[OF assms(1)] by (simp add: deltas_at_def fwTreeCreate_def Let_def)
next
  case (snoc u us)
  obtain p d where u: "u = (p, d)" by (cases u)
  have "updates_ok bits us" unfolding updates_ok_def
  proof (intro allI impI)
    fix k assume "k < length us"
    then show "case us ! k of (p, d) \<Rightarrow> 0 \<le> p \<and> p < 2 ^ bits \<and> - (2 ^ 63) < sint d \<and>
        (sint d < 0 \<longrightarrow> - d \<le> deltas_at (take k us) p \<and> (\<Sum>j = 0..<2 ^ bits. unat (deltas_at (take k us) j)) < 2 ^ 64)"
      using snoc.prems[unfolded updates_ok_def, rule_format, of k] by (simp add: nth_append)
  qed
  then obtain ft where ft: "fwTree_run (fwTreeCreate bits) us = Some ft" "fw_rep ft (deltas_at us)" "ft_size ft = 2 ^ bits"
    using snoc.IH by blast
  have last: "0 \<le> p" "p < 2 ^ bits"
      "sint d < 0 \<Longrightarrow> - d \<le> deltas_at us p \<and> (\<Sum>j = 0..<2 ^ bits. unat (deltas_at us j)) < 2 ^ 64"
    using snoc.prems[unfolded updates_ok_def, rule_format, of "length us"] by (simp_all add: u)
  obtain ft' where ft': "fwTreeUpdate ft p d = Some ft'" "fw_rep ft' ((deltas_at us)(p := deltas_at us p + d))"
      "ft_size_bits ft' = ft_size_bits ft"
    using fwTreeUpdate_spec[OF ft(2) last(1), of d] last(2,3) ft(3) by (auto simp: fw_exact_def fw_sum_def)
  have "(deltas_at us)(p := deltas_at us p + d) = deltas_at (us @ [u])" by (auto simp: u deltas_at_def fun_eq_iff)
  then show ?case using ft ft' by (simp add: fwTree_run_append u fw_rep_def)
qed

subsection \<open>Properties\<close>

text \<open>
  C24: after any sequence of increments and decrements of a fresh tree of \<open>2^bits\<close> elements, at most \<open>2^29\<close>, in which no
  delta is \<open>LLONG_MIN\<close> and a decrement takes at most what is at its index while the total fits 64 bits, the prefix sum up to \<open>idx\<close> is the sum of all the
  deltas applied at indices up to \<open>idx\<close> (in 64-bit arithmetic), an index past the end being clamped; no update
  fails its assertion or leaves the array.
\<close>

theorem fwTree_prefix_sum_correct:
  assumes "bits \<le> 29" "updates_ok bits us" "0 \<le> idx"
  shows "\<exists>ft. fwTree_run (fwTreeCreate bits) us = Some ft \<and>
    fwTreePrefixSum ft idx = Some (\<Sum>j = 0..<min (idx + 1) (2 ^ bits). deltas_at us j)"
proof -
  obtain ft where ft: "fwTree_run (fwTreeCreate bits) us = Some ft" "fw_rep ft (deltas_at us)" "ft_size ft = 2 ^ bits"
    using fwTree_run_rep[OF assms(1,2)] by blast
  then show ?thesis
    using fwTreePrefixSum_spec[OF ft(2), of idx] assms(3) by (simp add: fw_sum_def)
qed

theorem fwTree_prefix_sum_correct_witness:
  "\<exists>ft. fwTree_run (fwTreeCreate 3) [(0, 5), (2, 3), (4, 7), (2, - 1)] = Some ft \<and>
    fwTreePrefixSum ft 2 = Some 7"
proof -
  let ?us = "[(0, 5), (2, 3), (4, 7), (2, - 1)] :: (int \<times> u64) list"
  have ivl: "{0..<min (2 + 1) (2 ^ 3)} = {0, 1, 2 :: int}" "{0..<2 ^ 3} = {0, 1, 2, 3, 4, 5, 6, 7 :: int}" by auto
  have "(\<Sum>j = 0..<min (2 + 1) (2 ^ 3). deltas_at ?us j) = 7"
    unfolding ivl by (simp add: deltas_at_def)
  moreover have "updates_ok 3 ?us"
    unfolding updates_ok_def
  proof (intro allI impI)
    have sum: "(\<Sum>j = 0..<2 ^ 3. unat (deltas_at [(0, 5), (2, 3), (4, 7)] j)) = 15" unfolding ivl by (simp add: deltas_at_def)
    fix k assume "k < length ?us"
    then consider "k = 0" | "k = 1" | "k = 2" | "k = 3" by fastforce
    then show "case ?us ! k of (p, d) \<Rightarrow> 0 \<le> p \<and> p < 2 ^ 3 \<and> - (2 ^ 63) < sint d \<and>
        (sint d < 0 \<longrightarrow> - d \<le> deltas_at (take k ?us) p \<and> (\<Sum>j = 0..<2 ^ 3. unat (deltas_at (take k ?us) j)) < 2 ^ 64)"
      by cases (use sum in \<open>simp_all add: deltas_at_def\<close>)
  qed
  ultimately show ?thesis
    using fwTree_prefix_sum_correct[of 3 ?us 2] by simp
qed

text \<open>
  An update at a valid index, of either sign, keeps the tree a faithful index of the elements with
  that one element changed; a negative delta needs an element at least that large, and then no
  assertion of the loop fails.
\<close>

theorem fwTreeUpdate_correct:
  assumes "fw_rep ft a" "0 \<le> p" "p < ft_size ft"
    and "sint d < 0 \<Longrightarrow> fw_exact ft a \<and> - d \<le> a p"
  shows "\<exists>ft'. fwTreeUpdate ft p d = Some ft' \<and> fw_rep ft' (a(p := a p + d)) \<and>
    ft_size_bits ft' = ft_size_bits ft"
  using assms by (rule fwTreeUpdate_spec)

theorem fwTreeUpdate_correct_witness:
  "fw_rep (fwTreeCreate 4) (\<lambda>_. 0) \<and>
   (\<exists>ft'. fwTreeUpdate (fwTreeCreate 4) 5 3 = Some ft' \<and> fw_rep ft' ((\<lambda>_. 0)(5 := 3)) \<and>
     ft_size_bits ft' = 4)"
proof -
  have "fw_rep (fwTreeCreate 4) (\<lambda>_. 0)" by (rule fwTreeCreate_rep) simp
  moreover have "ft_size (fwTreeCreate 4) = 16" "ft_size_bits (fwTreeCreate 4) = 4"
    by (simp_all add: fwTreeCreate_def Let_def)
  ultimately show ?thesis
    using fwTreeUpdate_correct[of "fwTreeCreate 4" "\<lambda>_. 0" 5 3] by simp
qed

text \<open>
  C25: the descent of \<open>fwTreeFindIndex\<close>, for a target between 1 and the total, stays inside the array
  and returns the index whose element brings the cumulative sum to the target: the sum before it is
  smaller, the sum including it is not.
\<close>

theorem fwTreeFindIndex_correct:
  assumes "fw_rep ft a" "fw_exact ft a" "0 < target" "target \<le> ft_total ft"
  shows "\<exists>r. fwTreeFindIndex ft target = Some r \<and> 0 \<le> r \<and> r < ft_size ft \<and>
    (\<Sum>j = 0..<r. unat (a j)) < unat target \<and> unat target \<le> (\<Sum>j = 0..<r + 1. unat (a j))"
  using fwTreeFindIndex_spec[OF assms] by (simp add: fw_sum_def)

text \<open>The tree with the elements 0, 5, 0, 2.\<close>

lemma example_fwtree:
  defines "ft \<equiv> \<lparr>ft_tree = [0, 0, 5, 0, 7], ft_size_bits = 2, ft_size = 4, ft_total = 7\<rparr>"
    and "a \<equiv> (\<lambda>_. 0)(1 := 5, 3 := 2)"
  shows "fw_rep ft a" "fw_exact ft a"
proof -
  have lb: "lowbit 1 = 1" "lowbit 2 = 2" "lowbit 3 = 1" "lowbit 4 = 4" by (simp_all add: lowbit_def)
  have ivl: "{0..<4} = {0, 1, 2, 3 :: int}" "{0..<2} = {0, 1 :: int}" "{0..<1} = {0 :: int}"
    "{2..<3} = {2 :: int}" by auto
  have "i = 1 \<or> i = 2 \<or> i = 3 \<or> i = 4" if "1 \<le> i" "i \<le> 4" for i :: int using that by auto
  then show "fw_rep ft a"
    by (fastforce simp: fw_rep_def ft_def a_def fw_sum_def lb ivl)
  show "fw_exact ft a" by (simp add: fw_exact_def ft_def a_def fw_sum_def ivl)
qed

theorem fwTreeFindIndex_correct_witness:
  "\<exists>r. fwTreeFindIndex \<lparr>ft_tree = [0, 0, 5, 0, 7], ft_size_bits = 2, ft_size = 4, ft_total = 7\<rparr> 6 = Some r \<and>
     0 \<le> r \<and> r < 4"
  using fwTreeFindIndex_correct[OF example_fwtree, of 6] by auto

text \<open>
  \<open>fwTreeFindNextNonEmpty\<close> returns the least non-zero index after \<open>i\<close>, or \<open>-1\<close> when every later
  element is zero (provided the total is below \<open>2^64 - 1\<close>, so that the successor of a prefix sum does
  not wrap).
\<close>

theorem fwTreeFindNextNonEmpty_correct:
  assumes "fw_rep ft a" "unat (ft_total ft) < 2 ^ 64 - 1" "fw_exact ft a" "0 \<le> i" "i < ft_size ft"
  shows "if \<forall>j. i < j \<longrightarrow> j < ft_size ft \<longrightarrow> a j = 0 then fwTreeFindNextNonEmpty ft i = Some (-1)
    else \<exists>r. fwTreeFindNextNonEmpty ft i = Some r \<and> i < r \<and> r < ft_size ft \<and> a r \<noteq> 0 \<and>
      (\<forall>j. i < j \<longrightarrow> j < r \<longrightarrow> a j = 0)"
  using assms by (rule fwTreeFindNextNonEmpty_spec)

theorem fwTreeFindNextNonEmpty_correct_witness:
  "\<exists>r. fwTreeFindNextNonEmpty
     \<lparr>ft_tree = [0, 0, 5, 0, 7], ft_size_bits = 2, ft_size = 4, ft_total = 7\<rparr> 1 = Some r \<and> r = 3"
  using fwTreeFindNextNonEmpty_correct[OF example_fwtree(1) _ example_fwtree(2), of 1]
  by (auto split: if_splits dest: spec[of _ "3 :: int"])

end
