(* ===== verification/Adlist.thy ===== *)
theory Adlist
  imports Redis_Prelude
begin

text \<open>
  \<open>src/adlist.c\<close>: the doubly linked list used for clients, replies, slow log and pub/sub. Nodes live in an
  explicit heap, so that every pointer assignment of the source is an update of the heap;
  a null or dangling dereference is \<^term>\<open>None\<close>. Addresses returned by \<open>zmalloc\<close> are arguments of the
  operations (\<^term>\<open>None\<close> for a failed allocation); the lemmas assume that they are fresh. The callbacks
  \<open>dup\<close>, \<open>free\<close> and \<open>match\<close> are functions on values; \<open>free\<close> has no effect on the list and is not represented.
\<close>

subsection \<open>Heap and list headers\<close>

type_synonym addr = nat

record 'v listNode =
  n_prev :: "addr option"
  n_next :: "addr option"
  n_value :: 'v

type_synonym 'v heap = "addr \<rightharpoonup> 'v listNode"

record 'v alist =
  l_head :: "addr option"
  l_tail :: "addr option"
  l_len :: u64
  l_dup :: "('v \<Rightarrow> 'v option) option"
  l_match :: "('v \<Rightarrow> 'v \<Rightarrow> bool) option"

datatype direction = AL_START_HEAD | AL_START_TAIL

record listIter =
  i_next :: "addr option"
  i_direction :: direction

text \<open>Reading a node and assigning to its fields through a pointer.\<close>

definition deref :: "'v heap \<Rightarrow> addr option \<Rightarrow> 'v listNode option" where
  "deref h p = Option.bind p h"

definition set_next :: "addr option \<Rightarrow> addr option \<Rightarrow> 'v heap \<Rightarrow> 'v heap option" where
  "set_next p q h = do { a \<leftarrow> p; n \<leftarrow> h a; Some (h(a \<mapsto> n\<lparr>n_next := q\<rparr>)) }"

definition set_prev :: "addr option \<Rightarrow> addr option \<Rightarrow> 'v heap \<Rightarrow> 'v heap option" where
  "set_prev p q h = do { a \<leftarrow> p; n \<leftarrow> h a; Some (h(a \<mapsto> n\<lparr>n_prev := q\<rparr>)) }"

subsection \<open>Operations\<close>

definition listCreate :: "'v alist" where
  "listCreate = \<lparr>l_head = None, l_tail = None, l_len = 0, l_dup = None, l_match = None\<rparr>"

text \<open>\<open>listEmpty\<close>: the loop runs \<open>len\<close> times, freeing a node each time.\<close>

primrec listEmpty_loop :: "nat \<Rightarrow> addr option \<Rightarrow> 'v heap \<Rightarrow> 'v heap option" where
  "listEmpty_loop 0 current h = Some h"
| "listEmpty_loop (Suc len) current h =
     do { a \<leftarrow> current; n \<leftarrow> h a; listEmpty_loop len (n_next n) (h(a := None)) }"

definition listEmpty :: "'v heap \<Rightarrow> 'v alist \<Rightarrow> ('v heap \<times> 'v alist) option" where
  "listEmpty h l =
     do { h \<leftarrow> listEmpty_loop (unat (l_len l)) (l_head l) h;
          Some (h, l\<lparr>l_head := None, l_tail := None, l_len := 0\<rparr>) }"

definition listLinkNodeHead :: "'v heap \<Rightarrow> 'v alist \<Rightarrow> addr \<Rightarrow> ('v heap \<times> 'v alist) option" where
  "listLinkNodeHead h l node =
     do {
       (h, l) \<leftarrow>
         (if l_len l = 0 then do {
            h \<leftarrow> set_next (Some node) None h;
            h \<leftarrow> set_prev (Some node) None h;
            Some (h, l\<lparr>l_head := Some node, l_tail := Some node\<rparr>)
          } else do {
            h \<leftarrow> set_prev (Some node) None h;
            h \<leftarrow> set_next (Some node) (l_head l) h;
            h \<leftarrow> set_prev (l_head l) (Some node) h;
            Some (h, l\<lparr>l_head := Some node\<rparr>)
          });
       Some (h, l\<lparr>l_len := l_len l + 1\<rparr>)
     }"

definition listLinkNodeTail :: "'v heap \<Rightarrow> 'v alist \<Rightarrow> addr \<Rightarrow> ('v heap \<times> 'v alist) option" where
  "listLinkNodeTail h l node =
     do {
       (h, l) \<leftarrow>
         (if l_len l = 0 then do {
            h \<leftarrow> set_next (Some node) None h;
            h \<leftarrow> set_prev (Some node) None h;
            Some (h, l\<lparr>l_head := Some node, l_tail := Some node\<rparr>)
          } else do {
            h \<leftarrow> set_prev (Some node) (l_tail l) h;
            h \<leftarrow> set_next (Some node) None h;
            h \<leftarrow> set_next (l_tail l) (Some node) h;
            Some (h, l\<lparr>l_tail := Some node\<rparr>)
          });
       Some (h, l\<lparr>l_len := l_len l + 1\<rparr>)
     }"

text \<open>
  \<open>zmalloc\<close> of a node followed by \<open>node->value = value\<close>: the link fields of the new node are
  indeterminate, here \<open>junk\<close>.
\<close>

definition new_node :: "addr option \<times> addr option \<Rightarrow> 'v \<Rightarrow> 'v listNode" where
  "new_node junk value = \<lparr>n_prev = fst junk, n_next = snd junk, n_value = value\<rparr>"

text \<open>The outer option is undefined behaviour, the inner one the result (\<open>NULL\<close> on failed allocation).\<close>

definition listAddNodeHead ::
  "'v heap \<Rightarrow> 'v alist \<Rightarrow> addr option \<Rightarrow> addr option \<times> addr option \<Rightarrow> 'v \<Rightarrow> ('v heap \<times> 'v alist) option option" where
  "listAddNodeHead h l node junk value =
     (case node of
        None \<Rightarrow> Some None
      | Some node \<Rightarrow> map_option Some (listLinkNodeHead (h(node \<mapsto> new_node junk value)) l node))"

definition listAddNodeTail ::
  "'v heap \<Rightarrow> 'v alist \<Rightarrow> addr option \<Rightarrow> addr option \<times> addr option \<Rightarrow> 'v \<Rightarrow> ('v heap \<times> 'v alist) option option" where
  "listAddNodeTail h l node junk value =
     (case node of
        None \<Rightarrow> Some None
      | Some node \<Rightarrow> map_option Some (listLinkNodeTail (h(node \<mapsto> new_node junk value)) l node))"

definition listInsertNode ::
  "'v heap \<Rightarrow> 'v alist \<Rightarrow> addr \<Rightarrow> addr option \<Rightarrow> addr option \<times> addr option \<Rightarrow> 'v \<Rightarrow> bool \<Rightarrow>
   ('v heap \<times> 'v alist) option option" where
  "listInsertNode h l old_node node junk value after =
     (case node of
        None \<Rightarrow> Some None
      | Some node \<Rightarrow> do {
          let h = h(node \<mapsto> new_node junk value);
          old \<leftarrow> h old_node;
          (h, l) \<leftarrow>
            (if after then do {
               h \<leftarrow> set_prev (Some node) (Some old_node) h;
               h \<leftarrow> set_next (Some node) (n_next old) h;
               Some (h, if l_tail l = Some old_node then l\<lparr>l_tail := Some node\<rparr> else l)
             } else do {
               h \<leftarrow> set_next (Some node) (Some old_node) h;
               h \<leftarrow> set_prev (Some node) (n_prev old) h;
               Some (h, if l_head l = Some old_node then l\<lparr>l_head := Some node\<rparr> else l)
             });
          n \<leftarrow> h node;
          h \<leftarrow> (if n_prev n \<noteq> None then set_next (n_prev n) (Some node) h else Some h);
          n \<leftarrow> h node;
          h \<leftarrow> (if n_next n \<noteq> None then set_prev (n_next n) (Some node) h else Some h);
          Some (Some (h, l\<lparr>l_len := l_len l + 1\<rparr>))
        })"

definition listUnlinkNode :: "'v heap \<Rightarrow> 'v alist \<Rightarrow> addr \<Rightarrow> ('v heap \<times> 'v alist) option" where
  "listUnlinkNode h l node =
     do {
       n \<leftarrow> h node;
       (h, l) \<leftarrow>
         (if n_prev n \<noteq> None then do { h \<leftarrow> set_next (n_prev n) (n_next n) h; Some (h, l) }
          else Some (h, l\<lparr>l_head := n_next n\<rparr>));
       n \<leftarrow> h node;
       (h, l) \<leftarrow>
         (if n_next n \<noteq> None then do { h \<leftarrow> set_prev (n_next n) (n_prev n) h; Some (h, l) }
          else Some (h, l\<lparr>l_tail := n_prev n\<rparr>));
       h \<leftarrow> set_next (Some node) None h;
       h \<leftarrow> set_prev (Some node) None h;
       Some (h, l\<lparr>l_len := l_len l - 1\<rparr>)
     }"

definition listDelNode :: "'v heap \<Rightarrow> 'v alist \<Rightarrow> addr \<Rightarrow> ('v heap \<times> 'v alist) option" where
  "listDelNode h l node =
     do { (h, l) \<leftarrow> listUnlinkNode h l node; Some (h(node := None), l) }"

subsubsection \<open>Iteration and search\<close>

definition listInitIterator :: "'v alist \<Rightarrow> direction \<Rightarrow> listIter" where
  "listInitIterator l direction =
     \<lparr>i_next = (if direction = AL_START_HEAD then l_head l else l_tail l), i_direction = direction\<rparr>"

definition listRewind :: "'v alist \<Rightarrow> listIter" where
  "listRewind l = \<lparr>i_next = l_head l, i_direction = AL_START_HEAD\<rparr>"

definition listRewindTail :: "'v alist \<Rightarrow> listIter" where
  "listRewindTail l = \<lparr>i_next = l_tail l, i_direction = AL_START_TAIL\<rparr>"

definition listNext :: "'v heap \<Rightarrow> listIter \<Rightarrow> (listIter \<times> addr option) option" where
  "listNext h iter =
     (case i_next iter of
        None \<Rightarrow> Some (iter, None)
      | Some current \<Rightarrow> do {
          n \<leftarrow> h current;
          Some (iter\<lparr>i_next := (if i_direction iter = AL_START_HEAD then n_next n else n_prev n)\<rparr>, Some current)
        })"

text \<open>The loops over an iterator; a loop that does not end (on a cyclic list) has the value \<^term>\<open>None\<close>.\<close>

partial_function (option) listSearchKey_loop ::
  "'v heap \<Rightarrow> ('v \<Rightarrow> 'v \<Rightarrow> bool) option \<Rightarrow> 'v \<Rightarrow> listIter \<Rightarrow> addr option option" where
  "listSearchKey_loop h match key iter =
     Option.bind (listNext h iter) (\<lambda>(iter, node).
       case node of
         None \<Rightarrow> Some None
       | Some node \<Rightarrow> Option.bind (h node) (\<lambda>n.
           if (case match of Some f \<Rightarrow> f (n_value n) key | None \<Rightarrow> key = n_value n) then Some (Some node)
           else listSearchKey_loop h match key iter))"

definition listSearchKey :: "'v heap \<Rightarrow> 'v alist \<Rightarrow> 'v \<Rightarrow> addr option option" where
  "listSearchKey h l key = listSearchKey_loop h (l_match l) key (listRewind l)"

text \<open>\<open>listDup\<close>: \<open>nodes\<close> are the results of the successive calls of \<open>zmalloc\<close>.\<close>

partial_function (option) listDup_loop ::
  "'v heap \<Rightarrow> 'v alist \<Rightarrow> listIter \<Rightarrow> (addr option \<times> addr option \<times> addr option) list \<Rightarrow>
   ('v heap \<times> 'v alist option) option" where
  "listDup_loop h copy iter nodes =
     Option.bind (listNext h iter) (\<lambda>(iter, node).
       case node of
         None \<Rightarrow> Some (h, Some copy)
       | Some node \<Rightarrow> Option.bind (h node) (\<lambda>n.
           case (case l_dup copy of Some f \<Rightarrow> f (n_value n) | None \<Rightarrow> Some (n_value n)) of
             None \<Rightarrow> Option.bind (listEmpty h copy) (\<lambda>(h, _). Some (h, None))
           | Some value \<Rightarrow>
               (case nodes of
                  [] \<Rightarrow> None
                | (a, junk) # nodes \<Rightarrow>
                    Option.bind (listAddNodeTail h copy a junk value) (\<lambda>r.
                      case r of
                        None \<Rightarrow> Option.bind (listEmpty h copy) (\<lambda>(h, _). Some (h, None))
                      | Some (h, copy) \<Rightarrow> listDup_loop h copy iter nodes))))"

definition listDup ::
  "'v heap \<Rightarrow> 'v alist \<Rightarrow> (addr option \<times> addr option \<times> addr option) list \<Rightarrow> ('v heap \<times> 'v alist option) option" where
  "listDup h orig nodes =
     listDup_loop h (listCreate\<lparr>l_dup := l_dup orig, l_match := l_match orig\<rparr>) (listRewind orig) nodes"

text \<open>\<open>while(index-- && n) n = n->next\<close>, and the same along \<open>prev\<close>.\<close>

primrec listIndex_loop :: "'v heap \<Rightarrow> ('v listNode \<Rightarrow> addr option) \<Rightarrow> nat \<Rightarrow> addr option \<Rightarrow> addr option option" where
  "listIndex_loop h step 0 n = Some n"
| "listIndex_loop h step (Suc index) n =
     (case n of None \<Rightarrow> Some None | Some a \<Rightarrow> do { nd \<leftarrow> h a; listIndex_loop h step index (step nd) })"

definition listIndex :: "'v heap \<Rightarrow> 'v alist \<Rightarrow> int \<Rightarrow> addr option option" where
  "listIndex h l index =
     (if index < 0 then listIndex_loop h n_prev (nat (- index - 1)) (l_tail l)
      else listIndex_loop h n_next (nat index) (l_head l))"

subsubsection \<open>Rotation and concatenation\<close>

definition listRotateTailToHead :: "'v heap \<Rightarrow> 'v alist \<Rightarrow> ('v heap \<times> 'v alist) option" where
  "listRotateTailToHead h l =
     (if l_len l \<le> 1 then Some (h, l)
      else do {
        let tail = l_tail l;
        t \<leftarrow> deref h tail;
        let l = l\<lparr>l_tail := n_prev t\<rparr>;
        h \<leftarrow> set_next (l_tail l) None h;
        h \<leftarrow> set_prev (l_head l) tail h;
        h \<leftarrow> set_prev tail None h;
        h \<leftarrow> set_next tail (l_head l) h;
        Some (h, l\<lparr>l_head := tail\<rparr>)
      })"

definition listRotateHeadToTail :: "'v heap \<Rightarrow> 'v alist \<Rightarrow> ('v heap \<times> 'v alist) option" where
  "listRotateHeadToTail h l =
     (if l_len l \<le> 1 then Some (h, l)
      else do {
        let head = l_head l;
        n \<leftarrow> deref h head;
        let l = l\<lparr>l_head := n_next n\<rparr>;
        h \<leftarrow> set_prev (l_head l) None h;
        h \<leftarrow> set_next (l_tail l) head h;
        h \<leftarrow> set_next head None h;
        h \<leftarrow> set_prev head (l_tail l) h;
        Some (h, l\<lparr>l_tail := head\<rparr>)
      })"

definition listJoin :: "'v heap \<Rightarrow> 'v alist \<Rightarrow> 'v alist \<Rightarrow> ('v heap \<times> 'v alist \<times> 'v alist) option" where
  "listJoin h l other =
     (if l_len other = 0 then Some (h, l, other)
      else do {
        h \<leftarrow> set_prev (l_head other) (l_tail l) h;
        (h, l) \<leftarrow>
          (if l_tail l \<noteq> None then do { h \<leftarrow> set_next (l_tail l) (l_head other) h; Some (h, l) }
           else Some (h, l\<lparr>l_head := l_head other\<rparr>));
        Some (h, l\<lparr>l_tail := l_tail other, l_len := l_len l + l_len other\<rparr>,
              other\<lparr>l_head := None, l_tail := None, l_len := 0\<rparr>)
      })"

definition listInitNode :: "'v heap \<Rightarrow> addr \<Rightarrow> 'v \<Rightarrow> 'v heap option" where
  "listInitNode h node value =
     do { _ \<leftarrow> h node; Some (h(node \<mapsto> \<lparr>n_prev = None, n_next = None, n_value = value\<rparr>)) }"

subsection \<open>List segments\<close>

text \<open>A segment of nodes, given by addresses and values, between a predecessor and a successor.\<close>

primrec first_addr :: "(addr \<times> 'v) list \<Rightarrow> addr option \<Rightarrow> addr option" where
  "first_addr [] n = n"
| "first_addr (x # xs) n = Some (fst x)"

primrec last_addr :: "addr option \<Rightarrow> (addr \<times> 'v) list \<Rightarrow> addr option" where
  "last_addr p [] = p"
| "last_addr p (x # xs) = last_addr (Some (fst x)) xs"

primrec dlseg :: "'v heap \<Rightarrow> addr option \<Rightarrow> (addr \<times> 'v) list \<Rightarrow> addr option \<Rightarrow> bool" where
  "dlseg h p [] n \<longleftrightarrow> True"
| "dlseg h p (x # xs) n \<longleftrightarrow>
     h (fst x) = Some \<lparr>n_prev = p, n_next = first_addr xs n, n_value = snd x\<rparr> \<and> dlseg h (Some (fst x)) xs n"

lemma first_addr_append [simp]: "first_addr (xs @ ys) n = first_addr xs (first_addr ys n)"
  by (induction xs) auto

lemma last_addr_append [simp]: "last_addr p (xs @ ys) = last_addr (last_addr p xs) ys"
  by (induction xs arbitrary: p) auto

lemma dlseg_append [simp]:
  "dlseg h p (xs @ ys) n \<longleftrightarrow> dlseg h p xs (first_addr ys n) \<and> dlseg h (last_addr p xs) ys n"
  by (induction xs arbitrary: p) auto

lemma dlseg_frame [simp]: "a \<notin> fst ` set xs \<Longrightarrow> dlseg (h(a := z)) p xs n = dlseg h p xs n"
  by (induction xs arbitrary: p) auto

lemma dlseg_cong:
  "(\<And>a. a \<in> fst ` set xs \<Longrightarrow> h' a = h a) \<Longrightarrow> dlseg h' p xs n = dlseg h p xs n"
  by (induction xs arbitrary: p) auto

text \<open>A list header and the nodes it owns.\<close>

definition list_rep :: "'v heap \<Rightarrow> 'v alist \<Rightarrow> (addr \<times> 'v) list \<Rightarrow> bool" where
  "list_rep h l xs \<longleftrightarrow> dlseg h None xs None \<and> distinct (map fst xs) \<and> l_head l = first_addr xs None \<and>
     l_tail l = last_addr None xs \<and> l_len l = of_nat (length xs) \<and> length xs < 2 ^ 64"

text \<open>What lies outside the addresses \<open>A\<close> is untouched.\<close>

definition heap_frame :: "addr set \<Rightarrow> 'v heap \<Rightarrow> 'v heap \<Rightarrow> bool" where
  "heap_frame A h h' \<longleftrightarrow> (\<forall>b. b \<notin> A \<longrightarrow> h' b = h b)"

lemma list_rep_other:
  assumes "list_rep h l xs" "heap_frame A h h'" "A \<inter> fst ` set xs = {}"
  shows "list_rep h' l xs"
proof -
  have "dlseg h' None xs None = dlseg h None xs None"
    using assms(2,3) by (intro dlseg_cong) (auto simp: heap_frame_def)
  then show ?thesis using assms(1) by (simp add: list_rep_def)
qed

lemma of_nat_u64_eq_0: "n < 2 ^ 64 \<Longrightarrow> (of_nat n :: u64) = 0 \<longleftrightarrow> n = 0"
  by (simp add: word_unat_eq_iff unat_of_nat)

lemma of_nat_u64_le_1: "n < 2 ^ 64 \<Longrightarrow> (of_nat n :: u64) \<le> 1 \<longleftrightarrow> n \<le> 1"
  by (simp add: word_le_nat_alt unat_of_nat)

lemmas adlist_simps = list_rep_def heap_frame_def set_next_def set_prev_def deref_def

subsection \<open>Linking and unlinking\<close>

lemma list_rep_create: "list_rep h listCreate []"
  by (simp add: list_rep_def listCreate_def)

lemma listLinkNodeTail_spec:
  assumes rep: "list_rep h l xs" and n: "h node = Some nd" "node \<notin> fst ` set xs" "Suc (length xs) < 2 ^ 64"
  shows "\<exists>h' l'. listLinkNodeTail h l node = Some (h', l') \<and> list_rep h' l' (xs @ [(node, n_value nd)]) \<and>
    heap_frame (insert node (fst ` set xs)) h h' \<and> l_dup l' = l_dup l \<and> l_match l' = l_match l"
proof (cases xs rule: rev_cases)
  case Nil
  then show ?thesis using rep n by (cases nd) (auto simp: listLinkNodeTail_def adlist_simps)
next
  case (snoc ys y)
  then have "l_len l \<noteq> 0" using rep of_nat_u64_eq_0[of "length xs"] by (simp add: list_rep_def)
  then show ?thesis
    using rep n snoc by (cases nd; cases y) (auto simp: listLinkNodeTail_def adlist_simps)
qed

lemma listLinkNodeHead_spec:
  assumes rep: "list_rep h l xs" and n: "h node = Some nd" "node \<notin> fst ` set xs" "Suc (length xs) < 2 ^ 64"
  shows "\<exists>h' l'. listLinkNodeHead h l node = Some (h', l') \<and> list_rep h' l' ((node, n_value nd) # xs) \<and>
    heap_frame (insert node (fst ` set xs)) h h'"
proof (cases xs)
  case Nil
  then show ?thesis using rep n by (cases nd) (auto simp: listLinkNodeHead_def adlist_simps)
next
  case (Cons y ys)
  then have "l_len l \<noteq> 0" using rep of_nat_u64_eq_0[of "length xs"] by (simp add: list_rep_def)
  then show ?thesis
    using rep n Cons by (cases nd; cases y) (auto simp: listLinkNodeHead_def adlist_simps)
qed

lemma dlseg_dom: "dlseg h p xs n \<Longrightarrow> a \<in> fst ` set xs \<Longrightarrow> h a \<noteq> None"
  by (induction xs arbitrary: p) auto

lemma listInsertNode_spec:
  assumes rep: "list_rep h l (ys @ (old, w) # zs)" and n: "h node = None"
    "Suc (length (ys @ (old, w) # zs)) < 2 ^ 64"
  shows "\<exists>h' l'. listInsertNode h l old (Some node) junk v after = Some (Some (h', l')) \<and>
    list_rep h' l' (if after then ys @ (old, w) # (node, v) # zs else ys @ (node, v) # (old, w) # zs) \<and>
    heap_frame (insert node (fst ` set (ys @ (old, w) # zs))) h h'"
proof -
  have fresh: "node \<notin> fst ` set (ys @ (old, w) # zs)"
    using dlseg_dom[of h None "ys @ (old, w) # zs" None node] rep n(1) unfolding list_rep_def by blast
  show ?thesis
  proof (cases after)
    case True
    have "last_addr (Some old) zs = Some old \<longleftrightarrow> zs = []"
      using rep by (cases zs rule: rev_cases) (auto simp: list_rep_def)
    then show ?thesis
      using rep n fresh True
      by (cases zs) (auto simp: listInsertNode_def new_node_def adlist_simps Let_def image_Un)
  next
    case False
    have "first_addr ys (Some old) = Some old \<longleftrightarrow> ys = []"
      using rep by (cases ys) (auto simp: list_rep_def)
    then show ?thesis
      using rep n fresh False
      by (cases ys rule: rev_cases) (auto simp: listInsertNode_def new_node_def adlist_simps Let_def image_Un)
  qed
qed

lemma listUnlinkNode_spec:
  assumes rep: "list_rep h l (ys @ (node, w) # zs)"
  shows "\<exists>h' l'. listUnlinkNode h l node = Some (h', l') \<and> list_rep h' l' (ys @ zs) \<and>
    heap_frame (fst ` set (ys @ (node, w) # zs)) h h' \<and>
    h' node = Some \<lparr>n_prev = None, n_next = None, n_value = w\<rparr>"
  using rep
  by (cases ys rule: rev_cases; cases zs) (auto simp: listUnlinkNode_def adlist_simps)

lemma listDelNode_spec:
  assumes rep: "list_rep h l (ys @ (node, w) # zs)"
  shows "\<exists>h' l'. listDelNode h l node = Some (h', l') \<and> list_rep h' l' (ys @ zs) \<and> h' node = None \<and>
    heap_frame (fst ` set (ys @ (node, w) # zs)) h h'"
proof -
  obtain h' l' where h': "listUnlinkNode h l node = Some (h', l')" "list_rep h' l' (ys @ zs)"
      "heap_frame (fst ` set (ys @ (node, w) # zs)) h h'"
    using listUnlinkNode_spec[OF rep] by blast
  moreover have "node \<notin> fst ` set (ys @ zs)" using rep by (auto simp: list_rep_def)
  ultimately show ?thesis by (auto simp: listDelNode_def list_rep_def heap_frame_def image_Un)
qed

lemma listRotateTailToHead_spec:
  assumes rep: "list_rep h l (ys @ [(a, v)])"
  shows "\<exists>h' l'. listRotateTailToHead h l = Some (h', l') \<and> list_rep h' l' ((a, v) # ys)"
proof -
  have "l_len l \<le> 1 \<longleftrightarrow> ys = []"
    using rep of_nat_u64_le_1[of "Suc (length ys)"] by (simp add: list_rep_def)
  moreover obtain y zs z where "ys = [] \<or> ys = [y] \<or> ys = y # zs @ [z]"
    by (metis append_butlast_last_id list.exhaust)
  ultimately show ?thesis
    using rep by (elim disjE) (auto simp: listRotateTailToHead_def adlist_simps Let_def)
qed

lemma listRotateHeadToTail_spec:
  assumes rep: "list_rep h l ((a, v) # ys)"
  shows "\<exists>h' l'. listRotateHeadToTail h l = Some (h', l') \<and> list_rep h' l' (ys @ [(a, v)])"
proof -
  have "l_len l \<le> 1 \<longleftrightarrow> ys = []"
    using rep of_nat_u64_le_1[of "Suc (length ys)"] by (simp add: list_rep_def)
  moreover obtain y zs z where "ys = [] \<or> ys = [y] \<or> ys = y # zs @ [z]"
    by (metis append_butlast_last_id list.exhaust)
  ultimately show ?thesis
    using rep by (elim disjE) (auto simp: listRotateHeadToTail_def adlist_simps Let_def)
qed

lemma listJoin_spec:
  assumes rep: "list_rep h l xs" "list_rep h other ys" and disj: "fst ` set xs \<inter> fst ` set ys = {}"
    and len: "length xs + length ys < 2 ^ 64"
  shows "\<exists>h' l' other'. listJoin h l other = Some (h', l', other') \<and> list_rep h' l' (xs @ ys) \<and> list_rep h' other' []"
proof (cases ys)
  case Nil
  then show ?thesis using rep by (auto simp: listJoin_def list_rep_def)
next
  case (Cons y ys')
  then have "l_len other \<noteq> 0" using rep(2) of_nat_u64_eq_0[of "length ys"] by (simp add: list_rep_def)
  then show ?thesis
    using rep disj len Cons
    by (cases xs rule: rev_cases; cases y) (auto simp: listJoin_def adlist_simps)
qed

subsection \<open>Walking\<close>

lemma listEmpty_loop_spec:
  assumes "dlseg h p xs n" "distinct (map fst xs)" "current = first_addr xs n"
  shows "listEmpty_loop (length xs) current h = Some (\<lambda>a. if a \<in> fst ` set xs then None else h a)"
  using assms
proof (induction xs arbitrary: h p current)
  case (Cons x xs)
  have seg: "dlseg (h(fst x := None)) (Some (fst x)) xs n" using Cons.prems by (subst dlseg_frame) auto
  have dist: "distinct (map fst xs)" using Cons.prems(2) by simp
  have "listEmpty_loop (length (x # xs)) current h = listEmpty_loop (length xs) (first_addr xs n) (h(fst x := None))"
    using Cons.prems by (simp del: fun_upd_apply)
  also note Cons.IH[OF seg dist refl]
  finally show ?case by (simp add: fun_upd_def) (auto simp: fun_eq_iff)
qed simp

lemma listEmpty_spec:
  assumes "list_rep h l xs"
  shows "\<exists>h' l'. listEmpty h l = Some (h', l') \<and> list_rep h' l' [] \<and>
    h' = (\<lambda>a. if a \<in> fst ` set xs then None else h a)"
proof -
  have "unat (l_len l) = length xs" using assms by (simp add: list_rep_def unat_of_nat)
  then show ?thesis
    using assms listEmpty_loop_spec[of h None xs None "l_head l"]
    by (auto simp: listEmpty_def list_rep_def)
qed

lemma index_next:
  "dlseg h p xs None \<Longrightarrow>
   listIndex_loop h n_next i (first_addr xs None) = Some (if i < length xs then Some (fst (xs ! i)) else None)"
proof (induction i arbitrary: xs p)
  case 0
  then show ?case by (cases xs) auto
next
  case (Suc i)
  then show ?case by (cases xs) auto
qed

lemma index_prev:
  "dlseg h None xs n \<Longrightarrow>
   listIndex_loop h n_prev i (last_addr None xs) =
     Some (if i < length xs then Some (fst (xs ! (length xs - 1 - i))) else None)"
proof (induction i arbitrary: xs n)
  case 0
  then show ?case by (cases xs rule: rev_cases) auto
next
  case (Suc i)
  have "listIndex_loop h n_prev i None = Some None" by (cases i) auto
  with Suc show ?case by (cases xs rule: rev_cases) (auto simp: nth_append Suc_diff_Suc)
qed

lemma listNext_head:
  assumes "dlseg h p xs None"
  shows "listNext h \<lparr>i_next = first_addr xs None, i_direction = AL_START_HEAD\<rparr> =
    Some (\<lparr>i_next = first_addr (tl xs) None, i_direction = AL_START_HEAD\<rparr>, first_addr xs None)"
  using assms by (cases xs) (auto simp: listNext_def)

text \<open>The value test of \<open>listSearchKey\<close>.\<close>

definition key_matches :: "('v \<Rightarrow> 'v \<Rightarrow> bool) option \<Rightarrow> 'v \<Rightarrow> 'v \<Rightarrow> bool" where
  "key_matches match key v = (case match of Some f \<Rightarrow> f v key | None \<Rightarrow> key = v)"

lemma listSearchKey_loop_spec:
  assumes "dlseg h p xs None"
  shows "listSearchKey_loop h match key \<lparr>i_next = first_addr xs None, i_direction = AL_START_HEAD\<rparr> =
    Some (map_option fst (find (\<lambda>x. key_matches match key (snd x)) xs))"
  using assms
proof (induction xs arbitrary: p)
  case Nil
  then show ?case by (subst listSearchKey_loop.simps) (simp add: listNext_def)
next
  case (Cons x xs)
  then have "listSearchKey_loop h match key \<lparr>i_next = first_addr xs None, i_direction = AL_START_HEAD\<rparr> =
      Some (map_option fst (find (\<lambda>x. key_matches match key (snd x)) xs))"
    by auto
  then show ?case
    using Cons.prems listNext_head[OF Cons.prems]
    by (subst listSearchKey_loop.simps) (simp add: key_matches_def split: option.splits)
qed

lemma listSearchKey_spec:
  "list_rep h l xs \<Longrightarrow>
   listSearchKey h l key = Some (map_option fst (find (\<lambda>x. key_matches (l_match l) key (snd x)) xs))"
  using listSearchKey_loop_spec[of h None xs "l_match l" key]
  by (simp add: listSearchKey_def listRewind_def list_rep_def)

subsection \<open>Duplication\<close>

lemma listAddNodeTail_spec:
  assumes rep: "list_rep h l xs" and n: "h node = None" "Suc (length xs) < 2 ^ 64"
  shows "\<exists>h' l'. listAddNodeTail h l (Some node) junk v = Some (Some (h', l')) \<and>
    list_rep h' l' (xs @ [(node, v)]) \<and> heap_frame (insert node (fst ` set xs)) h h' \<and>
    l_dup l' = l_dup l \<and> l_match l' = l_match l"
proof -
  let ?h = "h(node \<mapsto> new_node junk v)"
  have fresh: "node \<notin> fst ` set xs" using dlseg_dom[of h None xs None node] rep n(1) by (auto simp: list_rep_def)
  then have "list_rep ?h l xs" using rep by (simp add: list_rep_def)
  then obtain h' l' where "listLinkNodeTail ?h l node = Some (h', l')" "list_rep h' l' (xs @ [(node, v)])"
      "heap_frame (insert node (fst ` set xs)) ?h h'" "l_dup l' = l_dup l" "l_match l' = l_match l"
    using listLinkNodeTail_spec[of ?h l xs node "new_node junk v"] fresh n(2) by (auto simp: new_node_def)
  then show ?thesis by (auto simp: listAddNodeTail_def heap_frame_def)
qed

lemma listAddNodeHead_spec:
  assumes rep: "list_rep h l xs" and n: "h node = None" "Suc (length xs) < 2 ^ 64"
  shows "\<exists>h' l'. listAddNodeHead h l (Some node) junk v = Some (Some (h', l')) \<and>
    list_rep h' l' ((node, v) # xs) \<and> heap_frame (insert node (fst ` set xs)) h h'"
proof -
  let ?h = "h(node \<mapsto> new_node junk v)"
  have fresh: "node \<notin> fst ` set xs" using dlseg_dom[of h None xs None node] rep n(1) by (auto simp: list_rep_def)
  then have "list_rep ?h l xs" using rep by (simp add: list_rep_def)
  then obtain h' l' where "listLinkNodeHead ?h l node = Some (h', l')" "list_rep h' l' ((node, v) # xs)"
      "heap_frame (insert node (fst ` set xs)) ?h h'"
    using listLinkNodeHead_spec[of ?h l xs node "new_node junk v"] fresh n(2) by (auto simp: new_node_def)
  then show ?thesis by (auto simp: listAddNodeHead_def heap_frame_def)
qed

text \<open>The values of a copy, when the \<open>dup\<close> method succeeds on all of them.\<close>

definition dup_value :: "('v \<Rightarrow> 'v option) option \<Rightarrow> 'v \<Rightarrow> 'v option" where
  "dup_value dup v = (case dup of Some f \<Rightarrow> f v | None \<Rightarrow> Some v)"

lemma listDup_loop_spec:
  assumes "dlseg h p xs None" "list_rep h copy ys" "fst ` set xs \<inter> fst ` set ys = {}"
    "length nodes = length xs" "distinct (map fst nodes)" "\<forall>a\<in>fst ` set nodes. h a = None"
    "\<forall>x\<in>set xs. dup_value (l_dup copy) (snd x) \<noteq> None" "length ys + length xs < 2 ^ 64"
  shows "\<exists>h' copy'. listDup_loop h copy \<lparr>i_next = first_addr xs None, i_direction = AL_START_HEAD\<rparr>
      (map (\<lambda>(a, junk). (Some a, junk)) nodes) = Some (h', Some copy') \<and>
    list_rep h' copy' (ys @ zip (map fst nodes) (map (\<lambda>x. the (dup_value (l_dup copy) (snd x))) xs)) \<and>
    heap_frame (fst ` set nodes \<union> fst ` set ys) h h'"
  using assms
proof (induction xs arbitrary: h p ys copy nodes)
  case Nil
  then show ?case by (subst listDup_loop.simps) (simp add: listNext_def heap_frame_def)
next
  case (Cons x xs)
  obtain a junk nodes' where nodes: "nodes = (a, junk) # nodes'" using Cons.prems(4) by (cases nodes) auto
  obtain v where v: "dup_value (l_dup copy) (snd x) = Some v" using Cons.prems(7) by fastforce
  obtain h1 c1 where h1: "listAddNodeTail h copy (Some a) junk v = Some (Some (h1, c1))"
      "list_rep h1 c1 (ys @ [(a, v)])" "heap_frame (insert a (fst ` set ys)) h h1"
      "l_dup c1 = l_dup copy" "l_match c1 = l_match copy"
    using listAddNodeTail_spec[OF Cons.prems(2), of a junk v] Cons.prems(6,8) nodes by auto
  have ax: "a \<notin> fst ` set (x # xs)"
    using dlseg_dom[OF Cons.prems(1), of a] Cons.prems(6) nodes by auto
  have "b \<notin> insert a (fst ` set ys)" if "b \<in> fst ` set xs" for b using that Cons.prems(3) ax by auto
  then have "dlseg h1 (Some (fst x)) xs None = dlseg h (Some (fst x)) xs None"
    using h1(3) unfolding heap_frame_def by (intro dlseg_cong) blast
  then have seg: "dlseg h1 (Some (fst x)) xs None" using Cons.prems(1) by simp
  have free: "\<forall>b\<in>fst ` set nodes'. h1 b = None"
  proof
    fix b
    assume b: "b \<in> fst ` set nodes'"
    then have "b \<noteq> a" "h b = None" using Cons.prems(5,6) nodes by auto
    moreover from this have "b \<notin> fst ` set ys"
      using dlseg_dom[of h None ys None b] Cons.prems(2) by (auto simp: list_rep_def)
    ultimately show "h1 b = None" using h1(3) by (simp add: heap_frame_def)
  qed
  obtain h' copy' where h': "listDup_loop h1 c1 \<lparr>i_next = first_addr xs None, i_direction = AL_START_HEAD\<rparr>
        (map (\<lambda>(a, junk). (Some a, junk)) nodes') = Some (h', Some copy')"
      "list_rep h' copy' ((ys @ [(a, v)]) @ zip (map fst nodes') (map (\<lambda>x. the (dup_value (l_dup c1) (snd x))) xs))"
      "heap_frame (fst ` set nodes' \<union> fst ` set (ys @ [(a, v)])) h1 h'"
    using Cons.IH[OF seg h1(2), of nodes'] Cons.prems(3-5,7,8) nodes ax free h1(4) by auto
  have "listDup_loop h copy \<lparr>i_next = first_addr (x # xs) None, i_direction = AL_START_HEAD\<rparr>
      (map (\<lambda>(a, junk). (Some a, junk)) nodes) = Some (h', Some copy')"
    using listNext_head[OF Cons.prems(1)] Cons.prems(1) v h1(1) h'(1) nodes
    by (subst listDup_loop.simps) (simp add: dup_value_def split: option.splits)
  moreover have "heap_frame (fst ` set nodes \<union> fst ` set ys) h h'"
    using h'(3) h1(3) nodes by (auto simp: heap_frame_def)
  ultimately show ?case using h'(2) nodes v h1(4) by auto
qed

subsection \<open>Properties\<close>

text \<open>
  C26: \<open>listInsertNode\<close> places the new node directly after or before the given node, at either end
  of the list as well as in the middle: the forward and backward links, head, tail and length
  all describe the new sequence, and no other part of the heap changes.
\<close>

theorem listInsertNode_correct:
  assumes "list_rep h l (ys @ (old, w) # zs)" "h node = None" "length ys + length zs + 2 < 2 ^ 64"
  shows "\<exists>h' l'. listInsertNode h l old (Some node) junk v after = Some (Some (h', l')) \<and>
    list_rep h' l' (if after then ys @ (old, w) # (node, v) # zs else ys @ (node, v) # (old, w) # zs) \<and>
    heap_frame (insert node (fst ` set (ys @ (old, w) # zs))) h h'"
  using listInsertNode_spec[OF assms(1,2)] assms(3) by simp

definition example_heap :: "nat heap" where
  "example_heap = [10 \<mapsto> \<lparr>n_prev = None, n_next = Some 20, n_value = 1\<rparr>,
                   20 \<mapsto> \<lparr>n_prev = Some 10, n_next = None, n_value = 2\<rparr>]"

definition example_list :: "nat alist" where
  "example_list = \<lparr>l_head = Some 10, l_tail = Some 20, l_len = 2, l_dup = None, l_match = None\<rparr>"

lemma example_list_rep: "list_rep example_heap example_list [(10, 1), (20, 2)]"
  by (simp add: list_rep_def example_heap_def example_list_def)

theorem listInsertNode_correct_witness:
  "\<exists>h' l'. listInsertNode example_heap example_list 20 (Some 30) (None, None) 3 False = Some (Some (h', l')) \<and>
     list_rep h' l' [(10, 1), (30, 3), (20, 2)]"
  using listInsertNode_correct[of example_heap example_list "[(10, 1)]" 20 2 "[]" 30 "(None, None)" 3 False]
    example_list_rep
  by (auto simp: example_heap_def)

text \<open>The results of the next \<open>k\<close> calls of \<open>listNext\<close>; a list of \<open>n\<close> nodes is passed after \<open>n + 1\<close> calls, the last returning \<open>NULL\<close>.\<close>

primrec next_nodes :: "nat \<Rightarrow> 'v heap \<Rightarrow> listIter \<Rightarrow> addr option list option" where
  "next_nodes 0 h iter = Some []"
| "next_nodes (Suc k) h iter = do { (iter, node) \<leftarrow> listNext h iter; nodes \<leftarrow> next_nodes k h iter; Some (node # nodes) }"

lemma next_nodes_head:
  "dlseg h p xs None \<Longrightarrow> next_nodes (Suc (length xs)) h \<lparr>i_next = first_addr xs None, i_direction = AL_START_HEAD\<rparr> =
    Some (map (Some \<circ> fst) xs @ [None])"
proof (induction xs arbitrary: p)
  case (Cons x xs)
  have "listNext h \<lparr>i_next = first_addr (x # xs) None, i_direction = AL_START_HEAD\<rparr> =
      Some (\<lparr>i_next = first_addr xs None, i_direction = AL_START_HEAD\<rparr>, Some (fst x))"
    using Cons.prems by (simp add: listNext_def)
  then show ?case using Cons.IH[of "Some (fst x)"] Cons.prems
    by (simp del: next_nodes.simps(2) add: next_nodes.simps(2)[of "Suc (length xs)"])
qed (simp add: listNext_def)

lemma next_nodes_tail:
  "dlseg h None xs n \<Longrightarrow> next_nodes (Suc (length xs)) h \<lparr>i_next = last_addr None xs, i_direction = AL_START_TAIL\<rparr> =
    Some (map (Some \<circ> fst) (rev xs) @ [None])"
proof (induction xs arbitrary: n rule: rev_induct)
  case (snoc x xs)
  have "listNext h \<lparr>i_next = last_addr None (xs @ [x]), i_direction = AL_START_TAIL\<rparr> =
      Some (\<lparr>i_next = last_addr None xs, i_direction = AL_START_TAIL\<rparr>, Some (fst x))"
    using snoc.prems by (simp add: listNext_def)
  then show ?case using snoc.IH[of "Some (fst x)"] snoc.prems
    by (simp del: next_nodes.simps(2) add: next_nodes.simps(2)[of "Suc (length xs)"])
qed (simp add: listNext_def)

text \<open>
  C27: \<open>listDelNode\<close> removes exactly the given node from the sequence, releases it and changes nothing outside the list.
  An iterator of either direction that has returned the node stays valid: it goes on with exactly the nodes
  after it (before it, in the backward direction) in their order and then ends.
\<close>

theorem listDelNode_correct:
  assumes "list_rep h l (ys @ (node, w) # zs)"
  shows "\<exists>h' l'. listDelNode h l node = Some (h', l') \<and> list_rep h' l' (ys @ zs) \<and> h' node = None \<and>
    heap_frame (fst ` set (ys @ (node, w) # zs)) h h' \<and>
    (\<exists>iter. listNext h \<lparr>i_next = Some node, i_direction = AL_START_HEAD\<rparr> = Some (iter, Some node) \<and>
       next_nodes (Suc (length zs)) h' iter = Some (map (Some \<circ> fst) zs @ [None])) \<and>
    (\<exists>iter. listNext h \<lparr>i_next = Some node, i_direction = AL_START_TAIL\<rparr> = Some (iter, Some node) \<and>
       next_nodes (Suc (length ys)) h' iter = Some (map (Some \<circ> fst) (rev ys) @ [None]))"
proof -
  obtain h' l' where h': "listDelNode h l node = Some (h', l')" "list_rep h' l' (ys @ zs)" "h' node = None"
      "heap_frame (fst ` set (ys @ (node, w) # zs)) h h'"
    using listDelNode_spec[OF assms] by blast
  have "h node = Some \<lparr>n_prev = last_addr None ys, n_next = first_addr zs None, n_value = w\<rparr>"
    using assms by (simp add: list_rep_def)
  then have "listNext h \<lparr>i_next = Some node, i_direction = AL_START_HEAD\<rparr> =
      Some (\<lparr>i_next = first_addr zs None, i_direction = AL_START_HEAD\<rparr>, Some node)"
    "listNext h \<lparr>i_next = Some node, i_direction = AL_START_TAIL\<rparr> =
      Some (\<lparr>i_next = last_addr None ys, i_direction = AL_START_TAIL\<rparr>, Some node)"
    by (simp_all add: listNext_def)
  moreover have "dlseg h' None ys (first_addr zs None)" "dlseg h' (last_addr None ys) zs None" using h'(2) by (simp_all add: list_rep_def)
  note next_nodes_tail[OF this(1)] next_nodes_head[OF this(2)]
  ultimately show ?thesis using h' by blast
qed

theorem listDelNode_correct_witness:
  "\<exists>h' l' iter. listDelNode example_heap example_list 20 = Some (h', l') \<and> list_rep h' l' [(10, 1)] \<and>
    listNext example_heap \<lparr>i_next = Some 20, i_direction = AL_START_TAIL\<rparr> = Some (iter, Some 20) \<and>
    next_nodes 2 h' iter = Some [Some 10, None]"
proof -
  have two: "Suc (length [(10 :: addr, 1 :: nat)]) = 2" by simp
  show ?thesis
    using listDelNode_correct[of example_heap example_list "[(10, 1)]" 20 2 "[]"] example_list_rep unfolding two by auto
qed

text \<open>
  \<open>listIndex\<close> counts from the head for non-negative and from the tail for negative indices
  and returns \<open>NULL\<close> exactly outside the list; \<open>listSearchKey\<close> ends and returns the first match.
\<close>

theorem listIndex_correct:
  assumes "list_rep h l xs"
  shows "listIndex h l i = Some
      (if 0 \<le> i \<and> i < int (length xs) then Some (fst (xs ! nat i))
       else if - int (length xs) \<le> i \<and> i < 0 then Some (fst (xs ! nat (int (length xs) + i)))
       else None) \<and>
    listSearchKey h l key = Some (map_option fst (find (\<lambda>x. key_matches (l_match l) key (snd x)) xs))"
proof -
  have L: "dlseg h None xs None" "l_head l = first_addr xs None" "l_tail l = last_addr None xs"
    using assms by (simp_all add: list_rep_def)
  have "length xs - 1 - nat (- i - 1) = nat (int (length xs) + i)" if "i < 0" "- int (length xs) \<le> i"
    using that by linarith
  then show ?thesis
    using listSearchKey_spec[OF assms] L index_next[OF L(1), of "nat i"] index_prev[OF L(1), of "nat (- i - 1)"]
    by (auto simp: listIndex_def)
qed

theorem listIndex_correct_witness: "listIndex example_heap example_list (-2) = Some (Some 10)"
  using listIndex_correct[OF example_list_rep, of "-2"] by simp

text \<open>
  Rotation moves the tail to the head and back, and \<open>listJoin\<close> appends one list to another,
  leaving the other empty.
\<close>

theorem listRotate_join_correct:
  assumes "list_rep h l (ys @ [(a, v)])" "list_rep h other zs" "fst ` set (ys @ [(a, v)]) \<inter> fst ` set zs = {}"
    "length ys + length zs + 1 < 2 ^ 64"
  shows "\<exists>h1 l1 h2 l2 h3 l3 other'.
    listRotateTailToHead h l = Some (h1, l1) \<and> list_rep h1 l1 ((a, v) # ys) \<and>
    listRotateHeadToTail h1 l1 = Some (h2, l2) \<and> list_rep h2 l2 (ys @ [(a, v)]) \<and>
    listJoin h l other = Some (h3, l3, other') \<and> list_rep h3 l3 (ys @ (a, v) # zs) \<and> list_rep h3 other' []"
proof -
  obtain h1 l1 where 1: "listRotateTailToHead h l = Some (h1, l1)" "list_rep h1 l1 ((a, v) # ys)"
    using listRotateTailToHead_spec[OF assms(1)] by blast
  moreover obtain h2 l2 where "listRotateHeadToTail h1 l1 = Some (h2, l2)" "list_rep h2 l2 (ys @ [(a, v)])"
    using listRotateHeadToTail_spec[OF 1(2)] by blast
  moreover obtain h3 l3 other' where "listJoin h l other = Some (h3, l3, other')"
      "list_rep h3 l3 (ys @ (a, v) # zs)" "list_rep h3 other' []"
    using listJoin_spec[OF assms(1-3)] assms(4) by auto
  ultimately show ?thesis by blast
qed

theorem listRotate_join_correct_witness:
  "\<exists>h1 l1. listRotateTailToHead example_heap example_list = Some (h1, l1) \<and> list_rep h1 l1 [(20, 2), (10, 1)]"
  using listRotate_join_correct[of example_heap example_list "[(10, 1)]" 20 2 listCreate "[]"] example_list_rep
    list_rep_create[of example_heap]
  by auto

text \<open>
  \<open>listDup\<close> ends with a new list of the duplicated values in the freshly allocated nodes and
  leaves the original list as it was.
\<close>

theorem listDup_correct:
  assumes "list_rep h orig xs" "length nodes = length xs" "distinct (map fst nodes)"
    "\<forall>a\<in>fst ` set nodes. h a = None" "\<forall>x\<in>set xs. dup_value (l_dup orig) (snd x) \<noteq> None"
  shows "\<exists>h' copy. listDup h orig (map (\<lambda>(a, junk). (Some a, junk)) nodes) = Some (h', Some copy) \<and>
    list_rep h' copy (zip (map fst nodes) (map (\<lambda>x. the (dup_value (l_dup orig) (snd x))) xs)) \<and>
    list_rep h' orig xs"
proof -
  let ?c = "listCreate\<lparr>l_dup := l_dup orig, l_match := l_match orig\<rparr> :: 'a alist"
  have seg: "dlseg h None xs None" "length xs < 2 ^ 64" "l_head orig = first_addr xs None"
    using assms(1) by (simp_all add: list_rep_def)
  have "list_rep h ?c []" by (simp add: list_rep_def listCreate_def)
  then obtain h' copy where h': "listDup h orig (map (\<lambda>(a, junk). (Some a, junk)) nodes) = Some (h', Some copy)"
      "list_rep h' copy (zip (map fst nodes) (map (\<lambda>x. the (dup_value (l_dup orig) (snd x))) xs))"
      "heap_frame (fst ` set nodes) h h'"
    using listDup_loop_spec[OF seg(1), of ?c "[]" nodes] assms(2-5) seg(2,3)
    by (auto simp: listDup_def listRewind_def)
  moreover have "fst ` set nodes \<inter> fst ` set xs = {}" using assms(4) dlseg_dom[OF seg(1)] by blast
  ultimately show ?thesis using list_rep_other[OF assms(1) h'(3)] by blast
qed

theorem listDup_correct_witness:
  "\<exists>h' copy. listDup example_heap example_list [(Some 30, None, None), (Some 40, None, None)] = Some (h', Some copy) \<and>
     list_rep h' copy [(30, 1), (40, 2)]"
  using listDup_correct[OF example_list_rep, of "[(30, None, None), (40, None, None)]"]
  by (auto simp: example_heap_def example_list_def dup_value_def)

end
