(* ===== verification/Util_Num.thy ===== *)
theory Util_Num
  imports Redis_Prelude
begin

text \<open>
  The number conversions of \<open>src/util.c\<close>: decimal lengths, printing into a caller's buffer, strict
  parsing with overflow detection, and memory units. Text is a list of bytes; a write outside the
  buffer is \<^term>\<open>None\<close>. An \<open>unsigned long long\<close> is a natural number with the reduction modulo
  \<open>2^64\<close> written where the code can reach it, a \<open>long long\<close> an integer.
\<close>

definition ULLONG_MAX :: nat where "ULLONG_MAX = 2 ^ 64 - 1"
definition LLONG_MAX :: int where "LLONG_MAX = 2 ^ 63 - 1"
definition LLONG_MIN :: int where "LLONG_MIN = - (2 ^ 63)"

lemmas ll_limits = ULLONG_MAX_def LLONG_MAX_def LLONG_MIN_def

text \<open>Conversion of an \<open>unsigned long long\<close> to \<open>long long\<close>.\<close>

definition to_ll :: "nat \<Rightarrow> int" where
  "to_ll v = (if v < 2 ^ 63 then int v else int v - 2 ^ 64)"

definition is_digit :: "u8 \<Rightarrow> bool" where "is_digit c \<longleftrightarrow> 48 \<le> c \<and> c \<le> 57"

definition digit_val :: "u8 \<Rightarrow> nat" where "digit_val c = unat c - 48"

definition digit_char :: "nat \<Rightarrow> u8" where "digit_char d = of_nat (48 + d)"

subsection \<open>Lengths and printing\<close>

function digits10 :: "nat \<Rightarrow> nat" where
  "digits10 v =
     (if v < 10 then 1 else if v < 100 then 2 else if v < 1000 then 3
      else if v < 1000000000000 then
        if v < 100000000 then
          if v < 1000000 then (if v < 10000 then 4 else 5 + (if v \<ge> 100000 then 1 else 0))
          else 7 + (if v \<ge> 10000000 then 1 else 0)
        else if v < 10000000000 then 9 + (if v \<ge> 1000000000 then 1 else 0)
        else 11 + (if v \<ge> 100000000000 then 1 else 0)
      else 12 + digits10 (v div 1000000000000))"
  by pat_completeness auto
termination by (relation "measure id") auto

declare digits10.simps [simp del]

definition sdigits10 :: "int \<Rightarrow> nat" where
  "sdigits10 v =
     (if v < 0 then let uv = (if v \<noteq> LLONG_MIN then nat (- v) else nat LLONG_MAX + 1) in digits10 uv + 1
      else digits10 (nat v))"

text \<open>The table of two-digit strings of \<open>ull2string\<close>.\<close>

definition digits_table :: bytes where
  "digits_table = map (\<lambda>c. of_nat (of_char c))
     ''00010203040506070809101112131415161718192021222324252627282930313233343536373839404142434445464748495051525354555657585960616263646566676869707172737475767778798081828384858687888990919293949596979899''"

text \<open>The digit loop of \<open>ull2string\<close>; \<open>dst\<close> points to offset \<open>off\<close> of the buffer.\<close>

function ull2string_loop :: "bytes \<Rightarrow> nat \<Rightarrow> int \<Rightarrow> nat \<Rightarrow> bytes option" where
  "ull2string_loop buf off nxt value =
     (if value \<ge> 100 then do {
        let i = (value mod 100) * 2;
        d1 \<leftarrow> arr_get digits_table (int i + 1);
        buf \<leftarrow> arr_set buf (int off + nxt) d1;
        d0 \<leftarrow> arr_get digits_table (int i);
        buf \<leftarrow> arr_set buf (int off + nxt - 1) d0;
        ull2string_loop buf off (nxt - 2) (value div 100)
      }
      else if value < 10 then arr_set buf (int off + nxt) (48 + of_nat value)
      else do {
        let i = value * 2;
        d1 \<leftarrow> arr_get digits_table (int i + 1);
        buf \<leftarrow> arr_set buf (int off + nxt) d1;
        d0 \<leftarrow> arr_get digits_table (int i);
        arr_set buf (int off + nxt - 1) d0
      })"
  by pat_completeness auto
termination by (relation "measure (\<lambda>(_, _, _, value). value)") auto

declare ull2string_loop.simps [simp del]

definition ull2string :: "bytes \<Rightarrow> nat \<Rightarrow> nat \<Rightarrow> nat \<Rightarrow> (bytes \<times> nat) option" where
  "ull2string buf off dstlen value =
     (let len = digits10 value in
      if len \<ge> dstlen then
        (if dstlen > 0 then do { buf \<leftarrow> arr_set buf (int off) 0; Some (buf, 0) } else Some (buf, 0))
      else do {
        let nxt = int len - 1;
        buf \<leftarrow> arr_set buf (int off + nxt + 1) 0;
        buf \<leftarrow> ull2string_loop buf off nxt value;
        Some (buf, len)
      })"

definition ll2string :: "bytes \<Rightarrow> nat \<Rightarrow> int \<Rightarrow> (bytes \<times> nat) option" where
  "ll2string buf dstlen svalue =
     (if svalue < 0 then
        let value = (if svalue \<noteq> LLONG_MIN then nat (- svalue) else nat LLONG_MAX + 1) in
        if dstlen < 2 then
          (if dstlen > 0 then do { buf \<leftarrow> arr_set buf 0 0; Some (buf, 0) } else Some (buf, 0))
        else do {
          buf \<leftarrow> arr_set buf 0 45;
          (buf, len) \<leftarrow> ull2string buf 1 (dstlen - 1) value;
          Some (buf, if len = 0 then 0 else len + 1)
        }
      else do {
        (buf, len) \<leftarrow> ull2string buf 0 dstlen (nat svalue);
        Some (buf, if len = 0 then 0 else len)
      })"

subsection \<open>Parsing\<close>

definition LONG_STR_SIZE :: nat where "LONG_STR_SIZE = 21"

text \<open>The digit loop of \<open>string2ll\<close>: the value and the unread rest, \<^term>\<open>None\<close> on overflow.\<close>

primrec string2ll_loop :: "nat \<Rightarrow> bytes \<Rightarrow> (nat \<times> bytes) option" where
  "string2ll_loop v [] = Some (v, [])"
| "string2ll_loop v (c # p) =
     (if is_digit c then
        if v > ULLONG_MAX div 10 then None
        else let v = (v * 10) mod 2 ^ 64 in
          if v > ULLONG_MAX - digit_val c then None
          else string2ll_loop ((v + digit_val c) mod 2 ^ 64) p
      else Some (v, c # p))"

text \<open>\<^term>\<open>None\<close> is the return value 0.\<close>

definition string2ll :: "bytes \<Rightarrow> int option" where
  "string2ll s =
     (if s = [] \<or> length s \<ge> LONG_STR_SIZE then None
      else if s = [48] then Some 0
      else
        let negative = (hd s = 45); p = (if negative then tl s else s) in
        if p = [] then None
        else if \<not> (49 \<le> hd p \<and> hd p \<le> 57) then None
        else case string2ll_loop (digit_val (hd p)) (tl p) of
          None \<Rightarrow> None
        | Some (v, rest) \<Rightarrow>
            if rest \<noteq> [] then None
            else if negative then
              if v > nat (- (LLONG_MIN + 1)) + 1 then None else Some (to_ll ((2 ^ 64 - v) mod 2 ^ 64))
            else if int v > LLONG_MAX then None else Some (to_ll v))"

text \<open>\<open>string2l\<close> with a 64-bit \<open>long\<close>.\<close>

definition string2l :: "bytes \<Rightarrow> int option" where
  "string2l s =
     (case string2ll s of
        None \<Rightarrow> None
      | Some llval \<Rightarrow> if llval < LLONG_MIN \<or> llval > LLONG_MAX then None else Some llval)"

subsection \<open>Memory units\<close>

definition to_lower :: "u8 \<Rightarrow> u8" where
  "to_lower c = (if 65 \<le> c \<and> c \<le> 90 then c + 32 else c)"

definition strcaseeq :: "bytes \<Rightarrow> bytes \<Rightarrow> bool" where
  "strcaseeq a b \<longleftrightarrow> map to_lower a = map to_lower b"

text \<open>\<open>strtoull\<close> in base 10 on a string of digits: saturates at \<open>ULLONG_MAX\<close>.\<close>

definition digits_value :: "nat \<Rightarrow> bytes \<Rightarrow> nat" where
  "digits_value = foldl (\<lambda>n c. 10 * n + digit_val c)"

definition strtoull_digits :: "bytes \<Rightarrow> nat" where
  "strtoull_digits ds = min ULLONG_MAX (digits_value 0 ds)"

text \<open>\<open>Inl ()\<close> is the error result; \<open>p\<close> is the C string without its terminator.\<close>

definition memtoull :: "bytes \<Rightarrow> unit + nat" where
  "memtoull p =
     (if p \<noteq> [] \<and> hd p = 45 then Inl ()
      else
        let u = dropWhile is_digit p; ds = takeWhile is_digit p;
            unit_mul =
              (if u = [] \<or> strcaseeq u [98] then Some 1
               else if strcaseeq u [107] then Some 1000
               else if strcaseeq u [107, 98] then Some 1024
               else if strcaseeq u [109] then Some (1000 * 1000)
               else if strcaseeq u [109, 98] then Some (1024 * 1024)
               else if strcaseeq u [103] then Some (1000 * 1000 * 1000)
               else if strcaseeq u [103, 98] then Some (1024 * 1024 * 1024)
               else None) in
        case unit_mul of
          None \<Rightarrow> Inl ()
        | Some mul \<Rightarrow>
            if length ds \<ge> 128 then Inl ()
            else let val = strtoull_digits ds in
              if val > ULLONG_MAX div mul then Inr ULLONG_MAX else Inr ((val * mul) mod 2 ^ 64))"

subsection \<open>Hexadecimal\<close>

definition safe_is_c_in_range :: "u8 \<Rightarrow> u8 \<Rightarrow> u8 \<Rightarrow> bool" where
  "safe_is_c_in_range c start fin \<longleftrightarrow> c \<ge> start \<and> c \<le> fin"

definition base_16_char_type :: "u8 \<Rightarrow> int" where
  "base_16_char_type c =
     (if safe_is_c_in_range c 48 57 then 0
      else if safe_is_c_in_range c 97 102 then 1
      else if safe_is_c_in_range c 65 70 then 2
      else -1)"

text \<open>
  \<open>string2ul_base16_async_signal_safe\<close>: the byte at the current index is read before the index is
  compared with the length. \<open>Inl ()\<close> is the overflow result.
\<close>

function base16_loop :: "bytes \<Rightarrow> nat \<Rightarrow> nat \<Rightarrow> nat \<Rightarrow> (unit + nat) option" where
  "base16_loop src slen idx result =
     do {
       c \<leftarrow> arr_get src (int idx);
       let char_type = base_16_char_type c;
       if char_type \<noteq> -1 \<and> idx < slen then
         let curr_val = nat (int (unat c) - (if char_type = 0 then 48 else if char_type = 1 then 87 else 55)) in
         if result > ULLONG_MAX div 16 \<or> result > (ULLONG_MAX - curr_val) div 16 then Some (Inl ())
         else base16_loop src slen (idx + 1) ((result * 16 + curr_val) mod 2 ^ 64)
       else Some (Inr result)
     }"
  by pat_completeness auto
termination by (relation "measure (\<lambda>(_, slen, idx, _). slen - idx)") auto

declare base16_loop.simps [simp del]

definition string2ul_base16_async_signal_safe :: "bytes \<Rightarrow> nat \<Rightarrow> (unit + nat) option" where
  "string2ul_base16_async_signal_safe src slen = base16_loop src slen 0 0"

subsection \<open>Buffers of characters\<close>

text \<open>The position \<open>mempbrk\<close> points to.\<close>

primrec mempbrk :: "bytes \<Rightarrow> bytes \<Rightarrow> nat option" where
  "mempbrk [] chars = None"
| "mempbrk (c # s) chars = (if c \<in> set chars then Some 0 else map_option Suc (mempbrk s chars))"

fun mapchar :: "u8 \<Rightarrow> bytes \<Rightarrow> bytes \<Rightarrow> u8" where
  "mapchar c (f # from) (t # to) = (if c = f then t else mapchar c from to)"
| "mapchar c _ _ = c"

definition memmapchars :: "bytes \<Rightarrow> bytes \<Rightarrow> bytes \<Rightarrow> bytes" where
  "memmapchars s from to = map (\<lambda>c. mapchar c from to) s"

subsection \<open>The decimal reference\<close>

fun dec :: "nat \<Rightarrow> bytes" where
  "dec n = (if n < 10 then [digit_char n] else dec (n div 10) @ [digit_char (n mod 10)])"

declare dec.simps [simp del]

definition dec_ll :: "int \<Rightarrow> bytes" where
  "dec_ll v = (if v < 0 then 45 # dec (nat (- v)) else dec (nat v))"

lemma dec_small: "n < 10 \<Longrightarrow> dec n = [digit_char n]"
  by (simp add: dec.simps)

lemma dec_snoc: "0 < n \<Longrightarrow> d < 10 \<Longrightarrow> dec (10 * n + d) = dec n @ [digit_char d]"
  by (simp add: dec.simps[of "10 * n + d"])

lemma dec_100: "100 \<le> n \<Longrightarrow> dec n = dec (n div 100) @ [digit_char (n mod 100 div 10), digit_char (n mod 10)]"
proof -
  assume "100 \<le> n"
  moreover from this have "\<not> n div 10 < 10" by simp
  moreover have "n div 10 mod 10 = n mod 100 div 10" by (simp add: mod_mult2_eq[of n 10 10, simplified])
  ultimately show ?thesis
    by (simp add: dec.simps[of n] dec.simps[of "n div 10"] div_mult2_eq[of n 10 10, simplified])
qed

lemma length_dec_pos: "0 < length (dec n)"
  by (simp add: dec.simps[of n])

lemma length_dec_Suc: "10 \<le> n \<Longrightarrow> length (dec n) = Suc (length (dec (n div 10)))"
  by (simp add: dec.simps[of n])

lemma length_dec_range: "10 ^ k \<le> n \<Longrightarrow> n < 10 ^ Suc k \<Longrightarrow> length (dec n) = Suc k"
proof (induction k arbitrary: n)
  case 0
  then show ?case by (simp add: dec_small)
next
  case (Suc k)
  then have "10 ^ k \<le> n div 10" "n div 10 < 10 ^ Suc k" by auto
  moreover have "10 \<le> n" using Suc.prems(1) by (metis dual_order.trans one_le_numeral one_le_power mult_le_cancel_left1
        power_Suc mult.right_neutral mult_le_mono2)
  ultimately show ?case using Suc.IH length_dec_Suc by simp
qed

lemma length_dec_shift: "10 ^ k \<le> n \<Longrightarrow> length (dec n) = k + length (dec (n div 10 ^ k))"
proof (induction k arbitrary: n)
  case (Suc k)
  have "10 ^ k \<le> n div 10" using Suc.prems by auto
  moreover have "10 \<le> n"
    using Suc.prems by (metis dual_order.trans one_le_numeral one_le_power power_Suc mult.right_neutral mult_le_mono2)
  ultimately show ?case
    using Suc.IH[of "n div 10"] length_dec_Suc[of n] by (simp add: div_mult2_eq)
qed simp

lemma length_dec_le: "n < 10 ^ Suc k \<Longrightarrow> length (dec n) \<le> Suc k"
proof (induction k arbitrary: n)
  case 0
  then show ?case by (simp add: dec_small)
next
  case (Suc k)
  then show ?case
    using Suc.IH[of "n div 10"] by (cases "n < 10") (auto simp: dec_small length_dec_Suc)
qed

lemma digits10_dec: "digits10 v = length (dec v)"
proof (induction v rule: digits10.induct)
  case (1 v)
  show ?case
  proof (cases "v < 1000000000000")
    case True
    consider "v < 10" | k where "k \<in> {1..11}" "10 ^ k \<le> v" "v < 10 ^ Suc k"
    proof -
      assume a: "v < 10 \<Longrightarrow> thesis" "\<And>k. k \<in> {1..11} \<Longrightarrow> 10 ^ k \<le> v \<Longrightarrow> v < 10 ^ Suc k \<Longrightarrow> thesis"
      show thesis
        using a(1) a(2)[of 1] a(2)[of 2] a(2)[of 3] a(2)[of 4] a(2)[of 5] a(2)[of 6] a(2)[of 7] a(2)[of 8]
          a(2)[of 9] a(2)[of 10] a(2)[of 11] True
        by (auto simp: not_less[symmetric])
    qed
    then show ?thesis
    proof cases
      case 1
      then show ?thesis by (simp add: digits10.simps[of v] dec_small)
    next
      case (2 k)
      moreover have "k = 1 \<or> k = 2 \<or> k = 3 \<or> k = 4 \<or> k = 5 \<or> k = 6 \<or> k = 7 \<or> k = 8 \<or> k = 9 \<or> k = 10 \<or> k = 11"
        using 2(1) by (simp, presburger)
      ultimately show ?thesis
        using length_dec_range[of k v] by (elim disjE) (simp_all add: digits10.simps[of v])
    qed
  next
    case False
    then have "10 ^ 12 \<le> v" by simp
    then have "length (dec v) = 12 + length (dec (v div 10 ^ 12))" by (rule length_dec_shift)
    then show ?thesis using False 1 by (simp add: digits10.simps[of v])
  qed
qed

subsection \<open>Printing\<close>

lemma length_digits_table: "length digits_table = 200"
  by (simp add: digits_table_def)

lemma digits_table_pairs:
  "digits_table = concat (map (\<lambda>i. [digit_char (i div 10), digit_char (i mod 10)]) [0..<100])"
  by code_simp

lemma nth_concat_pairs:
  "i < n \<Longrightarrow> concat (map (\<lambda>i. [f i, g i]) [0..<n]) ! (2 * i) = f i \<and>
     concat (map (\<lambda>i. [f i, g i]) [0..<n]) ! Suc (2 * i) = g i"
proof (induction n)
  case (Suc n)
  have len: "length (concat (map (\<lambda>i. [f i, g i]) [0..<n])) = 2 * n" by (induction n) auto
  show ?case
  proof (cases "i = n")
    case True
    then show ?thesis by (simp add: nth_append len)
  next
    case False
    then show ?thesis using Suc by (simp add: nth_append len)
  qed
qed simp

lemma digits_table_nth:
  assumes "i < 100"
  shows "digits_table ! (2 * i) = digit_char (i div 10)" "digits_table ! Suc (2 * i) = digit_char (i mod 10)"
  using nth_concat_pairs[OF assms, of "\<lambda>i. digit_char (i div 10)" "\<lambda>i. digit_char (i mod 10)"]
  unfolding digits_table_pairs by simp_all

lemma digits_table_get:
  assumes "i < 100"
  shows "arr_get digits_table (int (i * 2) + 1) = Some (digit_char (i mod 10))"
    "arr_get digits_table (int (i * 2)) = Some (digit_char (i div 10))"
  using digits_table_nth[OF assms] assms
  by (simp_all add: arr_get_def length_digits_table nat_add_distrib nat_mult_distrib mult.commute)

text \<open>Overwriting a part of a buffer.\<close>

definition splice :: "bytes \<Rightarrow> nat \<Rightarrow> bytes \<Rightarrow> bytes" where
  "splice buf off bs = take off buf @ bs @ drop (off + length bs) buf"

lemma length_splice: "off + length bs \<le> length buf \<Longrightarrow> length (splice buf off bs) = length buf"
  by (simp add: splice_def)

lemma splice_upd:
  assumes "off + length bs + length cs \<le> length buf"
  shows "splice (splice buf (off + length bs) cs) off bs = splice buf off (bs @ cs)"
  using assms by (simp add: splice_def min_def add.assoc)

lemma upd_splice: "i < length buf \<Longrightarrow> buf[i := c] = splice buf i [c]"
  by (simp add: splice_def upd_conv_take_nth_drop)

lemma ull2string_loop_spec:
  assumes "nxt + 1 = int (length (dec value))" "off + length (dec value) \<le> length buf"
  shows "ull2string_loop buf off nxt value = Some (splice buf off (dec value))"
  using assms
proof (induction buf off nxt "value" rule: ull2string_loop.induct)
  case (1 buf off nxt "value")
  consider (small) "value < 10" | (two) "10 \<le> value" "value < 100" | (more) "100 \<le> value" by linarith
  then show ?case
  proof cases
    case small
    then show ?thesis
      using "1.prems" by (simp add: ull2string_loop.simps[of buf] dec_small arr_set_def upd_splice digit_char_def)
  next
    case two
    have "dec value = [digit_char (value div 10), digit_char (value mod 10)]"
      using two by (simp add: dec.simps[of "value"] dec_small)
    then show ?thesis
      using two "1.prems" digits_table_get[of "value"]
      by (simp add: ull2string_loop.simps[of buf] arr_set_def upd_splice length_splice nat_add_distrib
          splice_upd[where bs = "[x]" and cs = "[y]" for x y, simplified])
  next
    case more
    let ?v = "value mod 100" and ?w = "value div 100"
    have d: "dec value = dec ?w @ [digit_char (?v div 10), digit_char (value mod 10)]" using dec_100[OF more] .
    let ?n = "length (dec ?w)"
    have nxt: "nxt = int ?n + 1" using "1.prems"(1) d by simp
    have v: "?v < 100" "?v mod 10 = value mod 10" by (simp_all add: mod_mod_cancel)
    let ?b1 = "buf[off + ?n + 1 := digit_char (value mod 10)]"
    let ?b2 = "?b1[off + ?n := digit_char (?v div 10)]"
    have ix: "nat (int off + nxt) = off + ?n + 1" "nat (int off + nxt - 1) = off + ?n" using nxt by linarith+
    have len: "off + ?n + 2 \<le> length buf" using "1.prems"(2) d by simp
    have run: "ull2string_loop buf off nxt value = ull2string_loop ?b2 off (nxt - 2) ?w"
      using more digits_table_get[OF v(1)] v(2) ix len nxt
      by (simp add: ull2string_loop.simps[of buf] arr_set_def)
    have "ull2string_loop ?b2 off (nxt - 2) ?w = Some (splice ?b2 off (dec ?w))"
      using more digits_table_get[OF v(1)] v(2) ix len nxt
      by (intro "1.IH"[OF more refl]) (auto simp: arr_set_def)
    moreover have "splice ?b2 off (dec ?w) = splice buf off (dec value)"
      using len d splice_upd[of "off + ?n" "[digit_char (?v div 10)]" "[digit_char (value mod 10)]" buf]
        splice_upd[of off "dec ?w" "[digit_char (?v div 10), digit_char (value mod 10)]" buf]
      by (simp add: upd_splice length_splice)
    ultimately show ?thesis using run by simp
  qed
qed

lemma ull2string_spec:
  assumes "off + dstlen \<le> length buf"
  shows "ull2string buf off dstlen value =
    (if length (dec value) < dstlen then Some (splice buf off (dec value @ [0]), length (dec value))
     else Some (if 0 < dstlen then buf[off := 0] else buf, 0))"
proof (cases "length (dec value) < dstlen")
  case True
  let ?n = "length (dec value)"
  let ?b = "buf[off + ?n := 0]"
  have "ull2string_loop ?b off (int ?n - 1) value = Some (splice ?b off (dec value))"
    using True assms by (intro ull2string_loop_spec) auto
  moreover have "splice ?b off (dec value) = splice buf off (dec value @ [0])"
    using True assms splice_upd[of off "dec value" "[0]" buf] by (simp add: upd_splice)
  moreover have "nat (int off + int ?n) = off + ?n" by linarith
  ultimately show ?thesis
    using True assms by (simp add: ull2string_def digits10_dec arr_set_def)
next
  case False
  then show ?thesis using assms by (simp add: ull2string_def digits10_dec arr_set_def)
qed

text \<open>\<open>ll2string\<close> prints the decimal representation when it fits with its terminator, and returns 0 otherwise.\<close>

lemma ll2string_spec:
  assumes "dstlen \<le> length buf" "LLONG_MIN \<le> v" "v \<le> LLONG_MAX" "length (dec_ll v) < dstlen"
  shows "ll2string buf dstlen v = Some (splice buf 0 (dec_ll v @ [0]), length (dec_ll v))"
proof (cases "v < 0")
  case False
  then show ?thesis
    using assms length_dec_pos[of "nat v"] by (simp add: ll2string_def ull2string_spec dec_ll_def)
next
  case True
  have val: "(if v \<noteq> LLONG_MIN then nat (- v) else nat LLONG_MAX + 1) = nat (- v)" by (auto simp: ll_limits)
  have len: "dec_ll v = 45 # dec (nat (- v))" using True by (simp add: dec_ll_def)
  have "0 < length buf" using assms(1,4) by linarith
  then have "arr_set buf 0 45 = Some (splice buf 0 [45])" by (simp add: arr_set_def upd_splice)
  moreover have "ull2string (splice buf 0 [45]) 1 (dstlen - 1) (nat (- v)) =
      Some (splice (splice buf 0 [45]) 1 (dec (nat (- v)) @ [0]), length (dec (nat (- v))))"
    using assms(1,4) len by (subst ull2string_spec) (auto simp: length_splice)
  moreover have "splice (splice buf 0 [45]) 1 (dec (nat (- v)) @ [0]) = splice buf 0 (dec_ll v @ [0])"
    using assms(1,4) len by (simp add: splice_def)
  ultimately show ?thesis
    using True assms(4) len length_dec_pos[of "nat (- v)"] unfolding ll2string_def val by simp
qed

subsection \<open>Parsing is the inverse of printing\<close>

lemma digit_val_char: "d < 10 \<Longrightarrow> digit_val (digit_char d) = d"
  by (simp add: digit_val_def digit_char_def unat_of_nat del: of_nat_add)

lemma is_digit_char: "d < 10 \<Longrightarrow> is_digit (digit_char d)"
  by (simp add: is_digit_def digit_char_def word_le_nat_alt unat_of_nat del: of_nat_add)

lemma is_digitD:
  assumes "is_digit c"
  shows "digit_val c < 10" "digit_char (digit_val c) = c"
proof -
  have c: "48 \<le> unat c" "unat c \<le> 57" using assms by (simp_all add: is_digit_def word_le_nat_alt)
  then show "digit_val c < 10" by (simp add: digit_val_def)
  have "48 + digit_val c = unat c" using c by (simp add: digit_val_def)
  then show "digit_char (digit_val c) = c" by (simp add: digit_char_def of_nat_unat del: of_nat_add)
qed

lemma digits_value_simps [simp]:
  "digits_value n [] = n" "digits_value n (c # ds) = digits_value (10 * n + digit_val c) ds"
  "digits_value n (ds @ es) = digits_value (digits_value n ds) es"
  by (simp_all add: digits_value_def)

lemma digits_value_mono: "n \<le> digits_value n ds"
proof (induction ds arbitrary: n)
  case (Cons c ds)
  show ?case using Cons[of "10 * n + digit_val c"] by simp
qed simp

lemma dec_digits_value:
  "0 < n \<Longrightarrow> \<forall>c\<in>set ds. is_digit c \<Longrightarrow> dec (digits_value n ds) = dec n @ ds"
  by (induction ds arbitrary: n) (simp_all add: dec_snoc is_digitD)

lemma dec_decomp:
  "0 < n \<Longrightarrow> \<exists>d cs. dec n = digit_char d # cs \<and> 0 < d \<and> d < 10 \<and> (\<forall>x\<in>set cs. is_digit x) \<and> digits_value d cs = n"
proof (induction n rule: dec.induct)
  case (1 n)
  show ?case
  proof (cases "n < 10")
    case True
    then show ?thesis using 1 by (auto simp: dec_small)
  next
    case False
    then obtain d cs where "dec (n div 10) = digit_char d # cs" "0 < d" "d < 10" "\<forall>x\<in>set cs. is_digit x"
        "digits_value d cs = n div 10"
      using "1.IH" by force
    then show ?thesis
      using False by (intro exI[of _ d] exI[of _ "cs @ [digit_char (n mod 10)]"])
        (simp add: dec.simps[of n] is_digit_char digit_val_char)
  qed
qed

lemma string2ll_loop_spec:
  "v < 2 ^ 64 \<Longrightarrow> string2ll_loop v p =
     (if digits_value v (takeWhile is_digit p) < 2 ^ 64
      then Some (digits_value v (takeWhile is_digit p), dropWhile is_digit p) else None)"
proof (induction p arbitrary: v)
  case (Cons c p)
  show ?case
  proof (cases "is_digit c")
    case True
    let ?w = "10 * v + digit_val c"
    have d: "digit_val c < 10" using is_digitD(1)[OF True] .
    have mono: "?w \<le> digits_value ?w (takeWhile is_digit p)" by (rule digits_value_mono)
    show ?thesis
    proof (cases "?w < 2 ^ 64")
      case w: True
      then have "\<not> v > ULLONG_MAX div 10" "(v * 10) mod 2 ^ 64 = 10 * v" "\<not> 10 * v > ULLONG_MAX - digit_val c"
        using d by (simp_all add: ULLONG_MAX_def)
      then have "string2ll_loop v (c # p) = string2ll_loop ?w p" using True w by (simp add: mult.commute)
      then show ?thesis using Cons.IH[OF w] True by simp
    next
      case False
      have "(v * 10) mod 2 ^ 64 > ULLONG_MAX - digit_val c" if "\<not> v > ULLONG_MAX div 10"
      proof -
        have "(v * 10) mod 2 ^ 64 = v * 10" using that by (intro mod_less) (simp add: ULLONG_MAX_def)
        then show ?thesis using False d by (simp add: ULLONG_MAX_def)
      qed
      then have "v > ULLONG_MAX div 10 \<or> (v * 10) mod 2 ^ 64 > ULLONG_MAX - digit_val c" by blast
      then have "string2ll_loop v (c # p) = None" using True by auto
      then show ?thesis using False mono True by simp
    qed
  qed (use Cons.prems in simp)
qed simp

lemma first_digit:
  assumes "49 \<le> c" "c \<le> (57 :: u8)"
  shows "is_digit c" "0 < digit_val c"
  using assms by (auto simp: is_digit_def digit_val_def word_le_nat_alt)

lemma to_ll_neg: "0 < v \<Longrightarrow> v \<le> 2 ^ 63 \<Longrightarrow> to_ll ((2 ^ 64 - v) mod 2 ^ 64) = - int v"
  by (simp add: to_ll_def)

text \<open>What \<open>string2ll\<close> computes, without the length guard.\<close>

lemma string2ll_digits:
  assumes "p \<noteq> []" "49 \<le> hd p" "hd p \<le> 57"
  shows "(\<exists>v. string2ll_loop (digit_val (hd p)) (tl p) = Some (v, []) \<and> P v) \<longleftrightarrow>
    (\<exists>v. 0 < v \<and> v < 2 ^ 64 \<and> p = dec v \<and> P v)"
proof
  let ?d = "digit_val (hd p)"
  have f: "is_digit (hd p)" "0 < ?d" "?d < 10" "digit_char ?d = hd p"
    using first_digit[OF assms(2,3)] is_digitD[of "hd p"] by auto
  have spec: "string2ll_loop ?d (tl p) =
      (if digits_value ?d (takeWhile is_digit (tl p)) < 2 ^ 64
       then Some (digits_value ?d (takeWhile is_digit (tl p)), dropWhile is_digit (tl p)) else None)"
    using f(3) by (intro string2ll_loop_spec) simp
  {
    assume "\<exists>v. string2ll_loop ?d (tl p) = Some (v, []) \<and> P v"
    then obtain v where "string2ll_loop ?d (tl p) = Some (v, [])" and P: "P v" by blast
    then have v: "v = digits_value ?d (takeWhile is_digit (tl p))" "v < 2 ^ 64" "dropWhile is_digit (tl p) = []"
      using spec by (auto split: if_splits)
    then have all: "\<forall>c\<in>set (tl p). is_digit c" "takeWhile is_digit (tl p) = tl p"
      by (auto simp: dropWhile_eq_Nil_conv takeWhile_eq_all_conv)
    then have "dec v = p"
      using dec_digits_value[OF f(2) all(1)] dec_small[OF f(3)] f(4) assms(1) unfolding v(1) all(2) by simp
    moreover have "0 < v" using v(1) digits_value_mono[of ?d "takeWhile is_digit (tl p)"] f(2) by linarith
    ultimately show "\<exists>v. 0 < v \<and> v < 2 ^ 64 \<and> p = dec v \<and> P v" using v(2) P by blast
  next
    assume "\<exists>v. 0 < v \<and> v < 2 ^ 64 \<and> p = dec v \<and> P v"
    then obtain v where v: "0 < v" "v < 2 ^ 64" "p = dec v" "P v" by blast
    then obtain d cs where d: "p = digit_char d # cs" "d < 10" "\<forall>x\<in>set cs. is_digit x" "digits_value d cs = v"
      using dec_decomp by blast
    then have "takeWhile is_digit (tl p) = cs" "dropWhile is_digit (tl p) = []" "?d = d"
      by (auto simp: takeWhile_eq_all_conv dropWhile_eq_Nil_conv digit_val_char)
    then show "\<exists>v. string2ll_loop ?d (tl p) = Some (v, []) \<and> P v" using spec d(4) v(2,4) by auto
  }
qed

lemma dec_first:
  assumes "0 < v"
  shows "dec v \<noteq> []" "49 \<le> hd (dec v)" "hd (dec v) \<le> 57"
proof -
  obtain d cs where "dec v = digit_char d # cs" "0 < d" "d < 10" using dec_decomp[OF assms] by blast
  moreover have "unat (digit_char d) = 48 + d"
    using \<open>d < 10\<close> by (simp add: digit_char_def unat_of_nat del: of_nat_add)
  ultimately show "dec v \<noteq> []" "49 \<le> hd (dec v)" "hd (dec v) \<le> 57" by (auto simp: word_le_nat_alt)
qed

lemma dec_ll_length: "LLONG_MIN \<le> v \<Longrightarrow> v \<le> LLONG_MAX \<Longrightarrow> length (dec_ll v) < LONG_STR_SIZE"
proof -
  assume v: "LLONG_MIN \<le> v" "v \<le> LLONG_MAX"
  have "nat \<bar>v\<bar> < 10 ^ Suc 18" using v by (simp add: ll_limits)
  then have "length (dec (nat \<bar>v\<bar>)) \<le> Suc 18" by (rule length_dec_le)
  then show ?thesis by (auto simp: dec_ll_def LONG_STR_SIZE_def)
qed

lemma dec_ll_pos: "0 < v \<Longrightarrow> dec_ll (int v) = dec v" "0 < v \<Longrightarrow> dec_ll (- int v) = 45 # dec v"
  by (simp_all add: dec_ll_def)

lemma string2ll_nonneg:
  assumes "s \<noteq> []" "length s < LONG_STR_SIZE" "s \<noteq> [48]" "hd s \<noteq> 45"
  shows "string2ll s = Some v \<longleftrightarrow> 0 < v \<and> v \<le> LLONG_MAX \<and> s = dec_ll v"
proof (cases "49 \<le> hd s \<and> hd s \<le> 57")
  case True
  have "string2ll s = Some v \<longleftrightarrow>
      (\<exists>n. string2ll_loop (digit_val (hd s)) (tl s) = Some (n, []) \<and> int n \<le> LLONG_MAX \<and> to_ll n = v)"
    using assms True by (auto simp: string2ll_def split: option.splits)
  also have "\<dots> \<longleftrightarrow> (\<exists>n. 0 < n \<and> n < 2 ^ 64 \<and> s = dec n \<and> int n \<le> LLONG_MAX \<and> to_ll n = v)"
    using True by (intro string2ll_digits[OF assms(1)]) auto
  also have "\<dots> \<longleftrightarrow> 0 < v \<and> v \<le> LLONG_MAX \<and> s = dec_ll v"
  proof
    assume "\<exists>n. 0 < n \<and> n < 2 ^ 64 \<and> s = dec n \<and> int n \<le> LLONG_MAX \<and> to_ll n = v"
    then show "0 < v \<and> v \<le> LLONG_MAX \<and> s = dec_ll v" by (auto simp: to_ll_def ll_limits dec_ll_pos)
  next
    assume "0 < v \<and> v \<le> LLONG_MAX \<and> s = dec_ll v"
    then show "\<exists>n. 0 < n \<and> n < 2 ^ 64 \<and> s = dec n \<and> int n \<le> LLONG_MAX \<and> to_ll n = v"
      by (intro exI[of _ "nat v"]) (auto simp: to_ll_def ll_limits dec_ll_def)
  qed
  finally show ?thesis .
next
  case False
  then have "string2ll s = None" using assms by (auto simp: string2ll_def)
  then show ?thesis using False dec_first[of "nat v"] by (auto simp: dec_ll_def)
qed

lemma string2ll_neg:
  assumes "length (45 # p) < LONG_STR_SIZE"
  shows "string2ll (45 # p) = Some v \<longleftrightarrow> v < 0 \<and> LLONG_MIN \<le> v \<and> 45 # p = dec_ll v"
proof (cases "p \<noteq> [] \<and> 49 \<le> hd p \<and> hd p \<le> 57")
  case True
  have "string2ll (45 # p) = Some v \<longleftrightarrow>
      (\<exists>n. string2ll_loop (digit_val (hd p)) (tl p) = Some (n, []) \<and>
        n \<le> 2 ^ 63 \<and> to_ll ((2 ^ 64 - n) mod 2 ^ 64) = v)"
    using assms True by (auto simp: string2ll_def LLONG_MIN_def split: option.splits)
  also have "\<dots> \<longleftrightarrow> (\<exists>n. 0 < n \<and> n < 2 ^ 64 \<and> p = dec n \<and> n \<le> 2 ^ 63 \<and> to_ll ((2 ^ 64 - n) mod 2 ^ 64) = v)"
    using True by (intro string2ll_digits) auto
  also have "\<dots> \<longleftrightarrow> v < 0 \<and> LLONG_MIN \<le> v \<and> 45 # p = dec_ll v"
  proof
    assume "\<exists>n. 0 < n \<and> n < 2 ^ 64 \<and> p = dec n \<and> n \<le> 2 ^ 63 \<and> to_ll ((2 ^ 64 - n) mod 2 ^ 64) = v"
    then obtain n where n: "0 < n" "p = dec n" "n \<le> 2 ^ 63" "v = - int n" using to_ll_neg by auto
    then have "int n \<le> 2 ^ 63" by (metis of_nat_le_iff of_nat_numeral of_nat_power)
    then show "v < 0 \<and> LLONG_MIN \<le> v \<and> 45 # p = dec_ll v" using n by (simp add: LLONG_MIN_def dec_ll_pos)
  next
    assume v: "v < 0 \<and> LLONG_MIN \<le> v \<and> 45 # p = dec_ll v"
    then have "nat (- v) \<le> 2 ^ 63" "0 < nat (- v)" by (auto simp: LLONG_MIN_def nat_le_iff)
    then show "\<exists>n. 0 < n \<and> n < 2 ^ 64 \<and> p = dec n \<and> n \<le> 2 ^ 63 \<and> to_ll ((2 ^ 64 - n) mod 2 ^ 64) = v"
      using v to_ll_neg[of "nat (- v)"] by (intro exI[of _ "nat (- v)"]) (auto simp: dec_ll_def)
  qed
  finally show ?thesis .
next
  case False
  then have "string2ll (45 # p) = None" by (auto simp: string2ll_def)
  then show ?thesis using False dec_first[of "nat (- v)"] by (auto simp: dec_ll_def)
qed

lemma string2ll_iff: "string2ll s = Some v \<longleftrightarrow> s = dec_ll v \<and> LLONG_MIN \<le> v \<and> v \<le> LLONG_MAX"
proof -
  have d0: "dec_ll 0 = [48]" by (simp add: dec_ll_def dec_small digit_char_def)
  consider (bad) "s = [] \<or> length s \<ge> LONG_STR_SIZE" | (zero) "s = [48]" "length s < LONG_STR_SIZE"
    | (neg) p where "s = 45 # p" "length s < LONG_STR_SIZE"
    | (pos) "s \<noteq> []" "length s < LONG_STR_SIZE" "s \<noteq> [48]" "hd s \<noteq> 45"
    by (cases s; cases "length s < LONG_STR_SIZE"; cases "hd s = 45"; cases "s = [48]") auto
  then show ?thesis
  proof cases
    case bad
    then have "string2ll s = None" by (auto simp: string2ll_def)
    moreover have "s \<noteq> dec_ll v" if "LLONG_MIN \<le> v" "v \<le> LLONG_MAX"
      using bad dec_ll_length[OF that] length_dec_pos[of "nat v"] by (auto simp: dec_ll_def)
    ultimately show ?thesis by auto
  next
    case zero
    have "v = 0" if "[48] = dec_ll v"
    proof (rule ccontr)
      assume "v \<noteq> 0"
      then have "0 < nat v" "[48] = dec (nat v)" using that by (auto simp: dec_ll_def split: if_splits)
      then have "49 \<le> (48 :: u8)" using dec_first(2)[of "nat v"] by (metis list.sel(1))
      then show False by simp
    qed
    then show ?thesis using zero d0 by (auto simp: string2ll_def ll_limits)
  next
    case neg
    have "v < 0" if "45 # p = dec_ll v"
    proof (rule ccontr)
      assume "\<not> v < 0"
      then have "dec (nat v) = 45 # p" "v \<noteq> 0" using that d0 by (auto simp: dec_ll_def)
      then have "49 \<le> (45 :: u8)" using dec_first(2)[of "nat v"] \<open>\<not> v < 0\<close> by simp
      then show False by simp
    qed
    moreover have "v < 0 \<Longrightarrow> v \<le> LLONG_MAX" by (simp add: LLONG_MAX_def)
    ultimately show ?thesis using string2ll_neg[of p v] neg by auto
  next
    case pos
    have "0 < v" if "s = dec_ll v"
      using that pos d0 by (cases "v = 0") (auto simp: dec_ll_def split: if_splits)
    moreover have "0 < v \<Longrightarrow> LLONG_MIN \<le> v" by (simp add: LLONG_MIN_def)
    ultimately show ?thesis using string2ll_nonneg[OF pos] by auto
  qed
qed

subsection \<open>Hexadecimal and units\<close>

lemma memtoull_digits: "digits_value 0 ds \<le> ULLONG_MAX \<Longrightarrow> strtoull_digits ds = digits_value 0 ds"
  by (simp add: strtoull_digits_def)

lemma clamp_mul:
  assumes "0 < mul"
  shows "(if min ULLONG_MAX n > ULLONG_MAX div mul then ULLONG_MAX else (min ULLONG_MAX n * mul) mod 2 ^ 64) =
    min ULLONG_MAX (n * mul)"
proof (cases "n \<le> ULLONG_MAX div mul")
  case True
  then have le: "n * mul \<le> ULLONG_MAX" using assms by (metis div_le_mono2 less_eq_div_iff_mult_less_eq)
  then have "n \<le> ULLONG_MAX" using assms by (metis le_trans mult.right_neutral mult_le_mono2 Suc_leI One_nat_def)
  moreover have "(n * mul) mod 2 ^ 64 = n * mul" using le by (intro mod_less) (simp add: ULLONG_MAX_def)
  ultimately show ?thesis using True le by (simp add: min_absorb2)
next
  case False
  then have "ULLONG_MAX < n * mul" using assms by (simp add: less_eq_div_iff_mult_less_eq)
  moreover have "ULLONG_MAX div mul < min ULLONG_MAX n \<or> mul = 1"
    using False assms by (cases "mul = 1") (auto simp: min_def ULLONG_MAX_def intro: div_less_dividend)
  ultimately show ?thesis using False by (auto simp: min_def ULLONG_MAX_def)
qed

text \<open>
  The hexadecimal parser looks at the byte after the given length: on a block that ends there the
  access is outside of it.
\<close>

lemma base16_reads_past_end: "string2ul_base16_async_signal_safe [65] 1 = None"
  by (simp add: string2ul_base16_async_signal_safe_def base16_loop.simps arr_get_def base_16_char_type_def
      safe_is_c_in_range_def ULLONG_MAX_def)

subsection \<open>Properties\<close>

text \<open>
  \<open>string2ll\<close> accepts exactly the canonical decimal representations of the 64-bit signed
  integers, with the value represented; in particular no overflow goes unnoticed, and leading
  zeroes, signs without digits and trailing bytes are rejected.
\<close>

theorem string2ll_correct:
  "string2ll s = Some v \<longleftrightarrow> s = dec_ll v \<and> LLONG_MIN \<le> v \<and> v \<le> LLONG_MAX"
  by (rule string2ll_iff)

text \<open>
  C28: round trips. What \<open>ll2string\<close> prints into a buffer of sufficient size is terminated, has the length
  returned and parses back to the value, without writing outside the buffer; and a string
  accepted by \<open>string2ll\<close> is printed back unchanged.
\<close>

theorem ll2string_roundtrip:
  assumes "LONG_STR_SIZE \<le> dstlen" "dstlen \<le> length buf" "LLONG_MIN \<le> v" "v \<le> LLONG_MAX"
  shows "\<exists>buf' n. ll2string buf dstlen v = Some (buf', n) \<and> length buf' = length buf \<and>
    string2ll (take n buf') = Some v \<and> buf' ! n = 0 \<and> n = sdigits10 v \<and>
    (\<forall>s. string2ll s = Some v \<longrightarrow> take n buf' = s)"
proof -
  let ?s = "dec_ll v"
  have len: "length ?s < dstlen" using dec_ll_length[OF assms(3,4)] assms(1) by simp
  have run: "ll2string buf dstlen v = Some (splice buf 0 (?s @ [0]), length ?s)"
    using ll2string_spec[OF assms(2-4) len] .
  have "take (length ?s) (splice buf 0 (?s @ [0])) = ?s" "splice buf 0 (?s @ [0]) ! length ?s = 0"
    by (simp_all add: splice_def nth_append)
  moreover have "length (splice buf 0 (?s @ [0])) = length buf"
    using len assms(2) by (intro length_splice) simp
  moreover have "length ?s = sdigits10 v"
    by (auto simp: sdigits10_def dec_ll_def digits10_dec ll_limits)
  ultimately show ?thesis using run assms(3,4) by (auto simp: string2ll_iff)
qed

theorem ll2string_roundtrip_witness:
  "\<exists>buf' n. ll2string (replicate 21 7) 21 (-120) = Some (buf', n) \<and> string2ll (take n buf') = Some (-120)"
  using ll2string_roundtrip[of 21 "replicate 21 7" "-120"] by (auto simp: ll_limits LONG_STR_SIZE_def)

text \<open>
  \<open>digits10\<close> is the number of decimal digits, and \<open>ull2string\<close> writes exactly the digits and a
  terminator when they fit, and otherwise only makes the buffer an empty string and returns 0.
\<close>

theorem ull2string_correct:
  assumes "off + dstlen \<le> length buf"
  shows "digits10 v = length (dec v) \<and>
    ull2string buf off dstlen v =
      (if length (dec v) < dstlen then Some (splice buf off (dec v @ [0]), length (dec v))
       else Some (if 0 < dstlen then buf[off := 0] else buf, 0))"
  using ull2string_spec[OF assms] digits10_dec by simp

theorem ull2string_correct_witness:
  "ull2string [9, 9, 9, 9] 0 4 250 = Some ([50, 53, 48, 0], 3)"
  using ull2string_correct[of 0 4 "[9, 9, 9, 9]" 250]
  by (simp add: dec.simps digit_char_def splice_def)

text \<open>
  \<open>memtoull\<close> of a number followed by a unit is the product, clamped to \<open>ULLONG_MAX\<close> and never
  wrapped around.
\<close>

theorem memtoull_correct:
  assumes "\<forall>c\<in>set ds. is_digit c" "length ds < 128" "u = [] \<or> \<not> is_digit (hd u)" "ds @ u = [] \<or> hd (ds @ u) \<noteq> 45"
    "(map to_lower u, mul) \<in> {([], 1), ([98], 1), ([107], 1000), ([107, 98], 1024), ([109], 1000 ^ 2),
       ([109, 98], 1024 ^ 2), ([103], 1000 ^ 3), ([103, 98], 1024 ^ 3)}"
  shows "memtoull (ds @ u) = Inr (min ULLONG_MAX (digits_value 0 ds * mul))"
proof -
  have tw: "takeWhile is_digit (ds @ u) = ds" "dropWhile is_digit (ds @ u) = u"
    using assms(1,3) by (cases u; simp)+
  have pos: "0 < mul" using assms(5) by auto
  have low: "to_lower 98 = 98" "to_lower 107 = 107" "to_lower 109 = 109" "to_lower 103 = 103"
    by (simp_all add: to_lower_def)
  have unit: "(if u = [] \<or> strcaseeq u [98] then Some 1
     else if strcaseeq u [107] then Some 1000 else if strcaseeq u [107, 98] then Some 1024
     else if strcaseeq u [109] then Some (1000 * 1000) else if strcaseeq u [109, 98] then Some (1024 * 1024)
     else if strcaseeq u [103] then Some (1000 * 1000 * 1000)
     else if strcaseeq u [103, 98] then Some (1024 * 1024 * 1024) else None) = Some mul"
    using assms(5) low by (auto simp: strcaseeq_def)
  show ?thesis
    using assms(2,4) clamp_mul[OF pos, of "digits_value 0 ds"]
    unfolding memtoull_def tw Let_def unit strtoull_digits_def by auto
qed

theorem memtoull_correct_witness: "memtoull [49, 54, 75, 98] = Inr (16 * 1024)"
  using memtoull_correct[of "[49, 54]" "[75, 98]" 1024]
  by (simp add: is_digit_def to_lower_def digit_val_def ULLONG_MAX_def)

end
