(* ===== verification/Glob.thy ===== *)
theory Glob
  imports Util_Num
begin

text \<open>
  The glob matcher of \<open>src/util.c\<close> (\<open>stringmatchlen\<close>, \<open>stringmatch\<close>, \<open>prefixmatch\<close>), with its backtracking, the
  early exit through \<open>skipLongerMatches\<close> and the nesting limit. Pattern and string are the bytes
  still to be read; the byte after the pattern, which the code inspects when it looks for a second
  star, is the terminating zero.
\<close>

subsection \<open>One character of the string\<close>

definition STAR :: u8 where "STAR = 42"
definition QUESTION :: u8 where "QUESTION = 63"
definition LBRACKET :: u8 where "LBRACKET = 91"
definition RBRACKET :: u8 where "RBRACKET = 93"
definition CARET :: u8 where "CARET = 94"
definition BACKSLASH :: u8 where "BACKSLASH = 92"
definition DASH :: u8 where "DASH = 45"

lemmas glob_chars = STAR_def QUESTION_def LBRACKET_def RBRACKET_def CARET_def BACKSLASH_def DASH_def

definition char_eq :: "bool \<Rightarrow> u8 \<Rightarrow> u8 \<Rightarrow> bool" where
  "char_eq nocase a b \<longleftrightarrow> (if nocase then to_lower a = to_lower b else a = b)"

text \<open>\<open>char\<close> is signed: ranges compare the signed values.\<close>

definition in_range :: "bool \<Rightarrow> u8 \<Rightarrow> u8 \<Rightarrow> u8 \<Rightarrow> bool" where
  "in_range nocase a b c =
     (let (start, fin) = (if sint a > sint b then (b, a) else (a, b));
          (start, fin, c) = (if nocase then (to_lower start, to_lower fin, to_lower c) else (start, fin, c)) in
      sint c \<ge> sint start \<and> sint c \<le> sint fin)"

text \<open>The loop over a character class: whether it matched, and the pattern after the class.\<close>

function class_loop :: "bool \<Rightarrow> bytes \<Rightarrow> u8 \<Rightarrow> bool \<Rightarrow> bool \<times> bytes" where
  "class_loop nocase p c m =
     (if length p \<ge> 2 \<and> hd p = BACKSLASH then class_loop nocase (drop 2 p) c (m \<or> p ! 1 = c)
      else if p = [] then (m, [])
      else if hd p = RBRACKET then (m, tl p)
      else if length p \<ge> 3 \<and> p ! 1 = DASH then class_loop nocase (drop 3 p) c (m \<or> in_range nocase (hd p) (p ! 2) c)
      else class_loop nocase (tl p) c (m \<or> char_eq nocase (hd p) c))"
  by pat_completeness auto
termination by (relation "measure (\<lambda>(_, p, _, _). length p)") auto

declare class_loop.simps [simp del]

text \<open>
  The cases of the switch other than the star: does the head of the pattern accept the character,
  and what pattern follows.
\<close>

definition glob_one :: "bool \<Rightarrow> bytes \<Rightarrow> u8 \<Rightarrow> bool \<times> bytes" where
  "glob_one nocase p c =
     (if hd p = QUESTION then (True, tl p)
      else if hd p = LBRACKET then
        let p = tl p; neg = (p \<noteq> [] \<and> hd p = CARET); p = (if neg then tl p else p);
            (m, rest) = class_loop nocase p c False in
        (if neg then \<not> m else m, rest)
      else
        let p = (if hd p = BACKSLASH \<and> length p \<ge> 2 then tl p else p) in
        (char_eq nocase (hd p) c, tl p))"

lemma class_loop_length: "length (snd (class_loop nocase p c m)) \<le> length p"
proof (induction nocase p c m rule: class_loop.induct)
  case (1 nocase p c m)
  then show ?case by (subst class_loop.simps) auto
qed

lemma glob_one_length: "p \<noteq> [] \<Longrightarrow> length (snd (glob_one nocase p c)) < length p"
  using class_loop_length[of nocase "tl p" c False] class_loop_length[of nocase "tl (tl p)" c False]
  by (cases p) (auto simp: glob_one_def Let_def split: prod.splits)

subsection \<open>The matcher\<close>

text \<open>
  \<open>while (patternLen && pattern[1] == '*')\<close>: a run of stars becomes one. At the last star of a pattern the code reads
  the byte behind the pattern; the model takes it not to be a star, as the terminator of a string is not. For a slice of
  a longer text whose next byte is a star the code would read on past the slice.
\<close>

fun collapse_stars :: "bytes \<Rightarrow> bytes" where
  "collapse_stars (a # b # p) = (if b = STAR then collapse_stars (b # p) else a # b # p)"
| "collapse_stars p = p"

lemma collapse_stars_length: "length (collapse_stars p) \<le> length p"
  by (induction p rule: collapse_stars.induct) auto

lemma collapse_stars_nonempty: "p \<noteq> [] \<Longrightarrow> collapse_stars p \<noteq> []"
  by (induction p rule: collapse_stars.induct) auto

text \<open>
  \<open>stringmatchlen_impl\<close> (\<open>glob\<close>) and the loop of its star case (\<open>glob_star\<close>). The result is the return value
  and the final \<open>*skipLongerMatches\<close>.
\<close>

function glob :: "bool \<Rightarrow> nat \<Rightarrow> bytes \<Rightarrow> bytes \<Rightarrow> bool \<Rightarrow> bool \<times> bool"
  and glob_star :: "bool \<Rightarrow> nat \<Rightarrow> bytes \<Rightarrow> bytes \<Rightarrow> bool \<Rightarrow> bool \<times> bool" where
  "glob nocase nesting p s skip =
     (if nesting > 1000 then (False, skip)
      else if p = [] \<or> s = [] then (p = [] \<and> s = [], skip)
      else if hd p = STAR then
        let p = collapse_stars p in
        if length p = 1 then (True, skip) else glob_star nocase nesting (tl p) s skip
      else
        let (m, p) = glob_one nocase p (hd s); s = tl s in
        if \<not> m then (False, skip)
        else if s = [] then (dropWhile (\<lambda>c. c = STAR) p = [], skip)
        else glob nocase nesting p s skip)"
| "glob_star nocase nesting p s skip =
     (if s = [] then (False, True)
      else
        let (r, skip) = glob nocase (nesting + 1) p s skip in
        if r then (True, skip)
        else if skip then (False, skip)
        else glob_star nocase nesting p (tl s) skip)"
  by pat_completeness auto
termination
proof (relation "measures [\<lambda>x. case x of Inl (_, _, p, _, _) \<Rightarrow> 2 * length p | Inr (_, _, p, _, _) \<Rightarrow> 2 * length p + 1,
      \<lambda>x. case x of Inl (_, _, _, s, _) \<Rightarrow> length s | Inr (_, _, _, s, _) \<Rightarrow> length s]", goal_cases)
  case (2 nocase nesting p s skip p')
  then show ?case
    using collapse_stars_length[of p] collapse_stars_nonempty[of p] by (cases "collapse_stars p") auto
next
  case (3 nocase nesting p s skip x m p' s')
  then have "length p' < length p" using glob_one_length[of p nocase "hd s"] by (metis de_Morgan_disj snd_conv)
  then show ?case by simp
qed auto

declare glob.simps [simp del] glob_star.simps [simp del]

definition stringmatchlen :: "bytes \<Rightarrow> bytes \<Rightarrow> bool \<Rightarrow> bool" where
  "stringmatchlen p s nocase = fst (glob nocase 0 p s False)"

text \<open>The argument strings of \<open>stringmatch\<close> end at their first zero byte.\<close>

definition stringmatch :: "bytes \<Rightarrow> bytes \<Rightarrow> bool \<Rightarrow> bool" where
  "stringmatch p s nocase =
     stringmatchlen (takeWhile (\<lambda>c. c \<noteq> 0) p) (takeWhile (\<lambda>c. c \<noteq> 0) s) nocase"

definition prefixmatch :: "bytes \<Rightarrow> bytes \<Rightarrow> bool \<Rightarrow> bool" where
  "prefixmatch p s nocase =
     (if \<not> fst (glob nocase 0 p s False) then False
      else if p = [] \<or> last p \<noteq> STAR then False
      else even (length (takeWhile (\<lambda>c. c = BACKSLASH) (rev (butlast p)))))"

subsection \<open>The reference semantics\<close>

text \<open>
  The language of patterns, independent of the matcher. A pattern is a sequence of stars and of tests for one
  character; a class is a set of characters given by single characters, escaped characters and ranges, or the
  complement of such a set.
\<close>

datatype citem = Escaped u8 | Single u8 | Between u8 u8

datatype tok = TStar | TAny | TChar u8 | TClass bool "citem list"

definition fold_case :: "bool \<Rightarrow> u8 \<Rightarrow> u8" where
  "fold_case nocase c = (if nocase then to_lower c else c)"

text \<open>
  The characters of an item. An escaped character of a class stands for itself also when case is ignored. The
  ends of a range may come in either order; characters are ordered as signed bytes.
\<close>

primrec item_chars :: "bool \<Rightarrow> citem \<Rightarrow> u8 set" where
  "item_chars nocase (Escaped a) = {a}"
| "item_chars nocase (Single a) = {c. fold_case nocase c = fold_case nocase a}"
| "item_chars nocase (Between a b) =
     {c. (if sint a \<le> sint b
          then sint (fold_case nocase a) \<le> sint (fold_case nocase c) \<and> sint (fold_case nocase c) \<le> sint (fold_case nocase b)
          else sint (fold_case nocase b) \<le> sint (fold_case nocase c) \<and> sint (fold_case nocase c) \<le> sint (fold_case nocase a))}"

primrec tok_chars :: "bool \<Rightarrow> tok \<Rightarrow> u8 set" where
  "tok_chars nocase TStar = {}"
| "tok_chars nocase TAny = UNIV"
| "tok_chars nocase (TChar a) = {c. fold_case nocase c = fold_case nocase a}"
| "tok_chars nocase (TClass neg items) =
     (if neg then - \<Union> (set (map (item_chars nocase) items)) else \<Union> (set (map (item_chars nocase) items)))"

text \<open>A star stands for any sequence of characters, every other token for one of its characters.\<close>

fun glob_matches :: "bool \<Rightarrow> tok list \<Rightarrow> bytes \<Rightarrow> bool" where
  "glob_matches nocase [] s \<longleftrightarrow> s = []"
| "glob_matches nocase (TStar # ts) s \<longleftrightarrow> (\<exists>k\<le>length s. glob_matches nocase ts (drop k s))"
| "glob_matches nocase (t # ts) s \<longleftrightarrow> s \<noteq> [] \<and> hd s \<in> tok_chars nocase t \<and> glob_matches nocase ts (tl s)"

text \<open>
  The items of a class up to its closing bracket, or up to the end of the pattern if there is none; and the
  tokens of a pattern. A backslash at the very end stands for itself.
\<close>

function class_items :: "bytes \<Rightarrow> citem list \<times> bytes" where
  "class_items [] = ([], [])"
| "class_items (a # p) =
     (if a = RBRACKET then ([], p)
      else if a = BACKSLASH \<and> p \<noteq> [] then apfst (Cons (Escaped (hd p))) (class_items (tl p))
      else if 2 \<le> length p \<and> hd p = DASH then apfst (Cons (Between a (p ! 1))) (class_items (drop 2 p))
      else apfst (Cons (Single a)) (class_items p))"
  by pat_completeness auto
termination by (relation "measure length") auto

lemma class_items_length: "length (snd (class_items p)) \<le> length p"
proof (induction p rule: class_items.induct)
  case (2 a p)
  then show ?case by (auto dest: le_trans[rotated])
qed simp

function toks :: "bytes \<Rightarrow> tok list" where
  "toks [] = []"
| "toks (a # p) =
     (if a = STAR then TStar # toks p
      else if a = QUESTION then TAny # toks p
      else if a = LBRACKET \<and> p \<noteq> [] \<and> hd p = CARET then TClass True (fst (class_items (tl p))) # toks (snd (class_items (tl p)))
      else if a = LBRACKET then TClass False (fst (class_items p)) # toks (snd (class_items p))
      else if a = BACKSLASH \<and> p \<noteq> [] then TChar (hd p) # toks (tl p)
      else TChar a # toks p)"
  by pat_completeness auto
termination
proof (relation "measure length", goal_cases)
  case (4 a p)
  then show ?case using class_items_length[of "tl p"] by (cases p) auto
next
  case (5 a p)
  then show ?case using class_items_length[of p] by simp
qed auto

definition stars :: "tok list \<Rightarrow> nat" where
  "stars ts = length (filter (\<lambda>t. t = TStar) ts)"

lemma stars_simps [simp]: "stars [] = 0" "stars (TStar # ts) = Suc (stars ts)" "t \<noteq> TStar \<Longrightarrow> stars (t # ts) = stars ts"
  by (simp_all add: stars_def)

lemma glob_matches_one:
  "t \<noteq> TStar \<Longrightarrow> glob_matches nocase (t # ts) s \<longleftrightarrow> s \<noteq> [] \<and> hd s \<in> tok_chars nocase t \<and> glob_matches nocase ts (tl s)"
  by (cases t) simp_all

subsection \<open>Correctness of the matcher\<close>

lemma char_eq_fold: "char_eq nocase a c \<longleftrightarrow> fold_case nocase c = fold_case nocase a"
  by (auto simp: char_eq_def fold_case_def)

lemma in_range_item: "in_range nocase a b c \<longleftrightarrow> c \<in> item_chars nocase (Between a b)"
  by (auto simp: in_range_def fold_case_def)

text \<open>The loop over a class tests membership in one of its items.\<close>

lemma class_loop_items:
  "class_loop nocase p c m = (m \<or> c \<in> \<Union> (set (map (item_chars nocase) (fst (class_items p)))), snd (class_items p))"
proof (induction p arbitrary: m rule: class_items.induct)
  case 1
  then show ?case by (simp add: class_loop.simps)
next
  case (2 a p)
  have ne: "RBRACKET \<noteq> BACKSLASH" by (simp add: glob_chars)
  consider (close) "a = RBRACKET" | (esc) "a = BACKSLASH" "p \<noteq> []"
    | (range) "a \<noteq> RBRACKET" "\<not> (a = BACKSLASH \<and> p \<noteq> [])" "2 \<le> length p" "hd p = DASH"
    | (one) "a \<noteq> RBRACKET" "\<not> (a = BACKSLASH \<and> p \<noteq> [])" "\<not> (2 \<le> length p \<and> hd p = DASH)" by blast
  then show ?case
  proof cases
    case close
    then show ?thesis using ne by (simp add: class_loop.simps[of nocase "RBRACKET # p"])
  next
    case esc
    then have "class_loop nocase (a # p) c m = class_loop nocase (tl p) c (m \<or> hd p = c)"
      by (cases p) (simp_all add: class_loop.simps[of nocase "BACKSLASH # x # q" for x q])
    then show ?thesis using 2(1)[of "m \<or> hd p = c"] esc ne by auto
  next
    case range
    then have "class_loop nocase (a # p) c m = class_loop nocase (drop 2 p) c (m \<or> in_range nocase a (p ! 1) c)"
      by (cases p) (auto simp: class_loop.simps[of nocase "a # q" for q])
    then show ?thesis using 2(2)[of "m \<or> in_range nocase a (p ! 1) c"] range in_range_item by auto
  next
    case one
    then have "class_loop nocase (a # p) c m = class_loop nocase p c (m \<or> char_eq nocase a c)"
      by (cases p) (auto simp: class_loop.simps[of nocase "a # q" for q])
    then show ?thesis using 2(3)[of "m \<or> char_eq nocase a c"] one char_eq_fold by auto
  qed
qed

text \<open>One test of the matcher is the first token, and leaves the pattern of the other tokens.\<close>

lemma glob_one_tok:
  assumes "p \<noteq> []" "hd p \<noteq> STAR"
  shows "\<exists>t rest. toks p = t # toks rest \<and> t \<noteq> TStar \<and> (\<forall>c. glob_one nocase p c = (c \<in> tok_chars nocase t, rest))"
proof -
  obtain a q where p: "p = a # q" using assms(1) by (cases p) auto
  then show ?thesis using assms(2)
    by (cases q) (auto simp: glob_one_def Let_def class_loop_items char_eq_fold glob_chars)
qed

lemma toks_simps [simp]: "toks (STAR # p) = TStar # toks p"
  by simp

lemma collapse_stars_eq: "p \<noteq> [] \<Longrightarrow> hd p = STAR \<Longrightarrow> collapse_stars p = STAR # dropWhile (\<lambda>c. c = STAR) p"
  by (induction p rule: collapse_stars.induct) auto

lemma glob_matches_star_star: "glob_matches nocase (TStar # TStar # ts) s = glob_matches nocase (TStar # ts) s"
proof
  assume "glob_matches nocase (TStar # TStar # ts) s"
  then obtain k j where "k \<le> length s" "j \<le> length (drop k s)" "glob_matches nocase ts (drop j (drop k s))" by auto
  then show "glob_matches nocase (TStar # ts) s" by (auto intro!: exI[of _ "j + k"])
next
  assume "glob_matches nocase (TStar # ts) s"
  then have "0 \<le> length s \<and> glob_matches nocase (TStar # ts) (drop 0 s)" by simp
  then show "glob_matches nocase (TStar # TStar # ts) s" by (metis glob_matches.simps(2))
qed

lemma toks_run_of_stars:
  "p \<noteq> [] \<Longrightarrow> hd p = STAR \<Longrightarrow>
   glob_matches nocase (toks p) s = glob_matches nocase (TStar # toks (dropWhile (\<lambda>c. c = STAR) p)) s"
proof (induction p)
  case (Cons a p)
  show ?case
  proof (cases "p \<noteq> [] \<and> hd p = STAR")
    case True
    have "glob_matches nocase (toks (a # p)) s \<longleftrightarrow> (\<exists>k\<le>length s. glob_matches nocase (toks p) (drop k s))"
      using Cons.prems by simp
    then obtain q where q: "p = STAR # q" using True by (cases p) auto
    have "glob_matches nocase (toks (a # p)) s = glob_matches nocase (TStar # TStar # toks q) s"
      using Cons.prems q by simp
    also have "\<dots> = glob_matches nocase (toks p) s" by (simp only: glob_matches_star_star q toks_simps)
    finally show ?thesis using Cons True q by simp
  next
    case False
    then show ?thesis using Cons.prems by (cases p) auto
  qed
qed simp

lemma stars_run: "p \<noteq> [] \<Longrightarrow> hd p = STAR \<Longrightarrow>
    Suc (stars (toks (dropWhile (\<lambda>c. c = STAR) p))) \<le> stars (toks p)"
proof (induction p)
  case (Cons a p)
  then show ?case by (cases p) (auto split: if_splits)
qed simp

lemma glob_matches_empty: "glob_matches nocase (toks p) [] \<longleftrightarrow> dropWhile (\<lambda>c. c = STAR) p = []"
proof (induction p)
  case (Cons a p)
  then show ?case by (cases "a = STAR") (auto dest: glob_one_tok[of "a # p" nocase, simplified] simp: glob_matches_one)
qed simp

lemma no_suffix_cons:
  assumes "\<forall>k. \<not> glob_matches nocase ts (drop k (tl s))" "t \<noteq> TStar"
  shows "\<not> glob_matches nocase (t # ts) (drop k s)"
  using assms by (auto simp: glob_matches_one tl_drop drop_Suc)

lemma glob_correct_aux:
  "s \<noteq> [] \<Longrightarrow> \<not> skip \<Longrightarrow> nesting + stars (toks p) \<le> 1000 \<Longrightarrow>
    fst (glob nocase nesting p s skip) = glob_matches nocase (toks p) s \<and>
    (snd (glob nocase nesting p s skip) \<and> \<not> fst (glob nocase nesting p s skip) \<longrightarrow>
      (\<forall>k. \<not> glob_matches nocase (toks p) (drop k s)))"
  "p \<noteq> [] \<Longrightarrow> hd p \<noteq> STAR \<Longrightarrow> \<not> skip \<Longrightarrow> nesting + 1 + stars (toks p) \<le> 1000 \<Longrightarrow>
    fst (glob_star nocase nesting p s skip) = (\<exists>k\<le>length s. glob_matches nocase (toks p) (drop k s))"
proof (induction nocase nesting p s skip and nocase nesting p s skip rule: glob_glob_star.induct)
  case (1 nocase nesting p s skip)
  consider (nil) "p = []" | (star) "p \<noteq> []" "hd p = STAR" | (one) "p \<noteq> []" "hd p \<noteq> STAR" by blast
  then show ?case
  proof cases
    case nil
    then show ?thesis using "1.prems" by (simp add: glob.simps)
  next
    case star
    let ?q = "dropWhile (\<lambda>c. c = STAR) p"
    note m = toks_run_of_stars[OF star]
    show ?thesis
    proof (cases "?q = []")
      case True
      then have "glob nocase nesting p s skip = (True, skip)"
        using "1.prems" star by (simp add: glob.simps[of nocase nesting p] collapse_stars_eq[OF star])
      moreover have "glob_matches nocase (toks p) s" using m[of nocase s] True by (auto intro: exI[of _ "length s"])
      ultimately show ?thesis by simp
    next
      case False
      have q: "hd ?q \<noteq> STAR" using hd_dropWhile[OF False] by simp
      have run: "glob nocase nesting p s skip = glob_star nocase nesting ?q s skip"
        using "1.prems" star False by (auto simp: glob.simps[of nocase nesting p] collapse_stars_eq[OF star] Let_def)
      have res: "fst (glob_star nocase nesting ?q s skip) = (\<exists>k\<le>length s. glob_matches nocase (toks ?q) (drop k s))"
      proof -
        have g: "\<not> 1000 < nesting" "\<not> (p = [] \<or> s = [])" "nesting + 1 + stars (toks ?q) \<le> 1000"
          using "1.prems" star stars_run[OF star] by auto
        show ?thesis
          using "1.IH"(1)[OF g(1,2) star(2) refl] "1.prems"(2) False q g(3) unfolding collapse_stars_eq[OF star] by simp
      qed
      have "\<not> glob_matches nocase (toks p) (drop j s)" if "\<not> fst (glob_star nocase nesting ?q s skip)" for j
      proof
        assume "glob_matches nocase (toks p) (drop j s)"
        then obtain k where "glob_matches nocase (toks ?q) (drop (k + j) s)" using m by auto
        then have "\<exists>k\<le>length s. glob_matches nocase (toks ?q) (drop k s)"
          by (cases "k + j \<le> length s") (auto intro: exI[of _ "length s"])
        then show False using that res by simp
      qed
      then show ?thesis using run res m by auto
    qed
  next
    case one
    obtain t rest where t: "toks p = t # toks rest" "t \<noteq> TStar" "\<forall>c. glob_one nocase p c = (c \<in> tok_chars nocase t, rest)"
      using glob_one_tok[OF one] by blast
    define mt where "mt = (hd s \<in> tok_chars nocase t)"
    have g: "glob_one nocase p (hd s) = (mt, rest)" using t(3) by (simp add: mt_def)
    have run: "glob nocase nesting p s skip =
        (if \<not> mt then (False, skip) else if tl s = [] then (dropWhile (\<lambda>c. c = STAR) rest = [], skip)
         else glob nocase nesting rest (tl s) skip)"
      using "1.prems" one g by (simp add: glob.simps[of nocase nesting p])
    show ?thesis
    proof (cases "mt \<and> tl s \<noteq> []")
      case False
      then show ?thesis using run t(1,2) "1.prems" glob_matches_empty[of nocase rest] by (auto simp: mt_def glob_matches_one)
    next
      case True
      have IH: "fst (glob nocase nesting rest (tl s) skip) = glob_matches nocase (toks rest) (tl s) \<and>
          (snd (glob nocase nesting rest (tl s) skip) \<and> \<not> fst (glob nocase nesting rest (tl s) skip) \<longrightarrow>
            (\<forall>k. \<not> glob_matches nocase (toks rest) (drop k (tl s))))"
        using "1.IH"(2)[OF _ _ one(2) g[symmetric] refl] "1.prems" one True t(1,2) by simp
      show ?thesis
        using IH run True "1.prems" no_suffix_cons[of nocase "toks rest" s t] t(2) unfolding t(1) by (auto simp: mt_def glob_matches_one)
    qed
  qed
next
  case (2 nocase nesting p s skip)
  show ?case
  proof (cases "s = []")
    case True
    have "\<not> glob_matches nocase (toks p) []" using glob_one_tok[of p nocase] "2.prems" by (auto simp: glob_matches_one)
    then show ?thesis using True by (simp add: glob_star.simps)
  next
    case False
    obtain r sk where g: "glob nocase (nesting + 1) p s skip = (r, sk)" by fastforce
    have r: "r = glob_matches nocase (toks p) s" "sk \<and> \<not> r \<longrightarrow> (\<forall>k. \<not> glob_matches nocase (toks p) (drop k s))"
      using "2.IH"(1)[OF False] "2.prems" g False by auto
    have Suc_length_tl: "length s = Suc (length (tl s))" using False by (cases s) auto
    have split: "(\<exists>k\<le>length s. glob_matches nocase (toks p) (drop k s)) \<longleftrightarrow>
        r \<or> (\<exists>k\<le>length (tl s). glob_matches nocase (toks p) (drop k (tl s)))"
    proof -
      have "(\<exists>k\<le>length s. glob_matches nocase (toks p) (drop k s)) \<longleftrightarrow>
          (\<exists>k. k = 0 \<and> r \<or> (\<exists>j. k = Suc j \<and> j \<le> length (tl s) \<and> glob_matches nocase (toks p) (drop j (tl s))))"
        using r(1) Suc_length_tl
        by (intro ex_cong1; rename_tac k; case_tac k) (auto simp: drop_Suc simp del: length_tl)
      then show ?thesis by blast
    qed
    consider "r" | "\<not> r" "sk" | "\<not> r" "\<not> sk" by blast
    then show ?thesis
    proof cases
      case 1
      then show ?thesis using g False split by (simp add: glob_star.simps[of nocase nesting p s])
    next
      case 2
      then show ?thesis using g False r(2) by (simp add: glob_star.simps[of nocase nesting p s])
    next
      case 3
      have "glob_star nocase nesting p s skip = glob_star nocase nesting p (tl s) sk"
        using 3 g False by (simp add: glob_star.simps[of nocase nesting p s])
      moreover have "fst (glob_star nocase nesting p (tl s) sk) =
          (\<exists>k\<le>length (tl s). glob_matches nocase (toks p) (drop k (tl s)))"
        using "2.IH"(2)[OF False g[symmetric] refl] 3 "2.prems" by simp
      ultimately show ?thesis using split 3 by simp
    qed
  qed
qed

subsection \<open>Properties\<close>

text \<open>
  C10: for a pattern with at most 1000 stars, \<open>stringmatchlen\<close> decides the language of the pattern on every non-empty
  string: cutting the search through \<open>skipLongerMatches\<close> loses no match, and escapes, classes with
  negation and ranges, and the folding of case accept exactly the characters of the reference semantics. On the
  empty string it accepts the empty pattern only, also where the language contains the empty string.
  The byte after the pattern is not a star.
\<close>

theorem stringmatchlen_correct:
  assumes "stars (toks p) \<le> 1000"
  shows "stringmatchlen p s nocase \<longleftrightarrow> (if s = [] then p = [] else glob_matches nocase (toks p) s)"
proof (cases "s = []")
  case True
  then show ?thesis by (simp add: stringmatchlen_def glob.simps)
next
  case False
  then show ?thesis using glob_correct_aux(1)[of s False 0 p nocase] assms by (simp add: stringmatchlen_def)
qed

text \<open>The pattern \<open>[^a-c]*\<close> on \<open>xb\<close>, and the star on the empty string.\<close>

theorem stringmatchlen_correct_witness:
  "stringmatchlen [91, 94, 97, 45, 99, 93, 42] [120, 98] False \<and> \<not> stringmatchlen [42] [] False \<and>
   glob_matches False (toks [42]) []"
proof -
  have t: "toks [91, 94, 97, 45, 99, 93, 42] = [TClass True [Between 97 99], TStar]" "toks [42] = [TStar]"
    by (simp_all add: glob_chars)
  have "glob_matches False [TStar] [98]" "glob_matches False [TStar] []" by (auto intro: exI[of _ 1])
  then have "glob_matches False [TClass True [Between 97 99], TStar] [120, 98]" "glob_matches False [TStar] []"
    by (simp_all add: glob_matches_one fold_case_def)
  then show ?thesis
    using stringmatchlen_correct[of "[91, 94, 97, 45, 99, 93, 42]" "[120, 98]" False] stringmatchlen_correct[of "[42]" "[]" False]
    unfolding t by (simp del: glob_matches.simps)
qed

end
