(* ===== verification/Dict.thy ===== *)
theory Dict
  imports Redis_Interfaces "HOL-Library.Multiset"
begin

text \<open>
  \<open>src/dict.c\<close>, \<open>src/dict.h\<close>: the hash table behind every Redis keyspace, with chaining and
  incremental rehashing between two tables. A bucket is the list of its entries, head first; a link
  (\<open>dictEntryLink\<close>) is a table number, a bucket index and a position in the chain. A failed
  assertion and an access outside a table are \<^term>\<open>None\<close>.

  Parameters of the model: the callbacks of \<open>dictType\<close> that influence the table (\<open>hashFunction\<close>,
  \<open>resizeAllowed\<close>) and the global \<open>dict_can_resize\<close>. \<open>keyCompare\<close> is equality of keys, \<open>keyDup\<close> and
  \<open>valDup\<close> return an equal object, and the notification callbacks do not touch the table. The packing of
  a value-less entry into its pointer (\<open>encodeEntryKey\<close>) is not represented: an entry is a key and
  an optional value in both cases.
\<close>

subsection \<open>Data\<close>

datatype dictResizeEnable = DICT_RESIZE_ENABLE | DICT_RESIZE_AVOID | DICT_RESIZE_FORBID

text \<open>
  \<open>resizeAllowed\<close> receives the size of the new table and the fill ratio, here as used entries and
  buckets.
\<close>

record 'k dictType =
  hashFunction :: "'k \<Rightarrow> u64"
  resizeAllowed :: "(nat \<Rightarrow> nat \<Rightarrow> nat \<Rightarrow> bool) option"
  no_value :: bool
  force_full_rehash :: bool

text \<open>An entry: the key, and the value once it is set.\<close>

type_synonym ('k, 'v) entry = "'k \<times> 'v option"

record ('k, 'v) dictht =
  ht_table :: "('k, 'v) entry list list"
  ht_used :: nat
  ht_size_exp :: int

record ('k, 'v) dict =
  d_type :: "'k dictType"
  ht0 :: "('k, 'v) dictht"
  ht1 :: "('k, 'v) dictht"
  rehashidx :: int
  pauserehash :: nat
  pauseAutoResize :: int

type_synonym link = "nat \<times> nat \<times> nat"

definition DICTHT_SIZE :: "int \<Rightarrow> nat" where
  "DICTHT_SIZE e = (if e = -1 then 0 else 2 ^ nat e)"

definition DICTHT_SIZE_MASK :: "int \<Rightarrow> u64" where
  "DICTHT_SIZE_MASK e = (if e = -1 then 0 else of_nat (DICTHT_SIZE e) - 1)"

definition DICT_HT_INITIAL_EXP :: int where "DICT_HT_INITIAL_EXP = 2"
definition DICT_HT_INITIAL_SIZE :: nat where "DICT_HT_INITIAL_SIZE = 4"
definition HASHTABLE_MIN_FILL :: nat where "HASHTABLE_MIN_FILL = 8"
definition dict_force_resize_ratio :: nat where "dict_force_resize_ratio = 4"

lemmas dict_consts = DICT_HT_INITIAL_EXP_def DICT_HT_INITIAL_SIZE_def HASHTABLE_MIN_FILL_def
  dict_force_resize_ratio_def

definition dictIsRehashing :: "('k, 'v) dict \<Rightarrow> bool" where
  "dictIsRehashing d \<longleftrightarrow> rehashidx d \<noteq> -1"

definition dictSize :: "('k, 'v) dict \<Rightarrow> nat" where
  "dictSize d = ht_used (ht0 d) + ht_used (ht1 d)"

definition dictBuckets :: "('k, 'v) dict \<Rightarrow> nat" where
  "dictBuckets d = DICTHT_SIZE (ht_size_exp (ht0 d)) + DICTHT_SIZE (ht_size_exp (ht1 d))"

definition ht_get :: "('k, 'v) dict \<Rightarrow> nat \<Rightarrow> ('k, 'v) dictht" where
  "ht_get d t = (if t = 0 then ht0 d else ht1 d)"

definition ht_put :: "nat \<Rightarrow> ('k, 'v) dictht \<Rightarrow> ('k, 'v) dict \<Rightarrow> ('k, 'v) dict" where
  "ht_put t h d = (if t = 0 then d\<lparr>ht0 := h\<rparr> else d\<lparr>ht1 := h\<rparr>)"

subsection \<open>Creation and resizing\<close>

text \<open>\<open>_dictReset\<close>: the state of an unused table.\<close>

definition dictReset :: "('k, 'v) dictht" where
  "dictReset = \<lparr>ht_table = [], ht_used = 0, ht_size_exp = -1\<rparr>"

text \<open>\<open>dictCreate\<close> with \<open>_dictInit\<close>.\<close>

definition dictCreate :: "'k dictType \<Rightarrow> ('k, 'v) dict" where
  "dictCreate type = \<lparr>d_type = type, ht0 = dictReset, ht1 = dictReset, rehashidx = -1,
     pauserehash = 0, pauseAutoResize = 0\<rparr>"

text \<open>\<open>8*sizeof(long) - __builtin_clzl(x)\<close>: the number of significant bits of \<open>x\<close>.\<close>

fun bit_length :: "nat \<Rightarrow> nat" where
  "bit_length x = (if x = 0 then 0 else Suc (bit_length (x div 2)))"

declare bit_length.simps [simp del]

text \<open>\<open>_dictNextExp\<close>; \<open>size\<close> is an unsigned long.\<close>

definition dictNextExp :: "nat \<Rightarrow> int" where
  "dictNextExp sz =
     (if sz \<le> DICT_HT_INITIAL_SIZE then DICT_HT_INITIAL_EXP
      else if sz \<ge> 2 ^ 63 - 1 then 63
      else int (bit_length (sz - 1)))"

text \<open>The bucket of a key in a table of exponent \<open>e\<close>.\<close>

definition dict_idx :: "('k, 'v) dict \<Rightarrow> 'k \<Rightarrow> int \<Rightarrow> nat" where
  "dict_idx d k e = unat (hashFunction (d_type d) k AND DICTHT_SIZE_MASK e)"

text \<open>
  \<open>rehashEntriesInBucketAtIndex\<close>: every entry of the chain goes to the head of its bucket in the
  second table; when shrinking, the new index is the old one masked.
\<close>

primrec rehash_chain :: "('k, 'v) entry list \<Rightarrow> nat \<Rightarrow> ('k, 'v) dict \<Rightarrow> ('k, 'v) dict option" where
  "rehash_chain [] idx d = Some d"
| "rehash_chain (de # nextde) idx d =
     (let h = (if ht_size_exp (ht1 d) > ht_size_exp (ht0 d) then dict_idx d (fst de) (ht_size_exp (ht1 d))
               else unat (of_nat idx AND DICTHT_SIZE_MASK (ht_size_exp (ht1 d)))) in
      do { chain \<leftarrow> arr_get (ht_table (ht1 d)) (int h);
           table \<leftarrow> arr_set (ht_table (ht1 d)) (int h) (de # chain);
           rehash_chain nextde idx
             (d\<lparr>ht0 := (ht0 d)\<lparr>ht_used := ht_used (ht0 d) - 1\<rparr>,
                ht1 := (ht1 d)\<lparr>ht_table := table, ht_used := ht_used (ht1 d) + 1\<rparr>\<rparr>) })"

definition rehashEntriesInBucketAtIndex :: "('k, 'v) dict \<Rightarrow> nat \<Rightarrow> ('k, 'v) dict option" where
  "rehashEntriesInBucketAtIndex d idx =
     do { chain \<leftarrow> arr_get (ht_table (ht0 d)) (int idx);
          d \<leftarrow> rehash_chain chain idx d;
          table \<leftarrow> arr_set (ht_table (ht0 d)) (int idx) [];
          Some (d\<lparr>ht0 := (ht0 d)\<lparr>ht_table := table\<rparr>\<rparr>) }"

definition dictCheckRehashingCompleted :: "('k, 'v) dict \<Rightarrow> ('k, 'v) dict \<times> bool" where
  "dictCheckRehashingCompleted d =
     (if ht_used (ht0 d) \<noteq> 0 then (d, False)
      else (d\<lparr>ht0 := ht1 d, ht1 := dictReset, rehashidx := -1\<rparr>, True))"

text \<open>
  The inner loop of \<open>dictRehash\<close> over empty buckets: either the visit budget is spent at the new
  \<open>rehashidx\<close> (the function returns 1), or a non-empty bucket is reached with the remaining budget.
\<close>

function dictRehash_skip :: "'e list list \<Rightarrow> int \<Rightarrow> int \<Rightarrow> (int + int \<times> int) option" where
  "dictRehash_skip table ri empty_visits =
     (case arr_get table ri of
        None \<Rightarrow> None
      | Some [] \<Rightarrow>
          if empty_visits - 1 = 0 then Some (Inl (ri + 1))
          else dictRehash_skip table (ri + 1) (empty_visits - 1)
      | Some (_ # _) \<Rightarrow> Some (Inr (ri, empty_visits)))"
  by pat_completeness auto
termination
  by (relation "measure (\<lambda>(table, ri, ev). nat (int (length table) - ri))")
     (auto simp: arr_get_def split: if_splits)

declare dictRehash_skip.simps [simp del]

text \<open>The outer loop; the flag tells an early \<open>return 1\<close>.\<close>

primrec dictRehash_loop :: "nat \<Rightarrow> ('k, 'v) dict \<Rightarrow> int \<Rightarrow> (('k, 'v) dict \<times> bool) option" where
  "dictRehash_loop 0 d empty_visits = Some (d, False)"
| "dictRehash_loop (Suc n) d empty_visits =
     (if ht_used (ht0 d) = 0 then Some (d, False)
      else if \<not> int (DICTHT_SIZE (ht_size_exp (ht0 d))) > rehashidx d then None
      else do {
        r \<leftarrow> dictRehash_skip (ht_table (ht0 d)) (rehashidx d) empty_visits;
        case r of
          Inl ri \<Rightarrow> Some (d\<lparr>rehashidx := ri\<rparr>, True)
        | Inr (ri, ev) \<Rightarrow> do {
            d \<leftarrow> rehashEntriesInBucketAtIndex (d\<lparr>rehashidx := ri\<rparr>) (nat ri);
            dictRehash_loop n (d\<lparr>rehashidx := rehashidx d + 1\<rparr>) ev
          }
      })"

text \<open>The guard shared by \<open>dictRehash\<close> and \<open>_dictBucketRehash\<close>.\<close>

definition dictRehash_blocked :: "dictResizeEnable \<Rightarrow> ('k, 'v) dict \<Rightarrow> bool" where
  "dictRehash_blocked can_resize d \<longleftrightarrow>
     (let s0 = DICTHT_SIZE (ht_size_exp (ht0 d)); s1 = DICTHT_SIZE (ht_size_exp (ht1 d)) in
      (can_resize = DICT_RESIZE_FORBID \<or> \<not> dictIsRehashing d) \<or>
      (can_resize = DICT_RESIZE_AVOID \<and>
        ((s1 > s0 \<and> s1 < dict_force_resize_ratio * s0) \<or>
         (s1 < s0 \<and> s0 < HASHTABLE_MIN_FILL * dict_force_resize_ratio * s1))))"

text \<open>The result flag is the C return value: more keys to move.\<close>

definition dictRehash :: "dictResizeEnable \<Rightarrow> ('k, 'v) dict \<Rightarrow> nat \<Rightarrow> (('k, 'v) dict \<times> bool) option" where
  "dictRehash can_resize d n =
     (let empty_visits = int n * 10 in
      if dictRehash_blocked can_resize d then Some (d, False)
      else do {
        (d, early) \<leftarrow> dictRehash_loop n d empty_visits;
        if early then Some (d, True)
        else let (d, done) = dictCheckRehashingCompleted d in Some (d, \<not> done)
      })"

text \<open>\<open>while (dictRehash(d, 1000)) {}\<close>, with fuel; \<open>dict_full_rehash_ok\<close> below shows that it suffices.\<close>

primrec dictRehash_all :: "nat \<Rightarrow> dictResizeEnable \<Rightarrow> ('k, 'v) dict \<Rightarrow> ('k, 'v) dict option" where
  "dictRehash_all 0 can_resize d = None"
| "dictRehash_all (Suc fuel) can_resize d =
     do { (d, more) \<leftarrow> dictRehash can_resize d 1000;
          if more then dictRehash_all fuel can_resize d else Some d }"

text \<open>
  \<open>_dictResize\<close>; the boolean is \<open>DICT_OK\<close>. Allocation does not fail in the model, so \<open>malloc_failed\<close>
  stays 0.
\<close>

definition dictResize :: "dictResizeEnable \<Rightarrow> ('k, 'v) dict \<Rightarrow> nat \<Rightarrow> (('k, 'v) dict \<times> bool) option" where
  "dictResize can_resize d sz =
     (if dictIsRehashing d then None
      else
        let new_ht_size_exp = dictNextExp sz;
            newsize = DICTHT_SIZE new_ht_size_exp in
        if newsize < sz \<or> (newsize * 8) mod 2 ^ 64 < newsize then Some (d, False)
        else if new_ht_size_exp = ht_size_exp (ht0 d) then Some (d, False)
        else
          let new_ht = \<lparr>ht_table = replicate newsize [], ht_used = 0, ht_size_exp = new_ht_size_exp\<rparr>;
              d = d\<lparr>ht1 := new_ht, rehashidx := 0\<rparr> in
          if ht_table (ht0 d) = [] \<or> ht_used (ht0 d) = 0
          then Some (d\<lparr>ht0 := new_ht, ht1 := dictReset, rehashidx := -1\<rparr>, True)
          else if force_full_rehash (d_type d)
          then do { d \<leftarrow> dictRehash_all (Suc (DICTHT_SIZE (ht_size_exp (ht0 d)))) can_resize d;
                    Some (d, True) }
          else Some (d, True))"

text \<open>\<open>_dictExpand\<close> and \<open>dictExpand\<close>.\<close>

definition dictExpand :: "dictResizeEnable \<Rightarrow> ('k, 'v) dict \<Rightarrow> nat \<Rightarrow> (('k, 'v) dict \<times> bool) option" where
  "dictExpand can_resize d sz =
     (if dictIsRehashing d \<or> ht_used (ht0 d) > sz \<or> DICTHT_SIZE (ht_size_exp (ht0 d)) \<ge> sz
      then Some (d, False) else dictResize can_resize d sz)"

definition dictShrink :: "dictResizeEnable \<Rightarrow> ('k, 'v) dict \<Rightarrow> nat \<Rightarrow> (('k, 'v) dict \<times> bool) option" where
  "dictShrink can_resize d sz =
     (if dictIsRehashing d \<or> ht_used (ht0 d) > sz \<or> DICTHT_SIZE (ht_size_exp (ht0 d)) \<le> sz
      then Some (d, False) else dictResize can_resize d sz)"

definition dictTypeResizeAllowed :: "('k, 'v) dict \<Rightarrow> nat \<Rightarrow> bool" where
  "dictTypeResizeAllowed d sz =
     (case resizeAllowed (d_type d) of
        None \<Rightarrow> True
      | Some f \<Rightarrow> f (DICTHT_SIZE (dictNextExp sz) * 8) (ht_used (ht0 d)) (DICTHT_SIZE (ht_size_exp (ht0 d))))"

definition dictExpandIfNeeded :: "dictResizeEnable \<Rightarrow> ('k, 'v) dict \<Rightarrow> (('k, 'v) dict \<times> bool) option" where
  "dictExpandIfNeeded can_resize d =
     (if dictIsRehashing d then Some (d, True)
      else if DICTHT_SIZE (ht_size_exp (ht0 d)) = 0
      then do { (d, _) \<leftarrow> dictExpand can_resize d DICT_HT_INITIAL_SIZE; Some (d, True) }
      else if (can_resize = DICT_RESIZE_ENABLE \<and> ht_used (ht0 d) \<ge> DICTHT_SIZE (ht_size_exp (ht0 d))) \<or>
              (can_resize \<noteq> DICT_RESIZE_FORBID \<and>
               ht_used (ht0 d) \<ge> dict_force_resize_ratio * DICTHT_SIZE (ht_size_exp (ht0 d)))
      then (if dictTypeResizeAllowed d (ht_used (ht0 d) + 1)
            then do { (d, _) \<leftarrow> dictExpand can_resize d (ht_used (ht0 d) + 1); Some (d, True) }
            else Some (d, True))
      else Some (d, False))"

text \<open>\<open>_dictExpandIfNeeded\<close>.\<close>

definition dictAutoExpandIfNeeded :: "dictResizeEnable \<Rightarrow> ('k, 'v) dict \<Rightarrow> (('k, 'v) dict \<times> bool) option" where
  "dictAutoExpandIfNeeded can_resize d =
     (if pauseAutoResize d > 0 then Some (d, False) else dictExpandIfNeeded can_resize d)"

definition dictShrinkIfNeeded :: "dictResizeEnable \<Rightarrow> ('k, 'v) dict \<Rightarrow> (('k, 'v) dict \<times> bool) option" where
  "dictShrinkIfNeeded can_resize d =
     (if dictIsRehashing d then Some (d, True)
      else if DICTHT_SIZE (ht_size_exp (ht0 d)) \<le> DICT_HT_INITIAL_SIZE then Some (d, True)
      else if (can_resize = DICT_RESIZE_ENABLE \<and>
               ht_used (ht0 d) * HASHTABLE_MIN_FILL \<le> DICTHT_SIZE (ht_size_exp (ht0 d))) \<or>
              (can_resize \<noteq> DICT_RESIZE_FORBID \<and>
               ht_used (ht0 d) * HASHTABLE_MIN_FILL * dict_force_resize_ratio
                 \<le> DICTHT_SIZE (ht_size_exp (ht0 d)))
      then (if dictTypeResizeAllowed d (ht_used (ht0 d))
            then do { (d, _) \<leftarrow> dictShrink can_resize d (ht_used (ht0 d)); Some (d, True) }
            else Some (d, True))
      else Some (d, False))"

text \<open>\<open>_dictShrinkIfNeeded\<close>.\<close>

definition dictAutoShrinkIfNeeded :: "dictResizeEnable \<Rightarrow> ('k, 'v) dict \<Rightarrow> ('k, 'v) dict option" where
  "dictAutoShrinkIfNeeded can_resize d =
     (if pauseAutoResize d > 0 then Some d else map_option fst (dictShrinkIfNeeded can_resize d))"

text \<open>\<open>_dictRehashStep\<close>.\<close>

definition dictRehashStep :: "dictResizeEnable \<Rightarrow> ('k, 'v) dict \<Rightarrow> ('k, 'v) dict option" where
  "dictRehashStep can_resize d =
     (if pauserehash d = 0 then map_option fst (dictRehash can_resize d 1) else Some d)"

text \<open>\<open>_dictBucketRehash\<close>.\<close>

definition dictBucketRehash :: "dictResizeEnable \<Rightarrow> ('k, 'v) dict \<Rightarrow> nat \<Rightarrow> (('k, 'v) dict \<times> bool) option" where
  "dictBucketRehash can_resize d idx =
     (if pauserehash d \<noteq> 0 then Some (d, False)
      else if dictRehash_blocked can_resize d then Some (d, False)
      else do {
        d \<leftarrow> rehashEntriesInBucketAtIndex d idx;
        Some (fst (dictCheckRehashingCompleted d), True)
      })"

text \<open>\<open>_dictRehashStepIfNeeded\<close>.\<close>

definition dictRehashStepIfNeeded :: "dictResizeEnable \<Rightarrow> ('k, 'v) dict \<Rightarrow> nat \<Rightarrow> ('k, 'v) dict option" where
  "dictRehashStepIfNeeded can_resize d visitedIdx =
     (if \<not> dictIsRehashing d \<or> pauserehash d \<noteq> 0 then Some d
      else if int visitedIdx \<ge> rehashidx d then do {
        chain \<leftarrow> arr_get (ht_table (ht0 d)) (int visitedIdx);
        if chain \<noteq> [] then map_option fst (dictBucketRehash can_resize d visitedIdx)
        else map_option fst (dictRehash can_resize d 1)
      }
      else map_option fst (dictRehash can_resize d 1))"

subsection \<open>Lookup, insertion and deletion\<close>

text \<open>The walk along a chain: position of the first entry with the key.\<close>

primrec chain_find :: "'k \<Rightarrow> ('k, 'v) entry list \<Rightarrow> nat option" where
  "chain_find k [] = None"
| "chain_find k (de # chain) = (if fst de = k then Some 0 else map_option Suc (chain_find k chain))"

text \<open>
  The loop over the two tables shared by the lookups: table 0 is skipped when the bucket \<open>idx0\<close> the key had at
  entry lies below \<open>rehashidx\<close>, table 1 is visited only while rehashing.
\<close>

definition table_search :: "('k, 'v) dict \<Rightarrow> 'k \<Rightarrow> nat \<Rightarrow> link option option" where
  "table_search d k t =
     (let idx = dict_idx d k (ht_size_exp (ht_get d t)) in
      do { chain \<leftarrow> arr_get (ht_table (ht_get d t)) (int idx);
           Some (map_option (\<lambda>p. (t, idx, p)) (chain_find k chain)) })"

definition tables_search :: "('k, 'v) dict \<Rightarrow> 'k \<Rightarrow> nat \<Rightarrow> link option option" where
  "tables_search d k idx0 =
     do { r \<leftarrow> (if int idx0 < rehashidx d then Some None else table_search d k 0);
          case r of
            Some l \<Rightarrow> Some (Some l)
          | None \<Rightarrow> if dictIsRehashing d then table_search d k 1 else Some None }"

definition link_entry :: "('k, 'v) dict \<Rightarrow> link \<Rightarrow> ('k, 'v) entry option" where
  "link_entry d l = (case l of (t, i, p) \<Rightarrow>
     do { chain \<leftarrow> arr_get (ht_table (ht_get d t)) (int i); arr_get chain (int p) })"

text \<open>\<open>dictFindLink\<close> with \<open>dictFindLinkInternal\<close>, without a bucket argument.\<close>

definition dictFindLink :: "dictResizeEnable \<Rightarrow> ('k, 'v) dict \<Rightarrow> 'k \<Rightarrow> (('k, 'v) dict \<times> link option) option" where
  "dictFindLink can_resize d key =
     (if dictSize d = 0 then Some (d, None)
      else do {
        let idx = dict_idx d key (ht_size_exp (ht0 d));
        d \<leftarrow> dictRehashStepIfNeeded can_resize d idx;
        l \<leftarrow> tables_search d key idx;
        Some (d, l)
      })"

definition dictFind :: "dictResizeEnable \<Rightarrow> ('k, 'v) dict \<Rightarrow> 'k \<Rightarrow> (('k, 'v) dict \<times> ('k, 'v) entry option) option" where
  "dictFind can_resize d key =
     do { (d, l) \<leftarrow> dictFindLink can_resize d key;
          case l of
            None \<Rightarrow> Some (d, None)
          | Some l \<Rightarrow> do { e \<leftarrow> link_entry d l; Some (d, Some e) } }"

text \<open>The value of an entry whose value was never set is indeterminate; it is \<^term>\<open>None\<close> here.\<close>

definition dictFetchValue :: "dictResizeEnable \<Rightarrow> ('k, 'v) dict \<Rightarrow> 'k \<Rightarrow> (('k, 'v) dict \<times> 'v option) option" where
  "dictFetchValue can_resize d key =
     do { (d, he) \<leftarrow> dictFind can_resize d key;
          Some (d, case he of Some e \<Rightarrow> snd e | None \<Rightarrow> None) }"

text \<open>
  \<open>dictFindLinkForInsert\<close>: \<^term>\<open>Inl l\<close> is the existing entry, \<^term>\<open>Inr (t, i)\<close> the bucket for the key.
\<close>

definition dictFindLinkForInsert ::
  "dictResizeEnable \<Rightarrow> ('k, 'v) dict \<Rightarrow> 'k \<Rightarrow> (('k, 'v) dict \<times> (link + nat \<times> nat)) option" where
  "dictFindLinkForInsert can_resize d key =
     do {
       let idx = dict_idx d key (ht_size_exp (ht0 d));
       d \<leftarrow> dictRehashStepIfNeeded can_resize d idx;
       (d, _) \<leftarrow> dictAutoExpandIfNeeded can_resize d;
       l \<leftarrow> tables_search d key idx;
       case l of
         Some l \<Rightarrow> Some (d, Inl l)
       | None \<Rightarrow> let t = (if dictIsRehashing d then 1 else 0) in
           Some (d, Inr (t, dict_idx d key (ht_size_exp (ht_get d t))))
     }"

text \<open>\<open>dictInsertKeyAtLink\<close>: the new entry, without a value, becomes the head of the bucket.\<close>

definition dictInsertKeyAtLink :: "('k, 'v) dict \<Rightarrow> 'k \<Rightarrow> nat \<times> nat \<Rightarrow> (('k, 'v) dict \<times> link) option" where
  "dictInsertKeyAtLink d key link =
     (case link of (t, i) \<Rightarrow>
       let htidx = (if dictIsRehashing d then 1 else 0) in
       if t \<noteq> htidx then None
       else do {
         chain \<leftarrow> arr_get (ht_table (ht_get d htidx)) (int i);
         table \<leftarrow> arr_set (ht_table (ht_get d htidx)) (int i) ((key, None) # chain);
         let h = ht_get d htidx;
         Some (ht_put htidx (h\<lparr>ht_table := table, ht_used := ht_used h + 1\<rparr>) d, (htidx, i, 0))
       })"

text \<open>\<open>Inr l\<close>: added at \<open>l\<close>. \<open>Inl l\<close>: not added, the key exists at \<open>l\<close>.\<close>

definition dictAddRaw :: "dictResizeEnable \<Rightarrow> ('k, 'v) dict \<Rightarrow> 'k \<Rightarrow> (('k, 'v) dict \<times> (link + link)) option" where
  "dictAddRaw can_resize d key =
     do { (d, position) \<leftarrow> dictFindLinkForInsert can_resize d key;
          case position of
            Inl existing \<Rightarrow> Some (d, Inl existing)
          | Inr bucket \<Rightarrow> do { (d, l) \<leftarrow> dictInsertKeyAtLink d key bucket; Some (d, Inr l) } }"

text \<open>Storing into the entry at a link.\<close>

definition set_entry_val :: "('k, 'v) dict \<Rightarrow> link \<Rightarrow> 'v \<Rightarrow> ('k, 'v) dict option" where
  "set_entry_val d l val = (case l of (t, i, p) \<Rightarrow>
     do {
       chain \<leftarrow> arr_get (ht_table (ht_get d t)) (int i);
       e \<leftarrow> arr_get chain (int p);
       chain \<leftarrow> arr_set chain (int p) (fst e, Some val);
       table \<leftarrow> arr_set (ht_table (ht_get d t)) (int i) chain;
       Some (ht_put t ((ht_get d t)\<lparr>ht_table := table\<rparr>) d)
     })"

text \<open>\<open>dictSetVal\<close>; the assertion is that the entry has a value field.\<close>

definition dictSetVal :: "('k, 'v) dict \<Rightarrow> link \<Rightarrow> 'v \<Rightarrow> ('k, 'v) dict option" where
  "dictSetVal d l val = (if no_value (d_type d) then None else set_entry_val d l val)"

definition dictAdd :: "dictResizeEnable \<Rightarrow> ('k, 'v) dict \<Rightarrow> 'k \<Rightarrow> 'v \<Rightarrow> (('k, 'v) dict \<times> bool) option" where
  "dictAdd can_resize d key val =
     do { (d, entry) \<leftarrow> dictAddRaw can_resize d key;
          case entry of
            Inl _ \<Rightarrow> Some (d, False)
          | Inr l \<Rightarrow> if no_value (d_type d) then Some (d, True)
                     else do { d \<leftarrow> dictSetVal d l val; Some (d, True) } }"

definition dictReplace :: "dictResizeEnable \<Rightarrow> ('k, 'v) dict \<Rightarrow> 'k \<Rightarrow> 'v \<Rightarrow> (('k, 'v) dict \<times> bool) option" where
  "dictReplace can_resize d key val =
     do { (d, entry) \<leftarrow> dictAddRaw can_resize d key;
          case entry of
            Inr l \<Rightarrow> do { d \<leftarrow> dictSetVal d l val; Some (d, True) }
          | Inl existing \<Rightarrow> do { d \<leftarrow> dictSetVal d existing val; Some (d, False) } }"

definition dictAddOrFind :: "dictResizeEnable \<Rightarrow> ('k, 'v) dict \<Rightarrow> 'k \<Rightarrow> (('k, 'v) dict \<times> link) option" where
  "dictAddOrFind can_resize d key =
     do { (d, entry) \<leftarrow> dictAddRaw can_resize d key;
          Some (d, case entry of Inr l \<Rightarrow> l | Inl existing \<Rightarrow> existing) }"

text \<open>Unlinking the entry at a link from its chain.\<close>

definition unlink_at :: "('k, 'v) dict \<Rightarrow> link \<Rightarrow> (('k, 'v) dict \<times> ('k, 'v) entry) option" where
  "unlink_at d l = (case l of (t, i, p) \<Rightarrow>
     do {
       chain \<leftarrow> arr_get (ht_table (ht_get d t)) (int i);
       he \<leftarrow> arr_get chain (int p);
       table \<leftarrow> arr_set (ht_table (ht_get d t)) (int i) (take p chain @ drop (Suc p) chain);
       let h = ht_get d t;
       Some (ht_put t (h\<lparr>ht_table := table, ht_used := ht_used h - 1\<rparr>) d, he)
     })"

definition dictGenericDelete ::
  "dictResizeEnable \<Rightarrow> ('k, 'v) dict \<Rightarrow> 'k \<Rightarrow> (('k, 'v) dict \<times> ('k, 'v) entry option) option" where
  "dictGenericDelete can_resize d key =
     (if dictSize d = 0 then Some (d, None)
      else do {
        let idx = dict_idx d key (ht_size_exp (ht0 d));
        d \<leftarrow> dictRehashStepIfNeeded can_resize d idx;
        l \<leftarrow> tables_search d key idx;
        case l of
          None \<Rightarrow> Some (d, None)
        | Some l \<Rightarrow> do {
            (d, he) \<leftarrow> unlink_at d l;
            d \<leftarrow> dictAutoShrinkIfNeeded can_resize d;
            Some (d, Some he)
          }
      })"

definition dictDelete :: "dictResizeEnable \<Rightarrow> ('k, 'v) dict \<Rightarrow> 'k \<Rightarrow> (('k, 'v) dict \<times> bool) option" where
  "dictDelete can_resize d key =
     do { (d, he) \<leftarrow> dictGenericDelete can_resize d key; Some (d, he \<noteq> None) }"

definition dictUnlink ::
  "dictResizeEnable \<Rightarrow> ('k, 'v) dict \<Rightarrow> 'k \<Rightarrow> (('k, 'v) dict \<times> ('k, 'v) entry option) option" where
  "dictUnlink can_resize d key = dictGenericDelete can_resize d key"

text \<open>The two-phase deletion: find pauses rehashing, free unlinks and resumes it.\<close>

definition dictTwoPhaseUnlinkFind ::
  "dictResizeEnable \<Rightarrow> ('k, 'v) dict \<Rightarrow> 'k \<Rightarrow> (('k, 'v) dict \<times> link option) option" where
  "dictTwoPhaseUnlinkFind can_resize d key =
     (if dictSize d = 0 then Some (d, None)
      else do {
        d \<leftarrow> (if dictIsRehashing d then dictRehashStep can_resize d else Some d);
        l \<leftarrow> tables_search d key (dict_idx d key (ht_size_exp (ht0 d)));
        case l of
          None \<Rightarrow> Some (d, None)
        | Some l \<Rightarrow> Some (d\<lparr>pauserehash := pauserehash d + 1\<rparr>, Some l)
      })"

definition dictTwoPhaseUnlinkFree :: "dictResizeEnable \<Rightarrow> ('k, 'v) dict \<Rightarrow> link option \<Rightarrow> ('k, 'v) dict option" where
  "dictTwoPhaseUnlinkFree can_resize d plink =
     (case plink of
        None \<Rightarrow> Some d
      | Some l \<Rightarrow> do {
          (d, _) \<leftarrow> unlink_at d l;
          d \<leftarrow> dictAutoShrinkIfNeeded can_resize d;
          Some (d\<lparr>pauserehash := pauserehash d - 1\<rparr>)
        })"

text \<open>\<open>dictEmpty\<close> with \<open>_dictClear\<close> on both tables.\<close>

definition dictEmpty :: "('k, 'v) dict \<Rightarrow> ('k, 'v) dict" where
  "dictEmpty d = d\<lparr>ht0 := dictReset, ht1 := dictReset, rehashidx := -1, pauserehash := 0,
     pauseAutoResize := 0\<rparr>"


subsection \<open>Indices and tables\<close>

lemma DICTHT_SIZE_MASK_eq: "0 \<le> e \<Longrightarrow> DICTHT_SIZE_MASK e = mask (nat e)"
  by (simp add: DICTHT_SIZE_MASK_def DICTHT_SIZE_def mask_eq_exp_minus_1)

lemma dict_idx_eq: "0 \<le> e \<Longrightarrow> dict_idx d k e = unat (take_bit (nat e) (hashFunction (d_type d) k))"
  by (simp add: dict_idx_def DICTHT_SIZE_MASK_eq take_bit_eq_mask)

lemma unat_take_bit_less: "unat (take_bit n (w :: u64)) < 2 ^ n"
  by (simp add: unsigned_take_bit_eq)

lemma dict_idx_less: "0 \<le> e \<Longrightarrow> dict_idx d k e < 2 ^ nat e"
  by (simp add: dict_idx_eq unat_take_bit_less)

text \<open>Shrinking: the index in the smaller table is the old index, masked.\<close>

lemma shrink_idx:
  assumes "0 \<le> e1" "e1 \<le> e0"
  shows "unat (of_nat (dict_idx d k e0) AND DICTHT_SIZE_MASK e1) = dict_idx d k e1"
proof -
  have "of_nat (dict_idx d k e0) = take_bit (nat e0) (hashFunction (d_type d) k)"
    using assms by (simp add: dict_idx_eq of_nat_unat)
  then show ?thesis
    using assms by (simp add: dict_idx_eq DICTHT_SIZE_MASK_eq take_bit_eq_mask[symmetric] min_def)
qed

definition ht_entries :: "('k, 'v) dictht \<Rightarrow> ('k, 'v) entry list" where
  "ht_entries h = concat (ht_table h)"

definition ht_ok :: "'k dictType \<Rightarrow> ('k, 'v) dictht \<Rightarrow> bool" where
  "ht_ok ty h \<longleftrightarrow> 0 \<le> ht_size_exp h \<and> ht_size_exp h \<le> 60 \<and>
     length (ht_table h) = 2 ^ nat (ht_size_exp h) \<and> ht_used h = length (ht_entries h) \<and>
     (\<forall>i<length (ht_table h). \<forall>e\<in>set (ht_table h ! i).
        unat (take_bit (nat (ht_size_exp h)) (hashFunction ty (fst e))) = i)"

definition dict_entries :: "('k, 'v) dict \<Rightarrow> ('k, 'v) entry list" where
  "dict_entries d = ht_entries (ht0 d) @ ht_entries (ht1 d)"

text \<open>The map a dictionary represents.\<close>

definition dict_map :: "('k, 'v) dict \<Rightarrow> 'k \<rightharpoonup> 'v option" where
  "dict_map d = map_of (dict_entries d)"

text \<open>
  The invariant: every entry sits in the bucket of its hash, the counters are exact, no key occurs
  twice in the two tables, the second table is in use exactly while rehashing, and the buckets
  below \<open>rehashidx\<close> have been moved.
\<close>

definition dict_inv :: "('k, 'v) dict \<Rightarrow> bool" where
  "dict_inv d \<longleftrightarrow>
     (ht0 d = dictReset \<or> ht_ok (d_type d) (ht0 d)) \<and> distinct (map fst (dict_entries d)) \<and>
     (if dictIsRehashing d
      then ht_ok (d_type d) (ht0 d) \<and> ht_ok (d_type d) (ht1 d) \<and> 0 \<le> rehashidx d \<and>
           rehashidx d \<le> int (length (ht_table (ht0 d))) \<and>
           (\<forall>i. int i < rehashidx d \<longrightarrow> ht_table (ht0 d) ! i = [])
      else ht1 d = dictReset)"

lemma ht_entries_dictReset [simp]: "ht_entries dictReset = []"
  by (simp add: ht_entries_def dictReset_def)

lemma mset_concat_update:
  assumes "i < length xss"
  shows "mset (concat (xss[i := ys])) + mset (xss ! i) = mset (concat xss) + mset ys"
proof -
  have "mset (concat xss) = mset (concat (take i xss @ xss ! i # drop (Suc i) xss))"
    using assms by (simp add: id_take_nth_drop[symmetric])
  then show ?thesis using assms by (simp add: upd_conv_take_nth_drop)
qed

lemma map_of_mset_eq:
  assumes "mset xs = mset ys" "distinct (map fst xs)"
  shows "distinct (map fst ys)" "map_of xs = map_of ys"
proof -
  have "mset (map fst xs) = mset (map fst ys)" using assms(1) by simp
  then show d: "distinct (map fst ys)" using assms(2) mset_eq_imp_distinct_iff by blast
  have "set xs = set ys" using assms(1) by (rule mset_eq_setD)
  with d assms(2) show "map_of xs = map_of ys" by (intro map_of_inject_set[THEN iffD2])
qed

lemma ht_ok_bucket_update:
  assumes ok: "ht_ok ty h" and i: "i < length (ht_table h)"
    and es: "\<forall>e\<in>set ys. unat (take_bit (nat (ht_size_exp h)) (hashFunction ty (fst e))) = i"
    and n: "n + length (ht_table h ! i) = ht_used h + length ys"
  shows "ht_ok ty (h\<lparr>ht_table := (ht_table h)[i := ys], ht_used := n\<rparr>)"
proof -
  have "size (mset (concat ((ht_table h)[i := ys])) + mset (ht_table h ! i)) =
      size (mset (concat (ht_table h)) + mset ys)"
    using mset_concat_update[OF i, of ys] by simp
  then have "length (concat ((ht_table h)[i := ys])) + length (ht_table h ! i) =
      length (concat (ht_table h)) + length ys"
    by (simp only: size_union size_mset)
  then have "n = length (concat ((ht_table h)[i := ys]))"
    using n ok by (simp add: ht_ok_def ht_entries_def)
  then show ?thesis
    using ok i es unfolding ht_ok_def by (auto simp: nth_list_update ht_entries_def)
qed

subsection \<open>Moving a bucket\<close>

lemma rehash_chain_spec:
  assumes "ht_ok (d_type d) (ht1 d)" "0 \<le> ht_size_exp (ht0 d)"
    and "\<forall>e\<in>set chain. dict_idx d (fst e) (ht_size_exp (ht0 d)) = idx"
    and "length chain \<le> ht_used (ht0 d)"
  shows "\<exists>h1. rehash_chain chain idx d =
      Some (d\<lparr>ht0 := (ht0 d)\<lparr>ht_used := ht_used (ht0 d) - length chain\<rparr>, ht1 := h1\<rparr>) \<and>
    ht_ok (d_type d) h1 \<and> mset (ht_entries h1) = mset (ht_entries (ht1 d)) + mset chain \<and>
    ht_size_exp h1 = ht_size_exp (ht1 d)"
  using assms
proof (induction chain arbitrary: d)
  case Nil
  then show ?case by (intro exI[of _ "ht1 d"]) simp
next
  case (Cons e chain)
  let ?e0 = "ht_size_exp (ht0 d)" and ?e1 = "ht_size_exp (ht1 d)" and ?h1 = "ht1 d"
  define i where "i = dict_idx d (fst e) ?e1"
  note ok = Cons.prems(1)
  have e1: "0 \<le> ?e1" using ok by (simp add: ht_ok_def)
  have h: "(if ?e1 > ?e0 then dict_idx d (fst e) ?e1 else unat (of_nat idx AND DICTHT_SIZE_MASK ?e1)) = i"
    using shrink_idx[OF e1, of ?e0 d "fst e"] Cons.prems(3) by (auto simp: i_def)
  have i: "i < length (ht_table ?h1)"
    using ok dict_idx_less[OF e1, of d "fst e"] by (simp add: ht_ok_def i_def)
  let ?h1' = "?h1\<lparr>ht_table := (ht_table ?h1)[i := e # ht_table ?h1 ! i], ht_used := ht_used ?h1 + 1\<rparr>"
  let ?d' = "d\<lparr>ht0 := (ht0 d)\<lparr>ht_used := ht_used (ht0 d) - 1\<rparr>, ht1 := ?h1'\<rparr>"
  have "unat (take_bit (nat ?e1) (hashFunction (d_type d) (fst e'))) = i" if "e' \<in> set (ht_table ?h1 ! i)" for e'
    using ok i that by (simp add: ht_ok_def)
  then have ok': "ht_ok (d_type d) ?h1'"
    using e1 by (intro ht_ok_bucket_update[OF ok i]) (auto simp: i_def dict_idx_eq)
  have ms: "mset (ht_entries ?h1') = mset (ht_entries ?h1) + {#e#}"
    using mset_concat_update[OF i, of "e # ht_table ?h1 ! i"] by (simp add: ht_entries_def)
  have step: "rehash_chain (e # chain) idx d = rehash_chain chain idx ?d'"
    using i h by (simp add: arr_get_def arr_set_def)
  have "length chain \<le> ht_used (ht0 d) - 1" using Cons.prems(4) by simp
  then obtain h1 where "rehash_chain chain idx ?d' =
        Some (?d'\<lparr>ht0 := (ht0 ?d')\<lparr>ht_used := ht_used (ht0 ?d') - length chain\<rparr>, ht1 := h1\<rparr>)"
      "ht_ok (d_type d) h1" "mset (ht_entries h1) = mset (ht_entries ?h1') + mset chain"
      "ht_size_exp h1 = ?e1"
    using Cons.IH[of ?d'] Cons.prems ok' by (auto simp: dict_idx_def)
  with step ms show ?case by (intro exI[of _ h1]) simp
qed

lemma dict_inv_rehashD:
  assumes "dict_inv d" "dictIsRehashing d"
  shows "ht_ok (d_type d) (ht0 d)" "ht_ok (d_type d) (ht1 d)" "0 \<le> rehashidx d"
    "rehashidx d \<le> int (length (ht_table (ht0 d)))"
    "\<And>i. int i < rehashidx d \<Longrightarrow> ht_table (ht0 d) ! i = []" "distinct (map fst (dict_entries d))"
  using assms by (auto simp: dict_inv_def)

text \<open>
  An internal step of the table: the invariant is kept and nothing a client can see changes.
\<close>

definition dict_same :: "('k, 'v) dict \<Rightarrow> ('k, 'v) dict \<Rightarrow> bool" where
  "dict_same d d' \<longleftrightarrow> dict_inv d' \<and> mset (dict_entries d') = mset (dict_entries d) \<and>
     d_type d' = d_type d \<and> pauserehash d' = pauserehash d \<and> pauseAutoResize d' = pauseAutoResize d"

lemma dict_same_refl: "dict_inv d \<Longrightarrow> dict_same d d"
  by (simp add: dict_same_def)

lemma dict_same_trans [trans]: "dict_same a b \<Longrightarrow> dict_same b c \<Longrightarrow> dict_same a c"
  by (simp add: dict_same_def)

lemma dict_same_map:
  assumes "dict_inv d" "dict_same d d'"
  shows "dict_map d' = dict_map d"
  using map_of_mset_eq(2)[of "dict_entries d" "dict_entries d'"] assms
  by (simp add: dict_same_def dict_inv_def dict_map_def)

lemma dict_sameD:
  assumes "dict_same d d'"
  shows "dict_inv d'" "d_type d' = d_type d" "pauserehash d' = pauserehash d"
    "pauseAutoResize d' = pauseAutoResize d"
  using assms by (simp_all add: dict_same_def)

text \<open>The exponent of the table new keys go to.\<close>

definition target_exp :: "('k, 'v) dict \<Rightarrow> int" where
  "target_exp d = ht_size_exp (if dictIsRehashing d then ht1 d else ht0 d)"

definition size_exps :: "('k, 'v) dict \<Rightarrow> int \<times> int" where
  "size_exps d = (ht_size_exp (ht0 d), ht_size_exp (ht1 d))"

lemma rehashEntriesInBucketAtIndex_spec:
  assumes inv: "dict_inv d" and rh: "dictIsRehashing d" and i: "idx < length (ht_table (ht0 d))"
  shows "\<exists>d'. rehashEntriesInBucketAtIndex d idx = Some d' \<and> dict_same d d' \<and>
    rehashidx d' = rehashidx d \<and> ht_table (ht0 d') = (ht_table (ht0 d))[idx := []] \<and>
    size_exps d' = size_exps d"
proof -
  let ?h0 = "ht0 d" and ?chain = "ht_table (ht0 d) ! idx"
  note D = dict_inv_rehashD[OF inv rh]
  have e0: "0 \<le> ht_size_exp ?h0" using D(1) by (simp add: ht_ok_def)
  have ch: "\<forall>e\<in>set ?chain. dict_idx d (fst e) (ht_size_exp ?h0) = idx"
    using D(1) i e0 by (simp add: ht_ok_def dict_idx_eq)
  have "size (mset ?chain) \<le> size (mset (concat (ht_table ?h0)))"
    using i by (intro size_mset_mono) (metis mset_concat_update mset_subset_eq_add_right mset.simps(1) add.right_neutral)
  then have len: "length ?chain \<le> ht_used ?h0" using D(1) by (simp add: ht_ok_def ht_entries_def)
  obtain h1 where h1: "rehash_chain ?chain idx d =
        Some (d\<lparr>ht0 := ?h0\<lparr>ht_used := ht_used ?h0 - length ?chain\<rparr>, ht1 := h1\<rparr>)"
      "ht_ok (d_type d) h1" "mset (ht_entries h1) = mset (ht_entries (ht1 d)) + mset ?chain"
      "ht_size_exp h1 = ht_size_exp (ht1 d)"
    using rehash_chain_spec[OF D(2) e0 ch len] by blast
  let ?h0' = "?h0\<lparr>ht_table := (ht_table ?h0)[idx := []], ht_used := ht_used ?h0 - length ?chain\<rparr>"
  let ?d' = "d\<lparr>ht0 := ?h0', ht1 := h1\<rparr>"
  have run: "rehashEntriesInBucketAtIndex d idx = Some ?d'"
    using i h1(1) by (simp add: rehashEntriesInBucketAtIndex_def arr_get_def arr_set_def)
  have ok0: "ht_ok (d_type d) ?h0'" using len by (intro ht_ok_bucket_update[OF D(1) i]) auto
  have ms: "mset (dict_entries ?d') = mset (dict_entries d)"
    using mset_concat_update[OF i, of "[]"] h1(3)
    by (simp add: dict_entries_def ht_entries_def add.assoc[symmetric])
  have "dict_inv ?d'"
    using rh ok0 h1(2) map_of_mset_eq(1)[OF ms[symmetric] D(6)] D(3-5) i
    by (auto simp: dict_inv_def dictIsRehashing_def nth_list_update)
  with run ms h1(4) show ?thesis by (simp add: dict_same_def size_exps_def)
qed


lemma dictCheckRehashingCompleted_spec:
  assumes inv: "dict_inv d" and rh: "dictIsRehashing d"
  shows "dict_same d (fst (dictCheckRehashingCompleted d))"
    "snd (dictCheckRehashingCompleted d) \<longleftrightarrow> ht_used (ht0 d) = 0"
    "snd (dictCheckRehashingCompleted d) \<Longrightarrow> \<not> dictIsRehashing (fst (dictCheckRehashingCompleted d))"
    "\<not> snd (dictCheckRehashingCompleted d) \<Longrightarrow> fst (dictCheckRehashingCompleted d) = d"
    "target_exp (fst (dictCheckRehashingCompleted d)) = target_exp d"
proof -
  note D = dict_inv_rehashD[OF inv rh]
  show "dict_same d (fst (dictCheckRehashingCompleted d))"
    using inv D by (auto simp: dictCheckRehashingCompleted_def dict_same_def dict_inv_def dictIsRehashing_def
        dict_entries_def ht_ok_def)
qed (use rh in \<open>auto simp: dictCheckRehashingCompleted_def dictIsRehashing_def target_exp_def split: if_splits\<close>)

subsection \<open>Rehashing steps\<close>

lemma dictRehash_skip_spec:
  assumes "0 \<le> ri" "ri \<le> int j" "j < length table" "table ! j \<noteq> []"
  shows "\<exists>r. dictRehash_skip table ri ev = Some r \<and>
    (case r of
       Inl ri' \<Rightarrow> ri < ri' \<and> ri' \<le> int j \<and> (\<forall>i. ri \<le> int i \<longrightarrow> int i < ri' \<longrightarrow> table ! i = [])
     | Inr (ri', _) \<Rightarrow> ri \<le> ri' \<and> ri' \<le> int j \<and> (\<forall>i. ri \<le> int i \<longrightarrow> int i < ri' \<longrightarrow> table ! i = []))"
  using assms
proof (induction table ri ev rule: dictRehash_skip.induct)
  case (1 table ri ev)
  have get: "arr_get table ri = Some (table ! nat ri)" using "1.prems" by (simp add: arr_get_def)
  show ?case
  proof (cases "table ! nat ri")
    case (Cons e es)
    then show ?thesis using get "1.prems" by (simp add: dictRehash_skip.simps[of table ri])
  next
    case Nil
    then have lt: "ri < int j" using "1.prems" by (cases "ri = int j") auto
    have here: "table ! i = []" if "int i = ri" for i using Nil that by auto
    show ?thesis
    proof (cases "ev - 1 = 0")
      case True
      then show ?thesis using get Nil lt here by (auto simp: dictRehash_skip.simps[of table ri])
    next
      case False
      have "dictRehash_skip table ri ev = dictRehash_skip table (ri + 1) (ev - 1)"
        using get Nil False by (simp add: dictRehash_skip.simps[of table ri])
      moreover have cover: "int i = ri \<or> ri + 1 \<le> int i" if "ri \<le> int i" for i using that by linarith
      ultimately show ?thesis
        using "1.IH"[OF get Nil False] "1.prems" lt here
        by (fastforce split: sum.splits prod.splits)
    qed
  qed
qed

lemma ht_used_nonempty_bucket:
  assumes "ht_ok ty h" "ht_used h \<noteq> 0"
  shows "\<exists>j<length (ht_table h). ht_table h ! j \<noteq> []"
  using assms by (auto simp: ht_ok_def ht_entries_def in_set_conv_nth)

lemma dict_inv_rehashidx:
  assumes "dict_inv d" "dictIsRehashing d" "rehashidx d \<le> ri" "ri \<le> int (length (ht_table (ht0 d)))"
    "\<And>i. rehashidx d \<le> int i \<Longrightarrow> int i < ri \<Longrightarrow> ht_table (ht0 d) ! i = []"
  shows "dict_same d (d\<lparr>rehashidx := ri\<rparr>) \<and> dictIsRehashing (d\<lparr>rehashidx := ri\<rparr>)"
proof -
  note D = dict_inv_rehashD[OF assms(1,2)]
  have "ht_table (ht0 d) ! i = []" if "int i < ri" for i
    using D(5)[of i] assms(5)[of i] that by (cases "int i < rehashidx d") auto
  then show ?thesis
    using assms D(3) by (auto simp: dict_same_def dict_inv_def dictIsRehashing_def dict_entries_def)
qed

lemma dictRehash_loop_spec:
  assumes "dict_inv d" "dictIsRehashing d"
  shows "\<exists>d' early. dictRehash_loop n d ev = Some (d', early) \<and> dict_same d d' \<and> dictIsRehashing d' \<and>
    size_exps d' = size_exps d \<and> rehashidx d \<le> rehashidx d' \<and>
    (early \<or> ht_used (ht0 d') \<noteq> 0 \<and> 0 < n \<longrightarrow> rehashidx d < rehashidx d')"
  using assms
proof (induction n arbitrary: d ev)
  case 0
  then show ?case by (auto simp: dict_same_refl)
next
  case (Suc n)
  show ?case
  proof (cases "ht_used (ht0 d) = 0")
    case True
    then show ?thesis using Suc.prems by (auto simp: dict_same_refl)
  next
    case used: False
    let ?t = "ht_table (ht0 d)" and ?ri = "rehashidx d"
    note D = dict_inv_rehashD[OF Suc.prems]
    obtain j where j: "j < length ?t" "?t ! j \<noteq> []" using ht_used_nonempty_bucket[OF D(1) used] by blast
    have rj: "?ri \<le> int j" using D(5)[of j] j(2) by linarith
    have len: "int (length ?t) = int (DICTHT_SIZE (ht_size_exp (ht0 d)))"
      using D(1) by (auto simp: ht_ok_def DICTHT_SIZE_def)
    obtain r where r: "dictRehash_skip ?t ?ri ev = Some r"
      "case r of
         Inl ri' \<Rightarrow> ?ri < ri' \<and> ri' \<le> int j \<and> (\<forall>i. ?ri \<le> int i \<longrightarrow> int i < ri' \<longrightarrow> ?t ! i = [])
       | Inr (ri', _) \<Rightarrow> ?ri \<le> ri' \<and> ri' \<le> int j \<and> (\<forall>i. ?ri \<le> int i \<longrightarrow> int i < ri' \<longrightarrow> ?t ! i = [])"
      using dictRehash_skip_spec[OF D(3) rj j] by blast
    show ?thesis
    proof (cases r)
      case (Inl ri)
      then have "dict_same d (d\<lparr>rehashidx := ri\<rparr>) \<and> dictIsRehashing (d\<lparr>rehashidx := ri\<rparr>)"
        using r(2) j by (intro dict_inv_rehashidx[OF Suc.prems]) auto
      then show ?thesis using Inl r used len rj j by (auto simp: size_exps_def)
    next
      case (Inr p)
      obtain ri ev' where p: "p = (ri, ev')" by (cases p)
      have ri: "?ri \<le> ri" "ri \<le> int j" "\<And>i. ?ri \<le> int i \<Longrightarrow> int i < ri \<Longrightarrow> ?t ! i = []"
        using Inr p r(2) by auto
      let ?d1 = "d\<lparr>rehashidx := ri\<rparr>"
      have d1: "dict_same d ?d1 \<and> dictIsRehashing ?d1"
        using ri j by (intro dict_inv_rehashidx[OF Suc.prems]) auto
      have "nat ri < length (ht_table (ht0 ?d1))" using ri(2) j(1) D(3) ri(1) by simp
      then obtain d2 where d2: "rehashEntriesInBucketAtIndex ?d1 (nat ri) = Some d2" "dict_same ?d1 d2"
          "rehashidx d2 = ri" "ht_table (ht0 d2) = ?t[nat ri := []]" "size_exps d2 = size_exps d"
        using rehashEntriesInBucketAtIndex_spec[of ?d1 "nat ri"] d1 dict_sameD
        by (auto simp: size_exps_def)
      have rh2: "dictIsRehashing d2" using d1 d2(3) by (simp add: dictIsRehashing_def)
      let ?d3 = "d2\<lparr>rehashidx := ri + 1\<rparr>"
      have ri0: "0 \<le> ri" "nat ri < length ?t" using ri j D(3) by auto
      have d3: "dict_same d2 ?d3 \<and> dictIsRehashing ?d3"
      proof (rule dict_inv_rehashidx[OF dict_sameD(1)[OF d2(2)] rh2])
        show "ht_table (ht0 d2) ! i = []" if "rehashidx d2 \<le> int i" "int i < ri + 1" for i
        proof -
          have "i = nat ri" using that d2(3) by linarith
          then show ?thesis using d2(4) ri0 by simp
        qed
      qed (use d2 ri0 in auto)
      obtain d' early where d': "dictRehash_loop n ?d3 ev' = Some (d', early)" "dict_same ?d3 d'"
          "dictIsRehashing d'" "size_exps d' = size_exps ?d3"
          "rehashidx ?d3 \<le> rehashidx d'"
        using Suc.IH[of ?d3 ev'] d3 dict_sameD by blast
      have "dict_same d d'" using d1 d2(2) d3 d'(2) dict_same_trans by blast
      then show ?thesis
        using Inr p r(1) used len rj j d2 d' ri by (auto simp: size_exps_def)
    qed
  qed
qed

lemma dictRehash_spec:
  assumes inv: "dict_inv d"
  shows "\<exists>d' more. dictRehash can_resize d n = Some (d', more) \<and> dict_same d d' \<and>
    (more \<longrightarrow> dictIsRehashing d' \<and> size_exps d' = size_exps d \<and>
       (0 < n \<longrightarrow> rehashidx d < rehashidx d')) \<and>
    (dictRehash_blocked can_resize d \<longrightarrow> d' = d) \<and>
    (\<not> more \<longrightarrow> \<not> dictRehash_blocked can_resize d \<longrightarrow> \<not> dictIsRehashing d') \<and>
    target_exp d' = target_exp d"
proof (cases "dictRehash_blocked can_resize d")
  case True
  then show ?thesis using inv by (auto simp: dictRehash_def dict_same_refl)
next
  case False
  then have rh: "dictIsRehashing d" by (simp add: dictRehash_blocked_def Let_def)
  obtain d1 early where d1: "dictRehash_loop n d (int n * 10) = Some (d1, early)" "dict_same d d1"
      "dictIsRehashing d1" "size_exps d1 = size_exps d"
      "early \<or> ht_used (ht0 d1) \<noteq> 0 \<and> 0 < n \<longrightarrow> rehashidx d < rehashidx d1"
    using dictRehash_loop_spec[OF inv rh] by blast
  note C = dictCheckRehashingCompleted_spec[OF dict_sameD(1)[OF d1(2)] d1(3)]
  have te: "target_exp d1 = target_exp d" using rh d1(3,4) by (simp add: target_exp_def size_exps_def)
  show ?thesis
  proof (cases early)
    case True
    then show ?thesis using d1 False te by (auto simp: dictRehash_def)
  next
    case noearly: False
    then have "dictRehash can_resize d n =
        Some (fst (dictCheckRehashingCompleted d1), \<not> snd (dictCheckRehashingCompleted d1))"
      using d1(1) False by (simp add: dictRehash_def split: prod.splits)
    moreover have "dict_same d (fst (dictCheckRehashingCompleted d1))"
      using d1(2) C(1) by (rule dict_same_trans)
    ultimately show ?thesis using C(2-5) d1(3-5) False te by auto
  qed
qed

text \<open>The full rehash of \<open>_dictResize\<close> ends within the fuel it is given.\<close>

lemma dictRehash_blocked_cong:
  "size_exps d' = size_exps d \<Longrightarrow> dictIsRehashing d' = dictIsRehashing d \<Longrightarrow>
   dictRehash_blocked can_resize d' = dictRehash_blocked can_resize d"
  by (simp add: dictRehash_blocked_def size_exps_def)

lemma dict_full_rehash_ok:
  assumes "dict_inv d" "dictIsRehashing d" "int (DICTHT_SIZE (ht_size_exp (ht0 d))) - rehashidx d < int fuel"
  shows "\<exists>d'. dictRehash_all fuel can_resize d = Some d' \<and> dict_same d d' \<and>
    (dictRehash_blocked can_resize d \<longrightarrow> d' = d) \<and>
    (\<not> dictRehash_blocked can_resize d \<longrightarrow> \<not> dictIsRehashing d') \<and> target_exp d' = target_exp d"
  using assms
proof (induction fuel arbitrary: d)
  case 0
  then show ?case using dict_inv_rehashD(1,4)[of d] by (auto simp: ht_ok_def DICTHT_SIZE_def)
next
  case (Suc fuel)
  obtain d1 more where d1: "dictRehash can_resize d 1000 = Some (d1, more)" "dict_same d d1"
      "more \<Longrightarrow> dictIsRehashing d1 \<and> size_exps d1 = size_exps d \<and> rehashidx d < rehashidx d1"
      "dictRehash_blocked can_resize d \<Longrightarrow> d1 = d"
      "\<not> more \<Longrightarrow> \<not> dictRehash_blocked can_resize d \<Longrightarrow> \<not> dictIsRehashing d1"
      "target_exp d1 = target_exp d"
    using dictRehash_spec[OF Suc.prems(1), of can_resize 1000] by auto
  show ?case
  proof (cases more)
    case True
    then have nb: "\<not> dictRehash_blocked can_resize d1" "dictIsRehashing d1"
      using d1(3,4) Suc.prems(2) dictRehash_blocked_cong[of d1 d can_resize] by auto
    obtain d' where d': "dictRehash_all fuel can_resize d1 = Some d'" "dict_same d1 d'"
        "\<not> dictIsRehashing d'" "target_exp d' = target_exp d"
      using Suc.IH[of d1] d1 True nb Suc.prems(3) dict_sameD(1) by (fastforce simp: size_exps_def)
    have "\<not> dictRehash_blocked can_resize d" using d1(3,4) True by auto
    then show ?thesis using True d1(1) d' dict_same_trans[OF d1(2) d'(2)] by auto
  qed (use d1 in auto)
qed

subsection \<open>Resizing\<close>

lemma dictNextExp_nonneg: "0 \<le> dictNextExp sz"
  by (simp add: dictNextExp_def dict_consts)

lemma resize_overflow:
  assumes "0 \<le> e" "\<not> (DICTHT_SIZE e * 8) mod 2 ^ 64 < DICTHT_SIZE e"
  shows "e \<le> 60"
proof (rule ccontr)
  assume "\<not> e \<le> 60"
  then have "nat e + 3 = 64 + (nat e - 61)" using assms(1) by simp
  then have "(2 :: nat) ^ (nat e + 3) = 2 ^ 64 * 2 ^ (nat e - 61)" by (metis power_add)
  moreover have "DICTHT_SIZE e * 8 = 2 ^ (nat e + 3)" using assms(1) by (simp add: DICTHT_SIZE_def power_add)
  ultimately have "(DICTHT_SIZE e * 8) mod 2 ^ 64 = 0" by simp
  with assms show False by (simp add: DICTHT_SIZE_def)
qed

lemma ht_ok_new:
  "0 \<le> e \<Longrightarrow> e \<le> 60 \<Longrightarrow>
   ht_ok ty \<lparr>ht_table = replicate (DICTHT_SIZE e) [], ht_used = 0, ht_size_exp = e\<rparr>"
  by (auto simp: ht_ok_def ht_entries_def DICTHT_SIZE_def)

text \<open>A resize is invisible, and a successful one leaves the first table allocated.\<close>

lemma dictResize_spec:
  assumes inv: "dict_inv d" and nrh: "\<not> dictIsRehashing d"
  shows "\<exists>d' ok. dictResize can_resize d sz = Some (d', ok) \<and> dict_same d d' \<and> rehashidx d' \<le> 0 \<and>
    (ok \<longrightarrow> ht_ok (d_type d) (ht0 d')) \<and> (\<not> ok \<longrightarrow> d' = d) \<and>
    (ht0 d = dictReset \<longrightarrow> sz \<le> DICT_HT_INITIAL_SIZE \<longrightarrow> ok) \<and>
    (ok \<longrightarrow> target_exp d' = dictNextExp sz)"
proof -
  let ?e = "dictNextExp sz"
  let ?n = "DICTHT_SIZE ?e"
  let ?new = "\<lparr>ht_table = replicate ?n [], ht_used = 0, ht_size_exp = ?e\<rparr> :: ('a, 'b) dictht"
  have small: "sz \<le> DICT_HT_INITIAL_SIZE \<Longrightarrow> ?e = 2 \<and> sz \<le> ?n \<and> ?n = 4"
    by (simp add: dictNextExp_def dict_consts DICTHT_SIZE_def)
  have h1: "ht1 d = dictReset" using inv nrh by (simp add: dict_inv_def)
  show ?thesis
  proof (cases "?n < sz \<or> (?n * 8) mod 2 ^ 64 < ?n \<or> ?e = ht_size_exp (ht0 d)")
    case True
    then have no: "\<not> (ht0 d = dictReset \<and> sz \<le> DICT_HT_INITIAL_SIZE)"
      using small by (auto simp: dictReset_def)
    have "dictResize can_resize d sz = Some (d, False)"
      using True nrh by (auto simp: dictResize_def Let_def)
    then show ?thesis
      using no dict_same_refl[OF inv] nrh by (auto simp: dictIsRehashing_def)
  next
    case False
    then have e: "?e \<le> 60" using resize_overflow[OF dictNextExp_nonneg] by blast
    have new: "ht_ok (d_type d) ?new" "ht_entries ?new = []"
      using ht_ok_new[OF dictNextExp_nonneg e] by (auto simp: ht_entries_def)
    show ?thesis
    proof (cases "ht_table (ht0 d) = [] \<or> ht_used (ht0 d) = 0")
      case True
      then have "ht_entries (ht0 d) = []"
        using inv by (auto simp: dict_inv_def ht_ok_def ht_entries_def dictReset_def)
      then have "dict_same d (d\<lparr>ht0 := ?new, ht1 := dictReset, rehashidx := -1\<rparr>)"
        using new h1 inv by (simp add: dict_same_def dict_inv_def dictIsRehashing_def dict_entries_def)
      then show ?thesis using True False nrh new by (auto simp: dictResize_def Let_def target_exp_def dictIsRehashing_def)
    next
      case used: False
      then have ok0: "ht_ok (d_type d) (ht0 d)" using inv by (auto simp: dict_inv_def dictReset_def)
      let ?d1 = "d\<lparr>ht1 := ?new, rehashidx := 0\<rparr>"
      have d1: "dict_same d ?d1" "dictIsRehashing ?d1" "target_exp ?d1 = ?e"
        using inv ok0 new h1
        by (simp_all add: dict_same_def dict_inv_def dictIsRehashing_def dict_entries_def target_exp_def)
      obtain d2 where d2: "dictRehash_all (Suc (DICTHT_SIZE (ht_size_exp (ht0 d)))) can_resize ?d1 = Some d2"
          "dict_same ?d1 d2" "d2 = ?d1 \<or> \<not> dictIsRehashing d2"
          "target_exp d2 = target_exp ?d1"
        using dict_full_rehash_ok[OF dict_sameD(1)[OF d1(1)] d1(2),
            of "Suc (DICTHT_SIZE (ht_size_exp (ht0 d)))" can_resize] by auto
      then have ri: "rehashidx d2 \<le> 0" by (auto simp: dictIsRehashing_def)
      have s2: "dict_same d d2" using d1(1) d2(2) by (rule dict_same_trans)
      have "dict_entries d \<noteq> []" using ok0 used by (simp add: ht_ok_def dict_entries_def)
      then have "mset (dict_entries d2) \<noteq> {#}" using s2 by (simp add: dict_same_def)
      then have "ht_ok (d_type d) (ht0 d2)"
        using dict_sameD(1,2)[OF s2] by (auto simp: dict_inv_def dict_entries_def split: if_splits)
      moreover have "dictResize can_resize d sz = Some (if force_full_rehash (d_type d) then d2 else ?d1, True)"
        using False used nrh d2(1) by (simp add: dictResize_def Let_def)
      ultimately show ?thesis using d1 s2 ok0 ri d2(4) by auto
    qed
  qed
qed

lemma dictExpand_spec:
  assumes inv: "dict_inv d"
  shows "\<exists>d' ok. dictExpand can_resize d sz = Some (d', ok) \<and> dict_same d d' \<and>
    (d' = d \<or> rehashidx d' \<le> 0) \<and>
    (ok \<longrightarrow> ht_ok (d_type d) (ht0 d')) \<and> (\<not> ok \<longrightarrow> d' = d) \<and>
    (ht0 d = dictReset \<longrightarrow> 0 < sz \<longrightarrow> sz \<le> DICT_HT_INITIAL_SIZE \<longrightarrow> \<not> dictIsRehashing d \<longrightarrow> ok) \<and>
    (ok \<longrightarrow> target_exp d' = dictNextExp sz)"
proof (cases "dictIsRehashing d \<or> ht_used (ht0 d) > sz \<or> DICTHT_SIZE (ht_size_exp (ht0 d)) \<ge> sz")
  case True
  then have "\<not> (ht0 d = dictReset \<and> 0 < sz \<and> \<not> dictIsRehashing d)"
    by (auto simp: dictReset_def DICTHT_SIZE_def)
  with True show ?thesis using dict_same_refl[OF inv] by (auto simp: dictExpand_def)
next
  case False
  then have "dictExpand can_resize d sz = dictResize can_resize d sz" by (simp add: dictExpand_def)
  then show ?thesis using dictResize_spec[OF inv, of can_resize sz] False by metis
qed

lemma dictShrink_spec:
  assumes "dict_inv d"
  shows "\<exists>d' ok. dictShrink can_resize d sz = Some (d', ok) \<and> dict_same d d'"
  using dictResize_spec[OF assms, of can_resize sz] assms
  by (auto simp: dictShrink_def dict_same_refl)

lemma dict_inv_ht0:
  assumes "dict_inv d"
  shows "ht0 d = dictReset \<or> ht_ok (d_type d) (ht0 d)" "dictIsRehashing d \<Longrightarrow> ht_ok (d_type d) (ht0 d)"
    "dict_entries d \<noteq> [] \<Longrightarrow> ht_ok (d_type d) (ht0 d)"
  using assms by (auto simp: dict_inv_def dict_entries_def split: if_splits)

lemma dictExpandIfNeeded_spec:
  assumes inv: "dict_inv d"
  shows "\<exists>d' ok. dictExpandIfNeeded can_resize d = Some (d', ok) \<and> dict_same d d' \<and>
    ht_ok (d_type d) (ht0 d') \<and> (d' = d \<or> rehashidx d' \<le> 0)"
proof -
  have ok0: "ht0 d \<noteq> dictReset \<Longrightarrow> ht_ok (d_type d) (ht0 d)" using dict_inv_ht0(1)[OF inv] by blast
  have keep: "?thesis" if "dictExpandIfNeeded can_resize d = Some (d, ok)" "ht_ok (d_type d) (ht0 d)" for ok
    using that inv by (auto simp: dict_same_refl)
  consider (rh) "dictIsRehashing d" | (new) "\<not> dictIsRehashing d" "ht0 d = dictReset"
    | (old) "\<not> dictIsRehashing d" "ht0 d \<noteq> dictReset"
    by blast
  then show ?thesis
  proof cases
    case rh
    then show ?thesis using dict_inv_ht0(2)[OF inv] keep[of True] by (simp add: dictExpandIfNeeded_def)
  next
    case new
    then show ?thesis using dictExpand_spec[OF inv, of can_resize DICT_HT_INITIAL_SIZE]
      by (auto simp: dictExpandIfNeeded_def DICTHT_SIZE_def dictReset_def dict_consts)
  next
    case old
    have "DICTHT_SIZE (ht_size_exp (ht0 d)) \<noteq> 0" using ok0[OF old(2)] by (auto simp: ht_ok_def DICTHT_SIZE_def)
    then have run: "dictExpandIfNeeded can_resize d \<in>
        {Some (d, True), Some (d, False),
         dictExpand can_resize d (ht_used (ht0 d) + 1) \<bind> (\<lambda>(d, _). Some (d, True))}"
      using old by (simp add: dictExpandIfNeeded_def)
    obtain d' ok where d': "dictExpand can_resize d (ht_used (ht0 d) + 1) = Some (d', ok)" "dict_same d d'"
        "d' = d \<or> rehashidx d' \<le> 0" "ok \<longrightarrow> ht_ok (d_type d) (ht0 d')" "\<not> ok \<longrightarrow> d' = d"
      using dictExpand_spec[OF inv, of can_resize "ht_used (ht0 d) + 1"] by metis
    have "ht_ok (d_type d) (ht0 d')" using d'(4,5) ok0[OF old(2)] by (cases ok) auto
    then show ?thesis using run keep[OF _ ok0[OF old(2)]] d'(1-3) by auto
  qed
qed

lemma dictAutoExpandIfNeeded_spec:
  assumes inv: "dict_inv d" and alloc: "ht0 d \<noteq> dictReset \<or> pauseAutoResize d \<le> 0"
  shows "\<exists>d' ok. dictAutoExpandIfNeeded can_resize d = Some (d', ok) \<and> dict_same d d' \<and>
    ht_ok (d_type d) (ht0 d') \<and> (d' = d \<or> rehashidx d' \<le> 0)"
  using dictExpandIfNeeded_spec[OF inv, of can_resize] alloc dict_inv_ht0(1)[OF inv] dict_same_refl[OF inv]
  by (cases "pauseAutoResize d > 0") (auto simp: dictAutoExpandIfNeeded_def)

lemma dictAutoShrinkIfNeeded_spec:
  assumes inv: "dict_inv d"
  shows "\<exists>d'. dictAutoShrinkIfNeeded can_resize d = Some d' \<and> dict_same d d'"
  using dictShrink_spec[OF inv, of can_resize "ht_used (ht0 d)"] inv
  by (auto simp: dictAutoShrinkIfNeeded_def dictShrinkIfNeeded_def dict_same_refl)

text \<open>
  The rehashing step of every operation. \<open>idx_valid\<close> says that the bucket index a caller computed
  beforehand may be compared with \<open>rehashidx\<close> afterwards.
\<close>

definition idx_valid :: "('k, 'v) dict \<Rightarrow> 'k \<Rightarrow> nat \<Rightarrow> bool" where
  "idx_valid d k idx0 \<longleftrightarrow> (int idx0 < rehashidx d \<longrightarrow> idx0 = dict_idx d k (ht_size_exp (ht0 d)))"

lemma dictRehash_one:
  assumes "dict_inv d"
  shows "\<exists>d'. map_option fst (dictRehash can_resize d n) = Some d' \<and> dict_same d d' \<and>
    (dictIsRehashing d' \<longrightarrow> size_exps d' = size_exps d)"
  using dictRehash_spec[OF assms, of can_resize n] by (auto simp: dictIsRehashing_def)

lemma dictRehashStepIfNeeded_spec:
  assumes inv: "dict_inv d"
  shows "\<exists>d'. dictRehashStepIfNeeded can_resize d (dict_idx d k (ht_size_exp (ht0 d))) = Some d' \<and>
    dict_same d d' \<and> idx_valid d' k (dict_idx d k (ht_size_exp (ht0 d)))"
proof -
  let ?i = "dict_idx d k (ht_size_exp (ht0 d))"
  have valid: "idx_valid d' k ?i" if "dict_same d d'" "dictIsRehashing d' \<longrightarrow> size_exps d' = size_exps d" for d'
    using that dict_inv_rehashD(3)[of d']
    by (auto simp: idx_valid_def dict_same_def size_exps_def dict_idx_def dictIsRehashing_def)
  have rehash: "\<exists>d'. map_option fst (dictRehash can_resize d 1) = Some d' \<and> dict_same d d' \<and> idx_valid d' k ?i"
    using dictRehash_one[OF inv, of can_resize 1] valid by blast
  show ?thesis
  proof (cases "dictIsRehashing d \<and> pauserehash d = 0 \<and> int ?i \<ge> rehashidx d")
    case False
    then show ?thesis
      using rehash inv valid[OF dict_same_refl[OF inv]] dict_same_refl[OF inv]
      by (auto simp: dictRehashStepIfNeeded_def)
  next
    case True
    note D = dict_inv_rehashD[OF inv, OF conjunct1[OF True]]
    have i: "?i < length (ht_table (ht0 d))"
      using D(1) dict_idx_less[of "ht_size_exp (ht0 d)" d k] by (simp add: ht_ok_def)
    obtain d1 where d1: "rehashEntriesInBucketAtIndex d ?i = Some d1" "dict_same d d1"
        "rehashidx d1 = rehashidx d" "size_exps d1 = size_exps d"
      using rehashEntriesInBucketAtIndex_spec[OF inv _ i] True by blast
    have rh1: "dictIsRehashing d1" using True d1(3) by (simp add: dictIsRehashing_def)
    note C = dictCheckRehashingCompleted_spec[OF dict_sameD(1)[OF d1(2)] rh1]
    let ?d2 = "fst (dictCheckRehashingCompleted d1)"
    have s2: "dict_same d ?d2" using d1(2) C(1) by (rule dict_same_trans)
    have "dictIsRehashing ?d2 \<longrightarrow> size_exps ?d2 = size_exps d"
      using C(3,4) d1(4) by (cases "snd (dictCheckRehashingCompleted d1)") auto
    then have v2: "idx_valid ?d2 k ?i" using valid[OF s2] by blast
    have bucket: "\<exists>d'. map_option fst (dictBucketRehash can_resize d ?i) = Some d' \<and> dict_same d d' \<and> idx_valid d' k ?i"
      using True d1(1) s2 v2 valid[OF dict_same_refl[OF inv]] dict_same_refl[OF inv]
      by (auto simp: dictBucketRehash_def)
    show ?thesis
      using True i rehash bucket by (auto simp: dictRehashStepIfNeeded_def arr_get_def)
  qed
qed


subsection \<open>Changing one bucket\<close>

lemma dict_entries_put:
  assumes "i < length (ht_table (ht_get d t))"
  shows "mset (dict_entries (ht_put t ((ht_get d t)\<lparr>ht_table := (ht_table (ht_get d t))[i := ys], ht_used := n\<rparr>) d))
      + mset (ht_table (ht_get d t) ! i) = mset (dict_entries d) + mset ys"
  using mset_concat_update[OF assms, of ys]
  by (auto simp: dict_entries_def ht_get_def ht_put_def ht_entries_def ac_simps)

definition live_table :: "('k, 'v) dict \<Rightarrow> nat \<Rightarrow> bool" where
  "live_table d t \<longleftrightarrow> t = 0 \<and> ht_ok (d_type d) (ht0 d) \<or> t = 1 \<and> dictIsRehashing d"

lemma live_table_ok: "dict_inv d \<Longrightarrow> live_table d t \<Longrightarrow> ht_ok (d_type d) (ht_get d t)"
  by (auto simp: live_table_def ht_get_def dict_inv_rehashD)

lemma dict_bucket_update:
  assumes inv: "dict_inv d" and t: "live_table d t" and i: "i < length (ht_table (ht_get d t))"
    and ys: "\<forall>e\<in>set ys. dict_idx d (fst e) (ht_size_exp (ht_get d t)) = i"
    and n: "n + length (ht_table (ht_get d t) ! i) = ht_used (ht_get d t) + length ys"
    and ri: "t = 0 \<Longrightarrow> int i < rehashidx d \<Longrightarrow> ys = []"
    and ms: "mset zs + mset (ht_table (ht_get d t) ! i) = mset (dict_entries d) + mset ys"
    and dz: "distinct (map fst zs)"
    and d': "d' = ht_put t ((ht_get d t)\<lparr>ht_table := (ht_table (ht_get d t))[i := ys], ht_used := n\<rparr>) d"
  shows "dict_inv d'" "dict_map d' = map_of zs"
proof -
  let ?h = "ht_get d t"
  have ok: "ht_ok (d_type d) ?h" using live_table_ok[OF inv t] .
  have "mset (dict_entries d') = mset zs"
    using dict_entries_put[OF i, where ys = ys and n = n] ms unfolding d' by (metis add_right_cancel)
  note me = map_of_mset_eq[OF this[symmetric] dz]
  then show "dict_map d' = map_of zs" by (simp add: dict_map_def)
  have "0 \<le> ht_size_exp ?h" using ok by (simp add: ht_ok_def)
  then have ok': "ht_ok (d_type d) (?h\<lparr>ht_table := (ht_table ?h)[i := ys], ht_used := n\<rparr>)"
    using ys n by (intro ht_ok_bucket_update[OF ok i]) (auto simp: dict_idx_eq)
  show "dict_inv d'"
  proof (cases "t = 0")
    case True
    then show ?thesis
      using me(1) inv ok' i ri by (auto simp: dict_inv_def d' ht_put_def ht_get_def dictIsRehashing_def nth_list_update)
  next
    case False
    then show ?thesis
      using me(1) inv ok' t by (auto simp: dict_inv_def d' ht_put_def ht_get_def dictIsRehashing_def live_table_def)
  qed
qed

subsection \<open>Links\<close>

text \<open>The link points to the entry of \<open>k\<close>, whose value field is \<open>v\<close>.\<close>

fun at_link :: "('k, 'v) dict \<Rightarrow> link \<Rightarrow> 'k \<Rightarrow> 'v option \<Rightarrow> bool" where
  "at_link d (t, i, p) k v \<longleftrightarrow> live_table d t \<and> i < length (ht_table (ht_get d t)) \<and>
     p < length (ht_table (ht_get d t) ! i) \<and> ht_table (ht_get d t) ! i ! p = (k, v)"

lemma at_link_entry: "at_link d l k v \<Longrightarrow> link_entry d l = Some (k, v)"
  by (cases l) (simp add: link_entry_def arr_get_def)

lemma at_link_mem: "at_link d l k v \<Longrightarrow> (k, v) \<in> set (dict_entries d)"
  by (cases l) (auto simp: dict_entries_def ht_entries_def ht_get_def split: if_splits dest!: nth_mem)

lemma at_link_map: "dict_inv d \<Longrightarrow> at_link d l k v \<Longrightarrow> dict_map d k = Some v"
  using at_link_mem by (fastforce simp: dict_map_def dict_inv_def)

lemma at_link_idx:
  assumes "dict_inv d" "at_link d (t, i, p) k v"
  shows "i = dict_idx d k (ht_size_exp (ht_get d t))" "t = 0 \<Longrightarrow> \<not> int i < rehashidx d"
proof -
  have ok: "ht_ok (d_type d) (ht_get d t)" using live_table_ok[OF assms(1)] assms(2) by simp
  moreover have "(k, v) \<in> set (ht_table (ht_get d t) ! i)" using assms(2) by (auto simp: in_set_conv_nth)
  ultimately show "i = dict_idx d k (ht_size_exp (ht_get d t))"
    using assms(2) by (force simp: ht_ok_def dict_idx_eq)
  show "t = 0 \<Longrightarrow> \<not> int i < rehashidx d"
    using assms by (auto simp: dict_inv_def ht_get_def dictIsRehashing_def split: if_splits)
qed

lemma chain_find_spec:
  "chain_find k chain = Some p \<Longrightarrow> p < length chain \<and> fst (chain ! p) = k"
  "chain_find k chain = None \<Longrightarrow> k \<notin> fst ` set chain"
  by (induction chain arbitrary: p) (auto split: if_splits)

lemma table_search_spec:
  assumes inv: "dict_inv d" and t: "live_table d t"
  shows "\<exists>r. table_search d k t = Some r \<and>
    (case r of Some l \<Rightarrow> \<exists>v. at_link d l k v | None \<Rightarrow> k \<notin> fst ` set (ht_entries (ht_get d t)))"
proof -
  let ?h = "ht_get d t"
  define i where "i = dict_idx d k (ht_size_exp ?h)"
  note ok = live_table_ok[OF inv t]
  have e: "0 \<le> ht_size_exp ?h" using ok by (simp add: ht_ok_def)
  have i: "i < length (ht_table ?h)" using ok dict_idx_less[OF e, of d k] by (simp add: ht_ok_def i_def)
  have run: "table_search d k t = Some (map_option (\<lambda>p. (t, i, p)) (chain_find k (ht_table ?h ! i)))"
    using i by (simp add: table_search_def i_def[symmetric] arr_get_def)
  have other: "k \<notin> fst ` set (ht_entries ?h)" if "k \<notin> fst ` set (ht_table ?h ! i)"
  proof
    assume "k \<in> fst ` set (ht_entries ?h)"
    then obtain en j where j: "j < length (ht_table ?h)" "en \<in> set (ht_table ?h ! j)" "fst en = k"
      by (auto simp: ht_entries_def in_set_conv_nth[of _ "ht_table ?h"])
    then have "j = i" using ok e by (auto simp: ht_ok_def i_def dict_idx_eq)
    with j that show False by blast
  qed
  show ?thesis
  proof (cases "chain_find k (ht_table ?h ! i)")
    case None
    then show ?thesis using run other chain_find_spec(2)[OF None] by simp
  next
    case (Some p)
    then show ?thesis using run i t chain_find_spec(1)[OF Some] by (auto simp: prod_eq_iff)
  qed
qed

lemma tables_search_spec:
  assumes inv: "dict_inv d" and ok0: "ht_ok (d_type d) (ht0 d)" and v: "idx_valid d k idx0"
  shows "\<exists>r. tables_search d k idx0 = Some r \<and>
    (case r of Some l \<Rightarrow> \<exists>v. at_link d l k v | None \<Rightarrow> dict_map d k = None)"
proof -
  have t0: "live_table d 0" using ok0 by (simp add: live_table_def)
  have skip: "k \<notin> fst ` set (ht_entries (ht0 d))" if lt: "int idx0 < rehashidx d"
  proof
    assume "k \<in> fst ` set (ht_entries (ht0 d))"
    then obtain en j where j: "j < length (ht_table (ht0 d))" "en \<in> set (ht_table (ht0 d) ! j)" "fst en = k"
      by (auto simp: ht_entries_def in_set_conv_nth[of _ "ht_table (ht0 d)"])
    then have "j = idx0" using ok0 v lt by (auto simp: ht_ok_def idx_valid_def dict_idx_eq)
    moreover have "dictIsRehashing d" using lt by (auto simp: dictIsRehashing_def)
    ultimately show False using dict_inv_rehashD(5)[OF inv, of idx0] j lt by simp
  qed
  have none: "dict_map d k = None \<longleftrightarrow> k \<notin> fst ` set (ht_entries (ht0 d)) \<and> k \<notin> fst ` set (ht_entries (ht1 d))"
    by (auto simp: dict_map_def map_of_eq_None_iff dict_entries_def)
  obtain r0 where r0: "(if int idx0 < rehashidx d then Some None else table_search d k 0) = Some r0"
      "case r0 of Some l \<Rightarrow> \<exists>v. at_link d l k v | None \<Rightarrow> k \<notin> fst ` set (ht_entries (ht0 d))"
    using table_search_spec[OF inv t0, of k, unfolded ht_get_def if_P[OF refl]] skip that
    by (cases "int idx0 < rehashidx d") (simp, metis)
  show ?thesis
  proof (cases r0)
    case (Some l)
    then show ?thesis using r0 by (auto simp: tables_search_def)
  next
    case n0: None
    show ?thesis
    proof (cases "dictIsRehashing d")
      case True
      then have "live_table d 1" by (simp add: live_table_def)
      moreover have g: "ht_get d 1 = ht1 d" by (simp add: ht_get_def)
      ultimately obtain r1 where r1: "table_search d k 1 = Some r1"
          "case r1 of Some l \<Rightarrow> \<exists>v. at_link d l k v | None \<Rightarrow> k \<notin> fst ` set (ht_entries (ht1 d))"
        using table_search_spec[OF inv, of 1 k] unfolding g by blast
      then have "tables_search d k idx0 = Some r1" using r0 n0 True by (simp add: tables_search_def)
      then show ?thesis using r1(2) r0(2) n0 none by (cases r1) simp_all
    next
      case False
      then have "ht_entries (ht1 d) = []" using inv by (simp add: dict_inv_def)
      then show ?thesis using r0 n0 none False by (simp add: tables_search_def)
    qed
  qed
qed


subsection \<open>The operations\<close>

text \<open>The result of an operation that turns the represented map into \<open>f\<close>.\<close>

definition dict_upd :: "('k, 'v) dict \<Rightarrow> ('k \<rightharpoonup> 'v option) \<Rightarrow> ('k, 'v) dict \<Rightarrow> bool" where
  "dict_upd d f d' \<longleftrightarrow> dict_inv d' \<and> dict_map d' = f \<and> d_type d' = d_type d \<and>
     pauserehash d' = pauserehash d \<and> pauseAutoResize d' = pauseAutoResize d"

lemma dict_same_upd: "dict_inv d \<Longrightarrow> dict_same d d' \<Longrightarrow> dict_upd d (dict_map d) d'"
  using dict_same_map[of d d'] by (simp add: dict_upd_def dict_same_def)

lemma dict_upd_trans: "dict_upd d f d1 \<Longrightarrow> dict_upd d1 g d2 \<Longrightarrow> dict_upd d g d2"
  by (simp add: dict_upd_def)

lemma dict_upd_same: "dict_upd d f d1 \<Longrightarrow> dict_same d1 d2 \<Longrightarrow> dict_upd d f d2"
  using dict_same_upd[of d1 d2] by (auto simp: dict_upd_def)

lemma same_dict_upd: "dict_same d d1 \<Longrightarrow> dict_upd d1 f d2 \<Longrightarrow> dict_upd d f d2"
  by (simp add: dict_upd_def dict_same_def)

lemma ht_put_frame [simp]:
  "d_type (ht_put t h d) = d_type d" "pauserehash (ht_put t h d) = pauserehash d"
  "pauseAutoResize (ht_put t h d) = pauseAutoResize d" "rehashidx (ht_put t h d) = rehashidx d"
  by (simp_all add: ht_put_def)

text \<open>The entries, with the one at a link taken out.\<close>

lemma at_link_rest:
  assumes "dict_inv d" "at_link d l k v"
  obtains rest where "mset (dict_entries d) = add_mset (k, v) (mset rest)" "distinct (map fst rest)"
    "k \<notin> fst ` set rest" "dict_map d = (map_of rest)(k \<mapsto> v)"
proof -
  let ?rest = "remove1 (k, v) (dict_entries d)"
  have ms: "mset (dict_entries d) = mset ((k, v) # ?rest)" using at_link_mem[OF assms(2)] by simp
  have dist: "distinct (map fst (dict_entries d))" using assms(1) by (simp add: dict_inv_def)
  note me = map_of_mset_eq[OF ms dist]
  show thesis
  proof (rule that)
    show "mset (dict_entries d) = add_mset (k, v) (mset ?rest)" using ms by simp
    show "dict_map d = (map_of ?rest)(k \<mapsto> v)" using me(2) by (simp add: dict_map_def)
  qed (use me(1) in auto)
qed

lemma dict_put_bucket:
  assumes "dict_inv d" "live_table d t" "i < length (ht_table (ht_get d t))"
    "\<forall>e\<in>set ys. dict_idx d (fst e) (ht_size_exp (ht_get d t)) = i"
    "n + length (ht_table (ht_get d t) ! i) = ht_used (ht_get d t) + length ys"
    "t = 0 \<Longrightarrow> int i < rehashidx d \<Longrightarrow> ys = []"
    "mset zs + mset (ht_table (ht_get d t) ! i) = mset (dict_entries d) + mset ys"
    "distinct (map fst zs)"
  shows "dict_upd d (map_of zs)
    (ht_put t ((ht_get d t)\<lparr>ht_table := (ht_table (ht_get d t))[i := ys], ht_used := n\<rparr>) d)"
  using dict_bucket_update[OF assms refl] by (simp add: dict_upd_def)

lemma bucket_idx:
  assumes "dict_inv d" "live_table d t" "i < length (ht_table (ht_get d t))" "e \<in> set (ht_table (ht_get d t) ! i)"
  shows "dict_idx d (fst e) (ht_size_exp (ht_get d t)) = i"
  using live_table_ok[OF assms(1,2)] assms(3,4) by (simp add: ht_ok_def dict_idx_eq)

lemma set_entry_val_spec:
  assumes inv: "dict_inv d" and l: "at_link d l k v"
  shows "\<exists>d'. set_entry_val d l w = Some d' \<and> dict_upd d ((dict_map d)(k \<mapsto> Some w)) d'"
proof -
  obtain t i p where tip: "l = (t, i, p)" by (cases l)
  let ?h = "ht_get d t" and ?chain = "ht_table (ht_get d t) ! i"
  let ?ys = "?chain[p := (k, Some w)]"
  have L: "live_table d t" "i < length (ht_table ?h)" "p < length ?chain" "?chain ! p = (k, v)"
    using l tip by auto
  obtain rest where rest: "mset (dict_entries d) = add_mset (k, v) (mset rest)" "distinct (map fst rest)"
      "k \<notin> fst ` set rest" "dict_map d = (map_of rest)(k \<mapsto> v)"
    using at_link_rest[OF inv l] .
  have ms: "mset ?ys + {#(k, v)#} = mset ?chain + {#(k, Some w)#}"
    using mset_update[OF L(3), of "(k, Some w)"] nth_mem_mset[OF L(3)] L(4) by simp
  have "dict_upd d (map_of ((k, Some w) # rest))
      (ht_put t (?h\<lparr>ht_table := (ht_table ?h)[i := ?ys], ht_used := ht_used ?h\<rparr>) d)"
  proof (rule dict_put_bucket[OF inv L(1,2)])
    show "\<forall>e\<in>set ?ys. dict_idx d (fst e) (ht_size_exp ?h) = i"
      using bucket_idx[OF inv L(1,2)] at_link_idx(1)[OF inv l[unfolded tip]]
      by (auto dest!: set_update_subset_insert[THEN subsetD])
    show "mset ((k, Some w) # rest) + mset ?chain = mset (dict_entries d) + mset ?ys"
      using ms rest(1) by (simp add: ac_simps)
  qed (use rest L at_link_idx(2)[OF inv l[unfolded tip]] in auto)
  then show ?thesis
    using L rest(4) by (auto simp: set_entry_val_def tip arr_get_def arr_set_def)
qed

lemma dictSetVal_spec:
  assumes "dict_inv d" "at_link d l k v" "\<not> no_value (d_type d)"
  shows "\<exists>d'. dictSetVal d l w = Some d' \<and> dict_upd d ((dict_map d)(k \<mapsto> Some w)) d'"
  using set_entry_val_spec[OF assms(1,2)] assms(3) by (simp add: dictSetVal_def)

lemma unlink_at_spec:
  assumes inv: "dict_inv d" and l: "at_link d l k v"
  shows "\<exists>d'. unlink_at d l = Some (d', (k, v)) \<and> dict_upd d ((dict_map d)(k := None)) d'"
proof -
  obtain t i p where tip: "l = (t, i, p)" by (cases l)
  let ?h = "ht_get d t" and ?chain = "ht_table (ht_get d t) ! i"
  let ?ys = "take p ?chain @ drop (Suc p) ?chain"
  have L: "live_table d t" "i < length (ht_table ?h)" "p < length ?chain" "?chain ! p = (k, v)"
    using l tip by auto
  obtain rest where rest: "mset (dict_entries d) = add_mset (k, v) (mset rest)" "distinct (map fst rest)"
      "k \<notin> fst ` set rest" "dict_map d = (map_of rest)(k \<mapsto> v)"
    using at_link_rest[OF inv l] .
  have sp: "?chain = take p ?chain @ (k, v) # drop (Suc p) ?chain"
    using L(3,4) by (metis id_take_nth_drop)
  then have ms: "mset ?chain = add_mset (k, v) (mset ?ys)" by (metis mset.simps(2) mset_append union_mset_add_mset_right)
  have "?chain \<noteq> []" using L(3) by auto
  then have used: "0 < ht_used ?h"
    using live_table_ok[OF inv L(1)] nth_mem[OF L(2)] by (auto simp: ht_ok_def ht_entries_def)
  have "dict_upd d (map_of rest)
      (ht_put t (?h\<lparr>ht_table := (ht_table ?h)[i := ?ys], ht_used := ht_used ?h - 1\<rparr>) d)"
  proof (rule dict_put_bucket[OF inv L(1,2)])
    show "\<forall>e\<in>set ?ys. dict_idx d (fst e) (ht_size_exp ?h) = i"
      using bucket_idx[OF inv L(1,2)] by (auto dest: in_set_takeD in_set_dropD)
    show "mset rest + mset ?chain = mset (dict_entries d) + mset ?ys"
      unfolding ms rest(1) by simp
  qed (use rest L used at_link_idx(2)[OF inv l[unfolded tip]] in auto)
  moreover have "map_of rest = (dict_map d)(k := None)"
    using rest(3,4) by (auto simp: map_of_eq_None_iff fun_eq_iff)
  ultimately show ?thesis
    using L by (auto simp: unlink_at_def tip arr_get_def arr_set_def Let_def)
qed

lemma dictInsertKeyAtLink_spec:
  assumes inv: "dict_inv d" and ok0: "ht_ok (d_type d) (ht0 d)" and new: "dict_map d k = None"
    and t: "t = (if dictIsRehashing d then 1 else 0)" and i: "i = dict_idx d k (ht_size_exp (ht_get d t))"
  shows "\<exists>d' l. dictInsertKeyAtLink d k (t, i) = Some (d', l) \<and>
    dict_upd d ((dict_map d)(k \<mapsto> None)) d' \<and> at_link d' l k None"
proof -
  let ?h = "ht_get d t" and ?chain = "ht_table (ht_get d t) ! i"
  let ?ys = "(k, None) # ?chain"
  let ?d' = "ht_put t (?h\<lparr>ht_table := (ht_table ?h)[i := ?ys], ht_used := ht_used ?h + 1\<rparr>) d"
  have live: "live_table d t" using ok0 t by (simp add: live_table_def)
  note ok = live_table_ok[OF inv live]
  have il: "i < length (ht_table ?h)"
    using ok dict_idx_less[of "ht_size_exp ?h" d k] by (simp add: i ht_ok_def)
  have upd: "dict_upd d (map_of ((k, None) # dict_entries d)) ?d'"
  proof (rule dict_put_bucket[OF inv live il])
    show "\<forall>e\<in>set ?ys. dict_idx d (fst e) (ht_size_exp ?h) = i"
      using bucket_idx[OF inv live il] i by auto
    show "distinct (map fst ((k, None) # dict_entries d))"
      using inv new by (auto simp: dict_inv_def dict_map_def map_of_eq_None_iff)
    show "t = 0 \<Longrightarrow> int i < rehashidx d \<Longrightarrow> ?ys = []"
      using t by (auto simp: dictIsRehashing_def split: if_splits)
  qed auto
  have "dict_map ?d' k \<noteq> None" using upd by (simp add: dict_upd_def)
  then have ne: "dict_entries ?d' \<noteq> []" by (auto simp: dict_map_def)
  have "live_table ?d' t"
    using dict_inv_ht0(3)[of ?d'] upd ne t by (simp add: live_table_def dictIsRehashing_def dict_upd_def)
  then have "at_link ?d' (t, i, 0) k None"
    using il by (auto simp: ht_get_def ht_put_def split: if_splits)
  moreover have "dictInsertKeyAtLink d k (t, i) = Some (?d', (t, i, 0))"
    using il t by (auto simp: dictInsertKeyAtLink_def arr_get_def arr_set_def Let_def)
  ultimately show ?thesis using upd by (auto simp: dict_map_def)
qed


lemma dictSize_eq:
  assumes "dict_inv d"
  shows "dictSize d = length (dict_entries d)" "dictSize d = card (dom (dict_map d))"
proof -
  show len: "dictSize d = length (dict_entries d)"
    using assms by (auto simp: dict_inv_def dictSize_def dict_entries_def ht_ok_def dictReset_def ht_entries_def
        split: if_splits)
  have "distinct (map fst (dict_entries d))" using assms by (simp add: dict_inv_def)
  then show "dictSize d = card (dom (dict_map d))"
    using len by (metis dict_map_def dom_map_of_conv_image_fst distinct_card length_map set_map)
qed

lemma dict_same_size: "dict_inv d \<Longrightarrow> dict_same d d' \<Longrightarrow> dictSize d' = dictSize d"
  using dictSize_eq(1)[of d] dictSize_eq(1)[of d'] unfolding dict_same_def by (metis size_mset)

text \<open>The step every operation starts with, then the search.\<close>

lemma step_and_search:
  assumes inv: "dict_inv d" and ne: "dictSize d \<noteq> 0"
  shows "\<exists>d' r. dictRehashStepIfNeeded can_resize d (dict_idx d k (ht_size_exp (ht0 d))) = Some d' \<and>
    dict_same d d' \<and> tables_search d' k (dict_idx d k (ht_size_exp (ht0 d))) = Some r \<and>
    (case r of Some l \<Rightarrow> \<exists>v. at_link d' l k v \<and> dict_map d k = Some v | None \<Rightarrow> dict_map d k = None)"
proof -
  let ?i = "dict_idx d k (ht_size_exp (ht0 d))"
  obtain d' where d': "dictRehashStepIfNeeded can_resize d ?i = Some d'" "dict_same d d'" "idx_valid d' k ?i"
    using dictRehashStepIfNeeded_spec[OF inv] by blast
  have inv': "dict_inv d'" using dict_sameD(1)[OF d'(2)] .
  have "dict_entries d' \<noteq> []" using ne dict_same_size[OF inv d'(2)] dictSize_eq(1)[OF inv'] by auto
  then have ok: "ht_ok (d_type d') (ht0 d')" by (rule dict_inv_ht0(3)[OF inv'])
  show ?thesis
    using d'(1,2) tables_search_spec[OF inv' ok d'(3)] dict_same_map[OF inv d'(2)] at_link_map[OF inv']
    by (fastforce split: option.splits simp del: at_link.simps)
qed

lemma dict_empty_map: "dict_inv d \<Longrightarrow> dictSize d = 0 \<Longrightarrow> dict_map d = Map.empty"
  using dictSize_eq(1)[of d] by (auto simp: dict_map_def)

lemma dictFindLink_spec:
  assumes inv: "dict_inv d"
  shows "\<exists>d' r. dictFindLink can_resize d k = Some (d', r) \<and> dict_same d d' \<and>
    (case r of Some l \<Rightarrow> \<exists>v. at_link d' l k v \<and> dict_map d k = Some v | None \<Rightarrow> dict_map d k = None)"
proof (cases "dictSize d = 0")
  case True
  then show ?thesis using dict_same_refl[OF inv] dict_empty_map[OF inv] by (auto simp: dictFindLink_def)
next
  case False
  then show ?thesis
    using step_and_search[OF inv False, of can_resize k] by (auto simp: dictFindLink_def simp del: at_link.simps)
qed

lemma dictFind_spec:
  assumes inv: "dict_inv d"
  shows "\<exists>d'. dictFind can_resize d k = Some (d', map_option (Pair k) (dict_map d k)) \<and> dict_same d d'"
proof -
  obtain d' r where r: "dictFindLink can_resize d k = Some (d', r)" "dict_same d d'"
    "case r of Some l \<Rightarrow> \<exists>v. at_link d' l k v \<and> dict_map d k = Some v | None \<Rightarrow> dict_map d k = None"
    using dictFindLink_spec[OF inv] by blast
  show ?thesis
  proof (cases r)
    case None
    then show ?thesis using r by (simp add: dictFind_def)
  next
    case (Some l)
    then obtain v where "at_link d' l k v" "dict_map d k = Some v" using r(3) by auto
    then show ?thesis using r(1,2) Some by (simp add: dictFind_def at_link_entry)
  qed
qed

lemma dictAddRaw_spec:
  assumes inv: "dict_inv d" and alloc: "pauseAutoResize d \<le> 0 \<or> dictSize d \<noteq> 0"
  shows "\<exists>d' l. (case dict_map d k of
      None \<Rightarrow> dictAddRaw can_resize d k = Some (d', Inr l) \<and> dict_upd d ((dict_map d)(k \<mapsto> None)) d' \<and>
        at_link d' l k None
    | Some v \<Rightarrow> dictAddRaw can_resize d k = Some (d', Inl l) \<and> dict_same d d' \<and> at_link d' l k v)"
proof -
  let ?i = "dict_idx d k (ht_size_exp (ht0 d))"
  obtain d1 where d1: "dictRehashStepIfNeeded can_resize d ?i = Some d1" "dict_same d d1" "idx_valid d1 k ?i"
    using dictRehashStepIfNeeded_spec[OF inv] by blast
  have inv1: "dict_inv d1" using dict_sameD(1)[OF d1(2)] .
  have "dictSize d \<noteq> 0 \<Longrightarrow> dict_entries d1 \<noteq> []"
    using dict_same_size[OF inv d1(2)] dictSize_eq(1)[OF inv1] by auto
  then have "ht0 d1 \<noteq> dictReset \<or> pauseAutoResize d1 \<le> 0"
    using alloc dict_sameD(4)[OF d1(2)] dict_inv_ht0(3)[OF inv1] by (auto simp: dictReset_def ht_ok_def)
  then obtain d2 ok where d2: "dictAutoExpandIfNeeded can_resize d1 = Some (d2, ok)" "dict_same d1 d2"
      "ht_ok (d_type d1) (ht0 d2)" "d2 = d1 \<or> rehashidx d2 \<le> 0"
    using dictAutoExpandIfNeeded_spec[OF inv1] by blast
  have s2: "dict_same d d2" using d1(2) d2(2) by (rule dict_same_trans)
  have inv2: "dict_inv d2" and map2: "dict_map d2 = dict_map d"
    using dict_sameD(1)[OF s2] dict_same_map[OF inv s2] by auto
  have ok2: "ht_ok (d_type d2) (ht0 d2)" using d2(2,3) dict_sameD(2) by fastforce
  have v2: "idx_valid d2 k ?i" using d2(4) d1(3) by (auto simp: idx_valid_def)
  obtain r where r: "tables_search d2 k ?i = Some r"
      "case r of Some l \<Rightarrow> \<exists>v. at_link d2 l k v | None \<Rightarrow> dict_map d2 k = None"
    using tables_search_spec[OF inv2 ok2 v2] by blast
  show ?thesis
  proof (cases r)
    case (Some l)
    then obtain v where v: "at_link d2 l k v" using r(2) by auto
    moreover have "dict_map d k = Some v" using at_link_map[OF inv2 v] map2 by simp
    ultimately show ?thesis
      using d1(1) d2(1) r(1) Some s2 by (auto simp: dictAddRaw_def dictFindLinkForInsert_def simp del: at_link.simps)
  next
    case None
    then have n: "dict_map d2 k = None" using r(2) by simp
    obtain d3 l where d3: "dictInsertKeyAtLink d2 k (if dictIsRehashing d2 then 1 else 0,
          dict_idx d2 k (ht_size_exp (ht_get d2 (if dictIsRehashing d2 then 1 else 0)))) = Some (d3, l)"
        "dict_upd d2 ((dict_map d2)(k \<mapsto> None)) d3" "at_link d3 l k None"
      using dictInsertKeyAtLink_spec[OF inv2 ok2 n refl refl] by blast
    then have "dictAddRaw can_resize d k = Some (d3, Inr l)"
      using d1(1) d2(1) r(1) None by (simp add: dictAddRaw_def dictFindLinkForInsert_def Let_def)
    then show ?thesis
      using d3(2,3) n same_dict_upd[OF s2 d3(2)] by (auto simp: map2 simp del: at_link.simps)
  qed
qed

lemma dict_updD: "dict_upd d f d' \<Longrightarrow> dict_inv d'" "dict_upd d f d' \<Longrightarrow> dict_map d' = f"
  "dict_upd d f d' \<Longrightarrow> d_type d' = d_type d"
  by (simp_all add: dict_upd_def)

lemma dictAdd_spec:
  assumes inv: "dict_inv d" and alloc: "pauseAutoResize d \<le> 0 \<or> dictSize d \<noteq> 0" and nv: "\<not> no_value (d_type d)"
  shows "\<exists>d'. dictAdd can_resize d k w = Some (d', dict_map d k = None) \<and>
    dict_upd d (if dict_map d k = None then (dict_map d)(k \<mapsto> Some w) else dict_map d) d'"
proof (cases "dict_map d k")
  case None
  then obtain d1 l where d1: "dictAddRaw can_resize d k = Some (d1, Inr l)"
      "dict_upd d ((dict_map d)(k \<mapsto> None)) d1" "at_link d1 l k None"
    using dictAddRaw_spec[OF inv alloc, of can_resize k] by auto
  obtain d2 where d2: "dictSetVal d1 l w = Some d2" "dict_upd d1 ((dict_map d1)(k \<mapsto> Some w)) d2"
    using dictSetVal_spec[OF dict_updD(1)[OF d1(2)] d1(3)] nv dict_updD(3)[OF d1(2)] by auto
  have "dict_upd d ((dict_map d)(k \<mapsto> Some w)) d2"
    using dict_upd_trans[OF d1(2) d2(2)] dict_updD(2)[OF d1(2)] by simp
  then show ?thesis using None d1 d2 nv dict_updD(3)[OF d1(2)] by (simp add: dictAdd_def)
next
  case (Some v)
  then obtain d1 l where "dictAddRaw can_resize d k = Some (d1, Inl l)" "dict_same d d1"
    using dictAddRaw_spec[OF inv alloc, of can_resize k] by auto
  then show ?thesis using Some dict_same_upd[OF inv] by (auto simp: dictAdd_def)
qed

lemma dictReplace_spec:
  assumes inv: "dict_inv d" and alloc: "pauseAutoResize d \<le> 0 \<or> dictSize d \<noteq> 0" and nv: "\<not> no_value (d_type d)"
  shows "\<exists>d'. dictReplace can_resize d k w = Some (d', dict_map d k = None) \<and>
    dict_upd d ((dict_map d)(k \<mapsto> Some w)) d'"
proof -
  obtain d1 l v where d1: "dictAddRaw can_resize d k = Some (d1, if dict_map d k = None then Inr l else Inl l)"
      "dict_upd d ((dict_map d)(k \<mapsto> v)) d1" "at_link d1 l k v"
  proof (cases "dict_map d k")
    case None
    then show ?thesis using dictAddRaw_spec[OF inv alloc, of can_resize k] that by auto
  next
    case (Some v)
    then obtain d1 l where "dictAddRaw can_resize d k = Some (d1, Inl l)" "dict_same d d1" "at_link d1 l k v"
      using dictAddRaw_spec[OF inv alloc, of can_resize k] by auto
    then show ?thesis using that[of d1 l v] Some dict_same_upd[OF inv] by (simp add: fun_upd_idem)
  qed
  obtain d2 where d2: "dictSetVal d1 l w = Some d2" "dict_upd d1 ((dict_map d1)(k \<mapsto> Some w)) d2"
    using dictSetVal_spec[OF dict_updD(1)[OF d1(2)] d1(3)] nv dict_updD(3)[OF d1(2)] by auto
  have "dict_upd d ((dict_map d)(k \<mapsto> Some w)) d2"
    using dict_upd_trans[OF d1(2) d2(2)] dict_updD(2)[OF d1(2)] by simp
  then show ?thesis using d1(1) d2(1) by (auto simp: dictReplace_def)
qed

lemma dictGenericDelete_spec:
  assumes inv: "dict_inv d"
  shows "\<exists>d'. dictGenericDelete can_resize d k = Some (d', map_option (Pair k) (dict_map d k)) \<and>
    dict_upd d ((dict_map d)(k := None)) d'"
proof (cases "dictSize d = 0")
  case True
  then show ?thesis
    using dict_same_upd[OF inv dict_same_refl[OF inv]] dict_empty_map[OF inv] by (simp add: dictGenericDelete_def fun_upd_idem)
next
  case False
  let ?i = "dict_idx d k (ht_size_exp (ht0 d))"
  obtain d1 r where d1: "dictRehashStepIfNeeded can_resize d ?i = Some d1" "dict_same d d1"
      "tables_search d1 k ?i = Some r"
      "case r of Some l \<Rightarrow> \<exists>v. at_link d1 l k v \<and> dict_map d k = Some v | None \<Rightarrow> dict_map d k = None"
    using step_and_search[OF inv False] by blast
  show ?thesis
  proof (cases r)
    case None
    then show ?thesis
      using d1 False dict_same_upd[OF inv d1(2)] by (simp add: dictGenericDelete_def fun_upd_idem)
  next
    case (Some l)
    then obtain v where v: "at_link d1 l k v" "dict_map d k = Some v" using d1(4) by auto
    obtain d2 where d2: "unlink_at d1 l = Some (d2, (k, v))" "dict_upd d1 ((dict_map d1)(k := None)) d2"
      using unlink_at_spec[OF dict_sameD(1)[OF d1(2)] v(1)] by blast
    obtain d3 where d3: "dictAutoShrinkIfNeeded can_resize d2 = Some d3" "dict_same d2 d3"
      using dictAutoShrinkIfNeeded_spec[OF dict_updD(1)[OF d2(2)]] by blast
    have "dict_upd d ((dict_map d)(k := None)) d3"
      using same_dict_upd[OF d1(2) dict_upd_same[OF d2(2) d3(2)]] dict_same_map[OF inv d1(2)] by simp
    then show ?thesis using d1 d2(1) d3(1) v(2) Some False by (simp add: dictGenericDelete_def)
  qed
qed


subsection \<open>The dictionary as a map\<close>

text \<open>Maintenance the server performs on a dictionary between commands.\<close>

datatype dict_work = WRehash dictResizeEnable nat | WExpand dictResizeEnable nat | WShrink dictResizeEnable

fun dict_do_work :: "dict_work \<Rightarrow> ('k, 'v) dict \<Rightarrow> ('k, 'v) dict option" where
  "dict_do_work (WRehash can_resize n) d = map_option fst (dictRehash can_resize d n)"
| "dict_do_work (WExpand can_resize sz) d = map_option fst (dictExpand can_resize d sz)"
| "dict_do_work (WShrink can_resize) d = map_option fst (dictShrinkIfNeeded can_resize d)"

definition dict_impl :: "(dictResizeEnable, dict_work, 'k, 'v, ('k, 'v) dict) map_impl" where
  "dict_impl = \<lparr>m_add = dictAdd, m_put = dictReplace, m_del = dictDelete, m_get = dictFetchValue,
     m_work = dict_do_work\<rparr>"

definition dict_vals :: "('k, 'v) dict \<Rightarrow> 'k \<rightharpoonup> 'v" where
  "dict_vals d k = Option.bind (dict_map d k) id"

text \<open>A dictionary whose entries all carry values and which may grow.\<close>

definition kv_inv :: "('k, 'v) dict \<Rightarrow> bool" where
  "kv_inv d \<longleftrightarrow> dict_inv d \<and> \<not> no_value (d_type d) \<and> pauseAutoResize d \<le> 0 \<and> None \<notin> ran (dict_map d)"

lemma kv_inv_upd: "kv_inv d \<Longrightarrow> dict_upd d f d' \<Longrightarrow> None \<notin> ran f \<Longrightarrow> kv_inv d'"
  by (simp add: kv_inv_def dict_upd_def)

lemma dict_vals_None: "kv_inv d \<Longrightarrow> dict_vals d k = None \<longleftrightarrow> dict_map d k = None"
  by (cases "dict_map d k") (auto simp: dict_vals_def kv_inv_def ran_def intro: option.exhaust)

lemma kv_inv_same:
  assumes "kv_inv d" "dict_same d d'"
  shows "kv_inv d'" "dict_vals d' = dict_vals d"
  using assms dict_same_map[of d d'] by (auto simp: kv_inv_def dict_same_def dict_vals_def)

lemma ran_upd_None: "None \<notin> ran f \<Longrightarrow> None \<notin> ran (f(k := Some (Some w)))" "None \<notin> ran f \<Longrightarrow> None \<notin> ran (f(k := None))"
  by (auto simp: ran_def)

lemma dict_do_work_spec: "dict_inv d \<Longrightarrow> \<exists>d'. dict_do_work w d = Some d' \<and> dict_same d d'"
proof (cases w)
  case (WRehash cr n)
  then show "dict_inv d \<Longrightarrow> ?thesis" using dictRehash_one[of d cr n] by auto
next
  case (WExpand cr sz)
  then show "dict_inv d \<Longrightarrow> ?thesis" using dictExpand_spec[of d cr sz] by auto
next
  case (WShrink cr)
  then show "dict_inv d \<Longrightarrow> ?thesis" using dictShrink_spec[of d cr "ht_used (ht0 d)"]
    by (auto simp: dictShrinkIfNeeded_def dict_same_refl)
qed

interpretation dmap: adaptive_map dict_impl dict_vals kv_inv
proof (unfold_locales, goal_cases)
  case (1 d e k v)
  then have D: "dict_inv d" "pauseAutoResize d \<le> 0 \<or> dictSize d \<noteq> 0" "\<not> no_value (d_type d)" "None \<notin> ran (dict_map d)"
    by (auto simp: kv_inv_def)
  show ?case
    using dictAdd_spec[OF D(1-3), of e k v] kv_inv_upd[OF 1] ran_upd_None(1)[OF D(4)] D(4) dict_vals_None[OF 1]
    by (fastforce simp: dict_impl_def dict_vals_def fun_eq_iff dest: dict_updD(2))
next
  case (2 d e k v)
  then have D: "dict_inv d" "pauseAutoResize d \<le> 0 \<or> dictSize d \<noteq> 0" "\<not> no_value (d_type d)" "None \<notin> ran (dict_map d)"
    by (auto simp: kv_inv_def)
  show ?case
    using dictReplace_spec[OF D(1-3), of e k v] kv_inv_upd[OF 2] ran_upd_None(1)[OF D(4)] dict_vals_None[OF 2]
    by (fastforce simp: dict_impl_def dict_vals_def fun_eq_iff dest: dict_updD(2))
next
  case (3 d e k)
  then have D: "dict_inv d" "None \<notin> ran (dict_map d)" by (auto simp: kv_inv_def)
  show ?case
    using dictGenericDelete_spec[OF D(1), of e k] kv_inv_upd[OF 3] ran_upd_None(2)[OF D(2)] dict_vals_None[OF 3]
    by (fastforce simp: dict_impl_def dict_vals_def dictDelete_def fun_eq_iff dest: dict_updD(2))
next
  case (4 d e k)
  then have D: "dict_inv d" by (simp add: kv_inv_def)
  show ?case
    using dictFind_spec[OF D, of e k] kv_inv_same[OF 4]
    by (cases "dict_map d k") (auto simp: dict_impl_def dictFetchValue_def dict_vals_def fun_eq_iff)
next
  case (5 d w)
  then have D: "dict_inv d" by (simp add: kv_inv_def)
  show ?case using dict_do_work_spec[OF D, of w] kv_inv_same[OF 5] by (auto simp: dict_impl_def)
qed

lemma dictCreate_inv: "dict_inv (dictCreate ty)" "dict_map (dictCreate ty) = Map.empty"
  by (simp_all add: dictCreate_def dict_inv_def dictIsRehashing_def dict_entries_def dict_map_def)

lemma kv_inv_dictCreate: "\<not> no_value ty \<Longrightarrow> kv_inv (dictCreate ty)"
  by (simp add: kv_inv_def dictCreate_inv) (simp add: dictCreate_def)

lemma dict_vals_dictCreate: "dict_vals (dictCreate ty) = Map.empty"
  by (simp add: dict_vals_def dictCreate_inv fun_eq_iff)

subsection \<open>Two-phase deletion\<close>

lemma pauserehash_upd [simp]:
  "dict_inv (d\<lparr>pauserehash := n\<rparr>) = dict_inv d" "dict_map (d\<lparr>pauserehash := n\<rparr>) = dict_map d"
  "at_link (d\<lparr>pauserehash := n\<rparr>) l k v = at_link d l k v"
proof -
  show "at_link (d\<lparr>pauserehash := n\<rparr>) l k v = at_link d l k v"
    by (cases l) (simp add: live_table_def ht_get_def dictIsRehashing_def)
qed (simp_all add: dict_inv_def dict_map_def dict_entries_def dictIsRehashing_def)

lemma dictTwoPhaseUnlinkFind_spec:
  assumes inv: "dict_inv d"
  shows "\<exists>d' r. dictTwoPhaseUnlinkFind can_resize d k = Some (d', r) \<and> dict_inv d' \<and> dict_map d' = dict_map d \<and>
    d_type d' = d_type d \<and> pauseAutoResize d' = pauseAutoResize d \<and>
    (case r of Some l \<Rightarrow> \<exists>v. at_link d' l k v \<and> dict_map d k = Some v \<and> pauserehash d' = pauserehash d + 1
     | None \<Rightarrow> dict_map d k = None \<and> pauserehash d' = pauserehash d)"
proof (cases "dictSize d = 0")
  case True
  then show ?thesis using inv dict_empty_map[OF inv] by (auto simp: dictTwoPhaseUnlinkFind_def)
next
  case False
  obtain d1 where d1: "(if dictIsRehashing d then dictRehashStep can_resize d else Some d) = Some d1" "dict_same d d1"
    using dictRehash_one[OF inv, of can_resize 1] dict_same_refl[OF inv]
    by (cases "dictIsRehashing d \<and> pauserehash d = 0") (auto simp: dictRehashStep_def)
  note inv1 = dict_sameD(1)[OF d1(2)] and map1 = dict_same_map[OF inv d1(2)]
  have "dict_entries d1 \<noteq> []" using dict_same_size[OF inv d1(2)] dictSize_eq(1)[OF inv1] False by auto
  then have ok: "ht_ok (d_type d1) (ht0 d1)" by (rule dict_inv_ht0(3)[OF inv1])
  obtain r where r: "tables_search d1 k (dict_idx d1 k (ht_size_exp (ht0 d1))) = Some r"
      "case r of Some l \<Rightarrow> \<exists>v. at_link d1 l k v | None \<Rightarrow> dict_map d1 k = None"
    using tables_search_spec[OF inv1 ok] by (auto simp: idx_valid_def simp del: at_link.simps)
  show ?thesis
  proof (cases r)
    case None
    then show ?thesis
      using False d1 r inv1 map1 dict_sameD[OF d1(2)] by (auto simp: dictTwoPhaseUnlinkFind_def)
  next
    case (Some l)
    then obtain v where v: "at_link d1 l k v" using r(2) by auto
    have "dictTwoPhaseUnlinkFind can_resize d k = Some (d1\<lparr>pauserehash := pauserehash d1 + 1\<rparr>, Some l)"
      using False d1(1) r(1) Some by (simp add: dictTwoPhaseUnlinkFind_def)
    then show ?thesis
      using v inv1 map1 dict_sameD[OF d1(2)] at_link_map[OF inv1 v] by (auto simp del: at_link.simps)
  qed
qed

lemma dictTwoPhaseUnlinkFree_spec:
  assumes inv: "dict_inv d" and l: "at_link d l k v"
  shows "\<exists>d'. dictTwoPhaseUnlinkFree can_resize d (Some l) = Some d' \<and> dict_inv d' \<and>
    dict_map d' = (dict_map d)(k := None) \<and> d_type d' = d_type d \<and>
    pauserehash d' = pauserehash d - 1 \<and> pauseAutoResize d' = pauseAutoResize d"
proof -
  obtain d1 where d1: "unlink_at d l = Some (d1, (k, v))" "dict_upd d ((dict_map d)(k := None)) d1"
    using unlink_at_spec[OF assms] by blast
  obtain d2 where d2: "dictAutoShrinkIfNeeded can_resize d1 = Some d2" "dict_same d1 d2"
    using dictAutoShrinkIfNeeded_spec[OF dict_updD(1)[OF d1(2)]] by blast
  have "dict_upd d ((dict_map d)(k := None)) d2" using dict_upd_same[OF d1(2) d2(2)] .
  then show ?thesis using d1(1) d2(1) by (simp add: dictTwoPhaseUnlinkFree_def dict_upd_def)
qed

subsection \<open>Table sizes\<close>

lemma bit_length_spec: "x < 2 ^ bit_length x" "0 < x \<Longrightarrow> 2 ^ (bit_length x - 1) \<le> x"
proof -
  have "x < 2 ^ bit_length x \<and> (0 < x \<longrightarrow> 2 ^ bit_length x \<le> 2 * x)"
  proof (induction x rule: bit_length.induct)
    case (1 x)
    show ?case
    proof (cases "x < 2")
      case True
      then have "x = 0 \<or> x = 1" by auto
      then show ?thesis by (auto simp: bit_length.simps[of 0] bit_length.simps[of "Suc 0"])
    next
      case False
      then show ?thesis using 1 bit_length.simps[of x] by simp linarith
    qed
  qed
  moreover have "0 < x \<Longrightarrow> 0 < bit_length x" by (simp add: bit_length.simps[of x])
  ultimately show "x < 2 ^ bit_length x" "0 < x \<Longrightarrow> 2 ^ (bit_length x - 1) \<le> x"
    by (auto simp: power_eq_if[of 2 "bit_length x"])
qed


lemma dictNextExp_spec:
  assumes "sz < 2 ^ 63 - 1"
  shows "sz \<le> DICTHT_SIZE (dictNextExp sz)" "4 < sz \<Longrightarrow> DICTHT_SIZE (dictNextExp sz) < 2 * sz"
    "DICT_HT_INITIAL_SIZE \<le> DICTHT_SIZE (dictNextExp sz)"
proof -
  have e: "DICTHT_SIZE (dictNextExp sz) = (if sz \<le> 4 then 4 else 2 ^ bit_length (sz - 1))"
    using assms by (simp add: dictNextExp_def dict_consts DICTHT_SIZE_def)
  have lt: "sz - 1 < 2 ^ bit_length (sz - 1)" by (rule bit_length_spec)
  then show "sz \<le> DICTHT_SIZE (dictNextExp sz)" unfolding e by auto
  show "DICT_HT_INITIAL_SIZE \<le> DICTHT_SIZE (dictNextExp sz)" using lt unfolding e dict_consts by auto
  assume "4 < sz"
  then have "2 ^ (bit_length (sz - 1) - 1) \<le> sz - 1" "0 < bit_length (sz - 1)"
    using bit_length_spec[of "sz - 1"] \<open>4 < sz\<close> by (auto intro: gr0I)
  then show "DICTHT_SIZE (dictNextExp sz) < 2 * sz"
    using \<open>4 < sz\<close> unfolding e by (subst power_eq_if) auto
qed

subsection \<open>Properties\<close>

lemma dom_dict_vals: "kv_inv d \<Longrightarrow> dom (dict_vals d) = dom (dict_map d)"
  using dict_vals_None[of d] by (auto simp: dom_def)

text \<open>
  C4: starting from \<open>dictCreate\<close>, any sequence of add, replace, delete, fetch and maintenance calls
  (incremental rehashing, explicit expansion, shrinking), each under any resize policy, runs without a failed
  assertion or an access outside a table and answers exactly as a finite map does; the
  size is the number of keys.
\<close>

theorem dict_run_correct:
  assumes "\<not> no_value ty"
  shows "\<exists>d rs. run_map_ops dict_impl (dictCreate ty) ops = Some (d, rs) \<and> dict_inv d \<and>
    (dict_vals d, rs) = abs_map_ops Map.empty ops \<and> dictSize d = card (dom (dict_vals d))"
proof -
  obtain d rs where d: "run_map_ops dict_impl (dictCreate ty) ops = Some (d, rs)" "kv_inv d"
      "(dict_vals d, rs) = abs_map_ops Map.empty ops"
    using dmap.run_refines[OF kv_inv_dictCreate[OF assms], of ops] by (auto simp: dict_vals_dictCreate)
  moreover have "dict_inv d" using d(2) by (simp add: kv_inv_def)
  ultimately show ?thesis using dictSize_eq(2) dom_dict_vals[OF d(2)] by metis
qed

definition example_type :: "nat dictType" where
  "example_type = \<lparr>hashFunction = of_nat, resizeAllowed = None, no_value = False, force_full_rehash = False\<rparr>"

theorem dict_run_correct_witness:
  "\<not> no_value example_type \<and>
   (\<exists>d rs. run_map_ops dict_impl (dictCreate example_type)
        [MapPut DICT_RESIZE_ENABLE 1 True, MapAdd DICT_RESIZE_AVOID 5 False, MapWork (WExpand DICT_RESIZE_ENABLE 20),
         MapGet DICT_RESIZE_ENABLE 5, MapDel DICT_RESIZE_FORBID 1] = Some (d, rs) \<and>
     dictSize d = 1 \<and> rs = [Done True, Done True, Worked, Got (Some False), Done True])"
proof -
  have nv: "\<not> no_value example_type" by (simp add: example_type_def)
  obtain d rs where d: "run_map_ops dict_impl (dictCreate example_type)
        [MapPut DICT_RESIZE_ENABLE 1 True, MapAdd DICT_RESIZE_AVOID 5 False, MapWork (WExpand DICT_RESIZE_ENABLE 20),
         MapGet DICT_RESIZE_ENABLE 5, MapDel DICT_RESIZE_FORBID 1] = Some (d, rs)"
      "(dict_vals d, rs) = abs_map_ops Map.empty
        [MapPut DICT_RESIZE_ENABLE 1 True, MapAdd DICT_RESIZE_AVOID 5 False, MapWork (WExpand DICT_RESIZE_ENABLE 20),
         MapGet DICT_RESIZE_ENABLE 5, MapDel DICT_RESIZE_FORBID 1]"
      "dictSize d = card (dom (dict_vals d))"
    using dict_run_correct[OF nv] by blast
  from d(2) have "dict_vals d = [5 \<mapsto> False]" "rs = [Done True, Done True, Worked, Got (Some False), Done True]"
    by (auto simp: fun_eq_iff)
  with d nv show ?thesis by auto
qed


definition example_dict :: "(nat, bool) dict" where
  "example_dict = \<lparr>d_type = example_type,
     ht0 = \<lparr>ht_table = [[], [(5, Some False), (1, Some True)], [], []], ht_used = 2, ht_size_exp = 2\<rparr>,
     ht1 = \<lparr>ht_table = [[], [], [], [], [], [], [], []], ht_used = 0, ht_size_exp = 3\<rparr>,
     rehashidx = 0, pauserehash = 0, pauseAutoResize = 0\<rparr>"

lemma example_dict_inv: "dict_inv example_dict" "dictIsRehashing example_dict"
  "\<not> dictRehash_blocked DICT_RESIZE_ENABLE example_dict"
  by (auto simp: example_dict_def example_type_def dict_inv_def dictIsRehashing_def ht_ok_def ht_entries_def
      dict_entries_def less_Suc_eq numeral_eq_Suc dictRehash_blocked_def take_bit_eq_mod)


text \<open>
  C19: the loop that rehashes completely ends: one call more than the old table has buckets is
  enough, and the result is a dictionary with the same map that no longer rehashes.
\<close>

theorem dictRehash_terminates:
  assumes "dict_inv d" "\<not> dictRehash_blocked can_resize d"
  shows "\<exists>d'. dictRehash_all (Suc (DICTHT_SIZE (ht_size_exp (ht0 d)))) can_resize d = Some d' \<and>
    dict_inv d' \<and> dict_map d' = dict_map d \<and> \<not> dictIsRehashing d'"
proof -
  have rh: "dictIsRehashing d" using assms(2) by (simp add: dictRehash_blocked_def Let_def)
  have "int (DICTHT_SIZE (ht_size_exp (ht0 d))) - rehashidx d < int (Suc (DICTHT_SIZE (ht_size_exp (ht0 d))))"
    using dict_inv_rehashD(3)[OF assms(1) rh] by simp
  then show ?thesis
    using dict_full_rehash_ok[OF assms(1) rh] assms(2) dict_same_map[OF assms(1)] dict_sameD(1) by metis
qed

theorem dictRehash_terminates_witness:
  "\<exists>d'. dictRehash_all 5 DICT_RESIZE_ENABLE example_dict = Some d' \<and> \<not> dictIsRehashing d'"
  using dictRehash_terminates[OF example_dict_inv(1,3)] by (auto simp: example_dict_def DICTHT_SIZE_def)

text \<open>
  \<open>dictAddRaw\<close> returns a link to the entry of the key, new or existing, adds the key exactly
  when it was absent and leaves the other keys alone. It needs a table that exists or may be created.
\<close>

theorem dictAddRaw_correct:
  assumes "dict_inv d" "pauseAutoResize d \<le> 0 \<or> dictSize d \<noteq> 0"
  shows "\<exists>d' l. dictAddRaw can_resize d k = Some (d', if dict_map d k = None then Inr l else Inl l) \<and>
    dict_inv d' \<and> dict_map d' = (if dict_map d k = None then (dict_map d)(k \<mapsto> None) else dict_map d) \<and>
    link_entry d' l = Some (k, Option.bind (dict_map d k) id)"
proof (cases "dict_map d k")
  case None
  then show ?thesis
    using dictAddRaw_spec[OF assms, of can_resize k] at_link_entry dict_updD by fastforce
next
  case (Some v)
  then show ?thesis
    using dictAddRaw_spec[OF assms, of can_resize k] at_link_entry dict_same_map[OF assms(1)] dict_sameD(1) by fastforce
qed

theorem dictAddRaw_correct_witness:
  "dict_inv example_dict \<and> (\<exists>d' l. dictAddRaw DICT_RESIZE_ENABLE example_dict 9 = Some (d', Inr l) \<and>
     dict_map d' 9 = Some None \<and> dict_map d' 5 = Some (Some False))"
proof -
  have m: "dict_map example_dict 9 = None" "dict_map example_dict 5 = Some (Some False)"
    by (simp_all add: dict_map_def dict_entries_def ht_entries_def example_dict_def)
  show ?thesis
    using dictAddRaw_correct[OF example_dict_inv(1), of DICT_RESIZE_ENABLE 9] example_dict_inv(1) m
    by (auto simp: example_dict_def[THEN arg_cong, of pauseAutoResize])
qed

text \<open>
  \<open>dictUnlink\<close> returns the entry of the key and removes exactly it; \<open>dictDelete\<close> tells whether it existed.
\<close>

theorem dictDelete_correct:
  assumes "dict_inv d"
  shows "\<exists>d'. dictUnlink can_resize d k = Some (d', map_option (Pair k) (dict_map d k)) \<and>
    dictDelete can_resize d k = Some (d', k \<in> dom (dict_map d)) \<and>
    dict_inv d' \<and> dict_map d' = (dict_map d)(k := None)"
  using dictGenericDelete_spec[OF assms, of can_resize k]
  by (auto simp: dictUnlink_def dictDelete_def dict_upd_def dom_def)

theorem dictDelete_correct_witness:
  "dict_inv example_dict \<and> (\<exists>d'. dictDelete DICT_RESIZE_AVOID example_dict 5 = Some (d', True) \<and> dict_map d' 5 = None)"
  using dictDelete_correct[OF example_dict_inv(1), of DICT_RESIZE_AVOID 5] example_dict_inv(1)
  by (auto simp: dict_map_def[of example_dict] dict_entries_def ht_entries_def dom_def)
     (auto simp: example_dict_def)

text \<open>
  C23: two-phase deletion. The find phase leaves the map unchanged and pauses rehashing while the link
  is out; freeing the link deletes exactly that key and resumes rehashing.
\<close>

theorem dictTwoPhaseUnlink_correct:
  assumes "dict_inv d"
  shows "\<exists>d1 l d2. dictTwoPhaseUnlinkFind can_resize d k = Some (d1, l) \<and>
    dict_map d1 = dict_map d \<and> pauserehash d1 = pauserehash d + (if l = None then 0 else 1) \<and>
    (case l of None \<Rightarrow> dict_map d k = None | Some l \<Rightarrow> link_entry d1 l = map_option (Pair k) (dict_map d k)) \<and>
    dictTwoPhaseUnlinkFree can_resize d1 l = Some d2 \<and> dict_inv d2 \<and>
    dict_map d2 = (dict_map d)(k := None) \<and> pauserehash d2 = pauserehash d"
proof -
  obtain d1 r where d1: "dictTwoPhaseUnlinkFind can_resize d k = Some (d1, r)" "dict_inv d1"
      "dict_map d1 = dict_map d"
      "case r of Some l \<Rightarrow> \<exists>v. at_link d1 l k v \<and> dict_map d k = Some v \<and> pauserehash d1 = pauserehash d + 1
       | None \<Rightarrow> dict_map d k = None \<and> pauserehash d1 = pauserehash d"
    using dictTwoPhaseUnlinkFind_spec[OF assms] by blast
  show ?thesis
  proof (cases r)
    case None
    then show ?thesis using d1 by (auto simp: dictTwoPhaseUnlinkFree_def)
  next
    case (Some l)
    then obtain v where v: "at_link d1 l k v" "dict_map d k = Some v" "pauserehash d1 = pauserehash d + 1"
      using d1(4) by auto
    then show ?thesis
      using d1(1,3) Some dictTwoPhaseUnlinkFree_spec[OF d1(2) v(1), of can_resize] at_link_entry[OF v(1)] by auto
  qed
qed

theorem dictTwoPhaseUnlink_correct_witness:
  "dict_inv example_dict \<and> (\<exists>d1 l d2. dictTwoPhaseUnlinkFind DICT_RESIZE_ENABLE example_dict 5 = Some (d1, l) \<and>
     dictTwoPhaseUnlinkFree DICT_RESIZE_ENABLE d1 l = Some d2 \<and> dict_map d2 5 = None)"
  using dictTwoPhaseUnlink_correct[OF example_dict_inv(1), of DICT_RESIZE_ENABLE 5] example_dict_inv(1)
  by fastforce

text \<open>
  A resize either refuses and changes nothing, or keeps map and invariant with a new table
  that holds at least the requested number of buckets, less than twice as many above the minimum.
\<close>

theorem dictExpand_correct:
  assumes "dict_inv d" "sz < 2 ^ 60"
  shows "\<exists>d' ok. dictExpand can_resize d sz = Some (d', ok) \<and> dict_inv d' \<and> dict_map d' = dict_map d \<and>
    (\<not> ok \<longrightarrow> d' = d) \<and>
    (ok \<longrightarrow> sz \<le> DICTHT_SIZE (target_exp d') \<and> (4 < sz \<longrightarrow> DICTHT_SIZE (target_exp d') < 2 * sz))"
proof -
  obtain d' ok where d': "dictExpand can_resize d sz = Some (d', ok)" "dict_same d d'" "\<not> ok \<longrightarrow> d' = d"
      "ok \<longrightarrow> target_exp d' = dictNextExp sz"
    using dictExpand_spec[OF assms(1), of can_resize sz] by metis
  have lt: "sz < 2 ^ 63 - 1" using assms(2) by simp
  show ?thesis
    using d' dict_same_map[OF assms(1) d'(2)] dict_sameD(1)[OF d'(2)] dictNextExp_spec(1,2)[OF lt] by metis
qed

theorem dictExpand_correct_witness:
  "dict_inv (dictCreate example_type) \<and>
   (\<exists>d' ok. dictExpand DICT_RESIZE_ENABLE (dictCreate example_type) 10 = Some (d', ok) \<and> dict_inv d')"
  using dictExpand_correct[OF dictCreate_inv(1), of 10 DICT_RESIZE_ENABLE example_type] dictCreate_inv(1) by auto

end
