(* ===== verification/Kvstore.thy ===== *)
theory Kvstore
  imports Dict Fwtree
begin

text \<open>
  \<open>src/kvstore.c\<close>: an array of dictionaries (one per hash slot in cluster mode) with the number of
  keys, of non-empty dictionaries and of allocated ones, and a Fenwick tree of the dictionary sizes that
  finds the dictionary of the n-th key. Built on the models of \<open>dict.c\<close> and \<open>fwtree.c\<close>.

  The resize policy \<open>dict_can_resize\<close>, the callback \<open>canFreeDict\<close>, the skip callbacks and the random numbers are
  arguments. The bucket statistics, the list of rehashing dictionaries and the metadata, all maintained
  through notification callbacks of \<open>dict.c\<close>, are not represented.
\<close>

subsection \<open>Data\<close>

record ('k, 'v) kvstore =
  kvs_on_demand :: bool
  kvs_free_empty :: bool
  kvs_dtype :: "'k dictType"
  kvs_dicts :: "('k, 'v) dict option list"
  num_dicts :: int
  num_dicts_bits :: nat
  resize_cursor :: int
  allocated_dicts :: int
  non_empty_dicts :: int
  key_count :: u64
  dict_sizes :: "fenwickTree option"

text \<open>\<^term>\<open>Some None\<close> is a null entry of the array; \<^term>\<open>None\<close> an access outside of it.\<close>

definition kvstoreGetDict :: "('k, 'v) kvstore \<Rightarrow> int \<Rightarrow> ('k, 'v) dict option option" where
  "kvstoreGetDict kvs didx = arr_get (kvs_dicts kvs) didx"

definition kvstorePutDict :: "('k, 'v) kvstore \<Rightarrow> int \<Rightarrow> ('k, 'v) dict option \<Rightarrow> ('k, 'v) kvstore option" where
  "kvstorePutDict kvs didx d = map_option (\<lambda>ds. kvs\<lparr>kvs_dicts := ds\<rparr>) (arr_set (kvs_dicts kvs) didx d)"

definition kvstoreDictIsRehashingPaused :: "('k, 'v) kvstore \<Rightarrow> int \<Rightarrow> bool option" where
  "kvstoreDictIsRehashingPaused kvs didx =
     do { d \<leftarrow> kvstoreGetDict kvs didx;
          Some (case d of Some d \<Rightarrow> pauserehash d > 0 | None \<Rightarrow> False) }"

definition kvstoreDictSize :: "('k, 'v) kvstore \<Rightarrow> int \<Rightarrow> nat option" where
  "kvstoreDictSize kvs didx =
     do { d \<leftarrow> kvstoreGetDict kvs didx; Some (case d of None \<Rightarrow> 0 | Some d \<Rightarrow> dictSize d) }"

definition kvstoreSize :: "('k, 'v) kvstore \<Rightarrow> u64" where
  "kvstoreSize kvs = key_count kvs"

subsection \<open>Scan cursors\<close>

definition addDictIndexToCursor :: "('k, 'v) kvstore \<Rightarrow> int \<Rightarrow> u64 \<Rightarrow> u64" where
  "addDictIndexToCursor kvs didx cursor =
     (if num_dicts kvs = 1 then cursor
      else if didx < 0 then cursor
      else push_bit (num_dicts_bits kvs) cursor OR word_of_int didx)"

definition getAndClearDictIndexFromCursor :: "('k, 'v) kvstore \<Rightarrow> u64 \<Rightarrow> int \<times> u64" where
  "getAndClearDictIndexFromCursor kvs cursor =
     (if num_dicts kvs = 1 then (0, cursor)
      else (uint (cursor AND word_of_int (num_dicts kvs - 1)), drop_bit (num_dicts_bits kvs) cursor))"

subsection \<open>Counting\<close>

definition cumulativeKeyCountAdd :: "('k, 'v) kvstore \<Rightarrow> int \<Rightarrow> int \<Rightarrow> ('k, 'v) kvstore option" where
  "cumulativeKeyCountAdd kvs didx delta =
     do {
       let kvs = kvs\<lparr>key_count := key_count kvs + word_of_int delta\<rparr>;
       dp \<leftarrow> kvstoreGetDict kvs didx;
       d \<leftarrow> dp;
       let dsize = dictSize d;
       let non_empty_dicts_delta = (if dsize = 1 \<and> delta > 0 then 1 else if dsize = 0 then -1 else 0);
       let kvs = kvs\<lparr>non_empty_dicts := non_empty_dicts kvs + non_empty_dicts_delta\<rparr>;
       if num_dicts kvs = 1 then Some kvs
       else do {
         ft \<leftarrow> dict_sizes kvs;
         ft \<leftarrow> fwTreeUpdate ft didx (word_of_int delta);
         Some (kvs\<lparr>dict_sizes := Some ft\<rparr>)
       }
     }"

definition createDictIfNeeded :: "('k, 'v) kvstore \<Rightarrow> int \<Rightarrow> (('k, 'v) kvstore \<times> ('k, 'v) dict) option" where
  "createDictIfNeeded kvs didx =
     do {
       dp \<leftarrow> kvstoreGetDict kvs didx;
       case dp of
         Some d \<Rightarrow> Some (kvs, d)
       | None \<Rightarrow> do {
           let d = dictCreate (kvs_dtype kvs);
           kvs \<leftarrow> kvstorePutDict kvs didx (Some d);
           Some (kvs\<lparr>allocated_dicts := allocated_dicts kvs + 1\<rparr>, d)
         }
     }"

definition freeDictIfNeeded :: "(int \<Rightarrow> bool) option \<Rightarrow> ('k, 'v) kvstore \<Rightarrow> int \<Rightarrow> ('k, 'v) kvstore option" where
  "freeDictIfNeeded canFreeDict kvs didx =
     do {
       dp \<leftarrow> kvstoreGetDict kvs didx;
       sz \<leftarrow> kvstoreDictSize kvs didx;
       paused \<leftarrow> kvstoreDictIsRehashingPaused kvs didx;
       if \<not> kvs_free_empty kvs \<or> dp = None \<or> sz \<noteq> 0 \<or> paused then Some kvs
       else if (case canFreeDict of Some f \<Rightarrow> \<not> f didx | None \<Rightarrow> False) then Some kvs
       else do {
         kvs \<leftarrow> kvstorePutDict kvs didx None;
         Some (kvs\<lparr>allocated_dicts := allocated_dicts kvs - 1\<rparr>)
       }
     }"

subsection \<open>Creation and clearing\<close>

primrec create_dicts :: "nat \<Rightarrow> ('k, 'v) kvstore \<Rightarrow> ('k, 'v) kvstore option" where
  "create_dicts 0 kvs = Some kvs"
| "create_dicts (Suc i) kvs =
     do { kvs \<leftarrow> create_dicts i kvs; (kvs, _) \<leftarrow> createDictIfNeeded kvs (int i); Some kvs }"

definition kvstoreCreate :: "'k dictType \<Rightarrow> nat \<Rightarrow> bool \<Rightarrow> bool \<Rightarrow> ('k, 'v) kvstore option" where
  "kvstoreCreate dtype bits on_demand free_empty =
     (if \<not> bits \<le> 16 then None
      else do {
        let n = 2 ^ bits;
        let kvs = \<lparr>kvs_on_demand = on_demand, kvs_free_empty = free_empty, kvs_dtype = dtype,
          kvs_dicts = replicate (nat n) None, num_dicts = n, num_dicts_bits = bits, resize_cursor = 0,
          allocated_dicts = 0, non_empty_dicts = 0, key_count = 0,
          dict_sizes = (if n > 1 then Some (fwTreeCreate bits) else None)\<rparr>;
        if \<not> on_demand then create_dicts (nat n) kvs else Some kvs
      })"

primrec empty_dicts :: "(int \<Rightarrow> bool) option \<Rightarrow> nat \<Rightarrow> ('k, 'v) kvstore \<Rightarrow> ('k, 'v) kvstore option" where
  "empty_dicts canFreeDict 0 kvs = Some kvs"
| "empty_dicts canFreeDict (Suc didx) kvs =
     do {
       kvs \<leftarrow> empty_dicts canFreeDict didx kvs;
       dp \<leftarrow> kvstoreGetDict kvs (int didx);
       case dp of
         None \<Rightarrow> Some kvs
       | Some d \<Rightarrow> do {
           kvs \<leftarrow> kvstorePutDict kvs (int didx) (Some (dictEmpty d));
           freeDictIfNeeded canFreeDict kvs (int didx)
         }
     }"

definition kvstoreEmpty :: "(int \<Rightarrow> bool) option \<Rightarrow> ('k, 'v) kvstore \<Rightarrow> ('k, 'v) kvstore option" where
  "kvstoreEmpty canFreeDict kvs =
     do {
       kvs \<leftarrow> empty_dicts canFreeDict (nat (num_dicts kvs)) kvs;
       Some (kvs\<lparr>key_count := 0, non_empty_dicts := 0, resize_cursor := 0,
                 dict_sizes := map_option fwTreeClear (dict_sizes kvs)\<rparr>)
     }"

subsection \<open>Finding dictionaries\<close>

definition kvstoreFindDictIndexByKeyIndex :: "('k, 'v) kvstore \<Rightarrow> u64 \<Rightarrow> int option" where
  "kvstoreFindDictIndexByKeyIndex kvs target =
     (if num_dicts kvs = 1 \<or> kvstoreSize kvs = 0 then Some 0
      else if \<not> target \<le> kvstoreSize kvs then None
      else do { ft \<leftarrow> dict_sizes kvs; fwTreeFindIndex ft target })"

definition kvstoreGetFirstNonEmptyDictIndex :: "('k, 'v) kvstore \<Rightarrow> int option" where
  "kvstoreGetFirstNonEmptyDictIndex kvs =
     (if kvstoreSize kvs = 0 then Some (-1)
      else if num_dicts kvs = 1 then Some 0
      else do { ft \<leftarrow> dict_sizes kvs; fwTreeFindFirstNonEmpty ft })"

definition kvstoreGetNextNonEmptyDictIndex :: "('k, 'v) kvstore \<Rightarrow> int \<Rightarrow> int option" where
  "kvstoreGetNextNonEmptyDictIndex kvs didx =
     (if num_dicts kvs = 1 then if didx = 0 then Some (-1) else None
      else do { ft \<leftarrow> dict_sizes kvs; fwTreeFindNextNonEmpty ft didx })"

text \<open>The attempts of \<open>kvstoreGetFairRandomDictIndex\<close>, one random number each.\<close>

primrec fair_attempts_loop :: "('k, 'v) kvstore \<Rightarrow> (int \<Rightarrow> bool) option \<Rightarrow> u64 list \<Rightarrow> int option option" where
  "fair_attempts_loop kvs skip_cb [] = Some None"
| "fair_attempts_loop kvs skip_cb (r # rs) =
     do {
       let target = (r mod kvstoreSize kvs) + 1;
       didx \<leftarrow> kvstoreFindDictIndexByKeyIndex kvs target;
       if (case skip_cb of None \<Rightarrow> True | Some f \<Rightarrow> \<not> f didx) then Some (Some didx)
       else fair_attempts_loop kvs skip_cb rs
     }"

text \<open>The systematic search from a random start; \<open>n\<close> indices remain.\<close>

primrec fallback_loop :: "nat \<Rightarrow> int \<Rightarrow> ('k, 'v) kvstore \<Rightarrow> (int \<Rightarrow> bool) option \<Rightarrow> int option" where
  "fallback_loop 0 start kvs skip_cb = Some (-1)"
| "fallback_loop (Suc n) start kvs skip_cb =
     do {
       let didx = (start + (num_dicts kvs - int (Suc n))) mod num_dicts kvs;
       dp \<leftarrow> kvstoreGetDict kvs didx;
       if dp \<noteq> None \<and> (case skip_cb of None \<Rightarrow> True | Some f \<Rightarrow> \<not> f didx) then Some didx
       else fallback_loop n start kvs skip_cb
     }"

definition kvstoreGetFairRandomDictIndex ::
  "('k, 'v) kvstore \<Rightarrow> (int \<Rightarrow> bool) option \<Rightarrow> u64 list \<Rightarrow> u64 option \<Rightarrow> int option" where
  "kvstoreGetFairRandomDictIndex kvs skip_cb fair slow_fallback =
     (if num_dicts kvs = 1 \<or> kvstoreSize kvs = 0 then Some 0
      else do {
        r \<leftarrow> fair_attempts_loop kvs skip_cb fair;
        case r of
          Some didx \<Rightarrow> Some didx
        | None \<Rightarrow>
            (case slow_fallback of
               Some rnd \<Rightarrow> fallback_loop (nat (num_dicts kvs)) (int (unat rnd) mod num_dicts kvs) kvs skip_cb
             | None \<Rightarrow> Some (-1))
      })"

subsection \<open>Operations on one dictionary\<close>

definition kvstoreDictExpand ::
  "dictResizeEnable \<Rightarrow> ('k, 'v) kvstore \<Rightarrow> int \<Rightarrow> nat \<Rightarrow> (('k, 'v) kvstore \<times> bool) option" where
  "kvstoreDictExpand can_resize kvs didx sz =
     do {
       (kvs, d) \<leftarrow> createDictIfNeeded kvs didx;
       (d, ok) \<leftarrow> dictExpand can_resize d sz;
       kvs \<leftarrow> kvstorePutDict kvs didx (Some d);
       Some (kvs, ok)
     }"

definition kvstoreDictFetchValue ::
  "dictResizeEnable \<Rightarrow> ('k, 'v) kvstore \<Rightarrow> int \<Rightarrow> 'k \<Rightarrow> (('k, 'v) kvstore \<times> 'v option) option" where
  "kvstoreDictFetchValue can_resize kvs didx key =
     do {
       dp \<leftarrow> kvstoreGetDict kvs didx;
       case dp of
         None \<Rightarrow> Some (kvs, None)
       | Some d \<Rightarrow>
           if no_value (d_type d) then None
           else do {
             (d, v) \<leftarrow> dictFetchValue can_resize d key;
             kvs \<leftarrow> kvstorePutDict kvs didx (Some d);
             Some (kvs, v)
           }
     }"

definition kvstoreDictFind ::
  "dictResizeEnable \<Rightarrow> ('k, 'v) kvstore \<Rightarrow> int \<Rightarrow> 'k \<Rightarrow> (('k, 'v) kvstore \<times> ('k, 'v) entry option) option" where
  "kvstoreDictFind can_resize kvs didx key =
     do {
       dp \<leftarrow> kvstoreGetDict kvs didx;
       case dp of
         None \<Rightarrow> Some (kvs, None)
       | Some d \<Rightarrow> do {
           (d, e) \<leftarrow> dictFind can_resize d key;
           kvs \<leftarrow> kvstorePutDict kvs didx (Some d);
           Some (kvs, e)
         }
     }"

definition kvstoreDictAddRaw ::
  "dictResizeEnable \<Rightarrow> ('k, 'v) kvstore \<Rightarrow> int \<Rightarrow> 'k \<Rightarrow> (('k, 'v) kvstore \<times> (link + link)) option" where
  "kvstoreDictAddRaw can_resize kvs didx key =
     do {
       (kvs, d) \<leftarrow> createDictIfNeeded kvs didx;
       (d, ret) \<leftarrow> dictAddRaw can_resize d key;
       kvs \<leftarrow> kvstorePutDict kvs didx (Some d);
       kvs \<leftarrow> (case ret of Inr _ \<Rightarrow> cumulativeKeyCountAdd kvs didx 1 | Inl _ \<Rightarrow> Some kvs);
       Some (kvs, ret)
     }"

definition kvstoreDictSetVal :: "('k, 'v) kvstore \<Rightarrow> int \<Rightarrow> link \<Rightarrow> 'v \<Rightarrow> ('k, 'v) kvstore option" where
  "kvstoreDictSetVal kvs didx de val =
     do {
       dp \<leftarrow> kvstoreGetDict kvs didx;
       d \<leftarrow> dp;
       d \<leftarrow> (if no_value (d_type d) then None else dictSetVal d de val);
       kvstorePutDict kvs didx (Some d)
     }"

definition kvstoreDictTwoPhaseUnlinkFind ::
  "dictResizeEnable \<Rightarrow> ('k, 'v) kvstore \<Rightarrow> int \<Rightarrow> 'k \<Rightarrow> (('k, 'v) kvstore \<times> link option) option" where
  "kvstoreDictTwoPhaseUnlinkFind can_resize kvs didx key =
     do {
       dp \<leftarrow> kvstoreGetDict kvs didx;
       case dp of
         None \<Rightarrow> Some (kvs, None)
       | Some d \<Rightarrow> do {
           (d, l) \<leftarrow> dictTwoPhaseUnlinkFind can_resize d key;
           kvs \<leftarrow> kvstorePutDict kvs didx (Some d);
           Some (kvs, l)
         }
     }"

definition kvstoreDictTwoPhaseUnlinkFree ::
  "dictResizeEnable \<Rightarrow> (int \<Rightarrow> bool) option \<Rightarrow> ('k, 'v) kvstore \<Rightarrow> int \<Rightarrow> link option \<Rightarrow> ('k, 'v) kvstore option" where
  "kvstoreDictTwoPhaseUnlinkFree can_resize canFreeDict kvs didx l =
     do {
       dp \<leftarrow> kvstoreGetDict kvs didx;
       d \<leftarrow> dp;
       d \<leftarrow> dictTwoPhaseUnlinkFree can_resize d l;
       kvs \<leftarrow> kvstorePutDict kvs didx (Some d);
       kvs \<leftarrow> cumulativeKeyCountAdd kvs didx (-1);
       freeDictIfNeeded canFreeDict kvs didx
     }"

definition kvstoreDictDelete ::
  "dictResizeEnable \<Rightarrow> (int \<Rightarrow> bool) option \<Rightarrow> ('k, 'v) kvstore \<Rightarrow> int \<Rightarrow> 'k \<Rightarrow> (('k, 'v) kvstore \<times> bool) option" where
  "kvstoreDictDelete can_resize canFreeDict kvs didx key =
     do {
       dp \<leftarrow> kvstoreGetDict kvs didx;
       case dp of
         None \<Rightarrow> Some (kvs, False)
       | Some d \<Rightarrow> do {
           (d, ok) \<leftarrow> dictDelete can_resize d key;
           kvs \<leftarrow> kvstorePutDict kvs didx (Some d);
           if ok then do {
             kvs \<leftarrow> cumulativeKeyCountAdd kvs didx (-1);
             kvs \<leftarrow> freeDictIfNeeded canFreeDict kvs didx;
             Some (kvs, True)
           }
           else Some (kvs, False)
         }
     }"

subsection \<open>Operations on the whole store\<close>

primrec expand_loop ::
  "nat \<Rightarrow> dictResizeEnable \<Rightarrow> (int \<Rightarrow> bool) option \<Rightarrow> nat \<Rightarrow> ('k, 'v) kvstore \<Rightarrow> ('k, 'v) kvstore option" where
  "expand_loop 0 can_resize skip_cb newsize kvs = Some kvs"
| "expand_loop (Suc i) can_resize skip_cb newsize kvs =
     do {
       kvs \<leftarrow> expand_loop i can_resize skip_cb newsize kvs;
       if (case skip_cb of Some f \<Rightarrow> f (int i) | None \<Rightarrow> False) then Some kvs
       else do {
         (kvs, d) \<leftarrow> createDictIfNeeded kvs (int i);
         (d, _) \<leftarrow> dictExpand can_resize d newsize;
         kvstorePutDict kvs (int i) (Some d)
       }
     }"

text \<open>\<open>kvstoreExpand\<close> with \<open>try_expand = 0\<close>; it then returns 1.\<close>

definition kvstoreExpand ::
  "dictResizeEnable \<Rightarrow> (int \<Rightarrow> bool) option \<Rightarrow> ('k, 'v) kvstore \<Rightarrow> nat \<Rightarrow> ('k, 'v) kvstore option" where
  "kvstoreExpand can_resize skip_cb kvs newsize = expand_loop (nat (num_dicts kvs)) can_resize skip_cb newsize kvs"

primrec resize_loop :: "nat \<Rightarrow> dictResizeEnable \<Rightarrow> ('k, 'v) kvstore \<Rightarrow> ('k, 'v) kvstore option" where
  "resize_loop 0 can_resize kvs = Some kvs"
| "resize_loop (Suc n) can_resize kvs =
     do {
       let didx = resize_cursor kvs;
       dp \<leftarrow> kvstoreGetDict kvs didx;
       kvs \<leftarrow>
         (case dp of
            None \<Rightarrow> Some kvs
          | Some d \<Rightarrow> do {
              (d, ok) \<leftarrow> dictShrinkIfNeeded can_resize d;
              d \<leftarrow> (if \<not> ok then map_option fst (dictExpandIfNeeded can_resize d) else Some d);
              kvstorePutDict kvs didx (Some d)
            });
       resize_loop n can_resize (kvs\<lparr>resize_cursor := (didx + 1) mod num_dicts kvs\<rparr>)
     }"

definition kvstoreTryResizeDicts :: "dictResizeEnable \<Rightarrow> ('k, 'v) kvstore \<Rightarrow> int \<Rightarrow> ('k, 'v) kvstore option" where
  "kvstoreTryResizeDicts can_resize kvs limit =
     (let limit = (if limit > num_dicts kvs then num_dicts kvs else limit) in
      resize_loop (nat limit) can_resize kvs)"

text \<open>\<open>kvstoreMoveDict\<close>: the result is the source and the destination.\<close>

definition kvstoreMoveDict ::
  "('k, 'v) kvstore \<Rightarrow> ('k, 'v) kvstore \<Rightarrow> int \<Rightarrow> (('k, 'v) kvstore \<times> ('k, 'v) kvstore) option" where
  "kvstoreMoveDict kvs dst didx =
     (if \<not> num_dicts kvs > didx \<or> num_dicts kvs \<noteq> num_dicts dst then None
      else do {
        ddp \<leftarrow> kvstoreGetDict dst didx;
        if ddp \<noteq> None then None
        else do {
          dp \<leftarrow> kvstoreGetDict kvs didx;
          case dp of
            None \<Rightarrow> Some (kvs, dst)
          | Some d \<Rightarrow> do {
              let kvs = kvs\<lparr>allocated_dicts := allocated_dicts kvs - 1\<rparr>;
              kvs \<leftarrow> cumulativeKeyCountAdd kvs didx (- int (dictSize d));
              kvs \<leftarrow> kvstorePutDict kvs didx None;
              kvs \<leftarrow> (if \<not> kvs_on_demand kvs \<and> \<not> kvs_free_empty kvs
                      then map_option fst (createDictIfNeeded kvs didx) else Some kvs);
              dst \<leftarrow> kvstorePutDict dst didx (Some (d\<lparr>d_type := kvs_dtype dst\<rparr>));
              let dst = dst\<lparr>allocated_dicts := allocated_dicts dst + 1\<rparr>;
              dst \<leftarrow> cumulativeKeyCountAdd dst didx (int (dictSize d));
              Some (kvs, dst)
            }
        }
      })"

subsection \<open>The invariant\<close>

definition slot_size :: "('k, 'v) dict option \<Rightarrow> nat" where
  "slot_size dp = (case dp of None \<Rightarrow> 0 | Some d \<Rightarrow> dictSize d)"

lemma slot_size_simps [simp]: "slot_size None = 0" "slot_size (Some d) = dictSize d"
  by (simp_all add: slot_size_def)

text \<open>Shape: the array, and a well-formed dictionary in every allocated slot.\<close>

definition kvs_core :: "('k, 'v) kvstore \<Rightarrow> bool" where
  "kvs_core kvs \<longleftrightarrow> num_dicts_bits kvs \<le> 16 \<and> num_dicts kvs = 2 ^ num_dicts_bits kvs \<and>
     length (kvs_dicts kvs) = 2 ^ num_dicts_bits kvs \<and> 0 \<le> resize_cursor kvs \<and> resize_cursor kvs < num_dicts kvs \<and>
     (\<forall>d. Some d \<in> set (kvs_dicts kvs) \<longrightarrow> dict_inv d \<and> d_type d = kvs_dtype kvs \<and> pauseAutoResize d \<le> 0) \<and>
     allocated_dicts kvs = int (length (filter (\<lambda>dp. dp \<noteq> None) (kvs_dicts kvs)))"

text \<open>Counters: they describe dictionaries of the sizes \<open>sz\<close>.\<close>

definition kvs_counts :: "('k, 'v) kvstore \<Rightarrow> nat list \<Rightarrow> bool" where
  "kvs_counts kvs sz \<longleftrightarrow> sum_list sz < 2 ^ 63 \<and> key_count kvs = of_nat (sum_list sz) \<and>
     non_empty_dicts kvs = int (length (filter (\<lambda>n. 0 < n) sz)) \<and>
     (num_dicts kvs \<noteq> 1 \<longrightarrow> (\<exists>ft. dict_sizes kvs = Some ft \<and> ft_size_bits ft = num_dicts_bits kvs \<and>
        fw_rep ft (\<lambda>i. of_nat (sz ! nat i))))"

definition kvs_ok :: "('k, 'v) kvstore \<Rightarrow> bool" where
  "kvs_ok kvs \<longleftrightarrow> kvs_core kvs \<and> kvs_counts kvs (map slot_size (kvs_dicts kvs))"

text \<open>The keys of the store, by slot.\<close>

definition kvs_map :: "('k, 'v) kvstore \<Rightarrow> nat \<Rightarrow> 'k \<rightharpoonup> 'v option" where
  "kvs_map kvs i = (case kvs_dicts kvs ! i of None \<Rightarrow> Map.empty | Some d \<Rightarrow> dict_map d)"

definition total_keys :: "('k, 'v) kvstore \<Rightarrow> nat" where
  "total_keys kvs = sum_list (map slot_size (kvs_dicts kvs))"

subsection \<open>Lists of counters\<close>

lemma length_filter_update:
  "i < length xs \<Longrightarrow> length (filter P (xs[i := v])) + (if P (xs ! i) then 1 else 0) =
     length (filter P xs) + (if P v then 1 else 0)"
proof (induction xs arbitrary: i)
  case (Cons x xs)
  then show ?case by (cases i) auto
qed simp

lemma sum_list_update_nat: "i < length (xs :: nat list) \<Longrightarrow> sum_list (xs[i := v]) + xs ! i = sum_list xs + v"
proof (induction xs arbitrary: i)
  case (Cons x xs)
  then show ?case by (cases i) auto
qed simp

lemma fw_sum_list: "fw_sum (\<lambda>j. f (sz ! nat j)) 0 (int (length sz)) = (\<Sum>n\<leftarrow>sz. (f n :: nat))"
proof -
  have "fw_sum (\<lambda>j. f (sz ! nat j)) 0 (int (length sz)) = (\<Sum>j\<in>int ` {0..<length sz}. f (sz ! nat j))"
    by (simp add: fw_sum_def image_int_atLeastLessThan)
  also have "\<dots> = (\<Sum>j = 0..<length sz. f (sz ! j))" by (subst sum.reindex) auto
  also have "\<dots> = (\<Sum>n\<leftarrow>sz. f n)" by (simp add: sum_list_sum_nth)
  finally show ?thesis .
qed

lemma elem_le_sum: "i < length (sz :: nat list) \<Longrightarrow> sz ! i \<le> sum_list sz"
  by (simp add: elem_le_sum_list)

lemma fw_exact_sizes:
  assumes "sum_list sz < 2 ^ 64" "ft_size ft = int (length sz)"
  shows "fw_exact ft (\<lambda>i. of_nat (sz ! nat i))"
proof -
  have "(\<Sum>n\<leftarrow>sz. unat (of_nat n :: u64)) = sum_list sz"
  proof -
    have "unat (of_nat n :: u64) = n" if "n \<in> set sz" for n
    proof -
      have "n < 2 ^ 64" using member_le_sum_list[OF that] assms(1) by simp
      then show ?thesis by (simp add: unat_of_nat)
    qed
    then show ?thesis by (metis (mono_tags, lifting) map_idI)
  qed
  then show ?thesis
    using assms fw_sum_list[of "\<lambda>n. unat (of_nat n :: u64)" sz] by (simp add: fw_exact_def)
qed

lemma fw_rep_cong:
  assumes "\<And>j. 0 \<le> j \<Longrightarrow> j < ft_size ft \<Longrightarrow> a j = b j"
  shows "fw_rep ft a = fw_rep ft b"
proof -
  have "fw_sum a (i - lowbit i) i = fw_sum b (i - lowbit i) i" if "1 \<le> i" "i \<le> ft_size ft" for i
    unfolding fw_sum_def using that lowbit_pos[of i] by (intro sum.cong) (auto intro!: assms)
  moreover have "fw_sum a 0 (ft_size ft) = fw_sum b 0 (ft_size ft)"
    unfolding fw_sum_def by (intro sum.cong) (auto intro!: assms)
  ultimately show ?thesis by (auto simp: fw_rep_def)
qed

subsection \<open>Counting keys\<close>

lemma kvs_coreD:
  assumes "kvs_core kvs"
  shows "length (kvs_dicts kvs) = nat (num_dicts kvs)" "num_dicts kvs = 2 ^ num_dicts_bits kvs" "0 < num_dicts kvs"
    "num_dicts_bits kvs \<le> 16"
    "\<And>d i. i < length (kvs_dicts kvs) \<Longrightarrow> kvs_dicts kvs ! i = Some d \<Longrightarrow>
       dict_inv d \<and> d_type d = kvs_dtype kvs \<and> pauseAutoResize d \<le> 0"
proof -
  show "dict_inv d \<and> d_type d = kvs_dtype kvs \<and> pauseAutoResize d \<le> 0"
    if "i < length (kvs_dicts kvs)" "kvs_dicts kvs ! i = Some d" for d i
    using assms that nth_mem[OF that(1)] by (auto simp: kvs_core_def)
qed (use assms in \<open>auto simp: kvs_core_def nat_power_eq\<close>)

text \<open>Only the counters change.\<close>

definition same_dicts :: "('k, 'v) kvstore \<Rightarrow> ('k, 'v) kvstore \<Rightarrow> bool" where
  "same_dicts kvs kvs' \<longleftrightarrow> kvs_on_demand kvs' = kvs_on_demand kvs \<and> kvs_free_empty kvs' = kvs_free_empty kvs \<and>
     kvs_dtype kvs' = kvs_dtype kvs \<and> kvs_dicts kvs' = kvs_dicts kvs \<and> num_dicts kvs' = num_dicts kvs \<and>
     num_dicts_bits kvs' = num_dicts_bits kvs \<and> resize_cursor kvs' = resize_cursor kvs \<and>
     allocated_dicts kvs' = allocated_dicts kvs"

lemma same_dictsD:
  assumes "same_dicts kvs kvs'"
  shows "kvs_dicts kvs' = kvs_dicts kvs" "kvs_core kvs' = kvs_core kvs" "kvs_free_empty kvs' = kvs_free_empty kvs"
  using assms by (auto simp: same_dicts_def kvs_core_def)

lemma cumulativeKeyCountAdd_spec:
  assumes core: "kvs_core kvs" and cnt: "kvs_counts kvs sz" and len: "length sz = length (kvs_dicts kvs)"
    and i: "i < length sz" and d: "kvs_dicts kvs ! i = Some d"
    and delta: "delta = 1 \<and> dictSize d = sz ! i + 1 \<and> sum_list sz + 1 < 2 ^ 63 \<or> delta = -1 \<and> dictSize d + 1 = sz ! i"
  shows "\<exists>kvs'. cumulativeKeyCountAdd kvs (int i) delta = Some kvs' \<and> same_dicts kvs kvs' \<and>
    kvs_counts kvs' (sz[i := dictSize d])"
proof -
  let ?sz' = "sz[i := dictSize d]" and ?w = "word_of_int delta :: u64"
  have S: "sum_list ?sz' + sz ! i = sum_list sz + dictSize d" by (rule sum_list_update_nat[OF i])
  have F: "length (filter (\<lambda>n. 0 < n) ?sz') + (if 0 < sz ! i then 1 else 0) =
      length (filter (\<lambda>n. 0 < n) sz) + (if 0 < dictSize d then 1 else 0)"
    by (rule length_filter_update[OF i])
  have add: "of_nat (m + n) + ?w = (of_nat (m + n') :: u64)" if "n = sz ! i" "n' = dictSize d" for m n n'
  proof -
    have "delta = 1 \<and> n' = n + 1 \<or> delta = -1 \<and> n = n' + 1" using delta that by auto
    then show ?thesis by auto
  qed
  have key: "(of_nat (sum_list sz) :: u64) + ?w = of_nat (sum_list ?sz')"
  proof -
    have "delta = 1 \<and> sum_list ?sz' = sum_list sz + 1 \<or> delta = -1 \<and> sum_list sz = sum_list ?sz' + 1"
      using delta S by auto
    then show ?thesis by auto
  qed
  have small: "sum_list ?sz' < 2 ^ 63" using delta S cnt by (auto simp: kvs_counts_def)
  have ne: "non_empty_dicts kvs + (if dictSize d = 1 \<and> delta > 0 then 1 else if dictSize d = 0 then -1 else 0) =
      int (length (filter (\<lambda>n. 0 < n) ?sz'))"
    using delta F cnt by (auto simp: kvs_counts_def split: if_splits)
  have get: "kvstoreGetDict (kvs\<lparr>key_count := c\<rparr>) (int i) = Some (Some d)" for c
    using i d len by (simp add: kvstoreGetDict_def arr_get_def)
  show ?thesis
  proof (cases "num_dicts kvs = 1")
    case True
    then show ?thesis
      using get ne key small cnt
      by (auto simp: cumulativeKeyCountAdd_def same_dicts_def kvs_counts_def Let_def intro!: exI)
  next
    case False
    obtain ft where ft: "dict_sizes kvs = Some ft" "ft_size_bits ft = num_dicts_bits kvs"
        "fw_rep ft (\<lambda>j. of_nat (sz ! nat j))"
      using cnt False by (auto simp: kvs_counts_def)
    have sz: "ft_size ft = int (length sz)"
      using ft(2,3) kvs_coreD(1,2,3)[OF core] len by (simp add: fw_rep_def)
    have "- ?w \<le> of_nat (sz ! i)" if "sint ?w < 0"
    proof -
      have "delta = -1" using that delta by auto
      moreover have "sz ! i < 2 ^ 64" using elem_le_sum[OF i] cnt by (simp add: kvs_counts_def)
      moreover have "1 \<le> sz ! i" using delta \<open>delta = -1\<close> by auto
      ultimately show ?thesis by (simp add: word_le_nat_alt unat_of_nat)
    qed
    then obtain ft' where ft': "fwTreeUpdate ft (int i) ?w = Some ft'"
        "fw_rep ft' ((\<lambda>j. of_nat (sz ! nat j))(int i := of_nat (sz ! i) + ?w))" "ft_size_bits ft' = ft_size_bits ft"
      using fwTreeUpdate_spec[OF ft(3), of "int i" ?w] sz i fw_exact_sizes[of sz ft] cnt
      by (auto simp: kvs_counts_def)
    have "fw_rep ft' (\<lambda>j. of_nat (?sz' ! nat j)) =
        fw_rep ft' ((\<lambda>j. of_nat (sz ! nat j))(int i := of_nat (sz ! i) + ?w))"
      using i add[of "sz ! i" "dictSize d" 0] by (intro fw_rep_cong) (auto simp: nth_list_update)
    then have "fw_rep ft' (\<lambda>j. of_nat (?sz' ! nat j))" using ft'(2) by simp
    then show ?thesis
      using False get ne key small cnt ft(1,2) ft'(1,3)
      by (auto simp: cumulativeKeyCountAdd_def same_dicts_def kvs_counts_def Let_def intro!: exI)
  qed
qed

subsection \<open>Replacing a dictionary\<close>

lemma filter_Some_update:
  assumes "i < length xs" "xs ! i \<noteq> None"
  shows "length (filter (\<lambda>dp. dp \<noteq> None) (xs[i := Some d])) = length (filter (\<lambda>dp. dp \<noteq> None) xs)"
  using length_filter_update[OF assms(1), of "\<lambda>dp. dp \<noteq> None" "Some d"] assms(2) by simp

lemma kvs_core_put:
  assumes core: "kvs_core kvs" and i: "i < length (kvs_dicts kvs)" "kvs_dicts kvs ! i \<noteq> None"
    and d: "dict_inv d" "d_type d = kvs_dtype kvs" "pauseAutoResize d \<le> 0"
  shows "kvs_core (kvs\<lparr>kvs_dicts := (kvs_dicts kvs)[i := Some d]\<rparr>)"
  using core d filter_Some_update[OF i, of d] set_update_subset_insert[of "kvs_dicts kvs" i "Some d"]
  by (auto simp: kvs_core_def)

lemma map_size_update: "map slot_size (xs[i := dp]) = (map slot_size xs)[i := slot_size dp]"
  by (simp add: map_update)

lemma put_Some: "i < length (kvs_dicts kvs) \<Longrightarrow>
    kvstorePutDict kvs (int i) dp = Some (kvs\<lparr>kvs_dicts := (kvs_dicts kvs)[i := dp]\<rparr>)"
  by (simp add: kvstorePutDict_def arr_set_def)

lemma get_Some: "i < length (kvs_dicts kvs) \<Longrightarrow> kvstoreGetDict kvs (int i) = Some (kvs_dicts kvs ! i)"
  by (simp add: kvstoreGetDict_def arr_get_def)

lemma kvs_counts_dicts [simp]: "kvs_counts (kvs\<lparr>kvs_dicts := ds\<rparr>) sz = kvs_counts kvs sz"
  by (simp add: kvs_counts_def)

lemma kvs_counts_alloc [simp]: "kvs_counts (kvs\<lparr>allocated_dicts := n\<rparr>) sz = kvs_counts kvs sz"
  by (simp add: kvs_counts_def)

text \<open>A dictionary exchanged for one of the same size.\<close>

lemma kvs_ok_same_size:
  assumes ok: "kvs_ok kvs" and i: "i < length (kvs_dicts kvs)" "kvs_dicts kvs ! i = Some d"
    and d': "dict_inv d'" "d_type d' = kvs_dtype kvs" "pauseAutoResize d' \<le> 0" "dictSize d' = dictSize d"
  shows "kvs_ok (kvs\<lparr>kvs_dicts := (kvs_dicts kvs)[i := Some d']\<rparr>)"
proof -
  have "(map slot_size (kvs_dicts kvs))[i := dictSize d'] = map slot_size (kvs_dicts kvs)"
    using i d'(4) by (metis length_map list_update_id nth_map slot_size_simps(2))
  then show ?thesis
    using ok kvs_core_put[of kvs i d'] i d' by (auto simp: kvs_ok_def map_size_update)
qed

text \<open>A dictionary exchanged for one with a key more or less, and counted.\<close>

lemma kvs_ok_count:
  assumes ok: "kvs_ok kvs" and i: "i < length (kvs_dicts kvs)" "kvs_dicts kvs ! i = Some d"
    and d': "dict_inv d'" "d_type d' = kvs_dtype kvs" "pauseAutoResize d' \<le> 0"
    and delta: "delta = 1 \<and> dictSize d' = dictSize d + 1 \<and> total_keys kvs + 1 < 2 ^ 63 \<or>
      delta = -1 \<and> dictSize d' + 1 = dictSize d"
  shows "\<exists>kvs'. cumulativeKeyCountAdd (kvs\<lparr>kvs_dicts := (kvs_dicts kvs)[i := Some d']\<rparr>) (int i) delta = Some kvs' \<and>
    kvs_ok kvs' \<and> kvs_dicts kvs' = (kvs_dicts kvs)[i := Some d'] \<and> kvs_free_empty kvs' = kvs_free_empty kvs"
proof -
  let ?k = "kvs\<lparr>kvs_dicts := (kvs_dicts kvs)[i := Some d']\<rparr>" and ?sz = "map slot_size (kvs_dicts kvs)"
  have core: "kvs_core ?k" using ok i d' kvs_core_put[of kvs i d'] by (simp add: kvs_ok_def)
  have szi: "?sz ! i = dictSize d" using i by simp
  have pre: "kvs_counts ?k ?sz" "length ?sz = length (kvs_dicts ?k)" "i < length ?sz" "kvs_dicts ?k ! i = Some d'"
    "delta = 1 \<and> dictSize d' = ?sz ! i + 1 \<and> sum_list ?sz + 1 < 2 ^ 63 \<or> delta = -1 \<and> dictSize d' + 1 = ?sz ! i"
    using ok i delta szi by (auto simp: kvs_ok_def total_keys_def)
  obtain kvs' where k': "cumulativeKeyCountAdd ?k (int i) delta = Some kvs'" "same_dicts ?k kvs'"
      "kvs_counts kvs' (?sz[i := dictSize d'])"
    using cumulativeKeyCountAdd_spec[OF core pre] by blast
  then show ?thesis
    using core same_dictsD[OF k'(2)] by (auto simp: kvs_ok_def map_size_update)
qed

lemma kvs_map_update:
  assumes "i < length (kvs_dicts kvs)" "kvs_dicts kvs' = (kvs_dicts kvs)[i := dp]"
  shows "kvs_map kvs' = (kvs_map kvs)(i := (case dp of None \<Rightarrow> Map.empty | Some d \<Rightarrow> dict_map d))"
  using assms by (auto simp: kvs_map_def fun_eq_iff nth_list_update)

subsection \<open>Allocation and release of dictionaries\<close>

lemma createDictIfNeeded_spec:
  assumes ok: "kvs_ok kvs" and i: "i < length (kvs_dicts kvs)"
  shows "\<exists>kvs' d. createDictIfNeeded kvs (int i) = Some (kvs', d) \<and> kvs_ok kvs' \<and>
    kvs_dicts kvs' = (kvs_dicts kvs)[i := Some d] \<and> kvs_map kvs' = kvs_map kvs \<and> dict_map d = kvs_map kvs i \<and>
    total_keys kvs' = total_keys kvs"
proof (cases "kvs_dicts kvs ! i")
  case (Some d)
  then have "(kvs_dicts kvs)[i := Some d] = kvs_dicts kvs" by (metis list_update_id)
  then show ?thesis
    using Some ok i by (simp add: createDictIfNeeded_def get_Some kvs_map_def)
next
  case None
  let ?d = "dictCreate (kvs_dtype kvs) :: ('a, 'b) dict"
  let ?k = "kvs\<lparr>kvs_dicts := (kvs_dicts kvs)[i := Some ?d], allocated_dicts := allocated_dicts kvs + 1\<rparr>"
  have run: "createDictIfNeeded kvs (int i) = Some (?k, ?d)"
    using None i by (simp add: createDictIfNeeded_def get_Some put_Some Let_def)
  have d: "dictSize ?d = 0" "dict_map ?d = Map.empty" "dict_inv ?d"
    using dictCreate_inv[of "kvs_dtype kvs"] by (simp_all add: dictSize_def dictCreate_def dictReset_def dictCreate_inv)
  have sz: "map slot_size ((kvs_dicts kvs)[i := Some ?d]) = map slot_size (kvs_dicts kvs)"
    using None d(1) i by (simp add: map_size_update) (metis length_map list_update_id nth_map slot_size_simps(1))
  have "length (filter (\<lambda>dp. dp \<noteq> None) ((kvs_dicts kvs)[i := Some ?d])) =
      length (filter (\<lambda>dp. dp \<noteq> None) (kvs_dicts kvs)) + 1"
    using length_filter_update[OF i, of "\<lambda>dp. dp \<noteq> None" "Some ?d"] None by simp
  then have "kvs_core ?k"
    using ok d(3) set_update_subset_insert[of "kvs_dicts kvs" i "Some ?d"]
    by (auto simp: kvs_ok_def kvs_core_def dictCreate_def)
  then have "kvs_ok ?k" using ok sz by (simp add: kvs_ok_def)
  moreover have "kvs_map ?k = kvs_map kvs"
    using kvs_map_update[OF i, of ?k "Some ?d"] d(2) None by (auto simp: kvs_map_def fun_eq_iff)
  moreover have "total_keys ?k = total_keys kvs" using sz by (simp add: total_keys_def)
  moreover have "dict_map ?d = kvs_map kvs i" using d(2) None by (simp add: kvs_map_def)
  ultimately show ?thesis using run by auto
qed

lemma freeDictIfNeeded_spec:
  assumes ok: "kvs_ok kvs" and i: "i < length (kvs_dicts kvs)"
  shows "\<exists>kvs'. freeDictIfNeeded canFreeDict kvs (int i) = Some kvs' \<and> kvs_ok kvs' \<and> kvs_map kvs' = kvs_map kvs \<and>
    total_keys kvs' = total_keys kvs"
proof (cases "\<not> kvs_free_empty kvs \<or> kvs_dicts kvs ! i = None \<or> slot_size (kvs_dicts kvs ! i) \<noteq> 0 \<or>
    (case kvs_dicts kvs ! i of Some d \<Rightarrow> pauserehash d > 0 | None \<Rightarrow> False) \<or>
    (case canFreeDict of Some f \<Rightarrow> \<not> f (int i) | None \<Rightarrow> False)")
  case True
  then have "freeDictIfNeeded canFreeDict kvs (int i) = Some kvs"
    using i by (auto simp: freeDictIfNeeded_def get_Some kvstoreDictSize_def kvstoreDictIsRehashingPaused_def
        slot_size_def split: option.splits)
  then show ?thesis using ok by simp
next
  case False
  then obtain d where d: "kvs_dicts kvs ! i = Some d" "dictSize d = 0" by auto
  let ?k = "kvs\<lparr>kvs_dicts := (kvs_dicts kvs)[i := None], allocated_dicts := allocated_dicts kvs - 1\<rparr>"
  have run: "freeDictIfNeeded canFreeDict kvs (int i) = Some ?k"
    using i False d by (auto simp: freeDictIfNeeded_def get_Some put_Some kvstoreDictSize_def
        kvstoreDictIsRehashingPaused_def)
  have sz: "map slot_size ((kvs_dicts kvs)[i := None]) = map slot_size (kvs_dicts kvs)"
    using d i by (simp add: map_size_update) (metis length_map list_update_id nth_map slot_size_simps(2))
  have "length (filter (\<lambda>dp. dp \<noteq> None) ((kvs_dicts kvs)[i := None])) + 1 =
      length (filter (\<lambda>dp. dp \<noteq> None) (kvs_dicts kvs))"
    using length_filter_update[OF i, of "\<lambda>dp. dp \<noteq> None" None] d(1) by simp
  then have "kvs_core ?k"
    using ok set_update_subset_insert[of "kvs_dicts kvs" i None] by (auto simp: kvs_ok_def kvs_core_def)
  then have "kvs_ok ?k" using ok sz by (simp add: kvs_ok_def)
  moreover have "dict_map d = Map.empty"
    using d kvs_coreD(5)[of kvs i d] ok i dict_empty_map by (auto simp: kvs_ok_def)
  then have "kvs_map ?k = kvs_map kvs"
    using kvs_map_update[OF i, of ?k None] d(1) by (auto simp: kvs_map_def fun_eq_iff)
  moreover have "total_keys ?k = total_keys kvs" using sz by (simp add: total_keys_def)
  ultimately show ?thesis using run by auto
qed

subsection \<open>Keys\<close>

lemma upd_size:
  assumes "dict_inv d" "dict_upd d f d'"
  shows "dictSize d' = card (dom f)" "dictSize d = card (dom (dict_map d))" "finite (dom (dict_map d))"
  using assms dictSize_eq(2) by (auto simp: dict_upd_def dict_map_def finite_dom_map_of)

lemma slot_dict:
  assumes "kvs_ok kvs" "i < length (kvs_dicts kvs)" "kvs_dicts kvs ! i = Some d"
  shows "dict_inv d" "d_type d = kvs_dtype kvs" "pauseAutoResize d \<le> 0" "dict_map d = kvs_map kvs i"
  using assms kvs_coreD(5)[of kvs i d] by (auto simp: kvs_ok_def kvs_map_def)

lemma kvstoreDictAddRaw_spec:
  assumes ok: "kvs_ok kvs" and i: "i < length (kvs_dicts kvs)" and room: "total_keys kvs + 1 < 2 ^ 63"
  shows "\<exists>kvs' l. kvstoreDictAddRaw can_resize kvs (int i) k =
      Some (kvs', if kvs_map kvs i k = None then Inr l else Inl l) \<and> kvs_ok kvs' \<and>
    kvs_map kvs' = (if kvs_map kvs i k = None then (kvs_map kvs)(i := (kvs_map kvs i)(k \<mapsto> None)) else kvs_map kvs)"
proof -
  obtain k1 d where k1: "createDictIfNeeded kvs (int i) = Some (k1, d)" "kvs_ok k1"
      "kvs_dicts k1 = (kvs_dicts kvs)[i := Some d]" "kvs_map k1 = kvs_map kvs" "dict_map d = kvs_map kvs i"
      "total_keys k1 = total_keys kvs"
    using createDictIfNeeded_spec[OF ok i] by blast
  have i1: "i < length (kvs_dicts k1)" "kvs_dicts k1 ! i = Some d" using i k1(3) by auto
  note D = slot_dict[OF k1(2) i1]
  show ?thesis
  proof (cases "kvs_map kvs i k")
    case None
    then obtain d' l where d': "dictAddRaw can_resize d k = Some (d', Inr l)" "dict_upd d ((dict_map d)(k \<mapsto> None)) d'"
      using dictAddRaw_spec[OF D(1), of can_resize k] D(3) k1(5) by (auto split: option.splits)
    have "dictSize d' = dictSize d + 1"
      using upd_size[OF D(1) d'(2)] None k1(5) by (simp add: card_insert_disjoint domIff)
    then obtain kvs' where k': "cumulativeKeyCountAdd (k1\<lparr>kvs_dicts := (kvs_dicts k1)[i := Some d']\<rparr>) (int i) 1 = Some kvs'"
        "kvs_ok kvs'" "kvs_dicts kvs' = (kvs_dicts k1)[i := Some d']"
      using kvs_ok_count[OF k1(2) i1, of d' 1] d'(2) D room k1(6) by (auto simp: dict_upd_def)
    have "kvs_map kvs' = (kvs_map kvs)(i := (kvs_map kvs i)(k \<mapsto> None))"
      using kvs_map_update[OF i1(1) k'(3)] dict_updD(2)[OF d'(2)] k1(4,5) by simp
    moreover have "kvstoreDictAddRaw can_resize kvs (int i) k = Some (kvs', Inr l)"
      using k1(1) d'(1) k' put_Some[OF i1(1)] by (simp add: kvstoreDictAddRaw_def)
    ultimately show ?thesis using k'(2) None by (intro exI[of _ kvs'] exI[of _ l]) simp
  next
    case (Some v)
    then obtain d' l where d': "dictAddRaw can_resize d k = Some (d', Inl l)" "dict_same d d'"
      using dictAddRaw_spec[OF D(1), of can_resize k] D(3) k1(5) by auto
    let ?k = "k1\<lparr>kvs_dicts := (kvs_dicts k1)[i := Some d']\<rparr>"
    have "kvs_ok ?k"
      using kvs_ok_same_size[OF k1(2) i1, of d'] d'(2) D dict_same_size[OF D(1) d'(2)] by (simp add: dict_same_def)
    moreover have "kvs_map ?k = kvs_map kvs"
      using kvs_map_update[OF i1(1), of ?k "Some d'"] dict_same_map[OF D(1) d'(2)] k1(4,5) by (simp add: fun_upd_idem)
    moreover have "kvstoreDictAddRaw can_resize kvs (int i) k = Some (?k, Inl l)"
      using k1(1) d'(1) put_Some[OF i1(1)] by (simp add: kvstoreDictAddRaw_def)
    ultimately show ?thesis using Some by (intro exI[of _ ?k] exI[of _ l]) simp
  qed
qed

lemma kvstoreDictDelete_spec:
  assumes ok: "kvs_ok kvs" and i: "i < length (kvs_dicts kvs)"
  shows "\<exists>kvs'. kvstoreDictDelete can_resize canFree kvs (int i) k = Some (kvs', kvs_map kvs i k \<noteq> None) \<and> kvs_ok kvs' \<and>
    kvs_map kvs' = (kvs_map kvs)(i := (kvs_map kvs i)(k := None))"
proof (cases "kvs_dicts kvs ! i")
  case None
  then have "kvs_map kvs i = Map.empty" by (simp add: kvs_map_def)
  then show ?thesis using None ok i by (simp add: kvstoreDictDelete_def get_Some fun_upd_idem)
next
  case (Some d)
  note D = slot_dict[OF ok i Some]
  obtain d' where d': "dictDelete can_resize d k = Some (d', dict_map d k \<noteq> None)" "dict_upd d ((dict_map d)(k := None)) d'"
    using dictGenericDelete_spec[OF D(1), of can_resize k] by (auto simp: dictDelete_def)
  let ?k = "kvs\<lparr>kvs_dicts := (kvs_dicts kvs)[i := Some d']\<rparr>"
  have map': "kvs_map k' = (kvs_map kvs)(i := (kvs_map kvs i)(k := None))"
    if "kvs_dicts k' = (kvs_dicts kvs)[i := Some d']" for k'
    using kvs_map_update[OF i that] dict_updD(2)[OF d'(2)] D(4) by simp
  show ?thesis
  proof (cases "dict_map d k")
    case None
    then have "dictSize d' = dictSize d"
      using upd_size[OF D(1) d'(2)] by (simp add: fun_upd_idem)
    then have "kvs_ok ?k" using kvs_ok_same_size[OF ok i Some, of d'] d'(2) D by (simp add: dict_upd_def)
    then show ?thesis
      using Some None d'(1) i D(4) map'[of ?k] by (simp add: kvstoreDictDelete_def get_Some put_Some)
  next
    case (Some v)
    have "dictSize d' + 1 = dictSize d"
      using upd_size[OF D(1) d'(2)] card_Suc_Diff1[of "dom (dict_map d)" k] domI[of "dict_map d", OF Some] by simp
    then obtain k1 where k1: "cumulativeKeyCountAdd ?k (int i) (-1) = Some k1" "kvs_ok k1"
        "kvs_dicts k1 = (kvs_dicts kvs)[i := Some d']"
      using kvs_ok_count[OF ok i \<open>kvs_dicts kvs ! i = Some d\<close>, of d' "-1"] d'(2) D by (auto simp: dict_upd_def)
    obtain k2 where k2: "freeDictIfNeeded canFree k1 (int i) = Some k2" "kvs_ok k2" "kvs_map k2 = kvs_map k1"
      using freeDictIfNeeded_spec[OF k1(2), of i canFree] i k1(3) by auto
    show ?thesis
      using \<open>kvs_dicts kvs ! i = Some d\<close> Some d'(1) i D(4) map'[OF k1(3)] k1(1) k2
      by (simp add: kvstoreDictDelete_def get_Some put_Some)
  qed
qed

subsection \<open>Finding dictionaries\<close>

lemma kvs_ft:
  assumes ok: "kvs_ok kvs" and n: "num_dicts kvs \<noteq> 1"
  obtains ft where "dict_sizes kvs = Some ft" "fw_rep ft (\<lambda>j. of_nat (map slot_size (kvs_dicts kvs) ! nat j))"
    "fw_exact ft (\<lambda>j. of_nat (map slot_size (kvs_dicts kvs) ! nat j))" "ft_size ft = num_dicts kvs"
    "unat (ft_total ft) = total_keys kvs" "total_keys kvs < 2 ^ 63" "unat (key_count kvs) = total_keys kvs"
proof -
  let ?sz = "map slot_size (kvs_dicts kvs)"
  have cnt: "kvs_counts kvs ?sz" and core: "kvs_core kvs" using ok by (auto simp: kvs_ok_def)
  obtain ft where ft: "dict_sizes kvs = Some ft" "ft_size_bits ft = num_dicts_bits kvs"
      "fw_rep ft (\<lambda>j. of_nat (?sz ! nat j))"
    using cnt n by (auto simp: kvs_counts_def)
  have small: "total_keys kvs < 2 ^ 63" using cnt by (simp add: kvs_counts_def total_keys_def)
  have size: "ft_size ft = num_dicts kvs" "ft_size ft = int (length ?sz)"
    using ft(2,3) kvs_coreD(1-3)[OF core] by (simp_all add: fw_rep_def)
  have ex: "fw_exact ft (\<lambda>j. of_nat (?sz ! nat j))"
    using small size(2) by (intro fw_exact_sizes) (simp_all add: total_keys_def)
  have "unat (ft_total ft) = fw_sum (\<lambda>j. unat (of_nat (?sz ! nat j) :: u64)) 0 (ft_size ft)"
    using ft(3) ex by (simp add: fw_rep_def fw_exact_def unat_fw_sum)
  also have "\<dots> = (\<Sum>n\<leftarrow>?sz. unat (of_nat n :: u64))"
    using fw_sum_list[of "\<lambda>n. unat (of_nat n :: u64)" ?sz] size(2) by simp
  also have "\<dots> = total_keys kvs"
  proof -
    have "unat (of_nat n :: u64) = n" if "n \<in> set ?sz" for n
    proof -
      have "n < 2 ^ 64" using member_le_sum_list[OF that] small by (simp add: total_keys_def)
      then show ?thesis by (simp add: unat_of_nat)
    qed
    then show ?thesis unfolding total_keys_def by (metis (mono_tags, lifting) map_idI)
  qed
  finally have "unat (ft_total ft) = total_keys kvs" .
  moreover have "unat (key_count kvs) = total_keys kvs"
    using cnt small by (simp add: kvs_counts_def total_keys_def unat_of_nat)
  ultimately show thesis using that ft ex size(1) small by blast
qed

lemma slot_keys:
  assumes "kvs_ok kvs" "i < length (kvs_dicts kvs)"
  shows "slot_size (kvs_dicts kvs ! i) = card (dom (kvs_map kvs i))"
proof (cases "kvs_dicts kvs ! i")
  case (Some d)
  then show ?thesis using slot_dict(1,4)[OF assms Some] dictSize_eq(2)[of d] by simp
qed (simp add: kvs_map_def)

definition keys_before :: "('k, 'v) kvstore \<Rightarrow> nat \<Rightarrow> nat" where
  "keys_before kvs r = (\<Sum>i<r. card (dom (kvs_map kvs i)))"

lemma fw_sum_keys:
  assumes ok: "kvs_ok kvs" and r: "r \<le> length (kvs_dicts kvs)"
  shows "fw_sum (\<lambda>j. unat (of_nat (map slot_size (kvs_dicts kvs) ! nat j) :: u64)) 0 (int r) = keys_before kvs r"
proof -
  let ?sz = "map slot_size (kvs_dicts kvs)"
  have el: "unat (of_nat (?sz ! i) :: u64) = card (dom (kvs_map kvs i))" if "i < r" for i
  proof -
    have "?sz ! i \<le> sum_list ?sz" using that r by (intro elem_le_sum) simp
    also have "\<dots> < 2 ^ 63" using ok by (simp add: kvs_ok_def kvs_counts_def)
    finally have "?sz ! i < 2 ^ 64" by simp
    moreover have "?sz ! i = card (dom (kvs_map kvs i))" using slot_keys[OF ok, of i] that r by simp
    ultimately show ?thesis by (simp add: unat_of_nat)
  qed
  have "fw_sum (\<lambda>j. unat (of_nat (?sz ! nat j) :: u64)) 0 (int r) = (\<Sum>i\<in>int ` {0..<r}. unat (of_nat (?sz ! nat i) :: u64))"
    by (simp add: fw_sum_def image_int_atLeastLessThan)
  also have "\<dots> = (\<Sum>i = 0..<r. unat (of_nat (?sz ! i) :: u64))" by (subst sum.reindex) auto
  also have "\<dots> = keys_before kvs r" unfolding keys_before_def by (intro sum.cong) (auto simp: el)
  finally show ?thesis .
qed

text \<open>
  The successor search over the slots returns the next slot with keys after the given one, or \<open>-1\<close>
  when no later slot has keys.
\<close>

lemma kvstoreGetNextNonEmptyDictIndex_spec:
  assumes ok: "kvs_ok kvs" and n: "num_dicts kvs \<noteq> 1" and i: "i < length (kvs_dicts kvs)"
  shows "if \<forall>j<length (kvs_dicts kvs). i < j \<longrightarrow> kvs_map kvs j = Map.empty
    then kvstoreGetNextNonEmptyDictIndex kvs (int i) = Some (-1)
    else \<exists>r<length (kvs_dicts kvs). kvstoreGetNextNonEmptyDictIndex kvs (int i) = Some (int r) \<and> i < r \<and>
      kvs_map kvs r \<noteq> Map.empty \<and> (\<forall>j. i < j \<longrightarrow> j < r \<longrightarrow> kvs_map kvs j = Map.empty)"
proof -
  let ?a = "\<lambda>j. of_nat (map slot_size (kvs_dicts kvs) ! nat j) :: u64" and ?n = "length (kvs_dicts kvs)"
  obtain ft where ft: "dict_sizes kvs = Some ft" "fw_rep ft ?a" "fw_exact ft ?a" "ft_size ft = num_dicts kvs"
    "unat (ft_total ft) = total_keys kvs" "total_keys kvs < 2 ^ 63"
    using kvs_ft[OF ok n] by metis
  have size: "ft_size ft = int ?n" using kvs_coreD(1,3)[of kvs] ok ft(4) by (simp add: kvs_ok_def)
  have zero: "?a (int j) = 0 \<longleftrightarrow> kvs_map kvs j = Map.empty" if "j < ?n" for j
  proof -
    have "map slot_size (kvs_dicts kvs) ! j \<le> total_keys kvs"
      using that elem_le_sum[of j "map slot_size (kvs_dicts kvs)"] by (simp add: total_keys_def)
    then have "?a (int j) = 0 \<longleftrightarrow> slot_size (kvs_dicts kvs ! j) = 0"
      using that ft(6) by (simp add: word_unat_eq_iff unat_of_nat)
    moreover have "finite (dom (kvs_map kvs j))"
      by (cases "kvs_dicts kvs ! j") (auto simp: kvs_map_def dict_map_def finite_dom_map_of)
    ultimately show ?thesis using slot_keys[OF ok that] by (auto simp: dom_eq_empty_conv)
  qed
  have all: "(\<forall>j. int i < j \<longrightarrow> j < ft_size ft \<longrightarrow> ?a j = 0) \<longleftrightarrow> (\<forall>j<?n. i < j \<longrightarrow> kvs_map kvs j = Map.empty)"
  proof
    assume "\<forall>j. int i < j \<longrightarrow> j < ft_size ft \<longrightarrow> ?a j = 0"
    then show "\<forall>j<?n. i < j \<longrightarrow> kvs_map kvs j = Map.empty" using zero size by (metis of_nat_less_iff)
  next
    assume h: "\<forall>j<?n. i < j \<longrightarrow> kvs_map kvs j = Map.empty"
    show "\<forall>j. int i < j \<longrightarrow> j < ft_size ft \<longrightarrow> ?a j = 0"
    proof (intro allI impI)
      fix j assume j: "int i < j" "j < ft_size ft"
      then have "int (nat j) = j" "nat j < ?n" "i < nat j" using size by auto
      then show "?a j = 0" using h zero[of "nat j"] by simp
    qed
  qed
  have small: "unat (ft_total ft) < 2 ^ 64 - 1" "0 \<le> int i" "int i < ft_size ft" using ft(5,6) i size by auto
  note S = fwTreeFindNextNonEmpty_spec[OF ft(2) small(1) ft(3) small(2,3), unfolded all]
  show ?thesis
  proof (cases "\<forall>j<?n. i < j \<longrightarrow> kvs_map kvs j = Map.empty")
    case True
    then show ?thesis using S ft(1) n by (simp add: kvstoreGetNextNonEmptyDictIndex_def)
  next
    case False
    then obtain r where r: "fwTreeFindNextNonEmpty ft (int i) = Some r" "int i < r" "r < ft_size ft" "?a r \<noteq> 0"
        "\<forall>j. int i < j \<longrightarrow> j < r \<longrightarrow> ?a j = 0"
      using S unfolding if_not_P[OF False] by blast
    have rn: "int (nat r) = r" "nat r < ?n" "i < nat r" using r(2,3) size by auto
    have "kvs_map kvs (nat r) \<noteq> Map.empty" using zero[OF rn(2)] r(4) unfolding rn(1) by blast
    moreover have "kvs_map kvs j = Map.empty" if "i < j" "j < nat r" for j
    proof -
      have "int i < int j" "int j < r" "j < ?n" using that rn by linarith+
      then show ?thesis using zero[of j] r(5) by blast
    qed
    moreover have "kvstoreGetNextNonEmptyDictIndex kvs (int i) = Some (int (nat r))"
      using r(1) rn(1) ft(1) n by (simp add: kvstoreGetNextNonEmptyDictIndex_def)
    ultimately show ?thesis using False rn(2,3) by auto
  qed
qed

subsection \<open>Properties\<close>

text \<open>
  C11: adding a key to a slot adds exactly it when it is absent, creating the dictionary on demand,
  and keeps the invariant: key count, number of non-empty and of allocated dictionaries and
  Fenwick tree agree with the dictionaries.
\<close>

theorem kvstoreDictAddRaw_correct:
  assumes "kvs_ok kvs" "i < length (kvs_dicts kvs)" "total_keys kvs + 1 < 2 ^ 63"
  shows "\<exists>kvs' l. kvstoreDictAddRaw can_resize kvs (int i) k =
      Some (kvs', if kvs_map kvs i k = None then Inr l else Inl l) \<and> kvs_ok kvs' \<and>
    kvs_map kvs' = (if kvs_map kvs i k = None then (kvs_map kvs)(i := (kvs_map kvs i)(k \<mapsto> None)) else kvs_map kvs)"
  using assms by (rule kvstoreDictAddRaw_spec)

definition example_kvs :: "(nat, bool) kvstore" where
  "example_kvs = \<lparr>kvs_on_demand = True, kvs_free_empty = True, kvs_dtype = example_type,
     kvs_dicts = [None, None, None, None], num_dicts = 4, num_dicts_bits = 2, resize_cursor = 0,
     allocated_dicts = 0, non_empty_dicts = 0, key_count = 0, dict_sizes = Some (fwTreeCreate 2)\<rparr>"

lemma example_kvs_ok: "kvs_ok example_kvs" "length (kvs_dicts example_kvs) = 4" "total_keys example_kvs = 0"
  "kvs_map example_kvs 1 = Map.empty"
proof -
  have "fw_rep (fwTreeCreate 2) (\<lambda>_. 0)" by (rule fwTreeCreate_rep) simp
  moreover have "fw_rep (fwTreeCreate 2) (\<lambda>_. 0) = fw_rep (fwTreeCreate 2) (\<lambda>i. of_nat ([0, 0, 0, 0 :: nat] ! nat i))"
    by (intro fw_rep_cong) (auto simp: fwTreeCreate_def nth_Cons' numeral_eq_Suc)
  ultimately show "kvs_ok example_kvs"
    by (auto simp: kvs_ok_def kvs_core_def kvs_counts_def example_kvs_def fwTreeCreate_def)
qed (simp_all add: example_kvs_def total_keys_def kvs_map_def)

theorem kvstoreDictAddRaw_correct_witness:
  "\<exists>kvs' l. kvstoreDictAddRaw DICT_RESIZE_ENABLE example_kvs 1 7 = Some (kvs', Inr l) \<and> kvs_ok kvs' \<and>
     kvs_map kvs' 1 7 = Some None"
  using kvstoreDictAddRaw_correct[OF example_kvs_ok(1), of 1 DICT_RESIZE_ENABLE 7] example_kvs_ok(2-4) by auto

text \<open>
  C12: deleting a key removes exactly it, reports whether it existed, may release the emptied
  dictionary, and keeps the invariant.
\<close>

theorem kvstoreDictDelete_correct:
  assumes "kvs_ok kvs" "i < length (kvs_dicts kvs)"
  shows "\<exists>kvs'. kvstoreDictDelete can_resize canFree kvs (int i) k = Some (kvs', kvs_map kvs i k \<noteq> None) \<and> kvs_ok kvs' \<and>
    kvs_map kvs' = (kvs_map kvs)(i := (kvs_map kvs i)(k := None))"
  using assms by (rule kvstoreDictDelete_spec)

theorem kvstoreDictDelete_correct_witness:
  "\<exists>kvs'. kvstoreDictDelete DICT_RESIZE_ENABLE None example_kvs 1 7 = Some (kvs', False) \<and> kvs_ok kvs'"
  using kvstoreDictDelete_correct[OF example_kvs_ok(1), of 1 DICT_RESIZE_ENABLE None 7] example_kvs_ok(2,4) by auto

text \<open>
  C29: the slot found for the n-th key is the one that holds it in the order of the slots: the keys of
  the slots before it number less than \<open>n\<close>, and with its own keys at least \<open>n\<close>.
\<close>

theorem kvstoreFindDictIndex_correct:
  assumes "kvs_ok kvs" "num_dicts kvs \<noteq> 1" "0 < target" "unat target \<le> total_keys kvs"
  shows "\<exists>r<length (kvs_dicts kvs). kvstoreFindDictIndexByKeyIndex kvs target = Some (int r) \<and>
    keys_before kvs r < unat target \<and> unat target \<le> keys_before kvs (Suc r)"
proof -
  obtain ft where ft: "dict_sizes kvs = Some ft" "fw_rep ft (\<lambda>j. of_nat (map slot_size (kvs_dicts kvs) ! nat j))"
    "fw_exact ft (\<lambda>j. of_nat (map slot_size (kvs_dicts kvs) ! nat j))" "ft_size ft = num_dicts kvs"
    "unat (ft_total ft) = total_keys kvs" "unat (key_count kvs) = total_keys kvs"
    using kvs_ft[OF assms(1,2)] by metis
  have le: "target \<le> ft_total ft" "target \<le> kvstoreSize kvs" "kvstoreSize kvs \<noteq> 0"
    using assms(3,4) ft(5,6) by (auto simp: word_le_nat_alt word_less_nat_alt kvstoreSize_def)
  have n: "num_dicts kvs = int (length (kvs_dicts kvs))"
    using kvs_coreD(1,3)[of kvs] assms(1) by (simp add: kvs_ok_def)
  obtain r where r: "fwTreeFindIndex ft target = Some r" "0 \<le> r" "r < ft_size ft"
      "fw_sum (\<lambda>j. unat (of_nat (map slot_size (kvs_dicts kvs) ! nat j) :: u64)) 0 r < unat target"
      "unat target \<le> fw_sum (\<lambda>j. unat (of_nat (map slot_size (kvs_dicts kvs) ! nat j) :: u64)) 0 (r + 1)"
    using fwTreeFindIndex_spec[OF ft(2,3) assms(3) le(1)] by blast
  have rn: "nat r < length (kvs_dicts kvs)" "int (nat r) = r" "int (Suc (nat r)) = r + 1" using r(2,3) ft(4) n by auto
  have "keys_before kvs (nat r) < unat target"
    using r(4) fw_sum_keys[OF assms(1), of "nat r"] rn(1) unfolding rn(2) by simp
  moreover have "unat target \<le> keys_before kvs (Suc (nat r))"
    using r(5) fw_sum_keys[OF assms(1), of "Suc (nat r)"] rn(1) unfolding rn(3) by simp
  moreover have "kvstoreFindDictIndexByKeyIndex kvs target = Some (int (nat r))"
    using r(1) rn(2) ft(1) le(2,3) assms(2) by (simp add: kvstoreFindDictIndexByKeyIndex_def)
  ultimately show ?thesis using rn(1) by blast
qed

definition example_two :: "(nat, bool) kvstore" where
  "example_two = \<lparr>kvs_on_demand = True, kvs_free_empty = True, kvs_dtype = example_type,
     kvs_dicts = [None, Some example_dict], num_dicts = 2, num_dicts_bits = 1, resize_cursor = 0,
     allocated_dicts = 1, non_empty_dicts = 1, key_count = 2,
     dict_sizes = Some \<lparr>ft_tree = [0, 0, 2], ft_size_bits = 1, ft_size = 2, ft_total = 2\<rparr>\<rparr>"

lemma example_two_ok: "kvs_ok example_two" "total_keys example_two = 2" "num_dicts example_two = 2"
proof -
  have sz: "dictSize example_dict = 2" "d_type example_dict = example_type" "pauseAutoResize example_dict = 0"
    by (simp_all add: dictSize_def example_dict_def)
  have lb: "lowbit 1 = 1" "lowbit 2 = 2" by (simp_all add: lowbit_def)
  have ivl: "{0..<2} = {0, 1 :: int}" "{0..<1} = {0 :: int}" by auto
  have "i = 1 \<or> i = 2" if "1 \<le> i" "i \<le> 2" for i :: int using that by auto
  then have "fw_rep \<lparr>ft_tree = [0, 0, 2], ft_size_bits = 1, ft_size = 2, ft_total = 2\<rparr>
      (\<lambda>i. of_nat ([0, 2 :: nat] ! nat i))"
    by (fastforce simp: fw_rep_def fw_sum_def lb ivl)
  then show "kvs_ok example_two"
    using example_dict_inv(1) sz by (auto simp: kvs_ok_def kvs_core_def kvs_counts_def example_two_def)
  show "total_keys example_two = 2" "num_dicts example_two = 2" using sz by (simp_all add: total_keys_def example_two_def)
qed

theorem kvstoreFindDictIndex_correct_witness:
  "\<exists>r<length (kvs_dicts example_two). kvstoreFindDictIndexByKeyIndex example_two 2 = Some (int r) \<and>
     keys_before example_two r < 2"
  using kvstoreFindDictIndex_correct[OF example_two_ok(1), of 2] example_two_ok(2,3) by auto

lemma cumulative_big_dict:
  assumes "cumulativeKeyCountAdd kvs (int i) delta = Some kvs'" "kvs_dicts kvs ! i = Some d" "i < length (kvs_dicts kvs)"
    "2 \<le> dictSize d"
  shows "same_dicts kvs kvs' \<and> non_empty_dicts kvs' = non_empty_dicts kvs"
  using assms
  by (auto simp: cumulativeKeyCountAdd_def get_Some Let_def bind_Some_conv same_dicts_def split: if_splits)

text \<open>
  C30: what moving a dictionary of two or more keys does to the number of non-empty dictionaries:
  nothing, on either side, because \<open>cumulativeKeyCountAdd\<close> compares the size of the moved dictionary itself with 0 and 1.
  The source loses a non-empty dictionary and the destination gains one, so the counter of at least one of them
  is wrong afterwards.
\<close>

theorem kvstoreMoveDict_miscounts:
  assumes "kvstoreMoveDict kvs dst (int i) = Some (kvs', dst')" "i < length (kvs_dicts kvs)"
    "i < length (kvs_dicts dst)" "kvs_dicts kvs ! i = Some d" "2 \<le> dictSize d"
  shows "non_empty_dicts kvs' = non_empty_dicts kvs \<and> non_empty_dicts dst' = non_empty_dicts dst \<and>
    slot_size (kvs_dicts kvs' ! i) = 0 \<and> 2 \<le> slot_size (kvs_dicts dst' ! i)"
proof -
  let ?k0 = "kvs\<lparr>allocated_dicts := allocated_dicts kvs - 1\<rparr>"
  let ?d' = "d\<lparr>d_type := kvs_dtype dst\<rparr>"
  let ?t0 = "dst\<lparr>kvs_dicts := (kvs_dicts dst)[i := Some ?d'], allocated_dicts := allocated_dicts dst + 1\<rparr>"
  obtain k1 where k1: "cumulativeKeyCountAdd ?k0 (int i) (- int (dictSize d)) = Some k1"
      "kvs' = (k1\<lparr>kvs_dicts := (kvs_dicts k1)[i := None]\<rparr>) \<or>
       map_option fst (createDictIfNeeded (k1\<lparr>kvs_dicts := (kvs_dicts k1)[i := None]\<rparr>) (int i)) = Some kvs'"
      "cumulativeKeyCountAdd ?t0 (int i) (int (dictSize d)) = Some dst'"
    using assms
    by (auto simp: kvstoreMoveDict_def get_Some put_Some Let_def bind_Some_conv kvstorePutDict_def arr_set_def
        split: if_splits)
  have s1: "same_dicts ?k0 k1" "non_empty_dicts k1 = non_empty_dicts kvs"
    using cumulative_big_dict[OF k1(1), of d] assms(2,4,5) by auto
  have size': "dictSize ?d' = dictSize d" by (simp add: dictSize_def)
  have s2: "same_dicts ?t0 dst'" "non_empty_dicts dst' = non_empty_dicts dst"
    using cumulative_big_dict[OF k1(3), of ?d'] assms(3,5) size' by auto
  have len: "i < length (kvs_dicts k1)" using same_dictsD(1)[OF s1(1)] assms(2) by simp
  have "non_empty_dicts kvs' = non_empty_dicts kvs \<and> slot_size (kvs_dicts kvs' ! i) = 0"
    using k1(2) s1(2) len
    by (auto simp: createDictIfNeeded_def get_Some put_Some Let_def dictCreate_def dictSize_def dictReset_def)
  moreover have "2 \<le> slot_size (kvs_dicts dst' ! i)"
    using same_dictsD(1)[OF s2(1)] assms(3,5) size' by simp
  ultimately show ?thesis using s2(2) by simp
qed

definition example_single :: "(nat, bool) dict option \<Rightarrow> (nat, bool) kvstore" where
  "example_single dp = \<lparr>kvs_on_demand = True, kvs_free_empty = True, kvs_dtype = example_type,
     kvs_dicts = [dp], num_dicts = 1, num_dicts_bits = 0, resize_cursor = 0,
     allocated_dicts = (if dp = None then 0 else 1), non_empty_dicts = (if dp = None then 0 else 1),
     key_count = (if dp = None then 0 else 2), dict_sizes = None\<rparr>"

theorem kvstoreMoveDict_miscounts_witness:
  "\<exists>kvs' dst'. kvstoreMoveDict (example_single (Some example_dict)) (example_single None) 0 = Some (kvs', dst') \<and>
     kvs_dicts kvs' = [None] \<and> non_empty_dicts kvs' = 1 \<and> non_empty_dicts dst' = 0"
proof -
  have sz: "dictSize example_dict = 2" by (simp add: dictSize_def example_dict_def)
  have "\<exists>kvs' dst'. kvstoreMoveDict (example_single (Some example_dict)) (example_single None) (int 0) = Some (kvs', dst') \<and>
      kvs_dicts kvs' = [None]"
    by (simp add: kvstoreMoveDict_def example_single_def kvstoreGetDict_def kvstorePutDict_def arr_get_def arr_set_def
        cumulativeKeyCountAdd_def Let_def)
  then obtain kvs' dst' where m: "kvstoreMoveDict (example_single (Some example_dict)) (example_single None) (int 0) =
      Some (kvs', dst')" "kvs_dicts kvs' = [None]" by blast
  show ?thesis
    using kvstoreMoveDict_miscounts[OF m(1), of example_dict] m sz by (simp add: example_single_def)
qed

end
