(* ===== verification/Dict_Scan.thy ===== *)
theory Dict_Scan
  imports Dict
begin

text \<open>
  \<open>dictScan\<close> (\<^verbatim>\<open>dict.c\<close>): the stateless iteration whose cursor counts with its bits reversed.  The
  cursor is read as a position in the space of reversed hash values, where every bucket of every table
  size is an interval; a call covers the interval from the position of its cursor to that of the cursor it
  returns.  The guarantee of the iteration under resizing follows.
\<close>

subsection \<open>The reversed cursor\<close>

text \<open>\<open>rev\<close>: the bits of a word in reverse order, by exchanging blocks of 32, 16, \<open>\<dots>\<close>, 1 bits.\<close>

function rev_loop :: "nat \<Rightarrow> u64 \<Rightarrow> u64 \<Rightarrow> u64" where
  "rev_loop s m v =
     (let s = s div 2 in
      if s > 0 then
        let m = m XOR push_bit s m in
        rev_loop s m ((drop_bit s v AND m) OR (push_bit s v AND NOT m))
      else v)"
  by pat_completeness auto
termination by (relation "measure (\<lambda>(s, m, v). s)") auto

declare rev_loop.simps [simp del]

definition rev_ul :: "u64 \<Rightarrow> u64" where
  "rev_ul v = rev_loop 64 (NOT 0) v"

text \<open>One round exchanges the neighbouring blocks of \<open>s\<close> bits.\<close>

definition swap_mask :: "nat \<Rightarrow> u64 \<Rightarrow> bool" where
  "swap_mask s m \<longleftrightarrow> (\<forall>n < 64. bit m n \<longleftrightarrow> even (n div s))"

definition block_swap :: "nat \<Rightarrow> nat \<Rightarrow> nat" where
  "block_swap s n = (if even (n div s) then n + s else n - s)"

lemma swap_round:
  assumes "swap_mask s m" "s \<in> {1, 2, 4, 8, 16, 32}" "n < 64"
  shows "bit ((drop_bit s v AND m) OR (push_bit s v AND NOT m)) n \<longleftrightarrow> bit (v :: u64) (block_swap s n)"
    "block_swap s n < 64"
proof -
  have chk: "list_all (\<lambda>s. list_all (\<lambda>n. block_swap s n < 64 \<and> (odd (n div s) \<longrightarrow> s \<le> n)) [0..<64]) [1, 2, 4, 8, 16, 32]"
    by code_simp
  then have b: "block_swap s n < 64" "odd (n div s) \<Longrightarrow> s \<le> n"
    using assms(2,3) by (auto simp: list_all_iff)
  show "block_swap s n < 64" by (rule b)
  show "bit ((drop_bit s v AND m) OR (push_bit s v AND NOT m)) n \<longleftrightarrow> bit (v :: u64) (block_swap s n)"
    using b assms(1,3) by (cases "even (n div s)") (auto simp: bit_simps swap_mask_def block_swap_def add.commute)
qed

lemma swap_masks:
  "swap_mask 32 0xFFFFFFFF" "swap_mask 16 0xFFFF0000FFFF" "swap_mask 8 0xFF00FF00FF00FF"
  "swap_mask 4 0xF0F0F0F0F0F0F0F" "swap_mask 2 0x3333333333333333" "swap_mask 1 0x5555555555555555"
proof -
  have iff: "swap_mask s m \<longleftrightarrow> list_all (\<lambda>n. bit m n \<longleftrightarrow> even (n div s)) [0..<64]" for s m
    by (auto simp: swap_mask_def list_all_iff)
  show "swap_mask 32 0xFFFFFFFF" "swap_mask 16 0xFFFF0000FFFF" "swap_mask 8 0xFF00FF00FF00FF"
    "swap_mask 4 0xF0F0F0F0F0F0F0F" "swap_mask 2 0x3333333333333333" "swap_mask 1 0x5555555555555555"
    unfolding iff by code_simp+
qed

lemma bit_rev_ul:
  assumes "n < 64"
  shows "bit (rev_ul v) n \<longleftrightarrow> bit v (63 - n)"
proof -
  let ?r = "\<lambda>s (m :: u64) v. (drop_bit s v AND m) OR (push_bit s v AND NOT m)"
  have m: "(NOT 0 :: u64) XOR push_bit 32 (NOT 0) = 0xFFFFFFFF"
    "(0xFFFFFFFF :: u64) XOR push_bit 16 0xFFFFFFFF = 0xFFFF0000FFFF"
    "(0xFFFF0000FFFF :: u64) XOR push_bit 8 0xFFFF0000FFFF = 0xFF00FF00FF00FF"
    "(0xFF00FF00FF00FF :: u64) XOR push_bit 4 0xFF00FF00FF00FF = 0xF0F0F0F0F0F0F0F"
    "(0xF0F0F0F0F0F0F0F :: u64) XOR push_bit 2 0xF0F0F0F0F0F0F0F = 0x3333333333333333"
    "(0x3333333333333333 :: u64) XOR push_bit 1 0x3333333333333333 = 0x5555555555555555"
    by code_simp+
  have l: "rev_loop 64 m v = rev_loop 32 (m XOR push_bit 32 m) (?r 32 (m XOR push_bit 32 m) v)"
    "rev_loop 32 m v = rev_loop 16 (m XOR push_bit 16 m) (?r 16 (m XOR push_bit 16 m) v)"
    "rev_loop 16 m v = rev_loop 8 (m XOR push_bit 8 m) (?r 8 (m XOR push_bit 8 m) v)"
    "rev_loop 8 m v = rev_loop 4 (m XOR push_bit 4 m) (?r 4 (m XOR push_bit 4 m) v)"
    "rev_loop 4 m v = rev_loop 2 (m XOR push_bit 2 m) (?r 2 (m XOR push_bit 2 m) v)"
    "rev_loop 2 m v = rev_loop 1 (m XOR push_bit 1 m) (?r 1 (m XOR push_bit 1 m) v)"
    "rev_loop 1 m v = v" for m v :: u64
    by (subst rev_loop.simps, simp add: Let_def)+
  have r: "rev_ul v = ?r 1 0x5555555555555555 (?r 2 0x3333333333333333 (?r 4 0xF0F0F0F0F0F0F0F
      (?r 8 0xFF00FF00FF00FF (?r 16 0xFFFF0000FFFF (?r 32 0xFFFFFFFF v)))))"
    unfolding rev_ul_def
    by (simp only: l m)
  define j where "j = block_swap 32 (block_swap 16 (block_swap 8 (block_swap 4 (block_swap 2 (block_swap 1 n)))))"
  have "bit (rev_ul v) n = bit v j"
    unfolding r j_def
    by (simp only: swap_round[OF swap_masks(1)] swap_round[OF swap_masks(2)] swap_round[OF swap_masks(3)] assms
        swap_round[OF swap_masks(4)] swap_round[OF swap_masks(5)] swap_round[OF swap_masks(6)] insert_iff simp_thms)
  moreover have "map (block_swap 32) (map (block_swap 16) (map (block_swap 8) (map (block_swap 4) (map (block_swap 2)
      (map (block_swap 1) [0..<64]))))) = map (\<lambda>n. 63 - n) [0..<64]"
    by code_simp
  then have "map (\<lambda>n. block_swap 32 (block_swap 16 (block_swap 8 (block_swap 4 (block_swap 2 (block_swap 1 n)))))) [0..<64] =
      map (\<lambda>n. 63 - n) [0..<64]" by (simp only: map_map comp_def)
  then have "j = 63 - n" using assms unfolding map_eq_conv j_def by simp
  ultimately show ?thesis by simp
qed

lemma rev_ul_rev_ul [simp]: "rev_ul (rev_ul v) = v"
  by (rule bit_eqI) (simp add: bit_rev_ul)

lemma rev_ul_0 [simp]: "rev_ul 0 = 0"
  by (rule bit_eqI) (simp add: bit_rev_ul)

lemma rev_ul_eq_0_iff [simp]: "rev_ul v = 0 \<longleftrightarrow> v = 0"
  by (metis rev_ul_0 rev_ul_rev_ul)

lemma rev_ul_or: "rev_ul (a OR b) = rev_ul a OR rev_ul b"
  by (rule bit_eqI) (simp add: bit_rev_ul bit_simps)

text \<open>Set the bits outside the mask and increment the reversed cursor.\<close>

definition scan_next :: "u64 \<Rightarrow> u64 \<Rightarrow> u64" where
  "scan_next m v =
     (let v = v OR NOT m;
          v = rev_ul v;
          v = v + 1
      in rev_ul v)"

text \<open>The position of a cursor, and of a hash value.\<close>

definition scan_pos :: "u64 \<Rightarrow> nat" where
  "scan_pos v = unat (rev_ul v)"

lemma scan_pos_0 [simp]: "scan_pos 0 = 0"
  by (simp add: scan_pos_def)

lemma scan_pos_less: "scan_pos v < 2 ^ 64"
  using unsigned_less[of "rev_ul v", where ?'a = nat] by (simp add: scan_pos_def)

lemma nat_and_le: "(a AND b :: nat) \<le> a"
proof -
  have "int (a AND b) \<le> int a" by (simp add: of_nat_and_eq)
  then show ?thesis by simp
qed

lemma unat_or_ge: "unat (x :: u64) \<le> unat (x OR y)"
proof -
  have "unat x = unat ((x OR y) AND x)" by (rule arg_cong[where f = unat]) (rule bit_eqI, auto simp: bit_simps)
  also have "\<dots> \<le> unat (x OR y)" unfolding unsigned_and_eq by (simp add: nat_and_le)
  finally show ?thesis .
qed

lemma scan_next_grows: "scan_next m v \<noteq> 0 \<Longrightarrow> scan_pos v < scan_pos (scan_next m v)"
proof -
  assume "scan_next m v \<noteq> 0"
  then have "rev_ul (v OR NOT m) + 1 \<noteq> 0" by (simp add: scan_next_def)
  then have "scan_pos (scan_next m v) = Suc (unat (rev_ul (v OR NOT m)))"
    by (simp add: scan_next_def scan_pos_def Let_def unatSuc add.commute)
  then show ?thesis using unat_or_ge[of "rev_ul v" "rev_ul (NOT m)"] by (simp add: rev_ul_or scan_pos_def)
qed

text \<open>Against a mask of \<open>e\<close> bits the cursor moves to the next multiple of \<open>2 ^ (64 - e)\<close>.\<close>

lemma unat_or_mask: "unat ((x :: u64) OR mask k) + 1 = (unat x div 2 ^ k + 1) * 2 ^ k" if "k \<le> 64"
proof -
  have "unat (x OR mask k) = push_bit k (drop_bit k (unat x)) OR mask k"
    using that by (intro bit_eqI) (auto simp: bit_simps dest: bit_imp_le_length)
  also have "\<dots> = push_bit k (drop_bit k (unat x)) + mask k"
    by (rule disjunctive_add[symmetric]) (auto simp: bit_simps)
  finally show ?thesis by (simp add: push_bit_eq_mult drop_bit_eq_div mask_eq_exp_minus_1)
qed

lemma rev_not_mask: "e \<le> 64 \<Longrightarrow> rev_ul (NOT (mask e)) = mask (64 - e)"
  by (rule bit_eqI) (auto simp: bit_rev_ul bit_simps)

lemma scan_pos_next:
  assumes "e \<le> 64"
  shows "scan_pos (scan_next (mask e) v) = ((scan_pos v div 2 ^ (64 - e) + 1) * 2 ^ (64 - e)) mod 2 ^ 64"
proof -
  have "scan_pos (scan_next (mask e) v) = (unat (rev_ul v OR mask (64 - e)) + 1) mod 2 ^ 64"
    by (simp add: scan_pos_def scan_next_def Let_def rev_ul_or rev_not_mask[OF assms] unat_word_ariths)
  also have "unat (rev_ul v OR mask (64 - e)) + 1 = (unat (rev_ul v) div 2 ^ (64 - e) + 1) * 2 ^ (64 - e)"
    by (rule unat_or_mask) simp
  finally show ?thesis by (simp add: scan_pos_def)
qed

lemma len64: "LENGTH(64) = 64"
  by simp

lemma same_bucket_iff:
  assumes "e \<le> 64"
  shows "take_bit e h = take_bit e v \<longleftrightarrow> scan_pos h div 2 ^ (64 - e) = scan_pos v div 2 ^ (64 - e)"
proof -
  have bits: "bit (drop_bit (64 - e) (rev_ul w)) n \<longleftrightarrow> n < e \<and> bit w (e - 1 - n)" for w n
  proof (cases "n < e")
    case True
    then have "63 - (64 - e + n) = e - 1 - n" using assms by simp
    then show ?thesis using True assms by (simp add: bit_simps bit_rev_ul)
  qed (auto simp: bit_simps dest: bit_imp_le_length)
  have "scan_pos w div 2 ^ (64 - e) = unat (drop_bit (64 - e) (rev_ul w))" for w
    by (simp only: scan_pos_def unsigned_drop_bit_eq drop_bit_eq_div[where ?'a = nat] take_bit_nat_eq_self[OF scan_pos_less[unfolded scan_pos_def]] len64)
  then have "scan_pos h div 2 ^ (64 - e) = scan_pos v div 2 ^ (64 - e) \<longleftrightarrow>
      drop_bit (64 - e) (rev_ul h) = drop_bit (64 - e) (rev_ul v)"
    by (simp add: word_unat_eq_iff)
  also have "\<dots> \<longleftrightarrow> (\<forall>n < e. bit h n = bit v n)"
  proof
    assume *: "drop_bit (64 - e) (rev_ul h) = drop_bit (64 - e) (rev_ul v)"
    show "\<forall>n < e. bit h n = bit v n"
    proof (intro allI impI)
      fix n assume "n < e"
      then have "bit (drop_bit (64 - e) (rev_ul w)) (e - 1 - n) = bit w n" for w
        by (simp add: bits del: bit_simps)
      then show "bit h n = bit v n" using * by metis
    qed
  qed (intro bit_eqI, auto simp: bits)
  also have "\<dots> \<longleftrightarrow> take_bit e h = take_bit e v"
  proof
    assume "\<forall>n < e. bit h n = bit v n"
    then show "take_bit e h = take_bit e v" by (intro bit_eqI) (auto simp: bit_take_bit_iff)
  next
    assume "take_bit e h = take_bit e v"
    then have "bit (take_bit e h) n = bit (take_bit e v) n" for n by simp
    then show "\<forall>n < e. bit h n = bit v n" by (auto simp: bit_take_bit_iff)
  qed
  finally show ?thesis by simp
qed


text \<open>A cursor of \<open>e\<close> bits stands at the start of a bucket.\<close>

lemma low_iff_dvd:
  assumes "e \<le> 64"
  shows "take_bit e v = v \<longleftrightarrow> 2 ^ (64 - e) dvd scan_pos v"
proof -
  have "take_bit e v = v \<longleftrightarrow> take_bit (64 - e) (rev_ul v) = 0"
  proof
    assume "take_bit e v = v"
    then have "bit v n \<Longrightarrow> n < e" for n by (metis bit_take_bit_iff)
    then show "take_bit (64 - e) (rev_ul v) = 0" by (intro bit_eqI) (fastforce simp: bit_simps bit_rev_ul)
  next
    assume *: "take_bit (64 - e) (rev_ul v) = 0"
    show "take_bit e v = v"
    proof (rule bit_eqI)
      fix n assume "possible_bit TYPE(u64) n"
      then have n: "n < 64" by simp
      have "\<not> bit (take_bit (64 - e) (rev_ul v)) (63 - n)" using * by simp
      then show "bit (take_bit e v) n = bit v n" using n assms by (auto simp: bit_simps bit_rev_ul)
    qed
  qed
  also have "\<dots> \<longleftrightarrow> 2 ^ (64 - e) dvd scan_pos v"
    by (simp only: word_unat_eq_iff unsigned_take_bit_eq take_bit_eq_mod[where ?'a = nat] scan_pos_def dvd_eq_mod_eq_0 unsigned_0)
  finally show ?thesis .
qed

lemma scan_next_low:
  assumes "e \<le> 64"
  shows "take_bit e (scan_next (mask e) v) = scan_next (mask e) v"
  unfolding low_iff_dvd[OF assms] scan_pos_next[OF assms] by (intro dvd_mod dvd_triv_right le_imp_power_dvd) simp

text \<open>The test of the inner loop: the end of the bucket of the smaller table.\<close>

lemma scan_stop_iff:
  assumes "e0 \<le> e1" "e1 \<le> 64" "take_bit e1 v = v"
  shows "v AND (mask e0 XOR mask e1) = 0 \<longleftrightarrow> 2 ^ (64 - e0) dvd scan_pos v"
proof -
  have "v AND (mask e0 XOR mask e1) = 0 \<longleftrightarrow> take_bit e0 v = v"
  proof
    assume *: "v AND (mask e0 XOR mask e1) = 0"
    show "take_bit e0 v = v"
    proof (rule bit_eqI)
      fix n
      have "bit v n \<Longrightarrow> n < e1" using assms(3) by (metis bit_take_bit_iff)
      moreover have "\<not> bit (v AND (mask e0 XOR mask e1)) n" using * by simp
      ultimately show "bit (take_bit e0 v) n = bit v n" using assms(2) by (auto simp: bit_simps)
    qed
  next
    assume "take_bit e0 v = v"
    then have "bit v n \<Longrightarrow> n < e0" for n by (metis bit_take_bit_iff)
    then show "v AND (mask e0 XOR mask e1) = 0" using assms(1) by (intro bit_eqI) (auto simp: bit_simps intro: less_le_trans)
  qed
  also have "\<dots> \<longleftrightarrow> 2 ^ (64 - e0) dvd scan_pos v" using assms(1,2) by (intro low_iff_dvd) simp
  finally show ?thesis .
qed

subsection \<open>The scan\<close>

text \<open>
  \<open>dictScanDefragBucket\<close> without defragmentation: the callback is run on every entry of the chain.  It
  receives and returns the private data; the callbacks of the model leave the dictionary alone.
\<close>

definition dictScanDefragBucket :: "('s \<Rightarrow> ('k, 'v) entry \<Rightarrow> 's) \<Rightarrow> 's \<Rightarrow> ('k, 'v) entry list \<Rightarrow> 's" where
  "dictScanDefragBucket fn privdata bucket = foldl fn privdata bucket"

text \<open>The loop over the expansions of the cursor in the larger table; it ends for all masks.\<close>

function dictScan_loop ::
  "('k, 'v) entry list list \<Rightarrow> u64 \<Rightarrow> u64 \<Rightarrow> ('s \<Rightarrow> ('k, 'v) entry \<Rightarrow> 's) \<Rightarrow> u64 \<Rightarrow> 's \<Rightarrow> (u64 \<times> 's) option" where
  "dictScan_loop table m0 m1 fn v privdata =
     (case arr_get table (uint (v AND m1)) of
        None \<Rightarrow> None
      | Some bucket \<Rightarrow>
          let privdata = dictScanDefragBucket fn privdata bucket;
              v = scan_next m1 v
          in if v AND (m0 XOR m1) \<noteq> 0 then dictScan_loop table m0 m1 fn v privdata else Some (v, privdata))"
  by pat_completeness auto
termination
proof (relation "measure (\<lambda>(table, m0, m1, fn, v, privdata). 2 ^ 64 - scan_pos v)", goal_cases)
  case (2 table m0 m1 fn v privdata bucket x va)
  then have "scan_next m1 v \<noteq> 0" by auto
  then show ?case using 2 scan_next_grows[of m1 v] scan_pos_less[of "scan_next m1 v"] by auto
qed auto

declare dictScan_loop.simps [simp del]

text \<open>\<open>dictScanDefrag\<close> without defragmentation functions, as \<open>dictScan\<close> calls it.\<close>

definition dictScanDefrag ::
  "('k, 'v) dict \<Rightarrow> u64 \<Rightarrow> ('s \<Rightarrow> ('k, 'v) entry \<Rightarrow> 's) \<Rightarrow> 's \<Rightarrow> (('k, 'v) dict \<times> u64 \<times> 's) option" where
  "dictScanDefrag d v fn privdata =
     (if dictSize d = 0 then Some (d, 0, privdata)
      else do {
        let d = d\<lparr>pauserehash := pauserehash d + 1\<rparr>;
        (v, privdata) \<leftarrow>
          (if \<not> dictIsRehashing d then do {
             let m0 = DICTHT_SIZE_MASK (ht_size_exp (ht0 d));
             bucket \<leftarrow> arr_get (ht_table (ht0 d)) (uint (v AND m0));
             Some (scan_next m0 v, dictScanDefragBucket fn privdata bucket)
           } else do {
             let (h0, h1) =
               (if DICTHT_SIZE (ht_size_exp (ht0 d)) > DICTHT_SIZE (ht_size_exp (ht1 d)) then (ht1 d, ht0 d)
                else (ht0 d, ht1 d));
             let m0 = DICTHT_SIZE_MASK (ht_size_exp h0);
             let m1 = DICTHT_SIZE_MASK (ht_size_exp h1);
             bucket \<leftarrow> arr_get (ht_table h0) (uint (v AND m0));
             let privdata = dictScanDefragBucket fn privdata bucket;
             dictScan_loop (ht_table h1) m0 m1 fn v privdata
           });
        Some (d\<lparr>pauserehash := pauserehash d - 1\<rparr>, v, privdata)
      })"

definition dictScan ::
  "('k, 'v) dict \<Rightarrow> u64 \<Rightarrow> ('s \<Rightarrow> ('k, 'v) entry \<Rightarrow> 's) \<Rightarrow> 's \<Rightarrow> (('k, 'v) dict \<times> u64 \<times> 's) option" where
  "dictScan d v fn privdata = dictScanDefrag d v fn privdata"

subsection \<open>One call\<close>

text \<open>The end of the interval of hash values that a call has covered when it returns cursor \<open>v\<close>.\<close>

definition scan_end :: "u64 \<Rightarrow> nat" where
  "scan_end v = (if v = 0 then 2 ^ 64 else scan_pos v)"

definition up_to :: "nat \<Rightarrow> nat \<Rightarrow> nat" where
  "up_to e p = (p div 2 ^ (64 - e) + 1) * 2 ^ (64 - e)"

lemma dvd_2_64: "2 ^ (64 - e) dvd (2 :: nat) ^ 64"
  by (rule le_imp_power_dvd) simp

lemma up_to_greater: "p < up_to e p"
  by (simp add: up_to_def) (metis add.commute dividend_less_div_times zero_less_numeral zero_less_power)

lemma up_to_dvd: "2 ^ (64 - e) dvd up_to e p"
  unfolding up_to_def by (rule dvd_triv_right)

lemma up_to_least:
  assumes "2 ^ (64 - e) dvd q" "p < q"
  shows "up_to e p \<le> q"
proof -
  obtain c where c: "q = 2 ^ (64 - e) * c" using assms(1) by blast
  then have "p div 2 ^ (64 - e) < c" using assms(2) by (simp add: less_mult_imp_div_less mult.commute)
  then show ?thesis unfolding c up_to_def by (subst mult.commute) (rule mult_le_mono2, simp)
qed

lemma up_to_mono: "e0 \<le> e1 \<Longrightarrow> up_to e1 p \<le> up_to e0 p"
  by (rule up_to_least[OF dvd_trans[OF _ up_to_dvd] up_to_greater]) (simp add: le_imp_power_dvd)

lemma up_to_max: "p < 2 ^ 64 \<Longrightarrow> up_to e p \<le> 2 ^ 64"
  by (rule up_to_least[OF dvd_2_64])

lemma scan_end_next: "e \<le> 64 \<Longrightarrow> scan_end (scan_next (mask e) v) = up_to e (scan_pos v)"
proof -
  assume e: "e \<le> 64"
  have p: "scan_pos (scan_next (mask e) v) = up_to e (scan_pos v) mod 2 ^ 64"
    unfolding scan_pos_next[OF e] up_to_def ..
  have z: "scan_next (mask e) v = 0 \<longleftrightarrow> scan_pos (scan_next (mask e) v) = 0"
    by (simp add: scan_pos_def unat_eq_0)
  consider "up_to e (scan_pos v) = 2 ^ 64" | "up_to e (scan_pos v) < 2 ^ 64"
    using up_to_max[OF scan_pos_less, of e v] by linarith
  then show ?thesis
  proof cases
    case 2
    then show ?thesis using p z up_to_greater[of "scan_pos v" e] by (simp add: scan_end_def)
  qed (use p z in \<open>simp add: scan_end_def\<close>)
qed

lemma up_to_step:
  assumes "e0 \<le> e1" "up_to e1 p < up_to e0 p"
  shows "up_to e0 (up_to e1 p) = up_to e0 p"
proof (rule antisym)
  show "up_to e0 (up_to e1 p) \<le> up_to e0 p" by (rule up_to_least[OF up_to_dvd assms(2)])
  show "up_to e0 p \<le> up_to e0 (up_to e1 p)"
    by (rule up_to_least[OF up_to_dvd]) (use up_to_greater[of p e1] up_to_greater[of "up_to e1 p" e0] in simp)
qed

definition hash_pos :: "'k dictType \<Rightarrow> ('k, 'v) entry \<Rightarrow> nat" where
  "hash_pos ty en = scan_pos (hashFunction ty (fst en))"

lemma bucket_scan:
  assumes "ht_ok ty h" "e = nat (ht_size_exp h)"
  shows "\<exists>bucket. arr_get (ht_table h) (uint (v AND mask e)) = Some bucket \<and> set bucket \<subseteq> set (ht_entries h) \<and>
    (\<forall>en\<in>set (ht_entries h). scan_pos v \<le> hash_pos ty en \<and> hash_pos ty en < up_to e (scan_pos v) \<longrightarrow> en \<in> set bucket)"
proof -
  let ?i = "unat (take_bit e v)"
  have ok: "e \<le> 60" "length (ht_table h) = 2 ^ e"
    "\<And>i en. i < 2 ^ e \<Longrightarrow> en \<in> set (ht_table h ! i) \<Longrightarrow> unat (take_bit e (hashFunction ty (fst en))) = i"
    using assms by (auto simp: ht_ok_def)
  have i: "?i < length (ht_table h)" using unat_take_bit_less ok(2) by simp
  have get: "arr_get (ht_table h) (uint (v AND mask e)) = Some (ht_table h ! ?i)"
    using i by (simp add: arr_get_def take_bit_eq_mask[symmetric] uint_nat)
  have "en \<in> set (ht_table h ! ?i)"
    if en: "en \<in> set (ht_entries h)" "scan_pos v \<le> hash_pos ty en" "hash_pos ty en < up_to e (scan_pos v)" for en
  proof -
    obtain j where j: "j < length (ht_table h)" "en \<in> set (ht_table h ! j)"
      using en(1) by (auto simp: ht_entries_def in_set_conv_nth[of _ "ht_table h"])
    have "hash_pos ty en div 2 ^ (64 - e) = scan_pos v div 2 ^ (64 - e)"
    proof (rule antisym)
      show "hash_pos ty en div 2 ^ (64 - e) \<le> scan_pos v div 2 ^ (64 - e)"
        using en(3) unfolding up_to_def by (metis Suc_eq_plus1 less_Suc_eq_le less_mult_imp_div_less)
    qed (rule div_le_mono[OF en(2)])
    then have "take_bit e (hashFunction ty (fst en)) = take_bit e v"
      using ok(1) by (simp add: same_bucket_iff hash_pos_def)
    then have "j = ?i" using ok(3)[of j en] j ok(2) by simp
    then show ?thesis using j(2) by simp
  qed
  moreover have "set (ht_table h ! ?i) \<subseteq> set (ht_entries h)" using nth_mem[OF i] by (auto simp: ht_entries_def)
  ultimately show ?thesis using get by blast
qed

lemma dictScan_loop_spec:
  fixes h :: "('k, 'v) dictht"
  assumes "ht_ok ty h" "e1 = nat (ht_size_exp h)" "e0 \<le> e1"
  shows "\<exists>es v'. (\<forall>(fn :: 's \<Rightarrow> ('k, 'v) entry \<Rightarrow> 's) s. dictScan_loop (ht_table h) (mask e0) (mask e1) fn v s = Some (v', foldl fn s es)) \<and>
    set es \<subseteq> set (ht_entries h) \<and> scan_end v' = up_to e0 (scan_pos v) \<and>
    (\<forall>en\<in>set (ht_entries h). scan_pos v \<le> hash_pos ty en \<and> hash_pos ty en < scan_end v' \<longrightarrow> en \<in> set es)"
proof (induction "2 ^ 64 - scan_pos v" arbitrary: v rule: less_induct)
  case less
  have e1: "e1 \<le> 64" using assms(1,2) by (auto simp: ht_ok_def)
  obtain bucket where b: "arr_get (ht_table h) (uint (v AND mask e1)) = Some bucket" "set bucket \<subseteq> set (ht_entries h)"
      "\<And>en. en\<in>set (ht_entries h) \<Longrightarrow> scan_pos v \<le> hash_pos ty en \<Longrightarrow> hash_pos ty en < up_to e1 (scan_pos v) \<Longrightarrow> en \<in> set bucket"
    using bucket_scan[OF assms(1,2)] by blast
  let ?v = "scan_next (mask e1) v"
  have en: "scan_end ?v = up_to e1 (scan_pos v)" by (rule scan_end_next[OF e1])
  note stop = scan_stop_iff[OF assms(3) e1 scan_next_low[OF e1], of v]
  show ?case
  proof (cases "?v AND (mask e0 XOR mask e1) = 0")
    case True
    then have "2 ^ (64 - e0) dvd scan_end ?v"
      using stop dvd_2_64[of e0] unfolding scan_end_def by presburger
    then have "scan_end ?v = up_to e0 (scan_pos v)"
      using en up_to_mono[OF assms(3)] up_to_least[of e0 "scan_end ?v" "scan_pos v"] up_to_greater[of "scan_pos v" e1]
      by (simp add: order_antisym)
    then show ?thesis
      using b en True
      by (intro exI[of _ bucket] exI[of _ ?v]) (simp add: dictScan_loop.simps dictScanDefragBucket_def Let_def)
  next
    case False
    then have nz: "?v \<noteq> 0" by auto
    then have p: "scan_pos ?v = up_to e1 (scan_pos v)" using en by (simp add: scan_end_def)
    have lt: "scan_pos v < scan_pos ?v" using p up_to_greater by simp
    have "up_to e1 (scan_pos v) \<noteq> up_to e0 (scan_pos v)" using False stop p up_to_dvd[of e0 "scan_pos v"] by auto
    then have same: "up_to e0 (scan_pos ?v) = up_to e0 (scan_pos v)"
      using up_to_mono[OF assms(3), of "scan_pos v"] up_to_step[OF assms(3), of "scan_pos v"] unfolding p by linarith
    have "2 ^ 64 - scan_pos ?v < 2 ^ 64 - scan_pos v" using lt scan_pos_less[of ?v] by linarith
    from less.hyps[OF this] obtain es v' where ih:
      "\<And>(fn :: 's \<Rightarrow> ('k, 'v) entry \<Rightarrow> 's) s. dictScan_loop (ht_table h) (mask e0) (mask e1) fn ?v s = Some (v', foldl fn s es)"
      "set es \<subseteq> set (ht_entries h)" "scan_end v' = up_to e0 (scan_pos ?v)"
      "\<And>en. en\<in>set (ht_entries h) \<Longrightarrow> scan_pos ?v \<le> hash_pos ty en \<Longrightarrow> hash_pos ty en < scan_end v' \<Longrightarrow> en \<in> set es"
      by blast
    have "dictScan_loop (ht_table h) (mask e0) (mask e1) fn v s = Some (v', foldl fn s (bucket @ es))" for fn :: "'s \<Rightarrow> ('k, 'v) entry \<Rightarrow> 's" and s
      using b(1) False ih(1) by (simp add: dictScan_loop.simps[of _ _ _ _ v] dictScanDefragBucket_def Let_def)
    moreover have "en \<in> set (bucket @ es)" if "en \<in> set (ht_entries h)" "scan_pos v \<le> hash_pos ty en" "hash_pos ty en < scan_end v'" for en
      using b(3)[OF that(1,2)] ih(4)[OF that(1) _ that(3)] p by (cases "hash_pos ty en < up_to e1 (scan_pos v)") auto
    ultimately show ?thesis
      using b(2) ih(2,3) same by (intro exI[of _ "bucket @ es"] exI[of _ v']) auto
  qed
qed


lemma dictScan_spec:
  fixes d :: "('k, 'v) dict"
  assumes "dict_inv d" "ht_size_exp (ht0 d) \<le> int e" "e \<le> 64"
  shows "\<exists>es v'. (\<forall>(fn :: 's \<Rightarrow> ('k, 'v) entry \<Rightarrow> 's) s. dictScan d v fn s = Some (d, v', foldl fn s es)) \<and>
    set es \<subseteq> set (dict_entries d) \<and> up_to e (scan_pos v) \<le> scan_end v' \<and> 2 ^ (64 - e) dvd scan_end v' \<and>
    (\<forall>en\<in>set (dict_entries d). scan_pos v \<le> hash_pos (d_type d) en \<and> hash_pos (d_type d) en < scan_end v' \<longrightarrow> en \<in> set es)"
proof (cases "dictSize d = 0")
  case True
  then have "dict_entries d = []" using dictSize_eq(1)[OF assms(1)] by simp
  moreover have "up_to e (scan_pos v) \<le> scan_end 0" "2 ^ (64 - e) dvd scan_end 0"
    using up_to_max[OF scan_pos_less] dvd_2_64 by (simp_all only: scan_end_def if_True simp_thms)
  ultimately show ?thesis using True by (intro exI[of _ "[]"] exI[of _ 0]) (simp add: dictScan_def dictScanDefrag_def)
next
  case False
  then have "dict_entries d \<noteq> []" using dictSize_eq(1)[OF assms(1)] by auto
  then have ok0: "ht_ok (d_type d) (ht0 d)" by (rule dict_inv_ht0(3)[OF assms(1)])
  have covers: "up_to e p \<le> up_to e' p \<and> 2 ^ (64 - e) dvd up_to e' p" if "e' \<le> e" for e' p
    using up_to_mono[OF that] dvd_trans[OF _ up_to_dvd[of e' p], of "2 ^ (64 - e)"] that by (simp add: le_imp_power_dvd)
  show ?thesis
  proof (cases "dictIsRehashing d")
    case nr: False
    let ?e = "nat (ht_size_exp (ht0 d))"
    have e: "0 \<le> ht_size_exp (ht0 d)" "?e \<le> e" "?e \<le> 64" using ok0 assms(2,3) by (auto simp: ht_ok_def)
    obtain bucket where b: "arr_get (ht_table (ht0 d)) (uint (v AND mask ?e)) = Some bucket" "set bucket \<subseteq> set (ht_entries (ht0 d))"
      "\<And>en. en\<in>set (ht_entries (ht0 d)) \<Longrightarrow> scan_pos v \<le> hash_pos (d_type d) en \<Longrightarrow>
        hash_pos (d_type d) en < up_to ?e (scan_pos v) \<Longrightarrow> en \<in> set bucket"
      using bucket_scan[OF ok0 refl] by blast
    have "dict_entries d = ht_entries (ht0 d)" using assms(1) nr by (simp add: dict_inv_def dict_entries_def)
    moreover have "dictScan d v fn s = Some (d, scan_next (mask ?e) v, foldl fn s bucket)" for fn :: "'s \<Rightarrow> ('k, 'v) entry \<Rightarrow> 's" and s
      using False nr b(1) e(1) by (simp add: dictScan_def dictScanDefrag_def dictIsRehashing_def DICTHT_SIZE_MASK_eq dictScanDefragBucket_def Let_def)
    ultimately show ?thesis
      using b(2,3) covers[OF e(2)] scan_end_next[OF e(3)]
      by (intro exI[of _ bucket] exI[of _ "scan_next (mask ?e) v"]) simp
  next
    case rh: True
    then have ok1: "ht_ok (d_type d) (ht1 d)" using assms(1) by (simp add: dict_inv_def)
    define sw where "sw \<longleftrightarrow> DICTHT_SIZE (ht_size_exp (ht0 d)) > DICTHT_SIZE (ht_size_exp (ht1 d))"
    define h0 h1 where "h0 = (if sw then ht1 d else ht0 d)" and "h1 = (if sw then ht0 d else ht1 d)"
    let ?e0 = "nat (ht_size_exp h0)" and ?e1 = "nat (ht_size_exp h1)"
    have ok: "ht_ok (d_type d) h0" "ht_ok (d_type d) h1" using ok0 ok1 by (simp_all add: h0_def h1_def)
    have ex: "0 \<le> ht_size_exp h0" "0 \<le> ht_size_exp h1" using ok by (simp_all add: ht_ok_def)
    have "?e0 \<le> ?e1"
      using ok0 ok1 by (auto simp: h0_def h1_def sw_def DICTHT_SIZE_def ht_ok_def)
    moreover have "?e0 \<le> nat (ht_size_exp (ht0 d)) \<or> ?e1 \<le> nat (ht_size_exp (ht0 d))" by (simp add: h0_def h1_def)
    ultimately have e: "?e0 \<le> ?e1" "?e0 \<le> e" using assms(2) by linarith+
    obtain bucket where b: "arr_get (ht_table h0) (uint (v AND mask ?e0)) = Some bucket" "set bucket \<subseteq> set (ht_entries h0)"
      "\<And>en. en\<in>set (ht_entries h0) \<Longrightarrow> scan_pos v \<le> hash_pos (d_type d) en \<Longrightarrow>
        hash_pos (d_type d) en < up_to ?e0 (scan_pos v) \<Longrightarrow> en \<in> set bucket"
      using bucket_scan[OF ok(1) refl] by blast
    obtain es v' where l: "\<And>(fn :: 's \<Rightarrow> ('k, 'v) entry \<Rightarrow> 's) s. dictScan_loop (ht_table h1) (mask ?e0) (mask ?e1) fn v s = Some (v', foldl fn s es)"
      "set es \<subseteq> set (ht_entries h1)" "scan_end v' = up_to ?e0 (scan_pos v)"
      "\<And>en. en\<in>set (ht_entries h1) \<Longrightarrow> scan_pos v \<le> hash_pos (d_type d) en \<Longrightarrow> hash_pos (d_type d) en < scan_end v' \<Longrightarrow> en \<in> set es"
      using dictScan_loop_spec[OF ok(2) refl e(1), of v, where ?'s = 's] by blast
    have pair: "(if sw then (ht1 d, ht0 d) else (ht0 d, ht1 d)) = (h0, h1)" by (simp add: h0_def h1_def)
    have m: "DICTHT_SIZE_MASK (ht_size_exp h0) = mask ?e0" "DICTHT_SIZE_MASK (ht_size_exp h1) = mask ?e1"
      using ex by (simp_all add: DICTHT_SIZE_MASK_eq)
    have entries: "set (dict_entries d) = set (ht_entries h0) \<union> set (ht_entries h1)"
      by (auto simp: dict_entries_def h0_def h1_def)
    have "dictScan d v fn s = Some (d, v', foldl fn s (bucket @ es))" for fn :: "'s \<Rightarrow> ('k, 'v) entry \<Rightarrow> 's" and s
      using False rh b(1) l(1) pair[unfolded sw_def] m
      by (cases "DICTHT_SIZE (ht_size_exp (ht1 d)) < DICTHT_SIZE (ht_size_exp (ht0 d))")
         (simp_all add: dictScan_def dictScanDefrag_def dictIsRehashing_def dictScanDefragBucket_def Let_def)
    then show ?thesis
      using b(2,3) l(2-4) covers[OF e(2)] entries
      by (intro exI[of _ "bucket @ es"] exI[of _ v']) auto
  qed
qed


subsection \<open>Whole iterations\<close>

text \<open>
  The loop of a client: call \<open>dictScan\<close> with the cursor it returned last, until that is 0.  The
  list holds the states in which the calls find the dictionary; anything may happen between them.
\<close>

primrec scan_run ::
  "('k, 'v) dict list \<Rightarrow> ('s \<Rightarrow> ('k, 'v) entry \<Rightarrow> 's) \<Rightarrow> u64 \<Rightarrow> 's \<Rightarrow> (u64 \<times> 's) option" where
  "scan_run [] fn v s = Some (v, s)"
| "scan_run (d # ds) fn v s =
     do { (_, v, s) \<leftarrow> dictScan d v fn s; if v = 0 then Some (0, s) else scan_run ds fn v s }"

lemma scan_run_spec:
  fixes ds :: "('k, 'v) dict list"
  assumes "e \<le> 64" "\<forall>d\<in>set ds. dict_inv d \<and> hashFunction (d_type d) = h \<and> ht_size_exp (ht0 d) \<le> int e"
    "2 ^ (64 - e) dvd scan_pos v" "2 ^ 64 \<le> scan_pos v + length ds * 2 ^ (64 - e)"
  shows "\<exists>es. (\<forall>(fn :: 's \<Rightarrow> ('k, 'v) entry \<Rightarrow> 's) s. scan_run ds fn v s = Some (0, foldl fn s es)) \<and>
    set es \<subseteq> (\<Union>d\<in>set ds. set (dict_entries d)) \<and>
    (\<forall>k. (\<forall>d\<in>set ds. k \<in> dom (dict_map d)) \<and> scan_pos v \<le> scan_pos (h k) \<longrightarrow> k \<in> fst ` set es)"
  using assms(2-4)
proof (induction ds arbitrary: v)
  case Nil
  then show ?case using scan_pos_less[of v] by simp
next
  case (Cons d ds)
  have d: "dict_inv d" "ht_size_exp (ht0 d) \<le> int e" "hashFunction (d_type d) = h" using Cons.prems(1) by auto
  obtain es v' where c: "\<And>(fn :: 's \<Rightarrow> ('k, 'v) entry \<Rightarrow> 's) s. dictScan d v fn s = Some (d, v', foldl fn s es)"
    "set es \<subseteq> set (dict_entries d)" "up_to e (scan_pos v) \<le> scan_end v'" "2 ^ (64 - e) dvd scan_end v'"
    "\<And>en. en\<in>set (dict_entries d) \<Longrightarrow> scan_pos v \<le> hash_pos (d_type d) en \<Longrightarrow> hash_pos (d_type d) en < scan_end v' \<Longrightarrow> en \<in> set es"
    using dictScan_spec[OF d(1,2) assms(1), of v, where ?'s = 's] by blast
  have emit: "k \<in> fst ` set es" if k: "k \<in> dom (dict_map d)" "scan_pos v \<le> scan_pos (h k)" "scan_pos (h k) < scan_end v'" for k
  proof -
    obtain w where "(k, w) \<in> set (dict_entries d)" using k(1) by (auto simp: dict_map_def dest: map_of_SomeD)
    then show ?thesis using c(5)[of "(k, w)"] k(2,3) d(3) by (force simp: hash_pos_def)
  qed
  show ?case
  proof (cases "v' = 0")
    case True
    then have "scan_pos (h k) < scan_end v'" for k using scan_pos_less[of "h k"] by (simp add: scan_end_def)
    then show ?thesis using True c(1,2) emit by (intro exI[of _ es]) auto
  next
    case False
    then have p: "scan_end v' = scan_pos v'" by (simp add: scan_end_def)
    have "scan_pos v + 2 ^ (64 - e) \<le> scan_pos v'"
      using c(3) Cons.prems(2) unfolding p up_to_def by simp
    then have "2 ^ 64 \<le> scan_pos v' + length ds * 2 ^ (64 - e)"
      using Cons.prems(3) by (simp only: length_Cons mult_Suc)
    from Cons.IH[OF _ c(4)[unfolded p] this] Cons.prems(1) obtain es2 where r:
      "\<And>(fn :: 's \<Rightarrow> ('k, 'v) entry \<Rightarrow> 's) s. scan_run ds fn v' s = Some (0, foldl fn s es2)"
      "set es2 \<subseteq> (\<Union>d\<in>set ds. set (dict_entries d))"
      "\<And>k. (\<forall>d\<in>set ds. k \<in> dom (dict_map d)) \<Longrightarrow> scan_pos v' \<le> scan_pos (h k) \<Longrightarrow> k \<in> fst ` set es2"
      by (smt (verit) list.set_intros(2))
    have "k \<in> fst ` set (es @ es2)" if "\<forall>d\<in>set (d # ds). k \<in> dom (dict_map d)" "scan_pos v \<le> scan_pos (h k)" for k
      using that emit[of k] r(3)[of k] p by (cases "scan_pos (h k) < scan_pos v'") auto
    moreover have "set (es @ es2) \<subseteq> (\<Union>d\<in>set (d # ds). set (dict_entries d))" using c(2) r(2) by auto
    ultimately show ?thesis using False c(1) r(1) by (intro exI[of _ "es @ es2"]) simp
  qed
qed


text \<open>The order in which the buckets of a table at rest are visited.\<close>

definition scan_bucket :: "nat \<Rightarrow> nat \<Rightarrow> nat" where
  "scan_bucket e j = unat (take_bit e (rev_ul (of_nat (j * 2 ^ (64 - e)))))"

lemma scan_pos_of_nat: "p < 2 ^ 64 \<Longrightarrow> scan_pos (rev_ul (of_nat p)) = p"
  by (simp add: scan_pos_def unat_of_nat take_bit_nat_eq_self)

lemma mult_pow_less: "j < 2 ^ e \<Longrightarrow> e \<le> 64 \<Longrightarrow> j * 2 ^ (64 - e) < (2 :: nat) ^ 64"
proof -
  assume a: "j < 2 ^ e" "e \<le> 64"
  then have "j * 2 ^ (64 - e) < 2 ^ e * (2 :: nat) ^ (64 - e)" by simp
  also have "\<dots> = 2 ^ 64" using a(2) by (simp only: power_add[symmetric] le_add_diff_inverse)
  finally show ?thesis .
qed

lemma scan_buckets_perm:
  assumes "e \<le> 64"
  shows "mset (map (scan_bucket e) [0..<2 ^ e]) = mset [0..<2 ^ e]"
proof -
  have "inj_on (scan_bucket e) {0..<2 ^ e}"
  proof (rule inj_onI)
    fix i j :: nat assume ij: "i \<in> {0..<2 ^ e}" "j \<in> {0..<2 ^ e}" "scan_bucket e i = scan_bucket e j"
    then have "take_bit e (rev_ul (of_nat (i * 2 ^ (64 - e)))) = take_bit e (rev_ul (of_nat (j * 2 ^ (64 - e))))"
      by (simp only: scan_bucket_def word_unat_eq_iff)
    then show "i = j"
      using ij(1,2) mult_pow_less[OF _ assms] by (simp only: same_bucket_iff[OF assms] scan_pos_of_nat atLeastLessThan_iff) simp
  qed
  moreover have "scan_bucket e ` {0..<2 ^ e} \<subseteq> {0..<2 ^ e}" by (auto simp: scan_bucket_def unat_take_bit_less)
  ultimately have "scan_bucket e ` {0..<2 ^ e} = {0..<2 ^ e}" by (simp add: endo_inj_surj)
  then have "set (map (scan_bucket e) [0..<2 ^ e]) = set [0..<2 ^ e]" by (simp only: set_map set_upt)
  moreover have "distinct (map (scan_bucket e) [0..<2 ^ e])"
    using \<open>inj_on (scan_bucket e) {0..<2 ^ e}\<close> by (simp add: distinct_map)
  ultimately show ?thesis using set_eq_iff_mset_eq_distinct distinct_upt by blast
qed

lemma dictScan_at_rest:
  assumes "dict_inv d" "\<not> dictIsRehashing d" "dictSize d \<noteq> 0" "e = nat (ht_size_exp (ht0 d))"
  shows "e \<le> 64" "length (ht_table (ht0 d)) = 2 ^ e" "DICTHT_SIZE (ht_size_exp (ht0 d)) = 2 ^ e"
    "dictScan d v fn s = Some (d, scan_next (mask e) v, foldl fn s (ht_table (ht0 d) ! unat (take_bit e v)))"
proof -
  have "dict_entries d \<noteq> []" using assms(3) dictSize_eq(1)[OF assms(1)] by auto
  then have ok: "ht_ok (d_type d) (ht0 d)" by (rule dict_inv_ht0(3)[OF assms(1)])
  then show "e \<le> 64" "DICTHT_SIZE (ht_size_exp (ht0 d)) = 2 ^ e" and len: "length (ht_table (ht0 d)) = 2 ^ e"
    using assms(4) by (auto simp: ht_ok_def DICTHT_SIZE_def)
  have "arr_get (ht_table (ht0 d)) (uint (v AND mask e)) = Some (ht_table (ht0 d) ! unat (take_bit e v))"
    using unat_take_bit_less[of e v] len by (simp add: arr_get_def take_bit_eq_mask[symmetric] uint_nat)
  moreover have "DICTHT_SIZE_MASK (ht_size_exp (ht0 d)) = mask e" using ok assms(4) by (simp add: ht_ok_def DICTHT_SIZE_MASK_eq)
  ultimately show "dictScan d v fn s = Some (d, scan_next (mask e) v, foldl fn s (ht_table (ht0 d) ! unat (take_bit e v)))"
    using assms(2,3) by (simp add: dictScan_def dictScanDefrag_def dictIsRehashing_def dictScanDefragBucket_def Let_def)
qed

lemma scan_run_replicate:
  assumes "dict_inv d" "\<not> dictIsRehashing d" "dictSize d \<noteq> 0" "e = nat (ht_size_exp (ht0 d))"
    and "i + Suc n = 2 ^ e" "scan_pos v = i * 2 ^ (64 - e)"
  shows "scan_run (replicate (Suc n) d) fn v s =
    Some (0, foldl fn s (concat (map (\<lambda>j. ht_table (ht0 d) ! scan_bucket e j) [i..<2 ^ e])))"
  using assms(5,6)
proof (induction n arbitrary: i v s)
  note call = dictScan_at_rest[OF assms(1-4)]
  let ?K = "2 ^ (64 - e) :: nat"
  have bucket: "unat (take_bit e v) = scan_bucket e i" if "scan_pos v = i * ?K" for v i
  proof -
    have "rev_ul v = of_nat (scan_pos v)" by (simp add: scan_pos_def of_nat_unat)
    then have "v = rev_ul (of_nat (i * ?K))" unfolding that using rev_ul_rev_ul[of v] by simp
    then show ?thesis by (simp add: scan_bucket_def)
  qed
  have nxt: "scan_end (scan_next (mask e) v) = Suc i * ?K" if "scan_pos v = i * ?K" for v i
    using that by (simp add: scan_end_next[OF call(1)] up_to_def)
  have top: "2 ^ e * ?K = 2 ^ 64" using call(1) by (simp only: power_add[symmetric] le_add_diff_inverse)
  {
    case 0
    have "scan_end (scan_next (mask e) v) = 2 ^ 64" unfolding nxt[OF 0(2)] using 0(1) top by (simp only: add_Suc_right add_0_right)
    then have "scan_next (mask e) v = 0" using scan_pos_less[of "scan_next (mask e) v"] by (auto simp: scan_end_def split: if_splits)
    then show ?case by (simp add: call(4) bucket[OF 0(2)] flip: 0(1))
  next
    case (Suc n)
    have "scan_end (scan_next (mask e) v) < 2 ^ 64"
      using nxt[OF Suc.prems(2)] mult_pow_less[of "Suc i" e] Suc.prems(1) call(1) by simp
    then have "scan_next (mask e) v \<noteq> 0" by (auto simp: scan_end_def)
    moreover from this have "scan_pos (scan_next (mask e) v) = Suc i * ?K" using nxt[OF Suc.prems(2)] by (simp add: scan_end_def)
    moreover have "[i..<2 ^ e] = i # [Suc i..<2 ^ e]" using Suc.prems(1) by (simp add: upt_conv_Cons)
    ultimately show ?case
      using Suc.IH[of "Suc i" "scan_next (mask e) v"] Suc.prems(1) by (simp add: call(4) bucket[OF Suc.prems(2)])
  }
qed


subsection \<open>Properties\<close>

definition collect :: "('k, 'v) entry list \<Rightarrow> ('k, 'v) entry \<Rightarrow> ('k, 'v) entry list" where
  "collect es en = es @ [en]"

lemma foldl_collect [simp]: "foldl collect xs es = xs @ es"
  by (induction es arbitrary: xs) (simp_all add: collect_def)

text \<open>
  C7: a complete iteration ends and misses nothing, whatever happens to the dictionary between the
  calls.  The calls find the dictionary in the states \<open>ds\<close>: it may have been changed, resized up or
  down, or be in the middle of a rehash, as long as the table sizes stay below \<open>2 ^ e\<close>.  Then the cursor comes
  back to 0 after at most \<open>2 ^ e\<close> calls, every key that was present throughout has been reported,
  and every reported entry was in the dictionary at some call.
\<close>

theorem dictScan_complete:
  assumes "e \<le> 64" "\<forall>d\<in>set ds. dict_inv d \<and> hashFunction (d_type d) = h \<and> ht_size_exp (ht0 d) \<le> int e"
    "length ds = 2 ^ e"
  shows "\<exists>es. scan_run ds collect 0 [] = Some (0, es) \<and>
    (\<forall>k. (\<forall>d\<in>set ds. k \<in> dom (dict_map d)) \<longrightarrow> k \<in> fst ` set es) \<and>
    (\<forall>(k, w)\<in>set es. \<exists>d\<in>set ds. dict_map d k = Some w)"
proof -
  have "2 ^ 64 \<le> scan_pos 0 + length ds * 2 ^ (64 - e)"
    using assms(1,3) by (simp only: power_add[symmetric] le_add_diff_inverse scan_pos_0)
  then obtain es where es: "\<And>fn (s :: ('a, 'b) entry list). scan_run ds fn 0 s = Some (0, foldl fn s es)"
    "set es \<subseteq> (\<Union>d\<in>set ds. set (dict_entries d))"
    "\<And>k. (\<forall>d\<in>set ds. k \<in> dom (dict_map d)) \<Longrightarrow> k \<in> fst ` set es"
    using scan_run_spec[OF assms(1,2), of 0, where ?'s = "('a, 'b) entry list"] by auto
  have "\<exists>d\<in>set ds. dict_map d k = Some w" if kw: "(k, w) \<in> set es" for k w
  proof -
    obtain d where "d \<in> set ds" "(k, w) \<in> set (dict_entries d)" using kw es(2) by blast
    then show ?thesis using assms(2) by (auto simp: dict_map_def dict_inv_def)
  qed
  then show ?thesis using es(1,3) by auto
qed

text \<open>The second state has finished the rehash that the first one is in the middle of.\<close>

definition example_rest :: "(nat, bool) dict" where
  "example_rest = \<lparr>d_type = example_type,
     ht0 = \<lparr>ht_table = [[], [(1, Some True)], [], [], [], [(5, None)], [], []], ht_used = 2, ht_size_exp = 3\<rparr>,
     ht1 = dictReset, rehashidx = -1, pauserehash = 0, pauseAutoResize = 0\<rparr>"

lemma example_rest_inv: "dict_inv example_rest" "\<not> dictIsRehashing example_rest" "dictSize example_rest = 2"
proof -
  have all: "(\<forall>i<n. P i) \<longleftrightarrow> list_all P [0..<n]" for P and n :: nat by (auto simp: list_all_iff)
  have "ht_ok example_type (ht0 example_rest)"
    by (simp add: ht_ok_def all example_rest_def example_type_def ht_entries_def take_bit_eq_mod upt_rec)
  then show "dict_inv example_rest"
    by (simp add: dict_inv_def dictIsRehashing_def) (simp add: example_rest_def dict_entries_def ht_entries_def dictReset_def)
qed (simp_all add: example_rest_def dictIsRehashing_def dictSize_def dictReset_def)

lemma example_states:
  assumes "d \<in> {example_dict, example_rest}"
  shows "dict_inv d" "hashFunction (d_type d) = of_nat" "ht_size_exp (ht0 d) \<le> int 3" "dict_map d 1 \<noteq> None" "dict_map d 5 \<noteq> None"
  using assms example_dict_inv(1) example_rest_inv(1)
  by (auto simp: example_dict_def example_rest_def example_type_def dict_map_def dict_entries_def ht_entries_def dictReset_def)

theorem dictScan_complete_witness:
  "\<exists>es. scan_run (example_dict # replicate 7 example_rest) collect 0 [] = Some (0, es) \<and> {1, 5} \<subseteq> fst ` set es"
proof -
  let ?ds = "example_dict # replicate 7 example_rest"
  have set: "set ?ds = {example_dict, example_rest}" by simp
  have inv: "\<forall>d\<in>set ?ds. dict_inv d \<and> hashFunction (d_type d) = of_nat \<and> ht_size_exp (ht0 d) \<le> int 3"
    unfolding set using example_states(1-3) by blast
  have keys: "\<forall>d\<in>set ?ds. k \<in> dom (dict_map d)" if "k \<in> {1, 5}" for k
    unfolding set using example_states(4,5) that by (fastforce simp: dom_def)
  have "(3 :: nat) \<le> 64" "length ?ds = 2 ^ 3" by simp_all
  then obtain es where es: "scan_run ?ds collect 0 [] = Some (0, es)"
    "\<And>k. \<forall>d\<in>set ?ds. k \<in> dom (dict_map d) \<Longrightarrow> k \<in> fst ` set es"
    using dictScan_complete[OF _ inv] by blast
  have "1 \<in> fst ` set es" "5 \<in> fst ` set es" by (rule es(2)[OF keys], simp)+
  with es(1) show ?thesis by (intro exI[of _ es] conjI) (simp_all only: insert_subset empty_subsetI simp_thms)
qed

text \<open>
  C22: on a dictionary that does not change and is not rehashing the iteration reports every
  entry exactly once, in as many calls as there are buckets.
\<close>

theorem dictScan_once:
  assumes "dict_inv d" "\<not> dictIsRehashing d" "dictSize d \<noteq> 0"
  shows "\<exists>es. scan_run (replicate (DICTHT_SIZE (ht_size_exp (ht0 d))) d) collect 0 [] = Some (0, es) \<and>
    mset es = mset (dict_entries d)"
proof -
  define e where "e = nat (ht_size_exp (ht0 d))"
  note rest = dictScan_at_rest[OF assms e_def]
  let ?t = "ht_table (ht0 d)"
  let ?es = "concat (map (\<lambda>j. ?t ! scan_bucket e j) [0..<2 ^ e])"
  have "mset ?es = sum_mset (image_mset (\<lambda>i. mset (?t ! i)) (mset (map (scan_bucket e) [0..<2 ^ e])))"
    by (simp add: mset_concat sum_mset_sum_list comp_def image_mset.compositionality flip: sum_mset_sum_list)
  also have "\<dots> = sum_mset (image_mset (\<lambda>i. mset (?t ! i)) (mset [0..<length ?t]))"
    unfolding scan_buckets_perm[OF rest(1)] rest(2) ..
  also have "\<dots> = mset (concat (map (\<lambda>i. ?t ! i) [0..<length ?t]))"
    by (simp add: mset_concat sum_mset_sum_list comp_def image_mset.compositionality flip: sum_mset_sum_list)
  also have "\<dots> = mset (dict_entries d)"
    using assms(1,2) by (simp add: map_nth dict_entries_def ht_entries_def dict_inv_def) (simp add: dictReset_def)
  finally have es: "mset ?es = mset (dict_entries d)" .
  obtain n where n: "2 ^ e = Suc n" by (metis not0_implies_Suc power_not_zero zero_neq_numeral)
  then have "DICTHT_SIZE (ht_size_exp (ht0 d)) = Suc n" using rest(3) by simp
  then show ?thesis
    using scan_run_replicate[OF assms e_def, of 0 n 0 collect "[]"] n es by simp
qed


theorem dictScan_once_witness:
  "\<exists>es. scan_run (replicate 8 example_rest) collect 0 [] = Some (0, es) \<and> mset es = {#(1, Some True), (5, None)#}"
  using dictScan_once[OF example_rest_inv(1,2)] example_rest_inv(3)
  by (simp add: example_rest_def DICTHT_SIZE_def dict_entries_def ht_entries_def dictReset_def)

end
