(* ===== verification/Kvstore_Scan.thy ===== *)
theory Kvstore_Scan
  imports Kvstore Dict_Scan
begin

text \<open>
  \<open>kvstoreScan\<close> (\<^verbatim>\<open>kvstore.c\<close>): the iteration over all dictionaries of a store.  The cursor holds the
  index of the dictionary in its low bits and the cursor of \<open>dictScan\<close> above them.  The guarantee
  of \<open>dictScan\<close> and the search for the next non-empty slot give that of the whole iteration.
\<close>

subsection \<open>The scan\<close>

definition kvstoreScan ::
  "(int \<Rightarrow> bool) option \<Rightarrow> ('k, 'v) kvstore \<Rightarrow> u64 \<Rightarrow> int \<Rightarrow> ('s \<Rightarrow> ('k, 'v) entry \<Rightarrow> 's) \<Rightarrow>
   (('k, 'v) dict \<Rightarrow> int \<Rightarrow> bool) option \<Rightarrow> 's \<Rightarrow> (('k, 'v) kvstore \<times> u64 \<times> 's) option" where
  "kvstoreScan canFreeDict kvs cursor onlydidx scan_cb skip_cb privdata =
     (let (didx, cursor) = getAndClearDictIndexFromCursor kvs cursor in
      if onlydidx \<ge> 0 \<and> didx > onlydidx then Some (kvs, 0, privdata)
      else do {
        (didx, cursor) \<leftarrow>
          (if onlydidx \<ge> 0 \<and> didx < onlydidx then
             if onlydidx < num_dicts kvs then Some (onlydidx, 0) else None
           else Some (didx, cursor));
        dp \<leftarrow> kvstoreGetDict kvs didx;
        let skip = (case dp of None \<Rightarrow> True
                    | Some d \<Rightarrow> (case skip_cb of None \<Rightarrow> False | Some f \<Rightarrow> f d didx));
        (kvs, cursor', privdata) \<leftarrow>
          (if skip then Some (kvs, 0, privdata)
           else do {
             d \<leftarrow> dp;
             (d, c, privdata) \<leftarrow> dictScan d cursor scan_cb privdata;
             kvs \<leftarrow> kvstorePutDict kvs didx (Some d);
             kvs \<leftarrow> freeDictIfNeeded canFreeDict kvs didx;
             Some (kvs, c, privdata)
           });
        if (cursor' = 0 \<or> skip) \<and> onlydidx \<ge> 0 then Some (kvs, 0, privdata)
        else do {
          didx \<leftarrow> (if cursor' = 0 \<or> skip then kvstoreGetNextNonEmptyDictIndex kvs didx else Some didx);
          if didx = -1 then Some (kvs, 0, privdata)
          else Some (kvs, addDictIndexToCursor kvs didx cursor', privdata)
        }
      })"

subsection \<open>Cursors\<close>

lemma kvs_core_single: "kvs_core kvs \<Longrightarrow> num_dicts kvs = 1 \<longleftrightarrow> num_dicts_bits kvs = 0"
  using kvs_coreD(2)[of kvs] one_less_power[of "2 :: int" "num_dicts_bits kvs"] by fastforce

lemma getAndClear_eq:
  assumes "kvs_core kvs"
  shows "getAndClearDictIndexFromCursor kvs c = (uint (take_bit (num_dicts_bits kvs) c), drop_bit (num_dicts_bits kvs) c)"
proof (cases "num_dicts_bits kvs = 0")
  case False
  then have "num_dicts kvs \<noteq> 1" using kvs_core_single[OF assms] by simp
  then show ?thesis
    using kvs_coreD(2,4)[OF assms] by (simp add: getAndClearDictIndexFromCursor_def take_bit_eq_mask mask_eq_exp_minus_1)
qed (use kvs_coreD(2)[OF assms] in \<open>simp add: getAndClearDictIndexFromCursor_def\<close>)

lemma addDictIndex_eq:
  assumes "kvs_core kvs" "i < 2 ^ num_dicts_bits kvs"
  shows "addDictIndexToCursor kvs (int i) v = push_bit (num_dicts_bits kvs) v OR of_nat i"
  using assms kvs_core_single[OF assms(1)] by (auto simp: addDictIndexToCursor_def)

lemma decode_encode:
  assumes "i < 2 ^ b" "b \<le> 64" "take_bit (64 - b) v = v"
  shows "take_bit b (push_bit b v OR of_nat i :: u64) = of_nat i" "drop_bit b (push_bit b v OR of_nat i :: u64) = v"
proof -
  have lo: "bit (of_nat i :: u64) n \<Longrightarrow> n < b" for n
  proof -
    have "take_bit b i = i" using assms(1) by (simp add: take_bit_nat_eq_self)
    then show "bit (of_nat i :: u64) n \<Longrightarrow> n < b" by (metis bit_of_nat_iff_bit bit_take_bit_iff bit_of_nat_iff)
  qed
  have hi: "bit v n \<Longrightarrow> n < 64 - b" for n using assms(3) by (metis bit_take_bit_iff)
  show "take_bit b (push_bit b v OR of_nat i :: u64) = of_nat i"
    by (rule bit_eqI) (auto simp: bit_take_bit_iff bit_or_iff bit_push_bit_iff dest: lo)
  show "drop_bit b (push_bit b v OR of_nat i :: u64) = v"
    using lo hi assms(2) by (intro bit_eqI) (force simp: bit_drop_bit_eq bit_or_iff bit_push_bit_iff)
qed


text \<open>The position of a cursor in the sequence of all slots, and the end of what a call has covered.\<close>

definition kvs_pos :: "nat \<Rightarrow> u64 \<Rightarrow> nat" where
  "kvs_pos b c = unat (take_bit b c) * 2 ^ 64 + scan_pos (drop_bit b c)"

definition kvs_end :: "nat \<Rightarrow> u64 \<Rightarrow> nat" where
  "kvs_end b c = (if c = 0 then 2 ^ b * 2 ^ 64 else kvs_pos b c)"

definition key_pos :: "('k \<Rightarrow> u64) \<Rightarrow> nat \<Rightarrow> 'k \<Rightarrow> nat" where
  "key_pos h j k = j * 2 ^ 64 + scan_pos (h k)"

lemma key_pos_less: "j < n \<Longrightarrow> key_pos h j k < n * 2 ^ 64"
proof -
  assume "j < n"
  then have "Suc j * 2 ^ 64 \<le> n * (2 ^ 64 :: nat)" by (intro mult_le_mono1) simp
  then show ?thesis using scan_pos_less[of "h k"] unfolding key_pos_def by (simp only: mult_Suc)
qed

lemma kvs_end_encode:
  assumes "kvs_core kvs" "b = num_dicts_bits kvs" "i < 2 ^ b" "take_bit (64 - b) v = v" "i = 0 \<Longrightarrow> v \<noteq> 0"
  shows "kvs_end b (addDictIndexToCursor kvs (int i) v) = i * 2 ^ 64 + scan_pos v"
    "addDictIndexToCursor kvs (int i) v \<noteq> 0"
proof -
  have b: "b \<le> 16" using kvs_coreD(4)[OF assms(1)] assms(2) by simp
  let ?c = "addDictIndexToCursor kvs (int i) v"
  have c: "?c = push_bit b v OR of_nat i" using addDictIndex_eq[OF assms(1)] assms(2,3) by simp
  have dec: "take_bit b ?c = of_nat i" "drop_bit b ?c = v"
    unfolding c using decode_encode[OF assms(3) _ assms(4)] b by simp_all
  have "(2 :: nat) ^ b \<le> 2 ^ 16" using b by (intro power_increasing) simp_all
  then have i: "unat (of_nat i :: u64) = i" using assms(3) by (simp add: unat_of_nat take_bit_nat_eq_self)
  show nz: "?c \<noteq> 0"
  proof
    assume "?c = 0"
    then have "v = 0" "of_nat i = (0 :: u64)" using dec by simp_all
    then show False using i assms(5) by simp
  qed
  then show "kvs_end b ?c = i * 2 ^ 64 + scan_pos v" by (simp only: kvs_end_def kvs_pos_def dec i if_False)
qed

lemma next_slot:
  assumes "kvs_ok kvs" "i < length (kvs_dicts kvs)"
  shows "\<exists>r. kvstoreGetNextNonEmptyDictIndex kvs (int i) = Some r \<and>
    (r = -1 \<and> (\<forall>j<length (kvs_dicts kvs). i < j \<longrightarrow> kvs_map kvs j = Map.empty) \<or>
     (\<exists>n. r = int n \<and> n < length (kvs_dicts kvs) \<and> i < n \<and> (\<forall>j. i < j \<longrightarrow> j < n \<longrightarrow> kvs_map kvs j = Map.empty)))"
proof (cases "num_dicts kvs = 1")
  case True
  then have "length (kvs_dicts kvs) = 1" using assms(1) kvs_coreD(1)[of kvs] by (simp add: kvs_ok_def)
  then show ?thesis using True assms(2) by (auto simp: kvstoreGetNextNonEmptyDictIndex_def)
next
  case False
  then show ?thesis using kvstoreGetNextNonEmptyDictIndex_spec[OF assms(1) False assms(2)] by (auto split: if_splits)
qed


subsection \<open>One call\<close>

text \<open>The part of a call that scans the dictionary of the slot.\<close>

lemma scan_slot:
  fixes kvs :: "('k, 'v) kvstore"
  assumes "kvs_ok kvs" "i < length (kvs_dicts kvs)" "e \<le> 64"
    "\<forall>d. Some d \<in> set (kvs_dicts kvs) \<longrightarrow> ht_size_exp (ht0 d) \<le> int e" "2 ^ (64 - e) dvd scan_pos v"
  defines "dp \<equiv> kvs_dicts kvs ! i"
  shows "\<exists>es v' kvs'. (\<forall>(fn :: 's \<Rightarrow> ('k, 'v) entry \<Rightarrow> 's) s.
      (if dp = None then Some (kvs, 0, s)
       else do {
         d \<leftarrow> dp;
         (d, c, s) \<leftarrow> dictScan d v fn s;
         kvs \<leftarrow> kvstorePutDict kvs (int i) (Some d);
         kvs \<leftarrow> freeDictIfNeeded canFreeDict kvs (int i);
         Some (kvs, c, s)
       }) = Some (kvs', v', foldl fn s es)) \<and>
    kvs_ok kvs' \<and> kvs_map kvs' = kvs_map kvs \<and> length (kvs_dicts kvs') = length (kvs_dicts kvs) \<and>
    num_dicts_bits kvs' = num_dicts_bits kvs \<and>
    (\<forall>(k, w)\<in>set es. kvs_map kvs i k = Some w) \<and>
    scan_pos v + 2 ^ (64 - e) \<le> scan_end v' \<and> 2 ^ (64 - e) dvd scan_end v' \<and>
    (\<forall>k\<in>dom (kvs_map kvs i). scan_pos v \<le> scan_pos (hashFunction (kvs_dtype kvs) k) \<and>
       scan_pos (hashFunction (kvs_dtype kvs) k) < scan_end v' \<longrightarrow> k \<in> fst ` set es)"
proof (cases dp)
  case None
  have "up_to e (scan_pos v) \<le> scan_end 0" "2 ^ (64 - e) dvd scan_end 0"
    using up_to_max[OF scan_pos_less] dvd_2_64 by (simp_all only: scan_end_def if_True simp_thms)
  moreover have "kvs_map kvs i = Map.empty" using None by (simp add: kvs_map_def dp_def)
  moreover have "up_to e (scan_pos v) = scan_pos v + 2 ^ (64 - e)" using assms(5) by (simp add: up_to_def)
  ultimately show ?thesis using None assms(1) by (intro exI[of _ "[]"] exI[of _ 0] exI[of _ kvs]) simp
next
  case (Some d)
  note d = slot_dict[OF assms(1,2) Some[unfolded dp_def]]
  have "Some d \<in> set (kvs_dicts kvs)" using nth_mem[OF assms(2)] Some by (simp add: dp_def)
  then have ex: "ht_size_exp (ht0 d) \<le> int e" using assms(4) by blast
  obtain es v' where c: "\<And>(fn :: 's \<Rightarrow> ('k, 'v) entry \<Rightarrow> 's) s. dictScan d v fn s = Some (d, v', foldl fn s es)"
    "set es \<subseteq> set (dict_entries d)" "up_to e (scan_pos v) \<le> scan_end v'" "2 ^ (64 - e) dvd scan_end v'"
    "\<And>en. en\<in>set (dict_entries d) \<Longrightarrow> scan_pos v \<le> hash_pos (d_type d) en \<Longrightarrow> hash_pos (d_type d) en < scan_end v' \<Longrightarrow> en \<in> set es"
    using dictScan_spec[OF d(1) ex assms(3), of v, where ?'s = 's] by blast
  obtain kvs' where f: "freeDictIfNeeded canFreeDict kvs (int i) = Some kvs'" "kvs_ok kvs'" "kvs_map kvs' = kvs_map kvs"
    using freeDictIfNeeded_spec[OF assms(1,2)] by blast
  have shape: "length (kvs_dicts kvs') = length (kvs_dicts kvs)" "num_dicts_bits kvs' = num_dicts_bits kvs"
    using f(1) by (auto simp: freeDictIfNeeded_def bind_Some_conv kvstorePutDict_def arr_set_def split: if_splits)
  have put: "kvstorePutDict kvs (int i) (Some d) = Some kvs"
  proof -
    have "(kvs_dicts kvs)[i := Some d] = kvs_dicts kvs" using Some by (metis dp_def list_update_id)
    then show ?thesis using assms(2) by (simp add: put_Some)
  qed
  have sound: "kvs_map kvs i k = Some w" if "(k, w) \<in> set es" for k w
  proof -
    have "(k, w) \<in> set (dict_entries d)" using that c(2) by blast
    then have "dict_map d k = Some w" using d(1) by (simp add: dict_map_def dict_inv_def)
    then show ?thesis using d(4) by simp
  qed
  have all: "k \<in> fst ` set es"
    if k: "k \<in> dom (kvs_map kvs i)" "scan_pos v \<le> scan_pos (hashFunction (kvs_dtype kvs) k)"
      "scan_pos (hashFunction (kvs_dtype kvs) k) < scan_end v'" for k
  proof -
    have "k \<in> dom (dict_map d)" using k(1) d(4) by simp
    then obtain w where "(k, w) \<in> set (dict_entries d)" by (auto simp: dict_map_def dest: map_of_SomeD)
    then show ?thesis using c(5)[of "(k, w)"] k(2,3) d(2) by (force simp: hash_pos_def)
  qed
  have "up_to e (scan_pos v) = scan_pos v + 2 ^ (64 - e)" using assms(5) by (simp add: up_to_def)
  then show ?thesis
    using Some c(1,3,4) f put shape sound all by (intro exI[of _ es] exI[of _ v'] exI[of _ kvs']) auto
qed


text \<open>What a call leaves to the next one.\<close>

definition covered :: "('k, 'v) kvstore \<Rightarrow> nat \<Rightarrow> nat \<Rightarrow> ('k, 'v) entry list \<Rightarrow> bool" where
  "covered kvs lo hi es \<longleftrightarrow> (\<forall>j k. j < length (kvs_dicts kvs) \<and> k \<in> dom (kvs_map kvs j) \<and>
     lo \<le> key_pos (hashFunction (kvs_dtype kvs)) j k \<and> key_pos (hashFunction (kvs_dtype kvs)) j k < hi \<longrightarrow> k \<in> fst ` set es)"

lemma key_pos_slot:
  assumes "key_pos h j k < i * 2 ^ 64 + x" "x \<le> 2 ^ 64"
  shows "j \<le> i" "j = i \<Longrightarrow> scan_pos (h k) < x"
proof -
  show "j \<le> i"
  proof (rule ccontr)
    assume "\<not> j \<le> i"
    then have "Suc i * 2 ^ 64 \<le> j * (2 ^ 64 :: nat)" by (intro mult_le_mono1) simp
    then show False using assms unfolding key_pos_def by (simp only: mult_Suc)
  qed
qed (use assms in \<open>simp add: key_pos_def\<close>)

lemma key_pos_ge:
  assumes "i * 2 ^ 64 + x \<le> key_pos h j k"
  shows "i \<le> j" "j = i \<Longrightarrow> x \<le> scan_pos (h k)"
proof -
  show "i \<le> j"
  proof (rule ccontr)
    assume "\<not> i \<le> j"
    then have "Suc j * 2 ^ 64 \<le> i * (2 ^ 64 :: nat)" by (intro mult_le_mono1) simp
    then show False using assms scan_pos_less[of "h k"] unfolding key_pos_def by (simp only: mult_Suc)
  qed
qed (use assms in \<open>simp add: key_pos_def\<close>)

lemma covered_slot:
  assumes "i * 2 ^ 64 + p = lo" "x \<le> 2 ^ 64"
    "\<And>k. k \<in> dom (kvs_map kvs i) \<Longrightarrow> p \<le> scan_pos (hashFunction (kvs_dtype kvs) k) \<Longrightarrow>
      scan_pos (hashFunction (kvs_dtype kvs) k) < x \<Longrightarrow> k \<in> fst ` set es"
  shows "covered kvs lo (i * 2 ^ 64 + x) es"
  unfolding covered_def
proof (intro allI impI, elim conjE)
  fix j k assume k: "k \<in> dom (kvs_map kvs j)" "lo \<le> key_pos (hashFunction (kvs_dtype kvs)) j k"
    "key_pos (hashFunction (kvs_dtype kvs)) j k < i * 2 ^ 64 + x"
  note lo = key_pos_ge[OF k(2)[folded assms(1)]] and hi = key_pos_slot[OF k(3) assms(2)]
  have "j = i" using lo(1) hi(1) by simp
  then show "k \<in> fst ` set es" using assms(3) k(1) lo(2) hi(2) by blast
qed

text \<open>Slots without keys extend what is covered.\<close>

lemma covered_skip:
  assumes "covered kvs lo (Suc i * 2 ^ 64) es" "\<forall>j. i < j \<longrightarrow> j < n \<longrightarrow> kvs_map kvs j = Map.empty" "i < n"
  shows "covered kvs lo (n * 2 ^ 64) es"
  unfolding covered_def
proof (intro allI impI, elim conjE)
  fix j k assume k: "j < length (kvs_dicts kvs)" "k \<in> dom (kvs_map kvs j)" "lo \<le> key_pos (hashFunction (kvs_dtype kvs)) j k"
    "key_pos (hashFunction (kvs_dtype kvs)) j k < n * 2 ^ 64"
  have "j < n" using k(4) unfolding key_pos_def by (metis add_lessD1 mult_less_cancel2)
  moreover have "\<not> (i < j)" using assms(2) k(2) \<open>j < n\<close> by auto
  ultimately have "key_pos (hashFunction (kvs_dtype kvs)) j k < Suc i * 2 ^ 64" by (intro key_pos_less) simp
  then show "k \<in> fst ` set es" using assms(1) k(1-3) unfolding covered_def by blast
qed

lemma kvstoreScan_spec:
  fixes kvs :: "('k, 'v) kvstore"
  assumes ok: "kvs_ok kvs" and b: "b = num_dicts_bits kvs" "e + b \<le> 64"
    and ex: "\<forall>d. Some d \<in> set (kvs_dicts kvs) \<longrightarrow> ht_size_exp (ht0 d) \<le> int e" and c: "2 ^ (64 - e) dvd kvs_pos b c"
  shows "\<exists>es c' kvs'. (\<forall>(fn :: 's \<Rightarrow> ('k, 'v) entry \<Rightarrow> 's) s.
      kvstoreScan canFreeDict kvs c (-1) fn None s = Some (kvs', c', foldl fn s es)) \<and>
    kvs_ok kvs' \<and> kvs_map kvs' = kvs_map kvs \<and>
    (\<forall>(k, w)\<in>set es. \<exists>j<length (kvs_dicts kvs). kvs_map kvs j k = Some w) \<and>
    kvs_pos b c + 2 ^ (64 - e) \<le> kvs_end b c' \<and> 2 ^ (64 - e) dvd kvs_end b c' \<and>
    covered kvs (kvs_pos b c) (kvs_end b c') es"
proof -
  define i v where "i = unat (take_bit b c)" and "v = drop_bit b c"
  have core: "kvs_core kvs" using ok by (simp add: kvs_ok_def)
  have len: "length (kvs_dicts kvs) = 2 ^ b" using core b by (simp add: kvs_core_def)
  have i: "i < length (kvs_dicts kvs)" unfolding len i_def by (rule unat_take_bit_less)
  have e: "e \<le> 64" using b(2) by simp
  have pos: "kvs_pos b c = i * 2 ^ 64 + scan_pos v" by (simp only: kvs_pos_def i_def v_def)
  have slot_dvd: "2 ^ (64 - e) dvd j * (2 :: nat) ^ 64" for j by (rule dvd_mult[OF dvd_2_64])
  have v: "2 ^ (64 - e) dvd scan_pos v" using c slot_dvd[of i] unfolding pos by (simp only: dvd_add_right_iff)
  have dec: "getAndClearDictIndexFromCursor kvs c = (int i, v)"
    using getAndClear_eq[OF core] b(1) by (simp add: i_def v_def uint_nat)
  from scan_slot[OF ok i e ex v, of canFreeDict, where ?'s = 's] obtain es v' kvs' where s:
    "\<forall>(fn :: 's \<Rightarrow> ('k, 'v) entry \<Rightarrow> 's) s.
      (if kvs_dicts kvs ! i = None then Some (kvs, 0, s)
       else do {
         d \<leftarrow> kvs_dicts kvs ! i;
         (d, c, s) \<leftarrow> dictScan d v fn s;
         kvs \<leftarrow> kvstorePutDict kvs (int i) (Some d);
         kvs \<leftarrow> freeDictIfNeeded canFreeDict kvs (int i);
         Some (kvs, c, s)
       }) = Some (kvs', v', foldl fn s es)"
    "kvs_ok kvs'" "kvs_map kvs' = kvs_map kvs" "length (kvs_dicts kvs') = length (kvs_dicts kvs)"
    "num_dicts_bits kvs' = num_dicts_bits kvs"
    "\<forall>(k, w)\<in>set es. kvs_map kvs i k = Some w"
    "scan_pos v + 2 ^ (64 - e) \<le> scan_end v'" "2 ^ (64 - e) dvd scan_end v'"
    "\<forall>k\<in>dom (kvs_map kvs i). scan_pos v \<le> scan_pos (hashFunction (kvs_dtype kvs) k) \<and>
       scan_pos (hashFunction (kvs_dtype kvs) k) < scan_end v' \<longrightarrow> k \<in> fst ` set es"
    by (elim exE conjE) (rule that)
  have skip: "(case kvs_dicts kvs ! i of None \<Rightarrow> True
      | Some d \<Rightarrow> (case None of None \<Rightarrow> False | Some f \<Rightarrow> f d (int i))) \<longleftrightarrow> kvs_dicts kvs ! i = None"
    by (simp split: option.split)
  have run: "kvstoreScan canFreeDict kvs c (-1) fn None s =
      do {
        didx \<leftarrow> (if v' = 0 \<or> kvs_dicts kvs ! i = None then kvstoreGetNextNonEmptyDictIndex kvs' (int i) else Some (int i));
        if didx = -1 then Some (kvs', 0, foldl fn s es)
        else Some (kvs', addDictIndexToCursor kvs' didx v', foldl fn s es)
      }" for fn :: "'s \<Rightarrow> ('k, 'v) entry \<Rightarrow> 's" and s
    using s(1)[rule_format, of s fn] unfolding kvstoreScan_def dec
    by (simp add: get_Some[OF i] skip Let_def split del: if_split)
  have core': "kvs_core kvs'" "length (kvs_dicts kvs') = 2 ^ b" "b = num_dicts_bits kvs'" using s(2,4,5) len b(1) by (simp_all add: kvs_ok_def)
  have bits: "take_bit (64 - b) v' = v'"
  proof -
    have "2 ^ (64 - e) dvd scan_pos v'" using s(8) by (cases "v' = 0") (simp_all add: scan_end_def)
    then have "take_bit e v' = v'" using low_iff_dvd[OF e] by simp
    moreover have "take_bit (64 - b) (take_bit e v') = take_bit e v'" using b(2) by simp
    ultimately show ?thesis by simp
  qed
  have sound: "\<forall>(k, w)\<in>set es. \<exists>j<length (kvs_dicts kvs). kvs_map kvs j k = Some w" using s(6) i by blast
  have "scan_end v' \<le> 2 ^ 64" using scan_pos_less[of v'] by (simp add: scan_end_def)
  then have cov: "covered kvs (kvs_pos b c) (i * 2 ^ 64 + scan_end v') es"
    by (rule covered_slot[OF pos[symmetric]]) (use s(9) in blast)
  have z: "kvs_dicts kvs ! i = None \<Longrightarrow> v' = 0" using s(1) by simp
  show ?thesis
  proof (cases "v' = 0")
    case False
    then have "kvs_dicts kvs ! i \<noteq> None" using z by blast
    moreover have fin: "kvs_end b (addDictIndexToCursor kvs' (int i) v') = i * 2 ^ 64 + scan_end v'"
      using kvs_end_encode(1)[OF core'(1,3) _ bits] i len False by (simp add: scan_end_def)
    moreover have "2 ^ (64 - e) dvd i * 2 ^ 64 + scan_end v'" using slot_dvd s(8) by (rule dvd_add)
    ultimately show ?thesis
      using False s(2,3,7) sound cov unfolding fin pos
      by (intro exI[of _ es] exI[of _ "addDictIndexToCursor kvs' (int i) v'"] exI[of _ kvs'])
         (simp only: run if_False bind.bind_lunit simp_thms fin pos add.assoc nat_add_left_cancel_le, simp add: add.assoc)
  next
    case True
    then have all: "scan_end v' = 2 ^ 64" by (simp add: scan_end_def)
    have cov': "covered kvs (kvs_pos b c) (Suc i * 2 ^ 64) es" using cov unfolding all by (simp only: mult_Suc add.commute)
    have adv: "kvs_pos b c + 2 ^ (64 - e) \<le> n * 2 ^ 64" if "i < n" for n
    proof -
      have "Suc i * 2 ^ 64 \<le> n * (2 ^ 64 :: nat)" using that by (intro mult_le_mono1) simp
      then show ?thesis using s(7) unfolding all pos by (simp only: mult_Suc)
    qed
    obtain r where r: "kvstoreGetNextNonEmptyDictIndex kvs' (int i) = Some r"
      "r = -1 \<and> (\<forall>j<length (kvs_dicts kvs'). i < j \<longrightarrow> kvs_map kvs' j = Map.empty) \<or>
       (\<exists>n. r = int n \<and> n < length (kvs_dicts kvs') \<and> i < n \<and> (\<forall>j. i < j \<longrightarrow> j < n \<longrightarrow> kvs_map kvs' j = Map.empty))"
      using next_slot[OF s(2), of i] i s(4) by auto
    from r(2) show ?thesis
    proof (elim disjE exE conjE)
      assume *: "r = -1" "\<forall>j<length (kvs_dicts kvs'). i < j \<longrightarrow> kvs_map kvs' j = Map.empty"
      have "covered kvs (kvs_pos b c) (2 ^ b * 2 ^ 64) es"
        using covered_skip[OF cov', of "2 ^ b"] *(2) core'(2) s(3) i len by simp
      then show ?thesis
        using True s(2,3) r(1) *(1) sound adv[of "2 ^ b"] i len slot_dvd[of "2 ^ b"]
        by (intro exI[of _ es] exI[of _ 0] exI[of _ kvs']) (simp only: run, simp add: kvs_end_def)
    next
      fix n assume n: "r = int n" "n < length (kvs_dicts kvs')" "i < n" "\<forall>j. i < j \<longrightarrow> j < n \<longrightarrow> kvs_map kvs' j = Map.empty"
      have fin: "kvs_end b (addDictIndexToCursor kvs' (int n) v') = n * 2 ^ 64"
        using kvs_end_encode(1)[OF core'(1,3) _ bits, of n] n(2,3) core'(2) True by simp
      have "covered kvs (kvs_pos b c) (n * 2 ^ 64) es" using covered_skip[OF cov' _ n(3)] n(4) s(3) by simp
      then show ?thesis
        using True s(2,3) r(1) n(1) sound adv[OF n(3)] slot_dvd[of n] unfolding fin[symmetric]
        by (intro exI[of _ es] exI[of _ "addDictIndexToCursor kvs' (int n) v'"] exI[of _ kvs']) (simp only: run, simp)
    qed
  qed
qed


subsection \<open>Whole iterations\<close>

text \<open>The states in which the calls find the store, as for a single dictionary.\<close>

primrec kvs_scan_run ::
  "(int \<Rightarrow> bool) option \<Rightarrow> ('k, 'v) kvstore list \<Rightarrow> ('s \<Rightarrow> ('k, 'v) entry \<Rightarrow> 's) \<Rightarrow> u64 \<Rightarrow> 's \<Rightarrow> (u64 \<times> 's) option" where
  "kvs_scan_run canFreeDict [] fn c s = Some (c, s)"
| "kvs_scan_run canFreeDict (kvs # ks) fn c s =
     do {
       (_, c, s) \<leftarrow> kvstoreScan canFreeDict kvs c (-1) fn None s;
       if c = 0 then Some (0, s) else kvs_scan_run canFreeDict ks fn c s
     }"

definition scannable :: "nat \<Rightarrow> nat \<Rightarrow> ('k \<Rightarrow> u64) \<Rightarrow> ('k, 'v) kvstore \<Rightarrow> bool" where
  "scannable b e h kvs \<longleftrightarrow> kvs_ok kvs \<and> num_dicts_bits kvs = b \<and> hashFunction (kvs_dtype kvs) = h \<and>
     (\<forall>d. Some d \<in> set (kvs_dicts kvs) \<longrightarrow> ht_size_exp (ht0 d) \<le> int e)"

lemma kvs_scan_run_spec:
  fixes ks :: "('k, 'v) kvstore list"
  assumes "e + b \<le> 64" "\<forall>kvs\<in>set ks. scannable b e h kvs"
    "2 ^ (64 - e) dvd kvs_pos b c" "2 ^ b * 2 ^ 64 \<le> kvs_pos b c + length ks * 2 ^ (64 - e)" "kvs_pos b c < 2 ^ b * 2 ^ 64"
  shows "\<exists>es. (\<forall>(fn :: 's \<Rightarrow> ('k, 'v) entry \<Rightarrow> 's) s. kvs_scan_run canFreeDict ks fn c s = Some (0, foldl fn s es)) \<and>
    (\<forall>(k, w)\<in>set es. \<exists>kvs\<in>set ks. \<exists>j<2 ^ b. kvs_map kvs j k = Some w) \<and>
    (\<forall>j k. j < 2 ^ b \<and> (\<forall>kvs\<in>set ks. k \<in> dom (kvs_map kvs j)) \<and> kvs_pos b c \<le> key_pos h j k \<longrightarrow> k \<in> fst ` set es)"
  using assms(2-5)
proof (induction ks arbitrary: c)
  case Nil
  then show ?case by simp
next
  case (Cons kvs ks)
  have k: "kvs_ok kvs" "num_dicts_bits kvs = b" "hashFunction (kvs_dtype kvs) = h"
    "\<forall>d. Some d \<in> set (kvs_dicts kvs) \<longrightarrow> ht_size_exp (ht0 d) \<le> int e"
    using Cons.prems(1) by (auto simp: scannable_def)
  have len: "length (kvs_dicts kvs) = 2 ^ b" using k(1,2) by (simp add: kvs_ok_def kvs_core_def)
  from kvstoreScan_spec[OF k(1) k(2)[symmetric] assms(1) k(4) Cons.prems(2), of canFreeDict, where ?'s = 's]
  obtain es c' kvs' where s:
    "\<forall>(fn :: 's \<Rightarrow> ('k, 'v) entry \<Rightarrow> 's) s. kvstoreScan canFreeDict kvs c (-1) fn None s = Some (kvs', c', foldl fn s es)"
    "\<forall>(k, w)\<in>set es. \<exists>j<2 ^ b. kvs_map kvs j k = Some w"
    "kvs_pos b c + 2 ^ (64 - e) \<le> kvs_end b c'" "2 ^ (64 - e) dvd kvs_end b c'" "covered kvs (kvs_pos b c) (kvs_end b c') es"
    unfolding len by (elim exE conjE) (rule that)
  have emit: "k \<in> fst ` set es" if "j < 2 ^ b" "k \<in> dom (kvs_map kvs j)" "kvs_pos b c \<le> key_pos h j k" "key_pos h j k < kvs_end b c'" for j k
    using s(5) that unfolding covered_def len k(3) by blast
  show ?case
  proof (cases "c' = 0")
    case True
    then have "key_pos h j k < kvs_end b c'" if "j < 2 ^ b" for j k using key_pos_less[OF that] by (simp add: kvs_end_def)
    then have "\<forall>j k. j < 2 ^ b \<and> (\<forall>kvs\<in>set (kvs # ks). k \<in> dom (kvs_map kvs j)) \<and> kvs_pos b c \<le> key_pos h j k \<longrightarrow> k \<in> fst ` set es"
      using emit by (meson list.set_intros(1))
    moreover have "\<forall>(k, w)\<in>set es. \<exists>kvs\<in>set (kvs # ks). \<exists>j<2 ^ b. kvs_map kvs j k = Some w" using s(2) by force
    ultimately show ?thesis using True s(1) by (intro exI[of _ es]) simp
  next
    case False
    then have p: "kvs_end b c' = kvs_pos b c'" by (simp add: kvs_end_def)
    have "kvs_pos b c' < 2 ^ b * 2 ^ 64"
      using key_pos_less[OF unat_take_bit_less, of "\<lambda>_. drop_bit b c'" b c' undefined] by (simp only: key_pos_def kvs_pos_def)
    moreover have "2 ^ b * 2 ^ 64 \<le> kvs_pos b c' + length ks * 2 ^ (64 - e)"
      using Cons.prems(3) s(3) unfolding p by (simp only: length_Cons mult_Suc)
    ultimately have "\<exists>es. (\<forall>(fn :: 's \<Rightarrow> ('k, 'v) entry \<Rightarrow> 's) s. kvs_scan_run canFreeDict ks fn c' s = Some (0, foldl fn s es)) \<and>
      (\<forall>(k, w)\<in>set es. \<exists>kvs\<in>set ks. \<exists>j<2 ^ b. kvs_map kvs j k = Some w) \<and>
      (\<forall>j k. j < 2 ^ b \<and> (\<forall>kvs\<in>set ks. k \<in> dom (kvs_map kvs j)) \<and> kvs_pos b c' \<le> key_pos h j k \<longrightarrow> k \<in> fst ` set es)"
      using Cons.IH[of c'] Cons.prems(1) s(4)[unfolded p] by simp
    then obtain es2 where r:
      "\<forall>(fn :: 's \<Rightarrow> ('k, 'v) entry \<Rightarrow> 's) s. kvs_scan_run canFreeDict ks fn c' s = Some (0, foldl fn s es2)"
      "\<forall>(k, w)\<in>set es2. \<exists>kvs\<in>set ks. \<exists>j<2 ^ b. kvs_map kvs j k = Some w"
      "\<forall>j k. j < 2 ^ b \<and> (\<forall>kvs\<in>set ks. k \<in> dom (kvs_map kvs j)) \<and> kvs_pos b c' \<le> key_pos h j k \<longrightarrow> k \<in> fst ` set es2"
      by (elim exE conjE) (rule that)
    have "k \<in> fst ` set (es @ es2)"
      if k: "j < 2 ^ b" "\<forall>kvs\<in>set (kvs # ks). k \<in> dom (kvs_map kvs j)" "kvs_pos b c \<le> key_pos h j k" for j k
    proof (cases "key_pos h j k < kvs_pos b c'")
      case True
      then show ?thesis using k emit[of j k] p by (simp add: image_Un)
    next
      case False
      moreover have "\<forall>kvs\<in>set ks. k \<in> dom (kvs_map kvs j)" using k(2) by simp
      ultimately have "k \<in> fst ` set es2" using r(3) k(1) by (meson not_less)
      then show ?thesis by (simp add: image_Un)
    qed
    then have "\<forall>j k. j < 2 ^ b \<and> (\<forall>kvs\<in>set (kvs # ks). k \<in> dom (kvs_map kvs j)) \<and> kvs_pos b c \<le> key_pos h j k \<longrightarrow>
      k \<in> fst ` set (es @ es2)" by blast
    moreover have "\<forall>(k, w)\<in>set (es @ es2). \<exists>kvs\<in>set (kvs # ks). \<exists>j<2 ^ b. kvs_map kvs j k = Some w"
      using s(2) r(2) by force
    ultimately show ?thesis using False s(1) r(1) by (intro exI[of _ "es @ es2"]) simp
  qed
qed

subsection \<open>Properties\<close>

text \<open>
  C6: the iteration over a whole store ends and misses no key.  Between the calls the store may
  change in any way that keeps its invariant: keys come and go, dictionaries are created, resized,
  rehashed and freed.  With \<open>2 ^ b\<close> dictionaries of at most \<open>2 ^ e\<close> buckets the cursor is back at 0 after
  at most \<open>2 ^ (b + e)\<close> calls; every key that was in its slot throughout has been reported, and
  every reported entry was in the store at some call.
\<close>

theorem kvstoreScan_complete:
  assumes "e + b \<le> 64" "\<forall>kvs\<in>set ks. scannable b e h kvs" "length ks = 2 ^ (b + e)"
  shows "\<exists>es. kvs_scan_run canFreeDict ks collect 0 [] = Some (0, es) \<and>
    (\<forall>j k. j < 2 ^ b \<and> (\<forall>kvs\<in>set ks. k \<in> dom (kvs_map kvs j)) \<longrightarrow> k \<in> fst ` set es) \<and>
    (\<forall>(k, w)\<in>set es. \<exists>kvs\<in>set ks. \<exists>j<2 ^ b. kvs_map kvs j k = Some w)"
proof -
  have pos: "kvs_pos b 0 = 0" by (simp add: kvs_pos_def)
  have "e \<le> 64" using assms(1) by simp
  then have le: "2 ^ b * 2 ^ 64 \<le> kvs_pos b 0 + length ks * 2 ^ (64 - e)"
    unfolding assms(3) pos using power_add[of "2 :: nat" e "64 - e"] by (simp add: power_add mult.assoc)
  have bounds: "2 ^ (64 - e) dvd kvs_pos b 0" "kvs_pos b 0 < 2 ^ b * 2 ^ 64" by (simp_all add: pos)
  from kvs_scan_run_spec[OF assms(1,2) bounds(1) le bounds(2), of canFreeDict, where ?'s = "('a, 'b) entry list"]
  obtain es where
    "\<forall>fn (s :: ('a, 'b) entry list). kvs_scan_run canFreeDict ks fn 0 s = Some (0, foldl fn s es)"
    "\<forall>(k, w)\<in>set es. \<exists>kvs\<in>set ks. \<exists>j<2 ^ b. kvs_map kvs j k = Some w"
    "\<forall>j k. j < 2 ^ b \<and> (\<forall>kvs\<in>set ks. k \<in> dom (kvs_map kvs j)) \<and> kvs_pos b 0 \<le> key_pos h j k \<longrightarrow> k \<in> fst ` set es"
    by (elim exE conjE) (rule that)
  then show ?thesis unfolding pos by (intro exI[of _ es]) (simp only: foldl_collect append_Nil le0 simp_thms)
qed

theorem kvstoreScan_complete_witness:
  "\<exists>es. kvs_scan_run None (replicate 8 example_two) collect 0 [] = Some (0, es) \<and> 5 \<in> fst ` set es"
proof -
  have "scannable 1 2 of_nat example_two"
    using example_two_ok(1) by (auto simp: scannable_def example_two_def example_dict_def example_type_def)
  then have all: "\<forall>kvs\<in>set (replicate 8 example_two). scannable 1 2 of_nat kvs" by simp
  have "5 \<in> dom (kvs_map example_two 1)"
    by (simp add: kvs_map_def example_two_def dict_map_def dict_entries_def ht_entries_def example_dict_def)
  then have key: "\<forall>kvs\<in>set (replicate 8 example_two). 5 \<in> dom (kvs_map kvs 1)" by simp
  obtain es where "kvs_scan_run None (replicate 8 example_two) collect 0 [] = Some (0, es)"
    "\<forall>j k. j < 2 ^ 1 \<and> (\<forall>kvs\<in>set (replicate 8 example_two). k \<in> dom (kvs_map kvs j)) \<longrightarrow> k \<in> fst ` set es"
    using kvstoreScan_complete[OF _ all, of None] by auto
  with key show ?thesis by (metis one_less_numeral_iff power_one_right semiring_norm(76))
qed

end
