(* ===== verification/Listpack_Enc.thy ===== *)
theory Listpack_Enc
  imports Util_Num
begin

text \<open>
  The entry format of listpacks (\<^verbatim>\<open>listpack.c\<close>): the encoding byte with its masks, integer and string
  encodings, the backwards-readable entry length, and the decoders.  A listpack is the block of
  bytes of its allocation, a pointer into it is a signed offset, and every access is bounds
  checked.  The theory ends with the round trips: an encoded element decodes to itself wherever it
  stands in a block.
\<close>

subsection \<open>Accesses through signed offsets\<close>

definition at_read :: "bytes \<Rightarrow> int \<Rightarrow> nat \<Rightarrow> bytes option" where
  "at_read lp p n = (if p < 0 then None else mem_read lp (nat p) n)"

definition at_write :: "bytes \<Rightarrow> int \<Rightarrow> bytes \<Rightarrow> bytes option" where
  "at_write lp p bs = (if p < 0 then None else mem_write lp (nat p) bs)"

text \<open>\<open>memmove\<close>; a negative count, which is a huge \<open>size_t\<close>, leaves the block.\<close>

definition at_move :: "bytes \<Rightarrow> int \<Rightarrow> int \<Rightarrow> int \<Rightarrow> bytes option" where
  "at_move lp dst src n = (if n < 0 then None else at_read lp src (nat n) \<bind> at_write lp dst)"

subsection \<open>Encoding byte\<close>

definition LP_EOF :: u8 where "LP_EOF = 0xFF"

definition LP_ENCODING_IS_7BIT_UINT :: "u8 \<Rightarrow> bool" where
  "LP_ENCODING_IS_7BIT_UINT b \<longleftrightarrow> b AND 0x80 = 0"

definition LP_ENCODING_IS_6BIT_STR :: "u8 \<Rightarrow> bool" where
  "LP_ENCODING_IS_6BIT_STR b \<longleftrightarrow> b AND 0xC0 = 0x80"

definition LP_ENCODING_IS_13BIT_INT :: "u8 \<Rightarrow> bool" where
  "LP_ENCODING_IS_13BIT_INT b \<longleftrightarrow> b AND 0xE0 = 0xC0"

definition LP_ENCODING_IS_12BIT_STR :: "u8 \<Rightarrow> bool" where
  "LP_ENCODING_IS_12BIT_STR b \<longleftrightarrow> b AND 0xF0 = 0xE0"

definition LP_ENCODING_IS_16BIT_INT :: "u8 \<Rightarrow> bool" where
  "LP_ENCODING_IS_16BIT_INT b \<longleftrightarrow> b AND 0xFF = 0xF1"

definition LP_ENCODING_IS_24BIT_INT :: "u8 \<Rightarrow> bool" where
  "LP_ENCODING_IS_24BIT_INT b \<longleftrightarrow> b AND 0xFF = 0xF2"

definition LP_ENCODING_IS_32BIT_INT :: "u8 \<Rightarrow> bool" where
  "LP_ENCODING_IS_32BIT_INT b \<longleftrightarrow> b AND 0xFF = 0xF3"

definition LP_ENCODING_IS_64BIT_INT :: "u8 \<Rightarrow> bool" where
  "LP_ENCODING_IS_64BIT_INT b \<longleftrightarrow> b AND 0xFF = 0xF4"

definition LP_ENCODING_IS_32BIT_STR :: "u8 \<Rightarrow> bool" where
  "LP_ENCODING_IS_32BIT_STR b \<longleftrightarrow> b AND 0xFF = 0xF0"

lemmas lp_encoding_defs = LP_EOF_def
  LP_ENCODING_IS_7BIT_UINT_def LP_ENCODING_IS_6BIT_STR_def LP_ENCODING_IS_13BIT_INT_def
  LP_ENCODING_IS_12BIT_STR_def LP_ENCODING_IS_16BIT_INT_def LP_ENCODING_IS_24BIT_INT_def
  LP_ENCODING_IS_32BIT_INT_def LP_ENCODING_IS_64BIT_INT_def LP_ENCODING_IS_32BIT_STR_def

text \<open>Lengths stored in the string encodings; the reads happen as the macros perform them.\<close>

definition LP_ENCODING_6BIT_STR_LEN :: "bytes \<Rightarrow> int \<Rightarrow> nat option" where
  "LP_ENCODING_6BIT_STR_LEN lp p = do { b \<leftarrow> arr_get lp p; Some (unat (b AND 0x3F)) }"

definition LP_ENCODING_12BIT_STR_LEN :: "bytes \<Rightarrow> int \<Rightarrow> nat option" where
  "LP_ENCODING_12BIT_STR_LEN lp p =
     do { b \<leftarrow> arr_get lp p; b1 \<leftarrow> arr_get lp (p + 1);
          Some (unat (push_bit 8 (ucast (b AND 0xF) :: u32) OR ucast b1)) }"

definition LP_ENCODING_32BIT_STR_LEN :: "bytes \<Rightarrow> int \<Rightarrow> nat option" where
  "LP_ENCODING_32BIT_STR_LEN lp p = do { bs \<leftarrow> at_read lp (p + 1) 4; Some (unat (of_le bs :: u32)) }"

subsection \<open>Parsing integers\<close>

primrec lpStringToInt64_loop :: "nat \<Rightarrow> bytes \<Rightarrow> (nat \<times> bytes) option" where
  "lpStringToInt64_loop v [] = Some (v, [])"
| "lpStringToInt64_loop v (c # p) =
     (if 48 \<le> c \<and> c \<le> 57 then
        if v > (2 ^ 64 - 1) div 10 then None
        else let v = (v * 10) mod 2 ^ 64 in
          if v > (2 ^ 64 - 1) - (unat c - 48) then None
          else lpStringToInt64_loop ((v + (unat c - 48)) mod 2 ^ 64) p
      else Some (v, c # p))"

definition lpStringToInt64 :: "bytes \<Rightarrow> int option" where
  "lpStringToInt64 s =
     (if s = [] \<or> length s \<ge> LONG_STR_SIZE then None
      else if length s = 1 \<and> hd s = 48 then Some 0
      else
        let negative = (hd s = 45); p = (if negative then tl s else s) in
        if negative \<and> p = [] then None
        else if 49 \<le> hd p \<and> hd p \<le> 57 then
          case lpStringToInt64_loop (unat (hd p) - 48) (tl p) of
            None \<Rightarrow> None
          | Some (v, rest) \<Rightarrow>
              if rest \<noteq> [] then None
              else if negative then
                if v > nat (- (- (2 ^ 63) + 1)) + 1 then None else Some (to_ll ((2 ^ 64 - v) mod 2 ^ 64))
              else if v > 2 ^ 63 - 1 then None else Some (to_ll v)
        else None)"

subsection \<open>Encoders\<close>

text \<open>
  The \<open>enclen\<close> result is the length of the list.  A negative value is shifted into the unsigned
  range of its width first, as the code does.
\<close>

definition lpEncodeIntegerGetType :: "int \<Rightarrow> bytes" where
  "lpEncodeIntegerGetType v =
     (if v \<ge> 0 \<and> v \<le> 127 then [word_of_int v]
      else if v \<ge> -4096 \<and> v \<le> 4095 then
        let w = word_of_int (if v < 0 then 2 ^ 13 + v else v) :: u64 in
        [ucast (drop_bit 8 w OR 0xC0), ucast (w AND 0xFF)]
      else if v \<ge> -32768 \<and> v \<le> 32767 then
        0xF1 # le_bytes 2 (word_of_int (if v < 0 then 2 ^ 16 + v else v) :: u64)
      else if v \<ge> -8388608 \<and> v \<le> 8388607 then
        0xF2 # le_bytes 3 (word_of_int (if v < 0 then 2 ^ 24 + v else v) :: u64)
      else if v \<ge> -2147483648 \<and> v \<le> 2147483647 then
        0xF3 # le_bytes 4 (word_of_int (if v < 0 then 2 ^ 32 + v else v) :: u64)
      else 0xF4 # le_bytes 8 (word_of_int v :: u64))"

datatype lp_enctype = LP_ENCODING_INT bytes | LP_ENCODING_STRING

text \<open>The encoding type with the integer encoding, and the encoded length.\<close>

definition lpEncodeGetType :: "bytes \<Rightarrow> lp_enctype \<times> nat" where
  "lpEncodeGetType ele =
     (case lpStringToInt64 ele of
        Some v \<Rightarrow> let intenc = lpEncodeIntegerGetType v in (LP_ENCODING_INT intenc, length intenc)
      | None \<Rightarrow>
          let size = length ele in
          (LP_ENCODING_STRING, if size < 64 then 1 + size else if size < 4096 then 2 + size else 5 + size))"

definition lpEncodeBacklen :: "nat \<Rightarrow> bytes" where
  "lpEncodeBacklen l =
     (if l \<le> 127 then [of_nat l]
      else if l \<le> 16383 then
        [of_nat (drop_bit 7 l), of_nat ((l AND 127) OR 128)]
      else if l \<le> 2097151 then
        [of_nat (drop_bit 14 l), of_nat ((drop_bit 7 l AND 127) OR 128), of_nat ((l AND 127) OR 128)]
      else if l \<le> 268435455 then
        [of_nat (drop_bit 21 l), of_nat ((drop_bit 14 l AND 127) OR 128),
         of_nat ((drop_bit 7 l AND 127) OR 128), of_nat ((l AND 127) OR 128)]
      else
        [of_nat (drop_bit 28 l), of_nat ((drop_bit 21 l AND 127) OR 128),
         of_nat ((drop_bit 14 l AND 127) OR 128), of_nat ((drop_bit 7 l AND 127) OR 128),
         of_nat ((l AND 127) OR 128)])"

definition lpEncodeBacklenBytes :: "nat \<Rightarrow> nat" where
  "lpEncodeBacklenBytes l =
     (if l \<le> 127 then 1 else if l \<le> 16383 then 2 else if l \<le> 2097151 then 3
      else if l \<le> 268435455 then 4 else 5)"

text \<open>The seven payload bits of a backlen byte, and its continuation bit.\<close>

definition lpDecodeBacklen :: "bytes \<Rightarrow> int \<Rightarrow> nat option" where
  "lpDecodeBacklen lp p =
     do {
       b0 \<leftarrow> arr_get lp p;
       if b0 AND 128 = 0 then Some (unat (b0 AND 127))
       else do {
         let val = unat (b0 AND 127);
         b1 \<leftarrow> arr_get lp (p - 1);
         let val = val OR push_bit 7 (unat (b1 AND 127));
         if b1 AND 128 = 0 then Some val
         else do {
           b2 \<leftarrow> arr_get lp (p - 2);
           let val = val OR push_bit 14 (unat (b2 AND 127));
           if b2 AND 128 = 0 then Some val
           else do {
             b3 \<leftarrow> arr_get lp (p - 3);
             let val = val OR push_bit 21 (unat (b3 AND 127));
             if b3 AND 128 = 0 then Some val
             else do {
               b4 \<leftarrow> arr_get lp (p - 4);
               let val = val OR push_bit 28 (unat (b4 AND 127));
               if b4 AND 128 = 0 then Some val else Some (2 ^ 64 - 1)
             }
           }
         }
       }
     }"

text \<open>The header bytes are stored first, then the string is copied behind them.\<close>

definition lpEncodeString :: "bytes \<Rightarrow> int \<Rightarrow> bytes \<Rightarrow> bytes option" where
  "lpEncodeString buf p s =
     (let len = length s in
      if len < 64 then do {
        buf \<leftarrow> at_write buf p [of_nat len OR 0x80];
        at_write buf (p + 1) s
      } else if len < 4096 then do {
        buf \<leftarrow> at_write buf p [of_nat (drop_bit 8 len) OR 0xE0, of_nat (len AND 0xFF)];
        at_write buf (p + 2) s
      } else do {
        buf \<leftarrow> at_write buf p (0xF0 # le_bytes 4 (of_nat len :: u32));
        at_write buf (p + 5) s
      })"

subsection \<open>Sizes of entries\<close>

text \<open>The result has type \<open>uint32_t\<close>: the length of a 32-bit string encoding may wrap around.\<close>

definition lpCurrentEncodedSizeUnsafe :: "bytes \<Rightarrow> int \<Rightarrow> nat option" where
  "lpCurrentEncodedSizeUnsafe lp p =
     do {
       b \<leftarrow> arr_get lp p;
       if LP_ENCODING_IS_7BIT_UINT b then Some 1
       else if LP_ENCODING_IS_6BIT_STR b then do { n \<leftarrow> LP_ENCODING_6BIT_STR_LEN lp p; Some (1 + n) }
       else if LP_ENCODING_IS_13BIT_INT b then Some 2
       else if LP_ENCODING_IS_16BIT_INT b then Some 3
       else if LP_ENCODING_IS_24BIT_INT b then Some 4
       else if LP_ENCODING_IS_32BIT_INT b then Some 5
       else if LP_ENCODING_IS_64BIT_INT b then Some 9
       else if LP_ENCODING_IS_12BIT_STR b then do { n \<leftarrow> LP_ENCODING_12BIT_STR_LEN lp p; Some (2 + n) }
       else if LP_ENCODING_IS_32BIT_STR b then
         do { n \<leftarrow> LP_ENCODING_32BIT_STR_LEN lp p; Some ((5 + n) mod 2 ^ 32) }
       else if b = LP_EOF then Some 1
       else Some 0
     }"

definition lpCurrentEncodedSizeBytes :: "u8 \<Rightarrow> nat" where
  "lpCurrentEncodedSizeBytes encoding =
     (if LP_ENCODING_IS_7BIT_UINT encoding then 1
      else if LP_ENCODING_IS_6BIT_STR encoding then 1
      else if LP_ENCODING_IS_13BIT_INT encoding then 1
      else if LP_ENCODING_IS_16BIT_INT encoding then 1
      else if LP_ENCODING_IS_24BIT_INT encoding then 1
      else if LP_ENCODING_IS_32BIT_INT encoding then 1
      else if LP_ENCODING_IS_64BIT_INT encoding then 1
      else if LP_ENCODING_IS_12BIT_STR encoding then 2
      else if LP_ENCODING_IS_32BIT_STR encoding then 5
      else if encoding = LP_EOF then 1
      else 0)"

subsection \<open>Reading an entry\<close>

definition LP_INTBUF_SIZE :: nat where "LP_INTBUF_SIZE = 21"

text \<open>
  What the getters return: a pointer into the listpack with a length, \<open>NULL\<close> with an integer, or
  the filled buffer of the caller with the length of the printed integer.
\<close>

datatype lp_got = LP_STR int nat | LP_INT int | LP_BUF bytes nat

text \<open>Conversion of the unsigned value by the two's complement rule, and the two ways to return it.\<close>

definition lp_signed :: "u64 \<Rightarrow> u64 \<Rightarrow> u64 \<Rightarrow> int" where
  "lp_signed uval negstart negmax =
     (if uval \<ge> negstart then - sint (negmax - uval) - 1 else sint uval)"

definition lp_return_int :: "bytes option \<Rightarrow> int \<Rightarrow> lp_got option" where
  "lp_return_int intbuf val =
     (case intbuf of
        Some buf \<Rightarrow> do { (buf, count) \<leftarrow> ll2string buf LP_INTBUF_SIZE val; Some (LP_BUF buf count) }
      | None \<Rightarrow> Some (LP_INT val))"

text \<open>
  The second component is the value stored in \<open>*entry_size\<close>; \<^term>\<open>None\<close> when it is left unset.
\<close>

definition lpGetWithSize :: "bytes \<Rightarrow> int \<Rightarrow> bytes option \<Rightarrow> (lp_got \<times> nat option) option" where
  "lpGetWithSize lp p intbuf =
     do {
       b \<leftarrow> arr_get lp p;
       if LP_ENCODING_IS_7BIT_UINT b then do {
         r \<leftarrow> lp_return_int intbuf (lp_signed (ucast (b AND 0x7F)) (- 1) 0);
         Some (r, Some 2)
       } else if LP_ENCODING_IS_6BIT_STR b then do {
         count \<leftarrow> LP_ENCODING_6BIT_STR_LEN lp p;
         Some (LP_STR (p + 1) count, Some (1 + count + lpEncodeBacklenBytes (count + 1)))
       } else if LP_ENCODING_IS_13BIT_INT b then do {
         b1 \<leftarrow> arr_get lp (p + 1);
         r \<leftarrow> lp_return_int intbuf (lp_signed (push_bit 8 (ucast (b AND 0x1F)) OR ucast b1) (push_bit 12 1) 8191);
         Some (r, Some 3)
       } else if LP_ENCODING_IS_16BIT_INT b then do {
         bs \<leftarrow> at_read lp (p + 1) 2;
         r \<leftarrow> lp_return_int intbuf (lp_signed (of_le bs) (push_bit 15 1) 0xFFFF);
         Some (r, Some 4)
       } else if LP_ENCODING_IS_24BIT_INT b then do {
         bs \<leftarrow> at_read lp (p + 1) 3;
         r \<leftarrow> lp_return_int intbuf (lp_signed (of_le bs) (push_bit 23 1) 0xFFFFFF);
         Some (r, Some 5)
       } else if LP_ENCODING_IS_32BIT_INT b then do {
         bs \<leftarrow> at_read lp (p + 1) 4;
         r \<leftarrow> lp_return_int intbuf (lp_signed (of_le bs) (push_bit 31 1) 0xFFFFFFFF);
         Some (r, Some 6)
       } else if LP_ENCODING_IS_64BIT_INT b then do {
         bs \<leftarrow> at_read lp (p + 1) 8;
         r \<leftarrow> lp_return_int intbuf (lp_signed (of_le bs) (push_bit 63 1) (- 1));
         Some (r, Some 10)
       } else if LP_ENCODING_IS_12BIT_STR b then do {
         count \<leftarrow> LP_ENCODING_12BIT_STR_LEN lp p;
         Some (LP_STR (p + 2) count, Some (2 + count + lpEncodeBacklenBytes (count + 2)))
       } else if LP_ENCODING_IS_32BIT_STR b then do {
         count \<leftarrow> LP_ENCODING_32BIT_STR_LEN lp p;
         Some (LP_STR (p + 5) count, Some (5 + count + lpEncodeBacklenBytes (count + 5)))
       } else do {
         r \<leftarrow> lp_return_int intbuf (lp_signed (12345678900000000 + ucast b) (- 1) 0);
         Some (r, None)
       }
     }"

text \<open>The variant without the size, which tests the string encodings first.\<close>

definition lpGetWithBuf :: "bytes \<Rightarrow> int \<Rightarrow> bytes option \<Rightarrow> lp_got option" where
  "lpGetWithBuf lp p intbuf =
     do {
       encoding \<leftarrow> arr_get lp p;
       if LP_ENCODING_IS_6BIT_STR encoding then do {
         count \<leftarrow> LP_ENCODING_6BIT_STR_LEN lp p; Some (LP_STR (p + 1) count) }
       else if LP_ENCODING_IS_12BIT_STR encoding then do {
         count \<leftarrow> LP_ENCODING_12BIT_STR_LEN lp p; Some (LP_STR (p + 2) count) }
       else if LP_ENCODING_IS_32BIT_STR encoding then do {
         count \<leftarrow> LP_ENCODING_32BIT_STR_LEN lp p; Some (LP_STR (p + 5) count) }
       else do {
         (uval, negstart, negmax) \<leftarrow>
           (if LP_ENCODING_IS_7BIT_UINT encoding then Some (ucast (encoding AND 0x7F) :: u64, - 1 :: u64, 0 :: u64)
            else if LP_ENCODING_IS_13BIT_INT encoding then do {
              b1 \<leftarrow> arr_get lp (p + 1);
              Some (push_bit 8 (ucast (encoding AND 0x1F)) OR ucast b1, push_bit 12 1, 8191) }
            else if LP_ENCODING_IS_16BIT_INT encoding then do {
              bs \<leftarrow> at_read lp (p + 1) 2; Some (of_le bs, push_bit 15 1, 0xFFFF) }
            else if LP_ENCODING_IS_24BIT_INT encoding then do {
              bs \<leftarrow> at_read lp (p + 1) 3; Some (of_le bs, push_bit 23 1, 0xFFFFFF) }
            else if LP_ENCODING_IS_32BIT_INT encoding then do {
              bs \<leftarrow> at_read lp (p + 1) 4; Some (of_le bs, push_bit 31 1, 0xFFFFFFFF) }
            else if LP_ENCODING_IS_64BIT_INT encoding then do {
              bs \<leftarrow> at_read lp (p + 1) 8; Some (of_le bs, push_bit 63 1, - 1) }
            else Some (12345678900000000 + ucast encoding, - 1, 0));
         lp_return_int intbuf (lp_signed uval negstart negmax)
       }
     }"

definition lpGet :: "bytes \<Rightarrow> int \<Rightarrow> bytes option \<Rightarrow> lp_got option" where
  "lpGet lp p intbuf = lpGetWithBuf lp p intbuf"

text \<open>\<open>lpGetValue\<close>: a string (with its 32-bit length) or an integer.\<close>

definition lpGetValue :: "bytes \<Rightarrow> int \<Rightarrow> lp_got option" where
  "lpGetValue lp p =
     do {
       r \<leftarrow> lpGet lp p None;
       case r of
         LP_STR q n \<Rightarrow> Some (LP_STR q (n mod 2 ^ 32))
       | LP_INT v \<Rightarrow> Some (LP_INT v)
       | LP_BUF b n \<Rightarrow> None
     }"

definition lpGetIntegerValue :: "bytes \<Rightarrow> int \<Rightarrow> int option option" where
  "lpGetIntegerValue lp p =
     do { r \<leftarrow> lpGet lp p None; Some (case r of LP_INT v \<Rightarrow> Some v | _ \<Rightarrow> None) }"

subsection \<open>Bytes by their value\<close>

lemma byte_table: "list_all (\<lambda>n. P (word_of_nat n)) [0..<256] \<Longrightarrow> P (b :: u8)"
proof -
  assume a: "list_all (\<lambda>n. P (word_of_nat n)) [0..<256]"
  have "unat b < 2 ^ LENGTH(8)" by (rule unsigned_less)
  then have "unat b \<in> set [0..<256]" by simp
  then have "P (word_of_nat (unat b))" using a unfolding list_all_iff by blast
  then show "P b" by (simp add: of_nat_unat)
qed

lemma lp_class_iff:
  "LP_ENCODING_IS_7BIT_UINT b \<longleftrightarrow> unat b < 128"
  "LP_ENCODING_IS_6BIT_STR b \<longleftrightarrow> 128 \<le> unat b \<and> unat b < 192"
  "LP_ENCODING_IS_13BIT_INT b \<longleftrightarrow> 192 \<le> unat b \<and> unat b < 224"
  "LP_ENCODING_IS_12BIT_STR b \<longleftrightarrow> 224 \<le> unat b \<and> unat b < 240"
  "LP_ENCODING_IS_32BIT_STR b \<longleftrightarrow> unat b = 240"
  "LP_ENCODING_IS_16BIT_INT b \<longleftrightarrow> unat b = 241"
  "LP_ENCODING_IS_24BIT_INT b \<longleftrightarrow> unat b = 242"
  "LP_ENCODING_IS_32BIT_INT b \<longleftrightarrow> unat b = 243"
  "LP_ENCODING_IS_64BIT_INT b \<longleftrightarrow> unat b = 244"
  "b = LP_EOF \<longleftrightarrow> unat b = 255"
  unfolding lp_encoding_defs by (induction b rule: byte_table, code_simp)+

lemma byte_masks:
  "(b :: u8) AND 128 = 0 \<longleftrightarrow> unat b < 128"
  "unat (b AND 127) = unat b mod 128"
  "unat (b AND 0x3F) = unat b mod 64"
  "unat (b AND 0x1F) = unat b mod 32"
  "unat (b AND 0xF) = unat b mod 16"
  by (induction b rule: byte_table, code_simp)+

lemma unat_u8_lt: "unat (b :: u8) < 256"
  using unsigned_less[of b, where ?'a = nat] by simp

subsection \<open>Bytes at an address\<close>

definition lp_at :: "bytes \<Rightarrow> int \<Rightarrow> bytes \<Rightarrow> bool" where
  "lp_at lp p xs \<longleftrightarrow> (\<exists>pre post. lp = pre @ xs @ post \<and> p = int (length pre))"

lemma lp_at_append: "lp_at lp p (xs @ ys) \<Longrightarrow> lp_at lp p xs \<and> lp_at lp (p + int (length xs)) ys"
  unfolding lp_at_def
  by (metis append.assoc length_append of_nat_add)

lemma lp_at_get: "lp_at lp p xs \<Longrightarrow> arr_get xs k = Some b \<Longrightarrow> arr_get lp (p + k) = Some b"
  unfolding lp_at_def arr_get_def
  by (auto simp: nth_append nat_add_distrib split: if_splits)

lemma lp_at_read:
  assumes "lp_at lp p xs" "at_read xs k n = Some bs"
  shows "at_read lp (p + k) n = Some bs"
proof -
  obtain pre post where *: "lp = pre @ xs @ post" "p = int (length pre)"
    using assms(1) unfolding lp_at_def by auto
  have k: "0 \<le> k" "nat k + n \<le> length xs" "bs = take n (drop (nat k) xs)"
    using assms(2) by (auto simp: at_read_def mem_read_def split: if_splits)
  have "nat (p + k) = length pre + nat k" using k(1) *(2) by simp
  then show ?thesis
    using k * by (simp add: at_read_def mem_read_def)
qed

lemma lp_at_self: "lp_at xs 0 xs"
  unfolding lp_at_def by (intro exI[of _ "[]"]) simp

lemma lp_at_mono: "lp_at ys k xs \<Longrightarrow> lp_at lp p ys \<Longrightarrow> lp_at lp (p + k) xs"
  unfolding lp_at_def by (metis append.assoc length_append of_nat_add)

lemma arr_get_iff: "arr_get xs k = Some b \<longleftrightarrow> 0 \<le> k \<and> k < int (length xs) \<and> b = xs ! nat k"
  by (auto simp: arr_get_def)

lemma at_read_iff:
  "at_read xs k n = Some bs \<longleftrightarrow> 0 \<le> k \<and> nat k + n \<le> length xs \<and> bs = take n (drop (nat k) xs)"
  by (auto simp: at_read_def mem_read_def)

subsection \<open>Well-formed payloads\<close>

text \<open>
  A payload is an encoded element without its backlen.  It is well formed when the size computed
  from its first bytes is its length.
\<close>

definition payload_ok :: "bytes \<Rightarrow> bool" where
  "payload_ok e \<longleftrightarrow> e \<noteq> [] \<and> hd e \<noteq> LP_EOF \<and> lpCurrentEncodedSizeUnsafe e 0 = Some (length e)"

lemma str_len_at:
  assumes "lp_at lp p e"
  shows "LP_ENCODING_6BIT_STR_LEN e k = Some n \<Longrightarrow> LP_ENCODING_6BIT_STR_LEN lp (p + k) = Some n"
    and "LP_ENCODING_12BIT_STR_LEN e k = Some n \<Longrightarrow> LP_ENCODING_12BIT_STR_LEN lp (p + k) = Some n"
    and "LP_ENCODING_32BIT_STR_LEN e k = Some n \<Longrightarrow> LP_ENCODING_32BIT_STR_LEN lp (p + k) = Some n"
  unfolding LP_ENCODING_6BIT_STR_LEN_def LP_ENCODING_12BIT_STR_LEN_def LP_ENCODING_32BIT_STR_LEN_def
  using lp_at_get[OF assms, of k] lp_at_get[OF assms, of "k + 1"] lp_at_read[OF assms, of "k + 1" 4]
  by (auto simp: bind_Some_conv add.assoc)

lemma size_at:
  assumes "lp_at lp p e" "lpCurrentEncodedSizeUnsafe e k = Some n"
  shows "lpCurrentEncodedSizeUnsafe lp (p + k) = Some n"
proof -
  obtain b where b: "arr_get e k = Some b"
    using assms(2) by (auto simp: lpCurrentEncodedSizeUnsafe_def bind_Some_conv)
  note lens = str_len_at[OF assms(1), of k]
  show ?thesis
    using assms(2) unfolding lpCurrentEncodedSizeUnsafe_def b lp_at_get[OF assms(1) b] bind.bind_lunit
    by (simp split: if_split_asm add: bind_Some_conv) (use lens in blast)+
qed

lemma payload_size: "lp_at lp p e \<Longrightarrow> payload_ok e \<Longrightarrow> lpCurrentEncodedSizeUnsafe lp p = Some (length e)"
  using size_at[of lp p e 0] by (simp add: payload_ok_def)

lemma payload_first: "lp_at lp p e \<Longrightarrow> payload_ok e \<Longrightarrow> arr_get lp p = Some (hd e) \<and> hd e \<noteq> LP_EOF"
  using lp_at_get[of lp p e 0] by (auto simp: payload_ok_def arr_get_def hd_conv_nth)

subsection \<open>The getters\<close>

lemma lpGetWithBuf_eq: "lpGetWithBuf lp p intbuf = map_option fst (lpGetWithSize lp p intbuf)"
proof (cases "arr_get lp p")
  case (Some b)
  consider "unat b < 128" | "128 \<le> unat b \<and> unat b < 192" | "192 \<le> unat b \<and> unat b < 224"
    | "224 \<le> unat b \<and> unat b < 240" | "unat b = 240" | "unat b = 241" | "unat b = 242" | "unat b = 243"
    | "unat b = 244" | "244 < unat b" by linarith
  then show ?thesis
    by cases (simp_all add: lpGetWithBuf_def lpGetWithSize_def Some lp_class_iff map_option_bind o_def
      split: Option.bind_split)
qed (simp add: lpGetWithBuf_def lpGetWithSize_def)

primrec got_shift :: "int \<Rightarrow> lp_got \<Rightarrow> lp_got" where
  "got_shift p (LP_STR q n) = LP_STR (p + q) n"
| "got_shift p (LP_INT v) = LP_INT v"
| "got_shift p (LP_BUF b n) = LP_BUF b n"

lemma return_int_shift: "lp_return_int intbuf v = Some r \<Longrightarrow> got_shift p r = r"
  by (auto simp: lp_return_int_def bind_Some_conv split: option.splits)

lemma get_at:
  assumes "lp_at lp p e" "lpGetWithSize e k intbuf = Some (r, z)"
  shows "lpGetWithSize lp (p + k) intbuf = Some (got_shift p r, z)"
proof -
  obtain b where b: "arr_get e k = Some b"
    using assms(2) by (auto simp: lpGetWithSize_def bind_Some_conv)
  note lens = str_len_at[OF assms(1), of k]
  note rds = lp_at_read[OF assms(1), of "k + 1", unfolded add.assoc[symmetric]]
    lp_at_get[OF assms(1), of "k + 1", unfolded add.assoc[symmetric]]
  show ?thesis
    using assms(2) unfolding lpGetWithSize_def b lp_at_get[OF assms(1) b] bind.bind_lunit
    by (simp split: if_split_asm add: bind_Some_conv)
       (use lens rds return_int_shift in \<open>auto simp: add.assoc\<close>)+
qed

lemma lp_signed_range: "LLONG_MIN \<le> lp_signed u a m \<and> lp_signed u a m \<le> LLONG_MAX"
proof -
  have "- (2 ^ 63) \<le> sint x \<and> sint x < 2 ^ 63" for x :: u64
    using sint_greater_eq[of x] sint_less[of x] by simp
  from this[of "m - u"] this[of u] show ?thesis
    by (auto simp: lp_signed_def ll_limits)
qed

definition got_ok :: "bytes \<Rightarrow> lp_got \<Rightarrow> bool" where
  "got_ok e r \<longleftrightarrow>
     (case r of LP_INT v \<Rightarrow> LLONG_MIN \<le> v \<and> v \<le> LLONG_MAX
      | LP_STR q n \<Rightarrow> 0 \<le> q \<and> nat q + n = length e \<and> n < 2 ^ 32
      | LP_BUF _ _ \<Rightarrow> False)"

lemma payload_get:
  assumes "payload_ok e"
  shows "\<exists>r. lpGetWithSize e 0 None = Some (r, Some (length e + lpEncodeBacklenBytes (length e))) \<and> got_ok e r"
proof -
  obtain b where b: "arr_get e 0 = Some b" "b \<noteq> LP_EOF" and sz: "lpCurrentEncodedSizeUnsafe e 0 = Some (length e)"
    using payload_first[OF lp_at_self assms] assms by (auto simp: payload_ok_def)
  have len: "0 < length e" using b(1) by (auto simp: arr_get_def split: if_splits)
  have ne: "unat b \<noteq> 255" using b(2) lp_class_iff(10) by simp
  have rd: "\<exists>bs. at_read e 1 n = Some bs" if "Suc n \<le> length e" for n
    using that by (simp add: at_read_iff)
  note size = sz[unfolded lpCurrentEncodedSizeUnsafe_def b lp_class_iff bind.bind_lunit]
  note get = lpGetWithSize_def[of e 0 None, unfolded b lp_class_iff bind.bind_lunit]
  have ret: "lp_return_int None v = Some (LP_INT v)" for v by (simp add: lp_return_int_def)
  have int_ok: "got_ok e (LP_INT (lp_signed u a m))" for u a m
    using lp_signed_range by (simp add: got_ok_def)
  have len12: "n < 2 ^ 32" if "LP_ENCODING_12BIT_STR_LEN e 0 = Some n" for n
    using that by (auto simp: LP_ENCODING_12BIT_STR_LEN_def bind_Some_conv
        intro!: unsigned_less[where ?'a = nat and ?'b = 32, THEN less_le_trans])
  consider "unat b < 128" | "128 \<le> unat b \<and> unat b < 192" | "192 \<le> unat b \<and> unat b < 224"
    | "224 \<le> unat b \<and> unat b < 240" | "unat b = 240" | "unat b = 241" | "unat b = 242" | "unat b = 243"
    | "unat b = 244" | "244 < unat b" by linarith
  then show ?thesis
  proof cases
    case 1
    then show ?thesis using size get int_ok ret by (simp add: lpEncodeBacklenBytes_def)
  next
    case 2
    then obtain n where n: "LP_ENCODING_6BIT_STR_LEN e 0 = Some n" "length e = 1 + n"
      using size by (cases "LP_ENCODING_6BIT_STR_LEN e 0") auto
    then have "n < 64" by (auto simp: LP_ENCODING_6BIT_STR_LEN_def bind_Some_conv byte_masks)
    then show ?thesis using 2 n get by (simp add: got_ok_def add.commute)
  next
    case 3
    then have l: "length e = 2" using size by simp
    then obtain b1 where "arr_get e 1 = Some b1" by (simp add: arr_get_def)
    then show ?thesis using 3 l get int_ok ret by (simp add: lpEncodeBacklenBytes_def)
  next
    case 4
    then obtain n where n: "LP_ENCODING_12BIT_STR_LEN e 0 = Some n" "length e = 2 + n"
      using size by (cases "LP_ENCODING_12BIT_STR_LEN e 0") auto
    then show ?thesis using 4 get len12 by (simp add: got_ok_def add.commute)
  next
    case 6
    then have l: "length e = 3" using size by simp
    then obtain bs where "at_read e 1 2 = Some bs" using rd by auto
    then show ?thesis using 6 l get int_ok ret by (simp add: lpEncodeBacklenBytes_def)
  next
    case 7
    then have l: "length e = 4" using size by simp
    then obtain bs where "at_read e 1 3 = Some bs" using rd by auto
    then show ?thesis using 7 l get int_ok ret by (simp add: lpEncodeBacklenBytes_def)
  next
    case 8
    then have l: "length e = 5" using size by simp
    then obtain bs where "at_read e 1 4 = Some bs" using rd by auto
    then show ?thesis using 8 l get int_ok ret by (simp add: lpEncodeBacklenBytes_def)
  next
    case 9
    then have l: "length e = 9" using size by simp
    then obtain bs where "at_read e 1 8 = Some bs" using rd by auto
    then show ?thesis using 9 l get int_ok ret by (simp add: lpEncodeBacklenBytes_def)
  next
    case 5
    then obtain n where n: "LP_ENCODING_32BIT_STR_LEN e 0 = Some n" "(5 + n) mod 2 ^ 32 = length e"
      using sz by (auto simp: lpCurrentEncodedSizeUnsafe_def b lp_class_iff bind_Some_conv)
    then have "5 \<le> length e" by (auto simp: LP_ENCODING_32BIT_STR_LEN_def bind_Some_conv at_read_iff)
    moreover have "n < 2 ^ 32"
      using n(1) by (auto simp: LP_ENCODING_32BIT_STR_LEN_def bind_Some_conv
        intro!: unsigned_less[where ?'a = nat and ?'b = 32, THEN less_le_trans])
    ultimately have "length e = 5 + n" using n(2) by (simp add: mod_if split: if_splits)
    then show ?thesis
      using 5 n \<open>n < 2 ^ 32\<close> by (simp add: lpGetWithSize_def b lp_class_iff got_ok_def add.commute)
  next
    case 10
    then show ?thesis using sz ne len by (simp add: lpCurrentEncodedSizeUnsafe_def b lp_class_iff)
  qed
qed

subsection \<open>Round trip of the backlen\<close>

lemma length_lpEncodeBacklen: "length (lpEncodeBacklen l) = lpEncodeBacklenBytes l"
  by (simp add: lpEncodeBacklen_def lpEncodeBacklenBytes_def)

lemma lpEncodeBacklenBytes_bounds [simp]: "0 < lpEncodeBacklenBytes l" "lpEncodeBacklenBytes l \<le> 5"
  by (simp_all add: lpEncodeBacklenBytes_def)

lemma nat_and_127: "l AND 127 = l mod (128 :: nat)"
  using take_bit_eq_mask[of 7 l] by (simp add: take_bit_eq_mod mask_eq_exp_minus_1)

lemma cont_byte:
  fixes l :: nat
  defines "b \<equiv> word_of_nat ((l AND 127) OR 128) :: u8"
  shows "unat b = 128 + l mod 128"
proof -
  have "list_all (\<lambda>m. unat (word_of_nat (m OR 128) :: u8) = 128 + m) [0..<128]" by code_simp
  moreover have "l mod 128 \<in> set [0..<128]" by simp
  ultimately show ?thesis unfolding b_def nat_and_127 list_all_iff by blast
qed

lemma or_push_add: "(a :: nat) < 2 ^ k \<Longrightarrow> a OR push_bit k b = a + b * 2 ^ k"
proof -
  assume "a < 2 ^ k"
  then have "\<not> bit a n" if "k \<le> n" for n
    using that by (metis not_bit_length order_less_le_trans bit_take_bit_iff linorder_not_less nat_less_le take_bit_nat_eq_self_iff)
  then have "a AND push_bit k b = 0"
    by (intro bit_eqI) (auto simp: bit_and_iff bit_push_bit_iff)
  then have "a OR push_bit k b = a + push_bit k b" by (simp add: disjunctive_add_eq_or)
  then show ?thesis by (simp add: push_bit_eq_mult)
qed

lemma or_next_digit: "l mod 2 ^ j OR push_bit j (l div 2 ^ j mod 128) = (l :: nat) mod 2 ^ (j + 7)"
proof -
  have "l mod 2 ^ (j + 7) = 2 ^ j * (l div 2 ^ j mod 128) + l mod 2 ^ j"
    using mod_mult2_eq[of l "2 ^ j" 128] by (simp add: power_add)
  then show ?thesis by (simp add: or_push_add)
qed

lemmas or_digits = or_next_digit[of _ 7, simplified] or_next_digit[of _ 14, simplified]
  or_next_digit[of _ 21, simplified] or_next_digit[of _ 28, simplified]

lemma lpDecodeBacklen_encode:
  assumes "lp_at lp p (lpEncodeBacklen l)" "l < 2 ^ 35"
  shows "lpDecodeBacklen lp (p + int (lpEncodeBacklenBytes l) - 1) = Some l"
proof -
  define q where "q = p + int (lpEncodeBacklenBytes l) - 1"
  have get: "arr_get lp (q - int k) = Some (lpEncodeBacklen l ! (lpEncodeBacklenBytes l - Suc k))"
    if "k < lpEncodeBacklenBytes l" for k
  proof -
    define i where "i = lpEncodeBacklenBytes l - Suc k"
    have i: "q - int k = p + int i" "i < length (lpEncodeBacklen l)"
      using that by (simp_all add: q_def i_def length_lpEncodeBacklen)
    then have "arr_get (lpEncodeBacklen l) (int i) = Some (lpEncodeBacklen l ! i)"
      by (simp add: arr_get_def)
    from lp_at_get[OF assms(1) this] show ?thesis unfolding i(1) i_def .
  qed
  note g = get[of 0] get[of 1] get[of 2] get[of 3] get[of 4]
  have first: "unat (word_of_nat (l div n) :: u8) = l div n" if "l div n < 128" for n
    using that by (simp add: unat_of_nat)
  have low: "unat (word_of_nat l :: u8) = l" if "l < 128"
    using that by (simp add: unat_of_nat)
  note masks = byte_masks(1,2) cont_byte cont_byte[of "drop_bit _ l", unfolded drop_bit_eq_div]
  consider "l \<le> 127" | "127 < l" "l \<le> 16383" | "16383 < l" "l \<le> 2097151" | "2097151 < l" "l \<le> 268435455"
    | "268435455 < l" by linarith
  then have "lpDecodeBacklen lp q = Some l"
  proof cases
    case 1
    then show ?thesis using g low
      by (simp add: lpDecodeBacklen_def lpEncodeBacklenBytes_def lpEncodeBacklen_def masks)
  next
    case 2
    then have "l div 128 < 128" by (simp add: less_mult_imp_div_less)
    then show ?thesis using 2 g first or_digits[of l]
      by (simp add: lpDecodeBacklen_def lpEncodeBacklenBytes_def lpEncodeBacklen_def masks drop_bit_eq_div Let_def)
  next
    case 3
    then have "l div 16384 < 128" by (simp add: less_mult_imp_div_less)
    then show ?thesis using 3 g first or_digits[of l]
      by (simp add: lpDecodeBacklen_def lpEncodeBacklenBytes_def lpEncodeBacklen_def masks drop_bit_eq_div Let_def)
  next
    case 4
    then have "l div 2097152 < 128" by (simp add: less_mult_imp_div_less)
    then show ?thesis using 4 g first or_digits[of l]
      by (simp add: lpDecodeBacklen_def lpEncodeBacklenBytes_def lpEncodeBacklen_def masks drop_bit_eq_div Let_def)
  next
    case 5
    then have "l div 268435456 < 128" using assms(2) by (simp add: less_mult_imp_div_less)
    then show ?thesis using 5 g first assms(2) or_digits[of l]
      by (simp add: lpDecodeBacklen_def lpEncodeBacklenBytes_def lpEncodeBacklen_def masks drop_bit_eq_div Let_def)
  qed
  then show ?thesis by (simp add: q_def)
qed

subsection \<open>Round trip of the elements\<close>

lemma lpStringToInt64_loop_eq: "lpStringToInt64_loop v p = string2ll_loop v p"
  by (induction p arbitrary: v) (simp_all only: lpStringToInt64_loop.simps string2ll_loop.simps is_digit_def digit_val_def ULLONG_MAX_def)

lemma lpStringToInt64_eq: "lpStringToInt64 s = string2ll s"
proof -
  have "s \<noteq> [] \<Longrightarrow> (length s = 1 \<and> hd s = 48) = (s = [48])" by (cases s) auto
  then show ?thesis
    unfolding lpStringToInt64_def string2ll_def lpStringToInt64_loop_eq digit_val_def ll_limits Let_def
    by (auto split: option.splits)
qed

lemma sint_word_of_int_small: "- (2 ^ 63) \<le> v \<Longrightarrow> v < 2 ^ 63 \<Longrightarrow> sint (word_of_int v :: u64) = v"
  by (simp add: sint_sbintrunc' signed_take_bit_int_eq_self)

lemma uint_word_of_int_small: "0 \<le> x \<Longrightarrow> x < 2 ^ 64 \<Longrightarrow> uint (word_of_int x :: u64) = x"
  by (simp add: uint_word_of_int)

lemma lp_signed_encode:
  assumes "- (2 ^ k) \<le> v" "v < 2 ^ k" "k \<le> 63"
  shows "lp_signed (word_of_int (if v < 0 then 2 ^ Suc k + v else v)) (push_bit k 1) (word_of_int (2 ^ Suc k - 1)) = v"
proof -
  have pk: "(2 :: int) ^ k \<le> 2 ^ 63" using assms(3) by (intro power_increasing) auto
  have pk': "(2 :: int) ^ Suc k \<le> 2 ^ 64" using assms(3) by (intro power_increasing) auto
  have start: "uint (push_bit k 1 :: u64) = 2 ^ k"
  proof -
    have "(push_bit k 1 :: u64) = word_of_int (2 ^ k)" by (simp add: push_bit_eq_mult)
    moreover have "(2 :: int) ^ k mod 2 ^ 64 = 2 ^ k" using pk by (intro mod_pos_pos_trivial) auto
    ultimately show ?thesis by (simp only: uint_word_of_int len_of_numeral_defs) simp
  qed
  show ?thesis
  proof (cases "v < 0")
    case True
    let ?x = "2 ^ Suc k + v"
    have x: "0 \<le> ?x" "?x < 2 ^ 64" "2 ^ k \<le> ?x" using True assms pk' by auto
    then have u: "uint (word_of_int ?x :: u64) = ?x" by (intro uint_word_of_int_small)
    have "(word_of_int (2 ^ Suc k - 1) - word_of_int ?x :: u64) = word_of_int (- v - 1)"
      unfolding wi_hom_sub by simp
    moreover have "sint (word_of_int (- v - 1) :: u64) = - v - 1"
      using True assms(1) pk by (intro sint_word_of_int_small) auto
    ultimately have "lp_signed (word_of_int ?x) (push_bit k 1) (word_of_int (2 ^ Suc k - 1)) = v"
      unfolding lp_signed_def word_le_def start u using x(3) by (simp only: if_True)
    then show ?thesis using True by (simp only: if_True)
  next
    case False
    then have "uint (word_of_int v :: u64) = v" using assms(2) pk by (intro uint_word_of_int_small) auto
    moreover have "sint (word_of_int v :: u64) = v"
      using False assms(2) pk by (intro sint_word_of_int_small) auto
    ultimately have "lp_signed (word_of_int v) (push_bit k 1) (word_of_int (2 ^ Suc k - 1)) = v"
      unfolding lp_signed_def word_le_def start using assms(2) by simp
    then show ?thesis using False by (simp only: if_False)
  qed
qed

lemma take_bit_small: "uint (w :: u64) < 2 ^ n \<Longrightarrow> take_bit n w = w"
  by (simp add: word_uint_eq_iff unsigned_take_bit_eq take_bit_int_eq_self)

lemma int13_bytes:
  fixes w :: u64
  defines "b \<equiv> ucast (drop_bit 8 w OR 0xC0) :: u8"
  assumes "uint w < 2 ^ 13"
  shows "192 \<le> unat b \<and> unat b < 224"
    and "push_bit 8 (ucast (b AND 0x1F)) OR ucast (ucast (w AND 0xFF) :: u8) = w"
proof -
  have "take_bit 13 w = w" using assms(2) by (intro take_bit_small)
  then have w: "bit w n \<Longrightarrow> n < 13" for n by (metis bit_take_bit_iff)
  have c: "(0xC0 :: u64) = push_bit 6 (mask 2)" "(0x1F :: u8) = mask 5" "(0xFF :: u64) = mask 8"
    "(0xE0 :: u8) = push_bit 5 (mask 3)" "(0xC0 :: u8) = push_bit 6 (mask 2)"
    by (simp_all add: mask_eq_exp_minus_1)
  have "b AND 0xE0 = 0xC0"
    unfolding b_def c
    by (rule bit_word_eqI) (auto simp: bit_simps dest: w)
  then show "192 \<le> unat b \<and> unat b < 224"
    using lp_class_iff(3)[of b] by (simp add: LP_ENCODING_IS_13BIT_INT_def)
  show "push_bit 8 (ucast (b AND 0x1F)) OR ucast (ucast (w AND 0xFF) :: u8) = w"
    unfolding b_def c
    by (rule bit_word_eqI) (auto simp: bit_simps dest: w)
qed

lemma ret_int_None [simp]: "lp_return_int None v = Some (LP_INT v)"
  by (simp add: lp_return_int_def)

lemma le_at:
  "at_read (b # le_bytes n w) 1 n = Some (le_bytes n w)"
  "arr_get (b # bs) 0 = Some b"
  "arr_get (b # b' # bs) 1 = Some b'"
  by (auto simp: at_read_def mem_read_def arr_get_def)

lemma le_word_of_int:
  "0 \<le> x \<Longrightarrow> x < 2 ^ (8 * n) \<Longrightarrow> n \<le> 8 \<Longrightarrow> of_le (le_bytes n (word_of_int x :: u64)) = (word_of_int x :: u64)"
proof -
  assume a: "0 \<le> x" "x < 2 ^ (8 * n)" "n \<le> 8"
  have "(2 :: int) ^ (8 * n) \<le> 2 ^ 64" using a(3) by (intro power_increasing) auto
  then have "uint (word_of_int x :: u64) < 2 ^ (8 * n)"
    using a by (subst uint_word_of_int_small) auto
  then show ?thesis by (simp add: of_le_le_bytes take_bit_small)
qed

lemma int_enc_le:
  assumes "- (2 ^ k) \<le> v" "v < 2 ^ k" "Suc k = 8 * n" "n \<le> 8"
  shows "lp_signed (of_le (le_bytes n (word_of_int (if v < 0 then 2 ^ Suc k + v else v) :: u64)))
           (push_bit k 1) (word_of_int (2 ^ Suc k - 1)) = v"
proof -
  have k: "k \<le> 63" using assms(3,4) by linarith
  have "of_le (le_bytes n (word_of_int (if v < 0 then 2 ^ Suc k + v else v) :: u64)) =
        (word_of_int (if v < 0 then 2 ^ Suc k + v else v) :: u64)"
    by (rule le_word_of_int) (use assms in \<open>auto simp flip: assms(3)\<close>)
  then show ?thesis using lp_signed_encode[OF assms(1,2) k] by (simp only:)
qed

lemma uint7_get: "unat b < 128 \<longrightarrow> lp_signed (ucast (b AND 0x7F)) (- 1) 0 = int (unat (b :: u8))"
  by (induction b rule: byte_table) code_simp

lemma lpEncodeInteger_get:
  assumes "LLONG_MIN \<le> v" "v \<le> LLONG_MAX"
  defines "e \<equiv> lpEncodeIntegerGetType v"
  shows "payload_ok e" and "\<exists>z. lpGetWithSize e 0 None = Some (LP_INT v, z)"
proof -
  have "payload_ok e \<and> (\<exists>z. lpGetWithSize e 0 None = Some (LP_INT v, z))"
  proof -
    consider (1) "0 \<le> v" "v \<le> 127" | (2) "\<not> (0 \<le> v \<and> v \<le> 127)" "-4096 \<le> v" "v \<le> 4095"
      | (3) "\<not> (-4096 \<le> v \<and> v \<le> 4095)" "-32768 \<le> v" "v \<le> 32767"
      | (4) "\<not> (-32768 \<le> v \<and> v \<le> 32767)" "-8388608 \<le> v" "v \<le> 8388607"
      | (5) "\<not> (-8388608 \<le> v \<and> v \<le> 8388607)" "-2147483648 \<le> v" "v \<le> 2147483647"
      | (6) "\<not> (-2147483648 \<le> v \<and> v \<le> 2147483647)" by linarith
    then show ?thesis
    proof cases
      case 1
      define b where "b = (word_of_int v :: u8)"
      have e: "e = [b]" using 1 by (simp add: e_def b_def lpEncodeIntegerGetType_def)
      have u: "unat b = nat v" using 1 unfolding b_def by (intro unat_word_of_int) auto
      have s: "lp_signed (ucast (b AND 0x7F)) (- 1) 0 = v" using 1 u uint7_get[of b] by simp
      show ?thesis
        using 1 u s by (simp add: e payload_ok_def lpCurrentEncodedSizeUnsafe_def lpGetWithSize_def le_at lp_class_iff)
    next
      case 2
      define x where "x = (if v < 0 then 2 ^ 13 + v else v)"
      define w where "w = (word_of_int x :: u64)"
      have e: "e = [ucast (drop_bit 8 w OR 0xC0), ucast (w AND 0xFF)]"
        using 2 by (auto simp: e_def w_def x_def lpEncodeIntegerGetType_def Let_def)
      have x: "0 \<le> x" "x < 2 ^ 13" using 2 by (auto simp: x_def)
      have "uint w < 2 ^ 13" unfolding w_def using x by (subst uint_word_of_int_small) auto
      note b = int13_bytes[OF this]
      have "lp_signed w (push_bit 12 1) 8191 = v"
        using lp_signed_encode[of 12 v] 2 by (cases "v < 0") (simp_all add: w_def x_def)
      then show ?thesis
        using b by (simp add: e payload_ok_def lpCurrentEncodedSizeUnsafe_def lpGetWithSize_def le_at lp_class_iff)
    next
      case 3
      define w where "w = (word_of_int (if v < 0 then 2 ^ Suc 15 + v else v) :: u64)"
      have e: "e = 0xF1 # le_bytes 2 w"
        using 3 by (auto simp: e_def w_def lpEncodeIntegerGetType_def)
      have "lp_signed (of_le (le_bytes 2 w)) (push_bit 15 1) 0xFFFF = v"
        using int_enc_le[of 15 v 2, folded w_def] 3 by simp
      then show ?thesis
        by (simp add: e payload_ok_def lpCurrentEncodedSizeUnsafe_def lpGetWithSize_def le_at lp_class_iff)
    next
      case 4
      define w where "w = (word_of_int (if v < 0 then 2 ^ Suc 23 + v else v) :: u64)"
      have e: "e = 0xF2 # le_bytes 3 w"
        using 4 by (auto simp: e_def w_def lpEncodeIntegerGetType_def)
      have "lp_signed (of_le (le_bytes 3 w)) (push_bit 23 1) 0xFFFFFF = v"
        using int_enc_le[of 23 v 3, folded w_def] 4 by simp
      then show ?thesis
        by (simp add: e payload_ok_def lpCurrentEncodedSizeUnsafe_def lpGetWithSize_def le_at lp_class_iff)
    next
      case 5
      define w where "w = (word_of_int (if v < 0 then 2 ^ Suc 31 + v else v) :: u64)"
      have e: "e = 0xF3 # le_bytes 4 w"
        using 5 by (auto simp: e_def w_def lpEncodeIntegerGetType_def)
      have "lp_signed (of_le (le_bytes 4 w)) (push_bit 31 1) 0xFFFFFFFF = v"
        using int_enc_le[of 31 v 4, folded w_def] 5 by simp
      then show ?thesis
        by (simp add: e payload_ok_def lpCurrentEncodedSizeUnsafe_def lpGetWithSize_def le_at lp_class_iff)
    next
      case 6
      define w where "w = (word_of_int v :: u64)"
      have w: "w = word_of_int (if v < 0 then 2 ^ Suc 63 + v else v)"
        by (simp add: w_def word_of_int_eq_iff take_bit_eq_mod)
      have m: "(0xFFFFFFFFFFFFFFFF :: u64) = - 1" by simp
      have e: "e = 0xF4 # le_bytes 8 w"
        using 6 by (auto simp: e_def w_def lpEncodeIntegerGetType_def)
      have "lp_signed (of_le (le_bytes 8 w)) (push_bit 63 1) (- 1) = v"
        using int_enc_le[of 63 v 8, folded w] assms(1,2) m by (simp add: ll_limits)
      then show ?thesis
        by (simp add: e payload_ok_def lpCurrentEncodedSizeUnsafe_def lpGetWithSize_def le_at lp_class_iff)
    qed
  qed
  then show "payload_ok e" "\<exists>z. lpGetWithSize e 0 None = Some (LP_INT v, z)" by auto
qed

definition lp_string_enc :: "bytes \<Rightarrow> bytes" where
  "lp_string_enc s =
     (let len = length s in
      if len < 64 then (of_nat len OR 0x80) # s
      else if len < 4096 then (of_nat (drop_bit 8 len) OR 0xE0) # of_nat (len AND 0xFF) # s
      else (0xF0 # le_bytes 4 (of_nat len :: u32)) @ s)"

lemma mem_write_write:
  assumes "mem_write bs off xs = Some bs'" "mem_write bs' (off + length xs) ys = Some bs''"
  shows "mem_write bs off (xs @ ys) = Some bs''"
proof -
  have l: "off + length xs \<le> length bs" "bs' = take off bs @ xs @ drop (off + length xs) bs"
    using assms(1) by (auto simp: mem_write_def split: if_splits)
  have "length bs' = length bs" using l by simp
  then have l2: "off + length xs + length ys \<le> length bs"
    "bs'' = take (off + length xs) bs' @ ys @ drop (off + length xs + length ys) bs'"
    using assms(2) by (auto simp: mem_write_def split: if_splits)
  have "take (off + length xs) bs' = take off bs @ xs" using l by (cases xs) auto
  moreover have "drop (off + length xs + length ys) bs' = drop (off + length xs + length ys) bs"
    using l by (simp add: min_def ac_simps)
  ultimately show ?thesis using l2 by (simp add: mem_write_def add.assoc)
qed

lemma at_write_write:
  assumes "0 \<le> p" "nat p + length xs + length ys \<le> length bs"
  shows "do { bs \<leftarrow> at_write bs p xs; at_write bs (p + int (length xs)) ys } = at_write bs p (xs @ ys)"
proof -
  obtain bs' where b: "mem_write bs (nat p) xs = Some bs'" using assms by (simp add: mem_write_def)
  then have "length bs' = length bs" by (rule mem_write_length)
  then obtain bs'' where c: "mem_write bs' (nat p + length xs) ys = Some bs''"
    using assms by (simp add: mem_write_def)
  have "nat (p + int (length xs)) = nat p + length xs" using assms(1) by simp
  then show ?thesis
    using assms(1) b c mem_write_write[OF b c] by (simp add: at_write_def)
qed

lemma lpEncodeString_eq:
  assumes "0 \<le> p" "nat p + length (lp_string_enc s) \<le> length buf"
  shows "lpEncodeString buf p s = at_write buf p (lp_string_enc s)"
proof -
  note w = at_write_write[OF assms(1), symmetric]
  consider "length s < 64" | "\<not> length s < 64" "length s < 4096" | "\<not> length s < 4096" by linarith
  then show ?thesis
  proof cases
    case 1
    then show ?thesis
      using assms(2) w[of "[_]" s buf] by (simp add: lpEncodeString_def lp_string_enc_def Let_def)
  next
    case 2
    then show ?thesis
      using assms(2) w[of "[_, _]" s buf] by (simp add: lpEncodeString_def lp_string_enc_def Let_def)
  next
    case 3
    then show ?thesis
      using assms(2) w[of "0xF0 # le_bytes 4 (of_nat (length s) :: u32)" s buf]
      by (simp add: lpEncodeString_def lp_string_enc_def Let_def)
  qed
qed

lemma length_lp_string_enc:
  "length (lp_string_enc s) =
     (if length s < 64 then 1 + length s else if length s < 4096 then 2 + length s else 5 + length s)"
  by (simp add: lp_string_enc_def Let_def)

lemma len6_byte: "n < 64 \<Longrightarrow> unat (word_of_nat n OR 0x80 :: u8) = 128 + n"
proof -
  assume "n < 64"
  moreover have "list_all (\<lambda>n. unat (word_of_nat n OR 0x80 :: u8) = 128 + n) [0..<64]" by code_simp
  ultimately show ?thesis by (simp add: list_all_iff)
qed

lemma len12_bytes:
  assumes "n < 4096"
  defines "b \<equiv> word_of_nat (drop_bit 8 n) OR 0xE0 :: u8"
  shows "unat b = 224 + n div 256"
    and "unat (push_bit 8 (ucast (b AND 0xF) :: u32) OR ucast (word_of_nat (n AND 0xFF) :: u8)) = n"
proof -
  have "list_all (\<lambda>n. unat (word_of_nat n OR 0xE0 :: u8) = 224 + n) [0..<16]" by code_simp
  moreover have q: "n div 256 < 16" using assms(1) by (simp add: less_mult_imp_div_less)
  ultimately show u: "unat b = 224 + n div 256"
    unfolding b_def drop_bit_eq_div list_all_iff by simp
  have "unat (ucast (b AND 0xF) :: u32) = n div 256"
    using q mod_mult_self3[of 14 16 "n div 256"]
    by (simp add: unsigned_ucast_eq take_bit_eq_mod byte_masks u)
  moreover have "n AND 0xFF = n mod 256"
    using take_bit_eq_mask[of 8 n] by (simp add: take_bit_eq_mod mask_eq_exp_minus_1)
  then have "unat (ucast (word_of_nat (n AND 0xFF) :: u8) :: u32) = n mod 256"
    by (simp add: unsigned_ucast_eq take_bit_eq_mod unat_of_nat)
  moreover have "n mod 256 OR push_bit 8 (n div 256) = n"
    using or_push_add[of "n mod 256" 8 "n div 256"] by simp
  moreover have "take_bit 32 (push_bit 8 (n div 256)) = push_bit 8 (n div 256)"
    using q by (simp add: take_bit_eq_mod push_bit_eq_mult)
  ultimately show "unat (push_bit 8 (ucast (b AND 0xF) :: u32) OR ucast (word_of_nat (n AND 0xFF) :: u8)) = n"
    by (simp add: unsigned_or_eq unsigned_push_bit_eq or.commute)
qed

lemma lp_string_enc_get:
  assumes "length s + 5 < 2 ^ 32"
  defines "e \<equiv> lp_string_enc s"
  shows "payload_ok e" and "\<exists>h z. lpGetWithSize e 0 None = Some (LP_STR (int h) (length s), z) \<and> drop h e = s"
proof -
  have "payload_ok e \<and> (\<exists>h z. lpGetWithSize e 0 None = Some (LP_STR (int h) (length s), z) \<and> drop h e = s)"
  proof -
    consider (1) "length s < 64" | (2) "\<not> length s < 64" "length s < 4096" | (3) "\<not> length s < 4096" by linarith
    then show ?thesis
    proof cases
      case 1
      define b where "b = (word_of_nat (length s) OR 0x80 :: u8)"
      have e: "e = b # s" using 1 by (simp add: e_def b_def lp_string_enc_def Let_def)
      have u: "unat b = 128 + length s" using len6_byte[OF 1] by (simp add: b_def)
      have "LP_ENCODING_6BIT_STR_LEN e 0 = Some (length s)"
        using 1 mod_mult_self3[of 2 64 "length s"]
        by (simp add: LP_ENCODING_6BIT_STR_LEN_def e le_at byte_masks u)
      then show ?thesis
        using 1 u by (auto simp: e payload_ok_def lpCurrentEncodedSizeUnsafe_def lpGetWithSize_def le_at lp_class_iff
          intro!: exI[of _ 1])
    next
      case 2
      define b where "b = (word_of_nat (drop_bit 8 (length s)) OR 0xE0 :: u8)"
      have e: "e = b # word_of_nat (length s AND 0xFF) # s" using 2 by (simp add: e_def b_def lp_string_enc_def Let_def)
      note u = len12_bytes[OF 2(2), folded b_def]
      have q: "length s div 256 < 16" using 2 by (simp add: less_mult_imp_div_less)
      have "LP_ENCODING_12BIT_STR_LEN e 0 = Some (length s)"
        using u(2) by (simp add: LP_ENCODING_12BIT_STR_LEN_def e le_at)
      then show ?thesis
        using q u(1) by (auto simp: e payload_ok_def lpCurrentEncodedSizeUnsafe_def lpGetWithSize_def le_at lp_class_iff
          intro!: exI[of _ 2])
    next
      case 3
      define l where "l = le_bytes 4 (of_nat (length s) :: u32)"
      have l: "length l = 4" "unat (of_le l :: u32) = length s"
        using assms by (simp_all add: l_def unat_of_nat)
      have e: "e = 0xF0 # l @ s" using 3 by (simp add: e_def l_def lp_string_enc_def Let_def)
      have "at_read e 1 4 = Some l" using l(1) by (simp add: e at_read_iff)
      then have "LP_ENCODING_32BIT_STR_LEN e 0 = Some (length s)"
        using l(2) by (simp add: LP_ENCODING_32BIT_STR_LEN_def)
      then show ?thesis
        using l(1) assms(1) by (auto simp: e payload_ok_def lpCurrentEncodedSizeUnsafe_def lpGetWithSize_def le_at lp_class_iff
          intro!: exI[of _ 5])
    qed
  qed
  then show "payload_ok e" "\<exists>h z. lpGetWithSize e 0 None = Some (LP_STR (int h) (length s), z) \<and> drop h e = s" by auto
qed

text \<open>The encoding chosen for a string, and the string a payload stands for.\<close>

definition lp_encode :: "bytes \<Rightarrow> bytes" where
  "lp_encode s = (case lpStringToInt64 s of Some v \<Rightarrow> lpEncodeIntegerGetType v | None \<Rightarrow> lp_string_enc s)"

definition payload_str :: "bytes \<Rightarrow> bytes" where
  "payload_str e =
     (case lpGetWithSize e 0 None of
        Some (LP_INT v, _) \<Rightarrow> dec_ll v
      | Some (LP_STR q n, _) \<Rightarrow> take n (drop (nat q) e)
      | _ \<Rightarrow> [])"

lemma lpEncodeGetType_eq:
  "lpEncodeGetType s =
     (if lpStringToInt64 s = None then (LP_ENCODING_STRING, length (lp_encode s))
      else (LP_ENCODING_INT (lp_encode s), length (lp_encode s)))"
  by (auto simp: lpEncodeGetType_def lp_encode_def Let_def length_lp_string_enc split: option.splits)

lemma lp_encode_int: "payload_str (lpEncodeIntegerGetType v) = dec_ll v" "payload_ok (lpEncodeIntegerGetType v)"
  if "LLONG_MIN \<le> v" "v \<le> LLONG_MAX"
  using lpEncodeInteger_get[OF that] by (auto simp: payload_str_def)

lemma lp_encode_str:
  assumes "length s + 5 < 2 ^ 32"
  shows "payload_ok (lp_encode s)" "payload_str (lp_encode s) = s"
proof -
  have "payload_ok (lp_encode s) \<and> payload_str (lp_encode s) = s"
  proof (cases "lpStringToInt64 s")
    case None
    then show ?thesis using lp_string_enc_get[OF assms] by (auto simp: lp_encode_def payload_str_def)
  next
    case (Some v)
    then have "s = dec_ll v" "LLONG_MIN \<le> v" "v \<le> LLONG_MAX" by (auto simp: lpStringToInt64_eq string2ll_iff)
    then show ?thesis using Some lp_encode_int by (simp add: lp_encode_def)
  qed
  then show "payload_ok (lp_encode s)" "payload_str (lp_encode s) = s" by auto
qed

text \<open>Reading a well-formed payload anywhere in a block.\<close>

definition got_str :: "bytes \<Rightarrow> lp_got \<Rightarrow> bytes" where
  "got_str lp r = (case r of LP_STR q n \<Rightarrow> take n (drop (nat q) lp) | LP_INT v \<Rightarrow> dec_ll v | LP_BUF b n \<Rightarrow> take n b)"

lemma lpGetWithSize_payload:
  assumes "lp_at lp p e" "payload_ok e"
  shows "\<exists>r. lpGetWithSize lp p None = Some (r, Some (length e + lpEncodeBacklenBytes (length e))) \<and>
    got_str lp r = payload_str e \<and>
    (\<forall>q n. r = LP_STR q n \<longrightarrow> p < q \<and> q + int n = p + int (length e)) \<and>
    (\<forall>v. r = LP_INT v \<longrightarrow> LLONG_MIN \<le> v \<and> v \<le> LLONG_MAX) \<and> (\<forall>b n. r \<noteq> LP_BUF b n)"
proof -
  obtain r where r: "lpGetWithSize e 0 None = Some (r, Some (length e + lpEncodeBacklenBytes (length e)))" "got_ok e r"
    using payload_get[OF assms(2)] by blast
  note g = get_at[OF assms(1) r(1)]
  obtain pre post where lp: "lp = pre @ e @ post" "p = int (length pre)" using assms(1) by (auto simp: lp_at_def)
  show ?thesis
  proof (cases r)
    case (LP_STR q n)
    then have q: "0 \<le> q" "nat q + n = length e" using r(2) by (auto simp: got_ok_def)
    have "q \<noteq> 0" using r(1) LP_STR
      by (auto simp: lpGetWithSize_def bind_Some_conv split: if_split_asm)
    moreover have "take n (drop (nat (p + q)) lp) = take n (drop (nat q) e)"
      using q by (simp add: lp nat_add_distrib)
    ultimately show ?thesis using g q r(1) LP_STR by (auto simp: got_str_def payload_str_def)
  next
    case (LP_INT v)
    then show ?thesis using g r by (auto simp: got_str_def payload_str_def got_ok_def)
  next
    case (LP_BUF b n)
    then show ?thesis using r(2) by (simp add: got_ok_def)
  qed
qed

end
