(* ===== verification/Listpack.thy ===== *)
theory Listpack
  imports Listpack_Enc
begin

text \<open>
  The operations on listpacks (\<^verbatim>\<open>listpack.c\<close>).  A listpack is the allocated block of bytes: six header
  bytes (total size, number of elements), the entries, the end marker and possibly unused space
  up to the usable size of the allocation.  Pointers are signed offsets into the block.  A failed
  assertion and an access outside the block are the value \<^term>\<open>None\<close>; \<open>NULL\<close> is the inner \<^term>\<open>None\<close>.
\<close>

subsection \<open>Header\<close>

definition LP_HDR_SIZE :: int where "LP_HDR_SIZE = 6"
definition LP_HDR_NUMELE_UNKNOWN :: nat where "LP_HDR_NUMELE_UNKNOWN = 65535"

definition lpGetTotalBytes :: "bytes \<Rightarrow> nat option" where
  "lpGetTotalBytes lp = do { bs \<leftarrow> at_read lp 0 4; Some (unat (of_le bs :: u32)) }"

definition lpGetNumElements :: "bytes \<Rightarrow> nat option" where
  "lpGetNumElements lp = do { bs \<leftarrow> at_read lp 4 2; Some (unat (of_le bs :: u32)) }"

definition lpSetTotalBytes :: "bytes \<Rightarrow> nat \<Rightarrow> bytes option" where
  "lpSetTotalBytes lp v = at_write lp 0 (le_bytes 4 (of_nat v :: u64))"

text \<open>The argument is an unsigned difference in some calls: only its low 16 bits are stored.\<close>

definition lpSetNumElements :: "bytes \<Rightarrow> int \<Rightarrow> bytes option" where
  "lpSetNumElements lp v = at_write lp 4 (le_bytes 2 (word_of_int v :: u64))"

definition lpBytes :: "bytes \<Rightarrow> nat option" where
  "lpBytes lp = lpGetTotalBytes lp"

definition ASSERT_INTEGRITY :: "bytes \<Rightarrow> int \<Rightarrow> unit option" where
  "ASSERT_INTEGRITY lp p =
     do { n \<leftarrow> lpGetTotalBytes lp; if p \<ge> LP_HDR_SIZE \<and> p < int n then Some () else None }"

definition ASSERT_INTEGRITY_LEN :: "bytes \<Rightarrow> int \<Rightarrow> nat \<Rightarrow> unit option" where
  "ASSERT_INTEGRITY_LEN lp p len =
     do { n \<leftarrow> lpGetTotalBytes lp; if p \<ge> LP_HDR_SIZE \<and> p + int len < int n then Some () else None }"

definition lpSafeToAdd :: "bytes option \<Rightarrow> nat \<Rightarrow> bool option" where
  "lpSafeToAdd lp add =
     do {
       len \<leftarrow> (case lp of Some lp \<Rightarrow> lpGetTotalBytes lp | None \<Rightarrow> Some 0);
       Some (\<not> (add > 2 ^ 30 \<or> len > 2 ^ 30 - add))
     }"

subsection \<open>Allocation\<close>

text \<open>
  The allocator returns blocks of at least the requested size and leaves new bytes unspecified:
  \<open>good_size\<close> and \<open>junk\<close> are its choices, and every theorem holds for all of them.
\<close>

record allocator =
  junk :: "nat \<Rightarrow> u8"
  good_size :: "nat \<Rightarrow> nat"

definition usable :: "allocator \<Rightarrow> nat \<Rightarrow> nat" where
  "usable A n = max n (good_size A n)"

definition lp_malloc :: "allocator \<Rightarrow> nat \<Rightarrow> bytes" where
  "lp_malloc A n = map (junk A) [0..<usable A n]"

definition lp_realloc :: "allocator \<Rightarrow> bytes \<Rightarrow> nat \<Rightarrow> bytes" where
  "lp_realloc A lp n = zrealloc (junk A) lp (usable A n)"

definition lp_malloc_size :: "bytes \<Rightarrow> nat" where
  "lp_malloc_size lp = length lp"

definition lpNew :: "allocator \<Rightarrow> nat \<Rightarrow> bytes option" where
  "lpNew A capacity =
     do {
       let lp = lp_malloc A (if int capacity > LP_HDR_SIZE + 1 then capacity else nat (LP_HDR_SIZE + 1));
       lp \<leftarrow> lpSetTotalBytes lp (nat (LP_HDR_SIZE + 1));
       lp \<leftarrow> lpSetNumElements lp 0;
       at_write lp LP_HDR_SIZE [LP_EOF]
     }"

definition lpShrinkToFit :: "allocator \<Rightarrow> bytes \<Rightarrow> bytes option" where
  "lpShrinkToFit A lp =
     do {
       size \<leftarrow> lpGetTotalBytes lp;
       Some (if size < lp_malloc_size lp then lp_realloc A lp size else lp)
     }"

definition lpDup :: "allocator \<Rightarrow> bytes \<Rightarrow> bytes option" where
  "lpDup A lp =
     do {
       lpbytes \<leftarrow> lpBytes lp;
       let newlp = lp_malloc A lpbytes;
       bs \<leftarrow> at_read lp 0 lpbytes;
       at_write newlp 0 bs
     }"

subsection \<open>Validation of one entry\<close>

definition OUT_OF_RANGE :: "nat \<Rightarrow> int \<Rightarrow> bool" where
  "OUT_OF_RANGE lpbytes p \<longleftrightarrow> p < LP_HDR_SIZE \<or> p > int lpbytes - 1"

text \<open>The result is the return value and the new \<open>*pp\<close>.\<close>

definition lpValidateNext :: "bytes \<Rightarrow> int option \<Rightarrow> nat \<Rightarrow> (bool \<times> int option) option" where
  "lpValidateNext lp pp lpbytes =
     (case pp of
        None \<Rightarrow> Some (False, pp)
      | Some p \<Rightarrow>
          if OUT_OF_RANGE lpbytes p then Some (False, pp)
          else do {
            b \<leftarrow> arr_get lp p;
            if b = LP_EOF then Some (True, None)
            else do {
              let lenbytes = lpCurrentEncodedSizeBytes b;
              if lenbytes = 0 then Some (False, pp)
              else if OUT_OF_RANGE lpbytes (p + int lenbytes) then Some (False, pp)
              else do {
                entrylen \<leftarrow> lpCurrentEncodedSizeUnsafe lp p;
                let encodedBacklen = lpEncodeBacklenBytes entrylen;
                let entrylen = entrylen + encodedBacklen;
                if OUT_OF_RANGE lpbytes (p + int entrylen) then Some (False, pp)
                else do {
                  let p = p + int entrylen;
                  prevlen \<leftarrow> lpDecodeBacklen lp (p - 1);
                  if (prevlen + encodedBacklen) mod 2 ^ 64 \<noteq> entrylen then Some (False, pp)
                  else Some (True, Some p)
                }
              }
            }
          })"

definition lpAssertValidEntry :: "bytes \<Rightarrow> nat \<Rightarrow> int \<Rightarrow> unit option" where
  "lpAssertValidEntry lp lpbytes p =
     do { (ok, _) \<leftarrow> lpValidateNext lp (Some p) lpbytes; if ok then Some () else None }"

subsection \<open>Traversal\<close>

definition lpSkip :: "bytes \<Rightarrow> int \<Rightarrow> int option" where
  "lpSkip lp p =
     do {
       entrylen \<leftarrow> lpCurrentEncodedSizeUnsafe lp p;
       Some (p + int (entrylen + lpEncodeBacklenBytes entrylen))
     }"

definition lpNextWithBytes :: "bytes \<Rightarrow> int \<Rightarrow> nat \<Rightarrow> int option option" where
  "lpNextWithBytes lp p lpbytes =
     do {
       p \<leftarrow> lpSkip lp p;
       b \<leftarrow> arr_get lp p;
       if b = LP_EOF then Some None
       else do { lpAssertValidEntry lp lpbytes p; Some (Some p) }
     }"

definition lpNext :: "bytes \<Rightarrow> int \<Rightarrow> int option option" where
  "lpNext lp p =
     do {
       p \<leftarrow> lpSkip lp p;
       b \<leftarrow> arr_get lp p;
       if b = LP_EOF then Some None
       else do { n \<leftarrow> lpBytes lp; lpAssertValidEntry lp n p; Some (Some p) }
     }"

text \<open>\<open>n\<close> steps forward; the flag says whether the current entry is fully validated.\<close>

primrec lpNextN_loop :: "nat \<Rightarrow> bytes \<Rightarrow> nat \<Rightarrow> int \<Rightarrow> bool \<Rightarrow> (int \<times> bool) option option" where
  "lpNextN_loop 0 lp lpbytes p validated = Some (Some (p, validated))"
| "lpNextN_loop (Suc n) lp lpbytes p validated =
     do {
       p \<leftarrow> lpSkip lp p;
       validated \<leftarrow>
         (if p + 5 \<ge> int lpbytes then do { lpAssertValidEntry lp lpbytes p; Some True }
          else if p \<ge> LP_HDR_SIZE \<and> p < int lpbytes then Some False else None);
       b \<leftarrow> arr_get lp p;
       if b = LP_EOF then Some None else lpNextN_loop n lp lpbytes p validated
     }"

definition lpNextN :: "bytes \<Rightarrow> int option \<Rightarrow> nat \<Rightarrow> int option option" where
  "lpNextN lp p n =
     do {
       lpbytes \<leftarrow> lpBytes lp;
       case p of
         None \<Rightarrow> Some None
       | Some p \<Rightarrow> do {
           r \<leftarrow> lpNextN_loop n lp lpbytes p True;
           case r of
             None \<Rightarrow> Some None
           | Some (p, validated) \<Rightarrow>
               if \<not> validated then do { lpAssertValidEntry lp lpbytes p; Some (Some p) } else Some (Some p)
         }
     }"

text \<open>The unsigned additions of \<open>lpSkipPrev\<close> wrap around when the backlen is invalid.\<close>

definition lpSkipPrev :: "bytes \<Rightarrow> int \<Rightarrow> int option" where
  "lpSkipPrev lp p =
     do {
       let p = p - 1;
       prevlen \<leftarrow> lpDecodeBacklen lp p;
       let prevlen = (prevlen + lpEncodeBacklenBytes prevlen) mod 2 ^ 64;
       Some (p - (int prevlen - 1))
     }"

definition lpPrev :: "bytes \<Rightarrow> int \<Rightarrow> int option option" where
  "lpPrev lp p =
     (if p = LP_HDR_SIZE then Some None
      else do {
        p \<leftarrow> lpSkipPrev lp p;
        n \<leftarrow> lpBytes lp;
        lpAssertValidEntry lp n p;
        Some (Some p)
      })"

primrec lpPrevN_loop :: "nat \<Rightarrow> bytes \<Rightarrow> nat \<Rightarrow> int \<Rightarrow> bool \<Rightarrow> (int \<times> bool) option option" where
  "lpPrevN_loop 0 lp lpbytes p validated = Some (Some (p, validated))"
| "lpPrevN_loop (Suc n) lp lpbytes p validated =
     (if p = LP_HDR_SIZE then Some None
      else do {
        p \<leftarrow> lpSkipPrev lp p;
        if p \<ge> LP_HDR_SIZE \<and> p < int lpbytes then lpPrevN_loop n lp lpbytes p False else None
      })"

definition lpPrevN :: "bytes \<Rightarrow> int option \<Rightarrow> nat \<Rightarrow> int option option" where
  "lpPrevN lp p n =
     do {
       lpbytes \<leftarrow> lpBytes lp;
       case p of
         None \<Rightarrow> Some None
       | Some p \<Rightarrow> do {
           r \<leftarrow> lpPrevN_loop n lp lpbytes p True;
           case r of
             None \<Rightarrow> Some None
           | Some (p, validated) \<Rightarrow>
               if \<not> validated then do { lpAssertValidEntry lp lpbytes p; Some (Some p) } else Some (Some p)
         }
     }"

definition lpFirst :: "bytes \<Rightarrow> int option option" where
  "lpFirst lp =
     do {
       let p = LP_HDR_SIZE;
       b \<leftarrow> arr_get lp p;
       if b = LP_EOF then Some None
       else do { n \<leftarrow> lpBytes lp; lpAssertValidEntry lp n p; Some (Some p) }
     }"

definition lpLast :: "bytes \<Rightarrow> int option option" where
  "lpLast lp = do { n \<leftarrow> lpGetTotalBytes lp; lpPrev lp (int n - 1) }"

lemma lpSkip_greater: "lpSkip lp p = Some q \<Longrightarrow> p < q"
proof -
  assume "lpSkip lp p = Some q"
  then obtain x where "q = p + int (x + lpEncodeBacklenBytes x)" by (auto simp: lpSkip_def bind_Some_conv)
  moreover have "0 < x + lpEncodeBacklenBytes x" using lpEncodeBacklenBytes_bounds(1)[of x] by linarith
  ultimately show ?thesis by linarith
qed

lemma lpNext_advances: "lpNext lp p = Some (Some q) \<Longrightarrow> p < q \<and> q < int (length lp)"
  by (auto simp: lpNext_def bind_Some_conv arr_get_def dest!: lpSkip_greater split: if_splits)

text \<open>Every step of the scan moves forward inside the block, so it ends on any input.\<close>

function lpLength_loop :: "bytes \<Rightarrow> int option \<Rightarrow> nat \<Rightarrow> nat option" where
  "lpLength_loop lp None count = Some count"
| "lpLength_loop lp (Some p) count =
     (case lpNext lp p of None \<Rightarrow> None | Some q \<Rightarrow> lpLength_loop lp q ((count + 1) mod 2 ^ 32))"
  by pat_completeness auto
termination
  by (relation "measure (\<lambda>(lp, p, count). case p of None \<Rightarrow> 0 | Some p \<Rightarrow> Suc (nat (int (length lp) - p)))")
     (auto split: option.splits dest!: lpNext_advances)

definition lpLength :: "bytes \<Rightarrow> (bytes \<times> nat) option" where
  "lpLength lp =
     do {
       numele \<leftarrow> lpGetNumElements lp;
       if numele \<noteq> LP_HDR_NUMELE_UNKNOWN then Some (lp, numele)
       else do {
         p \<leftarrow> lpFirst lp;
         count \<leftarrow> lpLength_loop lp p 0;
         lp \<leftarrow> (if count < LP_HDR_NUMELE_UNKNOWN then lpSetNumElements lp (int count) else Some lp);
         Some (lp, count)
       }
     }"

text \<open>\<open>long\<close> is 64 bits wide; the index is taken as a number in its range.\<close>

definition lpSeek :: "bytes \<Rightarrow> int \<Rightarrow> int option option" where
  "lpSeek lp index =
     do {
       numele \<leftarrow> lpGetNumElements lp;
       if numele \<noteq> LP_HDR_NUMELE_UNKNOWN then
         let index = (if index < 0 then int numele + index else index) in
         if index < 0 then Some None
         else if index \<ge> int numele then Some None
         else if index > int numele div 2 then do { p \<leftarrow> lpLast lp; lpPrevN lp p (nat (int numele - index - 1)) }
         else do { p \<leftarrow> lpFirst lp; lpNextN lp p (nat index) }
       else if index < 0 then do { p \<leftarrow> lpLast lp; lpPrevN lp p (nat (- index - 1)) }
       else do { p \<leftarrow> lpFirst lp; lpNextN lp p (nat index) }
     }"

subsection \<open>Search\<close>

text \<open>
  The comparison callback sees the listpack, the entry, its value and the state behind \<open>user\<close>; it
  returns whether the entry matches, and the new state.  \<open>entry_size\<close> keeps its previous value
  when the getter does not set it.
\<close>

type_synonym 'u lpCmp = "bytes \<Rightarrow> int \<Rightarrow> 'u \<Rightarrow> lp_got \<Rightarrow> (bool \<times> 'u) option"

definition lpFind_check :: "bytes \<Rightarrow> nat \<Rightarrow> int \<Rightarrow> unit option" where
  "lpFind_check lp lp_bytes p =
     (if p + 8 \<ge> int lp_bytes then lpAssertValidEntry lp lp_bytes p
      else if p \<ge> LP_HDR_SIZE \<and> p < int lp_bytes then Some () else None)"

lemma lpFind_check_bound: "lpFind_check lp n p = Some u \<Longrightarrow> p < int n"
  by (auto simp: lpFind_check_def lpAssertValidEntry_def lpValidateNext_def bind_Some_conv OUT_OF_RANGE_def
      split: if_splits)

text \<open>
  One round of the loop: either the match, or the next position with the new state, skip count and
  entry size.  An entry size of 0, which the code never has (it starts at 123456789 and the getter
  stores positive sizes), is a failure, so that every round moves forward.
\<close>

definition lpFind_step ::
  "bytes \<Rightarrow> nat \<Rightarrow> 'u lpCmp \<Rightarrow> nat \<Rightarrow> int \<Rightarrow> 'u \<Rightarrow> nat \<Rightarrow> nat \<Rightarrow> ('u + int \<times> 'u \<times> nat \<times> nat) option" where
  "lpFind_step lp lp_bytes cmp skip p user skipcnt entry_size =
     (if skipcnt = 0 then do {
        (r, sz) \<leftarrow> lpGetWithSize lp p None;
        let entry_size = (case sz of Some n \<Rightarrow> n | None \<Rightarrow> entry_size);
        (case r of
           LP_STR _ _ \<Rightarrow> if p \<ge> LP_HDR_SIZE \<and> p + int entry_size < int lp_bytes then Some () else None
         | _ \<Rightarrow> Some ());
        (eq, user) \<leftarrow> cmp lp p user r;
        if eq then Some (Inl user)
        else if entry_size = 0 then None
        else Some (Inr (p + int entry_size, user, skip, entry_size))
      } else do {
        q \<leftarrow> lpSkip lp p;
        Some (Inr (q, user, skipcnt - 1, entry_size))
      })"

lemma lpFind_step_advances:
  "lpFind_step lp n cmp skip p user skipcnt sz = Some (Inr (q, rest)) \<Longrightarrow> p < q"
  by (auto simp: lpFind_step_def bind_Some_conv Let_def dest!: lpSkip_greater split: if_splits)

function lpFind_loop ::
  "bytes \<Rightarrow> nat \<Rightarrow> 'u lpCmp \<Rightarrow> nat \<Rightarrow> int \<Rightarrow> 'u \<Rightarrow> nat \<Rightarrow> nat \<Rightarrow> (int option \<times> 'u) option" where
  "lpFind_loop lp lp_bytes cmp skip p user skipcnt entry_size =
     (case lpFind_step lp lp_bytes cmp skip p user skipcnt entry_size of
        None \<Rightarrow> None
      | Some (Inl user) \<Rightarrow> Some (Some p, user)
      | Some (Inr (q, user, skipcnt, entry_size)) \<Rightarrow>
          if lpFind_check lp lp_bytes q = None then None
          else (case arr_get lp q of
                  None \<Rightarrow> None
                | Some b \<Rightarrow>
                    if b = LP_EOF then Some (None, user)
                    else lpFind_loop lp lp_bytes cmp skip q user skipcnt entry_size))"
  by pat_completeness auto
termination
proof (relation "measure (\<lambda>(lp, n, cmp, skip, p, user, skipcnt, sz). nat (int n - p))", goal_cases)
  case (2 lp n cmp skip p user skipcnt sz y z q z' user' z'' skipcnt' sz' b)
  then have "p < q" using lpFind_step_advances by metis
  moreover have "q < int n" using 2 lpFind_check_bound by (metis option.exhaust)
  ultimately show ?case by simp
qed auto

declare lpFind_loop.simps [simp del]

definition lpFindCbInternal :: "bytes \<Rightarrow> int option \<Rightarrow> 'u \<Rightarrow> 'u lpCmp \<Rightarrow> nat \<Rightarrow> (int option \<times> 'u) option" where
  "lpFindCbInternal lp p user cmp skip =
     do {
       lp_bytes \<leftarrow> lpBytes lp;
       p \<leftarrow> (case p of None \<Rightarrow> lpFirst lp | Some p \<Rightarrow> Some (Some p));
       case p of None \<Rightarrow> Some (None, user)
       | Some p \<Rightarrow> lpFind_loop lp lp_bytes cmp skip p user 0 123456789
     }"

definition lpFindCb :: "bytes \<Rightarrow> int option \<Rightarrow> 'u \<Rightarrow> 'u lpCmp \<Rightarrow> nat \<Rightarrow> (int option \<times> 'u) option" where
  "lpFindCb lp p user cmp skip = lpFindCbInternal lp p user cmp skip"

text \<open>The searched item, with the integer it encodes once that has been computed.\<close>

datatype vencoding = NotTried | IsInt int | NoInt

record lpFindArg =
  arg_s :: bytes
  arg_venc :: vencoding

definition lpFindCmp :: "lpFindArg lpCmp" where
  "lpFindCmp lp p arg r =
     (case r of
        LP_STR q slen \<Rightarrow>
          if slen = length (arg_s arg) then do { bs \<leftarrow> at_read lp q slen; Some (arg_s arg = bs, arg) }
          else Some (False, arg)
      | LP_INT v \<Rightarrow>
          let arg = (if arg_venc arg = NotTried then
              arg\<lparr>arg_venc :=
                (if length (arg_s arg) \<ge> 32 \<or> length (arg_s arg) = 0 then NoInt
                 else case lpStringToInt64 (arg_s arg) of None \<Rightarrow> NoInt | Some vll \<Rightarrow> IsInt vll)\<rparr>
            else arg) in
          Some (arg_venc arg = IsInt v, arg)
      | LP_BUF _ _ \<Rightarrow> None)"

definition lpFind :: "bytes \<Rightarrow> int option \<Rightarrow> bytes \<Rightarrow> nat \<Rightarrow> int option option" where
  "lpFind lp p s skip =
     do { (q, arg) \<leftarrow> lpFindCbInternal lp p \<lparr>arg_s = s, arg_venc = NotTried\<rparr> lpFindCmp skip; Some q }"

text \<open>\<open>lpCompare\<close> without the cache of the caller, and with it.\<close>

definition lpCompare :: "bytes \<Rightarrow> int \<Rightarrow> bytes \<Rightarrow> vencoding option \<Rightarrow> (bool \<times> vencoding option) option" where
  "lpCompare lp p s cached =
     do {
       b \<leftarrow> arr_get lp p;
       if b = LP_EOF then Some (False, cached)
       else do {
         r \<leftarrow> lpGet lp p None;
         case r of
           LP_STR q sz \<Rightarrow>
             if length s = sz then do { bs \<leftarrow> at_read lp q (length s); Some (bs = s, cached) }
             else Some (False, cached)
         | LP_INT sz \<Rightarrow>
             (case cached of
                Some c \<Rightarrow>
                  let c = (if c = NotTried then
                      (case lpStringToInt64 s of Some v \<Rightarrow> IsInt v | None \<Rightarrow> NoInt) else c) in
                  Some (c = IsInt sz, Some c)
              | None \<Rightarrow> (case lpStringToInt64 s of Some sval \<Rightarrow> Some (sz = sval, None) | None \<Rightarrow> Some (False, None)))
         | LP_BUF _ _ \<Rightarrow> None
       }
     }"

subsection \<open>Insertion, replacement and deletion\<close>

datatype lp_where = LP_BEFORE | LP_AFTER | LP_REPLACE

text \<open>The element arguments of \<open>lpInsert\<close>: \<open>elestr\<close>, an encoded \<open>eleint\<close>, or neither (deletion).\<close>

datatype lp_ele = EleStr bytes | EleInt bytes | EleNone

text \<open>
  The three phases after the sizes are known: reallocate and move the tail (the memory grows before
  the move and shrinks after it), store the entry, update the header.
\<close>

definition lpInsert_relocate :: "allocator \<Rightarrow> bytes \<Rightarrow> int \<Rightarrow> lp_where \<Rightarrow> nat \<Rightarrow> nat \<Rightarrow> nat \<Rightarrow> nat \<Rightarrow> bytes option" where
  "lpInsert_relocate A lp poff where added replaced_len old_bytes new_bytes =
     do {
       let lp = (if new_bytes > old_bytes \<and> new_bytes > lp_malloc_size lp
                 then lp_realloc A lp new_bytes else lp);
       lp \<leftarrow>
         (if where = LP_BEFORE
          then at_move lp (poff + int added) poff (int old_bytes - poff)
          else at_move lp (poff + int added) (poff + int replaced_len)
                 (int old_bytes - poff - int replaced_len));
       Some (if new_bytes < old_bytes then lp_realloc A lp new_bytes else lp)
     }"

definition lpInsert_store :: "bytes \<Rightarrow> lp_ele \<Rightarrow> lp_enctype option \<Rightarrow> int \<Rightarrow> nat \<Rightarrow> bytes \<Rightarrow> bytes option" where
  "lpInsert_store lp ele enctype poff enclen backlen =
     (case enctype of
        None \<Rightarrow> Some lp
      | Some t \<Rightarrow> do {
          lp \<leftarrow> (case t of
              LP_ENCODING_INT bs \<Rightarrow> at_write lp poff bs
            | LP_ENCODING_STRING \<Rightarrow>
                (case ele of EleStr s \<Rightarrow> lpEncodeString lp poff s | _ \<Rightarrow> None));
          at_write lp (poff + int enclen) backlen
        })"

definition lpInsert_header :: "bytes \<Rightarrow> lp_where \<Rightarrow> bool \<Rightarrow> nat \<Rightarrow> bytes option" where
  "lpInsert_header lp where delete new_bytes =
     do {
       lp \<leftarrow>
         (if where \<noteq> LP_REPLACE \<or> delete then do {
            num_elements \<leftarrow> lpGetNumElements lp;
            if num_elements \<noteq> LP_HDR_NUMELE_UNKNOWN
            then lpSetNumElements lp (if \<not> delete then int num_elements + 1 else int num_elements - 1)
            else Some lp
          } else Some lp);
       lpSetTotalBytes lp new_bytes
     }"

text \<open>
  The result is \<open>NULL\<close>, or the listpack with \<open>*newp\<close>.  The reallocations cannot fail: the allocator
  aborts the process instead.
\<close>

definition lpInsert :: "allocator \<Rightarrow> bytes \<Rightarrow> lp_ele \<Rightarrow> int \<Rightarrow> lp_where \<Rightarrow> (bytes \<times> int option) option option" where
  "lpInsert A lp ele p where =
     do {
       let delete = (ele = EleNone);
       let where = (if delete then LP_REPLACE else where);
       (p, where) \<leftarrow>
         (if where = LP_AFTER then do { p \<leftarrow> lpSkip lp p; ASSERT_INTEGRITY lp p; Some (p, LP_BEFORE) }
          else Some (p, where));
       let poff = p;
       let (enctype, enclen) =
         (case ele of
            EleStr s \<Rightarrow> (case lpEncodeGetType s of (t, n) \<Rightarrow> (Some t, n))
          | EleInt bs \<Rightarrow> (Some (LP_ENCODING_INT bs), length bs)
          | EleNone \<Rightarrow> (None, 0));
       let backlen = (if delete then [] else lpEncodeBacklen enclen);
       let backlen_size = length backlen;
       old_bytes \<leftarrow> lpGetTotalBytes lp;
       replaced_len \<leftarrow>
         (if where = LP_REPLACE then do {
            n \<leftarrow> lpCurrentEncodedSizeUnsafe lp p;
            let n = (n + lpEncodeBacklenBytes n) mod 2 ^ 32;
            ASSERT_INTEGRITY_LEN lp p n;
            Some n
          } else Some 0);
       let new_bytes = old_bytes + enclen + backlen_size - replaced_len;
       if new_bytes > 2 ^ 32 - 1 then Some None
       else do {
         lp \<leftarrow> lpInsert_relocate A lp poff where (enclen + backlen_size) replaced_len old_bytes new_bytes;
         newp \<leftarrow>
           (if delete then do { b \<leftarrow> arr_get lp poff; Some (if b = LP_EOF then None else Some poff) }
            else Some (Some poff));
         lp \<leftarrow> lpInsert_store lp ele enctype poff enclen backlen;
         lp \<leftarrow> lpInsert_header lp where delete new_bytes;
         Some (Some (lp, newp))
       }
     }"

definition lpInsertString :: "allocator \<Rightarrow> bytes \<Rightarrow> bytes \<Rightarrow> int \<Rightarrow> lp_where \<Rightarrow> (bytes \<times> int option) option option" where
  "lpInsertString A lp s p where = lpInsert A lp (EleStr s) p where"

definition lpInsertInteger :: "allocator \<Rightarrow> bytes \<Rightarrow> int \<Rightarrow> int \<Rightarrow> lp_where \<Rightarrow> (bytes \<times> int option) option option" where
  "lpInsertInteger A lp lval p where = lpInsert A lp (EleInt (lpEncodeIntegerGetType lval)) p where"

definition lpAppend :: "allocator \<Rightarrow> bytes \<Rightarrow> bytes \<Rightarrow> bytes option option" where
  "lpAppend A lp ele =
     do {
       listpack_bytes \<leftarrow> lpGetTotalBytes lp;
       let eofptr = int listpack_bytes - 1;
       r \<leftarrow> lpInsert A lp (EleStr ele) eofptr LP_BEFORE;
       Some (map_option fst r)
     }"

definition lpAppendInteger :: "allocator \<Rightarrow> bytes \<Rightarrow> int \<Rightarrow> bytes option option" where
  "lpAppendInteger A lp lval =
     do {
       listpack_bytes \<leftarrow> lpGetTotalBytes lp;
       let eofptr = int listpack_bytes - 1;
       r \<leftarrow> lpInsertInteger A lp lval eofptr LP_BEFORE;
       Some (map_option fst r)
     }"

definition lpPrepend :: "allocator \<Rightarrow> bytes \<Rightarrow> bytes \<Rightarrow> bytes option option" where
  "lpPrepend A lp s =
     do {
       p \<leftarrow> lpFirst lp;
       case p of
         None \<Rightarrow> lpAppend A lp s
       | Some p \<Rightarrow> do { r \<leftarrow> lpInsert A lp (EleStr s) p LP_BEFORE; Some (map_option fst r) }
     }"

definition lpPrependInteger :: "allocator \<Rightarrow> bytes \<Rightarrow> int \<Rightarrow> bytes option option" where
  "lpPrependInteger A lp lval =
     do {
       p \<leftarrow> lpFirst lp;
       case p of
         None \<Rightarrow> lpAppendInteger A lp lval
       | Some p \<Rightarrow> do { r \<leftarrow> lpInsertInteger A lp lval p LP_BEFORE; Some (map_option fst r) }
     }"

definition lpReplace :: "allocator \<Rightarrow> bytes \<Rightarrow> int \<Rightarrow> bytes \<Rightarrow> (bytes \<times> int option) option option" where
  "lpReplace A lp p s = lpInsert A lp (EleStr s) p LP_REPLACE"

definition lpReplaceInteger :: "allocator \<Rightarrow> bytes \<Rightarrow> int \<Rightarrow> int \<Rightarrow> (bytes \<times> int option) option option" where
  "lpReplaceInteger A lp p lval = lpInsertInteger A lp lval p LP_REPLACE"

definition lpDelete :: "allocator \<Rightarrow> bytes \<Rightarrow> int \<Rightarrow> (bytes \<times> int option) option option" where
  "lpDelete A lp p = lpInsert A lp EleNone p LP_REPLACE"

subsection \<open>Batches\<close>

datatype listpackEntry = SVal bytes | LVal int

record listpackInsertEntry =
  ie_enctype :: lp_enctype
  ie_enclen :: nat
  ie_backlen :: bytes

primrec lpEncodeEntries :: "listpackEntry list \<Rightarrow> listpackInsertEntry list \<times> nat" where
  "lpEncodeEntries [] = ([], 0)"
| "lpEncodeEntries (e # es) =
     (let (t, n) =
        (case e of
           SVal s \<Rightarrow> lpEncodeGetType s
         | LVal v \<Rightarrow> (let intenc = lpEncodeIntegerGetType v in (LP_ENCODING_INT intenc, length intenc)));
        backlen = lpEncodeBacklen n;
        (enc, addedlen) = lpEncodeEntries es
      in (\<lparr>ie_enctype = t, ie_enclen = n, ie_backlen = backlen\<rparr> # enc, n + length backlen + addedlen))"

text \<open>The position past the last entry written, and the position of the last entry.\<close>

fun lpWriteEntries ::
  "bytes \<Rightarrow> int \<Rightarrow> listpackEntry list \<Rightarrow> listpackInsertEntry list \<Rightarrow> int option \<Rightarrow> (bytes \<times> int \<times> int option) option" where
  "lpWriteEntries lp dst (ent # entries) (enc # encs) newp =
     do {
       let newp = Some dst;
       lp \<leftarrow> (case ie_enctype enc of
           LP_ENCODING_INT intenc \<Rightarrow> at_write lp dst intenc
         | LP_ENCODING_STRING \<Rightarrow> (case ent of SVal s \<Rightarrow> lpEncodeString lp dst s | LVal _ \<Rightarrow> None));
       let dst = dst + int (ie_enclen enc);
       lp \<leftarrow> at_write lp dst (ie_backlen enc);
       let dst = dst + int (length (ie_backlen enc));
       lpWriteEntries lp dst entries encs newp
     }"
| "lpWriteEntries lp dst _ _ newp = Some (lp, dst, newp)"

definition lpBatchInsert ::
  "allocator \<Rightarrow> bytes \<Rightarrow> int \<Rightarrow> lp_where \<Rightarrow> listpackEntry list \<Rightarrow> (bytes \<times> int option) option option" where
  "lpBatchInsert A lp p where entries =
     (if where = LP_REPLACE \<or> entries = [] then None
      else do {
        p \<leftarrow> (if where = LP_AFTER then do { p \<leftarrow> lpSkip lp p; ASSERT_INTEGRITY lp p; Some p } else Some p);
        let (enc, addedlen) = lpEncodeEntries entries;
        old_bytes \<leftarrow> lpGetTotalBytes lp;
        let new_bytes = old_bytes + addedlen;
        if new_bytes > 2 ^ 32 - 1 then Some None
        else do {
          let poff = p;
          let lp = (if new_bytes > old_bytes \<and> new_bytes > lp_malloc_size lp
                    then lp_realloc A lp new_bytes else lp);
          lp \<leftarrow> at_move lp (poff + int addedlen) poff (int old_bytes - poff);
          (lp, _, newp) \<leftarrow> lpWriteEntries lp poff entries enc None;
          num_elements \<leftarrow> lpGetNumElements lp;
          lp \<leftarrow>
            (if num_elements \<noteq> LP_HDR_NUMELE_UNKNOWN then
               (if int (length entries) > int LP_HDR_NUMELE_UNKNOWN - int num_elements
                then lpSetNumElements lp (int LP_HDR_NUMELE_UNKNOWN)
                else lpSetNumElements lp (int num_elements + int (length entries)))
             else Some lp);
          lp \<leftarrow> lpSetTotalBytes lp new_bytes;
          Some (Some (lp, newp))
        }
      })"

definition lpBatchAppend :: "allocator \<Rightarrow> bytes \<Rightarrow> listpackEntry list \<Rightarrow> (bytes \<times> int option) option option" where
  "lpBatchAppend A lp entries =
     do {
       listpack_bytes \<leftarrow> lpGetTotalBytes lp;
       lpBatchInsert A lp (int listpack_bytes - 1) LP_BEFORE entries
     }"

definition lpNewWithEntries :: "allocator \<Rightarrow> listpackEntry list \<Rightarrow> bytes option option" where
  "lpNewWithEntries A entries =
     (if entries = [] then None
      else do {
        let (enc, entries_len) = lpEncodeEntries entries;
        let listpack_bytes = nat LP_HDR_SIZE + entries_len + 1;
        if listpack_bytes > 2 ^ 32 - 1 then Some None
        else do {
          let lp = lp_malloc A listpack_bytes;
          (lp, tail, _) \<leftarrow> lpWriteEntries lp LP_HDR_SIZE entries enc None;
          lp \<leftarrow> at_write lp tail [LP_EOF];
          let num_elements = (if length entries \<ge> LP_HDR_NUMELE_UNKNOWN then LP_HDR_NUMELE_UNKNOWN else length entries);
          lp \<leftarrow> lpSetNumElements lp (int num_elements);
          lp \<leftarrow> lpSetTotalBytes lp listpack_bytes;
          Some (Some lp)
        }
      })"

subsection \<open>Deletion of ranges\<close>

text \<open>The end of the range and the number of entries in it.\<close>

primrec delete_range_loop :: "nat \<Rightarrow> bytes \<Rightarrow> nat \<Rightarrow> int \<Rightarrow> nat \<Rightarrow> (int \<times> nat) option" where
  "delete_range_loop 0 lp bytes tail deleted = Some (tail, deleted)"
| "delete_range_loop (Suc num) lp bytes tail deleted =
     do {
       tail \<leftarrow> lpSkip lp tail;
       b \<leftarrow> arr_get lp tail;
       if b = LP_EOF then Some (tail, deleted + 1)
       else do {
         lpAssertValidEntry lp bytes tail;
         delete_range_loop num lp bytes tail (deleted + 1)
       }
     }"

definition lpDeleteRangeWithEntry :: "allocator \<Rightarrow> bytes \<Rightarrow> int \<Rightarrow> nat \<Rightarrow> (bytes \<times> int option) option" where
  "lpDeleteRangeWithEntry A lp p num =
     do {
       bytes \<leftarrow> lpBytes lp;
       let eofptr = int bytes - 1;
       let first = p;
       if num = 0 then Some (lp, Some p)
       else do {
         (tail, deleted) \<leftarrow> delete_range_loop num lp bytes first 0;
         let poff = first;
         lp \<leftarrow> at_move lp first tail (eofptr - tail + 1);
         lp \<leftarrow> lpSetTotalBytes lp (nat (int bytes - (tail - first)));
         numele \<leftarrow> lpGetNumElements lp;
         lp \<leftarrow> (if numele \<noteq> LP_HDR_NUMELE_UNKNOWN then lpSetNumElements lp (int numele - int deleted) else Some lp);
         lp \<leftarrow> lpShrinkToFit A lp;
         b \<leftarrow> arr_get lp poff;
         Some (lp, if b = LP_EOF then None else Some poff)
       }
     }"

definition lpDeleteRange :: "allocator \<Rightarrow> bytes \<Rightarrow> int \<Rightarrow> nat \<Rightarrow> bytes option" where
  "lpDeleteRange A lp index num =
     do {
       numele \<leftarrow> lpGetNumElements lp;
       if num = 0 then Some lp
       else do {
         p \<leftarrow> lpSeek lp index;
         case p of
           None \<Rightarrow> Some lp
         | Some p \<Rightarrow>
             let index = (if numele \<noteq> LP_HDR_NUMELE_UNKNOWN \<and> index < 0 then int numele + index else index) in
             if numele \<noteq> LP_HDR_NUMELE_UNKNOWN \<and> int numele - index \<le> int num then do {
               lp \<leftarrow> at_write lp p [LP_EOF];
               lp \<leftarrow> lpSetTotalBytes lp (nat (p + 1));
               lp \<leftarrow> lpSetNumElements lp index;
               lpShrinkToFit A lp
             } else do {
               (lp, _) \<leftarrow> lpDeleteRangeWithEntry A lp p num;
               Some lp
             }
       }
     }"

text \<open>
  The loop of \<open>lpBatchDelete\<close> over the remaining pointers: what lies between two deleted elements
  is moved down to \<open>dst\<close>.
\<close>

fun batch_delete_loop :: "bytes \<Rightarrow> int \<Rightarrow> int list \<Rightarrow> int \<Rightarrow> (bytes \<times> int) option" where
  "batch_delete_loop lp lp_end [] dst = Some (lp, dst)"
| "batch_delete_loop lp lp_end (skip # ps) dst =
     do {
       b \<leftarrow> arr_get lp skip;
       if b = LP_EOF then None
       else do {
         keep_start \<leftarrow> lpSkip lp skip;
         let keep_end = (case ps of q # _ \<Rightarrow> q | [] \<Rightarrow> lp_end);
         if ps \<noteq> [] \<and> keep_start = keep_end then batch_delete_loop lp lp_end ps dst
         else if \<not> keep_end > keep_start then None
         else do {
           lp \<leftarrow> at_move lp dst keep_start (keep_end - keep_start);
           batch_delete_loop lp lp_end ps (dst + (keep_end - keep_start))
         }
       }
     }"

definition lpBatchDelete :: "allocator \<Rightarrow> bytes \<Rightarrow> int list \<Rightarrow> bytes option" where
  "lpBatchDelete A lp ps =
     (if ps = [] then Some lp
      else do {
        let dst = hd ps;
        total_bytes \<leftarrow> lpGetTotalBytes lp;
        let lp_end = int total_bytes;
        b \<leftarrow> arr_get lp (lp_end - 1);
        if b \<noteq> LP_EOF then None
        else do {
          (lp, dst) \<leftarrow> batch_delete_loop lp lp_end ps dst;
          let total_bytes = int total_bytes - (lp_end - dst);
          b \<leftarrow> arr_get lp (total_bytes - 1);
          if b \<noteq> LP_EOF then None
          else do {
            lp \<leftarrow> lpSetTotalBytes lp (nat total_bytes);
            numele \<leftarrow> lpGetNumElements lp;
            lp \<leftarrow> (if numele \<noteq> LP_HDR_NUMELE_UNKNOWN then lpSetNumElements lp (int numele - int (length ps)) else Some lp);
            lpShrinkToFit A lp
          }
        }
      })"

subsection \<open>Merging\<close>

text \<open>
  \<open>same\<close> says that both arguments point to the same listpack.  The result is \<open>NULL\<close>, or the merged
  listpack with the flag that it is the reallocated first one; the other is freed.  A source
  shorter than its header would make the byte count of the copy wrap around.
\<close>

definition lpMerge :: "allocator \<Rightarrow> bool \<Rightarrow> bytes option \<Rightarrow> bytes option \<Rightarrow> (bytes \<times> bool) option option" where
  "lpMerge A same first second =
     (case (first, second) of
        (Some first, Some second) \<Rightarrow>
          if same then Some None
          else do {
            first_bytes \<leftarrow> lpBytes first;
            (first, first_len) \<leftarrow> lpLength first;
            second_bytes \<leftarrow> lpBytes second;
            (second, second_len) \<leftarrow> lpLength second;
            let (target, target_bytes, source, source_bytes, append) =
              (if first_bytes \<ge> second_bytes then (first, first_bytes, second, second_bytes, True)
               else (second, second_bytes, first, first_bytes, False));
            let lpbytes = int first_bytes + int second_bytes - LP_HDR_SIZE - 1;
            if \<not> (0 \<le> lpbytes \<and> lpbytes < 2 ^ 32 - 1) \<or> int source_bytes < LP_HDR_SIZE then None
            else do {
              let lplength = first_len + second_len;
              let lplength = (if lplength < 65535 then lplength else 65535);
              let target = lp_realloc A target (nat lpbytes);
              target \<leftarrow>
                (if append then do {
                   bs \<leftarrow> at_read source LP_HDR_SIZE (nat (int source_bytes - LP_HDR_SIZE));
                   at_write target (int target_bytes - 1) bs
                 } else do {
                   target \<leftarrow> at_move target (int source_bytes - 1) LP_HDR_SIZE (int target_bytes - LP_HDR_SIZE);
                   bs \<leftarrow> at_read source 0 (nat (int source_bytes - 1));
                   at_write target 0 bs
                 });
              target \<leftarrow> lpSetNumElements target (int lplength);
              target \<leftarrow> lpSetTotalBytes target (nat lpbytes);
              Some (Some (target, append))
            }
          }
      | _ \<Rightarrow> Some None)"

subsection \<open>Sizes of integers\<close>

definition lpEntrySizeInteger :: "int \<Rightarrow> nat" where
  "lpEntrySizeInteger lval =
     (let enclen = length (lpEncodeIntegerGetType lval); backlen = lpEncodeBacklenBytes enclen in enclen + backlen)"

definition lpEstimateBytesRepeatedInteger :: "int \<Rightarrow> nat \<Rightarrow> nat" where
  "lpEstimateBytesRepeatedInteger lval rep = (nat LP_HDR_SIZE + lpEntrySizeInteger lval * rep + 1) mod 2 ^ 64"

subsection \<open>Validation of a whole listpack\<close>

definition lpValidateFirst :: "bytes \<Rightarrow> int option option" where
  "lpValidateFirst lp =
     do { let p = LP_HDR_SIZE; b \<leftarrow> arr_get lp p; Some (if b = LP_EOF then None else Some p) }"

lemma lpValidateNext_advances:
  "lpValidateNext lp (Some p) n = Some (True, Some q) \<Longrightarrow> p < q \<and> q < int n"
proof -
  assume a: "lpValidateNext lp (Some p) n = Some (True, Some q)"
  then obtain e where "q = p + int (e + lpEncodeBacklenBytes e)" "\<not> OUT_OF_RANGE n q"
    by (auto simp: lpValidateNext_def bind_Some_conv Let_def split: if_splits)
  moreover have "0 < e + lpEncodeBacklenBytes e" using lpEncodeBacklenBytes_bounds(1)[of e] by linarith
  ultimately show ?thesis unfolding OUT_OF_RANGE_def by linarith
qed

text \<open>
  The optional callback sees the entry, the element count of the header and its own state; a
  rejected listpack is \<open>Some None\<close>, otherwise the loop ends with the final position and the count.
\<close>

type_synonym 'u lpEntryCB = "int \<Rightarrow> nat \<Rightarrow> 'u \<Rightarrow> bool \<times> 'u"

function lpValidate_loop ::
  "bytes \<Rightarrow> nat \<Rightarrow> nat \<Rightarrow> 'u lpEntryCB option \<Rightarrow> 'u \<Rightarrow> int option \<Rightarrow> nat \<Rightarrow> (int option \<times> nat) option option" where
  "lpValidate_loop lp bytes numele cb user None count = Some (Some (None, count))"
| "lpValidate_loop lp bytes numele cb user (Some p) count =
     (case arr_get lp p of
        None \<Rightarrow> None
      | Some b \<Rightarrow>
          if b = LP_EOF then Some (Some (Some p, count))
          else (case lpValidateNext lp (Some p) bytes of
                  None \<Rightarrow> None
                | Some (False, _) \<Rightarrow> Some None
                | Some (True, q) \<Rightarrow>
                    (case (case cb of None \<Rightarrow> (True, user) | Some f \<Rightarrow> f p numele user) of
                       (False, _) \<Rightarrow> Some None
                     | (True, user) \<Rightarrow> lpValidate_loop lp bytes numele cb user q ((count + 1) mod 2 ^ 32))))"
  by pat_completeness auto
termination
  by (relation "measure (\<lambda>(lp, n, numele, cb, user, p, count). case p of None \<Rightarrow> 0 | Some p \<Rightarrow> Suc (nat (int n - p)))")
     (auto split: option.splits dest!: lpValidateNext_advances)

definition lpValidateIntegrity :: "bytes \<Rightarrow> nat \<Rightarrow> bool \<Rightarrow> 'u lpEntryCB option \<Rightarrow> 'u \<Rightarrow> bool option" where
  "lpValidateIntegrity lp sz deep cb user =
     (if int sz < LP_HDR_SIZE + 1 then Some False
      else do {
        bytes \<leftarrow> lpGetTotalBytes lp;
        if bytes \<noteq> sz then Some False
        else do {
          b \<leftarrow> arr_get lp (int sz - 1);
          if b \<noteq> LP_EOF then Some False
          else if \<not> deep then Some True
          else do {
            numele \<leftarrow> lpGetNumElements lp;
            r \<leftarrow> lpValidate_loop lp bytes numele cb user (Some LP_HDR_SIZE) 0;
            case r of
              None \<Rightarrow> Some False
            | Some (p, count) \<Rightarrow>
                if p \<noteq> Some (int sz - 1) then Some False
                else if numele \<noteq> LP_HDR_NUMELE_UNKNOWN \<and> numele \<noteq> count then Some False
                else Some True
          }
        }
      })"

end
