(* ===== verification/Listpack_Rep.thy ===== *)
theory Listpack_Rep
  imports Listpack
begin

text \<open>
  The abstraction of listpacks: a well-formed listpack is the concatenation of its header, its
  entries (payload and backlen), the end marker and unused bytes, and stands for the sequence of
  its payloads.  The traversal operations are shown to move between the positions of the entries.
\<close>

subsection \<open>Representation\<close>

definition entry :: "bytes \<Rightarrow> bytes" where
  "entry e = e @ lpEncodeBacklen (length e)"

definition body :: "bytes list \<Rightarrow> bytes" where
  "body es = concat (map entry es)"

definition lp_pos :: "bytes list \<Rightarrow> nat \<Rightarrow> int" where
  "lp_pos es i = LP_HDR_SIZE + int (length (body (take i es)))"

text \<open>The element counter is exact, or saturated at \<open>LP_HDR_NUMELE_UNKNOWN\<close>.\<close>

definition num_ok :: "nat \<Rightarrow> nat \<Rightarrow> bool" where
  "num_ok num n \<longleftrightarrow> num = LP_HDR_NUMELE_UNKNOWN \<or> num = n \<and> n < LP_HDR_NUMELE_UNKNOWN"

definition lp_layout :: "nat \<Rightarrow> bytes list \<Rightarrow> bytes \<Rightarrow> bytes" where
  "lp_layout num es slack =
     le_bytes 4 (of_nat (length (body es) + 7) :: u64) @ le_bytes 2 (word_of_int (int num) :: u64) @
     body es @ LP_EOF # slack"

definition lp_rep :: "bytes \<Rightarrow> bytes list \<Rightarrow> bool" where
  "lp_rep lp es \<longleftrightarrow>
     (\<exists>num slack. lp = lp_layout num es slack \<and> num_ok num (length es)) \<and>
     (\<forall>e\<in>set es. payload_ok e) \<and> length (body es) + 7 < 2 ^ 32"

lemma body_simps [simp]:
  "body [] = []" "body (e # es) = entry e @ body es" "body (es @ fs) = body es @ body fs"
  by (simp_all add: body_def)

lemma length_entry: "length (entry e) = length e + lpEncodeBacklenBytes (length e)"
  by (simp add: entry_def length_lpEncodeBacklen)

lemma length_entry_pos [simp]: "0 < length (entry e)"
  by (simp add: length_entry)

lemma lp_pos_0 [simp]: "lp_pos es 0 = 6"
  by (simp add: lp_pos_def LP_HDR_SIZE_def)

lemma lp_pos_ge: "6 \<le> lp_pos es i"
  by (simp add: lp_pos_def LP_HDR_SIZE_def)

lemma lp_pos_Suc: "i < length es \<Longrightarrow> lp_pos es (Suc i) = lp_pos es i + int (length (entry (es ! i)))"
  by (simp add: lp_pos_def take_Suc_conv_app_nth)

lemma lp_pos_len: "lp_pos es (length es) = 6 + int (length (body es))"
  by (simp add: lp_pos_def LP_HDR_SIZE_def)

lemma body_split: "i \<le> length es \<Longrightarrow> length (body es) = length (body (take i es)) + length (body (drop i es))"
  by (metis append_take_drop_id body_simps(3) length_append)

lemma lp_pos_le: "i \<le> length es \<Longrightarrow> lp_pos es i \<le> 6 + int (length (body es))"
  using body_split[of i es] by (simp add: lp_pos_def LP_HDR_SIZE_def)

lemma body_drop: "i < length es \<Longrightarrow> body (drop i es) = entry (es ! i) @ body (drop (Suc i) es)"
  by (simp flip: Cons_nth_drop_Suc)

lemma lp_pos_mono: "i \<le> j \<Longrightarrow> j \<le> length es \<Longrightarrow> lp_pos es i \<le> lp_pos es j"
proof -
  assume "i \<le> j" "j \<le> length es"
  then have "take i es = take i (take j es)" by (simp add: min_def)
  then show ?thesis using body_split[of i "take j es"] \<open>i \<le> j\<close> \<open>j \<le> length es\<close>
    by (simp add: lp_pos_def)
qed

lemma lp_pos_less: "i < j \<Longrightarrow> j \<le> length es \<Longrightarrow> lp_pos es i < lp_pos es j"
  using lp_pos_Suc[of i es] lp_pos_mono[of "Suc i" j es] length_entry_pos[of "es ! i"] by linarith

lemma lp_pos_eq_iff: "i \<le> length es \<Longrightarrow> j \<le> length es \<Longrightarrow> lp_pos es i = lp_pos es j \<longleftrightarrow> i = j"
  by (metis less_irrefl linorder_neqE_nat lp_pos_less)

subsection \<open>Header\<close>

lemma length_layout: "length (lp_layout num es slack) = length (body es) + 7 + length slack"
  by (simp add: lp_layout_def)

lemma bit_of_le_le_bytes:
  "bit (of_le (le_bytes n (w :: 'a::len word)) :: 'b::len word) k \<longleftrightarrow> k < 8 * n \<and> k < LENGTH('b) \<and> bit w k"
proof (induction n arbitrary: w k)
  case (Suc n)
  show ?case by (auto simp: Suc bit_simps dest: bit_imp_le_length)
qed simp

lemma unat_of_le_le_bytes:
  "unat (of_le (le_bytes n (w :: 'a::len word)) :: 'b::len word) = take_bit (min (8 * n) LENGTH('b)) (unat w)"
  by (rule bit_eqI) (auto simp: bit_of_le_le_bytes bit_simps dest: bit_imp_le_length)

lemma layout_total:
  assumes "length (body es) + 7 < 2 ^ 32"
  shows "lpGetTotalBytes (lp_layout num es slack) = Some (length (body es) + 7)"
proof -
  have "at_read (lp_layout num es slack) 0 4 = Some (le_bytes 4 (of_nat (length (body es) + 7) :: u64))"
    by (simp add: at_read_iff lp_layout_def)
  then show ?thesis
    using assms by (simp add: lpGetTotalBytes_def unat_of_le_le_bytes unat_of_nat take_bit_eq_mod del: of_nat_add)
qed

lemma layout_num:
  assumes "num \<le> LP_HDR_NUMELE_UNKNOWN"
  shows "lpGetNumElements (lp_layout num es slack) = Some num"
proof -
  have "at_read (lp_layout num es slack) 4 2 = Some (le_bytes 2 (word_of_int (int num) :: u64))"
    by (simp add: at_read_iff lp_layout_def)
  then show ?thesis
    using assms by (simp add: lpGetNumElements_def unat_of_le_le_bytes unat_of_nat take_bit_eq_mod LP_HDR_NUMELE_UNKNOWN_def)
qed

lemma num_ok_le: "num_ok num n \<Longrightarrow> num \<le> LP_HDR_NUMELE_UNKNOWN"
  by (auto simp: num_ok_def)

lemma layout_set_total:
  "lpSetTotalBytes (hdr @ nums @ bs) n = Some (le_bytes 4 (of_nat n :: u64) @ nums @ bs)" if "length hdr = 4"
  using that by (simp add: lpSetTotalBytes_def at_write_def mem_write_def)

lemma layout_set_num:
  "lpSetNumElements (hdr @ nums @ bs) n = Some (hdr @ le_bytes 2 (word_of_int n :: u64) @ bs)"
  if "length hdr = 4" "length nums = 2"
  using that by (simp add: lpSetNumElements_def at_write_def mem_write_def)

lemma lp_repE:
  assumes "lp_rep lp es"
  obtains num slack where "lp = lp_layout num es slack" "num_ok num (length es)" "\<forall>e\<in>set es. payload_ok e"
    "length (body es) + 7 < 2 ^ 32" "lpGetTotalBytes lp = Some (length (body es) + 7)"
    "lpGetNumElements lp = Some num" "length lp = length (body es) + 7 + length slack"
  using assms layout_total layout_num num_ok_le length_layout unfolding lp_rep_def by metis

lemma lp_rep_at:
  assumes "lp_rep lp es" "i \<le> length es"
  shows "lp_at lp (lp_pos es i) (body (drop i es) @ [LP_EOF])"
proof -
  obtain num slack where lp: "lp = lp_layout num es slack" using assms(1) by (rule lp_repE)
  have "body es = body (take i es) @ body (drop i es)" by (metis append_take_drop_id body_simps(3))
  moreover define pre where "pre = le_bytes 4 (of_nat (length (body es) + 7) :: u64) @
     le_bytes 2 (word_of_int (int num) :: u64) @ body (take i es)"
  ultimately have "lp = pre @ (body (drop i es) @ [LP_EOF]) @ slack" unfolding lp lp_layout_def by simp
  moreover have "lp_pos es i = int (length pre)" by (simp add: lp_pos_def LP_HDR_SIZE_def pre_def)
  ultimately show ?thesis unfolding lp_at_def by blast
qed

lemma lp_rep_entry:
  assumes "lp_rep lp es" "i < length es"
  shows "lp_at lp (lp_pos es i) (es ! i)" "lp_at lp (lp_pos es i + int (length (es ! i))) (lpEncodeBacklen (length (es ! i)))"
    "payload_ok (es ! i)"
proof -
  have "lp_at lp (lp_pos es i) (entry (es ! i) @ body (drop (Suc i) es) @ [LP_EOF])"
    using lp_rep_at[of lp es i] assms by (simp add: body_drop)
  then have "lp_at lp (lp_pos es i) (entry (es ! i))" using lp_at_append by blast
  then show "lp_at lp (lp_pos es i) (es ! i)" "lp_at lp (lp_pos es i + int (length (es ! i))) (lpEncodeBacklen (length (es ! i)))"
    using lp_at_append unfolding entry_def by blast+
  show "payload_ok (es ! i)" using assms by (simp add: lp_rep_def)
qed

lemma lp_rep_eof: "lp_rep lp es \<Longrightarrow> arr_get lp (lp_pos es (length es)) = Some LP_EOF"
  using lp_at_get[OF lp_rep_at[of lp es "length es"], of 0] by (simp add: arr_get_def)

lemma lp_rep_first: "lp_rep lp es \<Longrightarrow> i < length es \<Longrightarrow> arr_get lp (lp_pos es i) = Some (hd (es ! i)) \<and> hd (es ! i) \<noteq> LP_EOF"
  using payload_first lp_rep_entry by blast

lemma lp_rep_size: "lp_rep lp es \<Longrightarrow> i < length es \<Longrightarrow> lpCurrentEncodedSizeUnsafe lp (lp_pos es i) = Some (length (es ! i))"
  using payload_size lp_rep_entry by blast

lemma lp_rep_bytes: "lp_rep lp es \<Longrightarrow> lpBytes lp = Some (length (body es) + 7)"
  by (elim lp_repE) (simp add: lpBytes_def)

lemma payload_bound: "lp_rep lp es \<Longrightarrow> i < length es \<Longrightarrow> length (entry (es ! i)) < 2 ^ 32"
  using body_split[of i es] body_drop[of i es] by (auto elim!: lp_repE)

lemma lp_rep_decode:
  assumes "lp_rep lp es" "i < length es"
  shows "lpDecodeBacklen lp (lp_pos es (Suc i) - 1) = Some (length (es ! i))"
proof -
  have "length (es ! i) < 2 ^ 35" using payload_bound[OF assms] by (simp add: length_entry)
  then show ?thesis
    using lpDecodeBacklen_encode[OF lp_rep_entry(2)[OF assms]] lp_pos_Suc[OF assms(2)]
    by (simp add: length_entry algebra_simps)
qed

subsection \<open>Traversal\<close>

lemma payload_lenbytes:
  assumes "payload_ok e"
  shows "0 < lpCurrentEncodedSizeBytes (hd e)" "lpCurrentEncodedSizeBytes (hd e) \<le> length e"
proof -
  obtain b where b: "arr_get e 0 = Some b" "hd e = b" "b \<noteq> LP_EOF" and sz: "lpCurrentEncodedSizeUnsafe e 0 = Some (length e)"
    using payload_first[OF lp_at_self assms] assms by (auto simp: payload_ok_def)
  have len: "0 < length e" using b(1) by (auto simp: arr_get_def split: if_splits)
  have ne: "unat b \<noteq> 255" using b(3) lp_class_iff(10) by simp
  note size = sz[unfolded lpCurrentEncodedSizeUnsafe_def b lp_class_iff bind.bind_lunit]
  note sb = lpCurrentEncodedSizeBytes_def[of b, unfolded lp_class_iff]
  have n12: "2 \<le> length e" if "LP_ENCODING_12BIT_STR_LEN e 0 = Some n" for n
    using that by (auto simp: LP_ENCODING_12BIT_STR_LEN_def bind_Some_conv arr_get_iff)
  have n32: "5 \<le> length e" if "LP_ENCODING_32BIT_STR_LEN e 0 = Some n" for n
    using that by (auto simp: LP_ENCODING_32BIT_STR_LEN_def bind_Some_conv at_read_iff)
  consider "unat b < 224" | "224 \<le> unat b \<and> unat b < 240" | "unat b = 240" | "unat b \<in> {241, 242, 243, 244}" | "244 < unat b"
    by force
  then have "0 < lpCurrentEncodedSizeBytes b \<and> lpCurrentEncodedSizeBytes b \<le> length e"
  proof cases
    case 1
    then show ?thesis using len by (simp add: sb Suc_le_eq)
  next
    case 2
    then show ?thesis using n12 size by (cases "LP_ENCODING_12BIT_STR_LEN e 0") (auto simp: sb)
  next
    case 3
    then show ?thesis using n32 size by (cases "LP_ENCODING_32BIT_STR_LEN e 0") (auto simp: sb)
  next
    case 4
    then show ?thesis using len by (auto simp: sb Suc_le_eq)
  next
    case 5
    then show ?thesis using size ne len by simp
  qed
  then show "0 < lpCurrentEncodedSizeBytes (hd e)" "lpCurrentEncodedSizeBytes (hd e) \<le> length e" using b(2) by auto
qed

lemma lpSkip_rep: "lp_rep lp es \<Longrightarrow> i < length es \<Longrightarrow> lpSkip lp (lp_pos es i) = Some (lp_pos es (Suc i))"
  by (simp add: lpSkip_def lp_rep_size lp_pos_Suc length_entry)

lemma lpSkipPrev_rep:
  assumes "lp_rep lp es" "i < length es"
  shows "lpSkipPrev lp (lp_pos es (Suc i)) = Some (lp_pos es i)"
proof -
  have "length (entry (es ! i)) < 2 ^ 64" using payload_bound[OF assms] by simp
  then have "(length (es ! i) + lpEncodeBacklenBytes (length (es ! i))) mod 2 ^ 64 = length (entry (es ! i))"
    by (simp add: length_entry)
  then show ?thesis
    using lp_rep_decode[OF assms] lp_pos_Suc[OF assms(2)] by (simp add: lpSkipPrev_def Let_def)
qed

lemma lpValidateNext_rep:
  assumes "lp_rep lp es" "i \<le> length es"
  shows "lpValidateNext lp (Some (lp_pos es i)) (length (body es) + 7) =
    Some (True, if i < length es then Some (lp_pos es (Suc i)) else None)"
proof -
  let ?n = "length (body es) + 7"
  have range: "\<not> OUT_OF_RANGE ?n q" if "lp_pos es i \<le> q" "q \<le> lp_pos es (length es)" for q
    using that lp_pos_ge[of es i] by (auto simp: OUT_OF_RANGE_def LP_HDR_SIZE_def lp_pos_len)
  show ?thesis
  proof (cases "i < length es")
    case False
    then have "i = length es" using assms(2) by simp
    then show ?thesis using range[of "lp_pos es i"] lp_rep_eof[OF assms(1)] by (simp add: lpValidateNext_def)
  next
    case True
    let ?e = "es ! i"
    let ?l = "lpCurrentEncodedSizeBytes (hd ?e)"
    note nxt = lp_pos_Suc[OF True, unfolded length_entry] and ok = lp_rep_entry(3)[OF assms(1) True]
    have le: "lp_pos es (Suc i) \<le> lp_pos es (length es)" using True by (intro lp_pos_mono) auto
    have r1: "\<not> OUT_OF_RANGE ?n (lp_pos es i)" and r3: "\<not> OUT_OF_RANGE ?n (lp_pos es (Suc i))"
      using range[of "lp_pos es i"] range[of "lp_pos es (Suc i)"] le nxt by auto
    have r2: "\<not> OUT_OF_RANGE ?n (lp_pos es i + int ?l)"
      using range[of "lp_pos es i + int ?l"] le nxt payload_lenbytes(2)[OF ok] by auto
    have "length ?e + lpEncodeBacklenBytes (length ?e) < 2 ^ 32"
      using payload_bound[OF assms(1) True] by (simp add: length_entry)
    then show ?thesis
      using True r1 r2 r3 lp_rep_first[OF assms(1) True] lp_rep_size[OF assms(1) True]
        lp_rep_decode[OF assms(1) True] payload_lenbytes(1)[OF ok] nxt
      by (simp add: lpValidateNext_def Let_def)
  qed
qed

lemma lpAssertValidEntry_rep:
  "lp_rep lp es \<Longrightarrow> i \<le> length es \<Longrightarrow> lpAssertValidEntry lp (length (body es) + 7) (lp_pos es i) = Some ()"
  unfolding lpAssertValidEntry_def lpValidateNext_rep by simp

lemma lpNext_rep:
  assumes "lp_rep lp es" "i < length es"
  shows "lpNext lp (lp_pos es i) = Some (if Suc i < length es then Some (lp_pos es (Suc i)) else None)"
proof (cases "Suc i < length es")
  case True
  then show ?thesis
    using assms lp_rep_first[OF assms(1), of "Suc i"] lpAssertValidEntry_rep[OF assms(1), of "Suc i"]
    by (simp add: lpNext_def lpSkip_rep lp_rep_bytes)
next
  case False
  then have "Suc i = length es" using assms(2) by simp
  then show ?thesis using lpSkip_rep[OF assms] lp_rep_eof[OF assms(1)] by (simp add: lpNext_def)
qed

lemma lpPrev_rep:
  assumes "lp_rep lp es" "i \<le> length es"
  shows "lpPrev lp (lp_pos es i) = Some (if i = 0 then None else Some (lp_pos es (i - 1)))"
proof (cases i)
  case (Suc j)
  then have j: "j < length es" using assms(2) by simp
  have "lp_pos es (Suc j) \<noteq> LP_HDR_SIZE" using lp_pos_less[of j "Suc j" es] lp_pos_ge[of es j] j by (simp add: LP_HDR_SIZE_def)
  then show ?thesis
    using Suc lpSkipPrev_rep[OF assms(1) j] lpAssertValidEntry_rep[OF assms(1), of j] j
    by (simp add: lpPrev_def lp_rep_bytes[OF assms(1)])
qed (simp add: lpPrev_def LP_HDR_SIZE_def)

lemma lpFirst_rep:
  assumes "lp_rep lp es"
  shows "lpFirst lp = Some (if es = [] then None else Some (lp_pos es 0))"
proof (cases "es = []")
  case True
  then show ?thesis using lp_rep_eof[OF assms] by (simp add: lpFirst_def LP_HDR_SIZE_def)
next
  case False
  then show ?thesis
    using lp_rep_first[OF assms, of 0] lpAssertValidEntry_rep[OF assms, of 0]
    by (simp add: lpFirst_def LP_HDR_SIZE_def lp_rep_bytes[OF assms])
qed

lemma lpLast_rep:
  assumes "lp_rep lp es"
  shows "lpLast lp = Some (if es = [] then None else Some (lp_pos es (length es - 1)))"
proof -
  have "lpGetTotalBytes lp = Some (length (body es) + 7)" using assms by (rule lp_repE)
  moreover have "int (length (body es) + 7) - 1 = lp_pos es (length es)" by (simp add: lp_pos_len)
  ultimately show ?thesis using lpPrev_rep[OF assms, of "length es"] by (simp add: lpLast_def del: of_nat_add)
qed

lemma lpNextN_loop_rep:
  assumes "lp_rep lp es" "i < length es"
  shows "\<exists>v. lpNextN_loop n lp (length (body es) + 7) (lp_pos es i) validated =
    Some (if i + n < length es then Some (lp_pos es (i + n), v) else None)"
  using assms(2)
proof (induction n arbitrary: i validated)
  case (Suc n)
  let ?n = "length (body es) + 7"
  let ?q = "lp_pos es (Suc i)"
  have q: "LP_HDR_SIZE \<le> ?q" "?q < int ?n"
    using lp_pos_ge[of es "Suc i"] lp_pos_le[of "Suc i" es] Suc.prems by (simp_all add: LP_HDR_SIZE_def)
  have chk: "lpAssertValidEntry lp ?n ?q = Some ()" using lpAssertValidEntry_rep[OF assms(1), of "Suc i"] Suc.prems by simp
  define w where "w \<longleftrightarrow> int ?n \<le> ?q + 5"
  have step: "lpNextN_loop (Suc n) lp ?n (lp_pos es i) validated =
      arr_get lp ?q \<bind> (\<lambda>b. if b = LP_EOF then Some None else lpNextN_loop n lp ?n ?q w)"
    using lpSkip_rep[OF assms(1) Suc.prems] q chk unfolding w_def by (auto cong: if_cong)
  show ?case
  proof (cases "Suc i < length es")
    case True
    then show ?thesis unfolding step using Suc.IH[OF True, of w] lp_rep_first[OF assms(1) True] by auto
  next
    case False
    then have "Suc i = length es" using Suc.prems by simp
    then show ?thesis unfolding step using lp_rep_eof[OF assms(1)] by auto
  qed
qed simp

lemma lpNextN_rep:
  assumes "lp_rep lp es" "i < length es"
  shows "lpNextN lp (Some (lp_pos es i)) n = Some (if i + n < length es then Some (lp_pos es (i + n)) else None)"
  using lpNextN_loop_rep[OF assms, of n True] lpAssertValidEntry_rep[OF assms(1), of "i + n"]
  by (auto simp: lpNextN_def lp_rep_bytes[OF assms(1)])

lemma lpPrevN_loop_rep:
  assumes "lp_rep lp es" "i < length es"
  shows "\<exists>v. lpPrevN_loop n lp (length (body es) + 7) (lp_pos es i) validated =
    Some (if n \<le> i then Some (lp_pos es (i - n), v) else None)"
  using assms(2)
proof (induction n arbitrary: i validated)
  case (Suc n)
  show ?case
  proof (cases i)
    case 0
    then show ?thesis by (simp add: LP_HDR_SIZE_def)
  next
    case (Suc j)
    then have j: "j < length es" using Suc.prems by simp
    have "lp_pos es (Suc j) \<noteq> LP_HDR_SIZE" using lp_pos_less[of j "Suc j" es] lp_pos_ge[of es j] j by (simp add: LP_HDR_SIZE_def)
    moreover have "LP_HDR_SIZE \<le> lp_pos es j" "lp_pos es j < int (length (body es) + 7)"
      using lp_pos_ge[of es j] lp_pos_le[of j es] j by (simp_all add: LP_HDR_SIZE_def)
    ultimately show ?thesis
      using Suc lpSkipPrev_rep[OF assms(1) j] Suc.IH[OF j, of False] by (auto simp del: of_nat_add)
  qed
qed simp

lemma lpPrevN_rep:
  assumes "lp_rep lp es" "i < length es"
  shows "lpPrevN lp (Some (lp_pos es i)) n = Some (if n \<le> i then Some (lp_pos es (i - n)) else None)"
  using lpPrevN_loop_rep[OF assms, of n True] lpAssertValidEntry_rep[OF assms(1), of "i - n"] assms(2)
  by (auto simp: lpPrevN_def lp_rep_bytes[OF assms(1)])

text \<open>The entry a signed index stands for.\<close>

definition seek_index :: "nat \<Rightarrow> int \<Rightarrow> nat option" where
  "seek_index n index =
     (let j = (if index < 0 then int n + index else index) in if 0 \<le> j \<and> j < int n then Some (nat j) else None)"

lemma lpSeek_fwd:
  assumes "lp_rep lp es" "0 \<le> index"
  shows "do { p \<leftarrow> lpFirst lp; lpNextN lp p (nat index) } = Some (map_option (lp_pos es) (seek_index (length es) index))"
  using lpFirst_rep[OF assms(1)] lpNextN_rep[OF assms(1), of 0 "nat index"] assms(2) lp_rep_bytes[OF assms(1)]
  by (cases "es = []") (auto simp: lpNextN_def seek_index_def Let_def)

lemma lpSeek_bwd:
  assumes "lp_rep lp es"
  shows "do { p \<leftarrow> lpLast lp; lpPrevN lp p k } =
    Some (if k < length es then Some (lp_pos es (length es - 1 - k)) else None)"
proof (cases "es = []")
  case False
  then have "k \<le> length es - 1 \<longleftrightarrow> k < length es" by (cases es) auto
  then show ?thesis using False lpLast_rep[OF assms] lpPrevN_rep[OF assms, of "length es - 1" k] by simp
qed (use lpLast_rep[OF assms] lp_rep_bytes[OF assms] in \<open>simp add: lpPrevN_def\<close>)

lemma lpSeek_rep:
  assumes "lp_rep lp es"
  shows "lpSeek lp index = Some (map_option (lp_pos es) (seek_index (length es) index))"
proof -
  obtain num where num: "lpGetNumElements lp = Some num" "num_ok num (length es)"
    using assms by (rule lp_repE)
  let ?n = "length es"
  show ?thesis
  proof (cases "num = LP_HDR_NUMELE_UNKNOWN")
    case True
    show ?thesis
    proof (cases "index < 0")
      case neg: True
      have "nat (- index - 1) < ?n \<longleftrightarrow> 0 \<le> int ?n + index" using neg by linarith
      moreover have "?n - 1 - nat (- index - 1) = nat (int ?n + index)" if "0 \<le> int ?n + index"
        using neg that by linarith
      ultimately show ?thesis
        using True num lpSeek_bwd[OF assms, of "nat (- index - 1)"] neg
        by (auto simp: lpSeek_def seek_index_def Let_def)
    qed (use True num lpSeek_fwd[OF assms] in \<open>simp add: lpSeek_def\<close>)
  next
    case False
    then have n: "num = ?n" using num by (simp add: num_ok_def)
    define j where "j = (if index < 0 then int ?n + index else index)"
    have idx: "seek_index ?n index = (if 0 \<le> j \<and> j < int ?n then Some (nat j) else None)"
      by (simp add: seek_index_def j_def Let_def)
    have seek: "lpSeek lp index =
        (if j < 0 then Some None else if j \<ge> int ?n then Some None
         else if j > int ?n div 2 then do { p \<leftarrow> lpLast lp; lpPrevN lp p (nat (int ?n - j - 1)) }
         else do { p \<leftarrow> lpFirst lp; lpNextN lp p (nat j) })"
      using num(1) n False by (simp add: lpSeek_def j_def Let_def)
    show ?thesis
    proof (cases "0 \<le> j \<and> j < int ?n")
      case True
      then have "nat (int ?n - j - 1) < ?n" "?n - 1 - nat (int ?n - j - 1) = nat j" by linarith+
      then show ?thesis
        unfolding seek idx using True lpSeek_bwd[OF assms, of "nat (int ?n - j - 1)"] lpSeek_fwd[OF assms, of j]
        by (simp add: seek_index_def)
    qed (auto simp: seek idx)
  qed
qed

lemma lpLength_loop_rep:
  assumes "lp_rep lp es" "i < length es"
  shows "lpLength_loop lp (Some (lp_pos es i)) count = Some ((count + (length es - i)) mod 2 ^ 32)"
  using assms(2)
proof (induction "length es - i" arbitrary: i count)
  case (Suc n)
  show ?case
  proof (cases "Suc i < length es")
    case True
    have k: "length es - Suc i = n" "length es - i = Suc n" using Suc.hyps(2) by simp_all
    have "lpLength_loop lp (Some (lp_pos es (Suc i))) ((count + 1) mod 2 ^ 32) = Some (((count + 1) mod 2 ^ 32 + n) mod 2 ^ 32)"
      using Suc.hyps(1)[of "Suc i" "(count + 1) mod 2 ^ 32"] True k(1) by metis
    moreover have "((count + 1) mod 2 ^ 32 + n) mod 2 ^ 32 = (count + Suc n) mod 2 ^ 32"
      by (simp add: mod_add_left_eq)
    moreover have "lpLength_loop lp (Some (lp_pos es i)) count =
        lpLength_loop lp (Some (lp_pos es (Suc i))) ((count + 1) mod 2 ^ 32)"
      by (subst lpLength_loop.simps) (simp only: lpNext_rep[OF assms(1) Suc.prems] True if_True option.case)
    ultimately show ?thesis unfolding k(2) by metis
  next
    case False
    then have "length es - i = 1" using Suc.prems by simp
    then show ?thesis using False lpNext_rep[OF assms(1) Suc.prems] by simp
  qed
qed simp

lemma length_body_ge: "length es \<le> length (body es)"
proof (induction es)
  case (Cons e es)
  then show ?case using length_entry_pos[of e] by (simp only: body_simps length_append list.size)
qed simp

lemma lpLength_rep:
  assumes "lp_rep lp es"
  shows "\<exists>lp'. lpLength lp = Some (lp', length es) \<and> lp_rep lp' es \<and> lpGetTotalBytes lp' = lpGetTotalBytes lp \<and>
    length lp' = length lp"
proof -
  obtain num slack where r: "lp = lp_layout num es slack" "num_ok num (length es)" "\<forall>e\<in>set es. payload_ok e"
    "length (body es) + 7 < 2 ^ 32" "lpGetNumElements lp = Some num"
    using assms by (rule lp_repE)
  show ?thesis
  proof (cases "num = LP_HDR_NUMELE_UNKNOWN")
    case False
    then show ?thesis using r assms by (auto simp: lpLength_def num_ok_def)
  next
    case True
    have small: "length es < 2 ^ 32" using length_body_ge[of es] r(4) by simp
    have cnt: "lpFirst lp \<bind> (\<lambda>p. lpLength_loop lp p 0) = Some (length es)"
      using lpFirst_rep[OF assms] lpLength_loop_rep[OF assms, of 0 0] small by (cases "es = []") auto
    have len: "lpLength lp = do {
        lp' \<leftarrow> (if length es < LP_HDR_NUMELE_UNKNOWN then lpSetNumElements lp (int (length es)) else Some lp);
        Some (lp', length es) }"
      using r(5) True cnt by (simp add: lpLength_def bind_eq_Some_conv) (cases "lpFirst lp"; simp)
    show ?thesis
    proof (cases "length es < LP_HDR_NUMELE_UNKNOWN")
      case small: True
      have "lpSetNumElements lp (int (length es)) = Some (lp_layout (length es) es slack)"
        unfolding r(1) lp_layout_def by (subst layout_set_num) auto
      moreover have "lp_rep (lp_layout (length es) es slack) es"
        using r small unfolding lp_rep_def num_ok_def by blast
      ultimately show ?thesis using len small r layout_total by (auto simp: length_layout)
    qed (use len assms in simp)
  qed
qed

end
