(* ===== verification/Listpack_Proofs.thy ===== *)
theory Listpack_Proofs
  imports Listpack_Rep
begin

text \<open>
  Correctness of the listpack operations: insertion, replacement, deletion, batches, ranges,
  merging, search and validation refine operations on the sequence of payloads.
\<close>

subsection \<open>Moving bytes\<close>

lemma zrealloc_prefix: "length xs \<le> n \<Longrightarrow> \<exists>slack'. zrealloc f (xs @ slack) n = xs @ slack'"
  by (simp add: zrealloc_def)

lemma lp_realloc_prefix: "length xs \<le> n \<Longrightarrow> \<exists>slack'. lp_realloc A (xs @ slack) n = xs @ slack' \<and> n \<le> length (xs @ slack')"
proof -
  assume "length xs \<le> n"
  then have "length xs \<le> usable A n" by (simp add: usable_def)
  then obtain slack' where "zrealloc (junk A) (xs @ slack) (usable A n) = xs @ slack'" using zrealloc_prefix by metis
  moreover have "n \<le> length (zrealloc (junk A) (xs @ slack) (usable A n))" by (simp add: usable_def)
  ultimately show ?thesis by (metis lp_realloc_def)
qed

lemma at_write_block: "length xs = length mid \<Longrightarrow> at_write (pre @ mid @ post) (int (length pre)) xs = Some (pre @ xs @ post)"
  by (simp add: at_write_def mem_write_def)

lemma at_move_block:
  assumes "length pre + n + length tail \<le> length (pre @ old @ tail @ slack)"
  shows "\<exists>mid slack'. at_move (pre @ old @ tail @ slack) (int (length pre) + int n) (int (length pre) + int (length old)) (int (length tail)) =
     Some (pre @ mid @ tail @ slack') \<and> length mid = n \<and> length slack' + n = length slack + length old"
proof -
  let ?lp = "pre @ old @ tail @ slack"
  have nat: "nat (int (length pre) + int k) = length pre + k" for k by simp
  have "at_read ?lp (int (length pre) + int (length old)) (length tail) = Some tail"
    by (simp add: at_read_iff nat)
  moreover have "at_write ?lp (int (length pre) + int n) tail =
      Some (pre @ take n (old @ tail @ slack) @ tail @ drop (n + length tail) (old @ tail @ slack))"
    using assms by (simp add: at_write_def mem_write_def nat add.assoc)
  ultimately have "at_move ?lp (int (length pre) + int n) (int (length pre) + int (length old)) (int (length tail)) =
      Some (pre @ take n (old @ tail @ slack) @ tail @ drop (n + length tail) (old @ tail @ slack))"
    by (simp add: at_move_def)
  moreover have "length (take n (old @ tail @ slack)) = n" using assms by simp
  moreover have "length (drop (n + length tail) (old @ tail @ slack)) + n = length slack + length old" using assms by simp
  ultimately show ?thesis by blast
qed

lemma lpInsert_relocate_block:
  assumes "w = LP_BEFORE \<and> old = [] \<or> w = LP_REPLACE"
    and "old_bytes = length (pre @ old @ tail)" "new_bytes = length pre + n + length tail"
  shows "\<exists>mid slack'. lpInsert_relocate A (pre @ old @ tail @ slack) (int (length pre)) w n (length old) old_bytes new_bytes =
    Some (pre @ mid @ tail @ slack') \<and> length mid = n"
proof -
  let ?lp = "pre @ old @ tail @ slack"
  obtain slack1 where s1: "(if new_bytes > old_bytes \<and> new_bytes > lp_malloc_size ?lp then lp_realloc A ?lp new_bytes else ?lp) =
      pre @ old @ tail @ slack1" "new_bytes \<le> length (pre @ old @ tail @ slack1)"
  proof (cases "new_bytes > old_bytes \<and> new_bytes > lp_malloc_size ?lp")
    case True
    then obtain slack' where "lp_realloc A ((pre @ old @ tail) @ slack) new_bytes = (pre @ old @ tail) @ slack'"
      "new_bytes \<le> length ((pre @ old @ tail) @ slack')"
      using lp_realloc_prefix[of "pre @ old @ tail" new_bytes A slack] assms(2) by auto
    then show ?thesis using that[of slack'] True by simp
  next
    case False
    then show ?thesis using that[of slack] assms(2) by (auto simp: lp_malloc_size_def)
  qed
  obtain mid slack2 where s2: "at_move (pre @ old @ tail @ slack1) (int (length pre) + int n)
      (int (length pre) + int (length old)) (int (length tail)) = Some (pre @ mid @ tail @ slack2)" "length mid = n"
    using at_move_block[of pre n tail old slack1] s1(2) assms(3) by auto
  obtain slack3 where s3: "(if new_bytes < old_bytes then lp_realloc A (pre @ mid @ tail @ slack2) new_bytes
      else pre @ mid @ tail @ slack2) = pre @ mid @ tail @ slack3"
    using lp_realloc_prefix[of "pre @ mid @ tail" new_bytes A slack2] s2(2) assms(3)
    by (cases "new_bytes < old_bytes") auto
  have "int old_bytes - int (length pre) - int (length old) = int (length tail)" using assms(2) by simp
  then have "lpInsert_relocate A ?lp (int (length pre)) w n (length old) old_bytes new_bytes = Some (pre @ mid @ tail @ slack3)"
    using assms(1) s1(1) s2 s3 by (auto simp: lpInsert_relocate_def Let_def)
  then show ?thesis using s2(2) by blast
qed

subsection \<open>Insertion, replacement and deletion of one element\<close>

text \<open>The payload an element argument stands for.\<close>

definition ele_payload :: "lp_ele \<Rightarrow> bytes" where
  "ele_payload ele = (case ele of EleStr s \<Rightarrow> lp_encode s | EleInt bs \<Rightarrow> bs | EleNone \<Rightarrow> [])"

lemma ele_payload_simps: "ele_payload (EleStr s) = lp_encode s" "ele_payload (EleInt bs) = bs"
  by (simp_all add: ele_payload_def)

definition ele_entry :: "lp_ele \<Rightarrow> bytes" where
  "ele_entry ele = (if ele = EleNone then [] else entry (ele_payload ele))"

definition ele_list :: "lp_ele \<Rightarrow> bytes list" where
  "ele_list ele = (if ele = EleNone then [] else [ele_payload ele])"

lemma body_ele_list [simp]: "body (ele_list ele) = ele_entry ele"
  by (simp add: ele_list_def ele_entry_def)

text \<open>The encoding type and length computed by \<open>lpInsert\<close>, and the stored bytes.\<close>

definition ele_encoding :: "lp_ele \<Rightarrow> lp_enctype option \<times> nat" where
  "ele_encoding ele =
     (case ele of
        EleStr s \<Rightarrow> (case lpEncodeGetType s of (t, n) \<Rightarrow> (Some t, n))
      | EleInt bs \<Rightarrow> (Some (LP_ENCODING_INT bs), length bs)
      | EleNone \<Rightarrow> (None, 0))"

lemma ele_encoding_len: "snd (ele_encoding ele) = length (ele_payload ele)"
  by (auto simp: ele_encoding_def ele_payload_def lpEncodeGetType_eq split: lp_ele.splits)

lemma ele_encoding_None: "fst (ele_encoding ele) = None \<longleftrightarrow> ele = EleNone"
  by (auto simp: ele_encoding_def split: lp_ele.splits prod.splits)

lemma store_payload:
  assumes "fst (ele_encoding ele) = Some t" "length mid = length (ele_payload ele)"
  shows "(case t of
      LP_ENCODING_INT bs \<Rightarrow> at_write (pre @ mid @ post) (int (length pre)) bs
    | LP_ENCODING_STRING \<Rightarrow>
        (case ele of EleStr s \<Rightarrow> lpEncodeString (pre @ mid @ post) (int (length pre)) s | _ \<Rightarrow> None)) =
    Some (pre @ ele_payload ele @ post)"
proof (cases ele)
  case (EleStr s)
  show ?thesis
  proof (cases "lpStringToInt64 s")
    case None
    then have e: "ele_payload ele = lp_string_enc s" using EleStr by (simp add: ele_payload_def lp_encode_def)
    then have "lpEncodeString (pre @ mid @ post) (int (length pre)) s = at_write (pre @ mid @ post) (int (length pre)) (lp_string_enc s)"
      using assms(2) by (intro lpEncodeString_eq) auto
    then show ?thesis
      using assms None EleStr e at_write_block[of "lp_string_enc s" mid pre post]
      by (simp add: ele_encoding_def lpEncodeGetType_eq flip: e)
  next
    case (Some v)
    then show ?thesis
      using assms EleStr at_write_block[of "ele_payload ele" mid pre post]
      by (auto simp: ele_encoding_def lpEncodeGetType_eq ele_payload_def)
  qed
qed (use assms at_write_block[of "ele_payload ele" mid pre post] in \<open>auto simp: ele_encoding_def ele_payload_def\<close>)

lemma lpInsert_store_block:
  assumes "length mid = length (ele_entry ele)"
  shows "lpInsert_store (pre @ mid @ post) ele (fst (ele_encoding ele)) (int (length pre)) (length (ele_payload ele))
      (if ele = EleNone then [] else lpEncodeBacklen (length (ele_payload ele))) = Some (pre @ ele_entry ele @ post)"
proof (cases "ele = EleNone")
  case True
  then show ?thesis using assms by (simp add: lpInsert_store_def ele_encoding_def ele_entry_def)
next
  case False
  then obtain t where t: "fst (ele_encoding ele) = Some t" using ele_encoding_None[of ele] by auto
  let ?e = "ele_payload ele"
  have e: "ele_entry ele = ?e @ lpEncodeBacklen (length ?e)" using False by (simp add: ele_entry_def entry_def)
  then obtain m1 m2 where m: "mid = m1 @ m2" "length m1 = length ?e" "length m2 = length (lpEncodeBacklen (length ?e))"
    using assms by (metis append_eq_conv_conj append_take_drop_id length_append length_take length_drop add_diff_cancel_left' le_add1 min.absorb2)
  have "at_write ((pre @ ?e) @ m2 @ post) (int (length (pre @ ?e))) (lpEncodeBacklen (length ?e)) =
      Some ((pre @ ?e) @ lpEncodeBacklen (length ?e) @ post)"
    using m(3) by (intro at_write_block) simp
  then show ?thesis
    using store_payload[OF t m(2), of pre "m2 @ post"] t False m(1) e by (simp add: lpInsert_store_def)
qed

lemma num_field:
  assumes "length hdr = 4" "num \<le> LP_HDR_NUMELE_UNKNOWN"
  shows "lpGetNumElements (hdr @ le_bytes 2 (word_of_int (int num) :: u64) @ rest) = Some num"
proof -
  have "at_read (hdr @ le_bytes 2 (word_of_int (int num) :: u64) @ rest) 4 2 = Some (le_bytes 2 (word_of_int (int num) :: u64))"
    using assms(1) by (simp add: at_read_iff)
  then show ?thesis
    using assms(2) by (simp add: lpGetNumElements_def unat_of_le_le_bytes unat_of_nat take_bit_eq_mod LP_HDR_NUMELE_UNKNOWN_def)
qed

lemma lpInsert_header_block:
  fixes w :: lp_where
  assumes "length hdr = 4" "num \<le> LP_HDR_NUMELE_UNKNOWN" "delete \<Longrightarrow> 0 < num"
  defines "num' \<equiv> (if (w \<noteq> LP_REPLACE \<or> delete) \<and> num \<noteq> LP_HDR_NUMELE_UNKNOWN
      then if delete then num - 1 else num + 1 else num)"
  shows "lpInsert_header (hdr @ le_bytes 2 (word_of_int (int num) :: u64) @ rest) w delete n =
    Some (le_bytes 4 (of_nat n :: u64) @ le_bytes 2 (word_of_int (int num') :: u64) @ rest)"
proof -
  let ?nb = "\<lambda>k. le_bytes 2 (word_of_int k :: u64)"
  have set_num: "lpSetNumElements (hdr @ ?nb (int num) @ rest) k = Some (hdr @ ?nb k @ rest)" for k
    using assms(1) by (intro layout_set_num) auto
  have set_total: "lpSetTotalBytes (hdr @ ?nb k @ rest) n = Some (le_bytes 4 (of_nat n :: u64) @ ?nb k @ rest)" for k
    using assms(1) by (intro layout_set_total)
  have "int num' = (if (w \<noteq> LP_REPLACE \<or> delete) \<and> num \<noteq> LP_HDR_NUMELE_UNKNOWN
      then if \<not> delete then int num + 1 else int num - 1 else int num)"
    using assms(3) by (auto simp: num'_def)
  then show ?thesis
    unfolding lpInsert_header_def num_field[OF assms(1,2)]
    by (auto simp only: set_num set_total bind.bind_lunit split: if_splits)
qed

text \<open>
  The sequence after the call: the payloads from \<open>i\<close> to \<open>j\<close> are replaced by the element, where \<open>j\<close>
  is \<open>i\<close> for an insertion and \<open>i + 1\<close> for a replacement or a deletion.
\<close>

definition lp_splice :: "bytes list \<Rightarrow> nat \<Rightarrow> nat \<Rightarrow> bytes list \<Rightarrow> bytes list" where
  "lp_splice es i j new = take i es @ new @ drop j es"

lemma lpInsert_core:
  assumes rep: "lp_rep lp es" and i: "i \<le> j" "j \<le> length es"
    and wh: "w = LP_BEFORE \<and> j = i \<and> ele \<noteq> EleNone \<or> w = LP_REPLACE \<and> j = Suc i"
    and ok: "ele \<noteq> EleNone \<Longrightarrow> length (ele_payload ele) < 2 ^ 32 \<Longrightarrow> payload_ok (ele_payload ele)"
  defines "es' \<equiv> lp_splice es i j (ele_list ele)"
  shows "if length (body es') + 7 < 2 ^ 32
    then \<exists>lp'. lpInsert A lp ele (lp_pos es i) w =
        Some (Some (lp', if i < length es' then Some (lp_pos es' i) else None)) \<and> lp_rep lp' es'
    else lpInsert A lp ele (lp_pos es i) w = Some None"
proof -
  obtain num slack where lp: "lp = lp_layout num es slack" and num: "num_ok num (length es)"
    and oks: "\<forall>e\<in>set es. payload_ok e" and len: "length (body es) + 7 < 2 ^ 32"
    and tot: "lpGetTotalBytes lp = Some (length (body es) + 7)"
    using rep by (rule lp_repE)
  define hdr where "hdr = le_bytes 4 (of_nat (length (body es) + 7) :: u64)"
  define nums where "nums = le_bytes 2 (word_of_int (int num) :: u64)"
  define pre where "pre = hdr @ nums @ body (take i es)"
  define old where "old = body (take (j - i) (drop i es))"
  define tail where "tail = body (drop j es) @ [LP_EOF]"
  define del where "del \<longleftrightarrow> ele = EleNone"
  let ?e = "ele_payload ele" and ?new = "ele_entry ele"
  have body_es: "body es = body (take i es) @ old @ body (drop j es)"
  proof -
    have "es = take i es @ take (j - i) (drop i es) @ drop j es"
      using i by (metis append_take_drop_id drop_drop le_add_diff_inverse2)
    then show ?thesis unfolding old_def by (metis body_simps(3))
  qed
  have body_es': "body es' = body (take i es) @ ?new @ body (drop j es)"
    by (simp add: es'_def lp_splice_def)
  have lp_split: "lp = pre @ old @ tail @ slack"
    unfolding lp lp_layout_def pre_def tail_def hdr_def nums_def body_es by simp
  have pos: "lp_pos es i = int (length pre)" by (simp add: lp_pos_def LP_HDR_SIZE_def pre_def hdr_def nums_def)
  have pos': "lp_pos es' i = int (length pre)"
    using i by (simp add: lp_pos_def LP_HDR_SIZE_def pre_def hdr_def nums_def es'_def lp_splice_def)
  have old_bytes: "length (body es) + 7 = length (pre @ old @ tail)"
    by (simp add: body_es pre_def tail_def hdr_def nums_def)
  have new_bytes: "length (body es') + 7 = length pre + length ?new + length tail"
    by (simp add: body_es' pre_def tail_def hdr_def nums_def)
  have old_len: "old = (if w = LP_REPLACE then entry (es ! i) else [])"
    using wh i by (auto simp: old_def take_Suc_conv_app_nth body_def simp flip: Cons_nth_drop_Suc)
  let ?rl = "length old"
  have replaced: "(if w = LP_REPLACE then do {
            n \<leftarrow> lpCurrentEncodedSizeUnsafe lp (lp_pos es i);
            let n = (n + lpEncodeBacklenBytes n) mod 2 ^ 32;
            ASSERT_INTEGRITY_LEN lp (lp_pos es i) n;
            Some n } else Some 0) = Some ?rl"
  proof (cases "w = LP_REPLACE")
    case True
    then have il: "i < length es" using wh i by auto
    have "length old < 2 ^ 32" using old_bytes len by simp
    then have "(length (es ! i) + lpEncodeBacklenBytes (length (es ! i))) mod 2 ^ 32 = ?rl"
      using True by (simp add: old_len length_entry)
    moreover have "ASSERT_INTEGRITY_LEN lp (lp_pos es i) ?rl = Some ()"
      using tot old_bytes lp_pos_ge[of es i] pos by (simp add: ASSERT_INTEGRITY_LEN_def LP_HDR_SIZE_def tail_def)
    ultimately show ?thesis using True lp_rep_size[OF rep il] by (simp add: Let_def)
  qed (simp add: old_len)
  define backlen where "backlen = (if del then [] else lpEncodeBacklen (length ?e))"
  have new_len: "length ?e + length backlen = length ?new"
    by (cases ele) (auto simp: backlen_def del_def ele_entry_def entry_def ele_payload_def)
  have total: "length (body es) + 7 + length ?e + length backlen - ?rl = length (body es') + 7"
    using new_len by (simp add: body_es body_es')
  have where': "(if del then LP_REPLACE else w) = w" "(w = LP_AFTER) = False" using wh by (auto simp: del_def)
  have run: "lpInsert A lp ele (lp_pos es i) w =
      (if length (body es') + 7 > 2 ^ 32 - 1 then Some None
       else do {
         lp \<leftarrow> lpInsert_relocate A lp (int (length pre)) w (length ?new) ?rl (length (body es) + 7) (length (body es') + 7);
         newp \<leftarrow>
           (if del then do { b \<leftarrow> arr_get lp (int (length pre)); Some (if b = LP_EOF then None else Some (int (length pre))) }
            else Some (Some (int (length pre))));
         lp \<leftarrow> lpInsert_store lp ele (fst (ele_encoding ele)) (int (length pre)) (length ?e) backlen;
         lp \<leftarrow> lpInsert_header lp w del (length (body es') + 7);
         Some (Some (lp, newp)) })"
  proof -
    have enc: "(case ele of EleStr s \<Rightarrow> (case lpEncodeGetType s of (t, n) \<Rightarrow> (Some t, n))
        | EleInt bs \<Rightarrow> (Some (LP_ENCODING_INT bs), length bs) | EleNone \<Rightarrow> (None, 0)) = (fst (ele_encoding ele), length ?e)"
      by (simp add: ele_encoding_len flip: ele_encoding_def) (simp flip: ele_encoding_len)
    show ?thesis
      unfolding lpInsert_def Let_def enc prod.case tot pos del_def[symmetric]
      by (simp only: where' if_False bind.bind_lunit prod.case replaced[unfolded pos Let_def] total new_len
        flip: backlen_def)
  qed
  show ?thesis
  proof (cases "length (body es') + 7 < 2 ^ 32")
    case False
    then show ?thesis using run by auto
  next
    case True
    obtain mid slack' where m: "lpInsert_relocate A lp (int (length pre)) w (length ?new) ?rl (length (body es) + 7)
        (length (body es') + 7) = Some (pre @ mid @ tail @ slack')" "length mid = length ?new"
      using lpInsert_relocate_block[of w old "length (body es) + 7" pre tail "length (body es') + 7" "length ?new" A slack]
        wh old_len old_bytes new_bytes lp_split by auto
    have newp: "(if del then do { b \<leftarrow> arr_get (pre @ mid @ tail @ slack') (int (length pre));
          Some (if b = LP_EOF then None else Some (int (length pre))) } else Some (Some (int (length pre)))) =
        Some (if i < length es' then Some (lp_pos es' i) else None)"
    proof (cases del)
      case True
      then have "mid = []" "i < length es' \<longleftrightarrow> j < length es" "lp_pos es' i = int (length pre)"
        using m(2) i pos' by (auto simp: del_def ele_entry_def es'_def lp_splice_def ele_list_def)
      moreover have "arr_get (pre @ tail @ slack') (int (length pre)) = Some (hd tail)"
        by (simp add: arr_get_def tail_def nth_append hd_conv_nth)
      moreover have "hd tail = LP_EOF \<longleftrightarrow> \<not> j < length es"
      proof (cases "j < length es")
        case True
        then have "tail = entry (es ! j) @ body (drop (Suc j) es) @ [LP_EOF]" by (simp add: tail_def body_drop)
        then show ?thesis using True oks by (auto simp: entry_def payload_ok_def)
      qed (simp add: tail_def)
      ultimately show ?thesis using True by simp
    qed (use i pos' in \<open>auto simp: del_def es'_def lp_splice_def ele_list_def\<close>)
    have st: "lpInsert_store (pre @ mid @ tail @ slack') ele (fst (ele_encoding ele)) (int (length pre)) (length ?e) backlen =
        Some (pre @ ?new @ tail @ slack')"
      using lpInsert_store_block[OF m(2), of pre "tail @ slack'"] by (simp add: backlen_def del_def)
    define num' where "num' = (if (w \<noteq> LP_REPLACE \<or> del) \<and> num \<noteq> LP_HDR_NUMELE_UNKNOWN
      then if del then num - 1 else num + 1 else num)"
    have "del \<Longrightarrow> 0 < num" using num wh i by (auto simp: num_ok_def del_def LP_HDR_NUMELE_UNKNOWN_def)
    then have hd: "lpInsert_header (pre @ ?new @ tail @ slack') w del (length (body es') + 7) = Some (lp_layout num' es' slack')"
      using lpInsert_header_block[of hdr num del "body (take i es) @ ?new @ tail @ slack'" w "length (body es') + 7"]
        num_ok_le[OF num]
      by (simp add: pre_def nums_def hdr_def num'_def lp_layout_def body_es' tail_def)
    have "num_ok num' (length es')"
      using num wh i by (auto simp: num_ok_def num'_def es'_def lp_splice_def ele_list_def del_def)
    moreover have "length ?e < 2 ^ 32" using True new_len by (simp add: body_es')
    then have "\<forall>e\<in>set es'. payload_ok e"
      using oks ok by (auto simp: es'_def lp_splice_def ele_list_def dest: in_set_takeD in_set_dropD)
    ultimately have "lp_rep (lp_layout num' es' slack') es'" using True unfolding lp_rep_def by blast
    moreover have "lpInsert A lp ele (lp_pos es i) w =
        Some (Some (lp_layout num' es' slack', if i < length es' then Some (lp_pos es' i) else None))"
      using run True m(1) newp st hd by simp
    ultimately show ?thesis using True by auto
  qed
qed

lemma lp_encode_ok: "length (lp_encode s) < 2 ^ 32 \<Longrightarrow> payload_ok (lp_encode s) \<and> payload_str (lp_encode s) = s"
proof -
  assume a: "length (lp_encode s) < 2 ^ 32"
  have "length s + 5 < 2 ^ 32"
  proof (cases "lpStringToInt64 s")
    case None
    then have "length (lp_string_enc s) < 2 ^ 32" using a by (simp add: lp_encode_def)
    then show ?thesis by (simp add: length_lp_string_enc split: if_splits)
  next
    case (Some v)
    then have "length s < LONG_STR_SIZE" by (auto simp: lpStringToInt64_def split: if_splits)
    then show ?thesis by (simp add: LONG_STR_SIZE_def)
  qed
  then show ?thesis using lp_encode_str by blast
qed

lemma ASSERT_INTEGRITY_rep: "lp_rep lp es \<Longrightarrow> i \<le> length es \<Longrightarrow> ASSERT_INTEGRITY lp (lp_pos es i) = Some ()"
  using lp_pos_ge[of es i] lp_pos_le[of i es]
  by (auto elim!: lp_repE simp: ASSERT_INTEGRITY_def LP_HDR_SIZE_def)

lemma lpInsert_after:
  assumes "lp_rep lp es" "i < length es" "ele \<noteq> EleNone"
  shows "lpInsert A lp ele (lp_pos es i) LP_AFTER = lpInsert A lp ele (lp_pos es (Suc i)) LP_BEFORE"
  using assms lpSkip_rep[OF assms(1,2)] ASSERT_INTEGRITY_rep[OF assms(1), of "Suc i"]
  by (simp add: lpInsert_def Let_def)

text \<open>The range of entries that an insertion at the \<open>i\<close>-th entry replaces.\<close>

definition where_range :: "lp_where \<Rightarrow> nat \<Rightarrow> nat \<times> nat" where
  "where_range w i = (case w of LP_BEFORE \<Rightarrow> (i, i) | LP_AFTER \<Rightarrow> (Suc i, Suc i) | LP_REPLACE \<Rightarrow> (i, Suc i))"

lemma lpInsert_rep:
  assumes "lp_rep lp es" "i < length es \<or> i = length es \<and> w = LP_BEFORE" "ele \<noteq> EleNone"
    and "length (ele_payload ele) < 2 ^ 32 \<Longrightarrow> payload_ok (ele_payload ele)"
    and "where_range w i = (k, j)"
  defines "es' \<equiv> take k es @ ele_payload ele # drop j es"
  shows "if length (body es') + 7 < 2 ^ 32
    then \<exists>lp'. lpInsert A lp ele (lp_pos es i) w = Some (Some (lp', Some (lp_pos es' k))) \<and> lp_rep lp' es'
    else lpInsert A lp ele (lp_pos es i) w = Some None"
proof -
  have es': "lp_splice es k j (ele_list ele) = es'" using assms(3) by (simp add: es'_def lp_splice_def ele_list_def)
  have kl: "k < length es'" "k \<le> j" "j \<le> length es"
    using assms(2,5) by (auto simp: es'_def where_range_def split: lp_where.splits)
  define w' where "w' = (if w = LP_AFTER then LP_BEFORE else w)"
  have run: "lpInsert A lp ele (lp_pos es i) w = lpInsert A lp ele (lp_pos es k) w'"
    using lpInsert_after[OF assms(1) _ assms(3)] assms(2,5)
    by (auto simp: w'_def where_range_def split: lp_where.splits if_splits)
  have "w' = LP_BEFORE \<and> j = k \<and> ele \<noteq> EleNone \<or> w' = LP_REPLACE \<and> j = Suc k"
    using assms(3,5) by (auto simp: w'_def where_range_def split: lp_where.splits if_splits)
  then show ?thesis
    using lpInsert_core[OF assms(1) kl(2,3) _ assms(4), of w' A] kl(1) unfolding es' run by (simp cong: if_cong)
qed

lemma lpInsertString_rep:
  fixes s :: bytes
  assumes "lp_rep lp es" "i < length es \<or> i = length es \<and> w = LP_BEFORE" "where_range w i = (k, j)"
  defines "es' \<equiv> take k es @ lp_encode s # drop j es"
  shows "if length (body es') + 7 < 2 ^ 32
    then \<exists>lp'. lpInsertString A lp s (lp_pos es i) w = Some (Some (lp', Some (lp_pos es' k))) \<and> lp_rep lp' es'
    else lpInsertString A lp s (lp_pos es i) w = Some None"
  unfolding lpInsertString_def es'_def
  by (rule lpInsert_rep[where ele = "EleStr s", unfolded ele_payload_simps, OF assms(1,2) _ _ assms(3)])
     (use lp_encode_ok[of s] in auto)

lemma lpInsertInteger_rep:
  assumes "lp_rep lp es" "i < length es \<or> i = length es \<and> w = LP_BEFORE" "where_range w i = (k, j)"
    and "LLONG_MIN \<le> v" "v \<le> LLONG_MAX"
  defines "es' \<equiv> take k es @ lpEncodeIntegerGetType v # drop j es"
  shows "if length (body es') + 7 < 2 ^ 32
    then \<exists>lp'. lpInsertInteger A lp v (lp_pos es i) w = Some (Some (lp', Some (lp_pos es' k))) \<and> lp_rep lp' es'
    else lpInsertInteger A lp v (lp_pos es i) w = Some None"
  unfolding lpInsertInteger_def es'_def
  by (rule lpInsert_rep[where ele = "EleInt (lpEncodeIntegerGetType v)", unfolded ele_payload_simps, OF assms(1,2) _ _ assms(3)])
     (use lp_encode_int(2)[OF assms(4,5)] in auto)

lemma lpDelete_rep:
  assumes "lp_rep lp es" "i < length es"
  defines "es' \<equiv> take i es @ drop (Suc i) es"
  shows "\<exists>lp'. lpDelete A lp (lp_pos es i) = Some (Some (lp', if i < length es' then Some (lp_pos es' i) else None)) \<and> lp_rep lp' es'"
proof -
  have es': "lp_splice es i (Suc i) (ele_list EleNone) = es'" by (simp add: es'_def lp_splice_def ele_list_def)
  have "length (body es') \<le> length (body es)"
    using body_split[of i es] body_drop[of i es] assms(2) by (simp add: es'_def)
  then have "length (body es') + 7 < 2 ^ 32" using assms(1) by (auto elim!: lp_repE)
  then show ?thesis
    using lpInsert_core[OF assms(1), of i "Suc i" LP_REPLACE EleNone A] assms(2) unfolding es' lpDelete_def by simp
qed

lemma lpAppend_rep:
  fixes s :: bytes
  assumes "lp_rep lp es"
  defines "es' \<equiv> es @ [lp_encode s]"
  shows "if length (body es') + 7 < 2 ^ 32 then \<exists>lp'. lpAppend A lp s = Some (Some lp') \<and> lp_rep lp' es'
    else lpAppend A lp s = Some None"
proof -
  have "lpGetTotalBytes lp = Some (length (body es) + 7)" using assms(1) by (rule lp_repE)
  moreover have "int (length (body es) + 7) - 1 = lp_pos es (length es)" by (simp add: lp_pos_len)
  ultimately have "lpAppend A lp s = do { r \<leftarrow> lpInsertString A lp s (lp_pos es (length es)) LP_BEFORE; Some (map_option fst r) }"
    by (simp add: lpAppend_def lpInsertString_def Let_def del: of_nat_add)
  then show ?thesis
    using lpInsertString_rep[OF assms(1), of "length es" LP_BEFORE "length es" "length es" s A]
    unfolding es'_def by (auto simp: where_range_def split: if_splits)
qed

lemma lpPrepend_rep:
  fixes s :: bytes
  assumes "lp_rep lp es"
  defines "es' \<equiv> lp_encode s # es"
  shows "if length (body es') + 7 < 2 ^ 32 then \<exists>lp'. lpPrepend A lp s = Some (Some lp') \<and> lp_rep lp' es'
    else lpPrepend A lp s = Some None"
proof (cases "es = []")
  case True
  then show ?thesis
    using lpFirst_rep[OF assms(1)] lpAppend_rep[OF assms(1), of s A] unfolding True es'_def
    by (simp add: lpPrepend_def cong: if_cong)
next
  case False
  have "lpPrepend A lp s = do { r \<leftarrow> lpInsertString A lp s (lp_pos es 0) LP_BEFORE; Some (map_option fst r) }"
    using False lpFirst_rep[OF assms(1)] by (simp add: lpPrepend_def lpInsertString_def)
  then show ?thesis
    using lpInsertString_rep[OF assms(1), of 0 LP_BEFORE 0 0 s A] False
    unfolding es'_def by (auto simp: where_range_def split: if_splits)
qed

subsection \<open>Deletion of ranges\<close>

lemma delete_range_loop_rep:
  assumes "lp_rep lp es" "i < length es" "0 < num"
  shows "delete_range_loop num lp (length (body es) + 7) (lp_pos es i) d =
    Some (lp_pos es (min (i + num) (length es)), d + min num (length es - i))"
  using assms(2,3)
proof (induction num arbitrary: i d)
  case (Suc num)
  let ?q = "lp_pos es (Suc i)"
  note skip = lpSkip_rep[OF assms(1) Suc.prems(1)]
  show ?case
  proof (cases "Suc i < length es")
    case True
    note f = lp_rep_first[OF assms(1) True] lpAssertValidEntry_rep[OF assms(1), of "Suc i"]
    show ?thesis
    proof (cases num)
      case 0
      then show ?thesis using True skip f Suc.prems by (simp add: min_def)
    next
      case (Suc n)
      then show ?thesis using Suc.IH[OF True, of "d + 1"] True skip f by (auto simp: min_def)
    qed
  next
    case False
    then have "Suc i = length es" using Suc.prems by simp
    moreover from this have "min (i + Suc num) (length es) = length es" "min (Suc num) (length es - i) = 1" by auto
    ultimately show ?thesis using skip lp_rep_eof[OF assms(1)] by simp
  qed
qed simp

lemma layout_realloc:
  "length (body es) + 7 \<le> n \<Longrightarrow> \<exists>slack'. lp_realloc A (lp_layout num es slack) n = lp_layout num es slack'"
  using lp_realloc_prefix[of "lp_layout num es []" n A slack] by (auto simp: lp_layout_def)

lemma lpShrinkToFit_rep:
  assumes "lp_rep lp es"
  shows "\<exists>lp'. lpShrinkToFit A lp = Some lp' \<and> lp_rep lp' es"
proof -
  obtain num slack where r: "lp = lp_layout num es slack" "num_ok num (length es)" "\<forall>e\<in>set es. payload_ok e"
    "length (body es) + 7 < 2 ^ 32" "lpGetTotalBytes lp = Some (length (body es) + 7)"
    using assms by (rule lp_repE)
  obtain slack' where "lp_realloc A lp (length (body es) + 7) = lp_layout num es slack'"
    using layout_realloc[of es "length (body es) + 7" A num slack] r(1) by auto
  moreover have "lp_rep (lp_layout num es slack') es" using r unfolding lp_rep_def by blast
  ultimately show ?thesis using r(5) assms by (simp add: lpShrinkToFit_def)
qed

text \<open>Moving a tail down over a range of entries, with the header updates that follow it.\<close>

lemma layout_delete:
  assumes "lp = lp_layout num es slack" "num_ok num (length es)" "\<forall>e\<in>set es. payload_ok e" "length (body es) + 7 < 2 ^ 32"
    and "i \<le> j" "j \<le> length es"
  defines "es' \<equiv> take i es @ drop j es"
  shows "\<exists>lp1 lp2 lp3. at_move lp (lp_pos es i) (lp_pos es j) (int (length (body es) + 7) - lp_pos es j) = Some lp1 \<and>
    lpSetTotalBytes lp1 (nat (int (length (body es) + 7) - (lp_pos es j - lp_pos es i))) = Some lp2 \<and>
    lpGetNumElements lp2 = Some num \<and>
    (if num \<noteq> LP_HDR_NUMELE_UNKNOWN then lpSetNumElements lp2 (int num - int (j - i)) else Some lp2) = Some lp3 \<and>
    lp_rep lp3 es' \<and> arr_get lp1 (6 + int (length (body es'))) = Some LP_EOF"
proof -
  define hdr where "hdr = le_bytes 4 (of_nat (length (body es) + 7) :: u64)"
  define pre where "pre = hdr @ le_bytes 2 (word_of_int (int num) :: u64) @ body (take i es)"
  define old where "old = body (take (j - i) (drop i es))"
  define tail where "tail = body (drop j es) @ [LP_EOF]"
  have body_es: "body es = body (take i es) @ old @ body (drop j es)"
  proof -
    have "es = take i es @ take (j - i) (drop i es) @ drop j es"
      using assms(5) by (metis append_take_drop_id drop_drop le_add_diff_inverse2)
    then show ?thesis unfolding old_def by (metis body_simps(3))
  qed
  have lp: "lp = pre @ old @ tail @ slack"
    unfolding assms(1) lp_layout_def pre_def tail_def hdr_def body_es by simp
  have pos: "lp_pos es i = int (length pre)" by (simp add: lp_pos_def LP_HDR_SIZE_def pre_def hdr_def)
  have len: "length (body es) + 7 = length (pre @ old @ tail)" by (simp add: body_es pre_def tail_def hdr_def)
  have posj: "lp_pos es j = int (length pre) + int (length old)"
    using lp_pos_le[OF assms(6)] body_split[OF assms(6)] pos by (simp add: lp_pos_def LP_HDR_SIZE_def body_es)
  have cnt: "int (length (body es) + 7) - lp_pos es j = int (length tail)" using len posj by simp
  have newlen: "nat (int (length (body es) + 7) - (lp_pos es j - lp_pos es i)) = length (body es') + 7"
    using len pos posj by (simp add: es'_def body_es)
  obtain mid slack' where mv: "at_move lp (int (length pre)) (lp_pos es j) (int (length tail)) = Some (pre @ mid @ tail @ slack')" "mid = []"
    using at_move_block[of pre 0 tail old slack] unfolding lp posj by auto
  define lp1 where "lp1 = hdr @ le_bytes 2 (word_of_int (int num) :: u64) @ body (take i es) @ tail @ slack'"
  have m1: "at_move lp (lp_pos es i) (lp_pos es j) (int (length tail)) = Some lp1"
    using mv pos by (simp add: lp1_def pre_def)
  have m2: "lpSetTotalBytes lp1 (length (body es') + 7) = Some (lp_layout num es' slack')"
    using layout_set_total[of hdr] by (simp add: lp1_def lp_layout_def tail_def es'_def hdr_def)
  have m3: "lpGetNumElements (lp_layout num es' slack') = Some num" using layout_num num_ok_le[OF assms(2)] by blast
  define num' where "num' = (if num \<noteq> LP_HDR_NUMELE_UNKNOWN then num - (j - i) else num)"
  have num_len: "num \<noteq> LP_HDR_NUMELE_UNKNOWN \<Longrightarrow> num = length es" using assms(2) by (auto simp: num_ok_def)
  have num'_int: "num \<noteq> LP_HDR_NUMELE_UNKNOWN \<Longrightarrow> int num - int (j - i) = int num'"
    using num_len assms(5,6) by (simp add: num'_def of_nat_diff)
  have m4: "(if num \<noteq> LP_HDR_NUMELE_UNKNOWN then lpSetNumElements (lp_layout num es' slack') (int num - int (j - i))
      else Some (lp_layout num es' slack')) = Some (lp_layout num' es' slack')"
  proof (cases "num = LP_HDR_NUMELE_UNKNOWN")
    case False
    then show ?thesis unfolding num'_int[OF False] by (simp add: lp_layout_def layout_set_num)
  qed (simp add: num'_def)
  have "num_ok num' (length es')"
    using assms(2,5,6) by (auto simp: num_ok_def num'_def es'_def)
  moreover have "length (body es') + 7 < 2 ^ 32" using assms(4) by (simp add: body_es es'_def)
  ultimately have rep: "lp_rep (lp_layout num' es' slack') es'"
    using assms(3) unfolding lp_rep_def es'_def by (auto dest: in_set_takeD in_set_dropD)
  have eof: "arr_get lp1 (6 + int (length (body es'))) = Some LP_EOF"
    by (simp add: arr_get_def lp1_def hdr_def tail_def es'_def nth_append nat_add_distrib)
  show ?thesis unfolding cnt newlen using m1 m2 m3 m4 rep eof by blast
qed

lemma lp_rep_at_pos:
  assumes "lp_rep lp es" "i \<le> length es"
  shows "\<exists>b. arr_get lp (lp_pos es i) = Some b \<and> (b = LP_EOF \<longleftrightarrow> i = length es)"
  using assms lp_rep_first[of lp es i] lp_rep_eof[of lp es] by (cases "i = length es") auto

lemma lpDeleteRangeWithEntry_rep:
  fixes num :: nat
  assumes "lp_rep lp es" "i < length es"
  defines "es' \<equiv> take i es @ drop (i + num) es"
  shows "\<exists>lp'. lpDeleteRangeWithEntry A lp (lp_pos es i) num =
    Some (lp', if i < length es' then Some (lp_pos es' i) else None) \<and> lp_rep lp' es'"
proof (cases "num = 0")
  case True
  then show ?thesis using assms by (simp add: lpDeleteRangeWithEntry_def lp_rep_bytes)
next
  case False
  obtain n slack where r: "lp = lp_layout n es slack" "num_ok n (length es)" "\<forall>e\<in>set es. payload_ok e"
    "length (body es) + 7 < 2 ^ 32"
    using assms(1) by (rule lp_repE)
  define j where "j = min (i + num) (length es)"
  have j: "i \<le> j" "j \<le> length es" "min num (length es - i) = j - i" using assms(2) by (auto simp: j_def)
  have es': "take i es @ drop j es = es'" by (simp add: es'_def j_def min_def)
  obtain lp1 lp2 lp3 where d:
    "at_move lp (lp_pos es i) (lp_pos es j) (int (length (body es) + 7) - lp_pos es j) = Some lp1"
    "lpSetTotalBytes lp1 (nat (int (length (body es) + 7) - (lp_pos es j - lp_pos es i))) = Some lp2"
    "lpGetNumElements lp2 = Some n"
    "(if n \<noteq> LP_HDR_NUMELE_UNKNOWN then lpSetNumElements lp2 (int n - int (j - i)) else Some lp2) = Some lp3"
    "lp_rep lp3 es'"
    using layout_delete[OF r j(1,2)] unfolding es' by blast
  obtain lp4 where s: "lpShrinkToFit A lp3 = Some lp4" "lp_rep lp4 es'" using lpShrinkToFit_rep[OF d(5)] by blast
  have il: "i \<le> length es'" using assms(2) by (simp add: es'_def)
  have pos: "lp_pos es' i = lp_pos es i" using assms(2) by (simp add: lp_pos_def es'_def)
  obtain b where b: "arr_get lp4 (lp_pos es i) = Some b" "b = LP_EOF \<longleftrightarrow> i = length es'"
    using lp_rep_at_pos[OF s(2) il] pos by auto
  have loop: "delete_range_loop num lp (length (body es) + 7) (lp_pos es i) 0 = Some (lp_pos es j, j - i)"
    using delete_range_loop_rep[OF assms(1,2), of num 0] False j(3) by (simp add: j_def)
  have cnt: "int (length (body es) + 7) - 1 - lp_pos es j + 1 = int (length (body es) + 7) - lp_pos es j" by simp
  have "lpDeleteRangeWithEntry A lp (lp_pos es i) num = Some (lp4, if b = LP_EOF then None else Some (lp_pos es i))"
    using False unfolding lpDeleteRangeWithEntry_def lp_rep_bytes[OF assms(1)] Let_def
    by (simp only: bind.bind_lunit if_False loop prod.case cnt d(1-4) s(1) b(1))
  then show ?thesis using s(2) b(2) il pos by auto
qed

lemma lpDeleteRange_rep:
  assumes "lp_rep lp es"
  shows "\<exists>lp'. lpDeleteRange A lp index num = Some lp' \<and>
    lp_rep lp' (case seek_index (length es) index of None \<Rightarrow> es | Some i \<Rightarrow> take i es @ drop (i + num) es)"
proof -
  obtain n slack where r: "lp = lp_layout n es slack" "num_ok n (length es)" "\<forall>e\<in>set es. payload_ok e"
    "length (body es) + 7 < 2 ^ 32" "lpGetNumElements lp = Some n"
    using assms by (rule lp_repE)
  show ?thesis
  proof (cases "num = 0 \<or> seek_index (length es) index = None")
    case True
    then show ?thesis
      using assms r(5) lpSeek_rep[OF assms, of index] by (auto simp: lpDeleteRange_def split: option.splits)
  next
    case False
    then obtain i where i: "seek_index (length es) index = Some i" "num \<noteq> 0" by auto
    have il: "i < length es" using i(1) by (auto simp: seek_index_def Let_def split: if_splits)
    have idx: "n \<noteq> LP_HDR_NUMELE_UNKNOWN \<Longrightarrow> (if n \<noteq> LP_HDR_NUMELE_UNKNOWN \<and> index < 0 then int n + index else index) = int i"
      using i(1) r(2) by (auto simp: seek_index_def Let_def num_ok_def split: if_splits)
    show ?thesis
    proof (cases "n \<noteq> LP_HDR_NUMELE_UNKNOWN \<and> int n - int i \<le> int num")
      case fast: True
      then have n: "n = length es" "n < LP_HDR_NUMELE_UNKNOWN" using r(2) by (auto simp: num_ok_def)
      define hdr where "hdr = le_bytes 4 (of_nat (length (body es) + 7) :: u64)"
      define nums where "nums = le_bytes 2 (word_of_int (int n) :: u64)"
      define pre where "pre = hdr @ nums @ body (take i es)"
      have "body es = body (take i es) @ entry (es ! i) @ body (drop (Suc i) es)"
        using il by (metis append_take_drop_id body_drop body_simps(3))
      moreover obtain c cs where "entry (es ! i) = c # cs" using length_entry_pos[of "es ! i"] by (cases "entry (es ! i)") auto
      ultimately obtain rest where lp: "lp = pre @ [c] @ rest"
        using r(1) by (simp add: lp_layout_def pre_def hdr_def nums_def)
      have pos: "lp_pos es i = int (length pre)" by (simp add: lp_pos_def LP_HDR_SIZE_def pre_def hdr_def nums_def)
      have w1: "at_write lp (lp_pos es i) [LP_EOF] = Some (pre @ [LP_EOF] @ rest)"
        unfolding lp pos by (intro at_write_block) simp
      let ?es' = "take i es"
      have tb: "nat (lp_pos es i + 1) = length (body ?es') + 7" by (simp add: lp_pos_def LP_HDR_SIZE_def)
      have w2: "lpSetTotalBytes (pre @ [LP_EOF] @ rest) (length (body ?es') + 7) =
          Some (le_bytes 4 (of_nat (length (body ?es') + 7) :: u64) @ nums @ body ?es' @ LP_EOF # rest)"
        using layout_set_total[of hdr nums "body ?es' @ LP_EOF # rest"] by (simp add: pre_def hdr_def)
      have w3: "lpSetNumElements (le_bytes 4 (of_nat (length (body ?es') + 7) :: u64) @ nums @ body ?es' @ LP_EOF # rest) (int i) =
          Some (lp_layout i ?es' rest)"
        by (subst layout_set_num) (auto simp: lp_layout_def nums_def)
      have "lp_rep (lp_layout i ?es' rest) ?es'"
        using r(3,4) il n body_split[of i es] unfolding lp_rep_def num_ok_def by (auto dest: in_set_takeD)
      then obtain lp4 where s: "lpShrinkToFit A (lp_layout i ?es' rest) = Some lp4" "lp_rep lp4 ?es'"
        using lpShrinkToFit_rep by blast
      have chain: "do { lp \<leftarrow> at_write lp (lp_pos es i) [LP_EOF]; lp \<leftarrow> lpSetTotalBytes lp (nat (lp_pos es i + 1));
          lp \<leftarrow> lpSetNumElements lp (int i); lpShrinkToFit A lp } = Some lp4"
        by (simp only: w1 tb w2 w3 s(1) bind.bind_lunit)
      have "lpDeleteRange A lp index num = Some lp4"
        using r(5) i lpSeek_rep[OF assms, of index] fast idx chain by (simp add: lpDeleteRange_def Let_def)
      moreover have "drop (i + num) es = []" using fast n by simp
      ultimately show ?thesis using s(2) i(1) by simp
    next
      case slow: False
      obtain lp' p' where d: "lpDeleteRangeWithEntry A lp (lp_pos es i) num = Some (lp', p')" "lp_rep lp' (take i es @ drop (i + num) es)"
        using lpDeleteRangeWithEntry_rep[OF assms il] by blast
      have "lpDeleteRange A lp index num = Some lp'"
        using r(5) i lpSeek_rep[OF assms, of index] slow idx d(1)
        by (cases "n = LP_HDR_NUMELE_UNKNOWN") (auto simp: lpDeleteRange_def Let_def split: if_splits)
      then show ?thesis using d(2) i(1) by simp
    qed
  qed
qed

subsection \<open>Creation and merging\<close>

lemma lpNew_rep: "\<exists>lp. lpNew A capacity = Some lp \<and> lp_rep lp []"
proof -
  define n where "n = usable A (if int capacity > LP_HDR_SIZE + 1 then capacity else nat (LP_HDR_SIZE + 1))"
  have "7 \<le> n" by (auto simp: n_def usable_def LP_HDR_SIZE_def)
  define m where "m = map (junk A) [0..<n]"
  have alloc: "lp_malloc A (if int capacity > LP_HDR_SIZE + 1 then capacity else nat (LP_HDR_SIZE + 1)) = m"
    by (simp only: lp_malloc_def n_def m_def)
  have lm: "7 \<le> length m" using \<open>7 \<le> n\<close> by (simp add: m_def)
  define hdr nums where "hdr = take 4 m" and "nums = take 2 (drop 4 m)"
  obtain c slack where "drop 6 m = c # slack" using lm by (cases "drop 6 m") auto
  then have m: "m = hdr @ nums @ [c] @ slack" "length hdr = 4" "length nums = 2"
    using append_take_drop_id[of 4 m] append_take_drop_id[of 2 "drop 4 m"] lm by (simp_all add: hdr_def nums_def)
  have "lpSetTotalBytes m 7 = Some (le_bytes 4 (of_nat 7 :: u64) @ nums @ [c] @ slack)" unfolding m(1) using m(2) by (rule layout_set_total)
  moreover have "lpSetNumElements (le_bytes 4 (of_nat 7 :: u64) @ nums @ [c] @ slack) 0 =
      Some (le_bytes 4 (of_nat 7 :: u64) @ le_bytes 2 (word_of_int 0 :: u64) @ [c] @ slack)"
    using m(3) by (intro layout_set_num) simp
  moreover have "at_write ((le_bytes 4 (of_nat 7 :: u64) @ le_bytes 2 (word_of_int 0 :: u64)) @ [c] @ slack) 6 [LP_EOF] =
      Some ((le_bytes 4 (of_nat 7 :: u64) @ le_bytes 2 (word_of_int 0 :: u64)) @ [LP_EOF] @ slack)"
    using at_write_block[of "[LP_EOF]" "[c]" "le_bytes 4 (of_nat 7 :: u64) @ le_bytes 2 (word_of_int 0 :: u64)" slack] by simp
  ultimately have "lpNew A capacity = Some (lp_layout 0 [] slack)"
    unfolding lpNew_def Let_def alloc by (simp add: LP_HDR_SIZE_def lp_layout_def)
  moreover have "lp_rep (lp_layout 0 [] slack) []" by (auto simp: lp_rep_def num_ok_def LP_HDR_NUMELE_UNKNOWN_def)
  ultimately show ?thesis by blast
qed

lemma lp_rep_layout:
  "num_ok num (length es) \<Longrightarrow> \<forall>e\<in>set es. payload_ok e \<Longrightarrow> length (body es) + 7 < 2 ^ 32 \<Longrightarrow> lp_rep (lp_layout num es slack) es"
  unfolding lp_rep_def by blast

lemma lpMerge_rep:
  assumes "lp_rep lp1 es1" "lp_rep lp2 es2" "length (body (es1 @ es2)) + 7 < 2 ^ 32 - 1"
  shows "\<exists>lp' app. lpMerge A False (Some lp1) (Some lp2) = Some (Some (lp', app)) \<and> lp_rep lp' (es1 @ es2)"
proof -
  let ?n1 = "length (body es1) + 7" and ?n2 = "length (body es2) + 7" and ?n = "length (body (es1 @ es2)) + 7"
  have tot: "lpBytes lp1 = Some ?n1" "lpBytes lp2 = Some ?n2" using assms lp_rep_bytes by auto
  obtain lp1' where l1: "lpLength lp1 = Some (lp1', length es1)" "lp_rep lp1' es1" using lpLength_rep[OF assms(1)] by blast
  obtain lp2' where l2: "lpLength lp2 = Some (lp2', length es2)" "lp_rep lp2' es2" using lpLength_rep[OF assms(2)] by blast
  obtain num1 slack1 where r1: "lp1' = lp_layout num1 es1 slack1" "\<forall>e\<in>set es1. payload_ok e"
    using l1(2) by (rule lp_repE)
  obtain num2 slack2 where r2: "lp2' = lp_layout num2 es2 slack2" "\<forall>e\<in>set es2. payload_ok e"
    using l2(2) by (rule lp_repE)
  define num where "num = (if length es1 + length es2 < 65535 then length es1 + length es2 else 65535)"
  have num: "num_ok num (length (es1 @ es2))" by (auto simp: num_ok_def num_def LP_HDR_NUMELE_UNKNOWN_def)
  let ?hdr = "\<lambda>num es. le_bytes 4 (of_nat (length (body es) + 7) :: u64) @ le_bytes 2 (word_of_int (int num) :: u64)"
  have fin: "do { t \<leftarrow> lpSetNumElements (h4 @ h2 @ body (es1 @ es2) @ LP_EOF # slack) (int num);
        t \<leftarrow> lpSetTotalBytes t ?n; Some (Some (t, app)) } = Some (Some (lp_layout num (es1 @ es2) slack, app))"
    if "length h4 = 4" "length h2 = 2" for h4 h2 slack and app :: bool
    using that by (simp add: layout_set_num layout_set_total lp_layout_def)
  have "\<exists>h4 h2 slack. (if ?n1 \<ge> ?n2 then do {
            bs \<leftarrow> at_read lp2' LP_HDR_SIZE (nat (int ?n2 - LP_HDR_SIZE));
            at_write (lp_realloc A lp1' ?n) (int ?n1 - 1) bs }
          else do {
            t \<leftarrow> at_move (lp_realloc A lp2' ?n) (int ?n1 - 1) LP_HDR_SIZE (int ?n2 - LP_HDR_SIZE);
            bs \<leftarrow> at_read lp1' 0 (nat (int ?n1 - 1));
            at_write t 0 bs }) = Some (h4 @ h2 @ body (es1 @ es2) @ LP_EOF # slack) \<and> length h4 = 4 \<and> length h2 = 2"
  proof (cases "?n1 \<ge> ?n2")
    case True
    obtain slack' where re: "lp_realloc A lp1' ?n = (?hdr num1 es1 @ body es1 @ [LP_EOF]) @ slack'" "?n \<le> ?n1 + length slack'"
      using lp_realloc_prefix[of "?hdr num1 es1 @ body es1 @ [LP_EOF]" ?n A slack1] by (auto simp: r1(1) lp_layout_def)
    have rd: "at_read lp2' LP_HDR_SIZE (nat (int ?n2 - LP_HDR_SIZE)) = Some (body es2 @ [LP_EOF])"
      by (simp add: at_read_iff LP_HDR_SIZE_def r2(1) lp_layout_def nat_diff_distrib nat_add_distrib)
    let ?t = "[LP_EOF] @ slack'" and ?k = "length (body es2) + 1"
    have k: "?k \<le> length ?t" using re(2) by simp
    have "at_write ((?hdr num1 es1 @ body es1) @ take ?k ?t @ drop ?k ?t) (int (length (?hdr num1 es1 @ body es1))) (body es2 @ [LP_EOF]) =
        Some ((?hdr num1 es1 @ body es1) @ (body es2 @ [LP_EOF]) @ drop ?k ?t)"
      using k by (intro at_write_block) simp
    moreover have "int ?n1 - 1 = int (length (?hdr num1 es1 @ body es1))" by simp
    moreover have "lp_realloc A lp1' ?n = (?hdr num1 es1 @ body es1) @ take ?k ?t @ drop ?k ?t"
      unfolding re(1) append_take_drop_id by simp
    ultimately have "at_write (lp_realloc A lp1' ?n) (int ?n1 - 1) (body es2 @ [LP_EOF]) =
        Some (le_bytes 4 (of_nat ?n1 :: u64) @ le_bytes 2 (word_of_int (int num1) :: u64) @ body (es1 @ es2) @ LP_EOF # drop ?k ?t)"
      by simp
    then show ?thesis using True rd length_le_bytes by (simp only: if_True bind.bind_lunit) blast
  next
    case False
    obtain slack' where re: "lp_realloc A lp2' ?n = (?hdr num2 es2 @ body es2 @ [LP_EOF]) @ slack'" "?n \<le> ?n2 + length slack'"
      using lp_realloc_prefix[of "?hdr num2 es2 @ body es2 @ [LP_EOF]" ?n A slack2] by (auto simp: r2(1) lp_layout_def)
    obtain mid slack'' where mv: "at_move (lp_realloc A lp2' ?n) (int ?n1 - 1) LP_HDR_SIZE (int ?n2 - LP_HDR_SIZE) =
        Some (?hdr num2 es2 @ mid @ (body es2 @ [LP_EOF]) @ slack'')" "length mid = length (body es1)"
      using at_move_block[of "?hdr num2 es2" "length (body es1)" "body es2 @ [LP_EOF]" "[]" slack'] re
      by (auto simp: LP_HDR_SIZE_def)
    have rd: "at_read lp1' 0 (nat (int ?n1 - 1)) = Some (?hdr num1 es1 @ body es1)"
      by (simp add: at_read_iff r1(1) lp_layout_def nat_diff_distrib nat_add_distrib)
    have "at_write ([] @ (?hdr num2 es2 @ mid) @ (body es2 @ [LP_EOF]) @ slack'') (int (length ([] :: bytes))) (?hdr num1 es1 @ body es1) =
        Some ([] @ (?hdr num1 es1 @ body es1) @ (body es2 @ [LP_EOF]) @ slack'')"
      using mv(2) by (intro at_write_block) simp
    then have "at_write (?hdr num2 es2 @ mid @ (body es2 @ [LP_EOF]) @ slack'') 0 (?hdr num1 es1 @ body es1) =
        Some (le_bytes 4 (of_nat ?n1 :: u64) @ le_bytes 2 (word_of_int (int num1) :: u64) @ body (es1 @ es2) @ LP_EOF # slack'')"
      by simp
    then show ?thesis using False mv(1) rd length_le_bytes by (simp only: if_False bind.bind_lunit) blast
  qed
  then obtain h4 h2 slack where t: "(if ?n1 \<ge> ?n2 then do {
            bs \<leftarrow> at_read lp2' LP_HDR_SIZE (nat (int ?n2 - LP_HDR_SIZE));
            at_write (lp_realloc A lp1' ?n) (int ?n1 - 1) bs }
          else do {
            t \<leftarrow> at_move (lp_realloc A lp2' ?n) (int ?n1 - 1) LP_HDR_SIZE (int ?n2 - LP_HDR_SIZE);
            bs \<leftarrow> at_read lp1' 0 (nat (int ?n1 - 1));
            at_write t 0 bs }) = Some (h4 @ h2 @ body (es1 @ es2) @ LP_EOF # slack)" "length h4 = 4" "length h2 = 2" by blast
  have n: "int ?n1 + int ?n2 - LP_HDR_SIZE - 1 = int ?n" by (simp add: LP_HDR_SIZE_def)
  have guard: "(\<not> (0 \<le> int ?n \<and> int ?n < 2 ^ 32 - 1) \<or> int k < LP_HDR_SIZE) = False" if "7 \<le> k" for k
    using assms(3) that by (simp add: LP_HDR_SIZE_def)
  have "lpMerge A False (Some lp1) (Some lp2) = Some (Some (lp_layout num (es1 @ es2) slack, ?n1 \<ge> ?n2))"
  proof (cases "?n1 \<ge> ?n2")
    case True
    then show ?thesis
      using t(1) fin[OF t(2,3), of slack True] unfolding lpMerge_def prod.case option.case Let_def if_False tot l1(1) l2(1) bind.bind_lunit n
      by (simp only: if_True prod.case guard le_add2 if_False nat_int num_def[symmetric] bind.bind_lunit)
  next
    case False
    then show ?thesis
      using t(1) fin[OF t(2,3), of slack False] unfolding lpMerge_def prod.case option.case Let_def if_False tot l1(1) l2(1) bind.bind_lunit n
      by (simp only: if_False prod.case guard le_add2 nat_int num_def[symmetric] bind.bind_lunit)
  qed
  moreover have "lp_rep (lp_layout num (es1 @ es2) slack) (es1 @ es2)"
    using num r1(2) r2(2) assms(3) by (intro lp_rep_layout) auto
  ultimately show ?thesis by blast
qed

subsection \<open>Search\<close>

text \<open>The first match in a list when \<open>skip\<close> elements are left out between two comparisons.\<close>

primrec find_skip :: "('a \<Rightarrow> bool) \<Rightarrow> nat \<Rightarrow> nat \<Rightarrow> 'a list \<Rightarrow> nat option" where
  "find_skip P skip cnt [] = None"
| "find_skip P skip cnt (x # xs) =
     (if cnt = 0 then (if P x then Some 0 else map_option Suc (find_skip P skip skip xs))
      else map_option Suc (find_skip P skip (cnt - 1) xs))"

text \<open>The cached integer of the search argument is the one of the searched string.\<close>

definition find_arg_ok :: "bytes \<Rightarrow> lpFindArg \<Rightarrow> bool" where
  "find_arg_ok s arg \<longleftrightarrow> arg_s arg = s \<and>
     (arg_venc arg = NotTried \<or> (case lpStringToInt64 s of None \<Rightarrow> arg_venc arg = NoInt | Some v \<Rightarrow> arg_venc arg = IsInt v))"

lemma lpStringToInt64_bounds: "length s \<ge> 32 \<or> length s = 0 \<Longrightarrow> lpStringToInt64 s = None"
  by (auto simp: lpStringToInt64_def LONG_STR_SIZE_def)

lemma lpFindCmp_rep:
  assumes "lp_at lp p e" "payload_ok e" "find_arg_ok s arg"
    "lpGetWithSize lp p None = Some (r, Some (length e + lpEncodeBacklenBytes (length e)))"
  shows "\<exists>arg'. lpFindCmp lp p arg r = Some (payload_str e = s, arg') \<and> find_arg_ok s arg'"
proof -
  have r: "got_str lp r = payload_str e" "\<And>q n. r = LP_STR q n \<Longrightarrow> p < q \<and> q + int n = p + int (length e)"
    "\<And>v. r = LP_INT v \<Longrightarrow> LLONG_MIN \<le> v \<and> v \<le> LLONG_MAX" "\<And>b n. r \<noteq> LP_BUF b n"
    using lpGetWithSize_payload[OF assms(1,2)] assms(4) by auto
  obtain pre post where lp: "lp = pre @ e @ post" "p = int (length pre)" using assms(1) by (auto simp: lp_at_def)
  show ?thesis
  proof (cases r)
    case (LP_STR q n)
    then have q: "p < q" "q + int n = p + int (length e)" using r(2) by auto
    have inb: "nat q + n \<le> length lp" "0 \<le> q" using q lp by auto
    then have rd: "at_read lp q n = Some (payload_str e)"
      using r(1) LP_STR by (simp add: at_read_iff got_str_def)
    have "payload_str e = take n (drop (nat q) lp)" using r(1) LP_STR by (simp add: got_str_def)
    then have "length (payload_str e) = n" using inb(1) by simp
    moreover have "arg_s arg = s" using assms(3) by (simp add: find_arg_ok_def)
    ultimately have "lpFindCmp lp p arg r = Some (payload_str e = s, arg)"
      using LP_STR rd by (cases "n = length s") (auto simp: lpFindCmp_def)
    then show ?thesis using assms(3) by blast
  next
    case (LP_INT v)
    then have v: "payload_str e = dec_ll v" "LLONG_MIN \<le> v" "v \<le> LLONG_MAX" using r(1,3) by (auto simp: got_str_def)
    have iff: "lpStringToInt64 s = Some v \<longleftrightarrow> payload_str e = s"
      using v by (auto simp: lpStringToInt64_eq string2ll_iff)
    define c where "c = (case lpStringToInt64 s of None \<Rightarrow> NoInt | Some v \<Rightarrow> IsInt v)"
    have arg: "arg_s arg = s" "arg_venc arg = NotTried \<or> arg_venc arg = c"
      using assms(3) by (auto simp: find_arg_ok_def c_def split: option.splits)
    have "c = (if length s \<ge> 32 \<or> length s = 0 then NoInt
        else case lpStringToInt64 s of None \<Rightarrow> NoInt | Some vll \<Rightarrow> IsInt vll)"
      using lpStringToInt64_bounds[of s] by (auto simp: c_def)
    then have "lpFindCmp lp p arg r = Some (c = IsInt v, arg\<lparr>arg_venc := c\<rparr>)"
      using LP_INT arg by (cases "arg_venc arg = NotTried") (simp_all add: lpFindCmp_def Let_def)
    moreover have "c = IsInt v \<longleftrightarrow> payload_str e = s" unfolding iff[symmetric] by (auto simp: c_def split: option.splits)
    moreover have "find_arg_ok s (arg\<lparr>arg_venc := c\<rparr>)"
      using arg(1) by (simp add: find_arg_ok_def c_def split: option.splits)
    ultimately show ?thesis by simp
  next
    case (LP_BUF b n)
    then show ?thesis using r(4) by blast
  qed
qed

lemma lpFind_check_rep:
  assumes "lp_rep lp es" "i \<le> length es"
  shows "lpFind_check lp (length (body es) + 7) (lp_pos es i) = Some ()"
  using lpAssertValidEntry_rep[OF assms] lp_pos_ge[of es i] lp_pos_le[OF assms(2)]
  by (auto simp: lpFind_check_def LP_HDR_SIZE_def)

lemma lpFind_loop_rep:
  assumes "lp_rep lp es" "i < length es" "find_arg_ok s arg"
  shows "\<exists>arg'. lpFind_loop lp (length (body es) + 7) lpFindCmp skip (lp_pos es i) arg cnt sz =
    Some (map_option (\<lambda>k. lp_pos es (i + k)) (find_skip (\<lambda>e. payload_str e = s) skip cnt (drop i es)), arg')"
  using assms(2,3)
proof (induction "length es - i" arbitrary: i arg cnt sz)
  case (Suc n)
  let ?n = "length (body es) + 7" and ?e = "es ! i" and ?P = "\<lambda>e. payload_str e = s"
  note at = lp_rep_entry(1,3)[OF assms(1) Suc.prems(1)]
  obtain r where r: "lpGetWithSize lp (lp_pos es i) None = Some (r, Some (length ?e + lpEncodeBacklenBytes (length ?e)))"
    using lpGetWithSize_payload[OF at] by blast
  obtain arg1 where cmp: "lpFindCmp lp (lp_pos es i) arg r = Some (?P ?e, arg1)" "find_arg_ok s arg1"
    using lpFindCmp_rep[OF at Suc.prems(2) r] by blast
  have nxt: "lp_pos es (Suc i) = lp_pos es i + int (length ?e + lpEncodeBacklenBytes (length ?e))"
    using lp_pos_Suc[OF Suc.prems(1)] by (simp add: length_entry)
  have bound: "LP_HDR_SIZE \<le> lp_pos es i" "lp_pos es (Suc i) < int ?n"
    using lp_pos_ge[of es i] lp_pos_le[of "Suc i" es] Suc.prems(1) by (simp_all add: LP_HDR_SIZE_def)
  define cnt' arg2 sz' where "cnt' = (if cnt = 0 then skip else cnt - 1)" and "arg2 = (if cnt = 0 then arg1 else arg)"
    and "sz' = (if cnt = 0 then length ?e + lpEncodeBacklenBytes (length ?e) else sz)"
  have step: "lpFind_step lp ?n lpFindCmp skip (lp_pos es i) arg cnt sz =
      (if cnt = 0 \<and> ?P ?e then Some (Inl arg1) else Some (Inr (lp_pos es (Suc i), arg2, cnt', sz')))"
  proof (cases "cnt = 0")
    case True
    define L where "L = length ?e + lpEncodeBacklenBytes (length ?e)"
    have L: "L \<noteq> 0" "lp_pos es i + int L = lp_pos es (Suc i)" using nxt by (simp_all add: L_def)
    show ?thesis
      using True r[folded L_def] cmp(1) L bound
      by (cases r; cases "?P ?e") (simp_all add: lpFind_step_def Let_def cnt'_def arg2_def sz'_def flip: L_def)
  next
    case False
    then show ?thesis using lpSkip_rep[OF assms(1) Suc.prems(1)] by (simp add: lpFind_step_def cnt'_def arg2_def sz'_def)
  qed
  have drop_i: "drop i es = ?e # drop (Suc i) es" using Suc.prems(1) by (simp add: Cons_nth_drop_Suc)
  show ?case
  proof (cases "cnt = 0 \<and> ?P ?e")
    case True
    then show ?thesis using step drop_i by (subst lpFind_loop.simps) simp
  next
    case False
    have chk: "lpFind_check lp ?n (lp_pos es (Suc i)) = Some ()" using lpFind_check_rep[OF assms(1), of "Suc i"] Suc.prems(1) by simp
    have fs: "find_skip ?P skip cnt (drop i es) = map_option Suc (find_skip ?P skip cnt' (drop (Suc i) es))"
      using False by (auto simp: drop_i cnt'_def)
    have run: "lpFind_loop lp ?n lpFindCmp skip (lp_pos es i) arg cnt sz =
        (case arr_get lp (lp_pos es (Suc i)) of None \<Rightarrow> None | Some b \<Rightarrow>
           if b = LP_EOF then Some (None, arg2) else lpFind_loop lp ?n lpFindCmp skip (lp_pos es (Suc i)) arg2 cnt' sz')"
      using step False chk by (subst lpFind_loop.simps) simp
    show ?thesis
    proof (cases "Suc i < length es")
      case True
      have n: "n = length es - Suc i" using Suc.hyps(2) by simp
      have "find_arg_ok s arg2" using cmp(2) Suc.prems(2) by (simp add: arg2_def)
      then obtain arg' where "lpFind_loop lp ?n lpFindCmp skip (lp_pos es (Suc i)) arg2 cnt' sz' =
          Some (map_option (\<lambda>k. lp_pos es (Suc i + k)) (find_skip ?P skip cnt' (drop (Suc i) es)), arg')"
        using Suc.hyps(1)[of "Suc i" arg2 cnt' sz', OF n True] by blast
      then show ?thesis
        using run fs lp_rep_first[OF assms(1) True] by (auto simp: option.map_comp o_def)
    next
      case eof: False
      then have "Suc i = length es" using Suc.prems(1) by simp
      then show ?thesis using run fs lp_rep_eof[OF assms(1)] by simp
    qed
  qed
qed simp

lemma lpFind_rep:
  assumes "lp_rep lp es" "i < length es"
  shows "lpFind lp (Some (lp_pos es i)) s skip =
      Some (map_option (\<lambda>k. lp_pos es (i + k)) (find_skip (\<lambda>x. x = s) skip 0 (map payload_str (drop i es))))"
    and "lpFind lp None s skip =
      Some (map_option (lp_pos es) (find_skip (\<lambda>x. x = s) skip 0 (map payload_str es)))"
proof -
  have fm: "find_skip (\<lambda>e. payload_str e = s) skip cnt xs = find_skip (\<lambda>x. x = s) skip cnt (map payload_str xs)" for cnt xs
    by (induction xs arbitrary: cnt) auto
  have ok: "find_arg_ok s \<lparr>arg_s = s, arg_venc = NotTried\<rparr>" by (simp add: find_arg_ok_def)
  show "lpFind lp (Some (lp_pos es i)) s skip =
      Some (map_option (\<lambda>k. lp_pos es (i + k)) (find_skip (\<lambda>x. x = s) skip 0 (map payload_str (drop i es))))"
    using lpFind_loop_rep[OF assms ok, of skip 0 123456789]
    by (auto simp: lpFind_def lpFindCbInternal_def lp_rep_bytes[OF assms(1)] fm)
  have "es \<noteq> []" using assms(2) by auto
  then show "lpFind lp None s skip = Some (map_option (lp_pos es) (find_skip (\<lambda>x. x = s) skip 0 (map payload_str es)))"
    using lpFind_loop_rep[OF assms(1) _ ok, of 0 skip 0 123456789] lpFirst_rep[OF assms(1)]
    by (auto simp: lpFind_def lpFindCbInternal_def lp_rep_bytes[OF assms(1)] fm)
qed

end
