(* ===== verification/Listpack_Seq.thy ===== *)
theory Listpack_Seq
  imports Listpack_Proofs Redis_Interfaces
begin

text \<open>
  The listpack as an implementation of bounded sequences of strings: the interface of
  \<^verbatim>\<open>Redis_Interfaces\<close> is interpreted on the listpack operations, and the properties of the
  component are stated on the strings a listpack holds.
\<close>

subsection \<open>Space taken by a string\<close>

lemma payload_header:
  assumes "payload_ok e"
  shows "length e \<le> length (payload_str e) + 5 \<or> length e \<le> 9"
proof -
  obtain b where b: "arr_get e 0 = Some b" and sz: "lpCurrentEncodedSizeUnsafe e 0 = Some (length e)"
    using payload_first[OF lp_at_self assms] assms by (auto simp: payload_ok_def)
  obtain r z where r: "lpGetWithSize e 0 None = Some (r, z)" "got_ok e r" using payload_get[OF assms] by blast
  note size = sz[unfolded lpCurrentEncodedSizeUnsafe_def b lp_class_iff bind.bind_lunit]
  note get = r(1)[unfolded lpGetWithSize_def b lp_class_iff bind.bind_lunit]
  show ?thesis
  proof (cases r)
    case (LP_STR q n)
    then have q: "0 \<le> q" "nat q + n = length e" using r(2) by (auto simp: got_ok_def)
    have "q \<le> 5" using get LP_STR by (auto simp: bind_Some_conv split: if_split_asm)
    moreover have "length (payload_str e) = n" using q r(1) LP_STR by (simp add: payload_str_def)
    ultimately show ?thesis using q by linarith
  next
    case (LP_INT v)
    then have "\<not> (128 \<le> unat b \<and> unat b < 192)" "\<not> (224 \<le> unat b \<and> unat b < 240)" "unat b \<noteq> 240"
      using get by (auto simp: bind_Some_conv split: if_split_asm)
    then show ?thesis using size by (simp split: if_split_asm)
  next
    case (LP_BUF b n)
    then show ?thesis using r(2) by (simp add: got_ok_def)
  qed
qed

definition lp_weight :: "bytes \<Rightarrow> nat" where "lp_weight s = length s + 10"

lemma entry_weight: "payload_ok e \<Longrightarrow> length (entry e) \<le> lp_weight (payload_str e)"
  using payload_header[of e] lpEncodeBacklenBytes_bounds(2)[of "length e"]
  by (auto simp: length_entry lp_weight_def lpEncodeBacklenBytes_def split: if_splits)

lemma body_weight: "\<forall>e\<in>set es. payload_ok e \<Longrightarrow> length (body es) \<le> sum_list (map lp_weight (map payload_str es))"
proof (induction es)
  case (Cons e es)
  then show ?case using entry_weight[of e] by (simp add: add_mono)
qed simp

subsection \<open>Reading the string of an entry\<close>

lemma get_intbuf:
  assumes "lpGetWithSize lp p None = Some (r, z)"
  shows "lpGetWithSize lp p (Some buf) =
    (case r of LP_INT v \<Rightarrow> do { r \<leftarrow> lp_return_int (Some buf) v; Some (r, z) } | _ \<Rightarrow> Some (r, z))"
proof -
  obtain b where b: "arr_get lp p = Some b" using assms by (auto simp: lpGetWithSize_def bind_Some_conv)
  show ?thesis
    using assms unfolding lpGetWithSize_def b bind.bind_lunit by (auto simp: bind_Some_conv split: if_split_asm)
qed

text \<open>The call of the getters with a buffer, as the commands use them to read an element as a string.\<close>

definition lp_string_at :: "bytes \<Rightarrow> int \<Rightarrow> bytes option" where
  "lp_string_at lp p =
     do {
       r \<leftarrow> lpGet lp p (Some (replicate LP_INTBUF_SIZE 0));
       case r of
         LP_STR q n \<Rightarrow> at_read lp q n
       | LP_BUF b n \<Rightarrow> at_read b 0 n
       | LP_INT _ \<Rightarrow> None
     }"

lemma lpGet_payload:
  assumes "lp_at lp p e" "payload_ok e" "LP_INTBUF_SIZE \<le> length buf"
  shows "\<exists>r. lpGet lp p (Some buf) = Some r \<and>
    (case r of LP_STR q n \<Rightarrow> at_read lp q n = Some (payload_str e)
     | LP_BUF b n \<Rightarrow> at_read b 0 n = Some (payload_str e) \<and> length b = length buf | LP_INT _ \<Rightarrow> False)"
proof -
  obtain r z where r: "lpGetWithSize lp p None = Some (r, z)" "got_str lp r = payload_str e"
    "\<And>q n. r = LP_STR q n \<Longrightarrow> p < q \<and> q + int n = p + int (length e)"
    "\<And>v. r = LP_INT v \<Longrightarrow> LLONG_MIN \<le> v \<and> v \<le> LLONG_MAX" "\<And>b n. r \<noteq> LP_BUF b n"
    using lpGetWithSize_payload[OF assms(1,2)] by auto
  obtain pre post where lp: "lp = pre @ e @ post" "p = int (length pre)" using assms(1) by (auto simp: lp_at_def)
  note get = lpGetWithBuf_eq get_intbuf[OF r(1)] lpGet_def
  show ?thesis
  proof (cases r)
    case (LP_STR q n)
    then have q: "p < q" "q + int n = p + int (length e)" using r(3) by auto
    have "nat q + n \<le> length lp" "0 \<le> q" using q lp by auto
    then have "at_read lp q n = Some (payload_str e)" using r(2) LP_STR by (simp add: at_read_iff got_str_def)
    then show ?thesis using LP_STR by (simp add: get)
  next
    case (LP_INT v)
    then have v: "LLONG_MIN \<le> v" "v \<le> LLONG_MAX" "payload_str e = dec_ll v" using r(2,4) by (auto simp: got_str_def)
    let ?b = "splice buf 0 (dec_ll v @ [0])"
    have len: "length (dec_ll v) < LP_INTBUF_SIZE" using dec_ll_length[OF v(1,2)] by (simp add: LP_INTBUF_SIZE_def LONG_STR_SIZE_def)
    then have "ll2string buf LP_INTBUF_SIZE v = Some (?b, length (dec_ll v))"
      using ll2string_spec[OF assms(3) v(1,2)] by simp
    moreover have "length ?b = length buf" using len assms(3) by (intro length_splice) simp
    moreover from this have "at_read ?b 0 (length (dec_ll v)) = Some (payload_str e)"
      using len assms(3) v(3) by (simp add: at_read_iff splice_def)
    ultimately show ?thesis using LP_INT by (simp add: get lp_return_int_def)
  next
    case (LP_BUF b n)
    then show ?thesis using r(5) by blast
  qed
qed

lemma lp_string_at_payload: "lp_at lp p e \<Longrightarrow> payload_ok e \<Longrightarrow> lp_string_at lp p = Some (payload_str e)"
proof -
  assume "lp_at lp p e" "payload_ok e"
  then obtain r where "lpGet lp p (Some (replicate LP_INTBUF_SIZE 0)) = Some r"
    "case r of LP_STR q n \<Rightarrow> at_read lp q n = Some (payload_str e)
     | LP_BUF b n \<Rightarrow> at_read b 0 n = Some (payload_str e) \<and> length b = length (replicate LP_INTBUF_SIZE (0 :: u8)) | LP_INT _ \<Rightarrow> False"
    using lpGet_payload[of lp p e "replicate LP_INTBUF_SIZE 0"] by fastforce
  then show ?thesis by (cases r) (auto simp: lp_string_at_def)
qed

lemma lp_string_at_rep: "lp_rep lp es \<Longrightarrow> i < length es \<Longrightarrow> lp_string_at lp (lp_pos es i) = Some (payload_str (es ! i))"
  using lp_string_at_payload lp_rep_entry by blast

subsection \<open>The sequence interface\<close>

definition lp_strs :: "bytes \<Rightarrow> bytes list \<Rightarrow> bool" where
  "lp_strs lp ss \<longleftrightarrow> (\<exists>es. lp_rep lp es \<and> map payload_str es = ss)"

definition lp_insert_at :: "allocator \<Rightarrow> bytes \<Rightarrow> nat \<Rightarrow> bytes \<Rightarrow> bytes option" where
  "lp_insert_at A lp i s =
     do {
       p \<leftarrow> lpSeek lp (int i);
       case p of
         Some p \<Rightarrow> do { r \<leftarrow> lpInsertString A lp s p LP_BEFORE; map_option fst r }
       | None \<Rightarrow> do { r \<leftarrow> lpAppend A lp s; r }
     }"

definition lp_replace_at :: "allocator \<Rightarrow> bytes \<Rightarrow> nat \<Rightarrow> bytes \<Rightarrow> bytes option" where
  "lp_replace_at A lp i s =
     do {
       p \<leftarrow> lpSeek lp (int i);
       case p of
         Some p \<Rightarrow> do { r \<leftarrow> lpReplace A lp p s; map_option fst r }
       | None \<Rightarrow> Some lp
     }"

definition lp_get_at :: "bytes \<Rightarrow> nat \<Rightarrow> bytes option option" where
  "lp_get_at lp i =
     do { p \<leftarrow> lpSeek lp (int i); case p of Some p \<Rightarrow> do { s \<leftarrow> lp_string_at lp p; Some (Some s) } | None \<Rightarrow> Some None }"

definition lp_seq :: "allocator \<Rightarrow> (bytes, bytes) seq_impl" where
  "lp_seq A = \<lparr>q_insert = lp_insert_at A, q_replace = lp_replace_at A,
     q_delete = (\<lambda>lp i n. lpDeleteRange A lp (int i) n), q_get = lp_get_at\<rparr>"

lemma seek_index_nat: "seek_index n (int i) = (if i < n then Some i else None)"
  by (simp add: seek_index_def)

lemma fits_body:
  assumes "\<forall>e\<in>set es. payload_ok e" "sum_list (map lp_weight (map payload_str es)) + lp_weight s \<le> 2 ^ 32 - 8"
  shows "length (body es) + length (entry (lp_encode s)) + 7 < 2 ^ 32"
proof -
  have "length s + 5 < 2 ^ 32" using assms(2) by (simp add: lp_weight_def)
  then have "length (entry (lp_encode s)) \<le> lp_weight s" using entry_weight lp_encode_str by metis
  then show ?thesis using body_weight[OF assms(1)] assms(2) by simp
qed

lemma lp_encode_weight: "lp_weight s \<le> 2 ^ 32 - 8 \<Longrightarrow> payload_str (lp_encode s) = s"
  using lp_encode_str(2)[of s] by (simp add: lp_weight_def)

interpretation lpq: bounded_seq "lp_seq A" lp_strs lp_weight "2 ^ 32 - 8"
proof (standard, goal_cases)
  case (1 lp ss s i)
  then obtain es where es: "lp_rep lp es" "ss = map payload_str es" by (auto simp: lp_strs_def)
  have ok: "\<forall>e\<in>set es. payload_ok e" using es(1) by (rule lp_repE)
  have str: "payload_str (lp_encode s) = s" using 1(2) by (intro lp_encode_weight) simp
  have fit: "length (body (take i es @ lp_encode s # drop i es)) + 7 < 2 ^ 32"
    using fits_body[OF ok, of s] 1(2) body_split[of i es] es(2) by (cases "i \<le> length es") auto
  show ?case
  proof (cases "i < length es")
    case True
    then have "\<exists>lp'. lpInsertString A lp s (lp_pos es i) LP_BEFORE = Some (Some (lp', Some (lp_pos (take i es @ lp_encode s # drop i es) i))) \<and>
        lp_rep lp' (take i es @ lp_encode s # drop i es)"
      using lpInsertString_rep[OF es(1), of i LP_BEFORE i i s A] fit by (simp add: where_range_def)
    then show ?thesis
      using True lpSeek_rep[OF es(1), of "int i"] es(2) str
      by (auto simp: lp_seq_def lp_insert_at_def seek_index_nat lp_strs_def take_map drop_map intro!: exI[of _ "take i es @ lp_encode s # drop i es"])
  next
    case False
    then have "\<exists>lp'. lpAppend A lp s = Some (Some lp') \<and> lp_rep lp' (es @ [lp_encode s])"
      using lpAppend_rep[OF es(1), of s A] fit by simp
    then show ?thesis
      using False lpSeek_rep[OF es(1), of "int i"] es(2) str
      by (auto simp: lp_seq_def lp_insert_at_def seek_index_nat lp_strs_def intro!: exI[of _ "es @ [lp_encode s]"])
  qed
next
  case (2 lp ss s i)
  then obtain es where es: "lp_rep lp es" "ss = map payload_str es" by (auto simp: lp_strs_def)
  have ok: "\<forall>e\<in>set es. payload_ok e" using es(1) by (rule lp_repE)
  have str: "payload_str (lp_encode s) = s" using 2(2) by (intro lp_encode_weight) simp
  show ?case
  proof (cases "i < length es")
    case True
    have "length (body (take i es @ lp_encode s # drop (Suc i) es)) + 7 < 2 ^ 32"
      using fits_body[OF ok, of s] 2(2) body_split[of i es] es(2) body_drop[OF True] True by simp
    then have "\<exists>lp'. lpReplace A lp (lp_pos es i) s = Some (Some (lp', Some (lp_pos (es[i := lp_encode s]) i))) \<and>
        lp_rep lp' (es[i := lp_encode s])"
      using lpInsertString_rep[OF es(1), of i LP_REPLACE i "Suc i" s A] True
      by (simp add: where_range_def lpReplace_def lpInsertString_def upd_conv_take_nth_drop)
    then show ?thesis
      using True lpSeek_rep[OF es(1), of "int i"] es(2) str
      by (auto simp: lp_seq_def lp_replace_at_def seek_index_nat lp_strs_def map_update intro!: exI[of _ "es[i := lp_encode s]"])
  next
    case False
    then show ?thesis
      using lpSeek_rep[OF es(1), of "int i"] es
      by (auto simp: lp_seq_def lp_replace_at_def seek_index_nat lp_strs_def list_update_beyond)
  qed
next
  case (3 lp ss i n)
  then obtain es where es: "lp_rep lp es" "ss = map payload_str es" by (auto simp: lp_strs_def)
  obtain lp' where d: "lpDeleteRange A lp (int i) n = Some lp'"
    "lp_rep lp' (case seek_index (length es) (int i) of None \<Rightarrow> es | Some i \<Rightarrow> take i es @ drop (i + n) es)"
    using lpDeleteRange_rep[OF es(1)] by blast
  have "lp_rep lp' (take i es @ drop (i + n) es)" using d(2) by (simp add: seek_index_nat split: if_splits)
  then show ?case using d(1) es(2)
    by (auto simp: lp_seq_def lp_strs_def take_map drop_map intro!: exI[of _ "take i es @ drop (i + n) es"])
next
  case (4 lp ss i)
  then obtain es where es: "lp_rep lp es" "ss = map payload_str es" by (auto simp: lp_strs_def)
  then show ?case
    using lpSeek_rep[OF es(1), of "int i"] lp_string_at_rep[OF es(1), of i]
    by (simp add: lp_seq_def lp_get_at_def seek_index_nat)
qed

subsection \<open>An example listpack\<close>

definition example_payloads :: "bytes list" where
  "example_payloads = [[5], [0x82, 97, 98], [0xC4, 0xD2]]"

definition example_lp :: bytes where
  "example_lp = lp_layout 3 example_payloads [1, 2]"

definition example_alloc :: allocator where
  "example_alloc = \<lparr>junk = (\<lambda>_. 7), good_size = (\<lambda>n. n + 3)\<rparr>"

lemma example_rep: "lp_rep example_lp example_payloads"
  unfolding example_lp_def
proof (rule lp_rep_layout)
  show "num_ok 3 (length example_payloads)" by (simp add: num_ok_def example_payloads_def LP_HDR_NUMELE_UNKNOWN_def)
  show "\<forall>e\<in>set example_payloads. payload_ok e"
    by (simp add: example_payloads_def payload_ok_def lpCurrentEncodedSizeUnsafe_def lp_class_iff arr_get_def
        LP_ENCODING_6BIT_STR_LEN_def byte_masks)
  show "length (body example_payloads) + 7 < 2 ^ 32"
    by (simp add: example_payloads_def length_entry lpEncodeBacklenBytes_def)
qed

lemma example_strs: "map payload_str example_payloads = [[53], [97, 98], [49, 50, 51, 52]]"
proof -
  have "payload_str [5] = [53]" "payload_str [0x82, 97, 98] = [97, 98]" "payload_str [0xC4, 0xD2] = [49, 50, 51, 52]"
    by code_simp+
  then show ?thesis by (simp add: example_payloads_def)
qed

lemma example_len: "length example_payloads = 3"
  by (simp add: example_payloads_def)

subsection \<open>Properties\<close>

text \<open>
  C3: a fresh listpack behaves as a list of strings under every sequence of insertions, replacements, range
  deletions and reads, as long as the inserted strings fit into the 32-bit size: no step leaves
  the allocation, fails an assertion or returns an error, whatever the allocator does, and every
  read returns the string of the list.
\<close>

theorem listpack_run_correct:
  assumes "sum_list (map (op_weight lp_weight) ops) \<le> 2 ^ 32 - 8"
  shows "\<exists>lp lp' rs. lpNew A capacity = Some lp \<and> run_seq_ops (lp_seq A) lp ops = Some (lp', rs) \<and>
    lp_strs lp' (fst (abs_seq_ops [] ops)) \<and> rs = snd (abs_seq_ops [] ops)"
proof -
  obtain lp where lp: "lpNew A capacity = Some lp" "lp_rep lp []" using lpNew_rep by blast
  then have "lp_strs lp []" unfolding lp_strs_def by force
  then show ?thesis using lpq.run_refines[of lp "[]" ops A] assms lp(1) by auto
qed

theorem listpack_run_correct_witness:
  "\<exists>lp lp' rs. lpNew example_alloc 0 = Some lp \<and>
    run_seq_ops (lp_seq example_alloc) lp [SeqInsert 0 [97], SeqInsert 0 [49, 50], SeqGet 0, SeqDelete 0 1, SeqGet 0] = Some (lp', rs) \<and>
    lp_strs lp' [[97]] \<and> rs = [None, None, Some [49, 50], None, Some [97]]"
  using listpack_run_correct[of "[SeqInsert 0 [97], SeqInsert 0 [49, 50], SeqGet 0, SeqDelete 0 1, SeqGet 0]" example_alloc 0]
  by (simp add: lp_weight_def)

text \<open>
  C31: insertion before or after an entry and replacement of it.  The result is \<open>NULL\<close> exactly when the new size
  would exceed 32 bits; otherwise the string is at the expected place, nothing else changes, and
  the returned pointer is the new entry.
\<close>

theorem lpInsertString_correct:
  assumes "lp_rep lp es" "i < length es \<or> i = length es \<and> w = LP_BEFORE" "where_range w i = (k, j)"
    and "es' = take k es @ lp_encode s # drop j es"
  shows "if length (body es') + 7 < 2 ^ 32
    then \<exists>lp'. lpInsertString A lp s (lp_pos es i) w = Some (Some (lp', Some (lp_pos es' k))) \<and> lp_rep lp' es' \<and>
      map payload_str es' = take k (map payload_str es) @ s # drop j (map payload_str es)
    else lpInsertString A lp s (lp_pos es i) w = Some None"
proof -
  have "length (lp_encode s) < 2 ^ 32" if "length (body es') + 7 < 2 ^ 32"
    using that assms(4) by (simp add: length_entry)
  then show ?thesis
    using lpInsertString_rep[OF assms(1-3), of s A] lp_encode_ok[of s]
    by (auto simp: assms(4) take_map drop_map)
qed

theorem lpInsertString_correct_witness:
  "\<exists>lp' es'. lpInsertString example_alloc example_lp [120] (lp_pos example_payloads 1) LP_AFTER =
      Some (Some (lp', Some (lp_pos es' 2))) \<and> lp_rep lp' es' \<and>
    map payload_str es' = [[53], [97, 98], [120], [49, 50, 51, 52]]"
proof -
  have enc: "lp_encode [120] = [0x81, 120]" by code_simp
  define es' where "es' = take 2 example_payloads @ lp_encode [120] # drop 2 example_payloads"
  have "length (body es') + 7 < 2 ^ 32"
    by (simp add: es'_def example_payloads_def enc length_entry lpEncodeBacklenBytes_def)
  moreover have "where_range LP_AFTER 1 = (2, 2)" by (simp add: where_range_def)
  ultimately have "\<exists>lp'. lpInsertString example_alloc example_lp [120] (lp_pos example_payloads 1) LP_AFTER =
      Some (Some (lp', Some (lp_pos es' 2))) \<and> lp_rep lp' es' \<and>
      map payload_str es' = take 2 (map payload_str example_payloads) @ [120] # drop 2 (map payload_str example_payloads)"
    using lpInsertString_correct[OF example_rep, of 1 LP_AFTER 2 2 es' "[120]" example_alloc] es'_def
    by (simp only: example_len if_True) simp
  moreover have "take 2 (map payload_str example_payloads) @ [120] # drop 2 (map payload_str example_payloads) =
      [[53], [97, 98], [120], [49, 50, 51, 52]]" unfolding example_strs by simp
  ultimately show ?thesis by metis
qed

text \<open>
  C32: traversal. \<open>lpFirst\<close>, \<open>lpLast\<close>, \<open>lpNext\<close> and \<open>lpPrev\<close> move between the entries and end with \<open>NULL\<close>,
  and \<open>lpSeek\<close>, which walks from the nearer end, finds the entry of every signed index and \<open>NULL\<close>
  outside the range; none of their assertions fails.
\<close>

theorem lp_traversal_correct:
  assumes "lp_rep lp es"
  shows "lpFirst lp = Some (if es = [] then None else Some (lp_pos es 0)) \<and>
    lpLast lp = Some (if es = [] then None else Some (lp_pos es (length es - 1))) \<and>
    (\<forall>i < length es. lpNext lp (lp_pos es i) = Some (if Suc i < length es then Some (lp_pos es (Suc i)) else None) \<and>
      lpPrev lp (lp_pos es i) = Some (if i = 0 then None else Some (lp_pos es (i - 1)))) \<and>
    (\<forall>index. lpSeek lp index = Some (map_option (lp_pos es) (seek_index (length es) index)))"
  using lpFirst_rep[OF assms] lpLast_rep[OF assms] lpNext_rep[OF assms] lpPrev_rep[OF assms] lpSeek_rep[OF assms]
  by simp

theorem lp_traversal_correct_witness:
  "lpSeek example_lp (-1) = Some (Some (lp_pos example_payloads 2)) \<and> lpSeek example_lp 3 = Some None \<and>
   lpNext example_lp (lp_pos example_payloads 2) = Some None"
  using lp_traversal_correct[OF example_rep] by (simp add: seek_index_def example_len)



text \<open>
  The specialised getter without the entry size agrees with the general one on every block of memory,
  well formed or not, including the cases in which a read would leave the block.
\<close>

theorem lpGetWithBuf_equiv: "lpGetWithBuf lp p intbuf = map_option fst (lpGetWithSize lp p intbuf)"
  by (rule lpGetWithBuf_eq)

text \<open>
  C34: \<open>lpFind\<close> returns the first entry equal to the string, comparing every \<open>skip + 1\<close>-th entry only, and
  \<open>NULL\<close> when there is none: integer entries are compared by value and still match exactly the
  strings that denote them.
\<close>

theorem lpFind_correct:
  assumes "lp_rep lp es" "i < length es"
  shows "lpFind lp (Some (lp_pos es i)) s skip =
      Some (map_option (\<lambda>k. lp_pos es (i + k)) (find_skip (\<lambda>x. x = s) skip 0 (drop i (map payload_str es)))) \<and>
    lpFind lp None s skip = Some (map_option (lp_pos es) (find_skip (\<lambda>x. x = s) skip 0 (map payload_str es)))"
  using lpFind_rep[OF assms] by (simp add: drop_map)

theorem lpFind_correct_witness:
  "lpFind example_lp None [49, 50, 51, 52] 1 = Some (Some (lp_pos example_payloads 2)) \<and>
   lpFind example_lp None [97, 98] 1 = Some None"
  using lpFind_correct[OF example_rep, of 0] unfolding example_strs by (simp add: example_len numeral_2_eq_2)

text \<open>
  C35: \<open>lpDeleteRange\<close> deletes the entries of a signed range, whether it cuts the end off or moves a tail down, and
  leaves the listpack unchanged when the start is out of range; \<open>lpDelete\<close> removes one entry and
  returns its successor.
\<close>

theorem lpDeleteRange_correct:
  assumes "lp_rep lp es"
  shows "(\<exists>lp'. lpDeleteRange A lp index num = Some lp' \<and>
      lp_rep lp' (case seek_index (length es) index of None \<Rightarrow> es | Some i \<Rightarrow> take i es @ drop (i + num) es)) \<and>
    (\<forall>i < length es. \<exists>lp'. lpDelete A lp (lp_pos es i) =
        Some (Some (lp', if Suc i < length es then Some (lp_pos es i) else None)) \<and> lp_rep lp' (take i es @ drop (Suc i) es))"
proof (intro conjI allI impI)
  show "\<exists>lp'. lpDeleteRange A lp index num = Some lp' \<and>
      lp_rep lp' (case seek_index (length es) index of None \<Rightarrow> es | Some i \<Rightarrow> take i es @ drop (i + num) es)"
    by (rule lpDeleteRange_rep[OF assms])
next
  fix i assume i: "i < length es"
  then have pos: "lp_pos (take i es @ drop (Suc i) es) i = lp_pos es i"
    and len: "(i < length (take i es @ drop (Suc i) es)) = (Suc i < length es)"
    by (auto simp: lp_pos_def)
  show "\<exists>lp'. lpDelete A lp (lp_pos es i) = Some (Some (lp', if Suc i < length es then Some (lp_pos es i) else None)) \<and>
      lp_rep lp' (take i es @ drop (Suc i) es)"
    using lpDelete_rep[OF assms i] unfolding pos len .
qed

theorem lpDeleteRange_correct_witness:
  "\<exists>lp'. lpDeleteRange example_alloc example_lp (-3) 2 = Some lp' \<and> lp_rep lp' [[0xC4, 0xD2]]"
  using conjunct1[OF lpDeleteRange_correct[OF example_rep, of example_alloc "-3" 2]]
  by (simp add: seek_index_def example_len) (simp add: example_payloads_def)

text \<open>
  \<open>lpMerge\<close> yields the entries of the first listpack followed by those of the second, no matter which of the two
  allocations is extended, when the result is below the size limit.
\<close>

theorem lpMerge_correct:
  assumes "lp_rep lp1 es1" "lp_rep lp2 es2" "length (body es1) + length (body es2) + 7 < 2 ^ 32 - 1"
  shows "\<exists>lp' app. lpMerge A False (Some lp1) (Some lp2) = Some (Some (lp', app)) \<and> lp_rep lp' (es1 @ es2)"
  using lpMerge_rep[OF assms(1,2)] assms(3) by simp

theorem lpMerge_correct_witness:
  "\<exists>lp' app. lpMerge example_alloc False (Some example_lp) (Some example_lp) = Some (Some (lp', app)) \<and>
    lp_rep lp' (example_payloads @ example_payloads)"
proof -
  have "length (body example_payloads) + length (body example_payloads) + 7 < 2 ^ 32 - 1"
    by (simp add: example_payloads_def length_entry lpEncodeBacklenBytes_def)
  from lpMerge_correct[OF example_rep example_rep this] show ?thesis by blast
qed

end
