(* ===== verification/Listpack_Valid.thy ===== *)
theory Listpack_Valid
  imports Listpack_Seq
begin

text \<open>
  Validation of listpacks that come from outside (\<open>lpValidateIntegrity\<close>): it is safe on every buffer
  and accepts every listpack the operations produce.  A listpack it accepts need not be one the
  operations keep valid.
\<close>

subsection \<open>No access leaves the buffer\<close>

lemma size_safe:
  assumes "arr_get lp p = Some b" "p + int (lpCurrentEncodedSizeBytes b) \<le> int (length lp)"
  shows "\<exists>n. lpCurrentEncodedSizeUnsafe lp p = Some n"
proof -
  have p: "0 \<le> p" using assms(1) by (simp add: arr_get_iff)
  have r12: "\<exists>n. LP_ENCODING_12BIT_STR_LEN lp p = Some n" if "224 \<le> unat b \<and> unat b < 240"
    using assms that p by (simp add: LP_ENCODING_12BIT_STR_LEN_def lpCurrentEncodedSizeBytes_def lp_class_iff arr_get_def)
  have r32: "\<exists>n. LP_ENCODING_32BIT_STR_LEN lp p = Some n" if "unat b = 240"
    using assms that p by (auto simp: LP_ENCODING_32BIT_STR_LEN_def lpCurrentEncodedSizeBytes_def lp_class_iff at_read_def mem_read_def nat_add_distrib)
  show ?thesis
    using r12 r32 assms(1) by (auto simp: lpCurrentEncodedSizeUnsafe_def lp_class_iff LP_ENCODING_6BIT_STR_LEN_def)
qed

lemma decode_safe: "4 \<le> q \<Longrightarrow> q < int (length lp) \<Longrightarrow> \<exists>n. lpDecodeBacklen lp q = Some n"
  by (simp add: lpDecodeBacklen_def Let_def arr_get_def)

lemma lpValidateNext_safe:
  assumes "n \<le> length lp"
  shows "\<exists>ok q. lpValidateNext lp pp n = Some (ok, q)"
proof (cases pp)
  case (Some p)
  show ?thesis
  proof (cases "OUT_OF_RANGE n p")
    case False
    then have p: "6 \<le> p" "p < int (length lp)" using assms by (auto simp: OUT_OF_RANGE_def LP_HDR_SIZE_def)
    then obtain b where b: "arr_get lp p = Some b" by (simp add: arr_get_def)
    show ?thesis
    proof (cases "b = LP_EOF \<or> lpCurrentEncodedSizeBytes b = 0 \<or> OUT_OF_RANGE n (p + int (lpCurrentEncodedSizeBytes b))")
      case True
      then show ?thesis using Some False b by (auto simp: lpValidateNext_def Let_def)
    next
      case long: False
      then have "p + int (lpCurrentEncodedSizeBytes b) \<le> int (length lp)" using assms by (auto simp: OUT_OF_RANGE_def)
      then obtain m where m: "lpCurrentEncodedSizeUnsafe lp p = Some m" using size_safe[OF b] by blast
      let ?q = "p + int (m + lpEncodeBacklenBytes m)"
      show ?thesis
      proof (cases "OUT_OF_RANGE n ?q")
        case True
        then show ?thesis using Some False b long m by (auto simp: lpValidateNext_def Let_def)
      next
        case ok: False
        have "0 < lpEncodeBacklenBytes m" by simp
        then have "4 \<le> ?q - 1" "?q - 1 < int (length lp)" using ok p assms by (auto simp: OUT_OF_RANGE_def)
        then obtain v where "lpDecodeBacklen lp (?q - 1) = Some v" using decode_safe by blast
        then show ?thesis using Some False b long m ok by (auto simp: lpValidateNext_def Let_def)
      qed
    qed
  qed (use Some in \<open>auto simp: lpValidateNext_def\<close>)
qed (auto simp: lpValidateNext_def)

lemma lpValidate_loop_safe:
  assumes "n \<le> length lp"
  shows "(\<forall>p'. pp = Some p' \<longrightarrow> 0 \<le> p' \<and> p' < int n) \<Longrightarrow> \<exists>r. lpValidate_loop lp n numele cb user pp count = Some r"
  using assms
proof (induction lp n numele cb user pp count rule: lpValidate_loop.induct)
  case (2 lp n numele cb user p count)
  have "0 \<le> p" "p < int (length lp)" using 2(2,3) by auto
  then obtain b where b: "arr_get lp p = Some b" by (simp add: arr_get_def)
  show ?case
  proof (cases "b = LP_EOF")
    case False
    obtain ok q where v: "lpValidateNext lp (Some p) n = Some (ok, q)" using lpValidateNext_safe[OF 2(3)] by blast
    obtain ok2 user2 where c: "(case cb of None \<Rightarrow> (True, user) | Some f \<Rightarrow> f p numele user) = (ok2, user2)" by fastforce
    show ?thesis
    proof (cases "ok \<and> ok2")
      case True
      have "\<forall>p'. q = Some p' \<longrightarrow> 0 \<le> p' \<and> p' < int n"
        using v True \<open>0 \<le> p\<close> lpValidateNext_advances[of lp p n] by fastforce
      then have "\<exists>r. lpValidate_loop lp n numele cb user2 q ((count + 1) mod 2 ^ 32) = Some r"
        using 2(1)[OF b False v refl _ c[symmetric]] True 2(3) by simp
      then show ?thesis using b False v c True by (simp only: lpValidate_loop.simps option.case if_False prod.case) simp
    next
      case False
      then show ?thesis using b \<open>b \<noteq> LP_EOF\<close> v c by (cases ok; cases ok2) (simp_all only: lpValidate_loop.simps option.case if_False prod.case bool.case, simp_all)
    qed
  qed (use b in simp)
qed simp

lemma lpValidateIntegrity_total:
  assumes "sz \<le> length lp"
  shows "\<exists>ok. lpValidateIntegrity lp sz deep cb user = Some ok"
proof (cases "int sz < LP_HDR_SIZE + 1")
  case False
  then have sz: "7 \<le> sz" by (simp add: LP_HDR_SIZE_def)
  then have "at_read lp 0 4 = Some (take 4 lp)" "at_read lp 4 2 = Some (take 2 (drop 4 lp))" "arr_get lp (int sz - 1) = Some (lp ! (sz - 1))"
    using assms by (auto simp: at_read_iff arr_get_def nat_diff_distrib)
  then obtain bytes numele b where h: "lpGetTotalBytes lp = Some bytes" "lpGetNumElements lp = Some numele" "arr_get lp (int sz - 1) = Some b"
    by (simp add: lpGetTotalBytes_def lpGetNumElements_def)
  show ?thesis
  proof (cases "bytes = sz \<and> b = LP_EOF \<and> deep")
    case True
    then have n: "bytes \<le> length lp" "\<forall>p'. Some LP_HDR_SIZE = Some p' \<longrightarrow> 0 \<le> p' \<and> p' < int bytes"
      using assms sz by (auto simp: LP_HDR_SIZE_def)
    obtain r where "lpValidate_loop lp bytes numele cb user (Some LP_HDR_SIZE) 0 = Some r"
      using lpValidate_loop_safe[OF n(1) n(2), of numele cb user 0] by (rule exE)
    then show ?thesis
      using False h True by (auto simp: lpValidateIntegrity_def simp del: lpValidate_loop.simps split: option.splits)
  qed (use False h in \<open>auto simp: lpValidateIntegrity_def\<close>)
qed (auto simp: lpValidateIntegrity_def)

subsection \<open>Well-formed listpacks are accepted\<close>

lemma lpValidate_loop_rep:
  assumes "lp_rep lp es" "i \<le> length es" "count < 2 ^ 32"
  shows "lpValidate_loop lp (length (body es) + 7) numele None user (Some (lp_pos es i)) count =
    Some (Some (Some (lp_pos es (length es)), (count + (length es - i)) mod 2 ^ 32))"
  using assms(2,3)
proof (induction "length es - i" arbitrary: i count)
  case 0
  then show ?case using lp_rep_eof[OF assms(1)] by simp
next
  case (Suc n)
  then have i: "i < length es" by simp
  have k: "n = length es - Suc i" "length es - i = Suc n" using Suc.hyps(2) by simp_all
  let ?c = "(count + 1) mod 2 ^ 32"
  have "lpValidate_loop lp (length (body es) + 7) numele None user (Some (lp_pos es (Suc i))) ?c =
      Some (Some (Some (lp_pos es (length es)), (?c + n) mod 2 ^ 32))"
    using Suc.hyps(1)[OF k(1), of ?c] i unfolding k(1) by simp
  moreover have "(?c + n) mod 2 ^ 32 = (count + Suc n) mod 2 ^ 32" by (simp add: mod_add_left_eq)
  moreover have "lpValidate_loop lp (length (body es) + 7) numele None user (Some (lp_pos es i)) count =
      lpValidate_loop lp (length (body es) + 7) numele None user (Some (lp_pos es (Suc i))) ?c"
    using lp_rep_first[OF assms(1) i] lpValidateNext_rep[OF assms(1) Suc.prems(1)] i
    by (simp only: lpValidate_loop.simps option.case if_False if_True prod.case bool.case simp_thms)
  ultimately show ?case unfolding k(2) by metis
qed

lemma lpValidateIntegrity_rep:
  assumes "lp_rep lp es"
  shows "lpValidateIntegrity lp (length (body es) + 7) deep None user = Some True"
proof -
  obtain num where h: "lpGetTotalBytes lp = Some (length (body es) + 7)" "lpGetNumElements lp = Some num" "num_ok num (length es)"
    "length (body es) + 7 < 2 ^ 32"
    using assms by (rule lp_repE)
  have pos: "int (length (body es) + 7) - 1 = lp_pos es (length es)" by (simp add: lp_pos_len)
  have small: "length es < 2 ^ 32" using length_body_ge[of es] h(4) by simp
  have "lpValidate_loop lp (length (body es) + 7) num None user (Some LP_HDR_SIZE) 0 =
      Some (Some (Some (lp_pos es (length es)), length es))"
    using lpValidate_loop_rep[OF assms, of 0 0 num user] small by (simp add: LP_HDR_SIZE_def)
  then show ?thesis
    using h lp_rep_eof[OF assms] unfolding lpValidateIntegrity_def pos
    by (auto simp: LP_HDR_SIZE_def num_ok_def)
qed

subsection \<open>An accepted listpack with a non-canonical backlen\<close>

text \<open>
  One entry, the empty string, whose backlen is the byte \<open>0x81\<close>.  Its continuation bit is set, so
  the decoder goes on through the encoding byte into the header, where it reads zeros.  Once an
  entry stands before it, the same byte decodes to a different length.
\<close>

definition noncanonical_lp :: bytes where
  "noncanonical_lp = [9, 0, 0, 0, 1, 0, 0x80, 0x81, 0xFF]"

definition prepended_lp :: bytes where
  "prepended_lp = [12, 0, 0, 0, 2, 0, 0x81, 97, 2, 0x80, 0x81, 0xFF, 7, 7, 7]"

lemmas lp_eval = lpGetTotalBytes_def lpGetNumElements_def lpBytes_def at_read_def mem_read_def at_write_def mem_write_def
  at_move_def arr_get_def Let_def OUT_OF_RANGE_def LP_HDR_SIZE_def LP_HDR_NUMELE_UNKNOWN_def lp_encoding_defs
  lpCurrentEncodedSizeBytes_def lpCurrentEncodedSizeUnsafe_def lpDecodeBacklen_def lpEncodeBacklenBytes_def LP_ENCODING_6BIT_STR_LEN_def

lemma noncanonical_reads:
  "arr_get noncanonical_lp 6 = Some 0x80" "arr_get noncanonical_lp 8 = Some LP_EOF"
  "lpGetTotalBytes noncanonical_lp = Some 9" "lpGetNumElements noncanonical_lp = Some 1"
  "lpValidateNext noncanonical_lp (Some 6) 9 = Some (True, Some 8)"
  by (simp_all add: noncanonical_lp_def lpValidateNext_def lp_eval)

lemma noncanonical_accepted: "lpValidateIntegrity noncanonical_lp 9 True None () = Some True"
  using noncanonical_reads by (simp add: lpValidateIntegrity_def LP_HDR_SIZE_def LP_EOF_def)

lemma noncanonical_first: "lpFirst noncanonical_lp = Some (Some 6)"
  using noncanonical_reads by (simp add: lpFirst_def lpAssertValidEntry_def LP_HDR_SIZE_def LP_EOF_def lpBytes_def)

lemma noncanonical_relocate:
  "lpInsert_relocate example_alloc noncanonical_lp 6 LP_BEFORE 3 0 9 12 =
     Some [9, 0, 0, 0, 1, 0, 0x80, 0x81, 0xFF, 0x80, 0x81, 0xFF, 7, 7, 7]"
  by (simp add: lpInsert_relocate_def noncanonical_lp_def lp_eval lp_malloc_size_def lp_realloc_def zrealloc_def
      usable_def example_alloc_def upt_rec)

lemma noncanonical_store:
  "lpInsert_store [9, 0, 0, 0, 1, 0, 0x80, 0x81, 0xFF, 0x80, 0x81, 0xFF, 7, 7, 7] (EleStr [97]) (Some LP_ENCODING_STRING) 6 2 [2] =
     Some [9, 0, 0, 0, 1, 0, 0x81, 97, 2, 0x80, 0x81, 0xFF, 7, 7, 7]"
  by (simp add: lpInsert_store_def lpEncodeString_def lp_eval)

lemma noncanonical_header:
  "lpInsert_header [9, 0, 0, 0, 1, 0, 0x81, 97, 2, 0x80, 0x81, 0xFF, 7, 7, 7] LP_BEFORE False 12 = Some prepended_lp"
proof -
  have b: "le_bytes 2 (2 :: u64) = [2, 0]" "le_bytes 4 (12 :: u64) = [12, 0, 0, 0]" by code_simp+
  show ?thesis
    by (simp add: lpInsert_header_def lpSetNumElements_def lpSetTotalBytes_def prepended_lp_def lp_eval b)
qed

lemma noncanonical_prepend: "lpPrepend example_alloc noncanonical_lp [97] = Some (Some prepended_lp)"
proof -
  have "lpEncodeGetType [97] = (LP_ENCODING_STRING, 2)" "lpEncodeBacklen 2 = [2]"
    by (simp_all add: lpEncodeGetType_def lpStringToInt64_def lpEncodeBacklen_def)
  then show ?thesis
    using noncanonical_first noncanonical_relocate noncanonical_store noncanonical_header noncanonical_reads(3)
    by (simp add: lpPrepend_def lpInsert_def Let_def)
qed

lemma prepended_last_fails: "lpLast prepended_lp = None"
  by (simp add: lpLast_def lpPrev_def lpSkipPrev_def prepended_lp_def lpAssertValidEntry_def lpValidateNext_def lp_eval)

subsection \<open>Properties\<close>

text \<open>
  C13: the validator never reads outside the buffer of the given size, whatever the bytes are and
  whatever the callback answers, and it always returns; every listpack that represents a sequence
  is accepted, at both levels of checking.
\<close>

theorem lpValidateIntegrity_safe:
  assumes "sz \<le> length lp"
  shows "(\<exists>ok. lpValidateIntegrity lp sz deep cb user = Some ok) \<and>
    (\<forall>es. lp_rep lp es \<and> sz = length (body es) + 7 \<longrightarrow> lpValidateIntegrity lp sz deep None user = Some True)"
  using lpValidateIntegrity_total[OF assms, of deep cb user] lpValidateIntegrity_rep[of lp _ deep user] by simp

theorem lpValidateIntegrity_safe_witness:
  "lpValidateIntegrity example_lp (length (body example_payloads) + 7) True None () = Some True"
proof -
  have "length (body example_payloads) + 7 \<le> length example_lp" by (simp add: example_lp_def length_layout)
  from lpValidateIntegrity_safe[OF this, of True None "()"] show ?thesis using example_rep by blast
qed

text \<open>
  C36: an accepted listpack that an insertion makes unusable. The full validation accepts a
  listpack whose only entry has a backlen with a stray continuation bit; after an element has been
  prepended, \<open>lpLast\<close> decodes a wrong length and its assertion fails.
\<close>

theorem lpValidateIntegrity_noncanonical:
  "lpValidateIntegrity noncanonical_lp (length noncanonical_lp) True None () = Some True \<and>
   (\<exists>lp. lpPrepend example_alloc noncanonical_lp [97] = Some (Some lp) \<and> lpLast lp = None)"
proof -
  have "length noncanonical_lp = 9" by (simp add: noncanonical_lp_def)
  then show ?thesis using noncanonical_accepted noncanonical_prepend prepended_last_fails by simp
qed

end
