(* ===== verification/Skiplist.thy ===== *)
theory Skiplist
  imports Redis_Prelude "HOL-Library.Multiset" "HOL-Library.List_Lexorder" "HOL-Library.Product_Lexorder"
begin

text \<open>
  The skip list of sorted sets (\<^verbatim>\<open>t_zset.c\<close>, \<^verbatim>\<open>server.h\<close>): nodes on an explicit heap, with a tower of
  forward pointers and spans each.  A null or dangling dereference, an access outside a tower and a
  failed assertion are the value \<^term>\<open>None\<close>.

  Scores are doubles: a linearly ordered type of numbers and \<open>NaN\<close>, which compares with nothing.
  The string of a node is a field; the code embeds it in the allocation of the node and keeps its
  offset, with the number of levels, in the unused span of level 0.  The memory accounting
  (\<open>alloc_size\<close>) is not represented.  Addresses returned by the allocator and random numbers are
  arguments.
\<close>

subsection \<open>Data\<close>

datatype 's double = NaN | Num 's

fun double_less :: "'s::linorder double \<Rightarrow> 's double \<Rightarrow> bool" where
  "double_less (Num a) (Num b) \<longleftrightarrow> a < b"
| "double_less _ _ \<longleftrightarrow> False"

fun isnan :: "'s double \<Rightarrow> bool" where
  "isnan NaN \<longleftrightarrow> True"
| "isnan (Num _) \<longleftrightarrow> False"

type_synonym sds = bytes
type_synonym addr = nat

fun memcmp :: "bytes \<Rightarrow> bytes \<Rightarrow> int" where
  "memcmp (a # s) (b # t) = (if a < b then -1 else if a > b then 1 else memcmp s t)"
| "memcmp _ _ = 0"

definition sdscmp :: "sds \<Rightarrow> sds \<Rightarrow> int" where
  "sdscmp s1 s2 =
     (let l1 = length s1; l2 = length s2;
          minlen = (if l1 < l2 then l1 else l2);
          cmp = memcmp (take minlen s1) (take minlen s2)
      in if cmp = 0 then (if l1 > l2 then 1 else if l1 < l2 then -1 else 0) else cmp)"

record zskiplistLevel =
  forward :: "addr option"
  span :: u64

record 's zskiplistNode =
  score :: "'s double"
  backward :: "addr option"
  levels :: nat
  ele :: "sds option"
  level :: "zskiplistLevel list"

type_synonym 's zheap = "addr \<Rightarrow> 's zskiplistNode option"

record zskiplist =
  header :: addr
  tail :: "addr option"
  zlength :: u64
  zlevel :: nat

definition ZSKIPLIST_MAXLEVEL :: nat where "ZSKIPLIST_MAXLEVEL = 32"

subsection \<open>Access to nodes\<close>

definition level_at :: "'s zheap \<Rightarrow> addr \<Rightarrow> nat \<Rightarrow> zskiplistLevel option" where
  "level_at h x i = do { n \<leftarrow> h x; arr_get (level n) (int i) }"

definition set_level :: "'s zheap \<Rightarrow> addr \<Rightarrow> nat \<Rightarrow> (zskiplistLevel \<Rightarrow> zskiplistLevel) \<Rightarrow> 's zheap option" where
  "set_level h x i f =
     do { n \<leftarrow> h x; l \<leftarrow> arr_get (level n) (int i); ls \<leftarrow> arr_set (level n) (int i) (f l); Some (h(x \<mapsto> n\<lparr>level := ls\<rparr>)) }"

definition forward_at :: "'s zheap \<Rightarrow> addr \<Rightarrow> nat \<Rightarrow> addr option option" where
  "forward_at h x i = map_option forward (level_at h x i)"

definition set_forward :: "'s zheap \<Rightarrow> addr \<Rightarrow> nat \<Rightarrow> addr option \<Rightarrow> 's zheap option" where
  "set_forward h x i f = set_level h x i (\<lambda>l. l\<lparr>forward := f\<rparr>)"

definition set_node :: "'s zheap \<Rightarrow> addr \<Rightarrow> ('s zskiplistNode \<Rightarrow> 's zskiplistNode) \<Rightarrow> 's zheap option" where
  "set_node h x f = do { n \<leftarrow> h x; Some (h(x \<mapsto> f n)) }"

definition zslGetNodeSpanAtLevel :: "'s zheap \<Rightarrow> addr \<Rightarrow> nat \<Rightarrow> u64 option" where
  "zslGetNodeSpanAtLevel h x i =
     (if i > 0 then map_option span (level_at h x i)
      else map_option (\<lambda>f. if f \<noteq> None then 1 else 0) (forward_at h x 0))"

definition zslSetNodeSpanAtLevel :: "'s zheap \<Rightarrow> addr \<Rightarrow> nat \<Rightarrow> u64 \<Rightarrow> 's zheap option" where
  "zslSetNodeSpanAtLevel h x i s = (if i > 0 then set_level h x i (\<lambda>l. l\<lparr>span := s\<rparr>) else Some h)"

definition zslIncrNodeSpanAtLevel :: "'s zheap \<Rightarrow> addr \<Rightarrow> nat \<Rightarrow> u64 \<Rightarrow> 's zheap option" where
  "zslIncrNodeSpanAtLevel h x i incr = (if i > 0 then set_level h x i (\<lambda>l. l\<lparr>span := span l + incr\<rparr>) else Some h)"

definition zslDecrNodeSpanAtLevel :: "'s zheap \<Rightarrow> addr \<Rightarrow> nat \<Rightarrow> u64 \<Rightarrow> 's zheap option" where
  "zslDecrNodeSpanAtLevel h x i decr = (if i > 0 then set_level h x i (\<lambda>l. l\<lparr>span := span l - decr\<rparr>) else Some h)"

definition zslGetNodeElement :: "'s zheap \<Rightarrow> addr \<Rightarrow> sds option" where
  "zslGetNodeElement h x = do { n \<leftarrow> h x; ele n }"

definition zslCompareWithNode :: "'s::linorder zheap \<Rightarrow> 's double \<Rightarrow> sds \<Rightarrow> addr option \<Rightarrow> int option" where
  "zslCompareWithNode h sc e np =
     (case np of
        None \<Rightarrow> Some (-1)
      | Some p \<Rightarrow> do {
          n \<leftarrow> h p;
          if double_less sc (score n) then Some (-1)
          else if double_less (score n) sc then Some 1
          else do { e' \<leftarrow> zslGetNodeElement h p; Some (sdscmp e e') }
        })"

subsection \<open>Creation\<close>

definition zslCreateHeaderNode :: "'s::zero zskiplistNode" where
  "zslCreateHeaderNode =
     \<lparr>score = Num 0, backward = None, levels = ZSKIPLIST_MAXLEVEL, ele = None,
      level = replicate ZSKIPLIST_MAXLEVEL \<lparr>forward = None, span = 0\<rparr>\<rparr>"

definition zslCreate :: "'s::zero zheap \<Rightarrow> addr \<Rightarrow> ('s zheap \<times> zskiplist) option" where
  "zslCreate h a =
     (if h a \<noteq> None then None
      else Some (h(a \<mapsto> zslCreateHeaderNode), \<lparr>header = a, tail = None, zlength = 0, zlevel = 1\<rparr>))"

text \<open>The tower of a new node is uninitialised: \<open>junk\<close> stands for its contents.\<close>

definition zslCreateNode ::
  "'s zheap \<Rightarrow> addr \<Rightarrow> (nat \<Rightarrow> zskiplistLevel) \<Rightarrow> nat \<Rightarrow> 's double \<Rightarrow> sds \<Rightarrow> 's zheap option" where
  "zslCreateNode h a junk lv sc e =
     (if h a \<noteq> None then None
      else Some (h(a \<mapsto> \<lparr>score = sc, backward = None, levels = lv, ele = Some e, level = map junk [0..<lv]\<rparr>)))"

text \<open>The random numbers, of which the loop takes as many as it needs; \<open>ZSKIPLIST_P * RAND_MAX\<close> is 536870911.\<close>

primrec zslRandomLevel_loop :: "nat list \<Rightarrow> nat \<Rightarrow> nat option" where
  "zslRandomLevel_loop [] lv = None"
| "zslRandomLevel_loop (r # rs) lv = (if r < 536870911 then zslRandomLevel_loop rs (lv + 1) else Some lv)"

definition zslRandomLevel :: "nat list \<Rightarrow> nat option" where
  "zslRandomLevel rs =
     do { lv \<leftarrow> zslRandomLevel_loop rs 1; Some (if lv < ZSKIPLIST_MAXLEVEL then lv else ZSKIPLIST_MAXLEVEL) }"

subsection \<open>Search\<close>

text \<open>
  The inner loop of the searches: walk along level \<open>i\<close> while the condition on the next node holds, adding up
  the spans.  The condition sees the next node, the sum so far and the span to the next node.
\<close>

type_synonym zsl_cond = "addr option \<Rightarrow> u64 \<Rightarrow> u64 \<Rightarrow> bool option"

partial_function (option) zsl_walk :: "zsl_cond \<Rightarrow> 's zheap \<Rightarrow> nat \<Rightarrow> addr \<Rightarrow> u64 \<Rightarrow> (addr \<times> u64) option" where
  "zsl_walk cond h i x rank =
     do {
       next \<leftarrow> forward_at h x i;
       sp \<leftarrow> zslGetNodeSpanAtLevel h x i;
       c \<leftarrow> cond next rank sp;
       if c then do { y \<leftarrow> next; zsl_walk cond h i y (rank + sp) } else Some (x, rank)
     }"

text \<open>The loop over the levels from top to bottom; element \<open>i\<close> of the result is \<open>update[i]\<close> and \<open>rank[i]\<close>.\<close>

primrec zsl_search :: "zsl_cond \<Rightarrow> 's zheap \<Rightarrow> nat \<Rightarrow> addr \<Rightarrow> u64 \<Rightarrow> (addr \<times> u64) list option" where
  "zsl_search cond h 0 x rank = Some []"
| "zsl_search cond h (Suc i) x rank =
     do {
       (x, rank) \<leftarrow> zsl_walk cond h i x rank;
       update \<leftarrow> zsl_search cond h i x rank;
       Some (update @ [(x, rank)])
     }"

definition cmp_cond :: "'s::linorder zheap \<Rightarrow> 's double \<Rightarrow> sds \<Rightarrow> zsl_cond" where
  "cmp_cond h sc e next rank sp = do { c \<leftarrow> zslCompareWithNode h sc e next; Some (c > 0) }"

subsection \<open>Insertion\<close>

text \<open>A \<open>for\<close> loop over the indices.\<close>

primrec for_loop :: "('i \<Rightarrow> 'h \<Rightarrow> 'h option) \<Rightarrow> 'i list \<Rightarrow> 'h \<Rightarrow> 'h option" where
  "for_loop body [] h = Some h"
| "for_loop body (i # is) h = do { h \<leftarrow> body i h; for_loop body is h }"

definition insert_link :: "addr \<Rightarrow> (addr \<times> u64) list \<Rightarrow> nat \<Rightarrow> 's zheap \<Rightarrow> 's zheap option" where
  "insert_link node update i h =
     do {
       (u, rank_i) \<leftarrow> arr_get update (int i);
       (_, rank_0) \<leftarrow> arr_get update 0;
       f \<leftarrow> forward_at h u i;
       h \<leftarrow> set_forward h node i f;
       h \<leftarrow> set_forward h u i (Some node);
       s \<leftarrow> zslGetNodeSpanAtLevel h u i;
       h \<leftarrow> zslSetNodeSpanAtLevel h node i (s - (rank_0 - rank_i));
       zslSetNodeSpanAtLevel h u i ((rank_0 - rank_i) + 1)
     }"

definition incr_link :: "(addr \<times> u64) list \<Rightarrow> nat \<Rightarrow> 's zheap \<Rightarrow> 's zheap option" where
  "incr_link update i h = do { (u, _) \<leftarrow> arr_get update (int i); zslIncrNodeSpanAtLevel h u i 1 }"

definition zslInsertNode :: "'s::linorder zheap \<Rightarrow> zskiplist \<Rightarrow> addr \<Rightarrow> ('s zheap \<times> zskiplist) option" where
  "zslInsertNode h zsl node =
     do {
       n \<leftarrow> h node;
       e \<leftarrow> zslGetNodeElement h node;
       let lv = levels n;
       if isnan (score n) then None
       else do {
         update \<leftarrow> zsl_search (cmp_cond h (score n) e) h (zlevel zsl) (header zsl) 0;
         (h, zsl, update) \<leftarrow>
           (if lv > zlevel zsl then do {
              h \<leftarrow> for_loop (\<lambda>i h. zslSetNodeSpanAtLevel h (header zsl) i (zlength zsl)) [zlevel zsl..<lv] h;
              h \<leftarrow> set_node h (header zsl) (\<lambda>n. n\<lparr>levels := lv\<rparr>);
              Some (h, zsl\<lparr>zlevel := lv\<rparr>, update @ replicate (lv - zlevel zsl) (header zsl, 0))
            } else Some (h, zsl, update));
         h \<leftarrow> for_loop (insert_link node update) [0..<lv] h;
         h \<leftarrow> for_loop (incr_link update) [lv..<zlevel zsl] h;
         (u0, _) \<leftarrow> arr_get update 0;
         h \<leftarrow> set_node h node (\<lambda>n. n\<lparr>backward := (if u0 = header zsl then None else Some u0)\<rparr>);
         f \<leftarrow> forward_at h node 0;
         (h, zsl) \<leftarrow>
           (case f of
              Some q \<Rightarrow> do { h \<leftarrow> set_node h q (\<lambda>n. n\<lparr>backward := Some node\<rparr>); Some (h, zsl) }
            | None \<Rightarrow> Some (h, zsl\<lparr>tail := Some node\<rparr>));
         Some (h, zsl\<lparr>zlength := zlength zsl + 1\<rparr>)
       }
     }"

definition zslInsert ::
  "'s::linorder zheap \<Rightarrow> zskiplist \<Rightarrow> nat list \<Rightarrow> addr \<Rightarrow> (nat \<Rightarrow> zskiplistLevel) \<Rightarrow> 's double \<Rightarrow> sds \<Rightarrow>
   ('s zheap \<times> zskiplist \<times> addr) option" where
  "zslInsert h zsl rs a junk sc e =
     (if isnan sc then None
      else do {
        lv \<leftarrow> zslRandomLevel rs;
        h \<leftarrow> zslCreateNode h a junk lv sc e;
        (h, zsl) \<leftarrow> zslInsertNode h zsl a;
        Some (h, zsl, a)
      })"

subsection \<open>Deletion\<close>

definition unlink_link :: "addr \<Rightarrow> (addr \<times> u64) list \<Rightarrow> nat \<Rightarrow> 's zheap \<Rightarrow> 's zheap option" where
  "unlink_link x update i h =
     do {
       (u, _) \<leftarrow> arr_get update (int i);
       f \<leftarrow> forward_at h u i;
       if f = Some x then do {
         s \<leftarrow> zslGetNodeSpanAtLevel h x i;
         h \<leftarrow> zslIncrNodeSpanAtLevel h u i (s - 1);
         fx \<leftarrow> forward_at h x i;
         set_forward h u i fx
       } else zslDecrNodeSpanAtLevel h u i 1
     }"

text \<open>The loop that drops empty levels at the top.\<close>

fun drop_levels :: "'s zheap \<Rightarrow> addr \<Rightarrow> nat \<Rightarrow> ('s zheap \<times> nat) option" where
  "drop_levels h hdr (Suc (Suc l)) =
     do {
       f \<leftarrow> forward_at h hdr (Suc l);
       if f = None then do { h \<leftarrow> set_level h hdr (Suc l) (\<lambda>lv. lv\<lparr>span := 0\<rparr>); drop_levels h hdr (Suc l) }
       else Some (h, Suc (Suc l))
     }"
| "drop_levels h hdr l = Some (h, l)"

definition zslUnlinkNode ::
  "'s zheap \<Rightarrow> zskiplist \<Rightarrow> addr \<Rightarrow> (addr \<times> u64) list \<Rightarrow> ('s zheap \<times> zskiplist) option" where
  "zslUnlinkNode h zsl x update =
     do {
       h \<leftarrow> for_loop (unlink_link x update) [0..<zlevel zsl] h;
       f \<leftarrow> forward_at h x 0;
       n \<leftarrow> h x;
       (h, zsl) \<leftarrow>
         (case f of
            Some q \<Rightarrow> do { h \<leftarrow> set_node h q (\<lambda>m. m\<lparr>backward := backward n\<rparr>); Some (h, zsl) }
          | None \<Rightarrow> Some (h, zsl\<lparr>tail := backward n\<rparr>));
       (h, l) \<leftarrow> drop_levels h (header zsl) (zlevel zsl);
       Some (h, zsl\<lparr>zlevel := l, zlength := zlength zsl - 1\<rparr>)
     }"

definition zslFreeNode :: "'s zheap \<Rightarrow> addr \<Rightarrow> 's zheap option" where
  "zslFreeNode h x = (if h x = None then None else Some (h(x := None)))"

text \<open>\<open>zslFree\<close>: the header and then every node, along level 0; the list structure itself is not on the heap.\<close>

partial_function (option) zslFree_loop :: "'s zheap \<Rightarrow> addr option \<Rightarrow> 's zheap option" where
  "zslFree_loop h node =
     (case node of
        None \<Rightarrow> Some h
      | Some x \<Rightarrow> do {
          next \<leftarrow> forward_at h x 0;
          h \<leftarrow> zslFreeNode h x;
          zslFree_loop h next
        })"

definition zslFree :: "'s zheap \<Rightarrow> zskiplist \<Rightarrow> 's zheap option" where
  "zslFree h zsl =
     do {
       node \<leftarrow> forward_at h (header zsl) 0;
       h \<leftarrow> zslFreeNode h (header zsl);
       zslFree_loop h node
     }"

text \<open>
  The search for a node by its own score and element, shared by \<open>zslDelete\<close> and \<open>zslUpdateScore\<close>, with
  the assertion that it is found.
\<close>

definition zslFind :: "'s::linorder zheap \<Rightarrow> zskiplist \<Rightarrow> addr \<Rightarrow> (addr \<times> u64) list option" where
  "zslFind h zsl node =
     do {
       n \<leftarrow> h node;
       e \<leftarrow> zslGetNodeElement h node;
       update \<leftarrow> zsl_search (cmp_cond h (score n) e) h (zlevel zsl) (header zsl) 0;
       (x, _) \<leftarrow> arr_get update 0;
       f \<leftarrow> forward_at h x 0;
       if f = Some node then Some update else None
     }"

definition zslDelete :: "'s::linorder zheap \<Rightarrow> zskiplist \<Rightarrow> addr \<Rightarrow> ('s zheap \<times> zskiplist) option" where
  "zslDelete h zsl node =
     do {
       update \<leftarrow> zslFind h zsl node;
       (h, zsl) \<leftarrow> zslUnlinkNode h zsl node update;
       h \<leftarrow> zslFreeNode h node;
       Some (h, zsl)
     }"

definition zslUpdateScore :: "'s::linorder zheap \<Rightarrow> zskiplist \<Rightarrow> addr \<Rightarrow> 's double \<Rightarrow> ('s zheap \<times> zskiplist) option" where
  "zslUpdateScore h zsl node newscore =
     do {
       n \<leftarrow> h node;
       f \<leftarrow> forward_at h node 0;
       low \<leftarrow> (case backward n of None \<Rightarrow> Some True | Some b \<Rightarrow> do { m \<leftarrow> h b; Some (double_less (score m) newscore) });
       high \<leftarrow> (case f of None \<Rightarrow> Some True | Some b \<Rightarrow> do { m \<leftarrow> h b; Some (double_less newscore (score m)) });
       if low \<and> high then do { h \<leftarrow> set_node h node (\<lambda>n. n\<lparr>score := newscore\<rparr>); Some (h, zsl) }
       else do {
         update \<leftarrow> zslFind h zsl node;
         (h, zsl) \<leftarrow> zslUnlinkNode h zsl node update;
         h \<leftarrow> set_node h node (\<lambda>n. n\<lparr>score := newscore\<rparr>);
         zslInsertNode h zsl node
       }
     }"

subsection \<open>Ranks\<close>

primrec zslGetRank_loop :: "'s::linorder zheap \<Rightarrow> addr \<Rightarrow> 's double \<Rightarrow> sds \<Rightarrow> nat \<Rightarrow> addr \<Rightarrow> u64 \<Rightarrow> u64 option" where
  "zslGetRank_loop h hdr sc e 0 x rank = Some 0"
| "zslGetRank_loop h hdr sc e (Suc i) x rank =
     do {
       (x, rank) \<leftarrow> zsl_walk (\<lambda>next _ _. do { c \<leftarrow> zslCompareWithNode h sc e next; Some (c \<ge> 0) }) h i x rank;
       c \<leftarrow> (if x = hdr then Some 1 else zslCompareWithNode h sc e (Some x));
       if x \<noteq> hdr \<and> c = 0 then Some rank else zslGetRank_loop h hdr sc e i x rank
     }"

definition zslGetRank :: "'s::linorder zheap \<Rightarrow> zskiplist \<Rightarrow> 's double \<Rightarrow> sds \<Rightarrow> u64 option" where
  "zslGetRank h zsl sc e = zslGetRank_loop h (header zsl) sc e (zlevel zsl) (header zsl) 0"

partial_function (option) rank_walk :: "'s zheap \<Rightarrow> addr option \<Rightarrow> u64 \<Rightarrow> u64 option" where
  "rank_walk h xp distance =
     (case xp of
        None \<Rightarrow> Some distance
      | Some x \<Rightarrow> do {
          n \<leftarrow> h x;
          let lv = levels n - 1;
          s \<leftarrow> zslGetNodeSpanAtLevel h x lv;
          f \<leftarrow> forward_at h x lv;
          rank_walk h f (distance + s)
        })"

definition zslGetRankByNode :: "'s zheap \<Rightarrow> zskiplist \<Rightarrow> addr option \<Rightarrow> u64 option" where
  "zslGetRankByNode h zsl x = do { d \<leftarrow> rank_walk h x 0; Some (zlength zsl - d) }"

definition rank_cond :: "u64 \<Rightarrow> zsl_cond" where
  "rank_cond rank next traversed sp = Some (next \<noteq> None \<and> traversed + sp \<le> rank)"

text \<open>The levels from \<open>start_level\<close> down: the argument counts them.\<close>

primrec byRank_loop :: "'s zheap \<Rightarrow> u64 \<Rightarrow> nat \<Rightarrow> addr \<Rightarrow> u64 \<Rightarrow> addr option option" where
  "byRank_loop h rank 0 x traversed = Some None"
| "byRank_loop h rank (Suc i) x traversed =
     do {
       (x, traversed) \<leftarrow> zsl_walk (rank_cond rank) h i x traversed;
       if traversed = rank then Some (Some x) else byRank_loop h rank i x traversed
     }"

definition zslGetElementByRankFromNode :: "'s zheap \<Rightarrow> addr \<Rightarrow> nat \<Rightarrow> u64 \<Rightarrow> addr option option" where
  "zslGetElementByRankFromNode h start_node start_level rank = byRank_loop h rank (Suc start_level) start_node 0"

definition zslGetElementByRank :: "'s zheap \<Rightarrow> zskiplist \<Rightarrow> u64 \<Rightarrow> addr option option" where
  "zslGetElementByRank h zsl rank = zslGetElementByRankFromNode h (header zsl) (zlevel zsl - 1) rank"

end
