(* ===== verification/Skiplist_Rep.thy ===== *)
theory Skiplist_Rep
  imports Skiplist
begin

text \<open>
  The shape of a skip list: which node comes next at a level, where a search at a level stops, and
  the predicate \<open>towers\<close> that ties forward pointers and spans on the heap to a list of heights. The
  searches are shown to return, with the last node before a position on every level.
\<close>

subsection \<open>Successors in a list of tower heights\<close>

text \<open>The next position after \<open>j\<close> whose tower reaches level \<open>i\<close>.\<close>

definition nxt :: "nat list \<Rightarrow> nat \<Rightarrow> nat \<Rightarrow> nat option" where
  "nxt lvs i j = find (\<lambda>k. i < lvs ! k) [Suc j..<length lvs]"

definition is_nxt :: "nat list \<Rightarrow> nat \<Rightarrow> nat \<Rightarrow> nat option \<Rightarrow> bool" where
  "is_nxt lvs i j ko \<longleftrightarrow>
     (case ko of
        Some k \<Rightarrow> j < k \<and> k < length lvs \<and> i < lvs ! k \<and> (\<forall>m. j < m \<longrightarrow> m < k \<longrightarrow> lvs ! m \<le> i)
      | None \<Rightarrow> \<forall>m. j < m \<longrightarrow> m < length lvs \<longrightarrow> lvs ! m \<le> i)"

lemma nxt_is: "is_nxt lvs i j (nxt lvs i j)"
proof (cases "nxt lvs i j")
  case None
  then have "\<forall>m. j < m \<longrightarrow> m < length lvs \<longrightarrow> lvs ! m \<le> i" by (auto simp: nxt_def find_None_iff)
  then show ?thesis using None by (simp add: is_nxt_def)
next
  case (Some k)
  then obtain n where n: "n < length lvs - Suc j" "i < lvs ! (Suc j + n)" "k = Suc j + n" "\<forall>m<n. \<not> i < lvs ! (Suc j + m)"
    unfolding nxt_def find_Some_iff by auto
  have "lvs ! m \<le> i" if "j < m" "m < k" for m
  proof -
    have "m - Suc j < n" "Suc j + (m - Suc j) = m" using that n(3) by auto
    then show ?thesis using n(4) by (metis not_less)
  qed
  then show ?thesis using Some n by (auto simp: is_nxt_def)
qed

lemma is_nxt_unique:
  assumes "is_nxt lvs i j a" "is_nxt lvs i j b"
  shows "a = b"
proof (cases a; cases b)
  fix k l assume ab: "a = Some k" "b = Some l"
  have "\<not> k < l" using assms unfolding ab is_nxt_def by fastforce
  moreover have "\<not> l < k" using assms unfolding ab is_nxt_def by fastforce
  ultimately show "a = b" using ab by simp
qed (use assms in \<open>auto simp: is_nxt_def dest: leD\<close>)

lemma nxt_eqI: "is_nxt lvs i j ko \<Longrightarrow> nxt lvs i j = ko"
  using is_nxt_unique[OF nxt_is] by blast

lemma nxt_Some: "nxt lvs i j = Some k \<Longrightarrow> j < k \<and> k < length lvs \<and> i < lvs ! k"
  using nxt_is[of lvs i j] by (simp add: is_nxt_def)

text \<open>The last position up to \<open>r\<close> whose tower reaches level \<open>i\<close>.\<close>

primrec prv :: "nat list \<Rightarrow> nat \<Rightarrow> nat \<Rightarrow> nat" where
  "prv lvs i 0 = 0"
| "prv lvs i (Suc r) = (if i < lvs ! Suc r then Suc r else prv lvs i r)"

lemma prv_le: "prv lvs i r \<le> r"
  by (induction r) auto

lemma prv_level: "i < lvs ! 0 \<Longrightarrow> i < lvs ! prv lvs i r"
  by (induction r) auto

lemma prv_between: "prv lvs i r < m \<Longrightarrow> m \<le> r \<Longrightarrow> lvs ! m \<le> i"
  by (induction r) (auto simp: le_Suc_eq split: if_splits)

lemma prv_eqI:
  assumes "j \<le> r" "i < lvs ! j" "\<forall>m. j < m \<longrightarrow> m \<le> r \<longrightarrow> lvs ! m \<le> i"
  shows "prv lvs i r = j"
  using assms
proof (induction r)
  case (Suc r)
  show ?case
  proof (cases "j = Suc r")
    case False
    then have lv: "lvs ! Suc r \<le> i" "j \<le> r" using Suc.prems by auto
    then have "prv lvs i r = j" using Suc.IH Suc.prems by simp
    then show ?thesis using lv(1) by (simp add: not_less)
  qed (use Suc.prems in simp)
qed simp



lemma prv_nxt_le:
  assumes "j \<le> r" "nxt lvs i j = Some k" "k \<le> r"
  shows "k \<le> prv lvs i r"
proof (rule ccontr)
  assume "\<not> k \<le> prv lvs i r"
  then have "lvs ! k \<le> i" using prv_between[of lvs i r k] assms(3) by simp
  then show False using nxt_Some[OF assms(2)] by simp
qed

lemma prv_nxt_greater:
  assumes "j \<le> r" "i < lvs ! j" "r < length lvs" "case nxt lvs i j of Some k \<Rightarrow> r < k | None \<Rightarrow> True"
  shows "prv lvs i r = j"
proof (rule prv_eqI[OF assms(1,2)], intro allI impI)
  fix m assume m: "j < m" "m \<le> r"
  then show "lvs ! m \<le> i"
    using nxt_is[of lvs i j] assms(3,4) by (auto simp: is_nxt_def split: option.splits)
qed

text \<open>Nothing between \<open>prv\<close> and \<open>r\<close> reaches the level, so both have the same successor.\<close>

lemma nxt_of_prv: "nxt lvs i (prv lvs i r) = nxt lvs i r"
proof (rule nxt_eqI)
  show "is_nxt lvs i (prv lvs i r) (nxt lvs i r)"
  proof (cases "nxt lvs i r")
    case None
    then have "lvs ! m \<le> i" if "r < m" "m < length lvs" for m using nxt_is[of lvs i r] that by (simp add: is_nxt_def)
    then show ?thesis using None prv_between[of lvs i r] by (auto simp: is_nxt_def) (metis not_le)
  next
    case (Some k)
    then have k: "r < k" "k < length lvs" "i < lvs ! k" "\<And>m. r < m \<Longrightarrow> m < k \<Longrightarrow> lvs ! m \<le> i"
      using nxt_is[of lvs i r] by (auto simp: is_nxt_def)
    have "lvs ! m \<le> i" if "prv lvs i r < m" "m < k" for m
      using prv_between[of lvs i r m] k(4)[of m] that by (cases "m \<le> r") auto
    then show ?thesis using Some k prv_le[of lvs i r] by (auto simp: is_nxt_def)
  qed
qed

subsection \<open>Insertion into a list\<close>

definition ins_at :: "nat \<Rightarrow> 'a \<Rightarrow> 'a list \<Rightarrow> 'a list" where
  "ins_at n x xs = take n xs @ x # drop n xs"

lemma length_ins_at [simp]: "n \<le> length xs \<Longrightarrow> length (ins_at n x xs) = Suc (length xs)"
  by (simp add: ins_at_def)

lemma nth_ins_at:
  assumes "n \<le> length xs"
  shows "ins_at n x xs ! m = (if m < n then xs ! m else if m = n then x else xs ! (m - 1))"
  using assms by (auto simp: ins_at_def nth_append min_def nth_Cons' nth_drop)

lemma ins_at_Suc_Cons [simp]: "ins_at (Suc n) x (y # xs) = y # ins_at n x xs"
  by (simp add: ins_at_def)

lemma map_ins_at: "map f (ins_at n x xs) = ins_at n (f x) (map f xs)"
  by (simp add: ins_at_def take_map drop_map)

lemma set_ins_at: "set (ins_at n x xs) = insert x (set xs)"
proof -
  have "set (ins_at n x xs) = insert x (set (take n xs) \<union> set (drop n xs))" by (simp add: ins_at_def)
  then show ?thesis by (simp only: set_append[symmetric] append_take_drop_id)
qed

lemma distinct_ins_at: "distinct (ins_at n x xs) \<longleftrightarrow> x \<notin> set xs \<and> distinct xs"
proof -
  have "mset (ins_at n x xs) = mset (x # xs)" by (simp add: ins_at_def) (metis append_take_drop_id mset_append union_mset_add_mset_right)
  then show ?thesis using mset_eq_imp_distinct_iff[of "ins_at n x xs" "x # xs"] by simp
qed

lemma nxt_ins_right:
  assumes "r < length lvs" "r \<le> j"
  shows "nxt (ins_at (Suc r) l lvs) i (Suc j) = map_option Suc (nxt lvs i j)"
proof (rule nxt_eqI)
  have nth: "ins_at (Suc r) l lvs ! Suc m = lvs ! m" if "r < m" for m using that assms(1) by (simp add: nth_ins_at)
  show "is_nxt (ins_at (Suc r) l lvs) i (Suc j) (map_option Suc (nxt lvs i j))"
  proof (cases "nxt lvs i j")
    case None
    have "ins_at (Suc r) l lvs ! m \<le> i" if "Suc j < m" "m < Suc (length lvs)" for m
      using that nxt_is[of lvs i j] None nth[of "m - 1"] assms(2) by (auto simp: is_nxt_def)
    then show ?thesis using None assms(1) by (simp add: is_nxt_def)
  next
    case (Some k)
    then have k: "j < k" "k < length lvs" "i < lvs ! k" "\<And>m. j < m \<Longrightarrow> m < k \<Longrightarrow> lvs ! m \<le> i"
      using nxt_is[of lvs i j] by (auto simp: is_nxt_def)
    have "ins_at (Suc r) l lvs ! m \<le> i" if "Suc j < m" "m < Suc k" for m
      using that k(4)[of "m - 1"] nth[of "m - 1"] assms(2) by auto
    then show ?thesis using Some k assms nth[of k] by (simp add: is_nxt_def)
  qed
qed

lemma nxt_ins_left:
  assumes "r < length lvs" "j \<le> r"
  shows "nxt (ins_at (Suc r) l lvs) i j =
    (case nxt lvs i j of
       Some k \<Rightarrow> if k \<le> r then Some k else if i < l then Some (Suc r) else Some (Suc k)
     | None \<Rightarrow> if i < l then Some (Suc r) else None)"
proof (rule nxt_eqI)
  let ?l = "ins_at (Suc r) l lvs"
  have nth: "?l ! m = (if m \<le> r then lvs ! m else if m = Suc r then l else lvs ! (m - 1))" for m
    using assms(1) by (auto simp: nth_ins_at less_Suc_eq_le)
  have len: "length ?l = Suc (length lvs)" using assms(1) by simp
  show "is_nxt ?l i j (case nxt lvs i j of
       Some k \<Rightarrow> if k \<le> r then Some k else if i < l then Some (Suc r) else Some (Suc k)
     | None \<Rightarrow> if i < l then Some (Suc r) else None)"
  proof (cases "nxt lvs i j")
    case None
    then have "lvs ! m \<le> i" if "j < m" "m < length lvs" for m using nxt_is[of lvs i j] that by (simp add: is_nxt_def)
    then show ?thesis using None assms by (auto simp: is_nxt_def nth len)
  next
    case (Some k)
    then have k: "j < k" "k < length lvs" "i < lvs ! k" "\<And>m. j < m \<Longrightarrow> m < k \<Longrightarrow> lvs ! m \<le> i"
      using nxt_is[of lvs i j] by (auto simp: is_nxt_def)
    consider "k \<le> r" | "r < k" "i < l" | "r < k" "l \<le> i" by linarith
    then show ?thesis
    proof cases
      case 3
      have "?l ! m \<le> i" if "j < m" "m < Suc k" for m
        using that 3 k(4)[of m] k(4)[of "m - 1"] assms(2) by (auto simp: nth)
      then show ?thesis using Some k 3 by (simp add: is_nxt_def nth len)
    qed (use Some k assms in \<open>auto simp: is_nxt_def nth len\<close>)
  qed
qed


subsection \<open>Towers\<close>

text \<open>The distance to the next node at a level, or to the end of the list.\<close>

definition dist :: "nat list \<Rightarrow> nat \<Rightarrow> nat \<Rightarrow> nat" where
  "dist lvs i j = (case nxt lvs i j of Some k \<Rightarrow> k - j | None \<Rightarrow> length lvs - 1 - j)"

text \<open>
  The nodes \<open>qs\<close>, header first, with towers of the heights \<open>lvs\<close>: every forward pointer leads to the
  next node that is high enough, and below the level of the list the spans are the distances.
\<close>

definition towers :: "'s zheap \<Rightarrow> nat \<Rightarrow> addr list \<Rightarrow> nat list \<Rightarrow> bool" where
  "towers h L qs lvs \<longleftrightarrow> length lvs = length qs \<and>
     (\<forall>j < length qs. \<forall>i < lvs ! j. \<exists>l. level_at h (qs ! j) i = Some l \<and>
        forward l = map_option ((!) qs) (nxt lvs i j) \<and> (0 < i \<and> i < L \<longrightarrow> span l = of_nat (dist lvs i j)))"

definition heights_ok :: "nat \<Rightarrow> nat list \<Rightarrow> bool" where
  "heights_ok L lvs \<longleftrightarrow> lvs \<noteq> [] \<and> lvs ! 0 = ZSKIPLIST_MAXLEVEL \<and> 1 \<le> L \<and> L \<le> ZSKIPLIST_MAXLEVEL \<and>
     (\<forall>k. 0 < k \<longrightarrow> k < length lvs \<longrightarrow> 1 \<le> lvs ! k \<and> lvs ! k \<le> L)"

lemma heights_pos: "heights_ok L lvs \<Longrightarrow> k < length lvs \<Longrightarrow> 0 < lvs ! k"
  unfolding heights_ok_def ZSKIPLIST_MAXLEVEL_def by (cases "k = 0") (simp, meson less_le_trans not_gr0 zero_less_one)

lemma nxt_0:
  assumes "heights_ok L lvs" "j < length lvs"
  shows "nxt lvs 0 j = (if Suc j < length lvs then Some (Suc j) else None)"
  using heights_pos[OF assms(1)] assms(2) by (intro nxt_eqI) (auto simp: is_nxt_def)

lemma towers_forward:
  assumes "towers h L qs lvs" "j < length qs" "i < lvs ! j"
  shows "forward_at h (qs ! j) i = Some (map_option ((!) qs) (nxt lvs i j))"
  using assms unfolding towers_def forward_at_def by fastforce

lemma towers_span:
  assumes "towers h L qs lvs" "heights_ok L lvs" "j < length qs" "i < lvs ! j" "i < L"
  shows "zslGetNodeSpanAtLevel h (qs ! j) i = Some (of_nat (dist lvs i j))"
proof (cases "i = 0")
  case True
  have "length lvs = length qs" using assms(1) by (simp add: towers_def)
  then have "nxt lvs 0 j = (if Suc j < length qs then Some (Suc j) else None)" "dist lvs 0 j = (if Suc j < length qs then 1 else 0)"
    using nxt_0[OF assms(2), of j] assms(3) by (simp_all add: dist_def)
  then show ?thesis
    using True towers_forward[OF assms(1,3,4)] by (simp add: zslGetNodeSpanAtLevel_def)
next
  case False
  obtain l where "level_at h (qs ! j) i = Some l" "span l = of_nat (dist lvs i j)"
    using assms(1,3-5) False unfolding towers_def by blast
  then show ?thesis using False by (simp add: zslGetNodeSpanAtLevel_def)
qed

text \<open>
  A search condition that stops after position \<open>r\<close>: it holds for the next node exactly when its
  position is at most \<open>r\<close>.
\<close>

definition cond_upto :: "zsl_cond \<Rightarrow> addr list \<Rightarrow> nat \<Rightarrow> bool" where
  "cond_upto cond qs r \<longleftrightarrow> (\<forall>rank sp. cond None rank sp = Some False) \<and>
     (\<forall>j k. j < k \<longrightarrow> k < length qs \<longrightarrow> cond (Some (qs ! k)) (of_nat j) (of_nat (k - j)) = Some (k \<le> r))"

lemma walk_upto:
  assumes "towers h L qs lvs" "heights_ok L lvs" "cond_upto cond qs r" "i < L" "r < length qs"
    "j \<le> r" "i < lvs ! j"
  shows "zsl_walk cond h i (qs ! j) (of_nat j) = Some (qs ! prv lvs i r, of_nat (prv lvs i r))"
  using assms(6,7)
proof (induction "r - j" arbitrary: j rule: less_induct)
  case less
  have len: "length lvs = length qs" using assms(1) by (simp add: towers_def)
  have j: "j < length qs" using less.prems(1) assms(5) by simp
  note f = towers_forward[OF assms(1) j less.prems(2)] and s = towers_span[OF assms(1,2) j less.prems(2) assms(4)]
  show ?case
  proof (cases "nxt lvs i j")
    case None
    then have "prv lvs i r = j" using prv_nxt_greater[OF less.prems] assms(5) len by simp
    then show ?thesis using None f s assms(3) by (subst zsl_walk.simps) (simp add: cond_upto_def)
  next
    case (Some k)
    note k = nxt_Some[OF Some]
    have c: "cond (Some (qs ! k)) (of_nat j) (of_nat (dist lvs i j)) = Some (k \<le> r)"
      using assms(3) k Some len by (simp add: cond_upto_def dist_def)
    show ?thesis
    proof (cases "k \<le> r")
      case True
      have sum: "(of_nat j :: u64) + of_nat (dist lvs i j) = of_nat k"
        using k Some by (simp add: dist_def flip: of_nat_add)
      have "zsl_walk cond h i (qs ! k) (of_nat k) = Some (qs ! prv lvs i r, of_nat (prv lvs i r))"
      proof (rule less.hyps)
        show "r - k < r - j" using True k by linarith
      qed (use True k in simp_all)
      then show ?thesis using Some f s c True sum by (subst zsl_walk.simps) simp
    next
      case False
      then have "prv lvs i r = j" using prv_nxt_greater[OF less.prems] assms(5) len Some by simp
      then show ?thesis using Some f s c False by (subst zsl_walk.simps) simp
    qed
  qed
qed

lemma search_upto:
  assumes "towers h L qs lvs" "heights_ok L lvs" "cond_upto cond qs r" "r < length qs"
    "n \<le> L" "j \<le> r" "n \<le> lvs ! j"
  shows "zsl_search cond h n (qs ! j) (of_nat j) = Some (map (\<lambda>i. (qs ! prv lvs i r, of_nat (prv lvs i r))) [0..<n])"
  using assms(5-7)
proof (induction n arbitrary: j)
  case (Suc n)
  have "n < lvs ! 0" using Suc.prems(1) assms(2) by (simp add: heights_ok_def)
  then have up: "n \<le> lvs ! prv lvs n r" using prv_level[of n lvs r] by simp
  have "zsl_walk cond h n (qs ! j) (of_nat j) = Some (qs ! prv lvs n r, of_nat (prv lvs n r))"
    using Suc.prems by (intro walk_upto[OF assms(1-3) _ assms(4)]) simp_all
  moreover have "zsl_search cond h n (qs ! prv lvs n r) (of_nat (prv lvs n r)) =
      Some (map (\<lambda>i. (qs ! prv lvs i r, of_nat (prv lvs i r))) [0..<n])"
    using Suc.prems(1) by (intro Suc.IH prv_le up) simp
  ultimately show ?case by simp
qed simp

end
