(* ===== verification/Skiplist_Heap.thy ===== *)
theory Skiplist_Heap
  imports Skiplist_Rep
begin

text \<open>
  How the assignments of the code change the heap: each of them replaces one level of one tower, or the
  fields outside the tower, and a loop over the levels changes each level by itself.
\<close>

subsection \<open>Heap updates, level by level\<close>

text \<open>A node without its tower, and the height of the tower.\<close>

definition bare :: "'s zheap \<Rightarrow> addr \<Rightarrow> ('s zskiplistNode \<times> nat) option" where
  "bare h x = map_option (\<lambda>n. (n\<lparr>level := []\<rparr>, length (level n))) (h x)"

lemma level_at_conv: "level_at h x i = (case h x of None \<Rightarrow> None | Some n \<Rightarrow> if i < length (level n) then Some (level n ! i) else None)"
  by (cases "h x") (simp_all add: level_at_def arr_get_def)

lemma set_level_ok:
  assumes "level_at h x i = Some l"
  shows "\<exists>h'. set_level h x i f = Some h' \<and> bare h' = bare h \<and>
    level_at h' = (\<lambda>y j. if y = x \<and> j = i then Some (f l) else level_at h y j)"
proof -
  obtain n where n: "h x = Some n" "i < length (level n)" "level n ! i = l"
    using assms by (auto simp: level_at_conv split: option.splits if_splits)
  let ?h = "h(x \<mapsto> n\<lparr>level := (level n)[i := f l]\<rparr>)"
  have "set_level h x i f = Some ?h" using n by (simp add: set_level_def arr_get_def arr_set_def)
  moreover have "bare ?h = bare h" using n by (simp add: bare_def fun_eq_iff)
  moreover have "level_at ?h = (\<lambda>y j. if y = x \<and> j = i then Some (f l) else level_at h y j)"
    using n by (auto simp: level_at_conv fun_eq_iff nth_list_update)
  ultimately show ?thesis by blast
qed

lemma set_node_ok:
  assumes "h x = Some n" "\<And>m ls. f (m\<lparr>level := ls\<rparr>) = (f m)\<lparr>level := ls\<rparr>"
  shows "\<exists>h'. set_node h x f = Some h' \<and> level_at h' = level_at h \<and>
    bare h' = (\<lambda>y. if y = x then map_option (\<lambda>(m, l). (f m, l)) (bare h x) else bare h y)"
proof -
  have "f n = (f n)\<lparr>level := level n\<rparr>" using assms(2)[where m = n and ls = "level n"] by simp
  then have "level (f n) = level n" by (metis zskiplistNode.select_convs(5) zskiplistNode.surjective zskiplistNode.update_convs(5))
  moreover have "(f n)\<lparr>level := []\<rparr> = f (n\<lparr>level := []\<rparr>)" using assms(2) by simp
  ultimately show ?thesis
    using assms(1) by (intro exI[of _ "h(x \<mapsto> f n)"]) (auto simp: set_node_def bare_def level_at_conv fun_eq_iff)
qed

lemma for_loop_append: "for_loop body (xs @ ys) h = for_loop body xs h \<bind> for_loop body ys"
  by (induction xs arbitrary: h) (simp_all split: bind_split)

text \<open>A loop whose step \<open>i\<close> changes level \<open>i\<close> only.\<close>

lemma for_loop_levels:
  assumes "\<And>i h'. a \<le> i \<Longrightarrow> i < b \<Longrightarrow> bare h' = bare h \<Longrightarrow> (\<And>y. level_at h' y i = level_at h y i) \<Longrightarrow>
    \<exists>h''. body i h' = Some h'' \<and> bare h'' = bare h' \<and> level_at h'' = (\<lambda>y j. if j = i then G i y else level_at h' y j)"
  shows "\<exists>h'. for_loop body [a..<b] h = Some h' \<and> bare h' = bare h \<and>
    level_at h' = (\<lambda>y j. if a \<le> j \<and> j < b then G j y else level_at h y j)"
  using assms
proof (induction b)
  case (Suc b)
  show ?case
  proof (cases "a \<le> b")
    case True
    obtain h' where h': "for_loop body [a..<b] h = Some h'" "bare h' = bare h"
      "level_at h' = (\<lambda>y j. if a \<le> j \<and> j < b then G j y else level_at h y j)"
      using Suc.IH[OF Suc.prems] less_SucI by blast
    obtain h'' where h'': "body b h' = Some h''" "bare h'' = bare h'" "level_at h'' = (\<lambda>y j. if j = b then G b y else level_at h' y j)"
      using Suc.prems[of b h'] True h' by auto
    have "for_loop body [a..<Suc b] h = Some h''" using True h'(1) h''(1) by (simp add: for_loop_append)
    moreover have "level_at h'' = (\<lambda>y j. if a \<le> j \<and> j < Suc b then G j y else level_at h y j)"
      using h'(3) h''(3) True by (auto simp: fun_eq_iff less_Suc_eq)
    ultimately show ?thesis using h'(2) h''(2) by auto
  next
    case False
    then show ?thesis by (auto simp: fun_eq_iff)
  qed
qed (auto simp: fun_eq_iff)

lemma set_span_ok:
  assumes "level_at h x i = Some l"
  shows "\<exists>h'. zslSetNodeSpanAtLevel h x i s = Some h' \<and> bare h' = bare h \<and>
      level_at h' = (\<lambda>y j. if y = x \<and> j = i then Some (if i > 0 then l\<lparr>span := s\<rparr> else l) else level_at h y j)"
    "\<exists>h'. zslIncrNodeSpanAtLevel h x i s = Some h' \<and> bare h' = bare h \<and>
      level_at h' = (\<lambda>y j. if y = x \<and> j = i then Some (if i > 0 then l\<lparr>span := span l + s\<rparr> else l) else level_at h y j)"
    "\<exists>h'. zslDecrNodeSpanAtLevel h x i s = Some h' \<and> bare h' = bare h \<and>
      level_at h' = (\<lambda>y j. if y = x \<and> j = i then Some (if i > 0 then l\<lparr>span := span l - s\<rparr> else l) else level_at h y j)"
proof -
  have z: "level_at h = (\<lambda>y j. if y = x \<and> j = i then Some l else level_at h y j)" using assms by (auto simp: fun_eq_iff)
  show "\<exists>h'. zslSetNodeSpanAtLevel h x i s = Some h' \<and> bare h' = bare h \<and>
      level_at h' = (\<lambda>y j. if y = x \<and> j = i then Some (if i > 0 then l\<lparr>span := s\<rparr> else l) else level_at h y j)"
    using set_level_ok[OF assms, of "\<lambda>l. l\<lparr>span := s\<rparr>"] z by (cases "i > 0") (simp_all add: zslSetNodeSpanAtLevel_def)
  show "\<exists>h'. zslIncrNodeSpanAtLevel h x i s = Some h' \<and> bare h' = bare h \<and>
      level_at h' = (\<lambda>y j. if y = x \<and> j = i then Some (if i > 0 then l\<lparr>span := span l + s\<rparr> else l) else level_at h y j)"
    using set_level_ok[OF assms, of "\<lambda>l. l\<lparr>span := span l + s\<rparr>"] z by (cases "i > 0") (simp_all add: zslIncrNodeSpanAtLevel_def)
  show "\<exists>h'. zslDecrNodeSpanAtLevel h x i s = Some h' \<and> bare h' = bare h \<and>
      level_at h' = (\<lambda>y j. if y = x \<and> j = i then Some (if i > 0 then l\<lparr>span := span l - s\<rparr> else l) else level_at h y j)"
    using set_level_ok[OF assms, of "\<lambda>l. l\<lparr>span := span l - s\<rparr>"] z by (cases "i > 0") (simp_all add: zslDecrNodeSpanAtLevel_def)
qed

text \<open>One step of the insertion.\<close>

definition inserted_level :: "zskiplistLevel \<Rightarrow> nat \<Rightarrow> u64 \<Rightarrow> u64 \<Rightarrow> zskiplistLevel" where
  "inserted_level lu i d s0 = \<lparr>forward = forward lu, span = (if i > 0 then span lu - d else s0)\<rparr>"

definition updated_level :: "zskiplistLevel \<Rightarrow> addr \<Rightarrow> nat \<Rightarrow> u64 \<Rightarrow> zskiplistLevel" where
  "updated_level lu node i d = \<lparr>forward = Some node, span = (if i > 0 then d + 1 else span lu)\<rparr>"

lemma insert_link_ok:
  assumes "i < length update" "update ! i = (u, ri)" "update ! 0 = (u0, r0)" "u \<noteq> node"
    and "level_at h u i = Some lu" "level_at h node i = Some ln"
  shows "\<exists>h'. insert_link node update i h = Some h' \<and> bare h' = bare h \<and>
    level_at h' = (\<lambda>y j. if j = i then (if y = node then Some (inserted_level lu i (r0 - ri) (span ln))
        else if y = u then Some (updated_level lu node i (r0 - ri)) else level_at h y i) else level_at h y j)"
proof -
  have get: "arr_get update (int i) = Some (u, ri)" "arr_get update 0 = Some (u0, r0)"
    using assms(1-3) by (auto simp: arr_get_def)
  obtain h1 where h1: "set_forward h node i (forward lu) = Some h1" "bare h1 = bare h"
    "level_at h1 = (\<lambda>y j. if y = node \<and> j = i then Some (ln\<lparr>forward := forward lu\<rparr>) else level_at h y j)"
    using set_level_ok[OF assms(6)] unfolding set_forward_def by blast
  then have "level_at h1 u i = Some lu" using assms(4,5) by simp
  from set_level_ok[OF this] obtain h2 where h2: "set_forward h1 u i (Some node) = Some h2" "bare h2 = bare h1"
    "level_at h2 = (\<lambda>y j. if y = u \<and> j = i then Some (lu\<lparr>forward := Some node\<rparr>) else level_at h1 y j)"
    unfolding set_forward_def by blast
  obtain s where s: "zslGetNodeSpanAtLevel h2 u i = Some s" "i > 0 \<Longrightarrow> s = span lu"
    using h2(3) by (cases "i > 0") (auto simp: zslGetNodeSpanAtLevel_def forward_at_def)
  have "level_at h2 node i = Some (ln\<lparr>forward := forward lu\<rparr>)" using h2(3) h1(3) assms(4) by simp
  from set_span_ok(1)[OF this] obtain h3 where h3: "zslSetNodeSpanAtLevel h2 node i (s - (r0 - ri)) = Some h3" "bare h3 = bare h2"
    "level_at h3 = (\<lambda>y j. if y = node \<and> j = i then Some (if i > 0 then ln\<lparr>forward := forward lu, span := s - (r0 - ri)\<rparr>
      else ln\<lparr>forward := forward lu\<rparr>) else level_at h2 y j)"
    by auto
  have "level_at h3 u i = Some (lu\<lparr>forward := Some node\<rparr>)" using h3(3) h2(3) assms(4) by simp
  from set_span_ok(1)[OF this] obtain h4 where h4: "zslSetNodeSpanAtLevel h3 u i ((r0 - ri) + 1) = Some h4" "bare h4 = bare h3"
    "level_at h4 = (\<lambda>y j. if y = u \<and> j = i then Some (if i > 0 then lu\<lparr>forward := Some node, span := (r0 - ri) + 1\<rparr>
      else lu\<lparr>forward := Some node\<rparr>) else level_at h3 y j)"
    by auto
  have "insert_link node update i h = Some h4"
    using get h1(1) h2(1) s(1) h3(1) h4(1) assms(5) by (simp add: insert_link_def forward_at_def)
  moreover have "level_at h4 = (\<lambda>y j. if j = i then (if y = node then Some (inserted_level lu i (r0 - ri) (span ln))
        else if y = u then Some (updated_level lu node i (r0 - ri)) else level_at h y i) else level_at h y j)"
    using assms(4) s(2) by (auto simp: h4(3) h3(3) h2(3) h1(3) fun_eq_iff inserted_level_def updated_level_def)
  ultimately show ?thesis using h1(2) h2(2) h3(2) h4(2) by auto
qed

end
