(* ===== verification/Skiplist_Ins.thy ===== *)
theory Skiplist_Ins
  imports Skiplist_Heap
begin

text \<open>
  The loops that link and unlink a node: on every level of the list, the forward pointers and spans
  become those of the list with the node inserted, or without it.
\<close>

subsection \<open>The result of a search\<close>

definition updates :: "addr list \<Rightarrow> nat list \<Rightarrow> nat \<Rightarrow> nat \<Rightarrow> (addr \<times> u64) list" where
  "updates qs lvs r n = map (\<lambda>i. (qs ! prv lvs i r, of_nat (prv lvs i r))) [0..<n]"

lemma prv_0: "heights_ok L lvs \<Longrightarrow> r < length lvs \<Longrightarrow> prv lvs 0 r = r"
  using heights_pos[of L lvs r] by (intro prv_eqI) auto

lemma nxt_above:
  assumes "heights_ok L lvs" "L \<le> i"
  shows "nxt lvs i j = None"
proof (rule nxt_eqI)
  have "lvs ! m \<le> i" if "j < m" "m < length lvs" for m
    using assms that unfolding heights_ok_def by (meson le_less_trans le_trans zero_le not_gr0 less_nat_zero_code neq0_conv)
  then show "is_nxt lvs i j None" by (simp add: is_nxt_def)
qed

text \<open>Positions other than \<open>prv\<close> have their successor at most at \<open>r\<close>.\<close>

lemma nxt_not_prv:
  assumes "j \<le> r" "i < lvs ! j" "r < length lvs" "prv lvs i r \<noteq> j"
  shows "\<exists>k. nxt lvs i j = Some k \<and> k \<le> r"
  using prv_nxt_greater[OF assms(1-3)] assms(4) not_le by (cases "nxt lvs i j") auto

lemma dist_ins_right: "r < length lvs \<Longrightarrow> r \<le> j \<Longrightarrow> dist (ins_at (Suc r) l lvs) i (Suc j) = dist lvs i j"
  by (auto simp: dist_def nxt_ins_right split: option.split)

text \<open>The successor of the last node before the gap lies after it.\<close>

lemma nxt_r: "nxt lvs i r = Some k \<Longrightarrow> r < k \<and> k < length lvs"
  using nxt_Some by blast

lemma dist_prv:
  assumes "r < length lvs"
  shows "dist lvs i (prv lvs i r) = dist lvs i r + (r - prv lvs i r)"
  using prv_le[of lvs i r] assms nxt_r[of lvs i r] unfolding dist_def nxt_of_prv by (auto split: option.split)

lemma insert_links:
  assumes t: "towers h L qs lvs" and hg: "heights_ok L lvs" and r: "r < length qs" and d: "distinct qs" and nn: "node \<notin> set qs"
    and l: "1 \<le> l" "l \<le> L" and ln: "\<forall>i<l. level_at h node i \<noteq> None"
  shows "\<exists>h'. (do { h \<leftarrow> for_loop (insert_link node (updates qs lvs r L)) [0..<l] h;
      for_loop (incr_link (updates qs lvs r L)) [l..<L] h }) = Some h' \<and> bare h' = bare h \<and>
    towers h' L (ins_at (Suc r) node qs) (ins_at (Suc r) l lvs) \<and>
    (\<forall>y. y \<notin> set qs \<longrightarrow> y \<noteq> node \<longrightarrow> level_at h' y = level_at h y)"
proof -
  let ?u = "\<lambda>i. qs ! prv lvs i r" and ?up = "updates qs lvs r L"
  define lu where "lu = (\<lambda>i. the (level_at h (?u i) i))"
  define s0 where "s0 = (\<lambda>i. span (the (level_at h node i)))"
  let ?d = "\<lambda>i. of_nat r - of_nat (prv lvs i r) :: u64"
  have len: "length lvs = length qs" using t by (simp add: towers_def)
  have pl: "prv lvs i r \<le> r" "prv lvs i r < length qs" for i using prv_le[of lvs i r] r by auto
  have L: "L \<le> lvs ! 0" using hg by (simp add: heights_ok_def)
  have pi: "i < lvs ! prv lvs i r" if "i < L" for i using prv_level[of i lvs r] that L by simp
  have lu: "level_at h (?u i) i = Some (lu i)" "forward (lu i) = map_option ((!) qs) (nxt lvs i r)"
      "0 < i \<Longrightarrow> span (lu i) = of_nat (dist lvs i (prv lvs i r))" if i: "i < L" for i
  proof -
    obtain x where "level_at h (?u i) i = Some x" "forward x = map_option ((!) qs) (nxt lvs i (prv lvs i r))"
        "0 < i \<and> i < L \<longrightarrow> span x = of_nat (dist lvs i (prv lvs i r))"
      using t pl(2)[of i] pi[OF i] unfolding towers_def by blast
    then show "level_at h (?u i) i = Some (lu i)" "forward (lu i) = map_option ((!) qs) (nxt lvs i r)"
      "0 < i \<Longrightarrow> span (lu i) = of_nat (dist lvs i (prv lvs i r))"
      using i by (simp_all add: lu_def nxt_of_prv)
  qed
  have un: "?u i \<noteq> node" for i using nn pl(2) by (metis nth_mem)
  have up: "length ?up = L" "\<And>i. i < L \<Longrightarrow> ?up ! i = (?u i, of_nat (prv lvs i r))" by (simp_all add: updates_def)
  have up0: "?up ! 0 = (qs ! r, of_nat r)" using up(2)[of 0] l prv_0[OF hg, of r] r len by simp
  define G1 where "G1 = (\<lambda>i y. if y = node then Some (inserted_level (lu i) i (?d i) (s0 i))
      else if y = ?u i then Some (updated_level (lu i) node i (?d i)) else level_at h y i)"
  define G2 where "G2 = (\<lambda>i y. if y = ?u i then Some (if i > 0 then (lu i)\<lparr>span := span (lu i) + 1\<rparr> else lu i) else level_at h y i)"
  have "\<exists>h1. for_loop (insert_link node ?up) [0..<l] h = Some h1 \<and> bare h1 = bare h \<and>
      level_at h1 = (\<lambda>y j. if 0 \<le> j \<and> j < l then G1 j y else level_at h y j)"
  proof (rule for_loop_levels)
    fix i h' assume i: "i < l" and same: "\<And>y. level_at h' y i = level_at h y i"
    obtain x where x: "level_at h node i = Some x" using ln i by blast
    have "\<exists>h''. insert_link node ?up i h' = Some h'' \<and> bare h'' = bare h' \<and>
      level_at h'' = (\<lambda>y j. if j = i then (if y = node then Some (inserted_level (lu i) i (?d i) (span x))
        else if y = ?u i then Some (updated_level (lu i) node i (?d i)) else level_at h' y i) else level_at h' y j)"
      using i l(2) up un lu(1)[of i] x by (intro insert_link_ok[OF _ _ up0]) (simp_all add: same)
    then show "\<exists>h''. insert_link node ?up i h' = Some h'' \<and> bare h'' = bare h' \<and>
      level_at h'' = (\<lambda>y j. if j = i then G1 i y else level_at h' y j)"
      using x by (simp add: G1_def s0_def same cong: if_cong)
  qed
  then obtain h1 where h1: "for_loop (insert_link node ?up) [0..<l] h = Some h1" "bare h1 = bare h"
    "level_at h1 = (\<lambda>y j. if j < l then G1 j y else level_at h y j)" by auto
  have "\<exists>h2. for_loop (incr_link ?up) [l..<L] h1 = Some h2 \<and> bare h2 = bare h1 \<and>
      level_at h2 = (\<lambda>y j. if l \<le> j \<and> j < L then G2 j y else level_at h1 y j)"
  proof (rule for_loop_levels)
    fix i h' assume i: "l \<le> i" "i < L" and same: "\<And>y. level_at h' y i = level_at h1 y i"
    have eq: "level_at h' y i = level_at h y i" for y using same i(1) h1(3) by simp
    have "arr_get ?up (int i) = Some (?u i, of_nat (prv lvs i r))" using up i(2) by (simp add: arr_get_def)
    then have run: "incr_link ?up i h' = zslIncrNodeSpanAtLevel h' (?u i) i 1" by (simp add: incr_link_def)
    have "level_at h' (?u i) i = Some (lu i)" using eq lu(1)[OF i(2)] by simp
    from set_span_ok(2)[OF this, of 1] have "\<exists>h''. incr_link ?up i h' = Some h'' \<and> bare h'' = bare h' \<and>
        level_at h'' = (\<lambda>y j. if y = ?u i \<and> j = i then Some (if i > 0 then (lu i)\<lparr>span := span (lu i) + 1\<rparr> else lu i) else level_at h' y j)"
      unfolding run .
    then show "\<exists>h''. incr_link ?up i h' = Some h'' \<and> bare h'' = bare h' \<and>
        level_at h'' = (\<lambda>y j. if j = i then G2 i y else level_at h' y j)"
    proof -
      have "(\<lambda>y j. if y = ?u i \<and> j = i then Some (if i > 0 then (lu i)\<lparr>span := span (lu i) + 1\<rparr> else lu i) else level_at h' y j) =
          (\<lambda>y j. if j = i then G2 i y else level_at h' y j)"
        using eq i(1) l(1) by (simp add: G2_def fun_eq_iff)
      then show ?thesis using \<open>\<exists>h''. incr_link ?up i h' = Some h'' \<and> _\<close> by simp
    qed
  qed
  then obtain h2 where h2: "for_loop (incr_link ?up) [l..<L] h1 = Some h2" "bare h2 = bare h1"
    "level_at h2 = (\<lambda>y j. if l \<le> j \<and> j < L then G2 j y else level_at h1 y j)" by blast
  have at: "level_at h2 y i = (if i < l then G1 i y else if i < L then G2 i y else level_at h y i)" for y i
    using h1(3) h2(3) l(2) by auto
  have frame: "\<forall>y. y \<notin> set qs \<longrightarrow> y \<noteq> node \<longrightarrow> level_at h2 y = level_at h y"
    using pl(2) by (auto simp: at G1_def G2_def fun_eq_iff)
  have "towers h2 L (ins_at (Suc r) node qs) (ins_at (Suc r) l lvs)"
    unfolding towers_def
  proof (intro conjI allI impI)
    let ?qs = "ins_at (Suc r) node qs" and ?lvs = "ins_at (Suc r) l lvs"
    show "length ?lvs = length ?qs" using r len by simp
    fix j i assume j: "j < length ?qs" and i: "i < ?lvs ! j"
    have nq: "?qs ! m = (if m \<le> r then qs ! m else if m = Suc r then node else qs ! (m - 1))" for m
      using r by (auto simp: nth_ins_at less_Suc_eq_le)
    have nl: "?lvs ! m = (if m \<le> r then lvs ! m else if m = Suc r then l else lvs ! (m - 1))" for m
      using r len by (auto simp: nth_ins_at less_Suc_eq_le)
    have shift: "map_option ((!) ?qs) (map_option Suc (nxt lvs i m)) = map_option ((!) qs) (nxt lvs i m)" if "r \<le> m" for m
      using that by (cases "nxt lvs i m") (auto simp: nq dest: nxt_Some)
    have rl: "r < length lvs" using r len by simp
    note right = nxt_ins_right[OF rl] and left = nxt_ins_left[OF rl] and dr = dist_ins_right[OF rl]
    consider (new) "j = Suc r" | (after) m where "j = Suc m" "r < m" | (before) "j \<le> r" by (cases j) (auto, linarith)
    then show "\<exists>x. level_at h2 (?qs ! j) i = Some x \<and> forward x = map_option ((!) ?qs) (nxt ?lvs i j) \<and>
        (0 < i \<and> i < L \<longrightarrow> span x = of_nat (dist ?lvs i j))"
    proof cases
      case new
      then have il: "i < l" "i < L" using i l(2) by (auto simp: nl)
      have "level_at h2 (?qs ! j) i = Some (inserted_level (lu i) i (?d i) (s0 i))" using il new by (simp add: at G1_def nq)
      moreover have "forward (lu i) = map_option ((!) ?qs) (nxt ?lvs i j)"
        using lu(2)[OF il(2)] new right[of r] shift[of r] by simp
      moreover have "span (lu i) - ?d i = of_nat (dist ?lvs i j)" if "0 < i"
        using lu(3)[OF il(2) that] pl(1)[of i] dr[of r] dist_prv[OF rl, of i] new by (simp add: of_nat_diff)
      ultimately show ?thesis by (simp add: inserted_level_def)
    next
      case (after m)
      then have m: "m < length qs" "i < lvs ! m" using i j r by (auto simp: nl)
      obtain x where x: "level_at h (qs ! m) i = Some x" "forward x = map_option ((!) qs) (nxt lvs i m)"
          "0 < i \<and> i < L \<longrightarrow> span x = of_nat (dist lvs i m)"
        using t m unfolding towers_def by blast
      have "qs ! m \<noteq> node" "qs ! m \<noteq> ?u i" using nn m(1) d pl[of i] after(2) by (auto simp: nth_eq_iff_index_eq)
      then have "level_at h2 (?qs ! j) i = Some x" using x(1) after by (simp add: at G1_def G2_def nq)
      then show ?thesis using x(2,3) after right[of m] shift[of m] dr[of m] by simp
    next
      case before
      then have i: "i < lvs ! j" and j: "j < length qs" using i r by (auto simp: nl)
      have qj: "?qs ! j = qs ! j" using before by (simp add: nq)
      have nn': "qs ! j \<noteq> node" using nn j by auto
      obtain x where x: "level_at h (qs ! j) i = Some x" "forward x = map_option ((!) qs) (nxt lvs i j)"
          "0 < i \<and> i < L \<longrightarrow> span x = of_nat (dist lvs i j)"
        using t j i unfolding towers_def by blast
      consider (top) "L \<le> i" | (upd) "i < L" "j = prv lvs i r" | (low) "i < L" "j \<noteq> prv lvs i r" by linarith
      then show ?thesis
      proof cases
        case top
        then have "level_at h2 (?qs ! j) i = Some x" using x(1) l(2) qj by (simp add: at)
        moreover have "nxt lvs i j = None" "nxt ?lvs i j = None" using nxt_above[OF hg top] left[OF before] top l(2) by simp_all
        ultimately show ?thesis using x top by simp
      next
        case low
        then have "level_at h2 (?qs ! j) i = Some x"
          using x(1) qj nn' d j pl(2)[of i] by (simp add: at G1_def G2_def nth_eq_iff_index_eq)
        moreover obtain k where k: "nxt lvs i j = Some k" "k \<le> r" using nxt_not_prv[OF before i rl] low(2) by auto
        ultimately show ?thesis using x left[OF before] by (simp add: nq dist_def)
      next
        case upd
        have far: "nxt lvs i j = nxt lvs i r" using upd(2) nxt_of_prv by simp
        have nx: "nxt ?lvs i j = (if i < l then Some (Suc r) else map_option Suc (nxt lvs i r))"
          using left[OF before, of l i] nxt_r[of lvs i r] unfolding far by (auto split: option.split)
        show ?thesis
        proof (cases "i < l")
          case True
          then have "level_at h2 (?qs ! j) i = Some (updated_level (lu i) node i (?d i))"
            using upd qj nn' by (simp add: at G1_def)
          moreover have "dist ?lvs i j = Suc (r - j)" using nx True before by (simp add: dist_def Suc_diff_le)
          ultimately show ?thesis
            using nx True before upd(2) by (simp add: updated_level_def nq of_nat_diff)
        next
          case False
          have "level_at h2 (?qs ! j) i = Some ((lu i)\<lparr>span := span (lu i) + 1\<rparr>)"
            using upd False l(1) qj by (simp add: at G2_def)
          moreover have "dist ?lvs i j = Suc (dist lvs i j)"
          proof (cases "nxt lvs i r")
            case None
            then show ?thesis using nx far False before rl by (simp add: dist_def)
          next
            case (Some k)
            then show ?thesis using nx far False before nxt_r[OF Some] by (simp add: dist_def Suc_diff_le)
          qed
          ultimately show ?thesis
            using nx False lu(2,3)[OF upd(1)] shift[of r] l(1) upd(2) by simp
        qed
      qed
    qed
  qed
  then show ?thesis using h1 h2 frame by simp
qed


text \<open>The distances in the list with the gap filled.\<close>

lemma dist_ins_prv:
  assumes "r < length lvs" "i < l"
  shows "dist (ins_at (Suc r) l lvs) i (prv lvs i r) = Suc (r - prv lvs i r)"
    "nxt (ins_at (Suc r) l lvs) i (prv lvs i r) = Some (Suc r)"
proof -
  show n: "nxt (ins_at (Suc r) l lvs) i (prv lvs i r) = Some (Suc r)"
    using nxt_ins_left[OF assms(1) prv_le[of lvs i r], of l i] assms(2) nxt_r[of lvs i r] unfolding nxt_of_prv by (auto split: option.split)
  show "dist (ins_at (Suc r) l lvs) i (prv lvs i r) = Suc (r - prv lvs i r)"
    using n prv_le[of lvs i r] by (simp add: dist_def Suc_diff_le)
qed

lemma dist_ins_prv_low:
  assumes "r < length lvs" "l \<le> i"
  shows "nxt (ins_at (Suc r) l lvs) i (prv lvs i r) = map_option Suc (nxt lvs i r)"
    "dist (ins_at (Suc r) l lvs) i (prv lvs i r) = Suc (dist lvs i (prv lvs i r))"
proof -
  show n: "nxt (ins_at (Suc r) l lvs) i (prv lvs i r) = map_option Suc (nxt lvs i r)"
    using nxt_ins_left[OF assms(1) prv_le[of lvs i r], of l i] assms(2) nxt_r[of lvs i r] unfolding nxt_of_prv by (auto split: option.split)
  show "dist (ins_at (Suc r) l lvs) i (prv lvs i r) = Suc (dist lvs i (prv lvs i r))"
  proof (cases "nxt lvs i r")
    case None
    then show ?thesis using n prv_le[of lvs i r] assms(1) by (simp add: dist_def nxt_of_prv)
  next
    case (Some k)
    then show ?thesis using n prv_le[of lvs i r] nxt_r[OF Some] by (simp add: dist_def nxt_of_prv Suc_diff_le)
  qed
qed

definition unlinked_level :: "zskiplistLevel \<Rightarrow> zskiplistLevel \<Rightarrow> nat \<Rightarrow> bool \<Rightarrow> zskiplistLevel" where
  "unlinked_level lu ln i here =
     (if here then \<lparr>forward = forward ln, span = (if i > 0 then span lu + (span ln - 1) else span lu)\<rparr>
      else (if i > 0 then lu\<lparr>span := span lu - 1\<rparr> else lu))"

lemma unlink_link_ok:
  assumes "i < length update" "update ! i = (u, ri)" "u \<noteq> x" "level_at h u i = Some lu"
    and "forward lu = Some x \<Longrightarrow> level_at h x i = Some ln"
  shows "\<exists>h'. unlink_link x update i h = Some h' \<and> bare h' = bare h \<and>
    level_at h' = (\<lambda>y j. if y = u \<and> j = i then Some (unlinked_level lu ln i (forward lu = Some x)) else level_at h y j)"
proof -
  have get: "arr_get update (int i) = Some (u, ri)" using assms(1,2) by (auto simp: arr_get_def)
  show ?thesis
  proof (cases "forward lu = Some x")
    case False
    then have "unlink_link x update i h = zslDecrNodeSpanAtLevel h u i 1"
      using get assms(4) by (simp add: unlink_link_def forward_at_def)
    then show ?thesis using set_span_ok(3)[OF assms(4), of 1] False by (simp add: unlinked_level_def cong: if_cong)
  next
    case True
    note ln = assms(5)[OF True]
    obtain s where s: "zslGetNodeSpanAtLevel h x i = Some s" "i > 0 \<Longrightarrow> s = span ln"
      using ln by (cases "i > 0") (auto simp: zslGetNodeSpanAtLevel_def forward_at_def)
    obtain h1 where h1: "zslIncrNodeSpanAtLevel h u i (s - 1) = Some h1" "bare h1 = bare h"
      "level_at h1 = (\<lambda>y j. if y = u \<and> j = i then Some (if i > 0 then lu\<lparr>span := span lu + (s - 1)\<rparr> else lu) else level_at h y j)"
      using set_span_ok(2)[OF assms(4), of "s - 1"] by blast
    have "level_at h1 u i = Some (if i > 0 then lu\<lparr>span := span lu + (s - 1)\<rparr> else lu)" using h1(3) by simp
    from set_level_ok[OF this, of "\<lambda>l. l\<lparr>forward := forward ln\<rparr>"] obtain h2 where
      h2: "set_forward h1 u i (forward ln) = Some h2" "bare h2 = bare h1"
      "level_at h2 = (\<lambda>y j. if y = u \<and> j = i then Some ((if i > 0 then lu\<lparr>span := span lu + (s - 1)\<rparr> else lu)\<lparr>forward := forward ln\<rparr>) else level_at h1 y j)"
      unfolding set_forward_def by blast
    have "forward_at h1 x i = Some (forward ln)" using h1(3) assms(3) ln by (simp add: forward_at_def)
    then have "unlink_link x update i h = Some h2"
      using get assms(4) True s(1) h1(1) h2(1) by (auto simp: unlink_link_def forward_at_def)
    moreover have "level_at h2 = (\<lambda>y j. if y = u \<and> j = i then Some (unlinked_level lu ln i (forward lu = Some x)) else level_at h y j)"
      using s(2) True by (auto simp: h2(3) h1(3) unlinked_level_def fun_eq_iff)
    ultimately show ?thesis using h1(2) h2(2) by auto
  qed
qed

lemma unlink_links:
  assumes t: "towers h L (ins_at (Suc r) node qs) (ins_at (Suc r) l lvs)" and hg: "heights_ok L lvs"
    and r: "r < length qs" "length lvs = length qs" and d: "distinct qs" and nn: "node \<notin> set qs" and l: "l \<le> L"
  shows "\<exists>h'. for_loop (unlink_link node (updates qs lvs r L)) [0..<L] h = Some h' \<and> bare h' = bare h \<and>
    towers h' L qs lvs \<and> (\<forall>y. y \<notin> set qs \<longrightarrow> level_at h' y = level_at h y)"
proof -
  let ?u = "\<lambda>i. qs ! prv lvs i r" and ?up = "updates qs lvs r L"
  let ?qs = "ins_at (Suc r) node qs" and ?lvs = "ins_at (Suc r) l lvs"
  have rl: "r < length lvs" using r by simp
  have nq: "?qs ! m = (if m \<le> r then qs ! m else if m = Suc r then node else qs ! (m - 1))" for m
    using r by (auto simp: nth_ins_at less_Suc_eq_le)
  have nl: "?lvs ! m = (if m \<le> r then lvs ! m else if m = Suc r then l else lvs ! (m - 1))" for m
    using r by (auto simp: nth_ins_at less_Suc_eq_le)
  have pl: "prv lvs i r \<le> r" "prv lvs i r < length qs" for i using prv_le[of lvs i r] r by auto
  have L: "L \<le> lvs ! 0" using hg by (simp add: heights_ok_def)
  have pi: "i < lvs ! prv lvs i r" if "i < L" for i using prv_level[of i lvs r] that L by simp
  have shift: "map_option ((!) ?qs) (map_option Suc (nxt lvs i m)) = map_option ((!) qs) (nxt lvs i m)" if "r \<le> m" for m i
    using that by (cases "nxt lvs i m") (auto simp: nq dest: nxt_Some)
  have at: "\<exists>x. level_at h (?qs ! j) i = Some x \<and> forward x = map_option ((!) ?qs) (nxt ?lvs i j) \<and> (0 < i \<and> i < L \<longrightarrow> span x = of_nat (dist ?lvs i j))"
    if "j < Suc (length qs)" "i < ?lvs ! j" for i j
    using t that r(1) unfolding towers_def by simp
  define lu ln where "lu = (\<lambda>i. the (level_at h (?u i) i))" and "ln = (\<lambda>i. the (level_at h node i))"
  have lu: "level_at h (?u i) i = Some (lu i)" "forward (lu i) = map_option ((!) ?qs) (nxt ?lvs i (prv lvs i r))"
      "0 < i \<Longrightarrow> span (lu i) = of_nat (dist ?lvs i (prv lvs i r))" if i: "i < L" for i
  proof -
    have "?qs ! prv lvs i r = ?u i" using pl(1) by (simp add: nq)
    moreover have "i < ?lvs ! prv lvs i r" using pi[OF i] pl(1) by (simp add: nl)
    ultimately obtain x where "level_at h (?u i) i = Some x" "forward x = map_option ((!) ?qs) (nxt ?lvs i (prv lvs i r))"
        "0 < i \<longrightarrow> span x = of_nat (dist ?lvs i (prv lvs i r))"
      using at[of "prv lvs i r" i] pl(2)[of i] i by auto
    then show "level_at h (?u i) i = Some (lu i)" "forward (lu i) = map_option ((!) ?qs) (nxt ?lvs i (prv lvs i r))"
      "0 < i \<Longrightarrow> span (lu i) = of_nat (dist ?lvs i (prv lvs i r))" by (simp_all add: lu_def)
  qed
  have ln: "level_at h node i = Some (ln i)" "forward (ln i) = map_option ((!) qs) (nxt lvs i r)"
      "0 < i \<Longrightarrow> span (ln i) = of_nat (dist lvs i r)" if i: "i < l" for i
  proof -
    obtain x where "level_at h node i = Some x" "forward x = map_option ((!) ?qs) (nxt ?lvs i (Suc r))"
        "0 < i \<longrightarrow> span x = of_nat (dist ?lvs i (Suc r))"
      using at[of "Suc r" i] r i l by (auto simp: nq nl)
    then show "level_at h node i = Some (ln i)" "forward (ln i) = map_option ((!) qs) (nxt lvs i r)"
      "0 < i \<Longrightarrow> span (ln i) = of_nat (dist lvs i r)"
      using nxt_ins_right[OF rl, of r] dist_ins_right[OF rl, of r] shift[of r] by (simp_all add: ln_def)
  qed
  have here: "forward (lu i) = Some node \<longleftrightarrow> i < l" if i: "i < L" for i
  proof (cases "i < l")
    case True
    then show ?thesis using lu(2)[OF i] dist_ins_prv(2)[OF rl True] by (simp add: nq)
  next
    case False
    then have "forward (lu i) = map_option ((!) qs) (nxt lvs i r)"
      using lu(2)[OF i] dist_ins_prv_low(1)[OF rl, of l i] shift[of r] by simp
    then have "forward (lu i) \<noteq> Some node" using nn r(2) by (auto dest!: nxt_Some)
    then show ?thesis using False by simp
  qed
  have up: "length ?up = L" "\<And>i. i < L \<Longrightarrow> ?up ! i = (?u i, of_nat (prv lvs i r))" by (simp_all add: updates_def)
  have un: "?u i \<noteq> node" for i using nn pl(2) by (metis nth_mem)
  define G where "G = (\<lambda>i y. if y = ?u i then Some (unlinked_level (lu i) (ln i) i (i < l)) else level_at h y i)"
  have "\<exists>h1. for_loop (unlink_link node ?up) [0..<L] h = Some h1 \<and> bare h1 = bare h \<and>
      level_at h1 = (\<lambda>y j. if 0 \<le> j \<and> j < L then G j y else level_at h y j)"
  proof (rule for_loop_levels)
    fix i h' assume i: "i < L" and same: "\<And>y. level_at h' y i = level_at h y i"
    obtain h'' where h'': "unlink_link node ?up i h' = Some h''" "bare h'' = bare h'"
      "level_at h'' = (\<lambda>y j. if y = ?u i \<and> j = i then Some (unlinked_level (lu i) (ln i) i (forward (lu i) = Some node)) else level_at h' y j)"
      using unlink_link_ok[of i ?up "?u i" _ node h' "lu i" "ln i"] i up un lu(1)[OF i] ln(1)[of i] here[OF i] same by auto
    have "level_at h'' = (\<lambda>y j. if j = i then G i y else level_at h' y j)"
      using same here[OF i] by (auto simp: h''(3) G_def fun_eq_iff)
    then show "\<exists>h''. unlink_link node ?up i h' = Some h'' \<and> bare h'' = bare h' \<and>
      level_at h'' = (\<lambda>y j. if j = i then G i y else level_at h' y j)" using h''(1,2) by blast
  qed
  then obtain h1 where h1: "for_loop (unlink_link node ?up) [0..<L] h = Some h1" "bare h1 = bare h"
    "level_at h1 = (\<lambda>y j. if j < L then G j y else level_at h y j)" by auto
  have "towers h1 L qs lvs"
    unfolding towers_def
  proof (intro conjI allI impI r(2))
    fix j i assume j: "j < length qs" and i: "i < lvs ! j"
    show "\<exists>x. level_at h1 (qs ! j) i = Some x \<and> forward x = map_option ((!) qs) (nxt lvs i j) \<and>
        (0 < i \<and> i < L \<longrightarrow> span x = of_nat (dist lvs i j))"
    proof (cases "i < L \<and> j = prv lvs i r")
      case True
      then have iL: "i < L" and jp: "j = prv lvs i r" by auto
      have lev: "level_at h1 (qs ! j) i = Some (unlinked_level (lu i) (ln i) i (i < l))" using True h1(3) by (simp add: G_def)
      have nj: "nxt lvs i j = nxt lvs i r" using jp nxt_of_prv by simp
      have "forward (unlinked_level (lu i) (ln i) i (i < l)) = map_option ((!) qs) (nxt lvs i j)"
        using nj ln(2) lu(2)[OF iL] dist_ins_prv_low(1)[OF rl, of l i] shift[of r] by (cases "i < l") (auto simp: unlinked_level_def)
      moreover have "span (unlinked_level (lu i) (ln i) i (i < l)) = of_nat (dist lvs i j)" if "0 < i"
        using that lu(3)[OF iL that] ln(3)[OF _ that] dist_ins_prv(1)[OF rl, of i l] dist_ins_prv_low(2)[OF rl, of l i] dist_prv[OF rl, of i] jp
        by (simp add: unlinked_level_def)
      ultimately show ?thesis using lev by simp
    next
      case False
      then have eq: "level_at h1 (qs ! j) i = level_at h (qs ! j) i"
        using h1(3) d j pl(2)[of i] by (auto simp: G_def nth_eq_iff_index_eq)
      show ?thesis
      proof (cases "j \<le> r")
        case True
        obtain x where x: "level_at h (qs ! j) i = Some x" "forward x = map_option ((!) ?qs) (nxt ?lvs i j)"
            "0 < i \<and> i < L \<longrightarrow> span x = of_nat (dist ?lvs i j)"
          using at[of j i] True i j by (auto simp: nq nl)
        show ?thesis
        proof (cases "i < L")
          case iL: True
          then obtain k where "nxt lvs i j = Some k" "k \<le> r" using nxt_not_prv[OF True i rl] False by auto
          then show ?thesis using x eq nxt_ins_left[OF rl True, of l i] by (simp add: nq dist_def)
        next
          case iL: False
          then have "nxt lvs i j = None" "nxt ?lvs i j = None"
            using nxt_above[OF hg, of i j] nxt_ins_left[OF rl True, of l i] l by simp_all
          then show ?thesis using x eq iL by simp
        qed
      next
        case jr: False
        then obtain x where x: "level_at h (qs ! j) i = Some x" "forward x = map_option ((!) ?qs) (nxt ?lvs i (Suc j))"
            "0 < i \<and> i < L \<longrightarrow> span x = of_nat (dist ?lvs i (Suc j))"
          using at[of "Suc j" i] i j by (auto simp: nq nl)
        then show ?thesis using jr eq nxt_ins_right[OF rl, of j] shift[of j] dist_ins_right[OF rl, of j] by simp
      qed
    qed
  qed
  moreover have "\<forall>y. y \<notin> set qs \<longrightarrow> level_at h1 y = level_at h y" using pl(2) by (auto simp: h1(3) G_def fun_eq_iff)
  ultimately show ?thesis using h1(1,2) by blast
qed

end
