(* ===== verification/Skiplist_Ops.thy ===== *)
theory Skiplist_Ops
  imports Skiplist_Ins
begin

text \<open>
  What a skip list represents, \<open>zsl_rep\<close>: a strictly sorted sequence of nodes with scores and elements, all of
  whose pointers, spans and counters are right. Creation and insertion establish and keep it.
\<close>

subsection \<open>Comparison\<close>

lemma sdscmp_simps [simp]:
  "sdscmp [] [] = 0" "sdscmp [] (b # t) = -1" "sdscmp (a # s) [] = 1"
  "sdscmp (a # s) (b # t) = (if a < b then -1 else if b < a then 1 else sdscmp s t)"
  by (auto simp: sdscmp_def Let_def)

lemma sdscmp_order: "sdscmp a b > 0 \<longleftrightarrow> b < a" "sdscmp a b = 0 \<longleftrightarrow> a = b"
proof (induction a arbitrary: b)
  case Nil
  { case 1 show ?case by (cases b) simp_all next case 2 show ?case by (cases b) simp_all }
next
  case (Cons x a)
  { case 1 show ?case using Cons by (cases b) auto next case 2 show ?case using Cons by (cases b) auto }
qed

subsection \<open>Representation\<close>

text \<open>A node of the list: its address, the height of its tower, its score and element.\<close>

type_synonym 's znode = "addr \<times> nat \<times> 's \<times> sds"

definition node_addrs :: "zskiplist \<Rightarrow> 's znode list \<Rightarrow> addr list" where
  "node_addrs zsl ns = header zsl # map fst ns"

definition node_heights :: "'s znode list \<Rightarrow> nat list" where
  "node_heights ns = ZSKIPLIST_MAXLEVEL # map (\<lambda>(a, l, k). l) ns"

definition node_keys :: "'s znode list \<Rightarrow> ('s \<times> sds) list" where
  "node_keys ns = map (\<lambda>(a, l, k). k) ns"

definition node_fields :: "'s znode list \<Rightarrow> nat \<Rightarrow> 's zskiplistNode \<times> nat" where
  "node_fields ns j =
     (case ns ! j of (a, l, s, e) \<Rightarrow>
        (\<lparr>score = Num s, backward = (if j = 0 then None else Some (fst (ns ! (j - 1)))), levels = l, ele = Some e, level = []\<rparr>, l))"

definition zsl_rep :: "'s::linorder zheap \<Rightarrow> zskiplist \<Rightarrow> 's znode list \<Rightarrow> bool" where
  "zsl_rep h zsl ns \<longleftrightarrow>
     distinct (node_addrs zsl ns) \<and> (\<exists>hn. bare h (header zsl) = Some (hn, ZSKIPLIST_MAXLEVEL)) \<and>
     (\<forall>j < length ns. bare h (fst (ns ! j)) = Some (node_fields ns j)) \<and>
     heights_ok (zlevel zsl) (node_heights ns) \<and> (1 < zlevel zsl \<longrightarrow> zlevel zsl \<in> set (tl (node_heights ns))) \<and>
     towers h (zlevel zsl) (node_addrs zsl ns) (node_heights ns) \<and>
     tail zsl = (if ns = [] then None else Some (fst (last ns))) \<and>
     zlength zsl = of_nat (length ns) \<and> length ns < 2 ^ 64 \<and> sorted_wrt (<) (node_keys ns)"

lemma length_node_lists [simp]:
  "length (node_addrs zsl ns) = Suc (length ns)" "length (node_heights ns) = Suc (length ns)" "length (node_keys ns) = length ns"
  by (simp_all add: node_addrs_def node_heights_def node_keys_def)

lemma node_addrs_nth [simp]: "node_addrs zsl ns ! 0 = header zsl" "node_addrs zsl ns ! Suc j = map fst ns ! j"
  by (simp_all add: node_addrs_def)

lemma towers_cong: "level_at h' = level_at h \<Longrightarrow> towers h' = towers h"
  by (simp add: towers_def fun_eq_iff)

text \<open>How many keys come before a given one.\<close>

definition rank_of :: "'s::linorder znode list \<Rightarrow> 's \<times> sds \<Rightarrow> nat" where
  "rank_of ns x = length (takeWhile (\<lambda>k. k < x) (node_keys ns))"

lemma rank_of_le: "rank_of ns x \<le> length ns"
  unfolding rank_of_def by (metis length_node_lists(3) length_takeWhile_le)

lemma rank_of_iff:
  assumes "sorted_wrt (<) (node_keys ns)" "j < length ns"
  shows "node_keys ns ! j < x \<longleftrightarrow> j < rank_of ns x"
proof
  assume "j < rank_of ns x"
  then show "node_keys ns ! j < x" unfolding rank_of_def using nth_mem takeWhile_nth set_takeWhileD by metis
next
  assume a: "node_keys ns ! j < x"
  show "j < rank_of ns x"
  proof (rule ccontr)
    assume "\<not> j < rank_of ns x"
    then have r: "rank_of ns x \<le> j" "rank_of ns x < length (node_keys ns)" using assms(2) by simp_all
    have "\<not> node_keys ns ! rank_of ns x < x"
      using nth_length_takeWhile[of "\<lambda>k. k < x" "node_keys ns"] r(2) unfolding rank_of_def by simp
    moreover have "node_keys ns ! rank_of ns x \<le> node_keys ns ! j"
      using assms r by (intro sorted_wrt_less_nth_le) simp_all
    ultimately show False using a by (meson le_less_trans)
  qed
qed

lemma compare_node:
  assumes "zsl_rep h zsl ns" "j < length ns"
  shows "\<exists>c. zslCompareWithNode h (Num s) e (Some (fst (ns ! j))) = Some c \<and>
    (c > 0 \<longleftrightarrow> node_keys ns ! j < (s, e)) \<and> (c = 0 \<longleftrightarrow> node_keys ns ! j = (s, e))"
proof -
  obtain a l s' e' where n: "ns ! j = (a, l, s', e')" by (metis prod.exhaust)
  have "bare h a = Some (node_fields ns j)" using assms n unfolding zsl_rep_def by force
  then obtain m where m: "h a = Some m" "score m = Num s'" "ele m = Some e'"
    by (auto simp: bare_def node_fields_def n) (metis zskiplistNode.select_convs(1,4) zskiplistNode.surjective zskiplistNode.update_convs(5))
  have k: "node_keys ns ! j = (s', e')" using assms(2) n by (simp add: node_keys_def)
  show ?thesis
    using m sdscmp_order[of e e'] unfolding k
    by (auto simp: zslCompareWithNode_def n zslGetNodeElement_def)
qed

lemma cmp_cond_upto:
  assumes "zsl_rep h zsl ns"
  shows "cond_upto (cmp_cond h (Num s) e) (node_addrs zsl ns) (rank_of ns (s, e))"
  unfolding cond_upto_def
proof (intro conjI allI impI)
  fix j k assume k: "j < k" "k < length (node_addrs zsl ns)"
  then obtain m where m: "k = Suc m" "m < length ns" by (cases k) auto
  have "sorted_wrt (<) (node_keys ns)" using assms by (simp add: zsl_rep_def)
  then show "cmp_cond h (Num s) e (Some (node_addrs zsl ns ! k)) (of_nat j) (of_nat (k - j)) = Some (k \<le> rank_of ns (s, e))"
    using compare_node[OF assms m(2), of s e] rank_of_iff[of ns m "(s, e)"] m by (auto simp: cmp_cond_def)
qed (simp add: cmp_cond_def zslCompareWithNode_def)

lemma rep_search:
  assumes rep: "zsl_rep h zsl ns" and "cond_upto cond (node_addrs zsl ns) r" "r \<le> length ns"
  shows "zsl_search cond h (zlevel zsl) (header zsl) 0 = Some (updates (node_addrs zsl ns) (node_heights ns) r (zlevel zsl))"
proof -
  have t: "towers h (zlevel zsl) (node_addrs zsl ns) (node_heights ns)" "heights_ok (zlevel zsl) (node_heights ns)"
    using rep by (simp_all add: zsl_rep_def)
  then have "zlevel zsl \<le> node_heights ns ! 0" by (simp add: heights_ok_def)
  then show ?thesis
    using search_upto[OF t assms(2), of "zlevel zsl" 0] assms(3) by (simp add: updates_def)
qed

lemma search_rep:
  assumes "zsl_rep h zsl ns"
  shows "zsl_search (cmp_cond h (Num s) e) h (zlevel zsl) (header zsl) 0 =
    Some (updates (node_addrs zsl ns) (node_heights ns) (rank_of ns (s, e)) (zlevel zsl))"
  by (rule rep_search[OF assms cmp_cond_upto[OF assms] rank_of_le])


subsection \<open>Insertion\<close>

lemma updates_raise:
  assumes "heights_ok L lvs" "r < length lvs" "L \<le> l" "l \<le> ZSKIPLIST_MAXLEVEL"
  shows "updates qs lvs r L @ replicate (l - L) (qs ! 0, 0) = updates qs lvs r l"
proof (rule nth_equalityI)
  fix i assume "i < length (updates qs lvs r L @ replicate (l - L) (qs ! 0, 0))"
  then have i: "i < l" using assms(3) by (simp add: updates_def)
  have "prv lvs i r = 0" if "L \<le> i"
  proof (rule prv_eqI)
    show "i < lvs ! 0" using assms(1,4) i by (simp add: heights_ok_def)
    show "\<forall>m. 0 < m \<longrightarrow> m \<le> r \<longrightarrow> lvs ! m \<le> i"
      using assms(1,2) that unfolding heights_ok_def by (meson le_trans le_less_trans)
  qed simp
  then show "(updates qs lvs r L @ replicate (l - L) (qs ! 0, 0)) ! i = updates qs lvs r l ! i"
    using i by (cases "i < L") (simp_all add: updates_def nth_append)
qed (use assms(3) in \<open>simp add: updates_def\<close>)

lemma raise_levels:
  assumes t: "towers h L qs lvs" and hg: "heights_ok L lvs" and l: "L < l" "l \<le> ZSKIPLIST_MAXLEVEL" and qs: "distinct qs"
    and n: "n = of_nat (length qs - 1)"
  shows "\<exists>h'. for_loop (\<lambda>i h. zslSetNodeSpanAtLevel h (qs ! 0) i n) [L..<l] h = Some h' \<and> bare h' = bare h \<and>
    towers h' l qs lvs \<and> (\<forall>y. y \<noteq> qs ! 0 \<longrightarrow> level_at h' y = level_at h y)"
proof -
  have len: "length lvs = length qs" "lvs \<noteq> []" "lvs ! 0 = ZSKIPLIST_MAXLEVEL" "1 \<le> L" using t hg by (auto simp: towers_def heights_ok_def)
  then have q0: "0 < length qs" by auto
  define x where "x = (\<lambda>i. the (level_at h (qs ! 0) i))"
  have x: "level_at h (qs ! 0) i = Some (x i)" "forward (x i) = map_option ((!) qs) (nxt lvs i 0)" if i: "i < ZSKIPLIST_MAXLEVEL" for i
  proof -
    obtain y where "level_at h (qs ! 0) i = Some y" "forward y = map_option ((!) qs) (nxt lvs i 0)"
      using t q0 i len(3) unfolding towers_def by metis
    then show "level_at h (qs ! 0) i = Some (x i)" "forward (x i) = map_option ((!) qs) (nxt lvs i 0)" by (simp_all add: x_def)
  qed
  define G where "G = (\<lambda>i y. if y = qs ! 0 then Some ((x i)\<lparr>span := n\<rparr>) else level_at h y i)"
  have "\<exists>h'. for_loop (\<lambda>i h. zslSetNodeSpanAtLevel h (qs ! 0) i n) [L..<l] h = Some h' \<and> bare h' = bare h \<and>
      level_at h' = (\<lambda>y j. if L \<le> j \<and> j < l then G j y else level_at h y j)"
  proof (rule for_loop_levels)
    fix i h' assume i: "L \<le> i" "i < l" and same: "\<And>y. level_at h' y i = level_at h y i"
    have "level_at h' (qs ! 0) i = Some (x i)" using same x(1)[of i] i l by simp
    from set_span_ok(1)[OF this, of n] obtain h'' where h'': "zslSetNodeSpanAtLevel h' (qs ! 0) i n = Some h''" "bare h'' = bare h'"
      "level_at h'' = (\<lambda>y j. if y = qs ! 0 \<and> j = i then Some (if i > 0 then (x i)\<lparr>span := n\<rparr> else x i) else level_at h' y j)"
      by blast
    have "level_at h'' = (\<lambda>y j. if j = i then G i y else level_at h' y j)"
      using i(1) len(4) same by (simp add: h''(3) G_def fun_eq_iff)
    then show "\<exists>h''. zslSetNodeSpanAtLevel h' (qs ! 0) i n = Some h'' \<and> bare h'' = bare h' \<and>
        level_at h'' = (\<lambda>y j. if j = i then G i y else level_at h' y j)"
      using h''(1,2) by blast
  qed
  then obtain h' where h': "for_loop (\<lambda>i h. zslSetNodeSpanAtLevel h (qs ! 0) i n) [L..<l] h = Some h'" "bare h' = bare h"
      "level_at h' = (\<lambda>y j. if L \<le> j \<and> j < l then G j y else level_at h y j)" by blast
  have "towers h' l qs lvs"
    unfolding towers_def
  proof (intro conjI allI impI len)
    fix j i assume j: "j < length qs" and i: "i < lvs ! j"
    obtain y where y: "level_at h (qs ! j) i = Some y" "forward y = map_option ((!) qs) (nxt lvs i j)"
        "0 < i \<and> i < L \<longrightarrow> span y = of_nat (dist lvs i j)"
      using t j i unfolding towers_def by blast
    show "\<exists>y. level_at h' (qs ! j) i = Some y \<and> forward y = map_option ((!) qs) (nxt lvs i j) \<and>
        (0 < i \<and> i < l \<longrightarrow> span y = of_nat (dist lvs i j))"
    proof (cases "L \<le> i")
      case False
      then show ?thesis using y h'(3) by simp
    next
      case True
      have j0: "j = 0"
      proof (rule ccontr)
        assume "j \<noteq> 0"
        then have "lvs ! j \<le> L" using hg j len(1) by (simp add: heights_ok_def)
        then show False using i True by simp
      qed
      have none: "nxt lvs i 0 = None" by (rule nxt_above[OF hg True])
      show ?thesis
      proof (cases "i < l")
        case True
        then show ?thesis
          using h'(3) \<open>L \<le> i\<close> x(2)[of i] i j0 len none n by (simp add: G_def dist_def)
      qed (use y h'(3) in simp)
    qed
  qed
  moreover have "\<forall>y. y \<noteq> qs ! 0 \<longrightarrow> level_at h' y = level_at h y" using h'(3) by (auto simp: G_def fun_eq_iff)
  ultimately show ?thesis using h'(1,2) by blast
qed


lemma heap_eqI:
  assumes "bare h' y = bare h y" "level_at h' y = level_at h y"
  shows "h' y = h y"
proof (cases "h y")
  case None
  then show ?thesis using assms(1) by (simp add: bare_def)
next
  case (Some n)
  then obtain m where m: "h' y = Some m" "m\<lparr>level := []\<rparr> = n\<lparr>level := []\<rparr>" "length (level m) = length (level n)"
    using assms(1) by (auto simp: bare_def)
  have "level m ! i = level n ! i" if "i < length (level n)" for i
    using fun_cong[OF assms(2), of i] m Some that by (simp add: level_at_conv)
  then have "level m = level n" using m(3) by (intro nth_equalityI) auto
  then have "m = n" using m(2) by (metis zskiplistNode.surjective zskiplistNode.update_convs(5))
  then show ?thesis using m(1) Some by simp
qed

lemma bare_Some: "bare h x = Some (n, l) \<Longrightarrow> \<exists>m. h x = Some m \<and> n = m\<lparr>level := []\<rparr> \<and> l = length (level m)"
  by (auto simp: bare_def)

lemma heights_mono: "heights_ok L lvs \<Longrightarrow> L \<le> l \<Longrightarrow> l \<le> ZSKIPLIST_MAXLEVEL \<Longrightarrow> heights_ok l lvs"
  unfolding heights_ok_def by (meson le_trans)

lemma insert_prepare:
  assumes rep: "zsl_rep h zsl ns" and l: "l \<le> ZSKIPLIST_MAXLEVEL" and r: "r \<le> length ns"
  defines "qs \<equiv> node_addrs zsl ns" and "lvs \<equiv> node_heights ns" and "L \<equiv> max (zlevel zsl) l"
  shows "\<exists>h'. (if l > zlevel zsl then do {
              h \<leftarrow> for_loop (\<lambda>i h. zslSetNodeSpanAtLevel h (header zsl) i (zlength zsl)) [zlevel zsl..<l] h;
              h \<leftarrow> set_node h (header zsl) (\<lambda>n. n\<lparr>levels := l\<rparr>);
              Some (h, zsl\<lparr>zlevel := l\<rparr>, updates qs lvs r (zlevel zsl) @ replicate (l - zlevel zsl) (header zsl, 0))
            } else Some (h, zsl, updates qs lvs r (zlevel zsl))) = Some (h', zsl\<lparr>zlevel := L\<rparr>, updates qs lvs r L) \<and>
    towers h' L qs lvs \<and> heights_ok L lvs \<and> (\<exists>hn. bare h' (header zsl) = Some (hn, ZSKIPLIST_MAXLEVEL)) \<and>
    (\<forall>y. y \<noteq> header zsl \<longrightarrow> bare h' y = bare h y \<and> level_at h' y = level_at h y)"
proof (cases "l > zlevel zsl")
  case False
  then have "L = zlevel zsl" by (simp add: L_def)
  then show ?thesis using False rep by (auto simp: zsl_rep_def qs_def lvs_def)
next
  case True
  then have L: "L = l" by (simp add: L_def)
  have t: "towers h (zlevel zsl) qs lvs" "heights_ok (zlevel zsl) lvs" "distinct qs" "zlength zsl = of_nat (length qs - 1)" "qs ! 0 = header zsl"
    using rep by (simp_all add: zsl_rep_def qs_def lvs_def)
  obtain h1 where h1: "for_loop (\<lambda>i h. zslSetNodeSpanAtLevel h (header zsl) i (zlength zsl)) [zlevel zsl..<l] h = Some h1" "bare h1 = bare h"
      "towers h1 l qs lvs" "\<forall>y. y \<noteq> header zsl \<longrightarrow> level_at h1 y = level_at h y"
    using raise_levels[OF t(1,2) True l t(3,4)] unfolding t(5) by blast
  obtain hn where hn: "bare h1 (header zsl) = Some (hn, ZSKIPLIST_MAXLEVEL)" using rep h1(2) by (auto simp: zsl_rep_def)
  then obtain m where "h1 (header zsl) = Some m" using bare_Some by blast
  then obtain h2 where h2: "set_node h1 (header zsl) (\<lambda>n. n\<lparr>levels := l\<rparr>) = Some h2" "level_at h2 = level_at h1"
      "bare h2 = (\<lambda>y. if y = header zsl then map_option (\<lambda>(m, k). (m\<lparr>levels := l\<rparr>, k)) (bare h1 (header zsl)) else bare h1 y)"
    using set_node_ok[of h1 "header zsl" m "\<lambda>n. n\<lparr>levels := l\<rparr>"] by auto
  have "heights_ok l lvs" using heights_mono[OF t(2) _ l] True by simp
  moreover have "updates qs lvs r (zlevel zsl) @ replicate (l - zlevel zsl) (header zsl, 0) = updates qs lvs r l"
    using updates_raise[OF t(2), of r l qs] True l r t(5) by (simp add: lvs_def)
  moreover have "towers h2 l qs lvs" using h1(3) towers_cong[OF h2(2)] by simp
  ultimately show ?thesis using True h1 h2 hn L by (intro exI[of _ h2]) auto
qed

text \<open>The pointers of the bottom level in terms of the list of nodes.\<close>

lemma node_fields_ins:
  assumes "r \<le> length ns" "j < Suc (length ns)"
  shows "node_fields (ins_at r x ns) j =
    (if j < r then node_fields ns j
     else if j = r then (case x of (a, l, s, e) \<Rightarrow>
       (\<lparr>score = Num s, backward = (if r = 0 then None else Some (fst (ns ! (r - 1)))), levels = l, ele = Some e, level = []\<rparr>, l))
     else if j = Suc r then (case node_fields ns r of (n, l) \<Rightarrow> (n\<lparr>backward := Some (fst x)\<rparr>, l))
     else node_fields ns (j - 1))"
  using assms by (auto simp: node_fields_def nth_ins_at split: prod.splits)

lemma sorted_ins_at:
  assumes "sorted_wrt (<) (node_keys ns)" "x \<notin> set (node_keys ns)"
  shows "sorted_wrt (<) (ins_at (rank_of ns x) x (node_keys ns))"
proof -
  let ?k = "node_keys ns" and ?r = "rank_of ns x"
  have "k < x" if "k \<in> set (take ?r ?k)" for k
    using that unfolding rank_of_def takeWhile_eq_take[symmetric] by (auto dest: set_takeWhileD)
  moreover have "x < k" if k: "k \<in> set (drop ?r ?k)" for k
  proof -
    obtain j where j: "?r \<le> j" "j < length ns" "k = ?k ! j"
      using k by (auto simp: in_set_conv_nth) (metis add.commute le_add2 less_diff_conv)
    then have "\<not> k < x" using rank_of_iff[OF assms(1) j(2), of x] by simp
    moreover have "k \<noteq> x" using k assms(2) by (metis in_set_dropD)
    ultimately show ?thesis by simp
  qed
  moreover have "sorted_wrt (<) (take ?r ?k @ drop ?r ?k)" using assms(1) by simp
  ultimately show ?thesis unfolding ins_at_def sorted_wrt_append by (auto simp: sorted_wrt_append)
qed


lemma node_mem: "j < length ns \<Longrightarrow> fst (ns ! j) \<in> set (node_addrs zsl ns)"
  by (simp add: node_addrs_def)

lemma node_not_header: "distinct (node_addrs zsl ns) \<Longrightarrow> j < length ns \<Longrightarrow> fst (ns ! j) \<noteq> header zsl"
  unfolding node_addrs_def by (metis distinct.simps(2) image_eqI list.set_map nth_mem)

lemma node_lists_ins:
  "node_addrs zsl (ins_at r x ns) = ins_at (Suc r) (fst x) (node_addrs zsl ns)"
  "node_heights (ins_at r x ns) = ins_at (Suc r) (fst (snd x)) (node_heights ns)"
  "node_keys (ins_at r x ns) = ins_at r (snd (snd x)) (node_keys ns)"
  by (simp_all add: node_addrs_def node_heights_def node_keys_def map_ins_at case_prod_beta)

lemma heights_ins:
  assumes "heights_ok L lvs" "1 \<le> l" "l \<le> L" "r < length lvs"
  shows "heights_ok L (ins_at (Suc r) l lvs)"
proof -
  have "1 \<le> ins_at (Suc r) l lvs ! k \<and> ins_at (Suc r) l lvs ! k \<le> L" if "0 < k" "k < Suc (length lvs)" for k
  proof (cases "Suc r < k")
    case True
    then have "0 < k - 1" "k - 1 < length lvs" using that by auto
    then show ?thesis using assms True unfolding heights_ok_def by (simp add: nth_ins_at)
  qed (use assms that in \<open>auto simp: heights_ok_def nth_ins_at\<close>)
  moreover have "ins_at (Suc r) l lvs ! 0 = lvs ! 0" using assms(4) by (simp add: nth_ins_at)
  moreover have "ins_at (Suc r) l lvs \<noteq> []" by (simp add: ins_at_def)
  ultimately show ?thesis using assms by (simp add: heights_ok_def)
qed

lemma zslInsertNode_rep:
  assumes rep: "zsl_rep h zsl ns" and new: "node \<notin> set (node_addrs zsl ns)" "bare h node = Some (nd, l)"
    and nd: "levels nd = l" "score nd = Num s" "ele nd = Some e" and l: "1 \<le> l" "l \<le> ZSKIPLIST_MAXLEVEL"
    and key: "(s, e) \<notin> set (node_keys ns)" and small: "Suc (length ns) < 2 ^ 64"
  shows "\<exists>h' zsl'. zslInsertNode h zsl node = Some (h', zsl') \<and>
    zsl_rep h' zsl' (ins_at (rank_of ns (s, e)) (node, l, s, e) ns) \<and> header zsl' = header zsl \<and>
    (\<forall>y. y \<notin> set (node_addrs zsl ns) \<longrightarrow> y \<noteq> node \<longrightarrow> h' y = h y)"
proof -
  define qs lvs r L where "qs = node_addrs zsl ns" and "lvs = node_heights ns" and "r = rank_of ns (s, e)" and "L = max (zlevel zsl) l"
  let ?ns = "ins_at r (node, l, s, e) ns"
  have r: "r \<le> length ns" "r < length qs" "r < length lvs" using rank_of_le[of ns "(s, e)"] by (simp_all add: r_def qs_def lvs_def)
  have t: "towers h (zlevel zsl) qs lvs" "heights_ok (zlevel zsl) lvs" "distinct qs" using rep by (simp_all add: zsl_rep_def qs_def lvs_def)
  have up: "zsl_search (cmp_cond h (Num s) e) h (zlevel zsl) (header zsl) 0 = Some (updates qs lvs r (zlevel zsl))"
    unfolding qs_def lvs_def r_def by (rule search_rep[OF rep])
  obtain h1 where h1: "(if l > zlevel zsl then do {
              h \<leftarrow> for_loop (\<lambda>i h. zslSetNodeSpanAtLevel h (header zsl) i (zlength zsl)) [zlevel zsl..<l] h;
              h \<leftarrow> set_node h (header zsl) (\<lambda>n. n\<lparr>levels := l\<rparr>);
              Some (h, zsl\<lparr>zlevel := l\<rparr>, updates qs lvs r (zlevel zsl) @ replicate (l - zlevel zsl) (header zsl, 0))
            } else Some (h, zsl, updates qs lvs r (zlevel zsl))) = Some (h1, zsl\<lparr>zlevel := L\<rparr>, updates qs lvs r L)"
    "towers h1 L qs lvs" "heights_ok L lvs" "\<exists>hn. bare h1 (header zsl) = Some (hn, ZSKIPLIST_MAXLEVEL)"
    "\<And>y. y \<noteq> header zsl \<Longrightarrow> bare h1 y = bare h y \<and> level_at h1 y = level_at h y"
    using insert_prepare[OF rep l(2) r(1)] unfolding qs_def lvs_def L_def by blast
  have nh: "node \<noteq> header zsl" "node \<notin> set qs" using new(1) by (auto simp: node_addrs_def qs_def)
  obtain m where m: "h node = Some m" "nd = m\<lparr>level := []\<rparr>" "l = length (level m)" using bare_Some[OF new(2)] by blast
  have "\<forall>i<l. level_at h1 node i \<noteq> None" using h1(5)[OF nh(1)] m by (simp add: level_at_conv)
  then obtain h2 where h2: "do { h \<leftarrow> for_loop (insert_link node (updates qs lvs r L)) [0..<l] h1;
      for_loop (incr_link (updates qs lvs r L)) [l..<L] h } = Some h2" "bare h2 = bare h1"
      "towers h2 L (ins_at (Suc r) node qs) (ins_at (Suc r) l lvs)"
      "\<And>y. y \<notin> set qs \<Longrightarrow> y \<noteq> node \<Longrightarrow> level_at h2 y = level_at h1 y"
    using insert_links[OF h1(2,3) r(2) t(3) nh(2) l(1)] by (auto simp: L_def)
  have u0: "arr_get (updates qs lvs r L) 0 = Some (qs ! r, of_nat r)"
    using prv_0[OF h1(3) r(3)] l(1) by (simp add: updates_def arr_get_def L_def)
  define bk where "bk = (if qs ! r = header zsl then None else Some (qs ! r))"
  have bk: "bk = (if r = 0 then None else Some (fst (ns ! (r - 1))))"
  proof (cases r)
    case (Suc k)
    then have "fst (ns ! k) \<noteq> header zsl" using node_not_header[of zsl ns k] t(3) r(1) by (simp add: qs_def)
    then show ?thesis using Suc r(1) by (simp add: bk_def qs_def node_addrs_def)
  qed (simp add: bk_def qs_def)
  have "bare h2 node = Some (nd, l)" using h2(2) h1(5)[OF nh(1)] new(2) by simp
  then obtain h3 where h3: "set_node h2 node (\<lambda>n. n\<lparr>backward := bk\<rparr>) = Some h3" "level_at h3 = level_at h2"
      "bare h3 = (\<lambda>y. if y = node then Some (nd\<lparr>backward := bk\<rparr>, l) else bare h2 y)"
    using set_node_ok[of h2 node _ "\<lambda>n. n\<lparr>backward := bk\<rparr>"] bare_Some by fastforce
  have lists: "node_addrs zsl ?ns = ins_at (Suc r) node qs" "node_heights ?ns = ins_at (Suc r) l lvs"
    "node_keys ?ns = ins_at r (s, e) (node_keys ns)"
    by (simp_all add: node_lists_ins qs_def lvs_def)
  have hg: "heights_ok L (ins_at (Suc r) l lvs)" using heights_ins[OF h1(3) l(1) _ r(3)] by (simp add: L_def)
  have len: "length (ins_at (Suc r) node qs) = Suc (Suc (length ns))" "length lvs = Suc (length ns)" using r by (simp_all add: qs_def lvs_def)
  have f: "forward_at h3 node 0 = Some (if r < length ns then Some (fst (ns ! r)) else None)"
  proof -
    have "forward_at h3 (ins_at (Suc r) node qs ! Suc r) 0 =
        Some (map_option ((!) (ins_at (Suc r) node qs)) (nxt (ins_at (Suc r) l lvs) 0 (Suc r)))"
      using h2(3) towers_cong[OF h3(2)] len l(1) r by (intro towers_forward) (simp_all add: nth_ins_at)
    moreover have "nxt (ins_at (Suc r) l lvs) 0 (Suc r) = (if r < length ns then Some (Suc (Suc r)) else None)"
      using nxt_0[OF hg, of "Suc r"] r len by simp
    ultimately show ?thesis using r by (auto simp: nth_ins_at qs_def)
  qed
  define zsl' where "zsl' = zsl\<lparr>zlevel := L, tail := (if r < length ns then tail zsl else Some node), zlength := zlength zsl + 1\<rparr>"
  have "\<exists>h4. (case (if r < length ns then Some (fst (ns ! r)) else None) of
              Some q \<Rightarrow> do { h \<leftarrow> set_node h3 q (\<lambda>n. n\<lparr>backward := Some node\<rparr>); Some (h, zsl\<lparr>zlevel := L\<rparr>) }
            | None \<Rightarrow> Some (h3, zsl\<lparr>zlevel := L, tail := Some node\<rparr>)) =
      Some (h4, zsl\<lparr>zlevel := L, tail := (if r < length ns then tail zsl else Some node)\<rparr>) \<and> level_at h4 = level_at h3 \<and>
      bare h4 = (\<lambda>y. if r < length ns \<and> y = fst (ns ! r) then map_option (\<lambda>(n, k). (n\<lparr>backward := Some node\<rparr>, k)) (bare h3 y) else bare h3 y)"
  proof (cases "r < length ns")
    case True
    then have q: "fst (ns ! r) \<noteq> node" "fst (ns ! r) \<noteq> header zsl"
      using nh(2) t(3) node_mem[OF True, of zsl] node_not_header[OF _ True] by (auto simp: qs_def)
    have "bare h3 (fst (ns ! r)) = Some (node_fields ns r)"
      using True q rep h1(5) by (simp add: h3(3) h2(2) zsl_rep_def)
    then obtain x where "h3 (fst (ns ! r)) = Some x" by (metis bare_Some prod.exhaust)
    from set_node_ok[of h3 _ x "\<lambda>n. n\<lparr>backward := Some node\<rparr>", OF this] True show ?thesis
      by (auto simp: fun_eq_iff)
  qed (auto simp: fun_eq_iff)
  then obtain h4 where h4: "(case (if r < length ns then Some (fst (ns ! r)) else None) of
              Some q \<Rightarrow> do { h \<leftarrow> set_node h3 q (\<lambda>n. n\<lparr>backward := Some node\<rparr>); Some (h, zsl\<lparr>zlevel := L\<rparr>) }
            | None \<Rightarrow> Some (h3, zsl\<lparr>zlevel := L, tail := Some node\<rparr>)) =
      Some (h4, zsl\<lparr>zlevel := L, tail := (if r < length ns then tail zsl else Some node)\<rparr>)" "level_at h4 = level_at h3"
      "bare h4 = (\<lambda>y. if r < length ns \<and> y = fst (ns ! r) then map_option (\<lambda>(n, k). (n\<lparr>backward := Some node\<rparr>, k)) (bare h3 y) else bare h3 y)"
    by blast
  have mf: "levels m = l" "score m = Num s" "zslGetNodeElement h node = Some e" using m nd by (auto simp: zslGetNodeElement_def)
  have "zslInsertNode h zsl node = Some (h4, zsl')"
  proof -
    have links: "(for_loop (insert_link node (updates qs lvs r L)) [0..<l] h1 \<bind>
        (\<lambda>h. for_loop (incr_link (updates qs lvs r L)) [l..<L] h \<bind> g)) = g h2" for g :: "_ \<Rightarrow> ('a zheap \<times> zskiplist) option"
      using h2(1) by (simp flip: bind_assoc) 
    show ?thesis
      unfolding zslInsertNode_def
      by (simp only: m(1) mf up bind.bind_lunit Let_def isnan.simps if_False h1(1) prod.case)
         (simp add: links u0 h3(1) f h4(1) zsl'_def flip: bk_def)
  qed
  moreover have "zsl_rep h4 zsl' ?ns"
    unfolding zsl_rep_def
  proof (intro conjI allI impI)
    have hd': "header zsl' = header zsl" "zlevel zsl' = L" by (simp_all add: zsl'_def)
    have addrs: "node_addrs zsl' ?ns = ins_at (Suc r) node qs" using lists(1) by (simp add: node_addrs_def hd'(1))
    show "distinct (node_addrs zsl' ?ns)" unfolding addrs using t(3) nh(2) by (simp add: distinct_ins_at)
    have "bare h4 (header zsl) = bare h1 (header zsl)"
      using node_not_header[of zsl ns r] t(3) nh(1) by (auto simp: h4(3) h3(3) h2(2) qs_def)
    then show "\<exists>hn. bare h4 (header zsl') = Some (hn, ZSKIPLIST_MAXLEVEL)" using h1(4) hd'(1) by simp
    show "heights_ok (zlevel zsl') (node_heights ?ns)" using hg lists(2) hd'(2) by simp
    show "towers h4 (zlevel zsl') (node_addrs zsl' ?ns) (node_heights ?ns)"
      unfolding addrs lists(2) hd'(2) using h2(3) towers_cong[OF h3(2)] towers_cong[OF h4(2)] by simp
    show "zlevel zsl' \<in> set (tl (node_heights ?ns))" if "1 < zlevel zsl'"
    proof -
      have "set (tl (node_heights ?ns)) = insert l (set (tl lvs))"
        by (simp add: lvs_def node_heights_def map_ins_at set_ins_at)
      moreover have "1 < zlevel zsl \<longrightarrow> zlevel zsl \<in> set (tl lvs)" using rep by (simp add: zsl_rep_def lvs_def)
      ultimately show ?thesis using that by (auto simp: hd'(2) L_def max_def)
    qed
    show "tail zsl' = (if ?ns = [] then None else Some (fst (last ?ns)))"
      using rep by (auto simp: zsl'_def zsl_rep_def ins_at_def last_drop)
    show "zlength zsl' = of_nat (length ?ns)" "length ?ns < 2 ^ 64"
      using rep r(1) small by (simp_all add: zsl'_def zsl_rep_def add.commute)
    show "sorted_wrt (<) (node_keys ?ns)"
    proof -
      have "sorted_wrt (<) (node_keys ns)" using rep by (simp add: zsl_rep_def)
      then show ?thesis unfolding lists(3) using sorted_ins_at[OF _ key] by (simp add: r_def)
    qed
    fix j assume "j < length ?ns"
    then have j: "j < Suc (length ns)" using r(1) by simp
    have old: "bare h3 (fst (ns ! k)) = Some (node_fields ns k)" if k: "k < length ns" for k
    proof -
      have "fst (ns ! k) \<noteq> node" "fst (ns ! k) \<noteq> header zsl"
        using node_mem[OF k, of zsl] nh(2) node_not_header[OF _ k, of zsl] t(3) by (auto simp: qs_def)
      then show ?thesis using rep h1(5) k by (simp add: h3(3) h2(2) zsl_rep_def)
    qed
    have inj: "fst (ns ! k) = fst (ns ! r) \<longleftrightarrow> k = r" if "k < length ns" "r < length ns" for k
      using t(3) that nth_eq_iff_index_eq[of "map fst ns" k r] by (simp add: qs_def node_addrs_def)
    have new: "fst (ns ! r) \<noteq> node" if "r < length ns" using node_mem[OF that, of zsl] nh(2) by (auto simp: qs_def)
    consider "j < r" | "j = r" | "j = Suc r" | k where "j = Suc k" "r < k" by (cases j) (auto, linarith)
    then show "bare h4 (fst (?ns ! j)) = Some (node_fields ?ns j)"
    proof cases
      case 1
      then show ?thesis using old[of j] inj[of j] r(1) j by (auto simp: nth_ins_at node_fields_ins h4(3))
    next
      case 2
      have "nd\<lparr>backward := bk\<rparr> = \<lparr>score = Num s, backward = bk, levels = l, ele = Some e, level = []\<rparr>"
        using nd m(2) by simp
      then show ?thesis
        using 2 new r(1) j bk by (auto simp: nth_ins_at node_fields_ins h4(3) h3(3))
    next
      case 3
      then have "r < length ns" using j by simp
      then show ?thesis using 3 old[of r] r(1) j by (simp add: nth_ins_at node_fields_ins h4(3) split: prod.split)
    next
      case (4 k)
      then show ?thesis using old[of k] inj[of k] r(1) j by (auto simp: nth_ins_at node_fields_ins h4(3))
    qed
  qed
  moreover have "\<forall>y. y \<notin> set (node_addrs zsl ns) \<longrightarrow> y \<noteq> node \<longrightarrow> h4 y = h y"
  proof (intro allI impI)
    fix y assume y: "y \<notin> set (node_addrs zsl ns)" "y \<noteq> node"
    then have "y \<noteq> header zsl" "r < length ns \<Longrightarrow> y \<noteq> fst (ns ! r)" using node_mem[of r ns zsl] by (auto simp: node_addrs_def)
    then show "h4 y = h y"
      using y h1(5)[of y] h2(4)[of y] by (intro heap_eqI) (auto simp: h4(2,3) h3(2,3) h2(2) qs_def)
  qed
  ultimately show ?thesis by (auto simp: r_def zsl'_def)
qed


lemma zslRandomLevel_bounds: "zslRandomLevel rs = Some lv \<Longrightarrow> 1 \<le> lv \<and> lv \<le> ZSKIPLIST_MAXLEVEL"
proof -
  have ge: "zslRandomLevel_loop rs a = Some b \<Longrightarrow> a \<le> b" for a b
    by (induction rs arbitrary: a) (auto split: if_splits dest: Suc_leD)
  assume "zslRandomLevel rs = Some lv"
  then obtain b where "zslRandomLevel_loop rs 1 = Some b" "lv = (if b < ZSKIPLIST_MAXLEVEL then b else ZSKIPLIST_MAXLEVEL)"
    by (auto simp: zslRandomLevel_def bind_Some_conv)
  with ge[of 1 b] show ?thesis by (auto simp: ZSKIPLIST_MAXLEVEL_def)
qed

lemma node_in_heap:
  assumes "zsl_rep h zsl ns" "y \<in> set (node_addrs zsl ns)"
  shows "h y \<noteq> None"
proof -
  obtain j where j: "j < Suc (length ns)" "y = node_addrs zsl ns ! j"
    using assms(2) by (metis in_set_conv_nth length_node_lists(1))
  have "bare h y \<noteq> None"
  proof (cases j)
    case 0
    then show ?thesis using j assms(1) by (auto simp: zsl_rep_def)
  next
    case (Suc k)
    then show ?thesis using j assms(1) by (simp add: zsl_rep_def)
  qed
  then show ?thesis by (simp add: bare_def)
qed

lemma zsl_rep_frame:
  assumes rep: "zsl_rep h zsl ns" and same: "\<And>y. y \<in> set (node_addrs zsl ns) \<Longrightarrow> h' y = h y"
  shows "zsl_rep h' zsl ns"
proof -
  have s: "bare h' y = bare h y" "level_at h' y = level_at h y" if "y \<in> set (node_addrs zsl ns)" for y
    using same[OF that] by (simp_all add: bare_def level_at_conv fun_eq_iff)
  have "towers h' L (node_addrs zsl ns) (node_heights ns) = towers h L (node_addrs zsl ns) (node_heights ns)" for L
    using s(2) nth_mem[of _ "node_addrs zsl ns"] by (simp add: towers_def)
  moreover have "header zsl \<in> set (node_addrs zsl ns)" by (simp add: node_addrs_def)
  ultimately show ?thesis using rep s(1) node_mem[of _ ns zsl] by (simp add: zsl_rep_def)
qed

lemma zslInsert_rep:
  assumes rep: "zsl_rep h zsl ns" and new: "h a = None" and rs: "zslRandomLevel rs = Some lv"
    and key: "(s, e) \<notin> set (node_keys ns)" and small: "Suc (length ns) < 2 ^ 64"
  shows "\<exists>h' zsl'. zslInsert h zsl rs a junk (Num s) e = Some (h', zsl', a) \<and>
    zsl_rep h' zsl' (ins_at (rank_of ns (s, e)) (a, lv, s, e) ns) \<and> header zsl' = header zsl \<and>
    (\<forall>y. y \<notin> set (node_addrs zsl ns) \<longrightarrow> y \<noteq> a \<longrightarrow> h' y = h y)"
proof -
  define h0 where "h0 = h(a \<mapsto> \<lparr>score = Num s, backward = None, levels = lv, ele = Some e, level = map junk [0..<lv]\<rparr>)"
  have na: "a \<notin> set (node_addrs zsl ns)" using new node_in_heap[OF rep] by blast
  have "zsl_rep h0 zsl ns" using zsl_rep_frame[OF rep, of h0] na by (metis h0_def fun_upd_other)
  moreover have "bare h0 a = Some (\<lparr>score = Num s, backward = None, levels = lv, ele = Some e, level = []\<rparr>, lv)"
    by (simp add: h0_def bare_def)
  ultimately obtain h' zsl' where i: "zslInsertNode h0 zsl a = Some (h', zsl')"
      "zsl_rep h' zsl' (ins_at (rank_of ns (s, e)) (a, lv, s, e) ns)" "header zsl' = header zsl"
      "\<forall>y. y \<notin> set (node_addrs zsl ns) \<longrightarrow> y \<noteq> a \<longrightarrow> h' y = h0 y"
    using zslInsertNode_rep[OF _ na _ _ _ _ _ _ key small] zslRandomLevel_bounds[OF rs]
    by (metis (no_types, lifting) zskiplistNode.select_convs(1,3,4))
  then have "zslInsert h zsl rs a junk (Num s) e = Some (h', zsl', a)"
    using new rs by (simp add: zslInsert_def zslCreateNode_def flip: h0_def)
  then show ?thesis using i(2-4) by (auto simp: h0_def)
qed

lemma zslCreate_rep:
  assumes "h a = None"
  shows "\<exists>h' zsl. zslCreate h a = Some (h', zsl) \<and> zsl_rep h' zsl [] \<and> (\<forall>y. y \<noteq> a \<longrightarrow> h' y = h y)"
proof -
  let ?h = "h(a \<mapsto> zslCreateHeaderNode)" and ?z = "\<lparr>header = a, tail = None, zlength = 0, zlevel = 1\<rparr>"
  have "nxt [ZSKIPLIST_MAXLEVEL] i 0 = None" for i by (simp add: nxt_def)
  moreover have "level_at ?h a i = Some \<lparr>forward = None, span = 0\<rparr>" if "i < ZSKIPLIST_MAXLEVEL" for i
    using that by (simp add: level_at_conv zslCreateHeaderNode_def)
  ultimately have "towers ?h 1 [a] [ZSKIPLIST_MAXLEVEL]" by (simp add: towers_def)
  then have "zsl_rep ?h ?z []"
    by (simp add: zsl_rep_def node_addrs_def node_heights_def node_keys_def heights_ok_def bare_def zslCreateHeaderNode_def ZSKIPLIST_MAXLEVEL_def)
  then show ?thesis using assms by (simp add: zslCreate_def)
qed

end
