(* ===== verification/Skiplist_Del.thy ===== *)
theory Skiplist_Del
  imports Skiplist_Ops
begin

text \<open>Deletion and the change of a score keep the representation.\<close>

subsection \<open>Deletion\<close>

lemma drop_levels_ok:
  assumes "towers h L qs lvs" "heights_ok L lvs" "qs \<noteq> []"
  shows "\<exists>h' L'. drop_levels h (qs ! 0) L = Some (h', L') \<and> bare h' = bare h \<and> towers h' L' qs lvs \<and> heights_ok L' lvs \<and>
    (1 < L' \<longrightarrow> L' \<in> set (tl lvs)) \<and> (\<forall>y. y \<noteq> qs ! 0 \<longrightarrow> level_at h' y = level_at h y)"
  using assms
proof (induction h "qs ! 0" L rule: drop_levels.induct)
  case (1 h l)
  have len: "length lvs = length qs" "lvs ! 0 = ZSKIPLIST_MAXLEVEL" using 1(2,3) by (auto simp: towers_def heights_ok_def)
  have l: "Suc l < lvs ! 0" using 1(3) by (simp add: heights_ok_def)
  obtain x where x: "level_at h (qs ! 0) (Suc l) = Some x" "forward x = map_option ((!) qs) (nxt lvs (Suc l) 0)"
    using 1(2,4) l unfolding towers_def by (metis length_greater_0_conv)
  show ?case
  proof (cases "nxt lvs (Suc l) 0")
    case (Some k)
    then have k: "0 < k" "k < length lvs" "Suc l < lvs ! k" using nxt_Some[OF Some] by auto
    moreover have "lvs ! k \<le> Suc (Suc l)" using 1(3) k by (simp add: heights_ok_def)
    ultimately have "lvs ! k = Suc (Suc l)" by simp
    then have "Suc (Suc l) = tl lvs ! (k - 1)" "k - 1 < length (tl lvs)" using k by (simp_all add: nth_tl)
    then have "Suc (Suc l) \<in> set (tl lvs)" using nth_mem by metis
    then show ?thesis using Some x 1(2,3) by (simp add: forward_at_def)
  next
    case None
    obtain h1 where h1: "set_level h (qs ! 0) (Suc l) (\<lambda>lv. lv\<lparr>span := 0\<rparr>) = Some h1" "bare h1 = bare h"
      "level_at h1 = (\<lambda>y j. if y = qs ! 0 \<and> j = Suc l then Some (x\<lparr>span := 0\<rparr>) else level_at h y j)"
      using set_level_ok[OF x(1)] by blast
    have low: "lvs ! m \<le> Suc l" if "0 < m" "m < length lvs" for m
      using nxt_is[of lvs "Suc l" 0] None that by (simp add: is_nxt_def)
    then have hg: "heights_ok (Suc l) lvs" using 1(3) by (simp add: heights_ok_def)
    have t: "towers h1 (Suc l) qs lvs"
      unfolding towers_def
    proof (intro conjI allI impI len)
      fix j i assume ji: "j < length qs" "i < lvs ! j"
      obtain y where y: "level_at h (qs ! j) i = Some y" "forward y = map_option ((!) qs) (nxt lvs i j)"
          "0 < i \<and> i < Suc (Suc l) \<longrightarrow> span y = of_nat (dist lvs i j)"
        using 1(2) ji unfolding towers_def by blast
      show "\<exists>y. level_at h1 (qs ! j) i = Some y \<and> forward y = map_option ((!) qs) (nxt lvs i j) \<and>
          (0 < i \<and> i < Suc l \<longrightarrow> span y = of_nat (dist lvs i j))"
        using y x(1) by (auto simp: h1(3))
    qed
    have fn: "forward_at h (qs ! 0) (Suc l) = Some None" using None x by (simp add: forward_at_def)
    have "drop_levels h (qs ! 0) (Suc (Suc l)) = drop_levels h1 (qs ! 0) (Suc l)" using fn h1(1) by simp
    moreover have "\<exists>h' L'. drop_levels h1 (qs ! 0) (Suc l) = Some (h', L') \<and> bare h' = bare h1 \<and> towers h' L' qs lvs \<and> heights_ok L' lvs \<and>
      (1 < L' \<longrightarrow> L' \<in> set (tl lvs)) \<and> (\<forall>y. y \<noteq> qs ! 0 \<longrightarrow> level_at h' y = level_at h1 y)"
      by (rule 1(1)[OF fn refl h1(1) t hg 1(4)])
    ultimately show ?thesis using h1(2,3) by (auto simp: fun_eq_iff)
  qed
qed (auto simp: heights_ok_def)

lemma updates_ins:
  assumes "r < length qs" "length lvs = length qs"
  shows "updates (ins_at (Suc r) x qs) (ins_at (Suc r) l lvs) r n = updates qs lvs r n"
proof -
  have p: "k \<le> r \<Longrightarrow> prv (ins_at (Suc r) l lvs) i k = prv lvs i k" for i k
    using assms by (induction k) (auto simp: nth_ins_at)
  show ?thesis using assms prv_le[of lvs _ r] by (auto simp: updates_def p nth_ins_at less_Suc_eq_le)
qed

lemma zslUnlinkNode_rep:
  assumes rep: "zsl_rep h zsl (ins_at r (node, l, s, e) ns)" and r: "r \<le> length ns"
  shows "\<exists>h' zsl'. zslUnlinkNode h zsl node (updates (node_addrs zsl ns) (node_heights ns) r (zlevel zsl)) = Some (h', zsl') \<and>
    zsl_rep h' zsl' ns \<and> header zsl' = header zsl \<and> node \<notin> set (node_addrs zsl ns) \<and>
    (\<forall>y. y \<notin> set (node_addrs zsl ns) \<longrightarrow> h' y = h y)"
proof -
  define qs lvs L where "qs = node_addrs zsl ns" and "lvs = node_heights ns" and "L = zlevel zsl"
  let ?ns = "ins_at r (node, l, s, e) ns" and ?up = "updates qs lvs r L"
  have lists: "node_addrs zsl ?ns = ins_at (Suc r) node qs" "node_heights ?ns = ins_at (Suc r) l lvs"
    "node_keys ?ns = ins_at r (s, e) (node_keys ns)"
    by (simp_all add: node_lists_ins qs_def lvs_def)
  have rl: "r < length qs" "r < length lvs" "length lvs = length qs" using r by (simp_all add: qs_def lvs_def)
  have R: "distinct (ins_at (Suc r) node qs)" "heights_ok L (ins_at (Suc r) l lvs)" "towers h L (ins_at (Suc r) node qs) (ins_at (Suc r) l lvs)"
    "tail zsl = Some (fst (last ?ns))" "zlength zsl = of_nat (Suc (length ns))" "Suc (length ns) < 2 ^ 64"
    "sorted_wrt (<) (ins_at r (s, e) (node_keys ns))" "\<exists>hn. bare h (header zsl) = Some (hn, ZSKIPLIST_MAXLEVEL)"
    "\<And>j. j < Suc (length ns) \<Longrightarrow> bare h (fst (?ns ! j)) = Some (node_fields ?ns j)"
    using rep r lists unfolding zsl_rep_def L_def by (auto simp: ins_at_def)
  have d: "distinct qs" "node \<notin> set qs" using R(1) by (simp_all add: distinct_ins_at)
  have l: "1 \<le> l" "l \<le> L"
  proof -
    have "ins_at (Suc r) l lvs ! Suc r = l" "Suc r < length (ins_at (Suc r) l lvs)" using rl by (simp_all add: nth_ins_at)
    then show "1 \<le> l" "l \<le> L" using R(2) unfolding heights_ok_def by (metis zero_less_Suc)+
  qed
  have hg: "heights_ok L lvs"
  proof -
    have "1 \<le> lvs ! k \<and> lvs ! k \<le> L" if "0 < k" "k < length lvs" for k
    proof -
      let ?k = "if k \<le> r then k else Suc k"
      have "ins_at (Suc r) l lvs ! ?k = lvs ! k" "0 < ?k" "?k < length (ins_at (Suc r) l lvs)" using rl that by (auto simp: nth_ins_at)
      then show ?thesis using R(2) unfolding heights_ok_def by metis
    qed
    moreover have "lvs ! 0 = ZSKIPLIST_MAXLEVEL" "lvs \<noteq> []" by (simp_all add: lvs_def node_heights_def)
    ultimately show ?thesis using R(2) by (simp add: heights_ok_def)
  qed
  obtain h1 where h1: "for_loop (unlink_link node ?up) [0..<L] h = Some h1" "bare h1 = bare h" "towers h1 L qs lvs"
      "\<And>y. y \<notin> set qs \<Longrightarrow> level_at h1 y = level_at h y"
    using unlink_links[OF R(3) hg rl(1,3) d l(2)] by blast
  have "\<exists>x. level_at h node 0 = Some x \<and> forward x = map_option ((!) (ins_at (Suc r) node qs)) (nxt (ins_at (Suc r) l lvs) 0 (Suc r))"
    using R(3) rl l(1) unfolding towers_def by (metis Suc_mono le_Suc_eq length_ins_at less_Suc_eq_le less_one not_less nth_ins_at order.refl order_less_imp_le)
  then have f: "forward_at h1 node 0 = Some (if r < length ns then Some (fst (ns ! r)) else None)"
    using h1(4)[OF d(2)] nxt_0[OF R(2), of "Suc r"] rl
    by (auto simp: forward_at_def nth_ins_at) (auto simp: qs_def lvs_def)
  define bk where "bk = (if r = 0 then None else Some (fst (ns ! (r - 1))))"
  have "bare h node = Some (\<lparr>score = Num s, backward = bk, levels = l, ele = Some e, level = []\<rparr>, l)"
    using R(9)[of r] r by (simp add: nth_ins_at node_fields_ins bk_def)
  then obtain m where m: "h1 node = Some m" "backward m = bk"
    using bare_Some[of h1 node] unfolding h1(2) by (metis zskiplistNode.select_convs(2) zskiplistNode.surjective zskiplistNode.update_convs(5))
  have q: "fst (ns ! k) \<noteq> node" "fst (ns ! k) \<noteq> header zsl" if "k < length ns" for k
    using node_mem[OF that, of zsl] d node_not_header[OF _ that, of zsl] by (auto simp: qs_def)
  have fields: "bare h (fst (ns ! k)) = Some (if k = r then (case node_fields ns r of (n, l) \<Rightarrow> (n\<lparr>backward := Some node\<rparr>, l)) else node_fields ns k)"
    if "k < length ns" for k
    using R(9)[of "if k < r then k else Suc k"] that r by (cases "k < r") (auto simp: nth_ins_at node_fields_ins)
  define zsl1 where "zsl1 = zsl\<lparr>tail := (if r < length ns then tail zsl else bk)\<rparr>"
  have "\<exists>h2. (case (if r < length ns then Some (fst (ns ! r)) else None) of
            Some q \<Rightarrow> do { h \<leftarrow> set_node h1 q (\<lambda>n. n\<lparr>backward := backward m\<rparr>); Some (h, zsl) }
          | None \<Rightarrow> Some (h1, zsl\<lparr>tail := backward m\<rparr>)) = Some (h2, zsl1) \<and> level_at h2 = level_at h1 \<and>
      bare h2 = (\<lambda>y. if r < length ns \<and> y = fst (ns ! r) then map_option (\<lambda>(n, k). (n\<lparr>backward := bk\<rparr>, k)) (bare h1 y) else bare h1 y)"
  proof (cases "r < length ns")
    case True
    then obtain x where "h1 (fst (ns ! r)) = Some x" using fields[OF True] bare_Some[of h1 "fst (ns ! r)"] unfolding h1(2) by (metis prod.exhaust)
    from set_node_ok[of h1 _ x "\<lambda>n. n\<lparr>backward := bk\<rparr>", OF this] True show ?thesis
      unfolding m(2) by (auto simp: fun_eq_iff zsl1_def)
  qed (auto simp: fun_eq_iff m(2) zsl1_def)
  then obtain h2 where h2: "(case (if r < length ns then Some (fst (ns ! r)) else None) of
            Some q \<Rightarrow> do { h \<leftarrow> set_node h1 q (\<lambda>n. n\<lparr>backward := backward m\<rparr>); Some (h, zsl) }
          | None \<Rightarrow> Some (h1, zsl\<lparr>tail := backward m\<rparr>)) = Some (h2, zsl1)" "level_at h2 = level_at h1"
      "bare h2 = (\<lambda>y. if r < length ns \<and> y = fst (ns ! r) then map_option (\<lambda>(n, k). (n\<lparr>backward := bk\<rparr>, k)) (bare h1 y) else bare h1 y)"
    by blast
  have "towers h2 L qs lvs" "qs \<noteq> []" "qs ! 0 = header zsl" using h1(3) towers_cong[OF h2(2)] by (simp_all add: qs_def node_addrs_def)
  then obtain h3 L' where h3: "drop_levels h2 (header zsl) L = Some (h3, L')" "bare h3 = bare h2" "towers h3 L' qs lvs" "heights_ok L' lvs"
      "1 < L' \<longrightarrow> L' \<in> set (tl lvs)" "\<And>y. y \<noteq> header zsl \<Longrightarrow> level_at h3 y = level_at h2 y"
    using drop_levels_ok[OF _ hg, of h2 qs] by metis
  define zsl' where "zsl' = zsl1\<lparr>zlevel := L', zlength := zlength zsl - 1\<rparr>"
  have zs: "header zsl1 = header zsl" "zlevel zsl1 = L" "zlength zsl1 = zlength zsl" by (simp_all add: zsl1_def L_def)
  have "zslUnlinkNode h zsl node ?up = Some (h3, zsl')"
    unfolding zslUnlinkNode_def L_def[symmetric]
    by (simp only: h1(1) f m(1) bind.bind_lunit h2(1) prod.case zs h3(1) zsl'_def)
  moreover have "zsl_rep h3 zsl' ns"
    unfolding zsl_rep_def
  proof (intro conjI allI impI)
    have hd': "header zsl' = header zsl" "zlevel zsl' = L'" by (simp_all add: zsl'_def zsl1_def)
    have addrs: "node_addrs zsl' ns = qs" by (simp add: node_addrs_def hd'(1) qs_def)
    show "distinct (node_addrs zsl' ns)" "heights_ok (zlevel zsl') (node_heights ns)"
      "towers h3 (zlevel zsl') (node_addrs zsl' ns) (node_heights ns)"
      using d(1) h3(3,4) by (simp_all add: addrs hd' lvs_def[symmetric])
    show "zlevel zsl' \<in> set (tl (node_heights ns))" if "1 < zlevel zsl'" using that h3(5) by (simp add: hd' lvs_def)
    have "bare h3 (header zsl) = bare h (header zsl)" using q(2)[of r] by (auto simp: h3(2) h2(3) h1(2))
    then show "\<exists>hn. bare h3 (header zsl') = Some (hn, ZSKIPLIST_MAXLEVEL)" using R(8) hd'(1) by simp
    show "tail zsl' = (if ns = [] then None else Some (fst (last ns)))"
    proof (cases "r < length ns")
      case True
      then have "last ?ns = last ns" "ns \<noteq> []" by (auto simp: ins_at_def last_drop)
      then show ?thesis using R(4) True by (simp add: zsl'_def zsl1_def)
    next
      case False
      then show ?thesis using r by (simp add: zsl'_def zsl1_def bk_def last_conv_nth)
    qed
    show "zlength zsl' = of_nat (length ns)" "length ns < 2 ^ 64" using R(5,6) by (simp_all add: zsl'_def)
    have "sorted_wrt (<) (take r (node_keys ns) @ drop r (node_keys ns))"
      using R(7) unfolding ins_at_def by (simp add: sorted_wrt_append del: append_take_drop_id)
    then show "sorted_wrt (<) (node_keys ns)" by simp
    fix j assume j: "j < length ns"
    have inj: "fst (ns ! j) = fst (ns ! r) \<longleftrightarrow> j = r" if "r < length ns"
      using d(1) j that nth_eq_iff_index_eq[of "map fst ns" j r] by (simp add: qs_def node_addrs_def)
    show "bare h3 (fst (ns ! j)) = Some (node_fields ns j)"
    proof (cases "j = r")
      case True
      then show ?thesis using fields[OF j] j
        by (simp add: h3(2) h2(3) h1(2) split: prod.split) (auto simp: node_fields_def bk_def split: prod.splits)
    next
      case False
      then show ?thesis using fields[OF j] inj by (auto simp: h3(2) h2(3) h1(2))
    qed
  qed
  moreover have "\<forall>y. y \<notin> set (node_addrs zsl ns) \<longrightarrow> h3 y = h y"
  proof (intro allI impI)
    fix y assume y: "y \<notin> set (node_addrs zsl ns)"
    then have "y \<noteq> header zsl" "r < length ns \<Longrightarrow> y \<noteq> fst (ns ! r)" using node_mem[of r ns zsl] by (auto simp: node_addrs_def)
    then show "h3 y = h y" using y h1(4)[of y] h3(6)[of y] by (intro heap_eqI) (auto simp: h3(2) h2(2,3) h1(2) qs_def)
  qed
  ultimately show ?thesis using d(2) by (auto simp: zsl'_def zsl1_def qs_def lvs_def L_def)
qed

lemma rank_of_nth:
  assumes "sorted_wrt (<) (node_keys ns)" "j < length ns"
  shows "rank_of ns (node_keys ns ! j) = j"
proof -
  have "\<not> j < rank_of ns (node_keys ns ! j)" using rank_of_iff[OF assms] by blast
  moreover have "\<not> rank_of ns (node_keys ns ! j) < j"
  proof
    assume less: "rank_of ns (node_keys ns ! j) < j"
    then have "node_keys ns ! rank_of ns (node_keys ns ! j) < node_keys ns ! j"
      using assms by (intro sorted_wrt_nth_less[of "(<)"]) simp_all
    then show False using rank_of_iff[OF assms(1)] less assms(2) by simp
  qed
  ultimately show ?thesis by simp
qed

definition del_at :: "nat \<Rightarrow> 'a list \<Rightarrow> 'a list" where
  "del_at j xs = take j xs @ drop (Suc j) xs"

lemma ins_del_at: "j < length xs \<Longrightarrow> ins_at j (xs ! j) (del_at j xs) = xs"
  by (simp add: ins_at_def del_at_def min_def id_take_nth_drop[symmetric])

lemma length_del_at [simp]: "j < length xs \<Longrightarrow> length (del_at j xs) = length xs - 1"
  by (simp add: del_at_def)

lemma node_at:
  assumes "zsl_rep h zsl ns" "j < length ns" "ns ! j = (a, l, s, e)"
  shows "\<exists>n. h a = Some n \<and> score n = Num s \<and> ele n = Some e \<and> levels n = l \<and> length (level n) = l \<and>
    backward n = (if j = 0 then None else Some (fst (ns ! (j - 1)))) \<and>
    forward_at h a 0 = Some (if Suc j < length ns then Some (fst (ns ! Suc j)) else None)"
proof -
  have b: "bare h a = Some (node_fields ns j)" using assms unfolding zsl_rep_def by force
  then obtain n where n: "h a = Some n" "(n\<lparr>level := []\<rparr>, length (level n)) = node_fields ns j"
    by (auto simp: bare_def)
  have t: "towers h (zlevel zsl) (node_addrs zsl ns) (node_heights ns)" "heights_ok (zlevel zsl) (node_heights ns)"
    using assms(1) by (simp_all add: zsl_rep_def)
  have "forward_at h (node_addrs zsl ns ! Suc j) 0 =
      Some (map_option ((!) (node_addrs zsl ns)) (nxt (node_heights ns) 0 (Suc j)))"
    using assms(2) heights_pos[OF t(2), of "Suc j"] by (intro towers_forward[OF t(1)]) simp_all
  then have "forward_at h a 0 = Some (if Suc j < length ns then Some (fst (ns ! Suc j)) else None)"
    using nxt_0[OF t(2), of "Suc j"] assms(2,3) by simp
  then show ?thesis
    using n assms(3)
    by (cases n) (auto simp: node_fields_def)
qed

lemma zslFind_rep:
  assumes rep: "zsl_rep h zsl ns" and j: "j < length ns" "ns ! j = (a, l, s, e)"
  shows "zslFind h zsl a = Some (updates (node_addrs zsl (del_at j ns)) (node_heights (del_at j ns)) j (zlevel zsl))"
proof -
  have t: "towers h (zlevel zsl) (node_addrs zsl ns) (node_heights ns)" "heights_ok (zlevel zsl) (node_heights ns)"
    "sorted_wrt (<) (node_keys ns)"
    using rep by (simp_all add: zsl_rep_def)
  obtain n where n: "h a = Some n" "score n = Num s" "ele n = Some e" using node_at[OF assms] by blast
  have "node_keys ns ! j = (s, e)" using j by (simp add: node_keys_def)
  then have "rank_of ns (s, e) = j" using rank_of_nth[OF t(3) j(1)] by simp
  then have up: "zsl_search (cmp_cond h (Num s) e) h (zlevel zsl) (header zsl) 0 =
      Some (updates (node_addrs zsl ns) (node_heights ns) j (zlevel zsl))"
    using search_rep[OF rep, of s e] by simp
  have "prv (node_heights ns) 0 j = j" using prv_0[OF t(2)] j by simp
  then have u0: "arr_get (updates (node_addrs zsl ns) (node_heights ns) j (zlevel zsl)) 0 = Some (node_addrs zsl ns ! j, of_nat j)"
    using t(2) by (simp add: updates_def arr_get_def heights_ok_def)
  have "forward_at h (node_addrs zsl ns ! j) 0 = Some (map_option ((!) (node_addrs zsl ns)) (nxt (node_heights ns) 0 j))"
    using j heights_pos[OF t(2), of j] by (intro towers_forward[OF t(1)]) simp_all
  then have f: "forward_at h (node_addrs zsl ns ! j) 0 = Some (Some a)" using nxt_0[OF t(2), of j] j by simp
  have "updates (node_addrs zsl ns) (node_heights ns) j (zlevel zsl) =
      updates (node_addrs zsl (del_at j ns)) (node_heights (del_at j ns)) j (zlevel zsl)"
    using updates_ins[of j "node_addrs zsl (del_at j ns)" "node_heights (del_at j ns)" a l "zlevel zsl"]
      ins_del_at[OF j(1)] node_lists_ins(1)[of zsl j "ns ! j" "del_at j ns"] node_lists_ins(2)[of j "ns ! j" "del_at j ns"] j
    by simp
  then show ?thesis
    using n up u0 f by (simp add: zslFind_def zslGetNodeElement_def)
qed

lemma zsl_unlink_at:
  assumes rep: "zsl_rep h zsl ns" and j: "j < length ns" "ns ! j = (a, l, s, e)"
  shows "\<exists>h' zsl'. zslUnlinkNode h zsl a (updates (node_addrs zsl (del_at j ns)) (node_heights (del_at j ns)) j (zlevel zsl)) = Some (h', zsl') \<and>
    zsl_rep h' zsl' (del_at j ns) \<and> header zsl' = header zsl \<and> a \<notin> set (node_addrs zsl (del_at j ns)) \<and>
    (\<forall>y. y \<notin> set (node_addrs zsl (del_at j ns)) \<longrightarrow> h' y = h y)"
proof -
  have "ins_at j (a, l, s, e) (del_at j ns) = ns" using ins_del_at[OF j(1)] j(2) by simp
  then show ?thesis using rep j(1) by (intro zslUnlinkNode_rep[where l = l and s = s and e = e]) simp_all
qed

lemma addrs_del:
  assumes "j < length ns" "ns ! j = (a, l, s, e)"
  shows "set (node_addrs zsl ns) = insert a (set (node_addrs zsl (del_at j ns)))"
  using node_lists_ins(1)[of zsl j "(a, l, s, e)" "del_at j ns"] ins_del_at[OF assms(1)] assms(2) by (simp add: set_ins_at)

lemma zslDelete_rep:
  assumes rep: "zsl_rep h zsl ns" and j: "j < length ns" "ns ! j = (a, l, s, e)"
  shows "\<exists>h' zsl'. zslDelete h zsl a = Some (h', zsl') \<and> zsl_rep h' zsl' (del_at j ns) \<and> header zsl' = header zsl \<and>
    h' a = None \<and> (\<forall>y. y \<notin> set (node_addrs zsl ns) \<longrightarrow> h' y = h y)"
proof -
  obtain h1 zsl' where u: "zslUnlinkNode h zsl a (updates (node_addrs zsl (del_at j ns)) (node_heights (del_at j ns)) j (zlevel zsl)) = Some (h1, zsl')"
      "zsl_rep h1 zsl' (del_at j ns)" "header zsl' = header zsl" "a \<notin> set (node_addrs zsl (del_at j ns))"
      "\<forall>y. y \<notin> set (node_addrs zsl (del_at j ns)) \<longrightarrow> h1 y = h y"
    using zsl_unlink_at[OF assms] by blast
  have same: "set (node_addrs zsl ns) = insert a (set (node_addrs zsl (del_at j ns)))"
    by (rule addrs_del[OF j])
  have ha: "h1 a \<noteq> None" using u(4,5) node_at[OF assms] by auto
  have na: "a \<notin> set (node_addrs zsl' (del_at j ns))" using u(3,4) by (simp add: node_addrs_def)
  have "zsl_rep (h1(a := None)) zsl' (del_at j ns)" using zsl_rep_frame[OF u(2), of "h1(a := None)"] na by (metis fun_upd_other)
  then show ?thesis
    using u zslFind_rep[OF assms] ha same by (auto simp: zslDelete_def zslFreeNode_def)
qed

subsection \<open>Change of a score\<close>

lemma rank_of_eqI:
  assumes "sorted_wrt (<) (node_keys ns)" "r \<le> length ns" "0 < r \<Longrightarrow> node_keys ns ! (r - 1) < x"
    "r < length ns \<Longrightarrow> x < node_keys ns ! r"
  shows "rank_of ns x = r"
proof -
  have "r \<le> rank_of ns x" using rank_of_iff[OF assms(1), of "r - 1" x] assms(2,3) by (cases r) auto
  moreover have "\<not> r < rank_of ns x"
  proof
    assume a: "r < rank_of ns x"
    then have "r < length ns" using rank_of_le[of ns x] by simp
    then show False using rank_of_iff[OF assms(1), of r x] a assms(4) by (meson order.asym)
  qed
  ultimately show ?thesis by simp
qed

lemma nth_del_at: "j < length xs \<Longrightarrow> k < length xs - 1 \<Longrightarrow> del_at j xs ! k = (if k < j then xs ! k else xs ! Suc k)"
  by (auto simp: del_at_def nth_append min_def)

lemma ins_at_replace: "j < length xs \<Longrightarrow> ins_at j x (del_at j xs) = xs[j := x]"
  by (simp add: ins_at_def del_at_def upd_conv_take_nth_drop min_def)

lemma sorted_del_at:
  assumes "sorted_wrt P xs"
  shows "sorted_wrt P (del_at j xs)"
proof -
  have "sorted_wrt P (take j xs @ drop j xs)" using assms by simp
  moreover have "set (drop (Suc j) xs) \<subseteq> set (drop j xs)" by (rule set_drop_subset_set_drop) simp
  moreover have "sorted_wrt P (drop (Suc j) xs)" using assms by (rule sorted_wrt_drop)
  ultimately show ?thesis unfolding del_at_def sorted_wrt_append by blast
qed

lemma node_keys_del: "node_keys (del_at j ns) = del_at j (node_keys ns)"
  by (simp add: node_keys_def del_at_def take_map drop_map)

lemma node_lists_replace:
  assumes "j < length ns" "ns ! j = (a, l, k)"
  shows "node_addrs zsl (ns[j := (a, l, k')]) = node_addrs zsl ns" "node_heights (ns[j := (a, l, k')]) = node_heights ns"
proof -
  have "map fst ns ! j = a" "map (\<lambda>(a, l, k). l) ns ! j = l" using assms by simp_all
  then show "node_addrs zsl (ns[j := (a, l, k')]) = node_addrs zsl ns" "node_heights (ns[j := (a, l, k')]) = node_heights ns"
    unfolding node_addrs_def node_heights_def map_update by (metis fst_conv list_update_id, metis case_prod_conv list_update_id)
qed

lemma set_score_rep:
  assumes rep: "zsl_rep h zsl ns" and j: "j < length ns" "ns ! j = (a, l, s, e)" and n: "h a = Some n"
    and sorted: "sorted_wrt (<) (node_keys (ns[j := (a, l, s', e)]))"
  shows "zsl_rep (h(a \<mapsto> n\<lparr>score := Num s'\<rparr>)) zsl (ns[j := (a, l, s', e)])"
proof -
  let ?h = "h(a \<mapsto> n\<lparr>score := Num s'\<rparr>)" and ?ns = "ns[j := (a, l, s', e)]"
  note same = node_lists_replace[OF j]
  have lv: "level_at ?h = level_at h" using n by (auto simp: fun_eq_iff level_at_conv)
  have d: "distinct (node_addrs zsl ns)" using rep by (simp add: zsl_rep_def)
  have ah: "a \<noteq> header zsl" using node_not_header[OF d j(1)] j(2) by simp
  have fsts: "fst (?ns ! k) = fst (ns ! k)" if "k < length ns" for k using j that by (cases "k = j") simp_all
  have "bare ?h (fst (?ns ! k)) = Some (node_fields ?ns k)" if k: "k < length ns" for k
  proof -
    have b: "bare h (fst (ns ! k)) = Some (node_fields ns k)" using rep k by (simp add: zsl_rep_def)
    have eq: "fst (ns ! k) = a \<longleftrightarrow> k = j"
      using d k j nth_eq_iff_index_eq[of "map fst ns" k j] by (simp add: node_addrs_def)
    show ?thesis
    proof (cases "k = j")
      case True
      then show ?thesis using b j n fsts[of "j - 1"] by (cases n) (auto simp: bare_def node_fields_def)
    next
      case False
      then show ?thesis using b eq k fsts[OF k] fsts[of "k - 1"] by (auto simp: bare_def node_fields_def)
    qed
  qed
  moreover have "fst (last ?ns) = fst (last ns)" using j(1) fsts[of "length ns - 1"] by (cases "ns = []") (simp_all add: last_conv_nth)
  moreover have "bare ?h (header zsl) = bare h (header zsl)" using ah by (simp add: bare_def)
  ultimately show ?thesis using rep sorted towers_cong[OF lv] unfolding zsl_rep_def same by simp
qed

lemma zslUpdateScore_rep:
  assumes rep: "zsl_rep h zsl ns" and j: "j < length ns" "ns ! j = (a, l, s, e)"
    and key: "(s', e) \<notin> set (node_keys (del_at j ns))"
  shows "\<exists>h' zsl'. zslUpdateScore h zsl a (Num s') = Some (h', zsl') \<and>
    zsl_rep h' zsl' (ins_at (rank_of (del_at j ns) (s', e)) (a, l, s', e) (del_at j ns)) \<and> header zsl' = header zsl \<and>
    (\<forall>y. y \<notin> set (node_addrs zsl ns) \<longrightarrow> h' y = h y)"
proof -
  let ?ds = "del_at j ns" and ?k = "node_keys ns"
  have sorted: "sorted_wrt (<) ?k" "sorted_wrt (<) (node_keys ?ds)"
    using rep by (simp_all add: zsl_rep_def node_keys_del sorted_del_at)
  obtain n where n: "h a = Some n" "score n = Num s" "ele n = Some e" "levels n = l" "length (level n) = l"
      "backward n = (if j = 0 then None else Some (fst (ns ! (j - 1))))"
      "forward_at h a 0 = Some (if Suc j < length ns then Some (fst (ns ! Suc j)) else None)"
    using node_at[OF assms(1-3)] by blast
  have sc: "\<exists>m. h (fst (ns ! k)) = Some m \<and> score m = Num (fst (?k ! k))" if k: "k < length ns" for k
    using node_at[OF rep k] k by (cases "ns ! k") (auto simp: node_keys_def)
  define low high where "low = (0 < j \<longrightarrow> fst (?k ! (j - 1)) < s')" and "high = (Suc j < length ns \<longrightarrow> s' < fst (?k ! Suc j))"
  have lo: "(case backward n of None \<Rightarrow> Some True | Some b \<Rightarrow> do { m \<leftarrow> h b; Some (double_less (score m) (Num s')) }) = Some low"
    using sc[OF less_imp_diff_less[OF j(1)], of 1] by (auto simp: n(6) low_def)
  have hi: "(case (if Suc j < length ns then Some (fst (ns ! Suc j)) else None) of None \<Rightarrow> Some True
      | Some b \<Rightarrow> do { m \<leftarrow> h b; Some (double_less (Num s') (score m)) }) = Some high"
    using sc[of "Suc j"] by (auto simp: high_def)
  show ?thesis
  proof (cases "low \<and> high")
    case True
    have "rank_of ?ds (s', e) = j"
    proof (rule rank_of_eqI[OF sorted(2)])
      show "0 < j \<Longrightarrow> node_keys ?ds ! (j - 1) < (s', e)"
        using True j(1) by (auto simp: node_keys_del nth_del_at low_def less_prod_def)
      show "j < length ?ds \<Longrightarrow> (s', e) < node_keys ?ds ! j"
        using True j(1) by (auto simp: node_keys_del nth_del_at high_def less_prod_def)
    qed (use j in simp)
    then have ns': "ins_at (rank_of ?ds (s', e)) (a, l, s', e) ?ds = ns[j := (a, l, s', e)]"
      using ins_at_replace[OF j(1)] by simp
    have "sorted_wrt (<) (node_keys (ns[j := (a, l, s', e)]))"
      using sorted_ins_at[OF sorted(2) key] unfolding ns'[symmetric] node_lists_ins by simp
    from set_score_rep[OF assms(1-3) n(1) this]
    have "zsl_rep (h(a \<mapsto> n\<lparr>score := Num s'\<rparr>)) zsl (ns[j := (a, l, s', e)])" .
    moreover have "zslUpdateScore h zsl a (Num s') = Some (h(a \<mapsto> n\<lparr>score := Num s'\<rparr>), zsl)"
      using True unfolding zslUpdateScore_def by (simp only: n(1,7) bind.bind_lunit lo hi) (simp add: set_node_def n(1))
    moreover have "a \<in> set (node_addrs zsl ns)" using node_mem[OF j(1), of zsl] j(2) by simp
    ultimately show ?thesis unfolding ns' by auto
  next
    case False
    obtain h1 zsl1 where u: "zslUnlinkNode h zsl a (updates (node_addrs zsl ?ds) (node_heights ?ds) j (zlevel zsl)) = Some (h1, zsl1)"
        "zsl_rep h1 zsl1 ?ds" "header zsl1 = header zsl" "a \<notin> set (node_addrs zsl ?ds)"
        "\<forall>y. y \<notin> set (node_addrs zsl ?ds) \<longrightarrow> h1 y = h y"
      using zsl_unlink_at[OF assms(1-3)] by blast
    let ?h = "h1(a \<mapsto> n\<lparr>score := Num s'\<rparr>)"
    have ha: "h1 a = Some n" using u(4,5) n(1) by simp
    have addrs: "node_addrs zsl1 ?ds = node_addrs zsl ?ds" using u(3) by (simp add: node_addrs_def)
    have rep2: "zsl_rep ?h zsl1 ?ds" using zsl_rep_frame[OF u(2), of ?h] u(4) addrs by (metis fun_upd_other)
    have b: "bare ?h a = Some (n\<lparr>score := Num s', level := []\<rparr>, l)" using n(5) by (simp add: bare_def)
    have l: "1 \<le> l" "l \<le> ZSKIPLIST_MAXLEVEL"
    proof -
      have "heights_ok (zlevel zsl) (node_heights ns)" "node_heights ns ! Suc j = l" "Suc j < length (node_heights ns)"
        using rep j by (simp_all add: zsl_rep_def) (simp add: node_heights_def)
      then show "1 \<le> l" "l \<le> ZSKIPLIST_MAXLEVEL" unfolding heights_ok_def by (metis zero_less_Suc, metis le_trans zero_less_Suc)
    qed
    have "Suc (length ?ds) = length ns" "length ns < 2 ^ 64" using j(1) rep by (simp, simp only: zsl_rep_def)
    then have "Suc (length ?ds) < 2 ^ 64" by (simp only:)
    then obtain h' zsl' where i: "zslInsertNode ?h zsl1 a = Some (h', zsl')"
        "zsl_rep h' zsl' (ins_at (rank_of ?ds (s', e)) (a, l, s', e) ?ds)" "header zsl' = header zsl1"
        "\<forall>y. y \<notin> set (node_addrs zsl1 ?ds) \<longrightarrow> y \<noteq> a \<longrightarrow> h' y = ?h y"
      using zslInsertNode_rep[OF rep2 _ b _ _ _ l key] u(4) n(3,4) addrs by auto
    have "zslUpdateScore h zsl a (Num s') = Some (h', zsl')"
      using False unfolding zslUpdateScore_def
      by (simp only: n(1,7) bind.bind_lunit lo hi zslFind_rep[OF assms(1-3)] u(1) prod.case if_False)
         (simp add: set_node_def ha i(1))
    moreover have "\<forall>y. y \<notin> set (node_addrs zsl ns) \<longrightarrow> h' y = h y"
      using i(4) u(5) addrs addrs_del[OF j, of zsl] by auto
    ultimately show ?thesis using i(2,3) u(3) by auto
  qed
qed

end
