(* ===== verification/Skiplist_Rank.thy ===== *)
theory Skiplist_Rank
  imports Skiplist_Del
begin

text \<open>
  The queries that use the spans: the element at a rank, the rank of an element found by key, and the rank of
  a node found by walking to the end; and the release of a whole list.
\<close>

subsection \<open>The element at a rank\<close>

lemma rank_cond_upto:
  assumes "zsl_rep h zsl ns"
  shows "cond_upto (rank_cond R) (node_addrs zsl ns) (min (unat R) (length ns))"
  unfolding cond_upto_def
proof (intro conjI allI impI)
  fix j k assume k: "j < k" "k < length (node_addrs zsl ns)"
  then have kl: "k \<le> length ns" by simp
  then have b: "k < 2 ^ 64" using assms unfolding zsl_rep_def by (meson le_less_trans)
  have "(of_nat j :: u64) + of_nat (k - j) = of_nat k" using k by (simp flip: of_nat_add)
  moreover have "(of_nat k :: u64) \<le> R \<longleftrightarrow> k \<le> unat R" using b by (simp add: word_le_nat_alt unat_of_nat take_bit_nat_eq_self)
  ultimately show "rank_cond R (Some (node_addrs zsl ns ! k)) (of_nat j) (of_nat (k - j)) = Some (k \<le> min (unat R) (length ns))"
    using kl by (simp add: rank_cond_def)
qed (simp add: rank_cond_def)

lemma byRank_loop_rep:
  assumes rep: "zsl_rep h zsl ns" and j: "j \<le> min (unat R) (length ns)" "0 < n" "n \<le> zlevel zsl" "n \<le> node_heights ns ! j"
  shows "byRank_loop h R n (node_addrs zsl ns ! j) (of_nat j) =
    Some (if unat R \<le> length ns then Some (node_addrs zsl ns ! unat R) else None)"
  using j
proof (induction n arbitrary: j)
  case (Suc i)
  let ?qs = "node_addrs zsl ns" and ?lvs = "node_heights ns" and ?r = "min (unat R) (length ns)"
  have t: "towers h (zlevel zsl) ?qs ?lvs" "heights_ok (zlevel zsl) ?lvs" "length ns < 2 ^ 64" using rep unfolding zsl_rep_def by blast+
  let ?p = "prv ?lvs i ?r"
  have p: "?p \<le> ?r" by (rule prv_le)
  have w: "zsl_walk (rank_cond R) h i (?qs ! j) (of_nat j) = Some (?qs ! ?p, of_nat ?p)"
    using Suc.prems by (intro walk_upto[OF t(1,2) rank_cond_upto[OF rep]]) simp_all
  have eq: "of_nat ?p = R \<longleftrightarrow> ?p = unat R"
  proof -
    have "?p < 2 ^ 64" using p t(3) by (meson le_less_trans min.bounded_iff)
    then show ?thesis by (auto simp: word_unat_eq_iff unat_of_nat take_bit_nat_eq_self)
  qed
  show ?case
  proof (cases "?p = unat R")
    case True
    then have "unat R \<le> length ns" using p by simp
    then show ?thesis using w eq True by simp
  next
    case False
    show ?thesis
    proof (cases i)
      case 0
      have "?p = ?r" using 0 prv_0[OF t(2), of ?r] by simp
      then have "\<not> unat R \<le> length ns" using False by auto
      then show ?thesis using w eq False 0 by simp
    next
      case (Suc i')
      have "i < ?lvs ! 0" using Suc.prems(3) t(2) by (simp add: heights_ok_def)
      then have "i \<le> ?lvs ! ?p" using prv_level[of i ?lvs ?r] by simp
      then have "byRank_loop h R i (?qs ! ?p) (of_nat ?p) = Some (if unat R \<le> length ns then Some (?qs ! unat R) else None)"
        using Suc Suc.prems(3) by (intro Suc.IH p) simp_all
      then show ?thesis using w eq False by simp
    qed
  qed
qed simp

lemma zslGetElementByRank_rep:
  assumes "zsl_rep h zsl ns"
  shows "zslGetElementByRank h zsl R = Some (if unat R \<le> length ns then Some (node_addrs zsl ns ! unat R) else None)"
proof -
  have "heights_ok (zlevel zsl) (node_heights ns)" using assms by (simp add: zsl_rep_def)
  then have "0 < zlevel zsl" "zlevel zsl \<le> node_heights ns ! 0" by (simp_all add: heights_ok_def)
  then show ?thesis
    using byRank_loop_rep[OF assms, of 0 R "zlevel zsl"]
    by (simp add: zslGetElementByRank_def zslGetElementByRankFromNode_def)
qed

subsection \<open>The rank of an element\<close>

definition rank_upto :: "'s::linorder znode list \<Rightarrow> 's \<times> sds \<Rightarrow> nat" where
  "rank_upto ns x = (if x \<in> set (node_keys ns) then Suc (rank_of ns x) else rank_of ns x)"

lemma rank_upto_iff:
  assumes "sorted_wrt (<) (node_keys ns)" "j < length ns"
  shows "node_keys ns ! j \<le> x \<longleftrightarrow> j < rank_upto ns x" "node_keys ns ! j = x \<longleftrightarrow> x \<in> set (node_keys ns) \<and> Suc j = rank_upto ns x"
proof -
  have in_eq: "node_keys ns ! j = x \<longleftrightarrow> j = rank_of ns x" if x: "x \<in> set (node_keys ns)"
  proof -
    obtain k where k: "k < length ns" "x = node_keys ns ! k" using x by (metis in_set_conv_nth length_node_lists(3))
    then have "rank_of ns x = k" using rank_of_nth[OF assms(1)] by simp
    moreover have "node_keys ns ! j = node_keys ns ! k \<longleftrightarrow> j = k"
      using rank_of_nth[OF assms(1)] assms(2) k(1) by metis
    ultimately show ?thesis using k(2) by simp
  qed
  show "node_keys ns ! j = x \<longleftrightarrow> x \<in> set (node_keys ns) \<and> Suc j = rank_upto ns x"
    using in_eq assms(2) nth_mem[of j "node_keys ns"] by (auto simp: rank_upto_def)
  show "node_keys ns ! j \<le> x \<longleftrightarrow> j < rank_upto ns x"
    unfolding le_less rank_of_iff[OF assms] using in_eq assms(2) nth_mem[of j "node_keys ns"] by (auto simp: rank_upto_def)
qed

lemma rank_upto_le: "sorted_wrt (<) (node_keys ns) \<Longrightarrow> rank_upto ns x \<le> length ns"
proof -
  assume s: "sorted_wrt (<) (node_keys ns)"
  have "rank_of ns x < length ns" if x: "x \<in> set (node_keys ns)"
    using x rank_of_nth[OF s] by (metis in_set_conv_nth length_node_lists(3))
  then show ?thesis using rank_of_le[of ns x] by (auto simp: rank_upto_def)
qed

lemma le_cond_upto:
  assumes "zsl_rep h zsl ns"
  shows "cond_upto (\<lambda>next _ _. do { c \<leftarrow> zslCompareWithNode h (Num s) e next; Some (c \<ge> 0) }) (node_addrs zsl ns) (rank_upto ns (s, e))"
  unfolding cond_upto_def
proof (intro conjI allI impI)
  fix j k assume k: "j < k" "k < length (node_addrs zsl ns)"
  then obtain m where m: "k = Suc m" "m < length ns" by (cases k) auto
  have "sorted_wrt (<) (node_keys ns)" using assms by (simp add: zsl_rep_def)
  note le = rank_upto_iff(1)[OF this m(2), of "(s, e)"]
  obtain c where c: "zslCompareWithNode h (Num s) e (Some (fst (ns ! m))) = Some c"
    "c > 0 \<longleftrightarrow> node_keys ns ! m < (s, e)" "c = 0 \<longleftrightarrow> node_keys ns ! m = (s, e)"
    using compare_node[OF assms m(2)] by blast
  have "c \<ge> 0 \<longleftrightarrow> k \<le> rank_upto ns (s, e)" using c(2,3) le m(1) unfolding Suc_le_eq by (auto simp: le_less)
  then show "do { c \<leftarrow> zslCompareWithNode h (Num s) e (Some (node_addrs zsl ns ! k)); Some (c \<ge> 0) } = Some (k \<le> rank_upto ns (s, e))"
    using c(1) m by simp
qed (simp add: zslCompareWithNode_def)

lemma zslGetRank_loop_rep:
  assumes rep: "zsl_rep h zsl ns" and j: "j \<le> rank_upto ns (s, e)" "n \<le> zlevel zsl" "n \<le> node_heights ns ! j" "0 < n"
  shows "zslGetRank_loop h (header zsl) (Num s) e n (node_addrs zsl ns ! j) (of_nat j) =
    Some (if (s, e) \<in> set (node_keys ns) then of_nat (rank_upto ns (s, e)) else 0)"
  using j
proof (induction n arbitrary: j)
  case (Suc i)
  let ?qs = "node_addrs zsl ns" and ?lvs = "node_heights ns" and ?r = "rank_upto ns (s, e)"
  have t: "towers h (zlevel zsl) ?qs ?lvs" "heights_ok (zlevel zsl) ?lvs" "distinct ?qs" "sorted_wrt (<) (node_keys ns)"
    using rep unfolding zsl_rep_def by blast+
  have r: "?r \<le> length ns" by (rule rank_upto_le[OF t(4)])
  let ?p = "prv ?lvs i ?r"
  have p: "?p \<le> ?r" by (rule prv_le)
  have w: "zsl_walk (\<lambda>next _ _. do { c \<leftarrow> zslCompareWithNode h (Num s) e next; Some (c \<ge> 0) }) h i (?qs ! j) (of_nat j) =
      Some (?qs ! ?p, of_nat ?p)"
    using Suc.prems r by (intro walk_upto[OF t(1,2) le_cond_upto[OF rep]]) simp_all
  have rest: "i \<le> ?lvs ! ?p"
  proof -
    have "i < ?lvs ! 0" using Suc.prems(2) t(2) by (simp add: heights_ok_def)
    then show ?thesis using prv_level[of i ?lvs ?r] by simp
  qed
  define found where "found \<longleftrightarrow> (s, e) \<in> set (node_keys ns) \<and> ?p = ?r \<and> ?p \<noteq> 0"
  have f: "\<exists>c. (if ?qs ! ?p = header zsl then Some 1 else zslCompareWithNode h (Num s) e (Some (?qs ! ?p))) = Some c \<and>
      (?qs ! ?p \<noteq> header zsl \<and> c = 0 \<longleftrightarrow> found)"
  proof (cases ?p)
    case (Suc m)
    then have m: "m < length ns" using p r by simp
    then have "?qs ! ?p = fst (ns ! m)" "fst (ns ! m) \<noteq> header zsl" using Suc node_not_header[OF t(3) m] by simp_all
    then show ?thesis using compare_node[OF rep m, of s e] rank_upto_iff(2)[OF t(4) m, of "(s, e)"] Suc
      by (auto simp: found_def)
  qed (simp add: found_def)
  show ?case
  proof (cases found)
    case True
    then show ?thesis using w f by (auto simp: found_def)
  next
    case False
    have "zslGetRank_loop h (header zsl) (Num s) e (Suc i) (?qs ! j) (of_nat j) =
        zslGetRank_loop h (header zsl) (Num s) e i (?qs ! ?p) (of_nat ?p)"
      using w f False by auto
    also have "\<dots> = Some (if (s, e) \<in> set (node_keys ns) then of_nat ?r else 0)"
    proof (cases i)
      case 0
      have "?p = ?r" using 0 prv_0[OF t(2), of ?r] r by simp
      moreover have "?r \<noteq> 0" if "(s, e) \<in> set (node_keys ns)" using that by (simp add: rank_upto_def)
      ultimately show ?thesis using False 0 by (auto simp: found_def)
    next
      case (Suc i')
      then show ?thesis using Suc.prems(2) rest by (intro Suc.IH p) simp_all
    qed
    finally show ?thesis .
  qed
qed simp

lemma zslGetRank_rep:
  assumes "zsl_rep h zsl ns"
  shows "zslGetRank h zsl (Num s) e =
    Some (if (s, e) \<in> set (node_keys ns) then of_nat (Suc (rank_of ns (s, e))) else 0)"
proof -
  have "heights_ok (zlevel zsl) (node_heights ns)" using assms by (simp add: zsl_rep_def)
  then have "0 < zlevel zsl" "zlevel zsl \<le> node_heights ns ! 0" by (simp_all add: heights_ok_def)
  then show ?thesis
    using zslGetRank_loop_rep[OF assms, of 0 s e "zlevel zsl"] by (simp add: zslGetRank_def) (simp add: rank_upto_def)
qed

lemma rank_walk_rep:
  assumes rep: "zsl_rep h zsl ns" and j: "j < length ns"
  shows "rank_walk h (Some (fst (ns ! j))) d = Some (d + of_nat (length ns - Suc j))"
  using j
proof (induction "length ns - j" arbitrary: j d rule: less_induct)
  case less
  let ?qs = "node_addrs zsl ns" and ?lvs = "node_heights ns"
  have t: "towers h (zlevel zsl) ?qs ?lvs" "heights_ok (zlevel zsl) ?lvs" using rep unfolding zsl_rep_def by blast+
  obtain a l s e where n: "ns ! j = (a, l, s, e)" by (metis prod.exhaust)
  then have l: "?lvs ! Suc j = l" using less.prems by (simp add: node_heights_def)
  then have lv: "1 \<le> l" "l \<le> zlevel zsl"
    using t(2) less.prems unfolding heights_ok_def by (metis length_node_lists(2) not_less_eq zero_less_Suc)+
  obtain m where m: "h a = Some m" "levels m = l" using node_at[OF rep less.prems n] by blast
  have s: "zslGetNodeSpanAtLevel h a (l - 1) = Some (of_nat (dist ?lvs (l - 1) (Suc j)))"
    using towers_span[OF t, of "Suc j" "l - 1"] less.prems n l lv by simp
  have f: "forward_at h a (l - 1) = Some (map_option ((!) ?qs) (nxt ?lvs (l - 1) (Suc j)))"
    using towers_forward[OF t(1), of "Suc j" "l - 1"] less.prems n l lv by simp
  show ?case
  proof (cases "nxt ?lvs (l - 1) (Suc j)")
    case None
    have "rank_walk h None d' = Some d'" for d' by (subst rank_walk.simps) simp
    then show ?thesis using None m s f n by (subst rank_walk.simps) (simp add: Let_def dist_def)
  next
    case (Some k)
    then obtain k' where k: "k = Suc k'" "j < k'" "k' < length ns" using nxt_Some[OF Some] by (cases k) auto
    have "rank_walk h (Some (fst (ns ! k'))) (d + of_nat (k - Suc j)) = Some (d + of_nat (k - Suc j) + of_nat (length ns - Suc k'))"
      using k less.prems by (intro less.hyps) simp_all
    moreover have "d + of_nat (k - Suc j) + of_nat (length ns - Suc k') = d + of_nat (length ns - Suc j)"
      using k by (simp add: add.assoc flip: of_nat_add)
    ultimately show ?thesis using Some m s f n k by (subst rank_walk.simps) (simp add: Let_def dist_def)
  qed
qed

lemma zslGetRankByNode_rep:
  assumes "zsl_rep h zsl ns" "j < length ns"
  shows "zslGetRankByNode h zsl (Some (fst (ns ! j))) = Some (of_nat (Suc j))"
proof -
  have "(of_nat (length ns) :: u64) - of_nat (length ns - Suc j) = of_nat (Suc j)"
    using assms(2) by (simp add: of_nat_diff)
  moreover have "zlength zsl = of_nat (length ns)" using assms(1) by (simp add: zsl_rep_def)
  ultimately show ?thesis using rank_walk_rep[OF assms, of 0] by (simp add: zslGetRankByNode_def)
qed

subsection \<open>Release\<close>

lemma zslFree_loop_rep:
  assumes rep: "zsl_rep h zsl ns" and same: "\<And>k. j \<le> k \<Longrightarrow> k < length ns \<Longrightarrow> h' (fst (ns ! k)) = h (fst (ns ! k))"
  shows "zslFree_loop h' (if j < length ns then Some (fst (ns ! j)) else None) =
    Some (\<lambda>y. if y \<in> set (map fst (drop j ns)) then None else h' y)"
  using same
proof (induction "length ns - j" arbitrary: j h')
  case 0
  then show ?case by (subst zslFree_loop.simps) simp
next
  case (Suc n)
  then have j: "j < length ns" by simp
  obtain a l s e where n: "ns ! j = (a, l, s, e)" by (metis prod.exhaust)
  obtain m where m: "h a = Some m" "forward_at h a 0 = Some (if Suc j < length ns then Some (fst (ns ! Suc j)) else None)"
    using node_at[OF rep j n] by blast
  have ha: "h' a = h a" using Suc.prems[of j] j n by simp
  then have f: "forward_at h' a 0 = forward_at h a 0" by (simp add: forward_at_def level_at_def)
  have d: "distinct (map fst ns)" using rep by (simp add: zsl_rep_def node_addrs_def)
  have "(h'(a := None)) (fst (ns ! k)) = h (fst (ns ! k))" if k: "Suc j \<le> k" "k < length ns" for k
    using Suc.prems[of k] k j n d nth_eq_iff_index_eq[of "map fst ns" k j] by auto
  then have "zslFree_loop (h'(a := None)) (if Suc j < length ns then Some (fst (ns ! Suc j)) else None) =
      Some (\<lambda>y. if y \<in> set (map fst (drop (Suc j) ns)) then None else (h'(a := None)) y)"
    using Suc.hyps(2) by (intro Suc.hyps(1)) simp_all
  moreover have "drop j ns = (a, l, s, e) # drop (Suc j) ns" using j n by (metis Cons_nth_drop_Suc)
  ultimately show ?case
    using j n m f ha by (subst zslFree_loop.simps) (auto simp: zslFreeNode_def fun_eq_iff)
qed

lemma zslFree_rep:
  assumes rep: "zsl_rep h zsl ns"
  shows "zslFree h zsl = Some (h |` (- set (node_addrs zsl ns)))"
proof -
  have t: "towers h (zlevel zsl) (node_addrs zsl ns) (node_heights ns)" "heights_ok (zlevel zsl) (node_heights ns)" "distinct (node_addrs zsl ns)"
    using rep by (simp_all add: zsl_rep_def)
  have f: "forward_at h (header zsl) 0 = Some (if 0 < length ns then Some (fst (ns ! 0)) else None)"
    using towers_forward[OF t(1), of 0 0] heights_pos[OF t(2), of 0] nxt_0[OF t(2), of 0] by auto
  have "h (header zsl) \<noteq> None" using node_in_heap[OF rep, of "header zsl"] by (simp add: node_addrs_def)
  moreover have "zslFree_loop (h(header zsl := None)) (if 0 < length ns then Some (fst (ns ! 0)) else None) =
      Some (\<lambda>y. if y \<in> set (map fst (drop 0 ns)) then None else (h(header zsl := None)) y)"
    using node_not_header[OF t(3)] by (intro zslFree_loop_rep[OF rep]) simp
  ultimately show ?thesis
    using f by (auto simp: zslFree_def zslFreeNode_def fun_eq_iff node_addrs_def restrict_map_def)
qed

end
