(* ===== verification/Skiplist_Correct.thy ===== *)
theory Skiplist_Correct
  imports Skiplist_Rank
begin

text \<open>The properties of the skip list, each applied to a list of three nodes built by the model itself.\<close>

subsection \<open>An example\<close>

definition no_junk :: "nat \<Rightarrow> zskiplistLevel" where
  "no_junk i = \<lparr>forward = None, span = 0\<rparr>"

definition example_build :: "(int zheap \<times> zskiplist) option" where
  "example_build =
     do {
       (h, z) \<leftarrow> zslCreate Map.empty 0;
       (h, z, _) \<leftarrow> zslInsert h z [536870911] 1 no_junk (Num 5) [98];
       (h, z, _) \<leftarrow> zslInsert h z [7, 0, 2147483647] 2 no_junk (Num 5) [97];
       (h, z, _) \<leftarrow> zslInsert h z [1, 600000000] 3 no_junk (Num 9) [];
       Some (h, z)
     }"

definition example_zsl :: "int zheap \<times> zskiplist" where
  "example_zsl = the example_build"

definition example_nodes :: "int znode list" where
  "example_nodes = [(2, 3, 5, [97]), (1, 1, 5, [98]), (3, 2, 9, [])]"

lemma example_levels:
  "zslRandomLevel [536870911] = Some 1" "zslRandomLevel [7, 0, 2147483647] = Some 3" "zslRandomLevel [1, 600000000] = Some 2"
  by (simp_all add: zslRandomLevel_def ZSKIPLIST_MAXLEVEL_def)

lemma example_zsl_rep:
  "zsl_rep (fst example_zsl) (snd example_zsl) example_nodes" "\<forall>y. 4 \<le> y \<longrightarrow> fst example_zsl y = None"
proof -
  obtain h0 z0 where c: "zslCreate (Map.empty :: int zheap) 0 = Some (h0, z0)" "zsl_rep h0 z0 []" "\<forall>y. y \<noteq> 0 \<longrightarrow> h0 y = None"
    using zslCreate_rep[of Map.empty 0] by auto
  then have z0: "header z0 = 0" by (auto simp: zslCreate_def)
  obtain h1 z1 where i1: "zslInsert h0 z0 [536870911] 1 no_junk (Num 5) [98] = Some (h1, z1, 1)"
      "zsl_rep h1 z1 [(1, 1, 5, [98])]" "header z1 = 0" "\<forall>y. 2 \<le> y \<longrightarrow> h1 y = None"
    using zslInsert_rep[OF c(2) _ example_levels(1), of 1 5 "[98]" no_junk] c(3) z0
    by (auto simp: node_keys_def node_addrs_def rank_of_def ins_at_def)
  obtain h2 z2 where i2: "zslInsert h1 z1 [7, 0, 2147483647] 2 no_junk (Num 5) [97] = Some (h2, z2, 2)"
      "zsl_rep h2 z2 [(2, 3, 5, [97]), (1, 1, 5, [98])]" "header z2 = 0" "\<forall>y. 3 \<le> y \<longrightarrow> h2 y = None"
    using zslInsert_rep[OF i1(2) _ example_levels(2), of 2 5 "[97]" no_junk] i1(3,4)
    by (auto simp: node_keys_def node_addrs_def rank_of_def ins_at_def)
  obtain h3 z3 where i3: "zslInsert h2 z2 [1, 600000000] 3 no_junk (Num 9) [] = Some (h3, z3, 3)"
      "zsl_rep h3 z3 example_nodes" "\<forall>y. 4 \<le> y \<longrightarrow> h3 y = None"
    using zslInsert_rep[OF i2(2) _ example_levels(3), of 3 9 "[]" no_junk] i2(3,4)
    by (auto simp: node_keys_def node_addrs_def rank_of_def ins_at_def example_nodes_def)
  have eq: "example_zsl = (h3, z3)" using c(1) i1(1) i2(1) i3(1) by (simp add: example_zsl_def example_build_def)
  show "zsl_rep (fst example_zsl) (snd example_zsl) example_nodes" "\<forall>y. 4 \<le> y \<longrightarrow> fst example_zsl y = None"
    using i3(2,3) unfolding eq fst_conv snd_conv by blast+
qed

subsection \<open>Properties\<close>

text \<open>
  C8: inserting a new key into a skip list returns, puts the node at its place in the strict order of score and
  element on every level its tower reaches, with every forward and backward pointer, span, level, length and the
  tail right, and changes no cell outside the list.
\<close>

theorem zslInsert_correct:
  assumes "zsl_rep h zsl ns" "h a = None" "zslRandomLevel rs = Some lv" "(s, e) \<notin> set (node_keys ns)" "Suc (length ns) < 2 ^ 64"
  shows "\<exists>h' zsl'. zslInsert h zsl rs a junk (Num s) e = Some (h', zsl', a) \<and>
    zsl_rep h' zsl' (ins_at (rank_of ns (s, e)) (a, lv, s, e) ns) \<and>
    (\<forall>y. y \<notin> set (node_addrs zsl ns) \<longrightarrow> y \<noteq> a \<longrightarrow> h' y = h y)"
  using zslInsert_rep[OF assms] by blast

theorem zslInsert_correct_witness:
  "\<exists>h' zsl'. zslInsert (fst example_zsl) (snd example_zsl) [3, 2147483647] 4 no_junk (Num 7) [1, 2] = Some (h', zsl', 4) \<and>
    zsl_rep h' zsl' [(2, 3, 5, [97]), (1, 1, 5, [98]), (4, 2, 7, [1, 2]), (3, 2, 9, [])]"
proof -
  have "zslRandomLevel [3, 2147483647] = Some 2" by (simp add: zslRandomLevel_def ZSKIPLIST_MAXLEVEL_def)
  moreover have "ins_at (rank_of example_nodes (7, [1, 2])) (4, 2, 7, [1, 2]) example_nodes =
      [(2, 3, 5, [97]), (1, 1, 5, [98]), (4, 2, 7, [1, 2]), (3, 2, 9, [])]" by code_simp
  moreover have "(7, [1, 2]) \<notin> set (node_keys example_nodes)" by code_simp
  moreover have "Suc (length example_nodes) < 2 ^ 64" by (simp add: example_nodes_def)
  ultimately show ?thesis
    using zslInsert_correct[OF example_zsl_rep(1), of 4 "[3, 2147483647]" 2 7 "[1, 2]" no_junk] example_zsl_rep(2) by auto
qed

text \<open>
  C9: deleting a node of a skip list returns, unlinks it from every level, repairs the spans, drops the levels
  that become empty, frees exactly that node and changes no cell outside the list.
\<close>

theorem zslDelete_correct:
  assumes "zsl_rep h zsl ns" "j < length ns" "ns ! j = (a, l, s, e)"
  shows "\<exists>h' zsl'. zslDelete h zsl a = Some (h', zsl') \<and> zsl_rep h' zsl' (take j ns @ drop (Suc j) ns) \<and> h' a = None \<and>
    (\<forall>y. y \<notin> set (node_addrs zsl ns) \<longrightarrow> h' y = h y)"
  using zslDelete_rep[OF assms] unfolding del_at_def by blast

theorem zslDelete_correct_witness:
  "\<exists>h' zsl'. zslDelete (fst example_zsl) (snd example_zsl) 2 = Some (h', zsl') \<and> zsl_rep h' zsl' [(1, 1, 5, [98]), (3, 2, 9, [])] \<and>
    h' 2 = None"
  using zslDelete_correct[OF example_zsl_rep(1), of 0 2 3 5 "[97]"] by (auto simp: example_nodes_def)

text \<open>
  C17: changing the score of a node moves it to its new place, in place when it stays between its neighbours and by
  unlinking and reinserting the same node otherwise.
\<close>

theorem zslUpdateScore_correct:
  assumes "zsl_rep h zsl ns" "j < length ns" "ns ! j = (a, l, s, e)" "(s', e) \<notin> set (node_keys (take j ns @ drop (Suc j) ns))"
  shows "\<exists>h' zsl'. zslUpdateScore h zsl a (Num s') = Some (h', zsl') \<and>
    zsl_rep h' zsl' (let ns' = take j ns @ drop (Suc j) ns in ins_at (rank_of ns' (s', e)) (a, l, s', e) ns') \<and>
    (\<forall>y. y \<notin> set (node_addrs zsl ns) \<longrightarrow> h' y = h y)"
  using zslUpdateScore_rep[OF assms(1-3), of s'] assms(4) unfolding del_at_def Let_def by blast

theorem zslUpdateScore_correct_witness:
  "(\<exists>h' zsl'. zslUpdateScore (fst example_zsl) (snd example_zsl) 2 (Num 10) = Some (h', zsl') \<and>
      zsl_rep h' zsl' [(1, 1, 5, [98]), (3, 2, 9, []), (2, 3, 10, [97])]) \<and>
   (\<exists>h' zsl'. zslUpdateScore (fst example_zsl) (snd example_zsl) 2 (Num 4) = Some (h', zsl') \<and>
      zsl_rep h' zsl' [(2, 3, 4, [97]), (1, 1, 5, [98]), (3, 2, 9, [])])"
proof
  have n: "0 < length example_nodes" "example_nodes ! 0 = (2, 3, 5, [97])" by (simp_all add: example_nodes_def)
  have k: "(10, [97]) \<notin> set (node_keys (take 0 example_nodes @ drop (Suc 0) example_nodes))"
    "(4, [97]) \<notin> set (node_keys (take 0 example_nodes @ drop (Suc 0) example_nodes))" by code_simp+
  have r: "(let ns' = take 0 example_nodes @ drop (Suc 0) example_nodes in ins_at (rank_of ns' (10, [97])) (2, 3, 10, [97]) ns') =
      [(1, 1, 5, [98]), (3, 2, 9, []), (2, 3, 10, [97])]"
    "(let ns' = take 0 example_nodes @ drop (Suc 0) example_nodes in ins_at (rank_of ns' (4, [97])) (2, 3, 4, [97]) ns') =
      [(2, 3, 4, [97]), (1, 1, 5, [98]), (3, 2, 9, [])]" by code_simp+
  show "\<exists>h' zsl'. zslUpdateScore (fst example_zsl) (snd example_zsl) 2 (Num 10) = Some (h', zsl') \<and>
      zsl_rep h' zsl' [(1, 1, 5, [98]), (3, 2, 9, []), (2, 3, 10, [97])]"
    using zslUpdateScore_correct[OF example_zsl_rep(1) n k(1)] unfolding r(1) by blast
  show "\<exists>h' zsl'. zslUpdateScore (fst example_zsl) (snd example_zsl) 2 (Num 4) = Some (h', zsl') \<and>
      zsl_rep h' zsl' [(2, 3, 4, [97]), (1, 1, 5, [98]), (3, 2, 9, [])]"
    using zslUpdateScore_correct[OF example_zsl_rep(1) n k(2)] unfolding r(2) by blast
qed

text \<open>
  C16: the three rank queries agree: for the node at position \<open>j\<close>, the search by key and the walk from the node both
  give \<open>j + 1\<close>, and the element at rank \<open>j + 1\<close> is the node; a key that is not in the list has rank 0, and a rank beyond
  the length has no element.
\<close>

theorem zsl_ranks_correct:
  assumes rep: "zsl_rep h zsl ns"
  shows "(\<forall>j < length ns. case ns ! j of (a, l, s, e) \<Rightarrow>
      zslGetRank h zsl (Num s) e = Some (of_nat (Suc j)) \<and> zslGetRankByNode h zsl (Some a) = Some (of_nat (Suc j)) \<and>
      zslGetElementByRank h zsl (of_nat (Suc j)) = Some (Some a)) \<and>
    (\<forall>s e. (s, e) \<notin> set (node_keys ns) \<longrightarrow> zslGetRank h zsl (Num s) e = Some 0) \<and>
    (\<forall>R. unat R > length ns \<longrightarrow> zslGetElementByRank h zsl R = Some None)"
proof (intro conjI allI impI)
  fix j assume j: "j < length ns"
  obtain a l s e where n: "ns ! j = (a, l, s, e)" by (metis prod.exhaust)
  have k: "node_keys ns ! j = (s, e)" using j n by (simp add: node_keys_def)
  have b: "Suc j < 2 ^ 64" using j rep unfolding zsl_rep_def by (meson Suc_leI le_less_trans)
  have "sorted_wrt (<) (node_keys ns)" using rep by (simp add: zsl_rep_def)
  then have "rank_of ns (s, e) = j" "(s, e) \<in> set (node_keys ns)"
    using rank_of_nth[of ns j] nth_mem[of j "node_keys ns"] j k by simp_all
  then have "zslGetRank h zsl (Num s) e = Some (of_nat (Suc j))" using zslGetRank_rep[OF rep, of s e] by simp
  moreover have "zslGetElementByRank h zsl (of_nat (Suc j)) = Some (Some a)"
  proof -
    have "unat (of_nat (Suc j) :: u64) = Suc j" using b by (simp add: unat_of_nat del: of_nat_Suc)
    then show ?thesis using zslGetElementByRank_rep[OF rep, of "of_nat (Suc j)"] j n by simp
  qed
  ultimately show "case ns ! j of (a, l, s, e) \<Rightarrow>
      zslGetRank h zsl (Num s) e = Some (of_nat (Suc j)) \<and> zslGetRankByNode h zsl (Some a) = Some (of_nat (Suc j)) \<and>
      zslGetElementByRank h zsl (of_nat (Suc j)) = Some (Some a)"
    using zslGetRankByNode_rep[OF rep j] n by simp
qed (use zslGetRank_rep[OF rep] zslGetElementByRank_rep[OF rep] in auto)

theorem zsl_ranks_correct_witness:
  "zslGetRank (fst example_zsl) (snd example_zsl) (Num 5) [98] = Some 2 \<and>
   zslGetRankByNode (fst example_zsl) (snd example_zsl) (Some 3) = Some 3 \<and>
   zslGetElementByRank (fst example_zsl) (snd example_zsl) 1 = Some (Some 2) \<and>
   zslGetRank (fst example_zsl) (snd example_zsl) (Num 9) [98] = Some 0"
proof -
  note A = conjunct1[OF zsl_ranks_correct[OF example_zsl_rep(1)], rule_format]
  have "(9, [98]) \<notin> set (node_keys example_nodes)" by code_simp
  then show ?thesis
    using A[of 0] A[of 1] A[of 2] zsl_ranks_correct[OF example_zsl_rep(1)] by (simp add: example_nodes_def)
qed

text \<open>
  C39: releasing a list returns and frees the header and every node exactly once, and nothing else.
\<close>

theorem zslFree_correct:
  assumes "zsl_rep h zsl ns"
  shows "zslFree h zsl = Some (h |` (- set (node_addrs zsl ns)))"
  by (rule zslFree_rep[OF assms])

theorem zslFree_correct_witness:
  "zslFree (fst example_zsl) (snd example_zsl) = Some (fst example_zsl |` (- set (node_addrs (snd example_zsl) example_nodes)))"
  by (rule zslFree_correct[OF example_zsl_rep(1)])

end
