(* ===== verification/Listpack_Batch.thy ===== *)
theory Listpack_Batch
  imports Listpack_Seq
begin

text \<open>
  Insertion of several entries at once (\<^verbatim>\<open>lpBatchInsert\<close>, \<^verbatim>\<open>lpBatchAppend\<close>): one reallocation and one move make
  room for all of them. The result is the sequence with the payloads of the entries spliced in.
\<close>

subsection \<open>Encoding and writing the entries\<close>

definition ent_ele :: "listpackEntry \<Rightarrow> lp_ele" where
  "ent_ele e = (case e of SVal s \<Rightarrow> EleStr s | LVal v \<Rightarrow> EleInt (lpEncodeIntegerGetType v))"

definition ent_payload :: "listpackEntry \<Rightarrow> bytes" where
  "ent_payload e = (case e of SVal s \<Rightarrow> lp_encode s | LVal v \<Rightarrow> lpEncodeIntegerGetType v)"

definition ent_enc :: "listpackEntry \<Rightarrow> listpackInsertEntry" where
  "ent_enc e = \<lparr>ie_enctype = the (fst (ele_encoding (ent_ele e))), ie_enclen = length (ent_payload e),
     ie_backlen = lpEncodeBacklen (length (ent_payload e))\<rparr>"

lemma ent_ele_payload: "ele_payload (ent_ele e) = ent_payload e" "ent_ele e \<noteq> EleNone"
  by (simp_all add: ent_ele_def ent_payload_def ele_payload_def split: listpackEntry.split)

lemma lpEncodeEntries_eq: "lpEncodeEntries es = (map ent_enc es, length (body (map ent_payload es)))"
  by (induction es)
     (auto simp: ent_enc_def ent_payload_def ent_ele_def ele_encoding_def lpEncodeGetType_eq entry_def Let_def split: listpackEntry.split)

lemma store_entry:
  assumes "length mid = length (ent_payload e)"
  shows "(case ie_enctype (ent_enc e) of
      LP_ENCODING_INT bs \<Rightarrow> at_write (pre @ mid @ post) (int (length pre)) bs
    | LP_ENCODING_STRING \<Rightarrow>
        (case e of SVal s \<Rightarrow> lpEncodeString (pre @ mid @ post) (int (length pre)) s | LVal _ \<Rightarrow> None)) =
    Some (pre @ ent_payload e @ post)"
proof -
  obtain t where t: "fst (ele_encoding (ent_ele e)) = Some t" using ele_encoding_None[of "ent_ele e"] ent_ele_payload(2)[of e] by auto
  have "length mid = length (ele_payload (ent_ele e))" using assms by (simp add: ent_ele_payload)
  from store_payload[OF t this, of pre post] show ?thesis
    using t by (cases e) (simp_all add: ent_enc_def ent_payload_def ele_payload_simps ent_ele_def split: lp_enctype.splits)
qed

lemma lpWriteEntries_block:
  assumes "length mid = length (body (map ent_payload es))"
  shows "lpWriteEntries (pre @ mid @ post) (int (length pre)) es (map ent_enc es) newp =
    Some (pre @ body (map ent_payload es) @ post, int (length pre + length mid),
      if es = [] then newp else Some (int (length pre + length (body (map ent_payload (butlast es))))))"
  using assms
proof (induction es arbitrary: pre mid newp)
  case (Cons e es)
  let ?e = "ent_payload e" and ?b = "lpEncodeBacklen (length (ent_payload e))"
  obtain m1 m2 m3 where m: "mid = m1 @ m2 @ m3" "length m1 = length ?e" "length m2 = length ?b" "length m3 = length (body (map ent_payload es))"
  proof (rule that)
    show "mid = take (length ?e) mid @ take (length ?b) (drop (length ?e) mid) @ drop (length ?e + length ?b) mid"
      by (metis append_take_drop_id drop_drop add.commute)
  qed (use Cons.prems in \<open>simp_all add: entry_def\<close>)
  have w1: "(case ie_enctype (ent_enc e) of
      LP_ENCODING_INT bs \<Rightarrow> at_write (pre @ mid @ post) (int (length pre)) bs
    | LP_ENCODING_STRING \<Rightarrow> (case e of SVal s \<Rightarrow> lpEncodeString (pre @ mid @ post) (int (length pre)) s | LVal _ \<Rightarrow> None)) =
    Some (pre @ ?e @ m2 @ m3 @ post)"
    unfolding m(1) append_assoc by (rule store_entry[OF m(2)])
  have w2: "at_write (pre @ ?e @ m2 @ m3 @ post) (int (length pre) + int (length ?e)) ?b = Some ((pre @ entry ?e) @ m3 @ post)"
    using at_write_block[of ?b m2 "pre @ ?e" "m3 @ post"] m(3) by (simp add: entry_def)
  have pos: "int (length pre) + int (length ?e) + int (length ?b) = int (length (pre @ entry ?e))" by (simp add: entry_def)
  have "lpWriteEntries (pre @ mid @ post) (int (length pre)) (e # es) (map ent_enc (e # es)) newp =
      lpWriteEntries ((pre @ entry ?e) @ m3 @ post) (int (length (pre @ entry ?e))) es (map ent_enc es) (Some (int (length pre)))"
    using w1 w2 pos by (simp add: ent_enc_def Let_def add.assoc)
  also have "\<dots> = Some ((pre @ entry ?e) @ body (map ent_payload es) @ post, int (length (pre @ entry ?e) + length m3),
      if es = [] then Some (int (length pre)) else Some (int (length (pre @ entry ?e) + length (body (map ent_payload (butlast es))))))"
    by (rule Cons.IH[OF m(4)])
  finally show ?case using m by (simp add: entry_def)
qed simp

subsection \<open>The insertion\<close>

lemma batch_header:
  fixes rest :: bytes
  assumes "length hdr = 4" "num_ok num k"
  defines "lp \<equiv> \<lambda>num. hdr @ le_bytes 2 (word_of_int (int num) :: u64) @ rest"
  shows "\<exists>num'. num_ok num' (k + n) \<and> lpGetNumElements (lp num) = Some num \<and>
    (if num \<noteq> LP_HDR_NUMELE_UNKNOWN then
       (if int n > int LP_HDR_NUMELE_UNKNOWN - int num then lpSetNumElements (lp num) (int LP_HDR_NUMELE_UNKNOWN)
        else lpSetNumElements (lp num) (int num + int n))
     else Some (lp num)) = Some (lp num')"
proof -
  define num' where "num' = (if num = LP_HDR_NUMELE_UNKNOWN then num else if n > LP_HDR_NUMELE_UNKNOWN - num then LP_HDR_NUMELE_UNKNOWN else num + n)"
  have le: "num \<le> LP_HDR_NUMELE_UNKNOWN" using assms(2) by (rule num_ok_le)
  have "lpSetNumElements (lp num) (int v) = Some (lp v)" for v
    unfolding lp_def using assms(1) by (intro layout_set_num) simp_all
  then have "lpSetNumElements (lp num) (int v) = Some (lp v)" "lpSetNumElements (lp num) (int num + int n) = Some (lp (num + n))" for v
    by (simp_all flip: of_nat_add)
  moreover have "num_ok num' (k + n)" using assms(2) le by (auto simp: num_ok_def num'_def)
  moreover have "int n > int LP_HDR_NUMELE_UNKNOWN - int num \<longleftrightarrow> n > LP_HDR_NUMELE_UNKNOWN - num" using le by linarith
  ultimately show ?thesis
    using num_field[OF assms(1) le, of rest] by (intro exI[of _ num']) (simp add: num'_def lp_def)
qed

lemma lpBatchInsert_core:
  assumes rep: "lp_rep lp es" and i: "i \<le> length es" and ne: "entries \<noteq> []"
    and ok: "\<forall>e\<in>set entries. length (ent_payload e) < 2 ^ 32 \<longrightarrow> payload_ok (ent_payload e)"
  defines "new \<equiv> map ent_payload entries"
  defines "es' \<equiv> take i es @ new @ drop i es"
  shows "if length (body es') + 7 < 2 ^ 32
    then \<exists>lp'. lpBatchInsert A lp (lp_pos es i) LP_BEFORE entries = Some (Some (lp', Some (lp_pos es' (i + length entries - 1)))) \<and> lp_rep lp' es'
    else lpBatchInsert A lp (lp_pos es i) LP_BEFORE entries = Some None"
proof -
  obtain num slack where lp: "lp = lp_layout num es slack" and num: "num_ok num (length es)"
    and oks: "\<forall>e\<in>set es. payload_ok e" and tot: "lpGetTotalBytes lp = Some (length (body es) + 7)"
    using rep by (rule lp_repE)
  define hdr nums where "hdr = le_bytes 4 (of_nat (length (body es) + 7) :: u64)" and "nums = le_bytes 2 (word_of_int (int num) :: u64)"
  define pre tail where "pre = hdr @ nums @ body (take i es)" and "tail = body (drop i es) @ [LP_EOF]"
  have body_es: "body es = body (take i es) @ body (drop i es)" by (metis append_take_drop_id body_simps(3))
  have body_es': "body es' = body (take i es) @ body new @ body (drop i es)" by (simp add: es'_def)
  have lp_split: "lp = pre @ [] @ tail @ slack" unfolding lp lp_layout_def pre_def tail_def hdr_def nums_def body_es by simp
  have pos: "lp_pos es i = int (length pre)" by (simp add: lp_pos_def LP_HDR_SIZE_def pre_def hdr_def nums_def)
  have old_bytes: "length (body es) + 7 = length pre + length tail" by (simp add: body_es pre_def tail_def hdr_def nums_def)
  have total: "length (body es) + 7 + length (body new) = length (body es') + 7" by (simp add: body_es body_es')
  show ?thesis
  proof (cases "length (body es') + 7 < 2 ^ 32")
    case False
    then have "length (body es) + 7 + length (body new) > 2 ^ 32 - 1" using total by simp
    then show ?thesis using False ne tot by (simp add: lpBatchInsert_def lpEncodeEntries_eq new_def)
  next
    case True
    have "int (length (body es) + 7) - int (length pre) = int (length tail)" using old_bytes by simp
    then obtain lp1 mid slack1 where m: "lpInsert_relocate A lp (int (length pre)) LP_BEFORE (length (body new)) 0 (length (body es) + 7)
        (length (body es) + 7 + length (body new)) = Some (pre @ mid @ tail @ slack1)" "length mid = length (body new)"
      using lpInsert_relocate_block[of LP_BEFORE "[]" "length (body es) + 7" pre tail "length (body es) + 7 + length (body new)" "length (body new)" A slack]
        old_bytes lp_split by auto
    have last: "int (length pre + length (body (map ent_payload (butlast entries)))) = lp_pos es' (i + length entries - 1)"
    proof -
      have "es' = (take i es @ butlast new) @ last new # drop i es" using ne by (simp add: es'_def new_def)
      moreover have "length (take i es @ butlast new) = i + length entries - 1" using i ne by (cases entries) (simp_all add: new_def)
      ultimately have "take (i + length entries - 1) es' = take i es @ butlast new" by (metis append_eq_conv_conj)
      then show ?thesis by (simp add: lp_pos_def LP_HDR_SIZE_def pre_def hdr_def nums_def new_def map_butlast)
    qed
    have wr: "lpWriteEntries (pre @ mid @ tail @ slack1) (int (length pre)) entries (map ent_enc entries) None =
        Some (pre @ body new @ tail @ slack1, int (length pre + length mid), Some (lp_pos es' (i + length entries - 1)))"
      using lpWriteEntries_block[of mid entries pre "tail @ slack1" None] m(2) ne last by (simp add: new_def)
    let ?rest = "body (take i es) @ body new @ tail @ slack1"
    obtain num' where num': "num_ok num' (length es + length entries)" "lpGetNumElements (hdr @ nums @ ?rest) = Some num"
      "(if num \<noteq> LP_HDR_NUMELE_UNKNOWN then
          (if int (length entries) > int LP_HDR_NUMELE_UNKNOWN - int num then lpSetNumElements (hdr @ nums @ ?rest) (int LP_HDR_NUMELE_UNKNOWN)
           else lpSetNumElements (hdr @ nums @ ?rest) (int num + int (length entries)))
        else Some (hdr @ nums @ ?rest)) = Some (hdr @ le_bytes 2 (word_of_int (int num') :: u64) @ ?rest)"
      using batch_header[of hdr num "length es" "length entries" ?rest] num unfolding nums_def by (auto simp: hdr_def)
    have set: "lpSetTotalBytes (hdr @ le_bytes 2 (word_of_int (int num') :: u64) @ ?rest) (length (body es) + 7 + length (body new)) =
        Some (lp_layout num' es' slack1)"
      unfolding total using layout_set_total[of hdr "le_bytes 2 (word_of_int (int num') :: u64)" ?rest "length (body es') + 7"]
      by (simp add: hdr_def lp_layout_def body_es' tail_def)
    have rel: "at_move (if length (body es) + 7 + length (body new) > length (body es) + 7 \<and> length (body es) + 7 + length (body new) > lp_malloc_size lp
        then lp_realloc A lp (length (body es) + 7 + length (body new)) else lp)
        (int (length pre) + int (length (body new))) (int (length pre)) (int (length (body es) + 7) - int (length pre)) = Some (pre @ mid @ tail @ slack1)"
      using m(1) by (simp add: lpInsert_relocate_def Let_def split: bind_splits)
    have fits: "\<not> length (body es) + 7 + length (body new) > 2 ^ 32 - 1" using True total by simp
    have "lpBatchInsert A lp (lp_pos es i) LP_BEFORE entries = Some (Some (lp_layout num' es' slack1, Some (lp_pos es' (i + length entries - 1))))"
      using ne fits rel wr num'(2,3) set pos tot
      unfolding lpBatchInsert_def lpEncodeEntries_eq Let_def new_def[symmetric] prod.case
      by (simp only: lp_where.distinct if_False simp_thms bind.bind_lunit prod.case pre_def append_assoc)
    moreover have "length es' = length es + length entries" using i by (simp add: es'_def new_def)
    moreover have "\<forall>e\<in>set es'. payload_ok e"
    proof -
      have "length (ent_payload e) < 2 ^ 32" if "e \<in> set entries" for e
      proof -
        have "length (entry (ent_payload e)) \<le> length (body new)"
          using that by (auto simp: new_def body_def length_concat intro!: member_le_sum_list)
        then show ?thesis using True by (simp add: body_es' length_entry)
      qed
      then show ?thesis using oks ok by (auto simp: es'_def new_def dest: in_set_takeD in_set_dropD)
    qed
    ultimately show ?thesis using True num'(1) unfolding lp_rep_def by auto
  qed
qed

text \<open>The strings of the entries; an integer has to be a \<open>long long\<close>.\<close>

definition ent_str :: "listpackEntry \<Rightarrow> bytes" where
  "ent_str e = (case e of SVal s \<Rightarrow> s | LVal v \<Rightarrow> dec_ll v)"

definition ent_ok :: "listpackEntry \<Rightarrow> bool" where
  "ent_ok e = (case e of SVal _ \<Rightarrow> True | LVal v \<Rightarrow> LLONG_MIN \<le> v \<and> v \<le> LLONG_MAX)"

lemma ent_payload_ok:
  assumes "ent_ok e" "length (ent_payload e) < 2 ^ 32"
  shows "payload_ok (ent_payload e)" "payload_str (ent_payload e) = ent_str e"
  using assms lp_encode_ok lp_encode_int by (auto simp: ent_ok_def ent_payload_def ent_str_def split: listpackEntry.splits)

lemma batch_payload_small:
  assumes "length (body (xs @ map ent_payload entries @ ys)) + 7 < 2 ^ 32" "e \<in> set entries"
  shows "length (ent_payload e) < 2 ^ 32"
proof -
  have "length (entry (ent_payload e)) \<le> length (body (map ent_payload entries))"
    using assms(2) by (auto simp: body_def length_concat intro!: member_le_sum_list)
  then show ?thesis using assms(1) by (simp add: length_entry)
qed

lemma lpBatchInsert_rep:
  assumes rep: "lp_rep lp es" and i: "i < length es \<or> i = length es \<and> w = LP_BEFORE" and w: "w \<noteq> LP_REPLACE" "where_range w i = (k, k)"
    and ne: "entries \<noteq> []" and ok: "\<forall>e\<in>set entries. ent_ok e"
  defines "es' \<equiv> take k es @ map ent_payload entries @ drop k es"
  shows "if length (body es') + 7 < 2 ^ 32
    then \<exists>lp'. lpBatchInsert A lp (lp_pos es i) w entries = Some (Some (lp', Some (lp_pos es' (k + length entries - 1)))) \<and> lp_rep lp' es'
    else lpBatchInsert A lp (lp_pos es i) w entries = Some None"
proof -
  have k: "k \<le> length es" "w = LP_AFTER \<Longrightarrow> k = Suc i" "w = LP_BEFORE \<Longrightarrow> k = i"
    using i w by (auto simp: where_range_def split: lp_where.splits)
  have "lpBatchInsert A lp (lp_pos es i) w entries = lpBatchInsert A lp (lp_pos es k) LP_BEFORE entries"
  proof (cases "w = LP_AFTER")
    case True
    then have "i < length es" using i by simp
    then show ?thesis
      using True k lpSkip_rep[OF rep, of i] ASSERT_INTEGRITY_rep[OF rep, of "Suc i"] by (simp add: lpBatchInsert_def)
  next
    case False
    then show ?thesis using w(1) k(3) by (cases w) simp_all
  qed
  moreover have "\<forall>e\<in>set entries. length (ent_payload e) < 2 ^ 32 \<longrightarrow> payload_ok (ent_payload e)" using ok ent_payload_ok by blast
  ultimately show ?thesis using lpBatchInsert_core[OF rep k(1) ne, of A] unfolding es'_def by (simp only:)
qed

lemma lpBatchAppend_rep:
  assumes rep: "lp_rep lp es" and "entries \<noteq> []" "\<forall>e\<in>set entries. ent_ok e"
  defines "es' \<equiv> es @ map ent_payload entries"
  shows "if length (body es') + 7 < 2 ^ 32
    then \<exists>lp'. lpBatchAppend A lp entries = Some (Some (lp', Some (lp_pos es' (length es' - 1)))) \<and> lp_rep lp' es'
    else lpBatchAppend A lp entries = Some None"
proof -
  have "lpGetTotalBytes lp = Some (length (body es) + 7)" using rep by (rule lp_repE)
  moreover have "int (length (body es) + 7) - 1 = lp_pos es (length es)" by (simp add: lp_pos_len)
  ultimately have "lpBatchAppend A lp entries = lpBatchInsert A lp (lp_pos es (length es)) LP_BEFORE entries"
    by (simp add: lpBatchAppend_def del: of_nat_add)
  moreover have "where_range LP_BEFORE (length es) = (length es, length es)" by (simp add: where_range_def)
  moreover have "length es + length entries - 1 = length es' - 1" "take (length es) es @ map ent_payload entries @ drop (length es) es = es'"
    by (simp_all add: es'_def)
  ultimately show ?thesis
    using lpBatchInsert_rep[OF rep _ _ _ assms(2,3), of "length es" LP_BEFORE "length es" A]
    by (simp only: lp_where.distinct simp_thms True_implies_equals)
qed

subsection \<open>Properties\<close>

text \<open>
  C38: inserting a batch of entries before or after an entry makes the listpack hold exactly the sequence with the
  strings of the batch at that place, the returned pointer being the last of them, for any batch and any state of
  the saturating element counter; the result is \<open>NULL\<close> exactly when the new size would exceed 32 bits.
\<close>

theorem lpBatchInsert_correct:
  assumes "lp_rep lp es" "i < length es \<or> i = length es \<and> w = LP_BEFORE" "w \<noteq> LP_REPLACE" "where_range w i = (k, k)"
    and "entries \<noteq> []" "\<forall>e\<in>set entries. ent_ok e" "es' = take k es @ map ent_payload entries @ drop k es"
  shows "if length (body es') + 7 < 2 ^ 32
    then \<exists>lp'. lpBatchInsert A lp (lp_pos es i) w entries = Some (Some (lp', Some (lp_pos es' (k + length entries - 1)))) \<and> lp_rep lp' es' \<and>
      map payload_str es' = take k (map payload_str es) @ map ent_str entries @ drop k (map payload_str es)
    else lpBatchInsert A lp (lp_pos es i) w entries = Some None"
proof -
  have "payload_str (ent_payload e) = ent_str e" if "length (body es') + 7 < 2 ^ 32" "e \<in> set entries" for e
    using ent_payload_ok(2)[of e] batch_payload_small[of "take k es" entries "drop k es" e] assms(6,7) that by auto
  then have "map payload_str es' = take k (map payload_str es) @ map ent_str entries @ drop k (map payload_str es)"
    if "length (body es') + 7 < 2 ^ 32"
    using that by (simp add: assms(7) take_map drop_map)
  then show ?thesis using lpBatchInsert_rep[OF assms(1-6), of A] by (auto simp: assms(7))
qed

theorem lpBatchInsert_correct_witness:
  "\<exists>lp' es'. lpBatchInsert example_alloc example_lp (lp_pos example_payloads 1) LP_AFTER [SVal [120], LVal (-3)] =
      Some (Some (lp', Some (lp_pos es' 3))) \<and> lp_rep lp' es' \<and>
    map payload_str es' = [[53], [97, 98], [120], [45, 51], [49, 50, 51, 52]]"
proof -
  let ?en = "[SVal [120], LVal (-3)]"
  have enc: "lp_encode [120] = [0x81, 120]" "lpEncodeIntegerGetType (-3) = [0xDF, 0xFD]" by code_simp+
  define es' where "es' = take 2 example_payloads @ map ent_payload ?en @ drop 2 example_payloads"
  have "length (body es') + 7 < 2 ^ 32"
    by (simp add: es'_def example_payloads_def ent_payload_def enc length_entry lpEncodeBacklenBytes_def)
  moreover have "where_range LP_AFTER 1 = (2, 2)" by (simp add: where_range_def)
  moreover have "\<forall>e\<in>set ?en. ent_ok e" by (simp add: ent_ok_def ll_limits)
  ultimately have "\<exists>lp'. lpBatchInsert example_alloc example_lp (lp_pos example_payloads 1) LP_AFTER ?en =
      Some (Some (lp', Some (lp_pos es' (2 + length ?en - 1)))) \<and> lp_rep lp' es' \<and>
      map payload_str es' = take 2 (map payload_str example_payloads) @ map ent_str ?en @ drop 2 (map payload_str example_payloads)"
    using lpBatchInsert_correct[OF example_rep, of 1 LP_AFTER 2 ?en es' example_alloc] es'_def
    by (simp only: example_len if_True) simp
  moreover have "dec_ll (-3) = [45, 51]" by code_simp
  then have "take 2 (map payload_str example_payloads) @ map ent_str ?en @ drop 2 (map payload_str example_payloads) =
      [[53], [97, 98], [120], [45, 51], [49, 50, 51, 52]]"
    unfolding example_strs by (simp add: ent_str_def)
  moreover have "2 + length ?en - 1 = 3" by simp
  ultimately show ?thesis by metis
qed

end
