(* ===== verification/Dict_Link.thy ===== *)
theory Dict_Link
  imports Dict
begin

text \<open>
  \<open>src/dict.c\<close>: lookups that return the bucket of a missing key, and insertion through it
  (\<open>dictFindLink\<close>, \<open>dictSetKeyAtLink\<close>), as used by dictionaries whose entries are objects that contain their key
  (\<open>keyFromStoredKey\<close>): sorted sets store skip list nodes under their element. The entry of the model pairs the
  key with the stored object.
\<close>

subsection \<open>Operations\<close>

text \<open>\<open>dictFindLinkInternal\<close> with a bucket argument: the bucket is the one of the last table visited.\<close>

definition dictFindLinkInternal ::
  "dictResizeEnable \<Rightarrow> ('k, 'v) dict \<Rightarrow> 'k \<Rightarrow> (('k, 'v) dict \<times> link option \<times> (nat \<times> nat)) option" where
  "dictFindLinkInternal can_resize d key =
     do {
       let idx = dict_idx d key (ht_size_exp (ht0 d));
       d \<leftarrow> dictRehashStepIfNeeded can_resize d idx;
       l \<leftarrow> tables_search d key idx;
       let t = (case l of Some (t, _) \<Rightarrow> t | None \<Rightarrow> if dictIsRehashing d then 1 else 0);
       Some (d, l, (t, dict_idx d key (ht_size_exp (ht_get d t))))
     }"

definition dictFindLinkBucket ::
  "dictResizeEnable \<Rightarrow> ('k, 'v) dict \<Rightarrow> 'k \<Rightarrow> (('k, 'v) dict \<times> link option \<times> (nat \<times> nat) option) option" where
  "dictFindLinkBucket can_resize d key =
     (if dictSize d = 0 then Some (d, None, None)
      else do { (d, l, b) \<leftarrow> dictFindLinkInternal can_resize d key; Some (d, l, Some b) })"

text \<open>
  \<open>dictSetKeyAtLink\<close> with \<open>newItem\<close>: the bucket is looked up again when the table was resized or no
  bucket is given; \<open>key\<close> is the key of the stored object.
\<close>

definition dictSetKeyAtLink ::
  "dictResizeEnable \<Rightarrow> ('k, 'v) dict \<Rightarrow> 'k \<Rightarrow> 'v \<Rightarrow> (nat \<times> nat) option \<Rightarrow> ('k, 'v) dict option" where
  "dictSetKeyAtLink can_resize d key stored link =
     do {
       let snap = (ht_size_exp (ht0 d), ht_size_exp (ht1 d));
       (d, _) \<leftarrow> dictExpandIfNeeded can_resize d;
       (d, bucket) \<leftarrow>
         (case link of
            Some b \<Rightarrow>
              if snap = (ht_size_exp (ht0 d), ht_size_exp (ht1 d)) then Some (d, b)
              else do { (d, l, b) \<leftarrow> dictFindLinkInternal can_resize d key; if l = None then Some (d, b) else None }
          | None \<Rightarrow> do { (d, l, b) \<leftarrow> dictFindLinkInternal can_resize d key; if l = None then Some (d, b) else None });
       (d, l) \<leftarrow> dictInsertKeyAtLink d key bucket;
       set_entry_val d l stored
     }"

text \<open>
  \<open>dictSetKeyAtLink\<close> without \<open>newItem\<close>: the entry at the link gets another object with the same key. Without a
  link the code looks up the stored object itself, so that branch is for objects that are their own key.
\<close>

definition dictReplaceKeyAtLink ::
  "dictResizeEnable \<Rightarrow> ('k, 'v) dict \<Rightarrow> 'k \<Rightarrow> 'v \<Rightarrow> link option \<Rightarrow> ('k, 'v) dict option" where
  "dictReplaceKeyAtLink can_resize d key stored link =
     do {
       (d, l) \<leftarrow> (case link of Some l \<Rightarrow> Some (d, Some l) | None \<Rightarrow> dictFindLink can_resize d key);
       case l of None \<Rightarrow> None | Some l \<Rightarrow> set_entry_val d l stored
     }"

subsection \<open>Correctness\<close>

lemma rehash_step_target:
  assumes inv: "dict_inv d" and step: "dictRehashStepIfNeeded can_resize d (dict_idx d k (ht_size_exp (ht0 d))) = Some d'"
  shows "target_exp d' = target_exp d"
proof -
  let ?i = "dict_idx d k (ht_size_exp (ht0 d))"
  have rehash: "target_exp d1 = target_exp d" if "map_option fst (dictRehash can_resize d 1) = Some d1" for d1
    using dictRehash_spec[OF inv, of can_resize 1] that by auto
  have bucket: "target_exp d1 = target_exp d"
    if b: "map_option fst (dictBucketRehash can_resize d ?i) = Some d1" and rh: "dictIsRehashing d" for d1
  proof (cases "pauserehash d \<noteq> 0 \<or> dictRehash_blocked can_resize d")
    case True
    then show ?thesis using b by (auto simp: dictBucketRehash_def split: if_splits)
  next
    case False
    note D = dict_inv_rehashD[OF inv rh]
    have "?i < length (ht_table (ht0 d))" using D(1) dict_idx_less[of "ht_size_exp (ht0 d)" d k] by (simp add: ht_ok_def)
    then obtain d2 where d2: "rehashEntriesInBucketAtIndex d ?i = Some d2" "dict_same d d2" "rehashidx d2 = rehashidx d" "size_exps d2 = size_exps d"
      using rehashEntriesInBucketAtIndex_spec[OF inv rh] by blast
    have rh2: "dictIsRehashing d2" using rh d2(3) by (simp add: dictIsRehashing_def)
    have "target_exp d2 = target_exp d" using rh rh2 d2(4) by (simp add: target_exp_def size_exps_def)
    moreover have "d1 = fst (dictCheckRehashingCompleted d2)" using b d2(1) False by (simp add: dictBucketRehash_def)
    ultimately show ?thesis using dictCheckRehashingCompleted_spec(5)[OF dict_sameD(1)[OF d2(2)] rh2] by simp
  qed
  show ?thesis
    using step rehash bucket by (auto simp: dictRehashStepIfNeeded_def bind_eq_Some_conv split: if_splits)
qed

lemma allocated_iff: "dict_inv d \<Longrightarrow> ht_ok (d_type d) (ht0 d) \<longleftrightarrow> target_exp d \<noteq> -1"
  by (auto simp: dict_inv_def target_exp_def ht_ok_def dictReset_def split: if_splits)

text \<open>What the bucket of a missing key is good for: it is the bucket an insertion of the key needs.\<close>

definition bucket_for :: "('k, 'v) dict \<Rightarrow> 'k \<Rightarrow> nat \<times> nat \<Rightarrow> bool" where
  "bucket_for d k b \<longleftrightarrow> (let t = (if dictIsRehashing d then 1 else 0) in b = (t, dict_idx d k (ht_size_exp (ht_get d t))))"

lemma dictFindLinkInternal_spec:
  assumes inv: "dict_inv d" and ok: "ht_ok (d_type d) (ht0 d)"
  shows "\<exists>d' l b. dictFindLinkInternal can_resize d k = Some (d', l, b) \<and> dict_same d d' \<and> ht_ok (d_type d') (ht0 d') \<and>
    (case l of Some l \<Rightarrow> \<exists>v. at_link d' l k v \<and> dict_map d k = Some v
     | None \<Rightarrow> dict_map d k = None \<and> bucket_for d' k b)"
proof -
  let ?i = "dict_idx d k (ht_size_exp (ht0 d))"
  obtain d' where d': "dictRehashStepIfNeeded can_resize d ?i = Some d'" "dict_same d d'" "idx_valid d' k ?i"
    using dictRehashStepIfNeeded_spec[OF inv] by blast
  have inv': "dict_inv d'" using dict_sameD(1)[OF d'(2)] .
  have ok': "ht_ok (d_type d') (ht0 d')"
    using allocated_iff[OF inv] allocated_iff[OF inv'] rehash_step_target[OF inv d'(1)] ok by simp
  obtain r where r: "tables_search d' k ?i = Some r" "case r of Some l \<Rightarrow> \<exists>v. at_link d' l k v | None \<Rightarrow> dict_map d' k = None"
    using tables_search_spec[OF inv' ok' d'(3)] by blast
  note map' = dict_same_map[OF inv d'(2)]
  show ?thesis
  proof (cases r)
    case None
    then show ?thesis using d'(1,2) r ok' map' by (simp add: dictFindLinkInternal_def bucket_for_def Let_def)
  next
    case (Some l)
    then obtain v where v: "at_link d' l k v" using r(2) by auto
    then show ?thesis using d'(1,2) r(1) ok' at_link_map[OF inv' v] map' Some
      by (cases l) (auto simp: dictFindLinkInternal_def Let_def simp del: at_link.simps)
  qed
qed

lemma dictFindLinkBucket_spec:
  assumes inv: "dict_inv d"
  shows "\<exists>d' l b. dictFindLinkBucket can_resize d k = Some (d', l, b) \<and> dict_same d d' \<and>
    (case l of Some l \<Rightarrow> \<exists>v. at_link d' l k v \<and> dict_map d k = Some v
     | None \<Rightarrow> dict_map d k = None \<and> (\<forall>c. b = Some c \<longrightarrow> bucket_for d' k c))"
proof (cases "dictSize d = 0")
  case True
  then show ?thesis using dict_same_refl[OF inv] dict_empty_map[OF inv] by (simp add: dictFindLinkBucket_def)
next
  case False
  then have "dict_entries d \<noteq> []" using dictSize_eq(1)[OF inv] by auto
  then have "ht_ok (d_type d) (ht0 d)" by (rule dict_inv_ht0(3)[OF inv])
  then obtain d' l b where r: "dictFindLinkInternal can_resize d k = Some (d', l, b)" "dict_same d d'"
      "case l of Some l \<Rightarrow> \<exists>v. at_link d' l k v \<and> dict_map d k = Some v | None \<Rightarrow> dict_map d k = None \<and> bucket_for d' k b"
    using dictFindLinkInternal_spec[OF inv] by blast
  then show ?thesis using False by (cases l) (simp_all add: dictFindLinkBucket_def)
qed

text \<open>An expansion either leaves the dictionary alone or changes a table size.\<close>

lemma dictResize_exps:
  assumes inv: "dict_inv d" and r: "dictResize can_resize d sz = Some (d', ok)"
  shows "d' = d \<or> size_exps d' \<noteq> size_exps d"
proof -
  have nrh: "\<not> dictIsRehashing d" using r by (auto simp: dictResize_def)
  have same: "\<not> ok \<longrightarrow> d' = d" "ok \<longrightarrow> target_exp d' = dictNextExp sz" using dictResize_spec[OF inv nrh, of can_resize sz] r by auto
  have neq: "dictNextExp sz \<noteq> ht_size_exp (ht0 d)" if ok using r that by (auto simp: dictResize_def Let_def split: if_splits)
  have "ht_size_exp (ht1 d) = -1" using inv nrh by (simp add: dict_inv_def dictReset_def)
  moreover have "0 \<le> dictNextExp sz" by (simp add: dictNextExp_def dict_consts)
  ultimately show ?thesis using same neq by (cases ok) (auto simp: target_exp_def size_exps_def split: if_splits)
qed

lemma dictExpandIfNeeded_exps:
  assumes inv: "dict_inv d"
  shows "\<exists>d' ok. dictExpandIfNeeded can_resize d = Some (d', ok) \<and> dict_same d d' \<and> ht_ok (d_type d') (ht0 d') \<and>
    (d' = d \<or> size_exps d' \<noteq> size_exps d)"
proof -
  obtain d' ok where e: "dictExpandIfNeeded can_resize d = Some (d', ok)" "dict_same d d'" "ht_ok (d_type d') (ht0 d')"
    using dictExpandIfNeeded_spec[OF inv, of can_resize] dict_sameD(2) by fastforce
  moreover have "d' = d \<or> size_exps d' \<noteq> size_exps d"
    using e(1) dictResize_exps[OF inv]
    by (auto simp: dictExpandIfNeeded_def dictExpand_def bind_eq_Some_conv split: if_splits)
  ultimately show ?thesis by blast
qed

lemma insert_stored_spec:
  assumes inv: "dict_inv d" and ok: "ht_ok (d_type d) (ht0 d)" and new: "dict_map d k = None" and b: "bucket_for d k b"
  shows "\<exists>d'. (dictInsertKeyAtLink d k b \<bind> (\<lambda>(d, l). set_entry_val d l w)) = Some d' \<and> dict_upd d ((dict_map d)(k \<mapsto> Some w)) d'"
proof -
  let ?t = "if dictIsRehashing d then 1 else 0 :: nat"
  obtain d1 l where d1: "dictInsertKeyAtLink d k b = Some (d1, l)" "dict_upd d ((dict_map d)(k \<mapsto> None)) d1" "at_link d1 l k None"
    using dictInsertKeyAtLink_spec[OF inv ok new refl refl] b unfolding bucket_for_def Let_def by metis
  obtain d2 where d2: "set_entry_val d1 l w = Some d2" "dict_upd d1 ((dict_map d1)(k \<mapsto> Some w)) d2"
    using set_entry_val_spec[OF dict_updD(1)[OF d1(2)] d1(3)] by blast
  have "dict_upd d ((dict_map d)(k \<mapsto> Some w)) d2"
    using dict_upd_trans[OF d1(2) d2(2)] dict_updD(2)[OF d1(2)] by simp
  then show ?thesis using d1(1) d2(1) by simp
qed

text \<open>
  Insertion through the bucket of an earlier lookup: whether or not the table is resized in between, exactly the
  key is added.
\<close>

lemma dictSetKeyAtLink_spec:
  assumes inv: "dict_inv d" and new: "dict_map d k = None"
    and link: "\<And>b. link = Some b \<Longrightarrow> bucket_for d k b"
  shows "\<exists>d'. dictSetKeyAtLink can_resize d k w link = Some d' \<and> dict_upd d ((dict_map d)(k \<mapsto> Some w)) d'"
proof -
  obtain d1 ok where d1: "dictExpandIfNeeded can_resize d = Some (d1, ok)" "dict_same d d1" "ht_ok (d_type d1) (ht0 d1)"
      "d1 = d \<or> size_exps d1 \<noteq> size_exps d"
    using dictExpandIfNeeded_exps[OF inv] by blast
  have inv1: "dict_inv d1" and map1: "dict_map d1 = dict_map d" using dict_sameD(1)[OF d1(2)] dict_same_map[OF inv d1(2)] by auto
  obtain d2 l2 b2 where f: "dictFindLinkInternal can_resize d1 k = Some (d2, l2, b2)" "dict_same d1 d2" "ht_ok (d_type d2) (ht0 d2)"
      "case l2 of Some l \<Rightarrow> \<exists>v. at_link d2 l k v \<and> dict_map d1 k = Some v | None \<Rightarrow> dict_map d1 k = None \<and> bucket_for d2 k b2"
    using dictFindLinkInternal_spec[OF inv1 d1(3)] by blast
  then have find: "dictFindLinkInternal can_resize d1 k = Some (d2, None, b2)" "dict_same d1 d2" "ht_ok (d_type d2) (ht0 d2)" "bucket_for d2 k b2"
    using new map1 by (cases l2; simp)+
  define again where "again = (do { (d, l, b) \<leftarrow> dictFindLinkInternal can_resize d1 k; if l = None then Some (d, b) else None })"
  have again: "again = Some (d2, b2)" using find(1) by (simp add: again_def)
  obtain d3 b3 where pick: "(case link of Some b \<Rightarrow>
        if (ht_size_exp (ht0 d), ht_size_exp (ht1 d)) = (ht_size_exp (ht0 d1), ht_size_exp (ht1 d1)) then Some (d1, b) else again
      | None \<Rightarrow> again) = Some (d3, b3)" "dict_same d1 d3" "ht_ok (d_type d3) (ht0 d3)" "bucket_for d3 k b3"
  proof (cases "link = None \<or> size_exps d1 \<noteq> size_exps d")
    case True
    then show ?thesis using that[of d2 b2] find(2-4) again by (cases link) (auto simp: size_exps_def)
  next
    case False
    then obtain b where b: "link = Some b" "d1 = d" using d1(4) by auto
    then show ?thesis using that[of d1 b] link[OF b(1)] d1(3) dict_same_refl[OF inv1] by simp
  qed
  have same: "dict_same d d3" using d1(2) pick(2) by (rule dict_same_trans)
  have new3: "dict_map d3 k = None" using new dict_same_map[OF inv same] by simp
  obtain d4 where d4: "(dictInsertKeyAtLink d3 k b3 \<bind> (\<lambda>(d, l). set_entry_val d l w)) = Some d4" "dict_upd d3 ((dict_map d3)(k \<mapsto> Some w)) d4"
    using insert_stored_spec[OF dict_sameD(1)[OF same] pick(3) new3 pick(4)] by blast
  have "dictSetKeyAtLink can_resize d k w link = Some d4"
    unfolding dictSetKeyAtLink_def Let_def d1(1) bind.bind_lunit prod.case again_def[symmetric] pick(1)
    by (simp only: d4(1))
  then show ?thesis using same_dict_upd[OF same d4(2)] dict_same_map[OF inv same] by auto
qed

lemma dictReplaceKeyAtLink_spec:
  assumes inv: "dict_inv d" and old: "dict_map d k \<noteq> None" and link: "\<And>l. link = Some l \<Longrightarrow> \<exists>v. at_link d l k v"
  shows "\<exists>d'. dictReplaceKeyAtLink can_resize d k w link = Some d' \<and> dict_upd d ((dict_map d)(k \<mapsto> Some w)) d'"
proof -
  obtain d1 l v where d1: "(case link of Some l \<Rightarrow> Some (d, Some l) | None \<Rightarrow> dictFindLink can_resize d k) = Some (d1, Some l)"
      "dict_same d d1" "at_link d1 l k v"
  proof (cases link)
    case None
    then show ?thesis
      using that dictFindLink_spec[OF inv, of can_resize k] old by (auto split: option.splits simp del: at_link.simps)
  next
    case (Some l)
    then show ?thesis using that[of d l] link[OF Some] dict_same_refl[OF inv] by (auto simp del: at_link.simps)
  qed
  then show ?thesis
    using set_entry_val_spec[OF dict_sameD(1)[OF d1(2)] d1(3), of w] same_dict_upd[OF d1(2)] dict_same_map[OF inv d1(2)]
    by (auto simp: dictReplaceKeyAtLink_def)
qed

end
