(* ===== verification/Zset.thy ===== *)
theory Zset
  imports Skiplist_Rank Dict_Link
begin

text \<open>
  \<open>src/t_zset.c\<close>: sorted sets in the skip list encoding. A skip list keeps the elements in order and a dictionary
  finds the node of an element; both share the nodes. The operations on sorted sets are modelled for this
  encoding, on a heap of nodes, a list and a dictionary that stores node addresses under their element.

  The addition of doubles (for \<open>ZADD INCR\<close>) is a parameter, as are the addresses returned by the allocator, the
  random numbers and the global resize policy. The two zeros of the floating point type are one number here.
\<close>

subsection \<open>Data\<close>

record 's zset =
  z_heap :: "'s zheap"
  z_zsl :: zskiplist
  z_dict :: "(sds, addr) dict"

definition ZADD_IN_INCR :: u32 where "ZADD_IN_INCR = 1"
definition ZADD_IN_NX :: u32 where "ZADD_IN_NX = 2"
definition ZADD_IN_XX :: u32 where "ZADD_IN_XX = 4"
definition ZADD_IN_GT :: u32 where "ZADD_IN_GT = 8"
definition ZADD_IN_LT :: u32 where "ZADD_IN_LT = 16"

definition ZADD_OUT_NOP :: u32 where "ZADD_OUT_NOP = 1"
definition ZADD_OUT_NAN :: u32 where "ZADD_OUT_NAN = 2"
definition ZADD_OUT_ADDED :: u32 where "ZADD_OUT_ADDED = 4"
definition ZADD_OUT_UPDATED :: u32 where "ZADD_OUT_UPDATED = 8"

lemmas zadd_out_defs = ZADD_OUT_NOP_def ZADD_OUT_NAN_def ZADD_OUT_ADDED_def ZADD_OUT_UPDATED_def

text \<open>Comparisons of doubles; both are false on \<open>NaN\<close>.\<close>

fun double_le :: "'s::linorder double \<Rightarrow> 's double \<Rightarrow> bool" where
  "double_le (Num a) (Num b) \<longleftrightarrow> a \<le> b"
| "double_le _ _ \<longleftrightarrow> False"

fun double_eq :: "'s double \<Rightarrow> 's double \<Rightarrow> bool" where
  "double_eq (Num a) (Num b) \<longleftrightarrow> a = b"
| "double_eq _ _ \<longleftrightarrow> False"

text \<open>What an operation gets from outside: the resize policy, random numbers, an address and the contents of fresh memory.\<close>

record zenv =
  e_resize :: dictResizeEnable
  e_random :: "nat list"
  e_addr :: addr
  e_junk :: "nat \<Rightarrow> zskiplistLevel"

subsection \<open>Operations\<close>

text \<open>\<open>createZsetObject\<close>.\<close>

definition createZset :: "sds dictType \<Rightarrow> 's::zero zheap \<Rightarrow> addr \<Rightarrow> 's zset option" where
  "createZset zsetDictType h a =
     do { (h, zsl) \<leftarrow> zslCreate h a; Some \<lparr>z_heap = h, z_zsl = zsl, z_dict = dictCreate zsetDictType\<rparr> }"

definition zsetLength :: "'s zset \<Rightarrow> u64" where
  "zsetLength zs = zlength (z_zsl zs)"

text \<open>The node an entry of the dictionary stores, \<open>dictGetKey\<close>.\<close>

definition dictGetNode :: "(sds, addr) entry \<Rightarrow> addr option" where
  "dictGetNode de = snd de"

definition zsetScore :: "zenv \<Rightarrow> 's zset \<Rightarrow> sds \<Rightarrow> ('s zset \<times> 's double option) option" where
  "zsetScore env zs member =
     do {
       (d, de) \<leftarrow> dictFind (e_resize env) (z_dict zs) member;
       case de of
         None \<Rightarrow> Some (zs\<lparr>z_dict := d\<rparr>, None)
       | Some de \<Rightarrow> do {
           znode \<leftarrow> dictGetNode de;
           n \<leftarrow> z_heap zs znode;
           Some (zs\<lparr>z_dict := d\<rparr>, Some (score n))
         }
     }"

text \<open>
  \<open>zsetAdd\<close>: the new state, the return value, \<open>out_flags\<close> and what is written to \<open>newscore\<close>.
\<close>

definition zsetAdd ::
  "('s double \<Rightarrow> 's double \<Rightarrow> 's double) \<Rightarrow> zenv \<Rightarrow> 's::linorder zset \<Rightarrow> 's double \<Rightarrow> sds \<Rightarrow> u32 \<Rightarrow>
   ('s zset \<times> bool \<times> u32 \<times> 's double option) option" where
  "zsetAdd fadd env zs sc el in_flags =
     (let incr = (in_flags AND ZADD_IN_INCR \<noteq> 0);
          nx = (in_flags AND ZADD_IN_NX \<noteq> 0);
          xx = (in_flags AND ZADD_IN_XX \<noteq> 0);
          gt = (in_flags AND ZADD_IN_GT \<noteq> 0);
          lt = (in_flags AND ZADD_IN_LT \<noteq> 0) in
      if isnan sc then Some (zs, False, ZADD_OUT_NAN, None)
      else do {
        (d, link, bucket) \<leftarrow> dictFindLinkBucket (e_resize env) (z_dict zs) el;
        case link of
          Some l \<Rightarrow>
            if nx then Some (zs\<lparr>z_dict := d\<rparr>, True, ZADD_OUT_NOP, None)
            else do {
              de \<leftarrow> link_entry d l;
              znode \<leftarrow> dictGetNode de;
              n \<leftarrow> z_heap zs znode;
              let curscore = score n;
              let sc = (if incr then fadd sc curscore else sc);
              if incr \<and> isnan sc then Some (zs\<lparr>z_dict := d\<rparr>, False, ZADD_OUT_NAN, None)
              else if (lt \<and> double_le curscore sc) \<or> (gt \<and> double_le sc curscore)
              then Some (zs\<lparr>z_dict := d\<rparr>, True, ZADD_OUT_NOP, None)
              else if \<not> double_eq sc curscore then do {
                (h, zsl) \<leftarrow> zslUpdateScore (z_heap zs) (z_zsl zs) znode sc;
                Some (\<lparr>z_heap = h, z_zsl = zsl, z_dict = d\<rparr>, True, ZADD_OUT_UPDATED, Some sc)
              }
              else Some (zs\<lparr>z_dict := d\<rparr>, True, 0, Some sc)
            }
        | None \<Rightarrow>
            if \<not> xx then do {
              (h, zsl, znode) \<leftarrow> zslInsert (z_heap zs) (z_zsl zs) (e_random env) (e_addr env) (e_junk env) sc el;
              d \<leftarrow> dictSetKeyAtLink (e_resize env) d el znode bucket;
              Some (\<lparr>z_heap = h, z_zsl = zsl, z_dict = d\<rparr>, True, ZADD_OUT_ADDED, Some sc)
            }
            else Some (zs\<lparr>z_dict := d\<rparr>, True, ZADD_OUT_NOP, None)
      })"

definition zsetRemoveFromSkiplist :: "zenv \<Rightarrow> 's::linorder zset \<Rightarrow> sds \<Rightarrow> ('s zset \<times> bool) option" where
  "zsetRemoveFromSkiplist env zs el =
     do {
       (d, de) \<leftarrow> dictUnlink (e_resize env) (z_dict zs) el;
       case de of
         None \<Rightarrow> Some (zs\<lparr>z_dict := d\<rparr>, False)
       | Some de \<Rightarrow> do {
           znode \<leftarrow> dictGetNode de;
           (h, zsl) \<leftarrow> zslDelete (z_heap zs) (z_zsl zs) znode;
           Some (\<lparr>z_heap = h, z_zsl = zsl, z_dict = d\<rparr>, True)
         }
     }"

text \<open>\<open>zsetDel\<close> in this encoding.\<close>

definition zsetDel :: "zenv \<Rightarrow> 's::linorder zset \<Rightarrow> sds \<Rightarrow> ('s zset \<times> bool) option" where
  "zsetDel env zs el = zsetRemoveFromSkiplist env zs el"

text \<open>
  The rank is a \<open>long\<close> computed from unsigned numbers; -1 says that there is no such element. The score is what the
  code stores through \<open>output_score\<close>.
\<close>

definition zsetRank :: "zenv \<Rightarrow> 's zset \<Rightarrow> sds \<Rightarrow> bool \<Rightarrow> ('s zset \<times> int \<times> 's double option) option" where
  "zsetRank env zs el reverse =
     do {
       let llen = zsetLength zs;
       (d, de) \<leftarrow> dictFind (e_resize env) (z_dict zs) el;
       case de of
         None \<Rightarrow> Some (zs\<lparr>z_dict := d\<rparr>, -1, None)
       | Some de \<Rightarrow> do {
           n \<leftarrow> dictGetNode de;
           rank \<leftarrow> zslGetRankByNode (z_heap zs) (z_zsl zs) (Some n);
           if rank = 0 then None
           else do {
             nd \<leftarrow> z_heap zs n;
             Some (zs\<lparr>z_dict := d\<rparr>, sint (if reverse then llen - rank else rank - 1), Some (score nd))
           }
         }
     }"

subsection \<open>Specification\<close>

text \<open>Requests to a sorted set, and their results on a mathematical map from elements to scores.\<close>

datatype ('e, 's) zset_op =
    ZAdd 'e "'s double" sds u32 | ZRem 'e sds | ZScore 'e sds | ZRank 'e sds bool

datatype 's zset_res = Added bool u32 "'s double option" | Removed bool | Score "'s double option" | Rank int "'s double option"

primrec op_env :: "('e, 's) zset_op \<Rightarrow> 'e" where
  "op_env (ZAdd e s k f) = e"
| "op_env (ZRem e k) = e"
| "op_env (ZScore e k) = e"
| "op_env (ZRank e k r) = e"

text \<open>
  The documented behaviour of the flags: \<open>NX\<close> only adds, \<open>XX\<close> only updates, \<open>GT\<close> and \<open>LT\<close> only update upwards or
  downwards, \<open>INCR\<close> adds to the score of an existing element, and a score that is not a number is an error.
\<close>

definition abs_zadd ::
  "('s double \<Rightarrow> 's double \<Rightarrow> 's double) \<Rightarrow> (sds \<rightharpoonup> 's::linorder) \<Rightarrow> 's double \<Rightarrow> sds \<Rightarrow> u32 \<Rightarrow> (sds \<rightharpoonup> 's) \<times> 's zset_res" where
  "abs_zadd fadd m sc el flags =
     (case sc of
        NaN \<Rightarrow> (m, Added False ZADD_OUT_NAN None)
      | Num s \<Rightarrow>
          (case m el of
             None \<Rightarrow>
               if flags AND ZADD_IN_XX \<noteq> 0 then (m, Added True ZADD_OUT_NOP None)
               else (m(el \<mapsto> s), Added True ZADD_OUT_ADDED (Some (Num s)))
           | Some c \<Rightarrow>
               if flags AND ZADD_IN_NX \<noteq> 0 then (m, Added True ZADD_OUT_NOP None)
               else
                 (case (if flags AND ZADD_IN_INCR \<noteq> 0 then fadd (Num s) (Num c) else Num s) of
                    NaN \<Rightarrow> (m, Added False ZADD_OUT_NAN None)
                  | Num x \<Rightarrow>
                      if flags AND ZADD_IN_LT \<noteq> 0 \<and> c \<le> x \<or> flags AND ZADD_IN_GT \<noteq> 0 \<and> x \<le> c
                      then (m, Added True ZADD_OUT_NOP None)
                      else (m(el \<mapsto> x), Added True (if x = c then 0 else ZADD_OUT_UPDATED) (Some (Num x))))))"

definition abs_rank :: "(sds \<rightharpoonup> 's::linorder) \<Rightarrow> sds \<Rightarrow> bool \<Rightarrow> int" where
  "abs_rank m el reverse =
     (case m el of
        None \<Rightarrow> -1
      | Some s \<Rightarrow> int (card {e. \<exists>t. m e = Some t \<and> (if reverse then (s, el) < (t, e) else (t, e) < (s, el))}))"

fun abs_zset_step ::
  "('s double \<Rightarrow> 's double \<Rightarrow> 's double) \<Rightarrow> (sds \<rightharpoonup> 's::linorder) \<Rightarrow> ('e, 's) zset_op \<Rightarrow> (sds \<rightharpoonup> 's) \<times> 's zset_res" where
  "abs_zset_step fadd m (ZAdd e sc k flags) = abs_zadd fadd m sc k flags"
| "abs_zset_step fadd m (ZRem e k) = (m(k := None), Removed (m k \<noteq> None))"
| "abs_zset_step fadd m (ZScore e k) = (m, Score (map_option Num (m k)))"
| "abs_zset_step fadd m (ZRank e k rv) = (m, Rank (abs_rank m k rv) (map_option Num (m k)))"

primrec abs_zset_ops ::
  "('s double \<Rightarrow> 's double \<Rightarrow> 's double) \<Rightarrow> (sds \<rightharpoonup> 's::linorder) \<Rightarrow> ('e, 's) zset_op list \<Rightarrow> (sds \<rightharpoonup> 's) \<times> 's zset_res list" where
  "abs_zset_ops fadd m [] = (m, [])"
| "abs_zset_ops fadd m (op # ops) =
     (let (m, r) = abs_zset_step fadd m op; (m, rs) = abs_zset_ops fadd m ops in (m, r # rs))"

primrec run_zset_ops :: "('st \<Rightarrow> ('e, 's) zset_op \<Rightarrow> ('st \<times> 's zset_res) option) \<Rightarrow> 'st \<Rightarrow> ('e, 's) zset_op list \<Rightarrow> ('st \<times> 's zset_res list) option" where
  "run_zset_ops step st [] = Some (st, [])"
| "run_zset_ops step st (op # ops) =
     do { (st, r) \<leftarrow> step st op; (st, rs) \<leftarrow> run_zset_ops step st ops; Some (st, r # rs) }"

text \<open>
  The contract of a sorted set: an operation that is allowed in the current state and whose resources are usable
  returns what the specification says, and keeps the resources of other operations usable.
\<close>

primrec allowed_ops ::
  "('s double \<Rightarrow> 's double \<Rightarrow> 's double) \<Rightarrow> ((sds \<rightharpoonup> 's::linorder) \<Rightarrow> ('e, 's) zset_op \<Rightarrow> bool) \<Rightarrow> (sds \<rightharpoonup> 's) \<Rightarrow> ('e, 's) zset_op list \<Rightarrow> bool" where
  "allowed_ops fadd allowed m [] \<longleftrightarrow> True"
| "allowed_ops fadd allowed m (op # ops) \<longleftrightarrow> allowed m op \<and> allowed_ops fadd allowed (fst (abs_zset_step fadd m op)) ops"

locale sorted_set =
  fixes fadd :: "'s::linorder double \<Rightarrow> 's double \<Rightarrow> 's double"
    and step :: "'st \<Rightarrow> ('e, 's) zset_op \<Rightarrow> ('st \<times> 's zset_res) option"
    and rep :: "'st \<Rightarrow> (sds \<rightharpoonup> 's) \<Rightarrow> bool"
    and usable :: "'st \<Rightarrow> 'e \<Rightarrow> bool"
    and apart :: "'e \<Rightarrow> 'e \<Rightarrow> bool"
    and allowed :: "(sds \<rightharpoonup> 's) \<Rightarrow> ('e, 's) zset_op \<Rightarrow> bool"
    and cap :: nat
  assumes finite_rep: "rep st m \<Longrightarrow> finite (dom m)"
    and step_ok: "rep st m \<Longrightarrow> allowed m op \<Longrightarrow> usable st (op_env op) \<Longrightarrow> Suc (card (dom m)) < cap \<Longrightarrow>
      \<exists>st' r. step st op = Some (st', r) \<and> (case abs_zset_step fadd m op of (m', r') \<Rightarrow> rep st' m' \<and> r = r') \<and>
        (\<forall>e. usable st e \<longrightarrow> apart (op_env op) e \<longrightarrow> usable st' e)"
begin

lemma card_step:
  assumes "finite (dom m)"
  shows "card (dom (fst (abs_zset_step fadd m op))) \<le> Suc (card (dom m))"
proof -
  have ins: "card (insert k (dom m)) \<le> Suc (card (dom m))" for k using assms by (simp add: card_insert_if)
  have del: "card (dom m - {k}) \<le> Suc (card (dom m))" for k using card_Diff1_le[of "dom m" k] by simp
  show ?thesis
  proof (cases op)
    case (ZAdd e sc k f)
    have "fst (abs_zadd fadd m sc k f) = m \<or> (\<exists>x. fst (abs_zadd fadd m sc k f) = m(k \<mapsto> x))"
      unfolding abs_zadd_def by (auto split: double.split option.split)
    then show ?thesis using ZAdd ins[of k] by auto
  qed (use del in \<open>simp_all\<close>)
qed

lemma run_refines:
  assumes "rep st m" "\<forall>op\<in>set ops. usable st (op_env op)" "sorted_wrt apart (map op_env ops)" "card (dom m) + length ops < cap"
    "allowed_ops fadd allowed m ops"
  shows "\<exists>st' rs. run_zset_ops step st ops = Some (st', rs) \<and> (case abs_zset_ops fadd m ops of (m', rs') \<Rightarrow> rep st' m' \<and> rs = rs')"
  using assms
proof (induction ops arbitrary: st m)
  case (Cons op ops)
  obtain m1 r1 where m1: "abs_zset_step fadd m op = (m1, r1)" by fastforce
  obtain st1 where st1: "step st op = Some (st1, r1)" "rep st1 m1" "\<forall>e. usable st e \<longrightarrow> apart (op_env op) e \<longrightarrow> usable st1 e"
    using step_ok[OF Cons.prems(1), of op] Cons.prems m1 by auto
  have "card (dom m1) \<le> Suc (card (dom m))" using card_step[OF finite_rep[OF Cons.prems(1)], of op] m1 by simp
  then obtain st2 rs where "run_zset_ops step st1 ops = Some (st2, rs)" "case abs_zset_ops fadd m1 ops of (m', rs') \<Rightarrow> rep st2 m' \<and> rs = rs'"
    using Cons.IH[OF st1(2)] Cons.prems st1(3) m1 by auto
  then show ?case using st1(1) m1 by (auto split: prod.splits)
qed simp

end

subsection \<open>Representation\<close>

text \<open>
  The sorted set stands for the map from elements to scores of its nodes: no element occurs twice, and the
  dictionary stores for every element the node of the list that holds it.
\<close>

definition node_index :: "'s znode list \<Rightarrow> (sds \<times> addr) list" where
  "node_index ns = map (\<lambda>(a, l, s, e). (e, a)) ns"

definition node_scores :: "'s znode list \<Rightarrow> (sds \<times> 's) list" where
  "node_scores ns = map (\<lambda>(a, l, s, e). (e, s)) ns"

definition zset_nodes :: "'s::linorder zset \<Rightarrow> 's znode list \<Rightarrow> bool" where
  "zset_nodes zs ns \<longleftrightarrow> zsl_rep (z_heap zs) (z_zsl zs) ns \<and> distinct (map fst (node_index ns)) \<and> dict_inv (z_dict zs) \<and>
     dict_map (z_dict zs) = map_option Some \<circ> map_of (node_index ns)"

definition zset_rep :: "'s::linorder zset \<Rightarrow> (sds \<rightharpoonup> 's) \<Rightarrow> bool" where
  "zset_rep zs m \<longleftrightarrow> (\<exists>ns. zset_nodes zs ns \<and> m = map_of (node_scores ns))"

lemma fst_node_lists: "map fst (node_scores ns) = map fst (node_index ns)"
  by (simp add: node_scores_def node_index_def case_prod_beta comp_def)

lemma length_node_index [simp]: "length (node_index ns) = length ns" "length (node_scores ns) = length ns"
  by (simp_all add: node_index_def node_scores_def)

lemma card_scores:
  assumes "distinct (map fst (node_index ns))"
  shows "card (dom (map_of (node_scores ns))) = length ns"
proof -
  have "card (set (map fst (node_index ns))) = length ns" using distinct_card[OF assms] by simp
  then show ?thesis using fst_node_lists[of ns] by (metis dom_map_of_conv_image_fst list.set_map)
qed

lemma node_lookup:
  assumes "distinct (map fst (node_index ns))"
  shows "(map_of (node_index ns) k = None \<and> map_of (node_scores ns) k = None \<and> k \<notin> set (map fst (node_index ns))) \<or>
    (\<exists>j a l s. j < length ns \<and> ns ! j = (a, l, s, k) \<and> map_of (node_index ns) k = Some a \<and> map_of (node_scores ns) k = Some s)"
proof (cases "k \<in> set (map fst (node_index ns))")
  case False
  then show ?thesis using fst_node_lists[of ns] by (metis list.set_map map_of_eq_None_iff)
next
  case True
  then obtain j where j: "j < length ns" "map fst (node_index ns) ! j = k" by (metis in_set_conv_nth length_map length_node_index(1))
  obtain a l s where n: "ns ! j = (a, l, s, k)" using j by (cases "ns ! j") (simp add: node_index_def)
  have "(k, a) \<in> set (node_index ns)" "(k, s) \<in> set (node_scores ns)"
    using j(1) n nth_mem[OF j(1)] by (force simp: node_index_def node_scores_def)+
  then have "map_of (node_index ns) k = Some a" "map_of (node_scores ns) k = Some s"
    using assms fst_node_lists[of ns] by (simp_all add: map_of_eq_Some_iff)
  then show ?thesis using j(1) n by blast
qed

lemma zset_nodesD:
  assumes "zset_nodes zs ns"
  shows "zsl_rep (z_heap zs) (z_zsl zs) ns" "distinct (map fst (node_index ns))" "dict_inv (z_dict zs)"
    "dict_map (z_dict zs) k = map_option Some (map_of (node_index ns) k)"
  using assms by (simp_all add: zset_nodes_def)

text \<open>A step of the dictionary that changes no entry keeps the representation.\<close>

lemma zset_same_dict:
  assumes "zset_nodes zs ns" "dict_same (z_dict zs) d"
  shows "zset_nodes (zs\<lparr>z_dict := d\<rparr>) ns"
  using assms dict_sameD[OF assms(2)] dict_same_map[OF zset_nodesD(3)[OF assms(1)] assms(2)] by (simp add: zset_nodes_def)

lemma zset_nodes_rep: "zset_nodes zs ns \<Longrightarrow> zset_rep zs (map_of (node_scores ns))"
  by (auto simp: zset_rep_def)

subsection \<open>Lookup, score and rank\<close>

lemma zset_find:
  assumes "zset_nodes zs ns"
  shows "\<exists>d. dictFind r (z_dict zs) k = Some (d, map_option (\<lambda>a. (k, Some a)) (map_of (node_index ns) k)) \<and> zset_nodes (zs\<lparr>z_dict := d\<rparr>) ns"
  using dictFind_spec[OF zset_nodesD(3)[OF assms], of r k] zset_nodesD(4)[OF assms, of k] zset_same_dict[OF assms]
  by (auto simp: option.map_comp comp_def)

lemma zsetScore_rep:
  assumes z: "zset_nodes zs ns"
  shows "\<exists>zs'. zsetScore env zs k = Some (zs', map_option Num (map_of (node_scores ns) k)) \<and> zset_nodes zs' ns \<and> z_heap zs' = z_heap zs"
proof -
  obtain d where d: "dictFind (e_resize env) (z_dict zs) k = Some (d, map_option (\<lambda>a. (k, Some a)) (map_of (node_index ns) k))"
      "zset_nodes (zs\<lparr>z_dict := d\<rparr>) ns"
    using zset_find[OF z] by blast
  from node_lookup[OF zset_nodesD(2)[OF z], of k] show ?thesis
  proof (elim disjE exE conjE)
    fix j a l s
    assume n: "j < length ns" "ns ! j = (a, l, s, k)" "map_of (node_index ns) k = Some a" "map_of (node_scores ns) k = Some s"
    then obtain m where "z_heap zs a = Some m" "score m = Num s" using node_at[OF zset_nodesD(1)[OF z] n(1,2)] by blast
    then show ?thesis using d n by (simp add: zsetScore_def dictGetNode_def)
  qed (use d in \<open>simp add: zsetScore_def\<close>)
qed

lemma scores_iff:
  assumes "distinct (map fst (node_index ns))"
  shows "map_of (node_scores ns) e = Some t \<longleftrightarrow> (\<exists>i < length ns. node_keys ns ! i = (t, e))"
proof -
  have "map_of (node_scores ns) e = Some t \<longleftrightarrow> (e, t) \<in> set (node_scores ns)"
    using assms fst_node_lists[of ns] by (simp add: map_of_eq_Some_iff)
  also have "\<dots> \<longleftrightarrow> (t, e) \<in> set (node_keys ns)" by (force simp: node_scores_def node_keys_def)
  finally show ?thesis by (metis in_set_conv_nth length_node_lists(3))
qed

lemma snd_keys: "map snd (node_keys ns) = map fst (node_index ns)"
  by (simp add: node_keys_def node_index_def case_prod_beta comp_def)

lemma abs_rank_nodes:
  assumes sorted: "sorted_wrt (<) (node_keys ns)" and d: "distinct (map fst (node_index ns))"
    and j: "j < length ns" "ns ! j = (a, l, s, k)"
  shows "abs_rank (map_of (node_scores ns)) k reverse = int (if reverse then length ns - Suc j else j)"
proof -
  let ?m = "map_of (node_scores ns)" and ?k = "node_keys ns"
  have key: "?k ! j = (s, k)" using j by (simp add: node_keys_def)
  have less: "?k ! i < ?k ! i' \<longleftrightarrow> i < i'" if "i < length ns" "i' < length ns" for i i'
    using rank_of_iff[OF sorted, of i "?k ! i'"] rank_of_nth[OF sorted, of i'] that by simp
  have set_eq: "{e. \<exists>t. ?m e = Some t \<and> P (t, e)} = (\<lambda>i. snd (?k ! i)) ` {i. i < length ns \<and> P (?k ! i)}" for P
    unfolding scores_iff[OF d] by (rule set_eqI) (simp add: image_iff, metis prod.collapse snd_conv)
  have inj: "inj_on (\<lambda>i. snd (?k ! i)) {i. i < length ns \<and> P i}" for P
  proof (rule inj_onI)
    fix x y assume "x \<in> {i. i < length ns \<and> P i}" "y \<in> {i. i < length ns \<and> P i}" "snd (?k ! x) = snd (?k ! y)"
    moreover have "distinct (map snd ?k)" using d snd_keys[of ns] by simp
    ultimately show "x = y" using nth_eq_iff_index_eq[of "map snd ?k" x y] by simp
  qed
  have "card {e. \<exists>t. ?m e = Some t \<and> P (t, e)} = card {i. i < length ns \<and> P (?k ! i)}" for P
    unfolding set_eq by (rule card_image[OF inj])
  note c = this[of "\<lambda>x. if reverse then (s, k) < x else x < (s, k)"]
  have "{i. i < length ns \<and> (if reverse then (s, k) < ?k ! i else ?k ! i < (s, k))} = (if reverse then {Suc j..<length ns} else {..<j})"
    using less[OF j(1)] less[OF _ j(1)] j(1) unfolding key by auto
  then have "card {i. i < length ns \<and> (if reverse then (s, k) < ?k ! i else ?k ! i < (s, k))} = (if reverse then length ns - Suc j else j)"
    by simp
  moreover have "?m k = Some s" using scores_iff[OF d] j(1) key by blast
  ultimately show ?thesis using c by (simp add: abs_rank_def)
qed

lemma sint_small_nat: "n < 2 ^ 63 \<Longrightarrow> sint (of_nat n :: u64) = int n"
  by (simp add: signed_of_nat signed_take_bit_int_eq_self)

lemma zsetRank_rep:
  assumes z: "zset_nodes zs ns" and small: "length ns < 2 ^ 63"
  shows "\<exists>zs'. zsetRank env zs k reverse = Some (zs', abs_rank (map_of (node_scores ns)) k reverse, map_option Num (map_of (node_scores ns) k)) \<and> zset_nodes zs' ns \<and> z_heap zs' = z_heap zs"
proof -
  obtain d where d: "dictFind (e_resize env) (z_dict zs) k = Some (d, map_option (\<lambda>a. (k, Some a)) (map_of (node_index ns) k))"
      "zset_nodes (zs\<lparr>z_dict := d\<rparr>) ns"
    using zset_find[OF z] by blast
  note rep = zset_nodesD(1)[OF z]
  from node_lookup[OF zset_nodesD(2)[OF z], of k] show ?thesis
  proof (elim disjE exE conjE)
    fix j a l s
    assume n: "j < length ns" "ns ! j = (a, l, s, k)" "map_of (node_index ns) k = Some a" "map_of (node_scores ns) k = Some s"
    have r: "zslGetRankByNode (z_heap zs) (z_zsl zs) (Some a) = Some (of_nat (Suc j))"
      using zslGetRankByNode_rep[OF rep n(1)] n(2) by simp
    obtain nd where nd: "z_heap zs a = Some nd" "score nd = Num s" using node_at[OF rep n(1,2)] by blast
    have sj: "Suc j < 2 ^ 64" using n(1) small by (simp add: less_trans)
    have nz: "(of_nat (Suc j) :: u64) \<noteq> 0"
    proof
      assume "(of_nat (Suc j) :: u64) = 0"
      then have "unat (of_nat (Suc j) :: u64) = 0" by (simp only: unat_0)
      then show False using sj by (simp add: unat_of_nat take_bit_nat_eq_self del: of_nat_Suc)
    qed
    have "zsetLength zs = of_nat (length ns)" using rep by (simp add: zsetLength_def zsl_rep_def)
    then have "(if reverse then zsetLength zs - of_nat (Suc j) else of_nat (Suc j) - 1) = (of_nat (if reverse then length ns - Suc j else j) :: u64)"
      using n(1) by (simp add: of_nat_diff)
    then have "sint (if reverse then zsetLength zs - of_nat (Suc j) else of_nat (Suc j) - 1) = int (if reverse then length ns - Suc j else j)"
      using sint_small_nat[of "if reverse then length ns - Suc j else j"] n(1) small by auto
    moreover have "sorted_wrt (<) (node_keys ns)" using rep by (simp add: zsl_rep_def)
    ultimately show ?thesis
      using d n r nz nd abs_rank_nodes[OF _ zset_nodesD(2)[OF z] n(1,2)] by (simp add: zsetRank_def dictGetNode_def del: of_nat_Suc)
  qed (use d in \<open>simp add: zsetRank_def abs_rank_def\<close>)
qed

subsection \<open>Changes of the list of nodes\<close>

lemma map_of_ins_at:
  assumes "distinct (map fst xs)" "k \<notin> set (map fst xs)"
  shows "map_of (ins_at r (k, v) xs) = (map_of xs)(k \<mapsto> v)" "distinct (map fst (ins_at r (k, v) xs))"
proof -
  have "mset (ins_at r (k, v) xs) = mset ((k, v) # xs)"
    by (simp add: ins_at_def) (metis append_take_drop_id mset_append union_mset_add_mset_right)
  then show "map_of (ins_at r (k, v) xs) = (map_of xs)(k \<mapsto> v)" "distinct (map fst (ins_at r (k, v) xs))"
    using map_of_mset_eq[of "(k, v) # xs" "ins_at r (k, v) xs"] assms by simp_all
qed

lemma map_of_del_at:
  assumes "distinct (map fst xs)" "j < length xs" "xs ! j = (k, v)"
  shows "map_of (del_at j xs) = (map_of xs)(k := None)" "distinct (map fst (del_at j xs))" "k \<notin> set (map fst (del_at j xs))"
proof -
  have xs: "xs = ins_at j (k, v) (del_at j xs)" using ins_del_at[OF assms(2)] assms(3) by simp
  have "map fst xs = ins_at j k (map fst (del_at j xs))" by (subst xs) (simp add: map_ins_at)
  then show d: "distinct (map fst (del_at j xs))" "k \<notin> set (map fst (del_at j xs))" using assms(1) distinct_ins_at by metis+
  have "map_of xs = (map_of (del_at j xs))(k \<mapsto> v)" by (subst xs) (rule map_of_ins_at(1)[OF d])
  then show "map_of (del_at j xs) = (map_of xs)(k := None)" using d(2) by (auto simp: fun_eq_iff map_of_eq_None_iff)
qed

lemma node_lists_at:
  "node_index (ins_at r (a, l, s, e) ns) = ins_at r (e, a) (node_index ns)" "node_scores (ins_at r (a, l, s, e) ns) = ins_at r (e, s) (node_scores ns)"
  "node_index (del_at j ns) = del_at j (node_index ns)" "node_scores (del_at j ns) = del_at j (node_scores ns)"
  by (simp_all add: node_index_def node_scores_def map_ins_at del_at_def take_map drop_map)

lemma scores_ins:
  assumes "distinct (map fst (node_index ns))" "e \<notin> set (map fst (node_index ns))"
  shows "map_of (node_scores (ins_at r (a, l, s, e) ns)) = (map_of (node_scores ns))(e \<mapsto> s)"
    "map_of (node_index (ins_at r (a, l, s, e) ns)) = (map_of (node_index ns))(e \<mapsto> a)"
    "distinct (map fst (node_index (ins_at r (a, l, s, e) ns)))"
  using map_of_ins_at(1)[of "node_scores ns" e] map_of_ins_at[of "node_index ns" e] assms fst_node_lists[of ns]
  unfolding node_lists_at by simp_all

lemma scores_del:
  assumes "distinct (map fst (node_index ns))" "j < length ns" "ns ! j = (a, l, s, e)"
  shows "map_of (node_scores (del_at j ns)) = (map_of (node_scores ns))(e := None)"
    "map_of (node_index (del_at j ns)) = (map_of (node_index ns))(e := None)"
    "distinct (map fst (node_index (del_at j ns)))" "e \<notin> set (map fst (node_index (del_at j ns)))"
proof -
  have "node_index ns ! j = (e, a)" "node_scores ns ! j = (e, s)" using assms(2,3) by (simp_all add: node_index_def node_scores_def)
  then show "map_of (node_scores (del_at j ns)) = (map_of (node_scores ns))(e := None)"
    "map_of (node_index (del_at j ns)) = (map_of (node_index ns))(e := None)"
    "distinct (map fst (node_index (del_at j ns)))" "e \<notin> set (map fst (node_index (del_at j ns)))"
    using map_of_del_at(1)[of "node_scores ns" j e s] map_of_del_at[of "node_index ns" j e a] assms(1,2) fst_node_lists[of ns]
    unfolding node_lists_at by simp_all
qed

lemma key_not_in: "e \<notin> set (map fst (node_index ns)) \<Longrightarrow> (s, e) \<notin> set (node_keys ns)"
  unfolding snd_keys[symmetric] by force

subsection \<open>Removal and addition\<close>

definition z_usable :: "'s zset \<Rightarrow> zenv \<Rightarrow> bool" where
  "z_usable zs env \<longleftrightarrow> z_heap zs (e_addr env) = None \<and> zslRandomLevel (e_random env) \<noteq> None"

definition z_apart :: "zenv \<Rightarrow> zenv \<Rightarrow> bool" where
  "z_apart env env' \<longleftrightarrow> e_addr env \<noteq> e_addr env'"

lemma usable_not_node:
  assumes "zset_nodes zs ns" "z_usable zs env"
  shows "e_addr env \<notin> set (node_addrs (z_zsl zs) ns)"
  using node_in_heap[OF zset_nodesD(1)[OF assms(1)], of "e_addr env"] assms(2) by (auto simp: z_usable_def)

lemma zsetDel_rep:
  assumes z: "zset_nodes zs ns"
  shows "\<exists>zs' ns'. zsetDel env zs k = Some (zs', map_of (node_scores ns) k \<noteq> None) \<and> zset_nodes zs' ns' \<and>
    map_of (node_scores ns') = (map_of (node_scores ns))(k := None) \<and> (\<forall>e. z_usable zs e \<longrightarrow> z_usable zs' e)"
proof -
  note Z = zset_nodesD[OF z]
  obtain d where d: "dictUnlink (e_resize env) (z_dict zs) k = Some (d, map_option (\<lambda>a. (k, Some a)) (map_of (node_index ns) k))"
      "dict_upd (z_dict zs) ((dict_map (z_dict zs))(k := None)) d"
    using dictGenericDelete_spec[OF Z(3), of "e_resize env" k] Z(4)[of k] by (auto simp: dictUnlink_def option.map_comp comp_def)
  have dd: "dict_inv d" "dict_map d = (dict_map (z_dict zs))(k := None)"
    using d(2) by (simp_all add: dict_upd_def)
  have map_d: "dict_map d = map_option Some \<circ> (map_of (node_index ns))(k := None)" using dd(2) Z(4) by (auto simp: fun_eq_iff)
  from node_lookup[OF Z(2), of k] show ?thesis
  proof (elim disjE exE conjE)
    assume no: "map_of (node_index ns) k = None" "map_of (node_scores ns) k = None" "k \<notin> set (map fst (node_index ns))"
    then have "zset_nodes (zs\<lparr>z_dict := d\<rparr>) ns" using Z dd map_d by (simp add: zset_nodes_def fun_upd_idem)
    then show ?thesis using d(1) no by (auto simp: zsetDel_def zsetRemoveFromSkiplist_def fun_upd_idem z_usable_def)
  next
    fix j a l s
    assume n: "j < length ns" "ns ! j = (a, l, s, k)" "map_of (node_index ns) k = Some a" "map_of (node_scores ns) k = Some s"
    obtain h' zsl' where del: "zslDelete (z_heap zs) (z_zsl zs) a = Some (h', zsl')" "zsl_rep h' zsl' (del_at j ns)"
        "\<forall>y. y \<notin> set (node_addrs (z_zsl zs) ns) \<longrightarrow> h' y = z_heap zs y"
      using zslDelete_rep[OF Z(1) n(1,2)] by blast
    let ?zs = "\<lparr>z_heap = h', z_zsl = zsl', z_dict = d\<rparr>"
    have "zset_nodes ?zs (del_at j ns)" using del(2) dd map_d scores_del[OF Z(2) n(1,2)] by (simp add: zset_nodes_def)
    moreover have "\<forall>e. z_usable zs e \<longrightarrow> z_usable ?zs e" using usable_not_node[OF z] del(3) by (simp add: z_usable_def)
    ultimately show ?thesis using d(1) n del(1) scores_del(1)[OF Z(2) n(1,2)]
      by (auto simp: zsetDel_def zsetRemoveFromSkiplist_def dictGetNode_def)
  qed
qed

lemma zset_insert_node:
  assumes z: "zset_nodes zs ns" and u: "z_usable zs env" and new: "k \<notin> set (map fst (node_index ns))" and small: "Suc (length ns) < 2 ^ 64"
    and d: "dict_inv d" "dict_map d = (dict_map (z_dict zs))(k \<mapsto> Some (e_addr env))"
  shows "\<exists>h' zsl' ns'. zslInsert (z_heap zs) (z_zsl zs) (e_random env) (e_addr env) (e_junk env) (Num s) k = Some (h', zsl', e_addr env) \<and>
    zset_nodes \<lparr>z_heap = h', z_zsl = zsl', z_dict = d\<rparr> ns' \<and> map_of (node_scores ns') = (map_of (node_scores ns))(k \<mapsto> s) \<and>
    length ns' = Suc (length ns) \<and>
    (\<forall>e. z_usable zs e \<longrightarrow> z_apart env e \<longrightarrow> z_usable \<lparr>z_heap = h', z_zsl = zsl', z_dict = d\<rparr> e)"
proof -
  note Z = zset_nodesD[OF z]
  obtain lv where lv: "zslRandomLevel (e_random env) = Some lv" using u by (auto simp: z_usable_def)
  let ?ns = "ins_at (rank_of ns (s, k)) (e_addr env, lv, s, k) ns"
  have free: "z_heap zs (e_addr env) = None" using u by (simp add: z_usable_def)
  obtain h' zsl' where i: "zslInsert (z_heap zs) (z_zsl zs) (e_random env) (e_addr env) (e_junk env) (Num s) k = Some (h', zsl', e_addr env)"
      "zsl_rep h' zsl' ?ns" "\<forall>y. y \<notin> set (node_addrs (z_zsl zs) ns) \<longrightarrow> y \<noteq> e_addr env \<longrightarrow> h' y = z_heap zs y"
    using zslInsert_rep[OF Z(1) free lv key_not_in[OF new] small] by blast
  have "(dict_map (z_dict zs))(k \<mapsto> Some (e_addr env)) = map_option Some \<circ> map_of (node_index ?ns)"
    using Z(4) scores_ins(2)[OF Z(2) new] by (auto simp: fun_eq_iff)
  then have "zset_nodes \<lparr>z_heap = h', z_zsl = zsl', z_dict = d\<rparr> ?ns"
    using i(2) scores_ins(3)[OF Z(2) new] d by (simp add: zset_nodes_def)
  moreover have "\<forall>e. z_usable zs e \<longrightarrow> z_apart env e \<longrightarrow> z_usable \<lparr>z_heap = h', z_zsl = zsl', z_dict = d\<rparr> e"
    using usable_not_node[OF z] i(3) by (auto simp: z_usable_def z_apart_def)
  moreover have "length ?ns = Suc (length ns)" using rank_of_le by (intro length_ins_at)
  ultimately show ?thesis using i(1) scores_ins(1)[OF Z(2) new] by blast
qed

lemma zset_insert:
  assumes z: "zset_nodes zs ns" and u: "z_usable zs env" and new: "k \<notin> set (map fst (node_index ns))" and small: "Suc (length ns) < 2 ^ 64"
    and d: "dict_same (z_dict zs) d" and b: "\<forall>c. b = Some c \<longrightarrow> bucket_for d k c"
  shows "\<exists>h' zsl' d' ns'. zslInsert (z_heap zs) (z_zsl zs) (e_random env) (e_addr env) (e_junk env) (Num s) k = Some (h', zsl', e_addr env) \<and>
    dictSetKeyAtLink (e_resize env) d k (e_addr env) b = Some d' \<and> zset_nodes \<lparr>z_heap = h', z_zsl = zsl', z_dict = d'\<rparr> ns' \<and>
    map_of (node_scores ns') = (map_of (node_scores ns))(k \<mapsto> s) \<and>
    (\<forall>e. z_usable zs e \<longrightarrow> z_apart env e \<longrightarrow> z_usable \<lparr>z_heap = h', z_zsl = zsl', z_dict = d'\<rparr> e)"
proof -
  note Z = zset_nodesD[OF z]
  have dd: "dict_inv d" "dict_map d = dict_map (z_dict zs)"
    using dict_sameD[OF d] dict_same_map[OF Z(3) d] by simp_all
  have "map_of (node_index ns) k = None" using new by (simp add: map_of_eq_None_iff)
  then have "dict_map d k = None" using dd(2) Z(4) by simp
  then obtain d' where d': "dictSetKeyAtLink (e_resize env) d k (e_addr env) b = Some d'" "dict_upd d ((dict_map d)(k \<mapsto> Some (e_addr env))) d'"
    using dictSetKeyAtLink_spec[OF dd(1)] b by metis
  have "dict_inv d'" "dict_map d' = (dict_map (z_dict zs))(k \<mapsto> Some (e_addr env))"
    using d'(2) dd by (simp_all add: dict_upd_def)
  from zset_insert_node[OF z u new small this] show ?thesis using d'(1) by blast
qed

lemma zset_update:
  assumes z: "zset_nodes zs ns" and j: "j < length ns" "ns ! j = (a, l, s, k)" and d: "dict_same (z_dict zs) d"
  shows "\<exists>h' zsl' ns'. zslUpdateScore (z_heap zs) (z_zsl zs) a (Num x) = Some (h', zsl') \<and>
    zset_nodes \<lparr>z_heap = h', z_zsl = zsl', z_dict = d\<rparr> ns' \<and> map_of (node_scores ns') = (map_of (node_scores ns))(k \<mapsto> x) \<and>
    (\<forall>e. z_usable zs e \<longrightarrow> z_usable \<lparr>z_heap = h', z_zsl = zsl', z_dict = d\<rparr> e)"
proof -
  note Z = zset_nodesD[OF z] and D = scores_del[OF zset_nodesD(2)[OF z] j]
  let ?ns = "ins_at (rank_of (del_at j ns) (x, k)) (a, l, x, k) (del_at j ns)"
  obtain h' zsl' where u: "zslUpdateScore (z_heap zs) (z_zsl zs) a (Num x) = Some (h', zsl')" "zsl_rep h' zsl' ?ns"
      "\<forall>y. y \<notin> set (node_addrs (z_zsl zs) ns) \<longrightarrow> h' y = z_heap zs y"
    using zslUpdateScore_rep[OF Z(1) j key_not_in[OF D(4)]] by blast
  note I = scores_ins[OF D(3,4)]
  have "map_of (node_index ns) k = Some a" using Z(2) j nth_mem[OF j(1)] by (force simp: node_index_def map_of_eq_Some_iff)
  then have "map_of (node_index ?ns) = map_of (node_index ns)" unfolding I(2) D(2) by (auto simp: fun_eq_iff)
  moreover have "dict_inv d" "dict_map d = dict_map (z_dict zs)"
    using dict_sameD[OF d] dict_same_map[OF Z(3) d] by simp_all
  ultimately have "zset_nodes \<lparr>z_heap = h', z_zsl = zsl', z_dict = d\<rparr> ?ns"
    using u(2) I(3) Z(4) by (simp add: zset_nodes_def fun_eq_iff)
  moreover have "\<forall>e. z_usable zs e \<longrightarrow> z_usable \<lparr>z_heap = h', z_zsl = zsl', z_dict = d\<rparr> e"
    using usable_not_node[OF z] u(3) by (simp add: z_usable_def)
  moreover have "map_of (node_scores ?ns) = (map_of (node_scores ns))(k \<mapsto> x)" unfolding I(1) D(1) by simp
  ultimately show ?thesis using u(1) by blast
qed

lemma zset_find_bucket:
  assumes z: "zset_nodes zs ns"
  shows "\<exists>d link b. dictFindLinkBucket r (z_dict zs) k = Some (d, link, b) \<and> dict_same (z_dict zs) d \<and> zset_nodes (zs\<lparr>z_dict := d\<rparr>) ns \<and>
    (case link of
       Some l \<Rightarrow> \<exists>j a lv s. j < length ns \<and> ns ! j = (a, lv, s, k) \<and> link_entry d l = Some (k, Some a) \<and> map_of (node_scores ns) k = Some s
     | None \<Rightarrow> k \<notin> set (map fst (node_index ns)) \<and> map_of (node_scores ns) k = None \<and> (\<forall>c. b = Some c \<longrightarrow> bucket_for d k c))"
proof -
  note Z = zset_nodesD[OF z]
  obtain d link b where f: "dictFindLinkBucket r (z_dict zs) k = Some (d, link, b)" "dict_same (z_dict zs) d"
      "case link of Some l \<Rightarrow> \<exists>v. at_link d l k v \<and> dict_map (z_dict zs) k = Some v
       | None \<Rightarrow> dict_map (z_dict zs) k = None \<and> (\<forall>c. b = Some c \<longrightarrow> bucket_for d k c)"
    using dictFindLinkBucket_spec[OF Z(3)] by blast
  have "case link of
       Some l \<Rightarrow> \<exists>j a lv s. j < length ns \<and> ns ! j = (a, lv, s, k) \<and> link_entry d l = Some (k, Some a) \<and> map_of (node_scores ns) k = Some s
     | None \<Rightarrow> k \<notin> set (map fst (node_index ns)) \<and> map_of (node_scores ns) k = None \<and> (\<forall>c. b = Some c \<longrightarrow> bucket_for d k c)"
  proof (cases link)
    case None
    then show ?thesis using f(3) Z(4)[of k] node_lookup[OF Z(2), of k] by auto
  next
    case (Some l)
    then obtain v where v: "at_link d l k v" "dict_map (z_dict zs) k = Some v" using f(3) by auto
    then obtain j a lv s where "j < length ns" "ns ! j = (a, lv, s, k)" "v = Some a" "map_of (node_scores ns) k = Some s"
      using Z(4)[of k] node_lookup[OF Z(2), of k] by auto
    then show ?thesis using Some at_link_entry[OF v(1)] by auto
  qed
  then show ?thesis using f(1,2) zset_same_dict[OF z f(2)] by blast
qed

text \<open>The decisions of \<open>zsetAdd\<close> for an element that is there with score \<open>c\<close>, and what they mean for the map.\<close>

definition zadd_branch :: "u32 \<Rightarrow> 's::linorder double \<Rightarrow> 's \<Rightarrow> 'r \<Rightarrow> 'r \<Rightarrow> 'r \<Rightarrow> 'r \<Rightarrow> 'r" where
  "zadd_branch flags x c nop nan upd same =
     (if flags AND ZADD_IN_NX \<noteq> 0 then nop
      else if flags AND ZADD_IN_INCR \<noteq> 0 \<and> isnan x then nan
      else if (flags AND ZADD_IN_LT \<noteq> 0 \<and> double_le (Num c) x) \<or> (flags AND ZADD_IN_GT \<noteq> 0 \<and> double_le x (Num c)) then nop
      else if \<not> double_eq x (Num c) then upd else same)"

lemma zadd_branch_cases:
  assumes "m el = Some c" "x = (if flags AND ZADD_IN_INCR \<noteq> 0 then fadd (Num s) (Num c) else Num s)"
  obtains (nop) "zadd_branch flags x c nop nan upd same = nop" "abs_zadd fadd m (Num s) el flags = (m, Added True ZADD_OUT_NOP None)"
    | (nan) "zadd_branch flags x c nop nan upd same = nan" "abs_zadd fadd m (Num s) el flags = (m, Added False ZADD_OUT_NAN None)"
    | (upd) y where "x = Num y" "zadd_branch flags x c nop nan upd same = upd"
        "abs_zadd fadd m (Num s) el flags = (m(el \<mapsto> y), Added True ZADD_OUT_UPDATED (Some (Num y)))"
    | (same) "x = Num c" "zadd_branch flags x c nop nan upd same = same" "abs_zadd fadd m (Num s) el flags = (m, Added True 0 (Some (Num c)))"
proof (cases x)
  case NaN
  then have i: "flags AND ZADD_IN_INCR \<noteq> 0" using assms(2) by (auto split: if_splits)
  show ?thesis
  proof (cases "flags AND ZADD_IN_NX \<noteq> 0")
    case True
    then show ?thesis using assms(1) by (intro that(1)) (simp_all add: zadd_branch_def abs_zadd_def)
  next
    case False
    then show ?thesis using assms NaN i by (intro that(2)) (simp_all add: zadd_branch_def abs_zadd_def)
  qed
next
  case (Num y)
  have abs: "abs_zadd fadd m (Num s) el flags =
    (if flags AND ZADD_IN_NX \<noteq> 0 then (m, Added True ZADD_OUT_NOP None)
     else if flags AND ZADD_IN_LT \<noteq> 0 \<and> c \<le> y \<or> flags AND ZADD_IN_GT \<noteq> 0 \<and> y \<le> c then (m, Added True ZADD_OUT_NOP None)
     else (m(el \<mapsto> y), Added True (if y = c then 0 else ZADD_OUT_UPDATED) (Some (Num y))))"
    unfolding abs_zadd_def double.case assms(1) option.case assms(2)[symmetric] Num by (rule refl)
  have run: "zadd_branch flags x c nop nan upd same =
    (if flags AND ZADD_IN_NX \<noteq> 0 \<or> flags AND ZADD_IN_LT \<noteq> 0 \<and> c \<le> y \<or> flags AND ZADD_IN_GT \<noteq> 0 \<and> y \<le> c then nop
     else if y \<noteq> c then upd else same)"
    by (simp add: zadd_branch_def Num)
  consider "flags AND ZADD_IN_NX \<noteq> 0 \<or> flags AND ZADD_IN_LT \<noteq> 0 \<and> c \<le> y \<or> flags AND ZADD_IN_GT \<noteq> 0 \<and> y \<le> c"
    | "\<not> (flags AND ZADD_IN_NX \<noteq> 0 \<or> flags AND ZADD_IN_LT \<noteq> 0 \<and> c \<le> y \<or> flags AND ZADD_IN_GT \<noteq> 0 \<and> y \<le> c)" "y \<noteq> c"
    | "\<not> (flags AND ZADD_IN_NX \<noteq> 0 \<or> flags AND ZADD_IN_LT \<noteq> 0 \<and> c \<le> y \<or> flags AND ZADD_IN_GT \<noteq> 0 \<and> y \<le> c)" "y = c" by blast
  then show ?thesis
  proof cases
    case 1
    then show ?thesis unfolding run abs by (intro that(1)[unfolded run abs]) auto
  next
    case 2
    then show ?thesis by (intro that(3)[OF Num]) (auto simp: run abs)
  next
    case 3
    then have "zadd_branch flags x c nop nan upd same = same" unfolding run by auto
    moreover have "m(el \<mapsto> c) = m" using assms(1) by (simp add: fun_upd_idem)
    ultimately show ?thesis using 3 Num by (intro that(4)) (auto simp: abs)
  qed
qed

lemma zsetAdd_rep:
  assumes z: "zset_nodes zs ns" and u: "z_usable zs env" and small: "Suc (length ns) < 2 ^ 64"
  shows "\<exists>zs' ns' b out new. zsetAdd fadd env zs sc k flags = Some (zs', b, out, new) \<and> zset_nodes zs' ns' \<and>
    abs_zadd fadd (map_of (node_scores ns)) sc k flags = (map_of (node_scores ns'), Added b out new) \<and>
    (\<forall>e. z_usable zs e \<longrightarrow> z_apart env e \<longrightarrow> z_usable zs' e)"
proof (cases sc)
  case NaN
  then show ?thesis using z by (auto simp: zsetAdd_def abs_zadd_def)
next
  case (Num s)
  note Z = zset_nodesD[OF z]
  obtain d link b where f: "dictFindLinkBucket (e_resize env) (z_dict zs) k = Some (d, link, b)" "dict_same (z_dict zs) d" "zset_nodes (zs\<lparr>z_dict := d\<rparr>) ns"
      "case link of
       Some l \<Rightarrow> \<exists>j a lv s. j < length ns \<and> ns ! j = (a, lv, s, k) \<and> link_entry d l = Some (k, Some a) \<and> map_of (node_scores ns) k = Some s
     | None \<Rightarrow> k \<notin> set (map fst (node_index ns)) \<and> map_of (node_scores ns) k = None \<and> (\<forall>c. b = Some c \<longrightarrow> bucket_for d k c)"
    using zset_find_bucket[OF z] by blast
  have us: "\<forall>e. z_usable zs e \<longrightarrow> z_apart env e \<longrightarrow> z_usable (zs\<lparr>z_dict := d\<rparr>) e" by (simp add: z_usable_def)
  show ?thesis
  proof (cases link)
    case None
    then have new: "k \<notin> set (map fst (node_index ns))" "map_of (node_scores ns) k = None" "\<forall>c. b = Some c \<longrightarrow> bucket_for d k c" using f(4) by auto
    show ?thesis
    proof (cases "flags AND ZADD_IN_XX \<noteq> 0")
      case True
      then show ?thesis using f us Num None new(2) by (auto simp: zsetAdd_def abs_zadd_def)
    next
      case False
      obtain h' zsl' d' ns' where i: "zslInsert (z_heap zs) (z_zsl zs) (e_random env) (e_addr env) (e_junk env) (Num s) k = Some (h', zsl', e_addr env)"
          "dictSetKeyAtLink (e_resize env) d k (e_addr env) b = Some d'" "zset_nodes \<lparr>z_heap = h', z_zsl = zsl', z_dict = d'\<rparr> ns'"
          "map_of (node_scores ns') = (map_of (node_scores ns))(k \<mapsto> s)"
          "\<forall>e. z_usable zs e \<longrightarrow> z_apart env e \<longrightarrow> z_usable \<lparr>z_heap = h', z_zsl = zsl', z_dict = d'\<rparr> e"
        using zset_insert[OF z u new(1) small f(2) new(3), of s] by blast
      have "zsetAdd fadd env zs sc k flags = Some (\<lparr>z_heap = h', z_zsl = zsl', z_dict = d'\<rparr>, True, ZADD_OUT_ADDED, Some (Num s))"
        using False f(1) Num None i(1,2) by (simp add: zsetAdd_def)
      moreover have "abs_zadd fadd (map_of (node_scores ns)) sc k flags = (map_of (node_scores ns'), Added True ZADD_OUT_ADDED (Some (Num s)))"
        using False Num new(2) i(4) by (simp add: abs_zadd_def)
      ultimately show ?thesis using i(3,5) by blast
    qed
  next
    case (Some li)
    then obtain j a lv c where n: "j < length ns" "ns ! j = (a, lv, c, k)" "link_entry d li = Some (k, Some a)" "map_of (node_scores ns) k = Some c"
      using f(4) by auto
    obtain nd where nd: "z_heap zs a = Some nd" "score nd = Num c" using node_at[OF Z(1) n(1,2)] by blast
    define x where "x = (if flags AND ZADD_IN_INCR \<noteq> 0 then fadd (Num s) (Num c) else Num s)"
    define upd where "upd = do {
         (h, zsl) \<leftarrow> zslUpdateScore (z_heap zs) (z_zsl zs) a x;
         Some (\<lparr>z_heap = h, z_zsl = zsl, z_dict = d\<rparr>, True, ZADD_OUT_UPDATED, Some x) }"
    have run: "zsetAdd fadd env zs sc k flags =
        zadd_branch flags x c (Some (zs\<lparr>z_dict := d\<rparr>, True, ZADD_OUT_NOP, None)) (Some (zs\<lparr>z_dict := d\<rparr>, False, ZADD_OUT_NAN, None))
          upd (Some (zs\<lparr>z_dict := d\<rparr>, True, 0, Some x))"
      unfolding zsetAdd_def Let_def Num isnan.simps if_False f(1) bind.bind_lunit prod.case Some option.case n(3) dictGetNode_def snd_conv nd x_def
        zadd_branch_def upd_def by (rule refl)
    from zadd_branch_cases[where m = "map_of (node_scores ns)" and el = k and c = c and fadd = fadd and s = s and flags = flags and x = x
        and nop = "Some (zs\<lparr>z_dict := d\<rparr>, True, ZADD_OUT_NOP, None)" and nan = "Some (zs\<lparr>z_dict := d\<rparr>, False, ZADD_OUT_NAN, None)"
        and upd = upd and same = "Some (zs\<lparr>z_dict := d\<rparr>, True, 0, Some x)", OF n(4) x_def]
    show ?thesis
    proof cases
      case (3 y)
      obtain h' zsl' ns' where u: "zslUpdateScore (z_heap zs) (z_zsl zs) a (Num y) = Some (h', zsl')"
          "zset_nodes \<lparr>z_heap = h', z_zsl = zsl', z_dict = d\<rparr> ns'" "map_of (node_scores ns') = (map_of (node_scores ns))(k \<mapsto> y)"
          "\<forall>e. z_usable zs e \<longrightarrow> z_usable \<lparr>z_heap = h', z_zsl = zsl', z_dict = d\<rparr> e"
        using zset_update[OF z n(1,2) f(2), of y] by blast
      have "zsetAdd fadd env zs sc k flags = Some (\<lparr>z_heap = h', z_zsl = zsl', z_dict = d\<rparr>, True, ZADD_OUT_UPDATED, Some (Num y))"
        using run 3(1,2) u(1) by (simp add: upd_def)
      then show ?thesis using u(2-4) 3(3) Num by metis
    qed (use run f(3) us Num in \<open>metis+\<close>)
  qed
qed

subsection \<open>Sequences of operations\<close>

fun zset_step ::
  "('s double \<Rightarrow> 's double \<Rightarrow> 's double) \<Rightarrow> 's::linorder zset \<Rightarrow> (zenv, 's) zset_op \<Rightarrow> ('s zset \<times> 's zset_res) option" where
  "zset_step fadd zs (ZAdd env sc k flags) = map_option (\<lambda>(zs, b, out, new). (zs, Added b out new)) (zsetAdd fadd env zs sc k flags)"
| "zset_step fadd zs (ZRem env k) = map_option (apsnd Removed) (zsetDel env zs k)"
| "zset_step fadd zs (ZScore env k) = map_option (apsnd Score) (zsetScore env zs k)"
| "zset_step fadd zs (ZRank env k reverse) = map_option (\<lambda>(zs, r, sc). (zs, Rank r sc)) (zsetRank env zs k reverse)"

lemma all_allowed: "allowed_ops fadd (\<lambda>_ _. True) m ops"
  by (induction ops arbitrary: m) simp_all

interpretation zs: sorted_set fadd "zset_step fadd" zset_rep z_usable z_apart "\<lambda>_ _. True" "2 ^ 63" for fadd :: "'s::linorder double \<Rightarrow> 's double \<Rightarrow> 's double"
proof (unfold_locales, goal_cases)
  case (1 st m)
  then show ?case by (auto simp: zset_rep_def finite_dom_map_of)
next
  case (2 zs m op)
  then obtain ns where ns: "zset_nodes zs ns" "m = map_of (node_scores ns)" by (auto simp: zset_rep_def)
  have len: "Suc (length ns) < 2 ^ 63" using 2(4) card_scores[OF zset_nodesD(2)[OF ns(1)]] ns(2) by simp
  then have len': "length ns < 2 ^ 63" "Suc (length ns) < 2 ^ 64" by simp_all
  have keep: "z_usable zs' e = z_usable zs e" if "z_heap zs' = z_heap zs" for zs' :: "'s zset" and e using that by (simp add: z_usable_def)
  show ?case
  proof (cases op)
    case (ZAdd env sc k f)
    then have "z_usable zs env" using 2(3) by simp
    then obtain zs' ns' b out new where "zsetAdd fadd env zs sc k f = Some (zs', b, out, new)" "zset_nodes zs' ns'"
        "abs_zadd fadd m sc k f = (map_of (node_scores ns'), Added b out new)" "\<forall>e. z_usable zs e \<longrightarrow> z_apart env e \<longrightarrow> z_usable zs' e"
      using zsetAdd_rep[OF ns(1) _ len'(2)] ns(2) by blast
    then show ?thesis using ZAdd zset_nodes_rep by simp
  next
    case (ZRem env k)
    obtain zs' ns' where "zsetDel env zs k = Some (zs', m k \<noteq> None)" "zset_nodes zs' ns'" "map_of (node_scores ns') = m(k := None)"
        "\<forall>e. z_usable zs e \<longrightarrow> z_usable zs' e"
      using zsetDel_rep[OF ns(1)] ns(2) by blast
    then show ?thesis using ZRem zset_nodes_rep[of zs' ns'] by simp
  next
    case (ZScore env k)
    obtain zs' where "zsetScore env zs k = Some (zs', map_option Num (m k))" "zset_nodes zs' ns" "z_heap zs' = z_heap zs"
      using zsetScore_rep[OF ns(1)] ns(2) by blast
    then show ?thesis using ZScore zset_nodes_rep[of zs' ns] ns(2) keep[of zs'] by simp
  next
    case (ZRank env k reverse)
    obtain zs' where "zsetRank env zs k reverse = Some (zs', abs_rank m k reverse, map_option Num (m k))" "zset_nodes zs' ns" "z_heap zs' = z_heap zs"
      using zsetRank_rep[OF ns(1) len'(1)] ns(2) by blast
    then show ?thesis using ZRank zset_nodes_rep[of zs' ns] ns(2) keep[of zs'] by simp
  qed
qed

lemma createZset_rep:
  assumes "h a = None"
  shows "\<exists>zs. createZset ty h a = Some zs \<and> zset_rep zs Map.empty \<and> (\<forall>y. y \<noteq> a \<longrightarrow> z_heap zs y = h y)"
proof -
  obtain h' zsl where c: "zslCreate h a = Some (h', zsl)" "zsl_rep h' zsl []" "\<forall>y. y \<noteq> a \<longrightarrow> h' y = h y"
    using zslCreate_rep[of h a] assms by blast
  have "dict_inv (dictCreate ty :: (sds, addr) dict)" "dict_map (dictCreate ty :: (sds, addr) dict) = Map.empty"
    by (simp_all add: dict_inv_def dictCreate_def dict_map_def dict_entries_def dictIsRehashing_def)
  then have "zset_nodes \<lparr>z_heap = h', z_zsl = zsl, z_dict = dictCreate ty\<rparr> []"
    using c(2) by (simp add: zset_nodes_def node_index_def fun_eq_iff)
  then have "zset_rep \<lparr>z_heap = h', z_zsl = zsl, z_dict = dictCreate ty\<rparr> Map.empty" by (auto simp: zset_rep_def node_scores_def)
  then show ?thesis using c(1,3) by (simp add: createZset_def)
qed

text \<open>
  C2: starting from an empty sorted set in the skip list encoding, any sequence of additions with any flags,
  removals, score and rank queries returns, without a failed assertion, a null dereference or a double free,
  under any resize policy of the dictionary and any tower heights, and its results are those of a map from elements to
  scores, ranks counting the elements before (or after) in the order of score and element. The addresses
  come from an allocator that does not hand out an address in use.
\<close>

theorem zset_run_correct:
  assumes "h a = None" "\<forall>op\<in>set ops. h (e_addr (op_env op)) = None \<and> e_addr (op_env op) \<noteq> a \<and> zslRandomLevel (e_random (op_env op)) \<noteq> None"
    "distinct (map (\<lambda>op. e_addr (op_env op)) ops)" "length ops < 2 ^ 63"
  shows "\<exists>zs zs'. createZset ty h a = Some zs \<and>
    run_zset_ops (zset_step fadd) zs ops = Some (zs', snd (abs_zset_ops fadd Map.empty ops)) \<and>
    zset_rep zs' (fst (abs_zset_ops fadd Map.empty ops))"
proof -
  obtain zs where zs: "createZset ty h a = Some zs" "zset_rep zs Map.empty" "\<forall>y. y \<noteq> a \<longrightarrow> z_heap zs y = h y"
    using createZset_rep[of h a] assms(1) by blast
  have "\<forall>op\<in>set ops. z_usable zs (op_env op)" using assms(2) zs(3) by (simp add: z_usable_def)
  moreover have "sorted_wrt z_apart (map op_env ops)"
    using assms(3) by (simp add: distinct_conv_nth sorted_wrt_iff_nth_less z_apart_def)
  ultimately show ?thesis
    using zs.run_refines[OF zs(2), of ops fadd] all_allowed[of fadd Map.empty ops] zs(1) assms(4) by (auto simp: case_prod_beta)
qed

definition example_dict_type :: "sds dictType" where
  "example_dict_type = \<lparr>hashFunction = (\<lambda>k. of_nat (length k)), resizeAllowed = None, no_value = True, force_full_rehash = False\<rparr>"

definition example_env :: "nat \<Rightarrow> nat list \<Rightarrow> zenv" where
  "example_env a rs = \<lparr>e_resize = DICT_RESIZE_ENABLE, e_random = rs, e_addr = a, e_junk = (\<lambda>i. \<lparr>forward = None, span = 0\<rparr>)\<rparr>"

fun int_add :: "int double \<Rightarrow> int double \<Rightarrow> int double" where
  "int_add (Num a) (Num b) = Num (a + b)"
| "int_add _ _ = NaN"

definition example_ops :: "(zenv, int) zset_op list" where
  "example_ops =
     [ZAdd (example_env 1 [536870911]) (Num 5) [98] 0,
      ZAdd (example_env 2 [7, 2147483647]) (Num 3) [97] 0,
      ZAdd (example_env 3 [2147483647]) (Num 2) [97] ZADD_IN_GT,
      ZAdd (example_env 4 [2147483647]) (Num 4) [97] ZADD_IN_INCR,
      ZAdd (example_env 5 [2147483647]) NaN [99] 0,
      ZRank (example_env 6 [2147483647]) [97] False,
      ZRem (example_env 7 [2147483647]) [98],
      ZScore (example_env 8 [2147483647]) [98],
      ZScore (example_env 9 [2147483647]) [97]]"

lemma example_rank: "abs_rank [[98 :: u8] \<mapsto> 5 :: int, [97] \<mapsto> 7] [97] False = 1"
proof -
  have "{e. \<exists>t. [[98 :: u8] \<mapsto> 5 :: int, [97] \<mapsto> 7] e = Some t \<and> (t, e) < (7, [97])} = {[98]}" by (auto split: if_splits)
  then show ?thesis by (simp add: abs_rank_def)
qed

theorem zset_run_correct_witness:
  "\<exists>zs zs'. createZset example_dict_type Map.empty 0 = Some zs \<and>
    run_zset_ops (zset_step int_add) zs example_ops =
      Some (zs', [Added True ZADD_OUT_ADDED (Some (Num 5)), Added True ZADD_OUT_ADDED (Some (Num 3)), Added True ZADD_OUT_NOP None,
        Added True ZADD_OUT_UPDATED (Some (Num 7)), Added False ZADD_OUT_NAN None, Rank 1 (Some (Num 7)), Removed True, Score None, Score (Some (Num 7))]) \<and>
    zset_rep zs' [[97] \<mapsto> 7]"
proof -
  have "\<forall>op\<in>set example_ops. Map.empty (e_addr (op_env op)) = None \<and> e_addr (op_env op) \<noteq> 0 \<and> zslRandomLevel (e_random (op_env op)) \<noteq> None"
    by (simp add: example_ops_def example_env_def zslRandomLevel_def)
  moreover have "distinct (map (\<lambda>op. e_addr (op_env op)) example_ops)" by (simp add: example_ops_def example_env_def)
  moreover have "length example_ops < 2 ^ 63" by (simp add: example_ops_def)
  moreover have "abs_zset_ops int_add Map.empty example_ops = ([[97] \<mapsto> 7],
      [Added True ZADD_OUT_ADDED (Some (Num 5)), Added True ZADD_OUT_ADDED (Some (Num 3)), Added True ZADD_OUT_NOP None,
        Added True ZADD_OUT_UPDATED (Some (Num 7)), Added False ZADD_OUT_NAN None, Rank 1 (Some (Num 7)), Removed True, Score None, Score (Some (Num 7))])"
    using example_rank
    by (simp add: example_ops_def abs_zadd_def ZADD_IN_INCR_def ZADD_IN_NX_def ZADD_IN_XX_def ZADD_IN_GT_def ZADD_IN_LT_def fun_upd_twist)
  ultimately show ?thesis
    using zset_run_correct[of Map.empty 0 example_ops example_dict_type int_add] by (simp only: fst_conv snd_conv) blast
qed

end
