(* ===== verification/Util_Double.thy ===== *)
theory Util_Double
  imports Util_Num Zset
begin

text \<open>
  \<^verbatim>\<open>src/util.c\<close>: conversion of doubles to integers and to text (\<open>double2ll\<close>, \<open>d2string\<close>). Doubles are NaN or an element
  of a linear order with a zero, in which the two zeros are one element. What the functions take from elsewhere is a
  parameter: the casts of the language, the classification of \<^verbatim>\<open>math.h\<close>, the printer of \<^verbatim>\<open>deps/fpconv\<close> and the parser of
  \<^verbatim>\<open>src/fast_float_strtod.c\<close>, a port of the fast\_float library with \<open>strtod\<close> as its fallback.
\<close>

subsection \<open>The parameters\<close>

record 's fconv =
  fc_of_ll :: "int \<Rightarrow> 's double"
  fc_to_ll :: "'s double \<Rightarrow> int"
  fc_isinf :: "'s double \<Rightarrow> bool"
  fc_recip_neg :: "'s double \<Rightarrow> bool"
  fc_dtoa :: "'s double \<Rightarrow> bytes"
  fc_strtod :: "bytes \<Rightarrow> 's double"

definition text_bytes :: "string \<Rightarrow> bytes" where "text_bytes t = map (\<lambda>c. of_nat (of_char c)) t"

subsection \<open>Conversion to integers\<close>

definition double2ll :: "'s::linorder fconv \<Rightarrow> 's double \<Rightarrow> int option" where
  "double2ll fc d =
     (if double_less d (fc_of_ll fc (- (LLONG_MAX div 2))) \<or> double_less (fc_of_ll fc (LLONG_MAX div 2)) d then None
      else let ll = fc_to_ll fc d in if double_eq (fc_of_ll fc ll) d then Some ll else None)"

subsection \<open>Conversion to text\<close>

text \<open>\<open>snprintf\<close> of a string without directives: the text is cut to the buffer, the length returned is the full one.\<close>

definition snprintf :: "bytes \<Rightarrow> nat \<Rightarrow> string \<Rightarrow> (bytes \<times> nat) option" where
  "snprintf buf len t =
     (if len = 0 then Some (buf, length t)
      else do { buf \<leftarrow> mem_write buf 0 (take (len - 1) (text_bytes t) @ [0]); Some (buf, length t) })"

definition d2string :: "'s::{linorder, zero} fconv \<Rightarrow> bytes \<Rightarrow> nat \<Rightarrow> 's double \<Rightarrow> (bytes \<times> nat) option" where
  "d2string fc buf len value =
     (if isnan value then snprintf buf len ''nan''
      else if fc_isinf fc value then
        if double_less value (Num 0) then snprintf buf len ''-inf'' else snprintf buf len ''inf''
      else if double_eq value (Num 0) then
        if fc_recip_neg fc value then snprintf buf len ''-0'' else snprintf buf len ''0''
      else case double2ll fc value of
        Some lvalue \<Rightarrow> ll2string buf len lvalue
      | None \<Rightarrow> do {
          let len = length (fc_dtoa fc value);
          buf \<leftarrow> mem_write buf 0 (fc_dtoa fc value);
          buf \<leftarrow> arr_set buf (int len) 0;
          Some (buf, len)
        })"

subsection \<open>Laws of the parameters\<close>

text \<open>
  Casting integers to doubles is monotone between the limits of \<open>double2ll\<close> and exact at zero, and casting a double
  between the limits to an integer gives one of 64 bits; the parser reads the text of a 64-bit integer as
  the cast does, and \<open>inf\<close>, \<open>-inf\<close> and \<open>-0\<close> as what they say; the printer writes at most 24 characters
  and what it writes is read as the same number.
\<close>

definition fconv_ok :: "'s::{linorder, zero} fconv \<Rightarrow> bool" where
  "fconv_ok fc \<longleftrightarrow>
     \<not> double_less (Num 0) (fc_of_ll fc (- (LLONG_MAX div 2))) \<and> \<not> double_less (fc_of_ll fc (LLONG_MAX div 2)) (Num 0) \<and>
     fc_of_ll fc 0 = Num 0 \<and> fc_to_ll fc (Num 0) = 0 \<and>
     (\<forall>s. \<not> double_less (Num s) (fc_of_ll fc (- (LLONG_MAX div 2))) \<and> \<not> double_less (fc_of_ll fc (LLONG_MAX div 2)) (Num s) \<longrightarrow>
        LLONG_MIN \<le> fc_to_ll fc (Num s) \<and> fc_to_ll fc (Num s) \<le> LLONG_MAX) \<and>
     (\<forall>t v. string2ll t = Some v \<longrightarrow> fc_strtod fc t = fc_of_ll fc v) \<and>
     (\<forall>s. fc_isinf fc (Num s) \<longrightarrow> fc_strtod fc (text_bytes (if s < 0 then ''-inf'' else ''inf'')) = Num s) \<and>
     fc_strtod fc (text_bytes ''-0'') = Num 0 \<and>
     (\<forall>s. \<not> fc_isinf fc (Num s) \<longrightarrow> length (fc_dtoa fc (Num s)) \<le> 24 \<and> fc_strtod fc (fc_dtoa fc (Num s)) = Num s)"

subsection \<open>Correctness\<close>

lemma double2ll_exact:
  assumes "fconv_ok fc" "double2ll fc (Num s) = Some v"
  shows "LLONG_MIN \<le> v" "v \<le> LLONG_MAX" "fc_of_ll fc v = Num s"
proof -
  have "double_eq (fc_of_ll fc v) (Num s)" using assms(2) by (auto simp: double2ll_def Let_def split: if_splits)
  then show "fc_of_ll fc v = Num s" by (cases "fc_of_ll fc v") simp_all
  have law: "\<forall>s. \<not> double_less (Num s) (fc_of_ll fc (- (LLONG_MAX div 2))) \<and> \<not> double_less (fc_of_ll fc (LLONG_MAX div 2)) (Num s) \<longrightarrow>
      LLONG_MIN \<le> fc_to_ll fc (Num s) \<and> fc_to_ll fc (Num s) \<le> LLONG_MAX"
    using assms(1) unfolding fconv_ok_def by blast
  have "v = fc_to_ll fc (Num s)" "\<not> double_less (Num s) (fc_of_ll fc (- (LLONG_MAX div 2)))" "\<not> double_less (fc_of_ll fc (LLONG_MAX div 2)) (Num s)"
    using assms(2) by (auto simp: double2ll_def Let_def split: if_splits)
  then show "LLONG_MIN \<le> v" "v \<le> LLONG_MAX" using law by blast+
qed

lemma double2ll_zero: "fconv_ok fc \<Longrightarrow> double2ll fc (Num 0) = Some 0"
  by (simp add: fconv_ok_def double2ll_def)

lemma length_text_bytes [simp]: "length (text_bytes t) = length t"
  by (simp add: text_bytes_def)

lemma snprintf_text:
  assumes "length t < len" "length buf = len"
  shows "\<exists>buf'. snprintf buf len t = Some (buf', length t) \<and> length buf' = len \<and> take (length t) buf' = text_bytes t"
  using assms by (auto simp: snprintf_def mem_write_def)

text \<open>The text of a number, its length, and that it is read back; the buffer needs room for 24 characters and the terminator.\<close>

lemma d2string_roundtrip:
  assumes fc: "fconv_ok fc" and buf: "length buf = len" "25 \<le> len"
  shows "\<exists>buf' t. d2string fc buf len (Num s) = Some (buf', length t) \<and> length buf' = len \<and> take (length t) buf' = t \<and>
    length t \<le> 24 \<and> fc_strtod fc t = Num s"
proof -
  have law: "\<forall>t v. string2ll t = Some v \<longrightarrow> fc_strtod fc t = fc_of_ll fc v" using fc unfolding fconv_ok_def by blast
  have lit: ?thesis if x: "length x \<le> 4" "d2string fc buf len (Num s) = snprintf buf len x" "fc_strtod fc (text_bytes x) = Num s" for x
  proof -
    obtain buf' where "snprintf buf len x = Some (buf', length x)" "length buf' = len" "take (length x) buf' = text_bytes x"
      using snprintf_text[of x len buf] x(1) buf by fastforce
    then show ?thesis using x by (intro exI[of _ buf'] exI[of _ "text_bytes x"]) simp
  qed
  consider (inf) "fc_isinf fc (Num s)" | (zero) "\<not> fc_isinf fc (Num s)" "s = 0"
    | (int) v where "\<not> fc_isinf fc (Num s)" "s \<noteq> 0" "double2ll fc (Num s) = Some v"
    | (dtoa) "\<not> fc_isinf fc (Num s)" "s \<noteq> 0" "double2ll fc (Num s) = None"
    by fastforce
  then show ?thesis
  proof cases
    case inf
    then have "fc_strtod fc (text_bytes (if s < 0 then ''-inf'' else ''inf'')) = Num s" using fc unfolding fconv_ok_def by blast
    then show ?thesis using inf by (intro lit[of "if s < 0 then ''-inf'' else ''inf''"]) (simp_all add: d2string_def)
  next
    case zero
    have "string2ll (text_bytes ''0'') = Some 0" by (simp add: text_bytes_def string2ll_def LONG_STR_SIZE_def)
    then have "fc_strtod fc (text_bytes ''0'') = Num 0" "fc_strtod fc (text_bytes ''-0'') = Num 0" using law fc by (auto simp: fconv_ok_def)
    then show ?thesis using zero by (intro lit[of "if fc_recip_neg fc (Num s) then ''-0'' else ''0''"]) (simp_all add: d2string_def)
  next
    case (int v)
    note v = double2ll_exact[OF fc int(3)]
    have len: "length (dec_ll v) < LONG_STR_SIZE" using dec_ll_length v by blast
    then have l: "length (dec_ll v) < len" "length (dec_ll v) \<le> 24" using buf(2) by (simp_all add: LONG_STR_SIZE_def)
    have "d2string fc buf len (Num s) = Some (splice buf 0 (dec_ll v @ [0]), length (dec_ll v))"
      using int ll2string_spec[OF _ v(1,2) l(1), of buf] buf(1) by (simp add: d2string_def)
    moreover have "fc_strtod fc (dec_ll v) = Num s" using law string2ll_iff[of "dec_ll v" v] v by auto
    ultimately show ?thesis using l buf(1) by (intro exI[of _ "splice buf 0 (dec_ll v @ [0])"] exI[of _ "dec_ll v"]) (simp add: splice_def)
  next
    case dtoa
    let ?t = "fc_dtoa fc (Num s)"
    have t: "length ?t \<le> 24" "fc_strtod fc ?t = Num s" using fc dtoa(1) unfolding fconv_ok_def by blast+
    let ?b = "(?t @ drop (length ?t) buf)[length ?t := 0]"
    have "d2string fc buf len (Num s) = Some (?b, length ?t)"
      using dtoa t(1) buf by (simp add: d2string_def mem_write_def arr_set_def Let_def)
    then show ?thesis using t buf by (intro exI[of _ ?b] exI[of _ ?t]) simp
  qed
qed

end
