(* ===== verification/Zzl.thy ===== *)
theory Zzl
  imports Listpack_Batch Util_Double
begin

text \<open>
  \<^verbatim>\<open>src/t_zset.c\<close>: sorted sets in the listpack encoding (the \<open>zzl\<close> functions). Elements and scores alternate in
  one listpack, in the order of scores and elements; a score is stored as an integer if it is one, otherwise
  as text. The conversions of scores are those of theory \<open>Util_Double\<close>.
\<close>

definition MAX_D2STRING_CHARS :: nat where "MAX_D2STRING_CHARS = 128"

subsection \<open>Operations\<close>

definition zzlGetScore :: "'s::{linorder, zero} fconv \<Rightarrow> bytes \<Rightarrow> int option \<Rightarrow> 's double option" where
  "zzlGetScore fc zl sptr =
     do {
       p \<leftarrow> sptr;
       r \<leftarrow> lpGetValue zl p;
       case r of
         LP_STR q n \<Rightarrow> do { vstr \<leftarrow> at_read zl q n; Some (fc_strtod fc vstr) }
       | LP_INT vlong \<Rightarrow> Some (fc_of_ll fc vlong)
       | LP_BUF _ _ \<Rightarrow> None
     }"

definition sdsfromlonglong :: "int \<Rightarrow> sds option" where
  "sdsfromlonglong v = do { (buf, len) \<leftarrow> ll2string (replicate LONG_STR_SIZE 0) LONG_STR_SIZE v; at_read buf 0 len }"

definition lpGetObject :: "bytes \<Rightarrow> int option \<Rightarrow> sds option" where
  "lpGetObject zl sptr =
     do {
       p \<leftarrow> sptr;
       r \<leftarrow> lpGetValue zl p;
       case r of LP_STR q n \<Rightarrow> at_read zl q n | LP_INT vlong \<Rightarrow> sdsfromlonglong vlong | LP_BUF _ _ \<Rightarrow> None
     }"

text \<open>The difference of two \<open>unsigned int\<close> lengths is returned as an \<open>int\<close>.\<close>

definition zzlCompareElements :: "bytes \<Rightarrow> int \<Rightarrow> bytes \<Rightarrow> int option" where
  "zzlCompareElements zl eptr cstr =
     do {
       r \<leftarrow> lpGetValue zl eptr;
       vstr \<leftarrow> (case r of
           LP_STR q n \<Rightarrow> at_read zl q n
         | LP_INT vlong \<Rightarrow> do { (vbuf, vlen) \<leftarrow> ll2string (replicate 32 0) 32 vlong; at_read vbuf 0 vlen }
         | LP_BUF _ _ \<Rightarrow> None);
       let vlen = length vstr;
       let clen = length cstr;
       let minlen = (if vlen < clen then vlen else clen);
       let cmp = memcmp (take minlen vstr) (take minlen cstr);
       Some (if cmp = 0 then sint (of_nat vlen - of_nat clen :: u32) else cmp)
     }"

definition zzlLength :: "bytes \<Rightarrow> (bytes \<times> nat) option" where
  "zzlLength zl = do { (zl, n) \<leftarrow> lpLength zl; Some (zl, n div 2) }"

definition zzlNext :: "bytes \<Rightarrow> int option \<Rightarrow> int option \<Rightarrow> (int option \<times> int option) option" where
  "zzlNext zl eptr sptr =
     do {
       _ \<leftarrow> eptr;
       sp \<leftarrow> sptr;
       eptr \<leftarrow> lpNext zl sp;
       case eptr of
         None \<Rightarrow> Some (None, None)
       | Some ep \<Rightarrow> do { sptr \<leftarrow> lpNext zl ep; sp \<leftarrow> sptr; Some (eptr, Some sp) }
     }"

text \<open>\<open>zzlFind\<close>: the entry of the element and its score; the score is read only on request.\<close>

definition zzlFind :: "'s::{linorder, zero} fconv \<Rightarrow> bytes \<Rightarrow> sds \<Rightarrow> bool \<Rightarrow> (int \<times> 's double option) option option" where
  "zzlFind fc lp el want =
     do {
       eptr \<leftarrow> lpFirst lp;
       case eptr of
         None \<Rightarrow> Some None
       | Some _ \<Rightarrow> do {
           eptr \<leftarrow> lpFind lp eptr el 1;
           case eptr of
             None \<Rightarrow> Some None
           | Some p \<Rightarrow> do {
               sptr \<leftarrow> lpNext lp p;
               _ \<leftarrow> sptr;
               if want then do { s \<leftarrow> zzlGetScore fc lp sptr; Some (Some (p, Some s)) } else Some (Some (p, None))
             }
         }
     }"

definition zzlDelete :: "allocator \<Rightarrow> bytes \<Rightarrow> int \<Rightarrow> bytes option" where
  "zzlDelete A zl eptr = do { (zl, _) \<leftarrow> lpDeleteRangeWithEntry A zl eptr 2; Some zl }"

text \<open>The listpack functions return \<open>NULL\<close> when the listpack would become too large; the code does not test for it.\<close>

definition zzlInsertAt :: "allocator \<Rightarrow> 's::{linorder, zero} fconv \<Rightarrow> bytes \<Rightarrow> int option \<Rightarrow> sds \<Rightarrow> 's double \<Rightarrow> bytes option" where
  "zzlInsertAt A fc zl eptr el sc =
     do {
       score_entry \<leftarrow> (case double2ll fc sc of
           Some lscore \<Rightarrow> Some (LVal lscore)
         | None \<Rightarrow> do {
             (scorebuf, scorelen) \<leftarrow> d2string fc (replicate MAX_D2STRING_CHARS 0) MAX_D2STRING_CHARS sc;
             sval \<leftarrow> at_read scorebuf 0 scorelen;
             Some (SVal sval)
           });
       let entries = [SVal el, score_entry];
       r \<leftarrow> (case eptr of None \<Rightarrow> lpBatchAppend A zl entries | Some p \<Rightarrow> lpBatchInsert A zl p LP_BEFORE entries);
       map_option fst r
     }"

partial_function (option) zzlInsert_loop :: "allocator \<Rightarrow> 's::{linorder, zero} fconv \<Rightarrow> bytes \<Rightarrow> int option \<Rightarrow> sds \<Rightarrow> 's double \<Rightarrow> bytes option" where
  "zzlInsert_loop A fc zl eptr el sc =
     (case eptr of
        None \<Rightarrow> zzlInsertAt A fc zl None el sc
      | Some p \<Rightarrow> do {
          sptr \<leftarrow> lpNext zl p;
          s \<leftarrow> zzlGetScore fc zl sptr;
          if double_less sc s then zzlInsertAt A fc zl eptr el sc
          else do {
            c \<leftarrow> (if double_eq s sc then zzlCompareElements zl p el else Some 0);
            if c > 0 then zzlInsertAt A fc zl eptr el sc
            else do { sp \<leftarrow> sptr; eptr \<leftarrow> lpNext zl sp; zzlInsert_loop A fc zl eptr el sc }
          }
        })"

definition zzlInsert :: "allocator \<Rightarrow> 's::{linorder, zero} fconv \<Rightarrow> bytes \<Rightarrow> sds \<Rightarrow> 's double \<Rightarrow> bytes option" where
  "zzlInsert A fc zl el sc = do { eptr \<leftarrow> lpSeek zl 0; zzlInsert_loop A fc zl eptr el sc }"

subsection \<open>Representation\<close>

text \<open>The entries of a sorted list of pairs of score and element.\<close>

definition score_text :: "'s::{linorder, zero} fconv \<Rightarrow> 's \<Rightarrow> bytes" where
  "score_text fc s =
     (case d2string fc (replicate MAX_D2STRING_CHARS 0) MAX_D2STRING_CHARS (Num s) of Some (buf, n) \<Rightarrow> take n buf | None \<Rightarrow> [])"

definition score_ent :: "'s::{linorder, zero} fconv \<Rightarrow> 's \<Rightarrow> listpackEntry" where
  "score_ent fc s = (case double2ll fc (Num s) of Some v \<Rightarrow> LVal v | None \<Rightarrow> SVal (score_text fc s))"

lemma score_text_spec:
  assumes "fconv_ok fc"
  shows "length (score_text fc s) \<le> 24" "fc_strtod fc (score_text fc s) = Num s"
    "\<exists>buf. d2string fc (replicate MAX_D2STRING_CHARS 0) MAX_D2STRING_CHARS (Num s) = Some (buf, length (score_text fc s)) \<and>
       at_read buf 0 (length (score_text fc s)) = Some (score_text fc s)"
proof -
  have "25 \<le> MAX_D2STRING_CHARS" by (simp add: MAX_D2STRING_CHARS_def)
  then obtain buf t where d: "d2string fc (replicate MAX_D2STRING_CHARS 0) MAX_D2STRING_CHARS (Num s) = Some (buf, length t)"
      "length buf = MAX_D2STRING_CHARS" "take (length t) buf = t" "length t \<le> 24" "fc_strtod fc t = Num s"
    using d2string_roundtrip[OF assms, of "replicate MAX_D2STRING_CHARS 0" MAX_D2STRING_CHARS s] by auto
  then have t: "score_text fc s = t" by (simp add: score_text_def)
  have "at_read buf 0 (length t) = Some t" using d(2-4) by (simp add: at_read_iff MAX_D2STRING_CHARS_def)
  then show "length (score_text fc s) \<le> 24" "fc_strtod fc (score_text fc s) = Num s"
    "\<exists>buf. d2string fc (replicate MAX_D2STRING_CHARS 0) MAX_D2STRING_CHARS (Num s) = Some (buf, length (score_text fc s)) \<and>
       at_read buf 0 (length (score_text fc s)) = Some (score_text fc s)"
    using d t by auto
qed

definition pair_payloads :: "'s::{linorder, zero} fconv \<Rightarrow> 's \<times> sds \<Rightarrow> bytes list" where
  "pair_payloads fc k = [lp_encode (snd k), ent_payload (score_ent fc (fst k))]"

definition zzl_payloads :: "'s::{linorder, zero} fconv \<Rightarrow> ('s \<times> sds) list \<Rightarrow> bytes list" where
  "zzl_payloads fc ps = concat (map (pair_payloads fc) ps)"

text \<open>The bytes taken by the elements alone bound the whole, because scores are short.\<close>

definition ele_bytes :: "('s \<times> sds) list \<Rightarrow> nat" where
  "ele_bytes ps = sum_list (map (\<lambda>k. length (entry (lp_encode (snd k)))) ps)"

definition zzl_bound :: "('s \<times> sds) list \<Rightarrow> bool" where
  "zzl_bound ps \<longleftrightarrow> ele_bytes ps \<le> 2 ^ 30 + 10 * 2 ^ 26 \<and> length ps \<le> 2 ^ 26"

definition zzl_rep :: "'s::{linorder, zero} fconv \<Rightarrow> bytes \<Rightarrow> ('s \<times> sds) list \<Rightarrow> bool" where
  "zzl_rep fc zl ps \<longleftrightarrow> lp_rep zl (zzl_payloads fc ps) \<and> sorted_wrt (<) ps \<and> distinct (map snd ps) \<and> zzl_bound ps"

lemma zzl_payloads_simps [simp]:
  "zzl_payloads fc [] = []" "zzl_payloads fc (k # ps) = pair_payloads fc k @ zzl_payloads fc ps"
  "zzl_payloads fc (ps @ qs) = zzl_payloads fc ps @ zzl_payloads fc qs"
  by (simp_all add: zzl_payloads_def)

lemma length_zzl_payloads [simp]: "length (zzl_payloads fc ps) = 2 * length ps"
  by (induction ps) (simp_all add: pair_payloads_def)

lemma zzl_payloads_nth:
  assumes "i < length ps"
  shows "zzl_payloads fc ps ! (2 * i) = lp_encode (snd (ps ! i))" "zzl_payloads fc ps ! Suc (2 * i) = ent_payload (score_ent fc (fst (ps ! i)))"
  using assms by (induction ps arbitrary: i) (auto simp: pair_payloads_def nth_Cons split: nat.split)

lemma take_zzl_payloads: "take (2 * i) (zzl_payloads fc ps) = zzl_payloads fc (take i ps)"
  and drop_zzl_payloads: "drop (2 * i) (zzl_payloads fc ps) = zzl_payloads fc (drop i ps)"
proof -
  have "take (2 * i) (zzl_payloads fc ps) = zzl_payloads fc (take i ps) \<and> drop (2 * i) (zzl_payloads fc ps) = zzl_payloads fc (drop i ps)"
    by (induction ps arbitrary: i) (auto simp: pair_payloads_def take_Cons drop_Cons split: nat.split)
  then show "take (2 * i) (zzl_payloads fc ps) = zzl_payloads fc (take i ps)" "drop (2 * i) (zzl_payloads fc ps) = zzl_payloads fc (drop i ps)" by auto
qed

subsection \<open>Reading entries\<close>

definition payload_val :: "bytes \<Rightarrow> listpackEntry" where
  "payload_val e =
     (case lpGetWithSize e 0 None of
        Some (LP_INT v, _) \<Rightarrow> LVal v
      | Some (LP_STR q n, _) \<Rightarrow> SVal (take n (drop (nat q) e))
      | _ \<Rightarrow> SVal [])"

lemma lpGetValue_payload:
  assumes "lp_at lp p e" "payload_ok e"
  shows "case payload_val e of
      LVal v \<Rightarrow> lpGetValue lp p = Some (LP_INT v) \<and> LLONG_MIN \<le> v \<and> v \<le> LLONG_MAX
    | SVal s \<Rightarrow> \<exists>q. lpGetValue lp p = Some (LP_STR q (length s)) \<and> at_read lp q (length s) = Some s"
proof -
  obtain r z where r: "lpGetWithSize e 0 None = Some (r, z)" "got_ok e r" using payload_get[OF assms(2)] by blast
  have g: "lpGet lp p None = Some (got_shift p r)" using get_at[OF assms(1) r(1)] by (simp add: lpGet_def lpGetWithBuf_eq)
  obtain pre post where lp: "lp = pre @ e @ post" "p = int (length pre)" using assms(1) by (auto simp: lp_at_def)
  show ?thesis
  proof (cases r)
    case (LP_STR q n)
    then have q: "0 \<le> q" "nat q + n = length e" "n < 2 ^ 32" using r(2) by (auto simp: got_ok_def)
    have v: "payload_val e = SVal (take n (drop (nat q) e))" using r(1) LP_STR by (simp add: payload_val_def)
    have len: "length (take n (drop (nat q) e)) = n" using q by simp
    have "at_read lp (p + q) n = Some (take n (drop (nat q) e))" using q by (simp add: at_read_iff lp nat_add_distrib)
    moreover have "lpGetValue lp p = Some (LP_STR (p + q) n)" using g LP_STR q(3) by (simp add: lpGetValue_def got_shift_def)
    ultimately show ?thesis unfolding v listpackEntry.case len by blast
  next
    case (LP_INT v)
    then show ?thesis using g r by (simp add: lpGetValue_def got_shift_def payload_val_def got_ok_def)
  next
    case (LP_BUF b n)
    then show ?thesis using r(2) by (simp add: got_ok_def)
  qed
qed

lemma lpGet_value:
  assumes "lp_at lp p e" "payload_ok e"
  shows "lpGet lp p None = lpGetValue lp p"
proof -
  obtain r z where r: "lpGetWithSize e 0 None = Some (r, z)" "got_ok e r" using payload_get[OF assms(2)] by blast
  then have "lpGet lp p None = Some (got_shift p r)" using get_at[OF assms(1) r(1)] by (simp add: lpGet_def lpGetWithBuf_eq)
  then show ?thesis using r(2) by (cases r) (simp_all add: lpGetValue_def got_shift_def got_ok_def)
qed

lemma payload_val_int: "LLONG_MIN \<le> v \<Longrightarrow> v \<le> LLONG_MAX \<Longrightarrow> payload_val (lpEncodeIntegerGetType v) = LVal v"
  using lpEncodeInteger_get(2)[of v] by (auto simp: payload_val_def)

lemma payload_val_str:
  assumes "length (lp_encode s) < 2 ^ 32"
  shows "payload_val (lp_encode s) = (case lpStringToInt64 s of Some v \<Rightarrow> LVal v | None \<Rightarrow> SVal s)"
proof (cases "lpStringToInt64 s")
  case None
  then have "length s + 5 < 2 ^ 32" using assms by (simp add: lp_encode_def length_lp_string_enc split: if_splits)
  then obtain h z where "lpGetWithSize (lp_string_enc s) 0 None = Some (LP_STR (int h) (length s), z)" "drop h (lp_string_enc s) = s"
    using lp_string_enc_get(2) by blast
  then show ?thesis using None by (simp add: payload_val_def lp_encode_def)
next
  case (Some v)
  then have "LLONG_MIN \<le> v" "v \<le> LLONG_MAX" by (auto simp: lpStringToInt64_eq string2ll_iff)
  then show ?thesis using Some payload_val_int by (simp add: lp_encode_def)
qed

lemma ll2string_text:
  assumes "LLONG_MIN \<le> v" "v \<le> LLONG_MAX" "LONG_STR_SIZE \<le> n"
  shows "\<exists>buf. ll2string (replicate n 0) n v = Some (buf, length (dec_ll v)) \<and> at_read buf 0 (length (dec_ll v)) = Some (dec_ll v)"
proof -
  have len: "length (dec_ll v) < n" using dec_ll_length[OF assms(1,2)] assms(3) by simp
  then have "ll2string (replicate n 0) n v = Some (splice (replicate n 0) 0 (dec_ll v @ [0]), length (dec_ll v))"
    using ll2string_spec[OF _ assms(1,2)] by simp
  moreover have "at_read (splice (replicate n 0) 0 (dec_ll v @ [0])) 0 (length (dec_ll v)) = Some (dec_ll v)"
    using len by (simp add: at_read_iff splice_def)
  ultimately show ?thesis by blast
qed

subsection \<open>Entries of a sorted set\<close>

lemma score_ent_ok:
  assumes "fconv_ok fc"
  shows "ent_ok (score_ent fc s)" "length (entry (ent_payload (score_ent fc s))) \<le> 35"
    "case payload_val (ent_payload (score_ent fc s)) of LVal v \<Rightarrow> fc_of_ll fc v = Num s | SVal t \<Rightarrow> fc_strtod fc t = Num s"
proof -
  have bl: "length e + lpEncodeBacklenBytes (length e) \<le> 35" if "length e \<le> 30" for e :: bytes
    using that lpEncodeBacklenBytes_bounds(2)[of "length e"] by linarith
  have int: "length (lpEncodeIntegerGetType v) \<le> 9" for v by (simp add: lpEncodeIntegerGetType_def Let_def)
  have "ent_ok (score_ent fc s) \<and> length (entry (ent_payload (score_ent fc s))) \<le> 35 \<and>
    (case payload_val (ent_payload (score_ent fc s)) of LVal v \<Rightarrow> fc_of_ll fc v = Num s | SVal t \<Rightarrow> fc_strtod fc t = Num s)"
  proof (cases "double2ll fc (Num s)")
    case (Some v)
    note v = double2ll_exact[OF assms Some]
    then show ?thesis using Some v int[of v] bl[of "lpEncodeIntegerGetType v"] payload_val_int[OF v(1,2)]
      by (simp add: score_ent_def ent_ok_def ent_payload_def length_entry)
  next
    case None
    let ?t = "score_text fc s"
    have "\<forall>t v. string2ll t = Some v \<longrightarrow> fc_strtod fc t = fc_of_ll fc v" using assms unfolding fconv_ok_def by blast
    then have t: "length ?t \<le> 24" "fc_strtod fc ?t = Num s" "\<And>v. lpStringToInt64 ?t = Some v \<Longrightarrow> fc_of_ll fc v = Num s"
      using score_text_spec(1,2)[OF assms, of s] unfolding lpStringToInt64_eq by auto
    have len: "length (lp_encode ?t) \<le> 30"
    proof (cases "lpStringToInt64 ?t")
      case (Some v)
      then show ?thesis using int[of v] by (simp add: lp_encode_def)
    qed (use t(1) in \<open>simp add: lp_encode_def length_lp_string_enc\<close>)
    then have "payload_val (lp_encode ?t) = (case lpStringToInt64 ?t of Some v \<Rightarrow> LVal v | None \<Rightarrow> SVal ?t)"
      by (intro payload_val_str) simp
    then show ?thesis using None len bl[of "lp_encode ?t"] t
      by (auto simp: score_ent_def ent_ok_def ent_payload_def length_entry split: option.splits)
  qed
  then show "ent_ok (score_ent fc s)" "length (entry (ent_payload (score_ent fc s))) \<le> 35"
    "case payload_val (ent_payload (score_ent fc s)) of LVal v \<Rightarrow> fc_of_ll fc v = Num s | SVal t \<Rightarrow> fc_strtod fc t = Num s" by blast+
qed

lemma zzl_body_le:
  assumes "fconv_ok fc"
  shows "length (body (zzl_payloads fc ps)) \<le> ele_bytes ps + 35 * length ps"
proof (induction ps)
  case (Cons k ps)
  then show ?case using score_ent_ok(2)[OF assms, of "fst k"] by (simp add: pair_payloads_def ele_bytes_def)
qed (simp add: ele_bytes_def)

lemma zzl_body_bound:
  assumes "fconv_ok fc" "zzl_bound ps"
  shows "length (body (zzl_payloads fc ps)) + 7 < 2 ^ 32"
  using zzl_body_le[OF assms(1), of ps] assms(2) by (simp add: zzl_bound_def)

lemma ele_length:
  assumes "zzl_bound ps" "i < length ps"
  shows "length (lp_encode (snd (ps ! i))) < 2 ^ 31" "length (snd (ps ! i)) < 2 ^ 31"
proof -
  have "length (entry (lp_encode (snd (ps ! i)))) \<le> ele_bytes ps"
    unfolding ele_bytes_def using assms(2) by (intro member_le_sum_list) (auto intro!: image_eqI[of _ _ "ps ! i"])
  then show l: "length (lp_encode (snd (ps ! i))) < 2 ^ 31" using assms(1) by (simp add: zzl_bound_def length_entry)
  show "length (snd (ps ! i)) < 2 ^ 31"
  proof (cases "lpStringToInt64 (snd (ps ! i))")
    case None
    then show ?thesis using l by (simp add: lp_encode_def length_lp_string_enc split: if_splits)
  next
    case (Some v)
    then have "length (snd (ps ! i)) < LONG_STR_SIZE" by (auto simp: lpStringToInt64_def split: if_splits)
    then show ?thesis by (simp add: LONG_STR_SIZE_def)
  qed
qed

text \<open>The positions of element and score of the \<open>i\<close>-th pair.\<close>

definition epos :: "'s::{linorder, zero} fconv \<Rightarrow> ('s \<times> sds) list \<Rightarrow> nat \<Rightarrow> int" where
  "epos fc ps i = lp_pos (zzl_payloads fc ps) (2 * i)"

definition spos :: "'s::{linorder, zero} fconv \<Rightarrow> ('s \<times> sds) list \<Rightarrow> nat \<Rightarrow> int" where
  "spos fc ps i = lp_pos (zzl_payloads fc ps) (Suc (2 * i))"

definition epos_opt :: "'s::{linorder, zero} fconv \<Rightarrow> ('s \<times> sds) list \<Rightarrow> nat \<Rightarrow> int option" where
  "epos_opt fc ps i = (if i < length ps then Some (epos fc ps i) else None)"

lemma zzl_next:
  assumes "zzl_rep fc zl ps" "i < length ps"
  shows "lpNext zl (epos fc ps i) = Some (Some (spos fc ps i))" "lpNext zl (spos fc ps i) = Some (epos_opt fc ps (Suc i))"
proof -
  have r: "lp_rep zl (zzl_payloads fc ps)" using assms(1) by (simp add: zzl_rep_def)
  show "lpNext zl (epos fc ps i) = Some (Some (spos fc ps i))" "lpNext zl (spos fc ps i) = Some (epos_opt fc ps (Suc i))"
    using lpNext_rep[OF r, of "2 * i"] lpNext_rep[OF r, of "Suc (2 * i)"] assms(2)
    by (auto simp: epos_def spos_def epos_opt_def)
qed

lemma zzl_first: "zzl_rep fc zl ps \<Longrightarrow> lpSeek zl 0 = Some (epos_opt fc ps 0)"
  using lpSeek_rep[of zl "zzl_payloads fc ps" 0] by (auto simp: zzl_rep_def epos_opt_def epos_def seek_index_def)

lemma zzl_entry:
  assumes "zzl_rep fc zl ps" "i < length ps"
  shows "lp_at zl (epos fc ps i) (lp_encode (snd (ps ! i)))" "payload_ok (lp_encode (snd (ps ! i)))"
    "lp_at zl (spos fc ps i) (ent_payload (score_ent fc (fst (ps ! i))))" "payload_ok (ent_payload (score_ent fc (fst (ps ! i))))"
  using lp_rep_entry[of zl "zzl_payloads fc ps" "2 * i"] lp_rep_entry[of zl "zzl_payloads fc ps" "Suc (2 * i)"] assms
  by (simp_all add: zzl_rep_def epos_def spos_def zzl_payloads_nth)

lemma zzlGetScore_rep:
  assumes "fconv_ok fc" "zzl_rep fc zl ps" "i < length ps"
  shows "zzlGetScore fc zl (Some (spos fc ps i)) = Some (Num (fst (ps ! i)))"
  using lpGetValue_payload[OF zzl_entry(3,4)[OF assms(2,3)]] score_ent_ok(3)[OF assms(1), of "fst (ps ! i)"]
  by (auto simp: zzlGetScore_def split: listpackEntry.splits)

text \<open>An element is read as its text, either directly or from the integer that was recognised in it.\<close>

lemma zzl_element_val:
  assumes "zzl_rep fc zl ps" "i < length ps"
  shows "(\<exists>q. lpGetValue zl (epos fc ps i) = Some (LP_STR q (length (snd (ps ! i)))) \<and> at_read zl q (length (snd (ps ! i))) = Some (snd (ps ! i))) \<or>
    (\<exists>v. lpGetValue zl (epos fc ps i) = Some (LP_INT v) \<and> LLONG_MIN \<le> v \<and> v \<le> LLONG_MAX \<and> snd (ps ! i) = dec_ll v)"
proof -
  let ?e = "snd (ps ! i)"
  have "length (lp_encode ?e) < 2 ^ 32" using ele_length(1)[of ps i] assms by (simp add: zzl_rep_def)
  note v = payload_val_str[OF this] and g = lpGetValue_payload[OF zzl_entry(1,2)[OF assms]]
  show ?thesis
  proof (cases "lpStringToInt64 ?e")
    case None
    then show ?thesis using v g by simp
  next
    case (Some w)
    then have "?e = dec_ll w" by (auto simp: lpStringToInt64_eq string2ll_iff)
    then show ?thesis using Some v g by simp
  qed
qed

lemma lpGetObject_rep:
  assumes "zzl_rep fc zl ps" "i < length ps"
  shows "lpGetObject zl (Some (epos fc ps i)) = Some (snd (ps ! i))"
  using zzl_element_val[OF assms]
proof (elim disjE exE conjE)
  fix v assume v: "lpGetValue zl (epos fc ps i) = Some (LP_INT v)" "LLONG_MIN \<le> v" "v \<le> LLONG_MAX" "snd (ps ! i) = dec_ll v"
  then show ?thesis using ll2string_text[OF v(2,3), of LONG_STR_SIZE] by (auto simp: lpGetObject_def sdsfromlonglong_def)
qed (simp add: lpGetObject_def)

lemma zzlCompareElements_rep:
  assumes "zzl_rep fc zl ps" "i < length ps" "length el < 2 ^ 31"
  shows "\<exists>c. zzlCompareElements zl (epos fc ps i) el = Some c \<and> (c > 0 \<longleftrightarrow> el < snd (ps ! i))"
proof -
  let ?e = "snd (ps ! i)"
  define minlen where "minlen = (if length ?e < length el then length ?e else length el)"
  define cmp where "cmp = memcmp (take minlen ?e) (take minlen el)"
  define c where "c = (if cmp = 0 then sint (of_nat (length ?e) - of_nat (length el) :: u32) else cmp)"
  have "zzlCompareElements zl (epos fc ps i) el = Some c"
    using zzl_element_val[OF assms(1,2)]
  proof (elim disjE exE conjE)
    fix v assume v: "lpGetValue zl (epos fc ps i) = Some (LP_INT v)" "LLONG_MIN \<le> v" "v \<le> LLONG_MAX" "?e = dec_ll v"
    have "LONG_STR_SIZE \<le> 32" by (simp add: LONG_STR_SIZE_def)
    then show ?thesis using ll2string_text[OF v(2,3), of 32] v(1,4)
      by (auto simp: zzlCompareElements_def Let_def c_def cmp_def minlen_def)
  qed (simp add: zzlCompareElements_def Let_def c_def cmp_def minlen_def)
  moreover have "c > 0 \<longleftrightarrow> sdscmp ?e el > 0"
  proof -
    have "length ?e < 2 ^ 31" using ele_length(2)[of ps i] assms(1,2) by (simp add: zzl_rep_def)
    then have "- (2 ^ 31) \<le> int (length ?e) - int (length el)" "int (length ?e) - int (length el) < 2 ^ 31" using assms(3) by simp_all
    moreover have "sint (word_of_int v :: u32) = v" if "- (2 ^ 31) \<le> v" "v < 2 ^ 31" for v
      using that by (simp add: sint_sbintrunc' signed_take_bit_int_eq_self)
    ultimately have "sint (word_of_int (int (length ?e) - int (length el)) :: u32) = int (length ?e) - int (length el)" by blast
    then have "sint (of_nat (length ?e) - of_nat (length el) :: u32) = int (length ?e) - int (length el)" by simp
    moreover have "sdscmp ?e el = (if cmp = 0 then (if length ?e > length el then 1 else if length ?e < length el then -1 else 0) else cmp)"
      by (simp add: sdscmp_def Let_def cmp_def minlen_def)
    ultimately show ?thesis by (simp add: c_def)
  qed
  ultimately show ?thesis using sdscmp_order(1)[of ?e el] by blast
qed

subsection \<open>Search\<close>

lemma find_skip_pairs:
  assumes "\<forall>k\<in>set ps. payload_str (lp_encode (snd k)) = snd k"
  shows "el \<notin> set (map snd ps) \<Longrightarrow> find_skip (\<lambda>x. x = el) 1 0 (map payload_str (zzl_payloads fc ps)) = None"
    and "i < length ps \<Longrightarrow> snd (ps ! i) = el \<Longrightarrow> distinct (map snd ps) \<Longrightarrow>
      find_skip (\<lambda>x. x = el) 1 0 (map payload_str (zzl_payloads fc ps)) = Some (2 * i)"
  using assms
proof (induction ps arbitrary: i)
  case (Cons k ps)
  { case 1 then show ?case using Cons.IH(1) by (auto simp: pair_payloads_def) }
  { case 2 show ?case
    proof (cases i)
      case 0
      then show ?thesis using 2 by (simp add: pair_payloads_def)
    next
      case (Suc j)
      then have "snd k \<noteq> el" using 2 nth_mem[of j ps] by auto
      then show ?thesis using 2 Suc Cons.IH(2)[of j] by (simp add: pair_payloads_def)
    qed }
qed simp_all

text \<open>The pairs as nodes without addresses, to share the facts on ordered lists with the skip list.\<close>

definition pair_nodes :: "('s \<times> sds) list \<Rightarrow> 's znode list" where
  "pair_nodes ps = map (\<lambda>(s, e). (0, 1, s, e)) ps"

definition pair_map :: "('s \<times> sds) list \<Rightarrow> sds \<rightharpoonup> 's" where
  "pair_map ps = map_of (map (\<lambda>k. (snd k, fst k)) ps)"

lemma pair_nodes_lists:
  "node_keys (pair_nodes ps) = ps" "map fst (node_index (pair_nodes ps)) = map snd ps" "length (pair_nodes ps) = length ps"
  "map_of (node_scores (pair_nodes ps)) = pair_map ps"
  by (simp_all add: node_keys_def node_index_def node_scores_def pair_nodes_def pair_map_def case_prod_beta comp_def)

lemma pair_map_iff: "distinct (map snd ps) \<Longrightarrow> pair_map ps e = Some s \<longleftrightarrow> (\<exists>i<length ps. ps ! i = (s, e))"
  using scores_iff[of "pair_nodes ps" e s] by (simp add: pair_nodes_lists)

lemma pair_map_None: "pair_map ps e = None \<longleftrightarrow> e \<notin> set (map snd ps)"
  by (simp add: pair_map_def map_of_eq_None_iff image_image)

lemma zzl_strings:
  assumes "zzl_rep fc zl ps"
  shows "\<forall>k\<in>set ps. payload_str (lp_encode (snd k)) = snd k"
proof
  fix k assume "k \<in> set ps"
  then obtain i where "i < length ps" "k = ps ! i" by (auto simp: in_set_conv_nth)
  then have "length (lp_encode (snd k)) < 2 ^ 32" using ele_length(1)[of ps i] assms by (simp add: zzl_rep_def)
  then show "payload_str (lp_encode (snd k)) = snd k" using lp_encode_ok by blast
qed

lemma zzlFind_rep:
  assumes fc: "fconv_ok fc" and r: "zzl_rep fc zl ps"
  shows "(pair_map ps el = None \<and> el \<notin> set (map snd ps) \<and> zzlFind fc zl el want = Some None) \<or>
    (\<exists>i s. i < length ps \<and> ps ! i = (s, el) \<and> pair_map ps el = Some s \<and>
       zzlFind fc zl el want = Some (Some (epos fc ps i, if want then Some (Num s) else None)))"
proof -
  have lp: "lp_rep zl (zzl_payloads fc ps)" and d: "distinct (map snd ps)" using r by (auto simp: zzl_rep_def)
  note first = lpFirst_rep[OF lp]
  show ?thesis
  proof (cases "ps = []")
    case True
    then show ?thesis using first by (simp add: zzlFind_def pair_map_def)
  next
    case False
    then have ne: "zzl_payloads fc ps \<noteq> []" by (cases ps) (simp_all add: pair_payloads_def)
    then have find: "lpFind zl (Some 6) el 1 =
        Some (map_option (lp_pos (zzl_payloads fc ps)) (find_skip (\<lambda>x. x = el) 1 0 (map payload_str (zzl_payloads fc ps))))"
      using lpFind_rep(1)[OF lp, of 0 el 1] False by simp
    show ?thesis
    proof (cases "el \<in> set (map snd ps)")
      case True
      then obtain i where i: "i < length ps" "snd (ps ! i) = el" by (auto simp: in_set_conv_nth)
      obtain s where s: "ps ! i = (s, el)" using i(2) by (cases "ps ! i") simp
      have "lpFind zl (Some 6) el 1 = Some (Some (epos fc ps i))"
        using find find_skip_pairs(2)[OF zzl_strings[OF r] i d, where fc = fc] by (simp add: epos_def)
      then have "zzlFind fc zl el want = Some (Some (epos fc ps i, if want then Some (Num s) else None))"
        using first ne zzl_next(1)[OF r i(1)] zzlGetScore_rep[OF fc r i(1)] s by (simp add: zzlFind_def)
      moreover have "pair_map ps el = Some s" using pair_map_iff[OF d] i(1) s by blast
      ultimately show ?thesis using i(1) s by blast
    next
      case False
      then show ?thesis using first ne find find_skip_pairs(1)[OF zzl_strings[OF r] False, where fc = fc] pair_map_None[of ps el] by (simp add: zzlFind_def)
    qed
  qed
qed

subsection \<open>Deletion\<close>

lemma ele_bytes_at:
  "ele_bytes (ins_at r k ps) = ele_bytes ps + length (entry (lp_encode (snd k)))"
  "i < length ps \<Longrightarrow> ele_bytes ps = ele_bytes (del_at i ps) + length (entry (lp_encode (snd (ps ! i))))"
proof -
  show ins: "ele_bytes (ins_at r k ps) = ele_bytes ps + length (entry (lp_encode (snd k)))" for r k and ps :: "('a \<times> sds) list"
  proof -
    have "sum_list (map f ps) = sum_list (map f (take r ps)) + sum_list (map f (drop r ps))" for f :: "'a \<times> sds \<Rightarrow> nat"
      by (metis append_take_drop_id map_append sum_list_append)
    then show ?thesis by (simp add: ele_bytes_def ins_at_def)
  qed
  show "i < length ps \<Longrightarrow> ele_bytes ps = ele_bytes (del_at i ps) + length (entry (lp_encode (snd (ps ! i))))"
    using ins[of i "ps ! i" "del_at i ps"] ins_del_at[of i ps] by simp
qed

lemma zzl_rep_cut:
  assumes "zzl_rep fc zl ps" "a \<le> b" "lp_rep zl' (zzl_payloads fc (take a ps @ drop b ps))"
  shows "zzl_rep fc zl' (take a ps @ drop b ps)"
proof -
  obtain qs where qs: "drop a ps = qs @ drop b ps" using assms(2) by (metis drop_drop append_take_drop_id le_add_diff_inverse2)
  have ps: "ps = take a ps @ qs @ drop b ps" using qs by (metis append_take_drop_id)
  have "sorted_wrt (<) (take a ps @ qs @ drop b ps)" "distinct (map snd (take a ps @ qs @ drop b ps))" "zzl_bound (take a ps @ qs @ drop b ps)"
    using assms(1) ps unfolding zzl_rep_def by metis+
  then show ?thesis using assms(3) by (auto simp: zzl_rep_def sorted_wrt_append zzl_bound_def ele_bytes_def)
qed

lemma zzl_delete_entry:
  assumes r: "zzl_rep fc zl ps" and i: "i < length ps"
  shows "\<exists>zl'. lpDeleteRangeWithEntry A zl (epos fc ps i) 2 = Some (zl', epos_opt fc (del_at i ps) i) \<and> zzl_rep fc zl' (del_at i ps)"
proof -
  have lp: "lp_rep zl (zzl_payloads fc ps)" using r by (auto simp: zzl_rep_def)
  have "take (2 * i) (zzl_payloads fc ps) @ drop (2 * i + 2) (zzl_payloads fc ps) = zzl_payloads fc (del_at i ps)"
    using take_zzl_payloads[of i fc ps] drop_zzl_payloads[of "Suc i" fc ps] by (simp add: del_at_def)
  then obtain zl' where "lpDeleteRangeWithEntry A zl (epos fc ps i) 2 =
      Some (zl', if 2 * i < length (zzl_payloads fc (del_at i ps)) then Some (lp_pos (zzl_payloads fc (del_at i ps)) (2 * i)) else None)"
      "lp_rep zl' (zzl_payloads fc (del_at i ps))"
    using lpDeleteRangeWithEntry_rep[OF lp, of "2 * i" A 2] i by (auto simp: epos_def)
  then show ?thesis using zzl_rep_cut[OF r, of i "Suc i" zl'] by (auto simp: epos_opt_def epos_def del_at_def)
qed

lemma zzlDelete_rep:
  assumes "zzl_rep fc zl ps" "i < length ps"
  shows "\<exists>zl'. zzlDelete A zl (epos fc ps i) = Some zl' \<and> zzl_rep fc zl' (del_at i ps)"
  using zzl_delete_entry[OF assms, of A] by (auto simp: zzlDelete_def)

subsection \<open>Insertion\<close>

lemma zzlInsertAt_rep:
  assumes fc: "fconv_ok fc" and r: "lp_rep zl (zzl_payloads fc ps)" and i: "i \<le> length ps" and b: "zzl_bound (ins_at i (s, el) ps)"
  shows "\<exists>zl'. zzlInsertAt A fc zl (epos_opt fc ps i) el (Num s) = Some zl' \<and> lp_rep zl' (zzl_payloads fc (ins_at i (s, el) ps))"
proof -
  let ?en = "[SVal el, score_ent fc s]" and ?es = "zzl_payloads fc ps" and ?es' = "zzl_payloads fc (ins_at i (s, el) ps)"
  have en: "zzlInsertAt A fc zl eptr el (Num s) =
      (case eptr of None \<Rightarrow> lpBatchAppend A zl ?en | Some p \<Rightarrow> lpBatchInsert A zl p LP_BEFORE ?en) \<bind> map_option fst" for eptr
    using score_text_spec(3)[OF fc, of s] by (auto simp: zzlInsertAt_def score_ent_def split: option.split)
  have ok: "\<forall>e\<in>set ?en. ent_ok e" using score_ent_ok(1)[OF fc] by (simp add: ent_ok_def)
  have es': "take (2 * i) ?es @ map ent_payload ?en @ drop (2 * i) ?es = ?es'"
    by (simp add: take_zzl_payloads drop_zzl_payloads ins_at_def pair_payloads_def ent_payload_def)
  have fit: "length (body ?es') + 7 < 2 ^ 32" using zzl_body_bound[OF fc b] .
  show ?thesis
  proof (cases "i < length ps")
    case True
    have "where_range LP_BEFORE (2 * i) = (2 * i, 2 * i)" by (simp add: where_range_def)
    then have "\<exists>zl'. lpBatchInsert A zl (lp_pos ?es (2 * i)) LP_BEFORE ?en = Some (Some (zl', Some (lp_pos ?es' (2 * i + length ?en - 1)))) \<and> lp_rep zl' ?es'"
      using lpBatchInsert_rep[OF r _ _ _ _ ok, of "2 * i" LP_BEFORE "2 * i" A] True fit
      unfolding es' by (simp only: lp_where.distinct simp_thms True_implies_equals if_True list.distinct) simp
    then show ?thesis using True by (auto simp: en epos_opt_def epos_def)
  next
    case False
    then have "i = length ps" using i by simp
    then have "?es @ map ent_payload ?en = ?es'" using es' by simp
    then have "\<exists>zl'. lpBatchAppend A zl ?en = Some (Some (zl', Some (lp_pos ?es' (length ?es' - 1)))) \<and> lp_rep zl' ?es'"
      using lpBatchAppend_rep[OF r _ ok, of A] fit by (simp only: list.distinct simp_thms True_implies_equals if_True)
    then show ?thesis using False by (auto simp: en epos_opt_def)
  qed
qed

lemma zzlInsert_loop_rep:
  assumes fc: "fconv_ok fc" and rep: "zzl_rep fc zl ps" and el: "length el < 2 ^ 31" "el \<notin> set (map snd ps)"
    and r: "r = rank_of (pair_nodes ps) (s, el)" "i \<le> r" and b: "zzl_bound (ins_at r (s, el) ps)"
  shows "\<exists>zl'. zzlInsert_loop A fc zl (epos_opt fc ps i) el (Num s) = Some zl' \<and> lp_rep zl' (zzl_payloads fc (ins_at r (s, el) ps))"
  using r(2)
proof (induction "r - i" arbitrary: i rule: less_induct)
  case less
  have sorted: "sorted_wrt (<) (node_keys (pair_nodes ps))" using rep by (simp add: pair_nodes_lists zzl_rep_def)
  have rl: "r \<le> length ps" using rank_of_le[of "pair_nodes ps" "(s, el)"] r(1) by (simp add: pair_nodes_lists)
  have lp: "lp_rep zl (zzl_payloads fc ps)" using rep by (simp add: zzl_rep_def)
  note at = zzlInsertAt_rep[OF fc lp rl b, of A]
  show ?case
  proof (cases "i < length ps")
    case False
    then have "r = i" using rl less.prems by simp
    then show ?thesis using at False by (simp add: zzlInsert_loop.simps[of A fc zl None] epos_opt_def)
  next
    case True
    obtain t e where k: "ps ! i = (t, e)" by fastforce
    obtain c where c: "zzlCompareElements zl (epos fc ps i) el = Some c" "c > 0 \<longleftrightarrow> el < e"
      using zzlCompareElements_rep[OF rep True el(1)] k by auto
    have ne: "e \<noteq> el" using el(2) True k by (metis in_set_conv_nth length_map nth_map snd_conv)
    have pos: "ps ! i < (s, el) \<longleftrightarrow> i < r" using rank_of_iff[OF sorted, of i "(s, el)"] True r(1) by (simp add: pair_nodes_lists)
    have run: "zzlInsert_loop A fc zl (epos_opt fc ps i) el (Num s) =
        (if (s, el) < ps ! i then zzlInsertAt A fc zl (epos_opt fc ps i) el (Num s)
         else zzlInsert_loop A fc zl (epos_opt fc ps (Suc i)) el (Num s))"
      using zzl_next[OF rep True] zzlGetScore_rep[OF fc rep True] c k True
      by (subst zzlInsert_loop.simps) (auto simp: epos_opt_def)
    show ?thesis
    proof (cases "i < r")
      case True
      then have "\<not> (s, el) < ps ! i" using pos by auto
      then show ?thesis using less.hyps[of "Suc i"] True run by auto
    next
      case False
      then have "r = i" using less.prems by simp
      moreover have "(s, el) < ps ! i" using pos False k ne by (auto simp: not_less le_less)
      ultimately show ?thesis using run at by simp
    qed
  qed
qed

lemma ins_at_rep:
  assumes "lp_rep zl' (zzl_payloads fc (ins_at r (s, el) ps))" "sorted_wrt (<) ps" "distinct (map snd ps)" "el \<notin> set (map snd ps)"
    "r = rank_of (pair_nodes ps) (s, el)" "zzl_bound (ins_at r (s, el) ps)"
  shows "zzl_rep fc zl' (ins_at r (s, el) ps) \<and> pair_map (ins_at r (s, el) ps) = (pair_map ps)(el \<mapsto> s)"
proof -
  have "(s, el) \<notin> set ps" using assms(4) by force
  then have "sorted_wrt (<) (ins_at r (s, el) ps)" using sorted_ins_at[of "pair_nodes ps" "(s, el)"] assms(2,5) by (simp add: pair_nodes_lists)
  moreover have "distinct (map snd (ins_at r (s, el) ps))"
    using distinct_ins_at[of r el "map snd ps"] assms(3,4) by (simp add: map_ins_at)
  moreover have "pair_map (ins_at r (s, el) ps) = (pair_map ps)(el \<mapsto> s)"
    using map_of_ins_at(1)[of "map (\<lambda>k. (snd k, fst k)) ps" el r s] assms(3,4) by (simp add: pair_map_def map_ins_at comp_def)
  ultimately show ?thesis using assms(1,6) by (simp add: zzl_rep_def)
qed

lemma zzlInsert_rep:
  assumes fc: "fconv_ok fc" and rep: "zzl_rep fc zl ps" and el: "length el < 2 ^ 31" "el \<notin> set (map snd ps)"
    and b: "ele_bytes ps + length (entry (lp_encode el)) \<le> 2 ^ 30 + 10 * 2 ^ 26" "length ps < 2 ^ 26"
  shows "\<exists>zl' ps'. zzlInsert A fc zl el (Num s) = Some zl' \<and> zzl_rep fc zl' ps' \<and> pair_map ps' = (pair_map ps)(el \<mapsto> s) \<and> length ps' = Suc (length ps)"
proof -
  let ?r = "rank_of (pair_nodes ps) (s, el)"
  have rl: "?r \<le> length ps" using rank_of_le[of "pair_nodes ps" "(s, el)"] by (simp add: pair_nodes_lists)
  have bound: "zzl_bound (ins_at ?r (s, el) ps)" using b ele_bytes_at(1)[of ?r "(s, el)" ps] rl by (simp add: zzl_bound_def)
  obtain zl' where "zzlInsert_loop A fc zl (epos_opt fc ps 0) el (Num s) = Some zl'" "lp_rep zl' (zzl_payloads fc (ins_at ?r (s, el) ps))"
    using zzlInsert_loop_rep[OF fc rep el refl _ bound, of 0] by blast
  moreover from this(2) have "zzl_rep fc zl' (ins_at ?r (s, el) ps) \<and> pair_map (ins_at ?r (s, el) ps) = (pair_map ps)(el \<mapsto> s)"
    using ins_at_rep[OF _ _ _ el(2) refl bound] rep by (simp add: zzl_rep_def)
  moreover have "length (ins_at ?r (s, el) ps) = Suc (length ps)" using rl by simp
  ultimately show ?thesis using zzl_first[OF rep] unfolding zzlInsert_def by (metis bind.bind_lunit)
qed

text \<open>Deleting a pair, and changing a score by deleting and inserting the pair: no bound is at risk.\<close>

lemma zzl_delete_map:
  assumes "zzl_rep fc zl ps" "i < length ps" "ps ! i = (c, el)"
  shows "\<exists>zl'. zzlDelete A zl (epos fc ps i) = Some zl' \<and> zzl_rep fc zl' (del_at i ps)"
    "pair_map (del_at i ps) = (pair_map ps)(el := None)" "el \<notin> set (map snd (del_at i ps))"
proof -
  let ?f = "\<lambda>k :: 'a \<times> sds. (snd k, fst k)"
  have "map ?f ps ! i = (el, c)" "distinct (map fst (map ?f ps))" using assms by (simp_all add: zzl_rep_def comp_def)
  moreover have "del_at i (map ?f ps) = map ?f (del_at i ps)" by (simp add: del_at_def take_map drop_map)
  ultimately show "pair_map (del_at i ps) = (pair_map ps)(el := None)" "el \<notin> set (map snd (del_at i ps))"
    using map_of_del_at[of "map ?f ps" i el c] assms(2) by (simp_all add: pair_map_def comp_def)
qed (rule zzlDelete_rep[OF assms(1,2)])

lemma zzl_update:
  assumes fc: "fconv_ok fc" and rep: "zzl_rep fc zl ps" and i: "i < length ps" "ps ! i = (c, el)"
  shows "\<exists>zl1 zl' ps'. zzlDelete A zl (epos fc ps i) = Some zl1 \<and> zzlInsert A fc zl1 el (Num s) = Some zl' \<and> zzl_rep fc zl' ps' \<and>
    pair_map ps' = (pair_map ps)(el \<mapsto> s) \<and> length ps' = length ps"
proof -
  note D = zzl_delete_map[OF rep i]
  obtain zl1 where zl1: "zzlDelete A zl (epos fc ps i) = Some zl1" "zzl_rep fc zl1 (del_at i ps)" using D(1) by blast
  have el: "length el < 2 ^ 31" using ele_length(2)[of ps i] rep i by (simp add: zzl_rep_def)
  have "ele_bytes (del_at i ps) + length (entry (lp_encode el)) \<le> 2 ^ 30 + 10 * 2 ^ 26" "length (del_at i ps) < 2 ^ 26"
    using ele_bytes_at(2)[OF i(1)] i rep by (auto simp: zzl_rep_def zzl_bound_def)
  then show ?thesis using zzlInsert_rep[OF fc zl1(2) el D(3), of A s] zl1(1) D(2) i(1) by fastforce
qed

subsection \<open>Traversal\<close>

lemma zzlNext_rep:
  assumes "zzl_rep fc zl ps" "i < length ps"
  shows "zzlNext zl (Some (epos fc ps i)) (Some (spos fc ps i)) =
    Some (epos_opt fc ps (Suc i), if Suc i < length ps then Some (spos fc ps (Suc i)) else None)"
  using zzl_next[OF assms] zzl_next(1)[OF assms(1), of "Suc i"] by (auto simp: zzlNext_def epos_opt_def)

lemma zzlLength_rep:
  assumes "zzl_rep fc zl ps"
  shows "\<exists>zl'. zzlLength zl = Some (zl', length ps) \<and> zzl_rep fc zl' ps \<and> lpGetTotalBytes zl' = lpGetTotalBytes zl"
  using lpLength_rep[of zl "zzl_payloads fc ps"] assms by (auto simp: zzlLength_def zzl_rep_def)

end
