(* ===== verification/Zobj.thy ===== *)
theory Zobj
  imports Zzl
begin

text \<open>
  \<^verbatim>\<open>src/t_zset.c\<close>: sorted set objects. An object is a listpack while it is small and becomes a skip list with a
  dictionary when the configured limits, or the safety limit of listpacks, would be exceeded. The operations choose
  by the encoding; those on the skip list are the ones of theory \<open>Zset\<close>, those on the listpack the ones of \<open>Zzl\<close>.
  Both encodings satisfy the same contract, the locale \<open>sorted_set\<close>.

  An object in the listpack encoding carries the heap of nodes it will use after a conversion. The environment of an
  operation holds the resources it may draw: the addresses and random numbers of a node for a new element,
  and of the list header and all nodes of a conversion.
\<close>

subsection \<open>Objects\<close>

record zconf =
  zset_max_listpack_entries :: nat
  zset_max_listpack_value :: nat
  zsetDictType :: "sds dictType"

datatype 's zobj = ZListpack bytes "'s zheap" | ZSkiplist "'s zset"

record zoenv =
  o_env :: zenv
  o_alloc :: allocator
  o_header :: addr
  o_nodes :: "zenv list"

subsection \<open>Conversion\<close>

definition dictAddStored ::
  "dictResizeEnable \<Rightarrow> ('k, 'v) dict \<Rightarrow> 'k \<Rightarrow> 'v \<Rightarrow> (('k, 'v) dict \<times> bool) option" where
  "dictAddStored can_resize d key stored =
     do {
       (d, r) \<leftarrow> dictAddRaw can_resize d key;
       case r of Inl _ \<Rightarrow> Some (d, False) | Inr l \<Rightarrow> do { d \<leftarrow> set_entry_val d l stored; Some (d, True) }
     }"

fun convert_loop :: "'s::{linorder, zero} fconv \<Rightarrow> bytes \<Rightarrow> zenv list \<Rightarrow> int option \<Rightarrow> int option \<Rightarrow> 's zset \<Rightarrow> 's zset option" where
  "convert_loop fc zl envs None sptr zs = Some zs"
| "convert_loop fc zl [] (Some p) sptr zs = None"
| "convert_loop fc zl (env # envs) (Some p) sptr zs =
     do {
       sc \<leftarrow> zzlGetScore fc zl sptr;
       el \<leftarrow> lpGetObject zl (Some p);
       (h, zsl, node) \<leftarrow> zslInsert (z_heap zs) (z_zsl zs) (e_random env) (e_addr env) (e_junk env) sc el;
       (d, ok) \<leftarrow> dictAddStored (e_resize env) (z_dict zs) el node;
       if \<not> ok then None
       else do {
         (eptr, sptr) \<leftarrow> zzlNext zl (Some p) sptr;
         convert_loop fc zl envs eptr sptr \<lparr>z_heap = h, z_zsl = zsl, z_dict = d\<rparr>
       }
     }"

definition convert_to_skiplist ::
  "'s::{linorder, zero} fconv \<Rightarrow> zconf \<Rightarrow> zoenv \<Rightarrow> bytes \<Rightarrow> 's zheap \<Rightarrow> nat \<Rightarrow> 's zset option" where
  "convert_to_skiplist fc cfg env zl h cap =
     do {
       zs \<leftarrow> createZset (zsetDictType cfg) h (o_header env);
       (d, _) \<leftarrow> dictExpand (e_resize (o_env env)) (z_dict zs) cap;
       eptr \<leftarrow> lpSeek zl 0;
       sptr \<leftarrow> (case eptr of None \<Rightarrow> Some None | Some p \<Rightarrow> do { s \<leftarrow> lpNext zl p; sp \<leftarrow> s; Some (Some sp) });
       convert_loop fc zl (o_nodes env) eptr sptr (zs\<lparr>z_dict := d\<rparr>)
     }"

lemma dictAddStored_spec:
  assumes "dict_inv d" "dict_map d k = None" "pauseAutoResize d \<le> 0"
  shows "\<exists>d'. dictAddStored can_resize d k w = Some (d', True) \<and> dict_upd d ((dict_map d)(k \<mapsto> Some w)) d'"
proof -
  obtain d1 l where d1: "dictAddRaw can_resize d k = Some (d1, Inr l)" "dict_upd d ((dict_map d)(k \<mapsto> None)) d1" "at_link d1 l k None"
    using dictAddRaw_spec[OF assms(1), where k = k and can_resize = can_resize] assms(2,3) by auto
  have "dict_inv d1" using d1(2) by (simp add: dict_upd_def)
  then obtain d2 where d2: "set_entry_val d1 l w = Some d2" "dict_upd d1 ((dict_map d1)(k \<mapsto> Some w)) d2"
    using set_entry_val_spec[OF _ d1(3)] by blast
  have "dict_upd d ((dict_map d)(k \<mapsto> Some w)) d2" using d1(2) d2(2) by (simp add: dict_upd_def)
  then show ?thesis using d1(1) d2(1) by (simp add: dictAddStored_def)
qed

definition spos_opt :: "'s::{linorder, zero} fconv \<Rightarrow> ('s \<times> sds) list \<Rightarrow> nat \<Rightarrow> int option" where
  "spos_opt fc ps i = (if i < length ps then Some (spos fc ps i) else None)"

lemma convert_loop_rep:
  assumes fc: "fconv_ok fc" and rep: "zzl_rep fc zl ps"
    and i: "i \<le> length ps" "length ps - i \<le> length envs"
    and z: "zset_nodes zs ns" "length ns = i" "map_of (node_scores ns) = pair_map (take i ps)" "pauseAutoResize (z_dict zs) \<le> 0"
    and envs: "\<forall>e\<in>set envs. z_usable zs e" "distinct (map e_addr envs)"
  shows "\<exists>zs'. convert_loop fc zl envs (epos_opt fc ps i) (spos_opt fc ps i) zs = Some zs' \<and> zset_rep zs' (pair_map ps) \<and>
    (\<forall>e. z_usable zs e \<longrightarrow> e_addr e \<notin> e_addr ` set envs \<longrightarrow> z_usable zs' e)"
  using i z envs
proof (induction envs arbitrary: i zs ns)
  case Nil
  then have "i = length ps" by simp
  then show ?case using Nil zset_nodes_rep[of zs ns] by (auto simp: epos_opt_def)
next
  case (Cons env envs)
  show ?case
  proof (cases "i < length ps")
    case False
    then have "i = length ps" using Cons.prems by simp
    then show ?thesis using Cons.prems zset_nodes_rep[of zs ns] by (auto simp: epos_opt_def)
  next
    case True
    obtain s el where k: "ps ! i = (s, el)" by fastforce
    have d: "distinct (map snd ps)" and small: "length ps \<le> 2 ^ 26" using rep by (auto simp: zzl_rep_def zzl_bound_def)
    have tk: "take (Suc i) ps = take i ps @ [(s, el)]" using True k by (simp add: take_Suc_conv_app_nth)
    have "el \<notin> set (map snd (take i ps))"
      using distinct_take[OF d, of "Suc i"] tk by (simp add: take_map)
    then have none: "pair_map (take i ps) el = None" by (simp add: pair_map_None)
    have pm: "pair_map (take (Suc i) ps) = (pair_map (take i ps))(el \<mapsto> s)"
      using none unfolding tk by (auto simp: pair_map_def fun_eq_iff map_add_def split: option.splits)
    note Z = zset_nodesD[OF Cons.prems(3)]
    have new: "el \<notin> set (map fst (node_index ns))" using node_lookup[OF Z(2), of el] none Cons.prems(5) by auto
    have "map_of (node_index ns) el = None" using new by (simp add: map_of_eq_None_iff)
    then have "dict_map (z_dict zs) el = None" using Z(4) by simp
    then obtain d' where d': "dictAddStored (e_resize env) (z_dict zs) el (e_addr env) = Some (d', True)"
        "dict_upd (z_dict zs) ((dict_map (z_dict zs))(el \<mapsto> Some (e_addr env))) d'"
      using dictAddStored_spec[OF Z(3) _ Cons.prems(6)] by blast
    have dd: "dict_inv d'" "dict_map d' = (dict_map (z_dict zs))(el \<mapsto> Some (e_addr env))" "pauseAutoResize d' \<le> 0"
      using d'(2) Cons.prems(6) by (simp_all add: dict_upd_def)
    have "z_usable zs env" "Suc (length ns) < 2 ^ 64" using Cons.prems True small by auto
    then obtain h' zsl' ns' where ins: "zslInsert (z_heap zs) (z_zsl zs) (e_random env) (e_addr env) (e_junk env) (Num s) el = Some (h', zsl', e_addr env)"
        "zset_nodes \<lparr>z_heap = h', z_zsl = zsl', z_dict = d'\<rparr> ns'" "map_of (node_scores ns') = pair_map (take (Suc i) ps)" "length ns' = Suc i"
        "\<forall>e. z_usable zs e \<longrightarrow> z_apart env e \<longrightarrow> z_usable \<lparr>z_heap = h', z_zsl = zsl', z_dict = d'\<rparr> e"
      using zset_insert_node[OF Cons.prems(3) _ new _ dd(1,2), of s] Cons.prems(4,5) pm by auto
    let ?zs = "\<lparr>z_heap = h', z_zsl = zsl', z_dict = d'\<rparr>"
    have us: "\<forall>e\<in>set envs. z_usable ?zs e" using Cons.prems(7,8) ins(5) by (auto simp: z_apart_def)
    obtain zs' where zs': "convert_loop fc zl envs (epos_opt fc ps (Suc i)) (spos_opt fc ps (Suc i)) ?zs = Some zs'" "zset_rep zs' (pair_map ps)"
        "\<forall>e. z_usable ?zs e \<longrightarrow> e_addr e \<notin> e_addr ` set envs \<longrightarrow> z_usable zs' e"
      using Cons.IH[OF _ _ ins(2,4,3) _ us] Cons.prems(2,8) Suc_leI[OF True] dd(3) by (auto simp: le_diff_conv)
    have "convert_loop fc zl (env # envs) (epos_opt fc ps i) (spos_opt fc ps i) zs = Some zs'"
      using zs'(1) True zzlGetScore_rep[OF fc rep True] lpGetObject_rep[OF rep True] ins(1) d'(1) zzlNext_rep[OF rep True] k
      by (simp add: epos_opt_def spos_opt_def)
    then show ?thesis using zs'(2,3) ins(5) by (auto simp: z_apart_def)
  qed
qed

definition zo_addrs :: "zoenv \<Rightarrow> addr list" where
  "zo_addrs env = o_header env # map e_addr (o_nodes env) @ [e_addr (o_env env)]"

lemma convert_to_skiplist_rep:
  assumes fc: "fconv_ok fc" and rep: "zzl_rep fc zl ps" and len: "length ps \<le> length (o_nodes env)"
    and free: "\<forall>a\<in>set (zo_addrs env). h a = None" "distinct (zo_addrs env)"
    and levels: "\<forall>e\<in>set (o_nodes env). zslRandomLevel (e_random e) \<noteq> None"
  shows "\<exists>zs. convert_to_skiplist fc cfg env zl h cap = Some zs \<and> zset_rep zs (pair_map ps) \<and>
    (\<forall>e. h (e_addr e) = None \<longrightarrow> zslRandomLevel (e_random e) \<noteq> None \<longrightarrow>
       e_addr e \<notin> insert (o_header env) (e_addr ` set (o_nodes env)) \<longrightarrow> z_usable zs e)"
proof -
  obtain zs0 where zs0: "createZset (zsetDictType cfg) h (o_header env) = Some zs0" "zset_rep zs0 Map.empty"
      "\<forall>y. y \<noteq> o_header env \<longrightarrow> z_heap zs0 y = h y"
    using createZset_rep[of h "o_header env" "zsetDictType cfg"] free(1) by (auto simp: zo_addrs_def)
  obtain ns where ns: "zset_nodes zs0 ns" "map_of (node_scores ns) = Map.empty" using zs0(2) by (auto simp: zset_rep_def)
  have ns0: "ns = []" using ns(2) by (simp add: node_scores_def)
  have "pauseAutoResize (z_dict zs0) = 0" using zs0(1) by (auto simp: createZset_def bind_eq_Some_conv dictCreate_def)
  moreover obtain d ok where d: "dictExpand (e_resize (o_env env)) (z_dict zs0) cap = Some (d, ok)" "dict_same (z_dict zs0) d"
    using dictExpand_spec[OF zset_nodesD(3)[OF ns(1)], of "e_resize (o_env env)" cap] by auto
  ultimately have pause: "pauseAutoResize d \<le> 0" by (simp add: dict_same_def)
  let ?zs = "zs0\<lparr>z_dict := d\<rparr>"
  have z: "zset_nodes ?zs []" using zset_same_dict[OF ns(1) d(2)] ns0 by simp
  have "e_addr e \<noteq> o_header env" if "e \<in> set (o_nodes env)" for e using free(2) that by (force simp: zo_addrs_def)
  then have us: "\<forall>e\<in>set (o_nodes env). z_usable ?zs e" using free(1) levels zs0(3) by (auto simp: z_usable_def zo_addrs_def)
  have "\<exists>zs'. convert_loop fc zl (o_nodes env) (epos_opt fc ps 0) (spos_opt fc ps 0) ?zs = Some zs' \<and> zset_rep zs' (pair_map ps) \<and>
    (\<forall>e. z_usable ?zs e \<longrightarrow> e_addr e \<notin> e_addr ` set (o_nodes env) \<longrightarrow> z_usable zs' e)"
    by (rule convert_loop_rep[OF fc rep _ _ z _ _ _ us]) (use len pause free(2) in \<open>auto simp: pair_map_def zo_addrs_def node_scores_def\<close>)
  then obtain zs' where zs': "convert_loop fc zl (o_nodes env) (epos_opt fc ps 0) (spos_opt fc ps 0) ?zs = Some zs'" "zset_rep zs' (pair_map ps)"
    "\<forall>e. z_usable ?zs e \<longrightarrow> e_addr e \<notin> e_addr ` set (o_nodes env) \<longrightarrow> z_usable zs' e" by blast
  have "convert_to_skiplist fc cfg env zl h cap = Some zs'"
    using zs0(1) d(1) zzl_first[OF rep] zzl_next(1)[OF rep, of 0] zs'(1)
    by (cases "0 < length ps") (simp_all add: convert_to_skiplist_def epos_opt_def spos_opt_def)
  moreover have "z_usable zs' e" if "h (e_addr e) = None" "zslRandomLevel (e_random e) \<noteq> None"
    "e_addr e \<notin> insert (o_header env) (e_addr ` set (o_nodes env))" for e
    using zs'(3) zs0(3) that by (auto simp: z_usable_def)
  ultimately show ?thesis using zs'(2) by blast
qed

subsection \<open>Operations on objects\<close>

definition zobjAdd ::
  "('s double \<Rightarrow> 's double \<Rightarrow> 's double) \<Rightarrow> 's::{linorder, zero} fconv \<Rightarrow> zconf \<Rightarrow> zoenv \<Rightarrow> 's zobj \<Rightarrow> 's double \<Rightarrow> sds \<Rightarrow> u32 \<Rightarrow>
   ('s zobj \<times> bool \<times> u32 \<times> 's double option) option" where
  "zobjAdd fadd fc cfg env ob sc el in_flags =
     (let incr = (in_flags AND ZADD_IN_INCR \<noteq> 0);
          nx = (in_flags AND ZADD_IN_NX \<noteq> 0);
          xx = (in_flags AND ZADD_IN_XX \<noteq> 0);
          gt = (in_flags AND ZADD_IN_GT \<noteq> 0);
          lt = (in_flags AND ZADD_IN_LT \<noteq> 0) in
      if isnan sc then Some (ob, False, ZADD_OUT_NAN, None)
      else case ob of
        ZSkiplist zs \<Rightarrow> do { (zs, r) \<leftarrow> zsetAdd fadd (o_env env) zs sc el in_flags; Some (ZSkiplist zs, r) }
      | ZListpack zl h \<Rightarrow> do {
          f \<leftarrow> zzlFind fc zl el True;
          case f of
            Some (eptr, cs) \<Rightarrow>
              if nx then Some (ob, True, ZADD_OUT_NOP, None)
              else do {
                curscore \<leftarrow> cs;
                let sc = (if incr then fadd sc curscore else sc);
                if incr \<and> isnan sc then Some (ob, False, ZADD_OUT_NAN, None)
                else if (lt \<and> double_le curscore sc) \<or> (gt \<and> double_le sc curscore)
                then Some (ob, True, ZADD_OUT_NOP, None)
                else if \<not> double_eq sc curscore then do {
                  zl \<leftarrow> zzlDelete (o_alloc env) zl eptr;
                  zl \<leftarrow> zzlInsert (o_alloc env) fc zl el sc;
                  Some (ZListpack zl h, True, ZADD_OUT_UPDATED, Some sc)
                }
                else Some (ob, True, 0, Some sc)
              }
          | None \<Rightarrow>
              if \<not> xx then do {
                (zl, len) \<leftarrow> zzlLength zl;
                convert \<leftarrow> (if len + 1 > zset_max_listpack_entries cfg \<or> length el > zset_max_listpack_value cfg then Some True
                  else map_option Not (lpSafeToAdd (Some zl) (length el)));
                if convert then do {
                  (zl, len) \<leftarrow> zzlLength zl;
                  zs \<leftarrow> convert_to_skiplist fc cfg env zl h (len + 1);
                  (zs, r) \<leftarrow> zsetAdd fadd (o_env env) zs sc el in_flags;
                  Some (ZSkiplist zs, r)
                }
                else do {
                  zl \<leftarrow> zzlInsert (o_alloc env) fc zl el sc;
                  Some (ZListpack zl h, True, ZADD_OUT_ADDED, Some sc)
                }
              }
              else Some (ob, True, ZADD_OUT_NOP, None)
        })"

definition zobjDel :: "'s::{linorder, zero} fconv \<Rightarrow> zoenv \<Rightarrow> 's zobj \<Rightarrow> sds \<Rightarrow> ('s zobj \<times> bool) option" where
  "zobjDel fc env ob el =
     (case ob of
        ZListpack zl h \<Rightarrow> do {
          f \<leftarrow> zzlFind fc zl el False;
          case f of
            Some (eptr, _) \<Rightarrow> do { zl \<leftarrow> zzlDelete (o_alloc env) zl eptr; Some (ZListpack zl h, True) }
          | None \<Rightarrow> Some (ob, False)
        }
      | ZSkiplist zs \<Rightarrow> do { (zs, b) \<leftarrow> zsetDel (o_env env) zs el; Some (ZSkiplist zs, b) })"

definition zobjScore :: "'s::{linorder, zero} fconv \<Rightarrow> zoenv \<Rightarrow> 's zobj \<Rightarrow> sds \<Rightarrow> ('s zobj \<times> 's double option) option" where
  "zobjScore fc env ob member =
     (case ob of
        ZListpack zl h \<Rightarrow> do {
          f \<leftarrow> zzlFind fc zl member True;
          case f of Some (_, s) \<Rightarrow> Some (ob, s) | None \<Rightarrow> Some (ob, None)
        }
      | ZSkiplist zs \<Rightarrow> do { (zs, s) \<leftarrow> zsetScore (o_env env) zs member; Some (ZSkiplist zs, s) })"

partial_function (option) zzlRank_loop ::
  "bytes \<Rightarrow> sds \<Rightarrow> int option \<Rightarrow> int option \<Rightarrow> vencoding option \<Rightarrow> u64 \<Rightarrow> (int option \<times> int option \<times> u64) option" where
  "zzlRank_loop zl el eptr sptr cached rank =
     (case eptr of
        None \<Rightarrow> Some (None, sptr, rank)
      | Some p \<Rightarrow> do {
          (eq, cached) \<leftarrow> lpCompare zl p el cached;
          if eq then Some (eptr, sptr, rank)
          else do { (eptr, sptr) \<leftarrow> zzlNext zl eptr sptr; zzlRank_loop zl el eptr sptr cached (rank + 1) }
        })"

definition zobjRank :: "'s::{linorder, zero} fconv \<Rightarrow> zoenv \<Rightarrow> 's zobj \<Rightarrow> sds \<Rightarrow> bool \<Rightarrow> ('s zobj \<times> int \<times> 's double option) option" where
  "zobjRank fc env ob el reverse =
     (case ob of
        ZListpack zl h \<Rightarrow> do {
          (zl, llen) \<leftarrow> zzlLength zl;
          eptr \<leftarrow> lpSeek zl 0;
          p \<leftarrow> eptr;
          sptr \<leftarrow> lpNext zl p;
          _ \<leftarrow> sptr;
          (eptr, sptr, rank) \<leftarrow> zzlRank_loop zl el eptr sptr (Some NotTried) 1;
          if eptr \<noteq> None then do {
            sc \<leftarrow> zzlGetScore fc zl sptr;
            Some (ZListpack zl h, sint (if reverse then of_nat llen - rank else rank - 1), Some sc)
          }
          else Some (ZListpack zl h, -1, None)
        }
      | ZSkiplist zs \<Rightarrow> do { (zs, r) \<leftarrow> zsetRank (o_env env) zs el reverse; Some (ZSkiplist zs, r) })"

subsection \<open>The rank in a listpack\<close>

definition cache_ok :: "bytes \<Rightarrow> vencoding \<Rightarrow> bool" where
  "cache_ok s c \<longleftrightarrow> c = NotTried \<or> c = (case lpStringToInt64 s of Some v \<Rightarrow> IsInt v | None \<Rightarrow> NoInt)"

lemma lpCompare_rep:
  assumes rep: "zzl_rep fc zl ps" and i: "i < length ps" and c: "cache_ok el c"
  shows "\<exists>c'. lpCompare zl (epos fc ps i) el (Some c) = Some (snd (ps ! i) = el, Some c') \<and> cache_ok el c'"
proof -
  obtain b where b: "arr_get zl (epos fc ps i) = Some b" "b \<noteq> LP_EOF" using payload_first[OF zzl_entry(1,2)[OF rep i]] by auto
  from zzl_element_val[OF rep i] show ?thesis
  proof (elim disjE exE conjE)
    fix q assume q: "lpGetValue zl (epos fc ps i) = Some (LP_STR q (length (snd (ps ! i))))"
        "at_read zl q (length (snd (ps ! i))) = Some (snd (ps ! i))"
    then show ?thesis using b c lpGet_value[OF zzl_entry(1,2)[OF rep i]] by (auto simp: lpCompare_def)
  next
    fix v assume v: "lpGetValue zl (epos fc ps i) = Some (LP_INT v)" "LLONG_MIN \<le> v" "v \<le> LLONG_MAX" "snd (ps ! i) = dec_ll v"
    have "dec_ll v = el \<longleftrightarrow> lpStringToInt64 el = Some v" using v(2,3) by (auto simp: lpStringToInt64_eq string2ll_iff)
    then show ?thesis using b c v lpGet_value[OF zzl_entry(1,2)[OF rep i]]
      by (auto simp: lpCompare_def cache_ok_def Let_def split: option.splits)
  qed
qed

lemma zzlRank_loop_rep:
  assumes rep: "zzl_rep fc zl ps" and "i \<le> length ps" "cache_ok el c" "\<forall>j<i. snd (ps ! j) \<noteq> el"
  shows "\<exists>k sp rank. zzlRank_loop zl el (epos_opt fc ps i) (spos_opt fc ps i) (Some c) (of_nat (Suc i)) = Some (k, sp, rank) \<and>
    (case k of None \<Rightarrow> el \<notin> set (map snd ps)
     | Some _ \<Rightarrow> \<exists>j<length ps. snd (ps ! j) = el \<and> sp = Some (spos fc ps j) \<and> rank = of_nat (Suc j))"
  using assms(2-4)
proof (induction "length ps - i" arbitrary: i c)
  case 0
  then have "i = length ps" by simp
  moreover from this have "el \<notin> set (map snd ps)" using 0 by (force simp: in_set_conv_nth)
  ultimately show ?case by (simp add: zzlRank_loop.simps[of _ _ None] epos_opt_def)
next
  case (Suc n)
  then have i: "i < length ps" by simp
  obtain c' where c': "lpCompare zl (epos fc ps i) el (Some c) = Some (snd (ps ! i) = el, Some c')" "cache_ok el c'"
    using lpCompare_rep[OF rep i Suc.prems(2)] by blast
  show ?case
  proof (cases "snd (ps ! i) = el")
    case True
    then show ?thesis using i c'(1) by (subst zzlRank_loop.simps) (auto simp: epos_opt_def spos_opt_def)
  next
    case False
    have "zzlRank_loop zl el (epos_opt fc ps i) (spos_opt fc ps i) (Some c) (of_nat (Suc i)) =
        zzlRank_loop zl el (epos_opt fc ps (Suc i)) (spos_opt fc ps (Suc i)) (Some c') (of_nat (Suc (Suc i)))"
      using i False c'(1) zzlNext_rep[OF rep i] by (subst zzlRank_loop.simps) (simp add: epos_opt_def spos_opt_def add.commute)
    moreover have "\<forall>j<Suc i. snd (ps ! j) \<noteq> el" using False Suc.prems(3) by (auto simp: less_Suc_eq)
    ultimately show ?thesis using Suc.hyps(1)[of "Suc i" c'] Suc.hyps(2) i c'(2) by auto
  qed
qed

lemma zzl_rank:
  assumes fc: "fconv_ok fc" and rep: "zzl_rep fc zl ps" and ne: "ps \<noteq> []"
  shows "\<exists>zl'. zobjRank fc env (ZListpack zl h) el reverse =
      Some (ZListpack zl' h, abs_rank (pair_map ps) el reverse, map_option Num (pair_map ps el)) \<and> zzl_rep fc zl' ps"
proof -
  obtain zl' where zl': "zzlLength zl = Some (zl', length ps)" "zzl_rep fc zl' ps" using zzlLength_rep[OF rep] by blast
  have n0: "0 < length ps" using ne by simp
  have sorted: "sorted_wrt (<) (node_keys (pair_nodes ps))" and d: "distinct (map fst (node_index (pair_nodes ps)))" and small: "length ps \<le> 2 ^ 26"
    using rep by (auto simp: pair_nodes_lists zzl_rep_def zzl_bound_def)
  obtain k sp rank where k: "zzlRank_loop zl' el (epos_opt fc ps 0) (spos_opt fc ps 0) (Some NotTried) (of_nat (Suc 0)) = Some (k, sp, rank)"
      "case k of None \<Rightarrow> el \<notin> set (map snd ps) | Some _ \<Rightarrow> \<exists>j<length ps. snd (ps ! j) = el \<and> sp = Some (spos fc ps j) \<and> rank = of_nat (Suc j)"
    using zzlRank_loop_rep[OF zl'(2), of 0 el NotTried] by (auto simp: cache_ok_def)
  have run: "zobjRank fc env (ZListpack zl h) el reverse =
      (if k \<noteq> None then do {
         sc \<leftarrow> zzlGetScore fc zl' sp;
         Some (ZListpack zl' h, sint (if reverse then of_nat (length ps) - rank else rank - 1), Some sc)
       } else Some (ZListpack zl' h, -1, None))"
    using zl'(1) zzl_first[OF zl'(2)] zzl_next(1)[OF zl'(2) n0] k(1) n0 by (simp add: zobjRank_def epos_opt_def spos_opt_def)
  show ?thesis
  proof (cases k)
    case None
    then have "pair_map ps el = None" using k(2) by (simp add: pair_map_None)
    then show ?thesis using run None zl'(2) by (simp add: abs_rank_def)
  next
    case (Some p)
    then obtain j where j: "j < length ps" "snd (ps ! j) = el" "sp = Some (spos fc ps j)" "rank = of_nat (Suc j)" using k(2) by auto
    obtain s where s: "ps ! j = (s, el)" using j(2) by (cases "ps ! j") simp
    have "pair_nodes ps ! j = (0, 1, s, el)" using j(1) s by (simp add: pair_nodes_def)
    then have "abs_rank (pair_map ps) el reverse = int (if reverse then length ps - Suc j else j)"
      using abs_rank_nodes[OF sorted d _, of j 0 1 s el reverse] j(1) by (simp add: pair_nodes_lists)
    moreover have "(if reverse then of_nat (length ps) - rank else rank - 1) = (of_nat (if reverse then length ps - Suc j else j) :: u64)"
      using j by (simp add: of_nat_diff)
    moreover have "(if reverse then length ps - Suc j else j) < 2 ^ 63" using j(1) small by auto
    ultimately have "sint (if reverse then of_nat (length ps) - rank else rank - 1) = abs_rank (pair_map ps) el reverse" using sint_small_nat by (simp only:)
    moreover have "pair_map ps el = Some s" using pair_map_iff[of ps el s] rep j(1) s by (auto simp: zzl_rep_def)
    ultimately show ?thesis using run Some zl'(2) zzlGetScore_rep[OF fc zl'(2) j(1)] j(3) s by simp
  qed
qed

subsection \<open>The contract\<close>

definition zobj_rep :: "'s::{linorder, zero} fconv \<Rightarrow> zconf \<Rightarrow> 's zobj \<Rightarrow> (sds \<rightharpoonup> 's) \<Rightarrow> bool" where
  "zobj_rep fc cfg ob m \<longleftrightarrow> fconv_ok fc \<and> zset_max_listpack_entries cfg \<le> 2 ^ 26 \<and>
     (case ob of
        ZListpack zl h \<Rightarrow> \<exists>ps. zzl_rep fc zl ps \<and> length ps \<le> zset_max_listpack_entries cfg \<and> m = pair_map ps
      | ZSkiplist zs \<Rightarrow> zset_rep zs m)"

text \<open>The resources of an operation that may convert the object: addresses and tower heights for all nodes.\<close>

definition zo_ready :: "zconf \<Rightarrow> 's zheap \<Rightarrow> zoenv \<Rightarrow> bool" where
  "zo_ready cfg h env \<longleftrightarrow> zset_max_listpack_entries cfg \<le> length (o_nodes env) \<and> distinct (zo_addrs env) \<and> (\<forall>a\<in>set (zo_addrs env). h a = None) \<and>
     (\<forall>e\<in>set (o_env env # o_nodes env). zslRandomLevel (e_random e) \<noteq> None)"

definition zo_usable :: "zconf \<Rightarrow> 's zobj \<Rightarrow> zoenv \<Rightarrow> bool" where
  "zo_usable cfg ob env \<longleftrightarrow>
     (case ob of
        ZListpack zl h \<Rightarrow> zo_ready cfg h env
      | ZSkiplist zs \<Rightarrow> z_usable zs (o_env env))"

definition zo_apart :: "zoenv \<Rightarrow> zoenv \<Rightarrow> bool" where
  "zo_apart env env' \<longleftrightarrow> set (zo_addrs env) \<inter> set (zo_addrs env') = {}"

definition zo_allowed :: "(sds \<rightharpoonup> 's) \<Rightarrow> ('e, 's) zset_op \<Rightarrow> bool" where
  "zo_allowed m op \<longleftrightarrow> (case op of ZRank _ _ _ \<Rightarrow> m \<noteq> Map.empty | _ \<Rightarrow> True)"

lemma finite_pair_map: "finite (dom (pair_map ps))"
  by (simp add: pair_map_def finite_dom_map_of)

text \<open>Addition to a listpack when the element is there: the same decisions as for a skip list.\<close>

lemma zzl_add_found:
  assumes fc: "fconv_ok fc" and rep: "zzl_rep fc zl ps" and i: "i < length ps" "ps ! i = (c, el)"
    and find: "zzlFind fc zl el True = Some (Some (epos fc ps i, Some (Num c)))"
  shows "\<exists>zl' ps' b out new. zobjAdd fadd fc cfg env (ZListpack zl h) (Num s) el flags = Some (ZListpack zl' h, b, out, new) \<and>
    zzl_rep fc zl' ps' \<and> length ps' = length ps \<and> abs_zadd fadd (pair_map ps) (Num s) el flags = (pair_map ps', Added b out new)"
proof -
  define x where "x = (if flags AND ZADD_IN_INCR \<noteq> 0 then fadd (Num s) (Num c) else Num s)"
  define upd where "upd = do {
         zl \<leftarrow> zzlDelete (o_alloc env) zl (epos fc ps i);
         zl \<leftarrow> zzlInsert (o_alloc env) fc zl el x;
         Some (ZListpack zl h, True, ZADD_OUT_UPDATED, Some x) }"
  have run: "zobjAdd fadd fc cfg env (ZListpack zl h) (Num s) el flags =
      zadd_branch flags x c (Some (ZListpack zl h, True, ZADD_OUT_NOP, None)) (Some (ZListpack zl h, False, ZADD_OUT_NAN, None))
        upd (Some (ZListpack zl h, True, 0, Some x))"
    unfolding zobjAdd_def Let_def isnan.simps if_False zobj.case find bind.bind_lunit prod.case option.case x_def zadd_branch_def upd_def by (rule refl)
  have "pair_map ps el = Some c" using pair_map_iff[of ps el c] rep i by (auto simp: zzl_rep_def)
  from zadd_branch_cases[where m = "pair_map ps" and el = el and c = c and fadd = fadd and s = s and flags = flags and x = x
      and nop = "Some (ZListpack zl h, True, ZADD_OUT_NOP, None)" and nan = "Some (ZListpack zl h, False, ZADD_OUT_NAN, None)"
      and upd = upd and same = "Some (ZListpack zl h, True, 0, Some x)", OF this x_def]
  show ?thesis
  proof cases
    case (3 y)
    obtain zl1 zl' ps' where u: "zzlDelete (o_alloc env) zl (epos fc ps i) = Some zl1" "zzlInsert (o_alloc env) fc zl1 el (Num y) = Some zl'"
        "zzl_rep fc zl' ps'" "pair_map ps' = (pair_map ps)(el \<mapsto> y)" "length ps' = length ps"
      using zzl_update[OF fc rep i] by blast
    have "zobjAdd fadd fc cfg env (ZListpack zl h) (Num s) el flags = Some (ZListpack zl' h, True, ZADD_OUT_UPDATED, Some (Num y))"
      using run 3(1,2) u(1,2) by (simp add: upd_def)
    then show ?thesis using u(3-5) 3(3) by metis
  qed (use run rep in \<open>metis+\<close>)
qed

lemma ele_bytes_le_body: "ele_bytes ps \<le> length (body (zzl_payloads fc ps))"
  by (induction ps) (simp_all add: ele_bytes_def pair_payloads_def)

lemma entry_length:
  assumes "length el + 5 < 2 ^ 32"
  shows "length (entry (lp_encode el)) \<le> length el + 10"
  using entry_weight[of "lp_encode el"] lp_encode_str[of el] assms by (simp add: lp_weight_def)

lemma zzl_add_small:
  assumes rep: "zzl_rep fc zl ps" and safe: "lpSafeToAdd (Some zl) (length el) = Some True"
  shows "length el < 2 ^ 31" "ele_bytes ps + length (entry (lp_encode el)) \<le> 2 ^ 30 + 10 * 2 ^ 26"
proof -
  have "lpGetTotalBytes zl = Some (length (body (zzl_payloads fc ps)) + 7)" using rep unfolding zzl_rep_def by (auto elim: lp_repE)
  then have l: "length (body (zzl_payloads fc ps)) + 7 + length el \<le> 2 ^ 30" using safe by (auto simp: lpSafeToAdd_def)
  then show "length el < 2 ^ 31" by simp
  have "length (entry (lp_encode el)) \<le> length el + 10" using l by (intro entry_length) simp
  then show "ele_bytes ps + length (entry (lp_encode el)) \<le> 2 ^ 30 + 10 * 2 ^ 26" using l ele_bytes_le_body[of ps fc] by simp
qed

text \<open>A new element either fits into the listpack or makes the object a skip list first.\<close>

lemma zzl_add_new:
  assumes fc: "fconv_ok fc" and max: "zset_max_listpack_entries cfg \<le> 2 ^ 26" and rep: "zzl_rep fc zl ps" "length ps \<le> zset_max_listpack_entries cfg"
    and ready: "zo_ready cfg h env" and el: "el \<notin> set (map snd ps)" and find: "zzlFind fc zl el True = Some None" and xx: "flags AND ZADD_IN_XX = 0"
  shows "\<exists>ob' b out new. zobjAdd fadd fc cfg env (ZListpack zl h) (Num s) el flags = Some (ob', b, out, new) \<and>
    zobj_rep fc cfg ob' (fst (abs_zadd fadd (pair_map ps) (Num s) el flags)) \<and> snd (abs_zadd fadd (pair_map ps) (Num s) el flags) = Added b out new \<and>
    (\<forall>e. zo_ready cfg h e \<longrightarrow> zo_apart env e \<longrightarrow> zo_usable cfg ob' e)"
proof -
  have abs: "abs_zadd fadd (pair_map ps) (Num s) el flags = ((pair_map ps)(el \<mapsto> s), Added True ZADD_OUT_ADDED (Some (Num s)))"
    using el xx pair_map_None[of ps el] by (simp add: abs_zadd_def)
  obtain zl1 where zl1: "zzlLength zl = Some (zl1, length ps)" "zzl_rep fc zl1 ps" using zzlLength_rep[OF rep(1)] by blast
  obtain zl2 where zl2: "zzlLength zl1 = Some (zl2, length ps)" "zzl_rep fc zl2 ps" using zzlLength_rep[OF zl1(2)] by blast
  obtain safe where safe: "lpSafeToAdd (Some zl1) (length el) = Some safe"
    using zl1(2) unfolding zzl_rep_def by (auto elim!: lp_repE simp: lpSafeToAdd_def)
  define conv where "conv \<longleftrightarrow> length ps + 1 > zset_max_listpack_entries cfg \<or> length el > zset_max_listpack_value cfg \<or> \<not> safe"
  have run: "zobjAdd fadd fc cfg env (ZListpack zl h) (Num s) el flags =
      (if conv then do {
         zs \<leftarrow> convert_to_skiplist fc cfg env zl2 h (length ps + 1);
         (zs, r) \<leftarrow> zsetAdd fadd (o_env env) zs (Num s) el flags;
         Some (ZSkiplist zs, r) }
       else do { zl \<leftarrow> zzlInsert (o_alloc env) fc zl1 el (Num s); Some (ZListpack zl h, True, ZADD_OUT_ADDED, Some (Num s)) })"
    using xx find zl1(1) zl2(1) safe by (simp add: zobjAdd_def conv_def)
  show ?thesis
  proof (cases conv)
    case False
    then have sm: "length el < 2 ^ 31" "ele_bytes ps + length (entry (lp_encode el)) \<le> 2 ^ 30 + 10 * 2 ^ 26" "length ps < 2 ^ 26"
      using zzl_add_small[OF zl1(2)] safe max by (auto simp: conv_def)
    obtain zl' ps' where i: "zzlInsert (o_alloc env) fc zl1 el (Num s) = Some zl'" "zzl_rep fc zl' ps'"
        "pair_map ps' = (pair_map ps)(el \<mapsto> s)" "length ps' = Suc (length ps)"
      using zzlInsert_rep[OF fc zl1(2) sm(1) el sm(2,3)] by blast
    have "zobj_rep fc cfg (ZListpack zl' h) (pair_map ps')" using i(2,4) fc max False by (auto simp: zobj_rep_def conv_def)
    then show ?thesis using run False i(1,3) abs by (auto simp: zo_usable_def)
  next
    case True
    have r: "length ps \<le> length (o_nodes env)" "\<forall>a\<in>set (zo_addrs env). h a = None" "distinct (zo_addrs env)"
        "\<forall>e\<in>set (o_nodes env). zslRandomLevel (e_random e) \<noteq> None" "zslRandomLevel (e_random (o_env env)) \<noteq> None"
      using ready rep(2) by (auto simp: zo_ready_def)
    obtain zs where zs: "convert_to_skiplist fc cfg env zl2 h (length ps + 1) = Some zs" "zset_rep zs (pair_map ps)"
        "\<forall>e. h (e_addr e) = None \<longrightarrow> zslRandomLevel (e_random e) \<noteq> None \<longrightarrow>
           e_addr e \<notin> insert (o_header env) (e_addr ` set (o_nodes env)) \<longrightarrow> z_usable zs e"
      using convert_to_skiplist_rep[OF fc zl2(2) r(1-4), of cfg "length ps + 1"] by blast
    obtain ns where ns: "zset_nodes zs ns" "pair_map ps = map_of (node_scores ns)" using zs(2) by (auto simp: zset_rep_def)
    have "card (dom (pair_map ps)) \<le> length ps"
      using card_scores[of "pair_nodes ps"] rep(1) by (simp add: pair_nodes_lists zzl_rep_def)
    then have small: "Suc (length ns) < 2 ^ 64" using card_scores[OF zset_nodesD(2)[OF ns(1)]] ns(2) rep(2) max by simp
    have "z_usable zs (o_env env)" using zs(3) r(2,3,5) by (auto simp: zo_addrs_def)
    then obtain zs' ns' b out new where add: "zsetAdd fadd (o_env env) zs (Num s) el flags = Some (zs', b, out, new)" "zset_nodes zs' ns'"
        "abs_zadd fadd (pair_map ps) (Num s) el flags = (map_of (node_scores ns'), Added b out new)" "\<forall>e. z_usable zs e \<longrightarrow> z_apart (o_env env) e \<longrightarrow> z_usable zs' e"
      using zsetAdd_rep[OF ns(1) _ small] ns(2) by metis
    have us: "zo_usable cfg (ZSkiplist zs') e" if "zo_ready cfg h e" "zo_apart env e" for e
    proof -
      have "z_usable zs (o_env e)" using zs(3) that by (auto simp: zo_ready_def zo_addrs_def zo_apart_def)
      moreover have "z_apart (o_env env) (o_env e)" using that(2) by (auto simp: zo_apart_def zo_addrs_def z_apart_def)
      ultimately show ?thesis using add(4) by (simp add: zo_usable_def)
    qed
    have "zobj_rep fc cfg (ZSkiplist zs') (map_of (node_scores ns'))" using zset_nodes_rep[OF add(2)] fc max by (simp add: zobj_rep_def)
    then show ?thesis using run True zs(1) add(1,3) us by auto
  qed
qed

lemma zobjAdd_rep:
  assumes rep: "zobj_rep fc cfg (ZListpack zl h) m" and ready: "zo_ready cfg h env"
  shows "\<exists>ob' b out new. zobjAdd fadd fc cfg env (ZListpack zl h) sc el flags = Some (ob', b, out, new) \<and>
    zobj_rep fc cfg ob' (fst (abs_zadd fadd m sc el flags)) \<and> snd (abs_zadd fadd m sc el flags) = Added b out new \<and>
    (\<forall>e. zo_ready cfg h e \<longrightarrow> zo_apart env e \<longrightarrow> zo_usable cfg ob' e)"
proof (cases sc)
  case NaN
  then show ?thesis using rep by (auto simp: zobjAdd_def abs_zadd_def zo_usable_def)
next
  case (Num s)
  obtain ps where fc: "fconv_ok fc" and max: "zset_max_listpack_entries cfg \<le> 2 ^ 26" and ps: "zzl_rep fc zl ps"
      "length ps \<le> zset_max_listpack_entries cfg" "m = pair_map ps"
    using rep by (auto simp: zobj_rep_def)
  from zzlFind_rep[OF fc ps(1), of el True] show ?thesis
  proof (elim disjE exE conjE)
    assume no: "pair_map ps el = None" "el \<notin> set (map snd ps)" "zzlFind fc zl el True = Some None"
    show ?thesis
    proof (cases "flags AND ZADD_IN_XX = 0")
      case True
      then show ?thesis using zzl_add_new[OF fc max ps(1,2) ready no(2,3) True, of fadd s] Num ps(3) by simp
    next
      case False
      then show ?thesis using no rep Num ps(3) by (auto simp: zobjAdd_def abs_zadd_def zo_usable_def)
    qed
  next
    fix i c assume i: "i < length ps" "ps ! i = (c, el)" "zzlFind fc zl el True = Some (Some (epos fc ps i, if True then Some (Num c) else None))"
    obtain zl' ps' b out new where f: "zobjAdd fadd fc cfg env (ZListpack zl h) (Num s) el flags = Some (ZListpack zl' h, b, out, new)"
        "zzl_rep fc zl' ps'" "length ps' = length ps" "abs_zadd fadd (pair_map ps) (Num s) el flags = (pair_map ps', Added b out new)"
      using zzl_add_found[OF fc ps(1) i(1,2)] i(3) by (simp only: if_True) blast
    have "zobj_rep fc cfg (ZListpack zl' h) (pair_map ps')" using f(2,3) fc max ps(2) by (auto simp: zobj_rep_def)
    then show ?thesis using f(1,4) Num ps(3) by (simp add: zo_usable_def)
  qed
qed

lemma zobjDel_rep:
  assumes rep: "zobj_rep fc cfg (ZListpack zl h) m"
  shows "\<exists>zl'. zobjDel fc env (ZListpack zl h) el = Some (ZListpack zl' h, m el \<noteq> None) \<and> zobj_rep fc cfg (ZListpack zl' h) (m(el := None))"
proof -
  obtain ps where fc: "fconv_ok fc" and max: "zset_max_listpack_entries cfg \<le> 2 ^ 26" and ps: "zzl_rep fc zl ps"
      "length ps \<le> zset_max_listpack_entries cfg" "m = pair_map ps"
    using rep by (auto simp: zobj_rep_def)
  from zzlFind_rep[OF fc ps(1), of el False] show ?thesis
  proof (elim disjE exE conjE)
    assume no: "pair_map ps el = None" "el \<notin> set (map snd ps)" "zzlFind fc zl el False = Some None"
    then show ?thesis using rep ps(3) by (simp add: zobjDel_def fun_upd_idem)
  next
    fix i c assume i: "i < length ps" "ps ! i = (c, el)" "pair_map ps el = Some c" "zzlFind fc zl el False = Some (Some (epos fc ps i, if False then Some (Num c) else None))"
    note D = zzl_delete_map[OF ps(1) i(1,2)]
    obtain zl' where zl': "zzlDelete (o_alloc env) zl (epos fc ps i) = Some zl'" "zzl_rep fc zl' (del_at i ps)" using D(1) by blast
    have "length (del_at i ps) \<le> zset_max_listpack_entries cfg" using ps(2) i(1) by (simp add: le_diff_conv)
    then have "zobj_rep fc cfg (ZListpack zl' h) (m(el := None))" using zl'(2) D(2) fc max ps(3) by (auto simp: zobj_rep_def)
    then show ?thesis using zl'(1) i(3,4) ps(3) by (simp add: zobjDel_def)
  qed
qed

fun zobj_step ::
  "('s double \<Rightarrow> 's double \<Rightarrow> 's double) \<Rightarrow> 's::{linorder, zero} fconv \<Rightarrow> zconf \<Rightarrow> 's zobj \<Rightarrow> (zoenv, 's) zset_op \<Rightarrow>
   ('s zobj \<times> 's zset_res) option" where
  "zobj_step fadd fc cfg ob (ZAdd env sc k flags) = map_option (\<lambda>(ob, b, out, new). (ob, Added b out new)) (zobjAdd fadd fc cfg env ob sc k flags)"
| "zobj_step fadd fc cfg ob (ZRem env k) = map_option (apsnd Removed) (zobjDel fc env ob k)"
| "zobj_step fadd fc cfg ob (ZScore env k) = map_option (apsnd Score) (zobjScore fc env ob k)"
| "zobj_step fadd fc cfg ob (ZRank env k reverse) = map_option (\<lambda>(ob, r, sc). (ob, Rank r sc)) (zobjRank fc env ob k reverse)"

text \<open>In the skip list encoding the operations are those of the previous section.\<close>

primrec skiplist_op :: "(zoenv, 's) zset_op \<Rightarrow> (zenv, 's) zset_op" where
  "skiplist_op (ZAdd env sc k flags) = ZAdd (o_env env) sc k flags"
| "skiplist_op (ZRem env k) = ZRem (o_env env) k"
| "skiplist_op (ZScore env k) = ZScore (o_env env) k"
| "skiplist_op (ZRank env k reverse) = ZRank (o_env env) k reverse"

lemma zobj_step_skiplist:
  "zobj_step fadd fc cfg (ZSkiplist zs) op = map_option (\<lambda>(zs, r). (ZSkiplist zs, r)) (zset_step fadd zs (skiplist_op op))"
  "op_env (skiplist_op op) = o_env (op_env op)" "abs_zset_step fadd m (skiplist_op op) = abs_zset_step fadd m op"
proof -
  show "zobj_step fadd fc cfg (ZSkiplist zs) op = map_option (\<lambda>(zs, r). (ZSkiplist zs, r)) (zset_step fadd zs (skiplist_op op))"
  proof (cases op)
    case (ZAdd env sc k flags)
    show ?thesis
    proof (cases "isnan sc")
      case True
      then show ?thesis using ZAdd by (simp add: zobjAdd_def zsetAdd_def Let_def)
    next
      case False
      then show ?thesis using ZAdd
        by (cases "zsetAdd fadd (o_env env) zs sc k flags") (auto simp: zobjAdd_def Let_def)
    qed
  next
    case (ZRem env k)
    then show ?thesis by (cases "zsetDel (o_env env) zs k") (auto simp: zobjDel_def)
  next
    case (ZScore env k)
    then show ?thesis by (cases "zsetScore (o_env env) zs k") (auto simp: zobjScore_def)
  next
    case (ZRank env k reverse)
    then show ?thesis by (cases "zsetRank (o_env env) zs k reverse") (auto simp: zobjRank_def)
  qed
  show "op_env (skiplist_op op) = o_env (op_env op)" "abs_zset_step fadd m (skiplist_op op) = abs_zset_step fadd m op"
    by (cases op; simp)+
qed

lemma zobj_step_listpack:
  assumes rep: "zobj_rep fc cfg (ZListpack zl h) m" and allowed: "zo_allowed m op" and ready: "zo_ready cfg h (op_env op)"
  shows "\<exists>ob' r. zobj_step fadd fc cfg (ZListpack zl h) op = Some (ob', r) \<and>
    (case abs_zset_step fadd m op of (m', r') \<Rightarrow> zobj_rep fc cfg ob' m' \<and> r = r') \<and>
    (\<forall>e. zo_ready cfg h e \<longrightarrow> zo_apart (op_env op) e \<longrightarrow> zo_usable cfg ob' e)"
proof -
  obtain ps where fc: "fconv_ok fc" and max: "zset_max_listpack_entries cfg \<le> 2 ^ 26" and ps: "zzl_rep fc zl ps"
      "length ps \<le> zset_max_listpack_entries cfg" "m = pair_map ps"
    using rep by (auto simp: zobj_rep_def)
  show ?thesis
  proof (cases op)
    case (ZAdd env sc k flags)
    then show ?thesis using zobjAdd_rep[OF rep, of env fadd sc k flags] ready by (force simp: case_prod_beta)
  next
    case (ZRem env k)
    then show ?thesis using zobjDel_rep[OF rep, of env k] by (auto simp: zo_usable_def)
  next
    case (ZScore env k)
    have "zobjScore fc env (ZListpack zl h) k = Some (ZListpack zl h, map_option Num (m k))"
      using zzlFind_rep[OF fc ps(1), of k True] ps(3) by (auto simp: zobjScore_def)
    then show ?thesis using ZScore rep by (simp add: zo_usable_def)
  next
    case (ZRank env k reverse)
    then have "ps \<noteq> []" using allowed ps(3) by (auto simp: zo_allowed_def pair_map_def)
    from zzl_rank[OF fc ps(1) this, of env h k reverse] show ?thesis
      using ZRank fc max ps by (auto simp: zo_usable_def zobj_rep_def)
  qed
qed

interpretation zo: sorted_set fadd "zobj_step fadd fc cfg" "zobj_rep fc cfg" "zo_usable cfg" zo_apart zo_allowed "2 ^ 63"
  for fadd :: "'s::{linorder, zero} double \<Rightarrow> 's double \<Rightarrow> 's double" and fc cfg
proof (unfold_locales, goal_cases)
  case (1 ob m)
  then show ?case using zs.finite_rep finite_pair_map by (auto simp: zobj_rep_def split: zobj.splits)
next
  case (2 ob m op)
  show ?case
  proof (cases ob)
    case (ZListpack zl h)
    then show ?thesis using zobj_step_listpack[of fc cfg zl h m op fadd] 2 by (simp add: zo_usable_def)
  next
    case (ZSkiplist zs)
    have z: "zset_rep zs m" "z_usable zs (op_env (skiplist_op op))" using 2(1,3) ZSkiplist by (simp_all add: zobj_rep_def zo_usable_def zobj_step_skiplist)
    obtain zs' r where s: "zset_step fadd zs (skiplist_op op) = Some (zs', r)" "case abs_zset_step fadd m op of (m', r') \<Rightarrow> zset_rep zs' m' \<and> r = r'"
        "\<forall>e. z_usable zs e \<longrightarrow> z_apart (o_env (op_env op)) e \<longrightarrow> z_usable zs' e"
      using zs.step_ok[OF z(1) _ z(2) 2(4), of fadd] unfolding zobj_step_skiplist(2,3) by auto
    have "z_apart (o_env (op_env op)) (o_env e)" if "zo_apart (op_env op) e" for e
      using that by (auto simp: zo_apart_def zo_addrs_def z_apart_def)
    then show ?thesis using s 2(1) ZSkiplist by (auto simp: zobj_step_skiplist(1) zobj_rep_def zo_usable_def)
  qed
qed

subsection \<open>Creation\<close>

definition zsetTypeCreate ::
  "zconf \<Rightarrow> dictResizeEnable \<Rightarrow> allocator \<Rightarrow> 's::zero zheap \<Rightarrow> addr \<Rightarrow> nat \<Rightarrow> nat \<Rightarrow> 's zobj option" where
  "zsetTypeCreate cfg r A h a size_hint val_len_hint =
     (if size_hint \<le> zset_max_listpack_entries cfg \<and> val_len_hint \<le> zset_max_listpack_value cfg
      then do { zl \<leftarrow> lpNew A 0; Some (ZListpack zl h) }
      else do {
        zs \<leftarrow> createZset (zsetDictType cfg) h a;
        (d, _) \<leftarrow> dictExpand r (z_dict zs) size_hint;
        Some (ZSkiplist (zs\<lparr>z_dict := d\<rparr>))
      })"

lemma zsetTypeCreate_rep:
  assumes "fconv_ok fc" "zset_max_listpack_entries cfg \<le> 2 ^ 26" "h a = None"
  shows "\<exists>ob. zsetTypeCreate cfg r A h a size_hint val_hint = Some ob \<and> zobj_rep fc cfg ob Map.empty \<and>
    (\<forall>e. zo_ready cfg h e \<longrightarrow> a \<notin> set (zo_addrs e) \<longrightarrow> zo_usable cfg ob e)"
proof (cases "size_hint \<le> zset_max_listpack_entries cfg \<and> val_hint \<le> zset_max_listpack_value cfg")
  case True
  obtain zl where zl: "lpNew A 0 = Some zl" "lp_rep zl []" using lpNew_rep by blast
  then have "zzl_rep fc zl []" by (simp add: zzl_rep_def zzl_bound_def ele_bytes_def)
  then have "zobj_rep fc cfg (ZListpack zl h) Map.empty" using assms by (auto simp: zobj_rep_def pair_map_def intro!: exI[of _ "[]"])
  then show ?thesis using True zl(1) by (simp add: zsetTypeCreate_def zo_usable_def)
next
  case False
  obtain zs where zs: "createZset (zsetDictType cfg) h a = Some zs" "zset_rep zs Map.empty" "\<forall>y. y \<noteq> a \<longrightarrow> z_heap zs y = h y"
    using createZset_rep[of h a "zsetDictType cfg"] assms(3) by auto
  obtain ns where ns: "zset_nodes zs ns" "Map.empty = map_of (node_scores ns)" using zs(2) by (auto simp: zset_rep_def)
  obtain d ok where d: "dictExpand r (z_dict zs) size_hint = Some (d, ok)" "dict_same (z_dict zs) d"
    using dictExpand_spec[OF zset_nodesD(3)[OF ns(1)], of r size_hint] by auto
  have "zobj_rep fc cfg (ZSkiplist (zs\<lparr>z_dict := d\<rparr>)) Map.empty"
    using assms zset_nodes_rep[OF zset_same_dict[OF ns(1) d(2)]] ns(2) by (simp add: zobj_rep_def)
  moreover have "zo_usable cfg (ZSkiplist (zs\<lparr>z_dict := d\<rparr>)) e" if "zo_ready cfg h e" "a \<notin> set (zo_addrs e)" for e
    using that zs(3) by (auto simp: zo_usable_def zo_ready_def zo_addrs_def z_usable_def)
  ultimately show ?thesis using False zs(1) d(1) by (auto simp: zsetTypeCreate_def)
qed

text \<open>
  C1: a sorted set object that starts as a listpack or a skip list, as the size hints ask, and changes from the listpack to
  the skip list when the configured limits or the safety limit of listpacks are exceeded, behaves as one map from
  elements to scores under any sequence of additions with any flags, removals, score and rank queries that never asks
  for a rank in an empty set (the code asserts that there is an element): the encoding is not observable, no step fails,
  and no listpack operation runs into its size limit. The configured number of listpack entries is at most \<open>2\<^sup>2\<^sup>6\<close>
  (beyond, updates of scores, which the code does not guard, may exceed the limit of a listpack), and the C casts, the printer of
  \<^verbatim>\<open>deps/fpconv\<close> and the parser \<open>fast_float_strtod\<close> satisfy the laws \<^const>\<open>fconv_ok\<close>.
\<close>

theorem zobj_run_correct:
  assumes "fconv_ok fc" "zset_max_listpack_entries cfg \<le> 2 ^ 26" "h a = None"
    "\<forall>op\<in>set ops. zo_ready cfg h (op_env op) \<and> a \<notin> set (zo_addrs (op_env op))" "sorted_wrt zo_apart (map op_env ops)"
    "allowed_ops fadd zo_allowed Map.empty ops" "length ops < 2 ^ 63"
  shows "\<exists>ob ob'. zsetTypeCreate cfg r A h a size_hint val_len_hint = Some ob \<and>
    run_zset_ops (zobj_step fadd fc cfg) ob ops = Some (ob', snd (abs_zset_ops fadd Map.empty ops)) \<and>
    zobj_rep fc cfg ob' (fst (abs_zset_ops fadd Map.empty ops))"
proof -
  obtain ob where ob: "zsetTypeCreate cfg r A h a size_hint val_len_hint = Some ob" "zobj_rep fc cfg ob Map.empty"
      "\<forall>e. zo_ready cfg h e \<longrightarrow> a \<notin> set (zo_addrs e) \<longrightarrow> zo_usable cfg ob e"
    using zsetTypeCreate_rep[OF assms(1,2), of h a r A size_hint val_len_hint] assms(3) by blast
  have "\<forall>op\<in>set ops. zo_usable cfg ob (op_env op)" using assms(4) ob(3) by blast
  then show ?thesis using zo.run_refines[OF ob(2) _ assms(5), of fadd] assms(6,7) ob(1) by (auto simp: case_prod_beta)
qed

text \<open>Scores of one byte: numbers below 100 are stored as integers, the others as text.\<close>

definition example_of_ll :: "int \<Rightarrow> u8" where
  "example_of_ll v = (if v < 0 then 0 else if v > 255 then 255 else word_of_int v)"

definition example_fconv :: "u8 fconv" where
  "example_fconv =
     \<lparr>fc_of_ll = (\<lambda>v. Num (example_of_ll v)),
      fc_to_ll = (\<lambda>d. case d of Num s \<Rightarrow> if s < 100 then uint s else 0 | NaN \<Rightarrow> 0),
      fc_isinf = (\<lambda>_. False), fc_recip_neg = (\<lambda>_. False),
      fc_dtoa = (\<lambda>d. case d of Num s \<Rightarrow> [0, s] | NaN \<Rightarrow> []),
      fc_strtod = (\<lambda>t. case string2ll t of Some v \<Rightarrow> Num (example_of_ll v) | None \<Rightarrow> if t = text_bytes ''-0'' then Num 0 else Num (last t))\<rparr>"

lemma example_fconv_ok: "fconv_ok example_fconv"
proof -
  have limits: "example_of_ll (- (LLONG_MAX div 2)) = 0" "example_of_ll (LLONG_MAX div 2) = 255" "example_of_ll 0 = 0"
    by (simp_all add: example_of_ll_def LLONG_MAX_def)
  have top: "\<not> 255 < s" for s :: u8
  proof -
    have "s \<le> - 1" by (rule word_order.extremum)
    moreover have "(- 1 :: u8) = 255" by simp
    ultimately show ?thesis by (metis linorder_not_less)
  qed
  have small: "LLONG_MIN \<le> uint s \<and> uint s \<le> LLONG_MAX" for s :: u8
  proof -
    have "0 \<le> uint s" "uint s < 2 ^ 8" using uint_lt2p[of s] by simp_all
    moreover have "- (2 ^ 63) \<le> (0 :: int)" "2 ^ 8 \<le> (2 ^ 63 - 1 :: int)" by simp_all
    ultimately show ?thesis unfolding ll_limits by linarith
  qed
  have none: "string2ll [0, s] = None" for s :: u8 by (simp add: string2ll_def LONG_STR_SIZE_def is_digit_def)
  have zero: "string2ll (text_bytes ''-0'') = None" by (simp add: string2ll_def text_bytes_def LONG_STR_SIZE_def is_digit_def)
  have ne: "[0, s] \<noteq> text_bytes ''-0''" for s :: u8 by (simp add: text_bytes_def)
  show ?thesis unfolding fconv_ok_def using limits top small none zero ne ll_limits by (simp add: example_fconv_def)
qed

definition example_conf :: zconf where
  "example_conf = \<lparr>zset_max_listpack_entries = 2, zset_max_listpack_value = 64, zsetDictType = example_dict_type\<rparr>"

definition example_zoenv :: "nat \<Rightarrow> zoenv" where
  "example_zoenv n = \<lparr>o_env = example_env (4 * n + 1) [2147483647], o_alloc = example_alloc, o_header = 4 * n + 2,
     o_nodes = [example_env (4 * n + 3) [7, 2147483647], example_env (4 * n + 4) [2147483647]]\<rparr>"

fun byte_add :: "u8 double \<Rightarrow> u8 double \<Rightarrow> u8 double" where
  "byte_add (Num a) (Num b) = Num (a + b)"
| "byte_add _ _ = NaN"

definition example_zobj_ops :: "(zoenv, u8) zset_op list" where
  "example_zobj_ops =
     [ZAdd (example_zoenv 0) (Num 5) [98] 0,
      ZAdd (example_zoenv 1) (Num 200) [97] 0,
      ZRank (example_zoenv 2) [97] True,
      ZAdd (example_zoenv 3) (Num 3) [98] ZADD_IN_INCR,
      ZAdd (example_zoenv 4) (Num 7) [99] 0,
      ZRem (example_zoenv 5) [97],
      ZScore (example_zoenv 6) [98]]"

lemma example_byte_rank: "abs_rank [[98 :: u8] \<mapsto> 5 :: u8, [97] \<mapsto> 200] [97] True = 0"
proof -
  have "{e. \<exists>t. [[98 :: u8] \<mapsto> 5 :: u8, [97] \<mapsto> 200] e = Some t \<and> (200, [97]) < (t, e)} = {}" by (auto split: if_splits)
  then show ?thesis by (simp add: abs_rank_def)
qed

theorem zobj_run_correct_witness:
  "\<exists>ob ob'. zsetTypeCreate example_conf DICT_RESIZE_ENABLE example_alloc Map.empty 0 1 1 = Some ob \<and>
    run_zset_ops (zobj_step byte_add example_fconv example_conf) ob example_zobj_ops =
      Some (ob', [Added True ZADD_OUT_ADDED (Some (Num 5)), Added True ZADD_OUT_ADDED (Some (Num 200)), Rank 0 (Some (Num 200)),
        Added True ZADD_OUT_UPDATED (Some (Num 8)), Added True ZADD_OUT_ADDED (Some (Num 7)), Removed True, Score (Some (Num 8))]) \<and>
    zobj_rep example_fconv example_conf ob' [[98] \<mapsto> 8, [99] \<mapsto> 7]"
proof -
  let ?rs = "[Added True ZADD_OUT_ADDED (Some (Num 5)), Added True ZADD_OUT_ADDED (Some (Num 200)), Rank 0 (Some (Num 200)),
        Added True ZADD_OUT_UPDATED (Some (Num 8)), Added True ZADD_OUT_ADDED (Some (Num 7)), Removed True, Score (Some (Num 8))]"
  have "zset_max_listpack_entries example_conf \<le> 2 ^ 26" by (simp add: example_conf_def)
  moreover have "\<forall>op\<in>set example_zobj_ops. zo_ready example_conf Map.empty (op_env op) \<and> 0 \<notin> set (zo_addrs (op_env op))"
    by (simp add: example_zobj_ops_def example_zoenv_def zo_ready_def zo_addrs_def example_env_def example_conf_def zslRandomLevel_def)
  moreover have "sorted_wrt zo_apart (map op_env example_zobj_ops)"
    by (simp add: example_zobj_ops_def example_zoenv_def zo_apart_def zo_addrs_def example_env_def)
  moreover have abs: "abs_zset_ops byte_add Map.empty example_zobj_ops = ([[98] \<mapsto> 8, [99] \<mapsto> 7], ?rs)"
    using example_byte_rank
    by (simp add: example_zobj_ops_def abs_zadd_def ZADD_IN_INCR_def ZADD_IN_NX_def ZADD_IN_XX_def ZADD_IN_GT_def ZADD_IN_LT_def fun_upd_twist)
  moreover have "allowed_ops byte_add zo_allowed Map.empty example_zobj_ops"
    by (simp add: example_zobj_ops_def zo_allowed_def abs_zadd_def ZADD_IN_XX_def ZADD_IN_NX_def)
  moreover have "length example_zobj_ops < 2 ^ 63" by (simp add: example_zobj_ops_def)
  ultimately show ?thesis
    using zobj_run_correct[OF example_fconv_ok, of example_conf Map.empty 0 example_zobj_ops byte_add DICT_RESIZE_ENABLE example_alloc 1 1]
    unfolding abs fst_conv snd_conv by blast
qed

end
