(* ===== verification/Zset_Range.thy ===== *)
theory Zset_Range
  imports Zset
begin

text \<open>
  \<open>src/t_zset.c\<close>: deletion of ranges of a sorted set by score, by rank and by element. One search finds the last
  node before the range on every level; the nodes of the range are then unlinked one after the other with the
  same array of predecessors, also when the list loses levels on the way.
\<close>

subsection \<open>Ranges\<close>

record 's zrangespec =
  range_min :: "'s double"
  range_max :: "'s double"
  minex :: bool
  maxex :: bool

definition zslValueGteMin :: "'s::linorder double \<Rightarrow> 's zrangespec \<Rightarrow> bool" where
  "zslValueGteMin value spec =
     (if minex spec then double_less (range_min spec) value else double_le (range_min spec) value)"

definition zslValueLteMax :: "'s::linorder double \<Rightarrow> 's zrangespec \<Rightarrow> bool" where
  "zslValueLteMax value spec =
     (if maxex spec then double_less value (range_max spec) else double_le value (range_max spec))"

text \<open>The bounds of a range of elements; \<open>minstring\<close> and \<open>maxstring\<close> are shared objects, compared by address.\<close>

datatype lexbound = Minstring | Maxstring | Str sds

record zlexrangespec =
  lex_min :: lexbound
  lex_max :: lexbound
  lex_minex :: bool
  lex_maxex :: bool

text \<open>A string never is one of the shared objects, so two equal bounds compare equal in either branch of the code.\<close>

fun sdscmplex :: "lexbound \<Rightarrow> lexbound \<Rightarrow> int" where
  "sdscmplex (Str a) (Str b) = sdscmp a b"
| "sdscmplex a b = (if a = b then 0 else if a = Minstring \<or> b = Maxstring then -1 else 1)"

definition zslLexValueGteMin :: "sds \<Rightarrow> zlexrangespec \<Rightarrow> bool" where
  "zslLexValueGteMin value spec =
     (if lex_minex spec then sdscmplex (Str value) (lex_min spec) > 0 else sdscmplex (Str value) (lex_min spec) \<ge> 0)"

definition zslLexValueLteMax :: "sds \<Rightarrow> zlexrangespec \<Rightarrow> bool" where
  "zslLexValueLteMax value spec =
     (if lex_maxex spec then sdscmplex (Str value) (lex_max spec) < 0 else sdscmplex (Str value) (lex_max spec) \<le> 0)"

subsection \<open>Deletion of ranges\<close>

text \<open>
  The deletion loop; \<open>cont\<close> is the rest of its condition on the next node and the number of nodes removed so far.
\<close>

partial_function (option) delete_loop ::
  "('s zskiplistNode \<Rightarrow> u64 \<Rightarrow> bool option) \<Rightarrow> zenv \<Rightarrow> (addr \<times> u64) list \<Rightarrow> 's zset \<Rightarrow> addr option \<Rightarrow> u64 \<Rightarrow> ('s zset \<times> u64) option" where
  "delete_loop cont env update zs x removed =
     (case x of
        None \<Rightarrow> Some (zs, removed)
      | Some p \<Rightarrow> do {
          n \<leftarrow> z_heap zs p;
          c \<leftarrow> cont n removed;
          if c then do {
            next \<leftarrow> forward_at (z_heap zs) p 0;
            (h, zsl) \<leftarrow> zslUnlinkNode (z_heap zs) (z_zsl zs) p update;
            e \<leftarrow> zslGetNodeElement h p;
            (d, _) \<leftarrow> dictDelete (e_resize env) (z_dict zs) e;
            h \<leftarrow> zslFreeNode h p;
            delete_loop cont env update \<lparr>z_heap = h, z_zsl = zsl, z_dict = d\<rparr> next (removed + 1)
          } else Some (zs, removed)
        })"

text \<open>The search, the step to the first node of the range, and the loop.\<close>

definition delete_range ::
  "zsl_cond \<Rightarrow> (u64 \<Rightarrow> 's zskiplistNode \<Rightarrow> u64 \<Rightarrow> bool option) \<Rightarrow> zenv \<Rightarrow> 's zset \<Rightarrow> ('s zset \<times> u64) option" where
  "delete_range before cont env zs =
     do {
       update \<leftarrow> zsl_search before (z_heap zs) (zlevel (z_zsl zs)) (header (z_zsl zs)) 0;
       (x, traversed) \<leftarrow> arr_get update 0;
       x \<leftarrow> forward_at (z_heap zs) x 0;
       delete_loop (cont traversed) env update zs x 0
     }"

definition zslDeleteRangeByScore :: "zenv \<Rightarrow> 's::linorder zset \<Rightarrow> 's zrangespec \<Rightarrow> ('s zset \<times> u64) option" where
  "zslDeleteRangeByScore env zs spec =
     delete_range
       (\<lambda>next _ _. case next of None \<Rightarrow> Some False | Some p \<Rightarrow> do { n \<leftarrow> z_heap zs p; Some (\<not> zslValueGteMin (score n) spec) })
       (\<lambda>_ n _. Some (zslValueLteMax (score n) spec)) env zs"

definition zslDeleteRangeByLex :: "zenv \<Rightarrow> 's zset \<Rightarrow> zlexrangespec \<Rightarrow> ('s zset \<times> u64) option" where
  "zslDeleteRangeByLex env zs spec =
     delete_range
       (\<lambda>next _ _. case next of None \<Rightarrow> Some False
          | Some p \<Rightarrow> do { e \<leftarrow> zslGetNodeElement (z_heap zs) p; Some (\<not> zslLexValueGteMin e spec) })
       (\<lambda>_ n _. do { e \<leftarrow> ele n; Some (zslLexValueLteMax e spec) }) env zs"

text \<open>The ranks are 1-based, \<open>unsigned int\<close>; in the loop, \<open>traversed\<close> is one more than before it plus the removed nodes.\<close>

definition zslDeleteRangeByRank :: "zenv \<Rightarrow> 's zset \<Rightarrow> u32 \<Rightarrow> u32 \<Rightarrow> ('s zset \<times> u64) option" where
  "zslDeleteRangeByRank env zs start stop =
     delete_range
       (\<lambda>next traversed sp. Some (next \<noteq> None \<and> traversed + sp < ucast start))
       (\<lambda>traversed _ removed. Some (traversed + 1 + removed \<le> ucast stop)) env zs"

text \<open>
  The deletion as \<open>zremrangeGenericCommand\<close> performs it: without resizing during the loop, with one check for
  shrinking after it. The flag says that the set became empty and the key is removed.
\<close>

definition zremrange_delete ::
  "zenv \<Rightarrow> 's zset \<Rightarrow> ('s zset \<Rightarrow> ('s zset \<times> u64) option) \<Rightarrow> ('s zset \<times> u64 \<times> bool) option" where
  "zremrange_delete env zs del =
     do {
       let d = z_dict zs;
       (zs, deleted) \<leftarrow> del (zs\<lparr>z_dict := d\<lparr>pauseAutoResize := pauseAutoResize d + 1\<rparr>\<rparr>);
       let d = z_dict zs;
       let d = d\<lparr>pauseAutoResize := pauseAutoResize d - 1\<rparr>;
       if dictSize d = 0 then Some (zs\<lparr>z_dict := d\<rparr>, deleted, True)
       else do { (d, _) \<leftarrow> dictShrinkIfNeeded (e_resize env) d; Some (zs\<lparr>z_dict := d\<rparr>, deleted, False) }
     }"

definition zremrangebyscore :: "zenv \<Rightarrow> 's::linorder zset \<Rightarrow> 's zrangespec \<Rightarrow> ('s zset \<times> u64 \<times> bool) option" where
  "zremrangebyscore env zs spec = zremrange_delete env zs (\<lambda>zs. zslDeleteRangeByScore env zs spec)"

definition zremrangebylex :: "zenv \<Rightarrow> 's zset \<Rightarrow> zlexrangespec \<Rightarrow> ('s zset \<times> u64 \<times> bool) option" where
  "zremrangebylex env zs spec = zremrange_delete env zs (\<lambda>zs. zslDeleteRangeByLex env zs spec)"

text \<open>With the sanitisation of the indexes; the ranks are passed on as \<open>unsigned int\<close>.\<close>

definition zremrangebyrank :: "zenv \<Rightarrow> 's zset \<Rightarrow> int \<Rightarrow> int \<Rightarrow> ('s zset \<times> u64 \<times> bool) option" where
  "zremrangebyrank env zs start stop =
     (let llen = sint (zsetLength zs);
          start = (if start < 0 then llen + start else start);
          stop = (if stop < 0 then llen + stop else stop);
          start = (if start < 0 then 0 else start) in
      if start > stop \<or> start \<ge> llen then Some (zs, 0, False)
      else
        let stop = (if stop \<ge> llen then llen - 1 else stop) in
        zremrange_delete env zs (\<lambda>zs. zslDeleteRangeByRank env zs (of_int (start + 1)) (of_int (stop + 1))))"

subsection \<open>The deletion loop\<close>

lemma for_loop_cong: "(\<And>i. i \<in> set is \<Longrightarrow> f i = g i) \<Longrightarrow> for_loop f is = for_loop g is"
  by (induction "is") (auto simp: fun_eq_iff)

text \<open>Entries of \<open>update\<close> above the level of the list are not read.\<close>

lemma unlink_more:
  assumes "zlevel zsl \<le> L"
  shows "zslUnlinkNode h zsl x (updates qs lvs r L) = zslUnlinkNode h zsl x (updates qs lvs r (zlevel zsl))"
proof -
  have "for_loop (unlink_link x (updates qs lvs r L)) [0..<zlevel zsl] h = for_loop (unlink_link x (updates qs lvs r (zlevel zsl))) [0..<zlevel zsl] h"
    using assms by (intro fun_cong[OF for_loop_cong]) (auto simp: fun_eq_iff unlink_link_def updates_def arr_get_def)
  then show ?thesis by (simp add: zslUnlinkNode_def)
qed

lemma updates_del:
  assumes "j < length ns"
  shows "updates (node_addrs zsl (del_at j ns)) (node_heights (del_at j ns)) j L = updates (node_addrs zsl ns) (node_heights ns) j L"
  using updates_ins[of j "node_addrs zsl (del_at j ns)" "node_heights (del_at j ns)" "fst (ns ! j)" "fst (snd (ns ! j))" L]
    ins_del_at[OF assms] node_lists_ins(1)[of zsl j "ns ! j" "del_at j ns"] node_lists_ins(2)[of j "ns ! j" "del_at j ns"] assms
  by simp

lemma drop_levels_le: "drop_levels h x l = Some (h', l') \<Longrightarrow> l' \<le> l"
  by (induction h x l rule: drop_levels.induct) (auto simp: bind_eq_Some_conv split: if_splits intro: le_SucI)

lemma unlink_level: "zslUnlinkNode h zsl x update = Some (h', zsl') \<Longrightarrow> zlevel zsl' \<le> zlevel zsl"
  by (auto simp: zslUnlinkNode_def bind_eq_Some_conv split: option.splits dest!: drop_levels_le)

text \<open>One round: the node at position \<open>r\<close> leaves the list, the dictionary and the heap.\<close>

lemma delete_round:
  assumes z: "zset_nodes zs ns" and r: "r < length ns" "ns ! r = (a, l, s, e)" and L: "zlevel (z_zsl zs) \<le> L"
  shows "\<exists>h1 zsl' d b h2. zslUnlinkNode (z_heap zs) (z_zsl zs) a (updates (node_addrs (z_zsl zs) ns) (node_heights ns) r L) = Some (h1, zsl') \<and>
    zslGetNodeElement h1 a = Some e \<and> dictDelete (e_resize env) (z_dict zs) e = Some (d, b) \<and> zslFreeNode h1 a = Some h2 \<and>
    zset_nodes \<lparr>z_heap = h2, z_zsl = zsl', z_dict = d\<rparr> (del_at r ns) \<and> header zsl' = header (z_zsl zs) \<and> zlevel zsl' \<le> zlevel (z_zsl zs) \<and>
    h2 a = None \<and> (\<forall>y. y \<notin> set (node_addrs (z_zsl zs) ns) \<longrightarrow> h2 y = z_heap zs y)"
proof -
  note Z = zset_nodesD[OF z] and D = scores_del[OF zset_nodesD(2)[OF z] r]
  obtain h1 zsl' where u: "zslUnlinkNode (z_heap zs) (z_zsl zs) a (updates (node_addrs (z_zsl zs) ns) (node_heights ns) r L) = Some (h1, zsl')"
      "zsl_rep h1 zsl' (del_at r ns)" "header zsl' = header (z_zsl zs)" "a \<notin> set (node_addrs (z_zsl zs) (del_at r ns))"
      "\<forall>y. y \<notin> set (node_addrs (z_zsl zs) (del_at r ns)) \<longrightarrow> h1 y = z_heap zs y"
    using zsl_unlink_at[OF Z(1) r] unlink_more[OF L] updates_del[OF r(1)] by metis
  obtain n where n: "z_heap zs a = Some n" "ele n = Some e" using node_at[OF Z(1) r] by blast
  have ha: "h1 a = Some n" using u(4,5) n(1) by simp
  obtain d b where d: "dictDelete (e_resize env) (z_dict zs) e = Some (d, b)" "dict_upd (z_dict zs) ((dict_map (z_dict zs))(e := None)) d"
    using dictGenericDelete_spec[OF Z(3), of "e_resize env" e] by (auto simp: dictDelete_def)
  have "dict_inv d" "dict_map d = map_option Some \<circ> map_of (node_index (del_at r ns))"
    using d(2) Z(4) by (auto simp: dict_upd_def D(2) fun_eq_iff)
  moreover have "zsl_rep (h1(a := None)) zsl' (del_at r ns)"
    using zsl_rep_frame[OF u(2), of "h1(a := None)"] u(3,4) by (metis fun_upd_other node_addrs_def)
  ultimately have "zset_nodes \<lparr>z_heap = h1(a := None), z_zsl = zsl', z_dict = d\<rparr> (del_at r ns)" using D(3) by (simp add: zset_nodes_def)
  moreover have "\<forall>y. y \<notin> set (node_addrs (z_zsl zs) ns) \<longrightarrow> (h1(a := None)) y = z_heap zs y"
    using u(5) addrs_del[OF r, of "z_zsl zs"] by simp
  ultimately show ?thesis
    using u(1,3) d(1) ha n(2) unlink_level[OF u(1)] by (simp add: zslGetNodeElement_def zslFreeNode_def)
qed

lemma del_at_range: "j + Suc n \<le> length xs \<Longrightarrow> take j (del_at j xs) @ drop (j + n) (del_at j xs) = take j xs @ drop (j + Suc n) xs"
  by (simp add: del_at_def min_def add.commute)

lemma delete_loop_rep:
  assumes "zset_nodes zs ns" "zlevel (z_zsl zs) \<le> L" "r + n \<le> length ns"
    and "\<And>i nd. i < n \<Longrightarrow> score nd = Num (fst (node_keys ns ! (r + i))) \<Longrightarrow> ele nd = Some (snd (node_keys ns ! (r + i))) \<Longrightarrow>
      cont nd (c + of_nat i) = Some True"
    and "\<And>nd. r + n < length ns \<Longrightarrow> score nd = Num (fst (node_keys ns ! (r + n))) \<Longrightarrow> ele nd = Some (snd (node_keys ns ! (r + n))) \<Longrightarrow>
      cont nd (c + of_nat n) = Some False"
  shows "\<exists>zs'. delete_loop cont env (updates (node_addrs (z_zsl zs) ns) (node_heights ns) r L) zs
      (if r < length ns then Some (fst (ns ! r)) else None) c = Some (zs', c + of_nat n) \<and>
    zset_nodes zs' (take r ns @ drop (r + n) ns) \<and> (\<forall>y. y \<notin> set (node_addrs (z_zsl zs) ns) \<longrightarrow> z_heap zs' y = z_heap zs y)"
  using assms
proof (induction n arbitrary: zs ns c)
  case 0
  show ?case
  proof (cases "r < length ns")
    case False
    then show ?thesis using 0(1,3) by (subst delete_loop.simps) simp
  next
    case True
    obtain a l s e where n: "ns ! r = (a, l, s, e)" by (metis prod.exhaust)
    then have k: "node_keys ns ! r = (s, e)" using True by (simp add: node_keys_def)
    obtain nd where nd: "z_heap zs a = Some nd" "score nd = Num s" "ele nd = Some e"
      using node_at[OF zset_nodesD(1)[OF 0(1)] True n] by blast
    then have "cont nd c = Some False" using 0(5)[of nd] True k by simp
    then show ?thesis using True n nd(1) 0(1) by (subst delete_loop.simps) simp
  qed
next
  case (Suc n)
  then have r: "r < length ns" by simp
  obtain a l s e where nr: "ns ! r = (a, l, s, e)" by (metis prod.exhaust)
  then have k: "node_keys ns ! r = (s, e)" using r by (simp add: node_keys_def)
  obtain nd where nd: "z_heap zs a = Some nd" "score nd = Num s" "ele nd = Some e"
      "forward_at (z_heap zs) a 0 = Some (if Suc r < length ns then Some (fst (ns ! Suc r)) else None)"
    using node_at[OF zset_nodesD(1)[OF Suc.prems(1)] r nr] by blast
  have c: "cont nd c = Some True" using Suc.prems(4)[of 0 nd] nd k by simp
  let ?ds = "del_at r ns" and ?up = "updates (node_addrs (z_zsl zs) ns) (node_heights ns) r L"
  obtain h1 zsl' d b h2 where u: "zslUnlinkNode (z_heap zs) (z_zsl zs) a ?up = Some (h1, zsl')"
      "zslGetNodeElement h1 a = Some e" "dictDelete (e_resize env) (z_dict zs) e = Some (d, b)" "zslFreeNode h1 a = Some h2"
      "zset_nodes \<lparr>z_heap = h2, z_zsl = zsl', z_dict = d\<rparr> ?ds" "header zsl' = header (z_zsl zs)" "zlevel zsl' \<le> zlevel (z_zsl zs)"
      "\<forall>y. y \<notin> set (node_addrs (z_zsl zs) ns) \<longrightarrow> h2 y = z_heap zs y"
    using delete_round[OF Suc.prems(1) r nr Suc.prems(2)] by blast
  let ?zs = "\<lparr>z_heap = h2, z_zsl = zsl', z_dict = d\<rparr>"
  have addrs: "node_addrs zsl' ?ds = node_addrs (z_zsl zs) ?ds" using u(6) by (simp add: node_addrs_def)
  have keys: "node_keys ?ds ! (r + i) = node_keys ns ! (r + Suc i)" if "r + Suc i < length ns" for i
    using that by (simp add: node_keys_del nth_del_at)
  have len: "length ?ds = length ns - 1" using r by simp
  have c_step: "c + 1 + of_nat i = c + of_nat (Suc i)" for i by (simp add: ac_simps)
  have next_node: "(if r < length ?ds then Some (fst (?ds ! r)) else None) = (if Suc r < length ns then Some (fst (ns ! Suc r)) else None)"
    using r len by (auto simp: nth_del_at)
  have "\<exists>zs'. delete_loop cont env (updates (node_addrs (z_zsl ?zs) ?ds) (node_heights ?ds) r L) ?zs
      (if r < length ?ds then Some (fst (?ds ! r)) else None) (c + 1) = Some (zs', c + 1 + of_nat n) \<and>
    zset_nodes zs' (take r ?ds @ drop (r + n) ?ds) \<and> (\<forall>y. y \<notin> set (node_addrs (z_zsl ?zs) ?ds) \<longrightarrow> z_heap zs' y = z_heap ?zs y)"
  proof (rule Suc.IH[OF u(5)])
    show "zlevel (z_zsl ?zs) \<le> L" using u(7) Suc.prems(2) by simp
    show "r + n \<le> length ?ds" using Suc.prems(3) len by simp
    fix i and nd' :: "'a zskiplistNode" assume i: "i < n" "score nd' = Num (fst (node_keys ?ds ! (r + i)))" "ele nd' = Some (snd (node_keys ?ds ! (r + i)))"
    then show "cont nd' (c + 1 + of_nat i) = Some True"
      using Suc.prems(3) Suc.prems(4)[of "Suc i" nd'] keys[of i] unfolding c_step by simp
  next
    fix nd' :: "'a zskiplistNode" assume i: "r + n < length ?ds" "score nd' = Num (fst (node_keys ?ds ! (r + n)))" "ele nd' = Some (snd (node_keys ?ds ! (r + n)))"
    then show "cont nd' (c + 1 + of_nat n) = Some False"
      using Suc.prems(5)[of nd'] keys[of n] len unfolding c_step by simp
  qed
  then obtain zs' where zs': "delete_loop cont env ?up ?zs (if Suc r < length ns then Some (fst (ns ! Suc r)) else None) (c + 1) = Some (zs', c + of_nat (Suc n))"
      "zset_nodes zs' (take r ns @ drop (r + Suc n) ns)" "\<forall>y. y \<notin> set (node_addrs (z_zsl zs) ?ds) \<longrightarrow> z_heap zs' y = h2 y"
    using updates_del[OF r, of "z_zsl zs" L] next_node c_step[of n] del_at_range[OF Suc.prems(3)] by (auto simp: addrs)
  have "delete_loop cont env ?up zs (Some a) c = Some (zs', c + of_nat (Suc n))"
    by (subst delete_loop.simps) (simp add: nd(1,4) c u(1-4) zs'(1))
  moreover have "\<forall>y. y \<notin> set (node_addrs (z_zsl zs) ns) \<longrightarrow> z_heap zs' y = z_heap zs y"
    using zs'(3) u(8) addrs_del[OF r nr, of "z_zsl zs"] by auto
  ultimately show ?case using r nr zs'(2) by auto
qed

lemma delete_range_rep:
  assumes z: "zset_nodes zs ns" and before: "cond_upto before (node_addrs (z_zsl zs) ns) r" and n: "r + n \<le> length ns"
    and go: "\<And>i nd. i < n \<Longrightarrow> score nd = Num (fst (node_keys ns ! (r + i))) \<Longrightarrow> ele nd = Some (snd (node_keys ns ! (r + i))) \<Longrightarrow>
      cont (of_nat r) nd (of_nat i) = Some True"
    and stop: "\<And>nd. r + n < length ns \<Longrightarrow> score nd = Num (fst (node_keys ns ! (r + n))) \<Longrightarrow> ele nd = Some (snd (node_keys ns ! (r + n))) \<Longrightarrow>
      cont (of_nat r) nd (of_nat n) = Some False"
  shows "\<exists>zs'. delete_range before cont env zs = Some (zs', of_nat n) \<and> zset_nodes zs' (take r ns @ drop (r + n) ns) \<and>
    (\<forall>y. y \<notin> set (node_addrs (z_zsl zs) ns) \<longrightarrow> z_heap zs' y = z_heap zs y)"
proof -
  let ?up = "updates (node_addrs (z_zsl zs) ns) (node_heights ns) r (zlevel (z_zsl zs))"
  note rep = zset_nodesD(1)[OF z]
  have t: "towers (z_heap zs) (zlevel (z_zsl zs)) (node_addrs (z_zsl zs) ns) (node_heights ns)" "heights_ok (zlevel (z_zsl zs)) (node_heights ns)"
    using rep by (simp_all add: zsl_rep_def)
  have r: "r \<le> length ns" using n by simp
  have up: "zsl_search before (z_heap zs) (zlevel (z_zsl zs)) (header (z_zsl zs)) 0 = Some ?up" by (rule rep_search[OF rep before r])
  have "prv (node_heights ns) 0 r = r" using prv_0[OF t(2)] r by simp
  then have u0: "arr_get ?up 0 = Some (node_addrs (z_zsl zs) ns ! r, of_nat r)"
    using t(2) by (simp add: updates_def arr_get_def heights_ok_def)
  have f: "forward_at (z_heap zs) (node_addrs (z_zsl zs) ns ! r) 0 = Some (if r < length ns then Some (fst (ns ! r)) else None)"
    using towers_forward[OF t(1), of r 0] heights_pos[OF t(2), of r] nxt_0[OF t(2), of r] r by auto
  have "\<exists>zs'. delete_loop (cont (of_nat r)) env ?up zs (if r < length ns then Some (fst (ns ! r)) else None) 0 = Some (zs', 0 + of_nat n) \<and>
    zset_nodes zs' (take r ns @ drop (r + n) ns) \<and> (\<forall>y. y \<notin> set (node_addrs (z_zsl zs) ns) \<longrightarrow> z_heap zs' y = z_heap zs y)"
    using go stop by (intro delete_loop_rep[OF z _ n]) simp_all
  then show ?thesis using up u0 f by (simp add: delete_range_def)
qed

subsection \<open>Ranges of a sorted list\<close>

lemma down_filter:
  assumes "sorted_wrt R xs" "\<forall>x y. R x y \<longrightarrow> P y \<longrightarrow> P x"
  shows "takeWhile P xs = filter P xs" "dropWhile P xs = filter (\<lambda>x. \<not> P x) xs"
proof -
  have "takeWhile P xs = filter P xs \<and> dropWhile P xs = filter (\<lambda>x. \<not> P x) xs"
    using assms(1)
  proof (induction xs)
    case (Cons x xs)
    show ?case
    proof (cases "P x")
      case False
      then have "\<forall>y \<in> set xs. \<not> P y" using Cons.prems assms(2) by auto
      then show ?thesis using False by (simp add: filter_empty_conv filter_id_conv)
    qed (use Cons in simp)
  qed simp
  then show "takeWhile P xs = filter P xs" "dropWhile P xs = filter (\<lambda>x. \<not> P x) xs" by blast+
qed

text \<open>Cutting a sorted list before and after a range leaves the elements outside of it.\<close>

lemma cut_range:
  assumes "sorted_wrt R xs" "\<forall>x y. R x y \<longrightarrow> P y \<longrightarrow> P x" "\<forall>x y. R x y \<longrightarrow> Q y \<longrightarrow> Q x"
  defines "r \<equiv> length (takeWhile P xs)" and "n \<equiv> length (takeWhile Q (dropWhile P xs))"
  shows "take r xs @ drop (r + n) xs = filter (\<lambda>x. \<not> (\<not> P x \<and> Q x)) xs" "n = length (filter (\<lambda>x. \<not> P x \<and> Q x) xs)" "r + n \<le> length xs"
    "\<And>i. i < n \<Longrightarrow> Q (xs ! (r + i))" "r + n < length xs \<Longrightarrow> \<not> Q (xs ! (r + n))"
    "\<And>i. i < length xs \<Longrightarrow> P (xs ! i) \<longleftrightarrow> i < r"
proof -
  let ?a = "takeWhile P xs" and ?b = "dropWhile P xs"
  let ?c = "takeWhile Q ?b" and ?d = "dropWhile Q ?b"
  have sb: "sorted_wrt R ?b" using assms(1) by (metis sorted_wrt_append takeWhile_dropWhile_id)
  note F = down_filter[OF assms(1,2)] and G = down_filter[OF sb assms(3)]
  have xs: "xs = ?a @ ?c @ ?d" by simp
  have c: "?c = filter (\<lambda>x. \<not> P x \<and> Q x) xs" by (subst G(1), subst F(2)) (rule filter_filter)
  then show "n = length (filter (\<lambda>x. \<not> P x \<and> Q x) xs)" by (simp add: n_def)
  have a: "\<forall>x \<in> set ?a. P x" by (auto dest: set_takeWhileD)
  have dnQ: "\<forall>x \<in> set ?d. \<not> Q x" unfolding G(2) by simp
  have "filter (\<lambda>x. \<not> (\<not> P x \<and> Q x)) xs = filter (\<lambda>x. \<not> (\<not> P x \<and> Q x)) ?a @ filter (\<lambda>x. \<not> (\<not> P x \<and> Q x)) ?c @ filter (\<lambda>x. \<not> (\<not> P x \<and> Q x)) ?d"
    by (metis filter_append xs)
  also have "filter (\<lambda>x. \<not> (\<not> P x \<and> Q x)) ?a = ?a" using a by (simp add: filter_id_conv)
  also have "filter (\<lambda>x. \<not> (\<not> P x \<and> Q x)) ?c = []" unfolding c by (simp add: filter_empty_conv)
  also have "filter (\<lambda>x. \<not> (\<not> P x \<and> Q x)) ?d = ?d" using dnQ by (simp add: filter_id_conv)
  finally have all: "filter (\<lambda>x. \<not> (\<not> P x \<and> Q x)) xs = ?a @ ?d" by simp
  have "take r xs = ?a" "drop (r + n) xs = ?d"
    using xs by (metis append_eq_conv_conj r_def) (metis append.assoc append_eq_conv_conj length_append n_def r_def xs)
  then show "take r xs @ drop (r + n) xs = filter (\<lambda>x. \<not> (\<not> P x \<and> Q x)) xs" using all by simp
  show "r + n \<le> length xs" using xs by (metis length_append le_add1 add.assoc n_def r_def)
  have nth: "xs ! (r + i) = ?b ! i" for i by (metis nth_append_length_plus r_def takeWhile_dropWhile_id)
  show "Q (xs ! (r + i))" if "i < n" for i
    using that nth_mem[of i ?c] takeWhile_nth[of i Q ?b] unfolding nth n_def by (metis set_takeWhileD)
  show "\<not> Q (xs ! (r + n))" if "r + n < length xs"
  proof -
    have "length xs = r + length ?b" by (metis length_append r_def takeWhile_dropWhile_id)
    then show ?thesis using that nth_length_takeWhile[of Q ?b] unfolding nth n_def by simp
  qed
  show "P (xs ! i) \<longleftrightarrow> i < r" if i: "i < length xs" for i
  proof
    assume "i < r"
    then show "P (xs ! i)" unfolding r_def by (metis nth_mem set_takeWhileD takeWhile_nth)
  next
    assume p: "P (xs ! i)"
    show "i < r"
    proof (rule ccontr)
      assume "\<not> i < r"
      then have b: "xs ! i = ?b ! (i - r)" "i - r < length ?b"
        using nth[of "i - r"] i by (simp, metis add_diff_inverse_nat length_append nat_add_left_cancel_less r_def takeWhile_dropWhile_id)
      then have "xs ! i \<in> set ?b" by simp
      then show False using p unfolding F(2) by simp
    qed
  qed
qed

subsection \<open>Representation after a deletion\<close>

definition node_score :: "'s znode \<Rightarrow> 's" where
  "node_score x = fst (snd (snd x))"

definition node_ele :: "'s znode \<Rightarrow> sds" where
  "node_ele x = snd (snd (snd x))"

lemma node_keys_nth: "j < length ns \<Longrightarrow> node_keys ns ! j = (node_score (ns ! j), node_ele (ns ! j))"
  by (cases "ns ! j") (simp add: node_keys_def node_score_def node_ele_def)

lemma nodes_sorted:
  "zsl_rep h zsl ns \<Longrightarrow> sorted_wrt (\<lambda>x y. (node_score x, node_ele x) < (node_score y, node_ele y)) ns"
  by (simp add: zsl_rep_def node_keys_def sorted_wrt_map node_score_def node_ele_def case_prod_beta)

lemma map_of_filter:
  assumes "distinct (map fst xs)"
  shows "map_of (filter (\<lambda>x. P (fst x) (snd x)) xs) k = (case map_of xs k of Some v \<Rightarrow> if P k v then Some v else None | None \<Rightarrow> None)"
  using assms by (induction xs) (auto simp: map_of_eq_None_iff split: option.splits)

lemma scores_filter:
  assumes "distinct (map fst (node_index ns))"
  shows "map_of (node_scores (filter (\<lambda>x. P (node_ele x) (node_score x)) ns)) =
      (\<lambda>e. case map_of (node_scores ns) e of Some s \<Rightarrow> if P e s then Some s else None | None \<Rightarrow> None)"
    "card {e. \<exists>s. map_of (node_scores ns) e = Some s \<and> P e s} = length (filter (\<lambda>x. P (node_ele x) (node_score x)) ns)"
proof -
  let ?f = "filter (\<lambda>x. P (node_ele x) (node_score x)) ns"
  have "node_scores ?f = filter (\<lambda>x. P (fst x) (snd x)) (node_scores ns)"
    by (simp add: node_scores_def filter_map comp_def node_ele_def node_score_def case_prod_beta)
  then show m: "map_of (node_scores ?f) =
      (\<lambda>e. case map_of (node_scores ns) e of Some s \<Rightarrow> if P e s then Some s else None | None \<Rightarrow> None)"
    using map_of_filter[of "node_scores ns" P] assms fst_node_lists[of ns] by (simp add: fun_eq_iff)
  have "distinct (map fst (node_index ?f))" using assms unfolding node_index_def by (simp add: distinct_map_filter)
  then have "card (dom (map_of (node_scores ?f))) = length ?f" by (rule card_scores)
  moreover have "dom (map_of (node_scores ?f)) = {e. \<exists>s. map_of (node_scores ns) e = Some s \<and> P e s}"
    unfolding m by (auto split: option.splits if_splits)
  ultimately show "card {e. \<exists>s. map_of (node_scores ns) e = Some s \<and> P e s} = length ?f" by simp
qed

lemma dictShrinkIfNeeded_spec:
  assumes inv: "dict_inv d"
  shows "\<exists>d' ok. dictShrinkIfNeeded can_resize d = Some (d', ok) \<and> dict_same d d'"
  using dictShrink_spec[OF inv, of can_resize "ht_used (ht0 d)"] dict_same_refl[OF inv]
  by (auto simp: dictShrinkIfNeeded_def)

text \<open>The frame of the command around the deletion.\<close>

lemma zremrange_delete_rep:
  assumes z: "zset_nodes zs ns"
    and del: "\<forall>zs1. zset_nodes zs1 ns \<longrightarrow> (\<exists>zs2. del zs1 = Some (zs2, c) \<and> zset_nodes zs2 ns')"
  shows "\<exists>zs'. zremrange_delete env zs del = Some (zs', c, ns' = []) \<and> zset_nodes zs' ns'"
proof -
  have pause: "zset_nodes (zs\<lparr>z_dict := (z_dict zs)\<lparr>pauseAutoResize := p\<rparr>\<rparr>) ms" if "zset_nodes zs ms" for zs :: "'a zset" and p ms
    using that by (simp add: zset_nodes_def dict_inv_def dict_map_def dict_entries_def dictIsRehashing_def)
  obtain zs2 where d: "del (zs\<lparr>z_dict := (z_dict zs)\<lparr>pauseAutoResize := pauseAutoResize (z_dict zs) + 1\<rparr>\<rparr>) = Some (zs2, c)" "zset_nodes zs2 ns'"
    using del pause[OF z] by blast
  let ?d = "(z_dict zs2)\<lparr>pauseAutoResize := pauseAutoResize (z_dict zs2) - 1\<rparr>"
  have z2: "zset_nodes (zs2\<lparr>z_dict := ?d\<rparr>) ns'" by (rule pause[OF d(2)])
  then have inv: "dict_inv ?d" "dict_map ?d = map_option Some \<circ> map_of (node_index ns')" by (simp_all add: zset_nodes_def)
  have "dom (dict_map ?d) = set (map fst (node_index ns'))" unfolding inv(2) dom_map_option_comp by (simp add: dom_map_of_conv_image_fst)
  then have size: "dictSize ?d = length ns'"
    using dictSize_eq(2)[OF inv(1)] distinct_card[OF zset_nodesD(2)[OF d(2)]] by simp
  obtain d3 b where "dictShrinkIfNeeded (e_resize env) ?d = Some (d3, b)" "dict_same ?d d3"
    using dictShrinkIfNeeded_spec[OF inv(1)] by blast
  then show ?thesis
    using d(1) size z2 zset_same_dict[OF z2, of d3] by (cases "ns' = []") (auto simp: zremrange_delete_def Let_def)
qed

subsection \<open>The three deletions\<close>

definition node_of :: "'s znode \<Rightarrow> 's zskiplistNode \<Rightarrow> bool" where
  "node_of x nd \<longleftrightarrow> score nd = Num (node_score x) \<and> ele nd = Some (node_ele x)"

lemma node_of_at:
  assumes "zset_nodes zs ns" "m < length ns"
  shows "\<exists>nd. z_heap zs (fst (ns ! m)) = Some nd \<and> node_of (ns ! m) nd"
  using node_at[OF zset_nodesD(1)[OF assms(1)] assms(2)] by (cases "ns ! m") (auto simp: node_of_def node_score_def node_ele_def)

lemma delete_cut:
  assumes z: "zset_nodes zs ns" and R: "sorted_wrt R ns" "\<forall>x y. R x y \<longrightarrow> P y \<longrightarrow> P x" "\<forall>x y. R x y \<longrightarrow> Q y \<longrightarrow> Q x"
    and before: "\<And>m nd a b. m < length ns \<Longrightarrow> z_heap zs (fst (ns ! m)) = Some nd \<Longrightarrow> node_of (ns ! m) nd \<Longrightarrow>
      before (Some (fst (ns ! m))) a b = Some (P (ns ! m))" "\<And>a b. before None a b = Some False"
    and cont: "\<And>x nd t c. node_of x nd \<Longrightarrow> cont t nd c = Some (Q x)"
  shows "\<exists>zs'. delete_range before cont env zs = Some (zs', of_nat (length (filter (\<lambda>x. \<not> P x \<and> Q x) ns))) \<and>
    zset_nodes zs' (filter (\<lambda>x. \<not> (\<not> P x \<and> Q x)) ns)"
proof -
  let ?r = "length (takeWhile P ns)" and ?n = "length (takeWhile Q (dropWhile P ns))"
  note C = cut_range[OF R]
  have up: "cond_upto before (node_addrs (z_zsl zs) ns) ?r"
    unfolding cond_upto_def
  proof (intro conjI allI impI before(2))
    fix j k assume k: "j < k" "k < length (node_addrs (z_zsl zs) ns)"
    then obtain m where m: "k = Suc m" "m < length ns" by (cases k) auto
    obtain nd where "z_heap zs (fst (ns ! m)) = Some nd" "node_of (ns ! m) nd" using node_of_at[OF z m(2)] by blast
    then show "before (Some (node_addrs (z_zsl zs) ns ! k)) (of_nat j) (of_nat (k - j)) = Some (k \<le> ?r)"
      using before(1)[OF m(2)] C(6)[OF m(2)] m by (simp add: Suc_le_eq)
  qed
  have nd: "node_of (ns ! j) nd" if "j < length ns" "score nd = Num (fst (node_keys ns ! j))" "ele nd = Some (snd (node_keys ns ! j))" for j nd
    using that node_keys_nth[OF that(1)] by (simp add: node_of_def)
  have "\<exists>zs'. delete_range before cont env zs = Some (zs', of_nat ?n) \<and> zset_nodes zs' (take ?r ns @ drop (?r + ?n) ns) \<and>
    (\<forall>y. y \<notin> set (node_addrs (z_zsl zs) ns) \<longrightarrow> z_heap zs' y = z_heap zs y)"
  proof (rule delete_range_rep[OF z up C(3)])
    fix i and nd' :: "'a zskiplistNode"
    assume i: "i < ?n" "score nd' = Num (fst (node_keys ns ! (?r + i)))" "ele nd' = Some (snd (node_keys ns ! (?r + i)))"
    then show "cont (of_nat ?r) nd' (of_nat i) = Some True" using cont[OF nd, of "?r + i"] C(3) C(4)[OF i(1)] by simp
  next
    fix nd' :: "'a zskiplistNode"
    assume i: "?r + ?n < length ns" "score nd' = Num (fst (node_keys ns ! (?r + ?n)))" "ele nd' = Some (snd (node_keys ns ! (?r + ?n)))"
    then show "cont (of_nat ?r) nd' (of_nat ?n) = Some False" using cont[OF nd[OF i]] C(5)[OF i(1)] by simp
  qed
  then show ?thesis unfolding C(1) C(2)[symmetric] by blast
qed

text \<open>The specification of a range of scores, in terms of the order of numbers; nothing lies in a range with a bound that is not a number.\<close>

definition score_in_range :: "'s::linorder zrangespec \<Rightarrow> 's \<Rightarrow> bool" where
  "score_in_range spec s \<longleftrightarrow>
     (case range_min spec of Num a \<Rightarrow> if minex spec then a < s else a \<le> s | NaN \<Rightarrow> False) \<and>
     (case range_max spec of Num b \<Rightarrow> if maxex spec then s < b else s \<le> b | NaN \<Rightarrow> False)"

lemma score_in_range_tests: "score_in_range spec s \<longleftrightarrow> zslValueGteMin (Num s) spec \<and> zslValueLteMax (Num s) spec"
  by (simp add: score_in_range_def zslValueGteMin_def zslValueLteMax_def split: double.split)

lemma range_mono:
  assumes "s \<le> t"
  shows "zslValueGteMin (Num s) spec \<Longrightarrow> zslValueGteMin (Num t) spec" "zslValueLteMax (Num t) spec \<Longrightarrow> zslValueLteMax (Num s) spec"
  using assms by (cases "range_min spec"; cases "range_max spec"; auto simp: zslValueGteMin_def zslValueLteMax_def split: if_splits)+

lemma zslDeleteRangeByScore_rep:
  assumes z: "zset_nodes zs ns"
  shows "\<exists>zs'. zslDeleteRangeByScore env zs spec = Some (zs', of_nat (length (filter (\<lambda>x. score_in_range spec (node_score x)) ns))) \<and>
    zset_nodes zs' (filter (\<lambda>x. \<not> score_in_range spec (node_score x)) ns)"
proof -
  let ?R = "\<lambda>x y :: 'a znode. (node_score x, node_ele x) < (node_score y, node_ele y)"
  let ?P = "\<lambda>x. \<not> zslValueGteMin (Num (node_score x)) spec" and ?Q = "\<lambda>x. zslValueLteMax (Num (node_score x)) spec"
  have le: "node_score x \<le> node_score y" if "?R x y" for x y using that by auto
  have "\<exists>zs'. zslDeleteRangeByScore env zs spec = Some (zs', of_nat (length (filter (\<lambda>x. \<not> ?P x \<and> ?Q x) ns))) \<and>
    zset_nodes zs' (filter (\<lambda>x. \<not> (\<not> ?P x \<and> ?Q x)) ns)"
    unfolding zslDeleteRangeByScore_def
  proof (rule delete_cut[OF z nodes_sorted[OF zset_nodesD(1)[OF z]]])
    show "\<forall>x y. ?R x y \<longrightarrow> ?P y \<longrightarrow> ?P x" "\<forall>x y. ?R x y \<longrightarrow> ?Q y \<longrightarrow> ?Q x" using le range_mono by blast+
  qed (auto simp: node_of_def)
  then show ?thesis by (simp add: score_in_range_tests)
qed

text \<open>The specification of a range of elements, in terms of the lexicographic order; the two special bounds are below and above every string.\<close>

definition ele_in_range :: "zlexrangespec \<Rightarrow> sds \<Rightarrow> bool" where
  "ele_in_range spec e \<longleftrightarrow>
     (case lex_min spec of Minstring \<Rightarrow> True | Maxstring \<Rightarrow> False | Str a \<Rightarrow> if lex_minex spec then a < e else a \<le> e) \<and>
     (case lex_max spec of Minstring \<Rightarrow> False | Maxstring \<Rightarrow> True | Str b \<Rightarrow> if lex_maxex spec then e < b else e \<le> b)"

lemma sdscmp_less: "sdscmp a b < 0 \<longleftrightarrow> a < b"
  using sdscmp_order[of a b] by (metis antisym_conv3 linorder_not_le order_le_imp_less_or_eq less_le_not_le nless_le)

lemma sdscmp_le: "sdscmp a b \<ge> 0 \<longleftrightarrow> b \<le> a" "sdscmp a b \<le> 0 \<longleftrightarrow> a \<le> b"
  using sdscmp_less[of a b] sdscmp_order(1)[of a b] by (metis linorder_not_less, metis linorder_not_less)

lemma ele_in_range_tests: "ele_in_range spec e \<longleftrightarrow> zslLexValueGteMin e spec \<and> zslLexValueLteMax e spec"
  by (simp add: ele_in_range_def zslLexValueGteMin_def zslLexValueLteMax_def sdscmp_order(1) sdscmp_less sdscmp_le split: lexbound.split)

lemma lex_mono:
  assumes "e \<le> f"
  shows "zslLexValueGteMin e spec \<Longrightarrow> zslLexValueGteMin f spec" "zslLexValueLteMax f spec \<Longrightarrow> zslLexValueLteMax e spec"
proof -
  show "zslLexValueGteMin e spec \<Longrightarrow> zslLexValueGteMin f spec"
    using assms by (cases "lex_min spec") (auto simp: zslLexValueGteMin_def sdscmp_order(1) sdscmp_le split: if_splits)
  show "zslLexValueLteMax f spec \<Longrightarrow> zslLexValueLteMax e spec"
    using assms by (cases "lex_max spec") (auto simp: zslLexValueLteMax_def sdscmp_less sdscmp_le split: if_splits)
qed

lemma zslDeleteRangeByLex_rep:
  assumes z: "zset_nodes zs ns" and eq: "\<forall>x \<in> set ns. node_score x = s0"
  shows "\<exists>zs'. zslDeleteRangeByLex env zs spec = Some (zs', of_nat (length (filter (\<lambda>x. ele_in_range spec (node_ele x)) ns))) \<and>
    zset_nodes zs' (filter (\<lambda>x. \<not> ele_in_range spec (node_ele x)) ns)"
proof -
  let ?R = "\<lambda>x y :: 'a znode. node_ele x < node_ele y"
  let ?P = "\<lambda>x. \<not> zslLexValueGteMin (node_ele x) spec" and ?Q = "\<lambda>x. zslLexValueLteMax (node_ele x) spec"
  have "sorted_wrt ?R ns"
    using nodes_sorted[OF zset_nodesD(1)[OF z]] by (rule sorted_wrt_mono_rel[rotated]) (use eq in auto)
  then have "\<exists>zs'. zslDeleteRangeByLex env zs spec = Some (zs', of_nat (length (filter (\<lambda>x. \<not> ?P x \<and> ?Q x) ns))) \<and>
    zset_nodes zs' (filter (\<lambda>x. \<not> (\<not> ?P x \<and> ?Q x)) ns)"
    unfolding zslDeleteRangeByLex_def
  proof (rule delete_cut[OF z])
    show "\<forall>x y. ?R x y \<longrightarrow> ?P y \<longrightarrow> ?P x" "\<forall>x y. ?R x y \<longrightarrow> ?Q y \<longrightarrow> ?Q x" using lex_mono less_imp_le by blast+
  qed (auto simp: node_of_def zslGetNodeElement_def)
  then show ?thesis by (simp add: ele_in_range_tests)
qed

lemma zslDeleteRangeByRank_rep:
  fixes start stop :: u32
  assumes z: "zset_nodes zs ns" and start: "0 < unat start"
  defines "r \<equiv> min (unat start - 1) (length ns)"
  defines "n \<equiv> min (unat stop - r) (length ns - r)"
  shows "\<exists>zs'. zslDeleteRangeByRank env zs start stop = Some (zs', of_nat n) \<and> zset_nodes zs' (take r ns @ drop (r + n) ns)"
proof -
  have small: "length ns < 2 ^ 64" using zset_nodesD(1)[OF z] unfolding zsl_rep_def by blast
  have cast: "unat (ucast (x :: u32) :: u64) = unat x" for x
  proof -
    have "unat x < 2 ^ LENGTH(32)" by (rule unsigned_less)
    then show ?thesis by (simp add: unsigned_ucast_eq take_bit_nat_eq_self)
  qed
  have unat_k: "unat (of_nat k :: u64) = k" if "k \<le> length ns" for k
    using that small by (simp add: unat_of_nat)
  have up: "cond_upto (\<lambda>next traversed sp. Some (next \<noteq> None \<and> traversed + sp < ucast start)) (node_addrs (z_zsl zs) ns) r"
    unfolding cond_upto_def
  proof (intro conjI allI impI)
    fix j k assume k: "j < k" "k < length (node_addrs (z_zsl zs) ns)"
    have "(of_nat j :: u64) + of_nat (k - j) = of_nat k" using k by (simp flip: of_nat_add)
    moreover have "(of_nat k :: u64) < ucast start \<longleftrightarrow> k < unat start" using k by (simp add: word_less_nat_alt cast unat_k)
    moreover have "k < unat start \<longleftrightarrow> k \<le> r" using k start by (auto simp: r_def)
    ultimately show "Some (Some (node_addrs (z_zsl zs) ns ! k) \<noteq> None \<and> (of_nat j :: u64) + of_nat (k - j) < ucast start) = Some (k \<le> r)" by simp
  qed simp
  have cont: "(of_nat r :: u64) + 1 + of_nat i \<le> ucast stop \<longleftrightarrow> r + i < unat stop" if "r + i < length ns" for i
  proof -
    have "(of_nat r :: u64) + 1 + of_nat i = of_nat (Suc (r + i))" by simp
    then show ?thesis using that unat_k[of "Suc (r + i)"] by (simp add: word_le_nat_alt cast Suc_le_eq del: of_nat_Suc)
  qed
  have rn: "r + n \<le> length ns" unfolding r_def n_def by linarith
  have "\<exists>zs'. zslDeleteRangeByRank env zs start stop = Some (zs', of_nat n) \<and> zset_nodes zs' (take r ns @ drop (r + n) ns) \<and>
    (\<forall>y. y \<notin> set (node_addrs (z_zsl zs) ns) \<longrightarrow> z_heap zs' y = z_heap zs y)"
    unfolding zslDeleteRangeByRank_def
  proof (rule delete_range_rep[OF z up rn])
    fix i and nd :: "'a zskiplistNode" assume "i < n"
    then have "r + i < unat stop" "r + i < length ns" by (auto simp: n_def)
    then show "Some ((of_nat r :: u64) + 1 + of_nat i \<le> ucast stop) = Some True" using cont[of i] by simp
  next
    fix nd :: "'a zskiplistNode" assume "r + n < length ns"
    then have "\<not> r + n < unat stop" by (auto simp: n_def)
    then show "Some ((of_nat r :: u64) + 1 + of_nat n \<le> ucast stop) = Some False" using cont[of n] \<open>r + n < length ns\<close> by simp
  qed
  then show ?thesis by blast
qed

text \<open>What remains when the ranks from \<open>a\<close> to \<open>b\<close> are cut out.\<close>

lemma scores_cut:
  assumes sorted: "sorted_wrt (<) (node_keys ns)" and d: "distinct (map fst (node_index ns))" and ab: "a \<le> b"
  defines "m \<equiv> map_of (node_scores ns)"
  defines "gone \<equiv> \<lambda>e. m e \<noteq> None \<and> int a \<le> abs_rank m e False \<and> abs_rank m e False < int b"
  shows "map_of (node_scores (take a ns @ drop b ns)) = (\<lambda>e. if gone e then None else m e)"
    "card {e. gone e} = length ns - length (take a ns @ drop b ns)"
proof -
  let ?ns = "take a ns @ drop b ns"
  have sub: "node_index ?ns = take a (node_index ns) @ drop b (node_index ns)" by (simp add: node_index_def take_map drop_map)
  have d': "distinct (map fst (node_index ?ns))"
    using set_take_disj_set_drop_if_distinct[OF d ab] distinct_take[OF d, of a] distinct_drop[OF d, of b]
    unfolding sub by (simp add: take_map drop_map)
  have mem: "map_of (node_scores ?ns) e = Some s \<longleftrightarrow> (\<exists>j < length ns. node_keys ns ! j = (s, e) \<and> (j < a \<or> b \<le> j))" for e s
  proof -
    have "map_of (node_scores ?ns) e = Some s \<longleftrightarrow> (e, s) \<in> set (node_scores ?ns)"
      using d' fst_node_lists[of ?ns] by (simp add: map_of_eq_Some_iff)
    also have "\<dots> \<longleftrightarrow> (s, e) \<in> set (node_keys ?ns)" by (force simp: node_scores_def node_keys_def)
    also have "node_keys ?ns = take a (node_keys ns) @ drop b (node_keys ns)" by (simp add: node_keys_def take_map drop_map)
    also have "(s, e) \<in> set \<dots> \<longleftrightarrow> (\<exists>j < length ns. node_keys ns ! j = (s, e) \<and> (j < a \<or> b \<le> j))"
      by (auto simp: in_set_conv_nth) (metis add.commute le_add1 less_diff_conv, metis less_diff_conv le_add_diff_inverse2 add.commute diff_less_mono)
    finally show ?thesis .
  qed
  have rank: "abs_rank m e False = int j" if "j < length ns" "node_keys ns ! j = (s, e)" for j s e
    using abs_rank_nodes[OF sorted d that(1), of _ _ s e False] that by (cases "ns ! j") (simp add: m_def node_keys_def)
  have m: "m e = Some s \<longleftrightarrow> (\<exists>j < length ns. node_keys ns ! j = (s, e))" for e s unfolding m_def by (rule scores_iff[OF d])
  show new: "map_of (node_scores ?ns) = (\<lambda>e. if gone e then None else m e)"
  proof
    fix e
    show "map_of (node_scores ?ns) e = (if gone e then None else m e)"
    proof (cases "m e")
      case None
      then have "map_of (node_scores ?ns) e = None" using mem m by (metis not_None_eq)
      then show ?thesis using None by simp
    next
      case (Some s)
      then obtain j where j: "j < length ns" "node_keys ns ! j = (s, e)" using m by blast
      have g: "gone e \<longleftrightarrow> a \<le> j \<and> j < b" using rank[OF j] Some by (simp add: gone_def)
      show ?thesis
      proof (cases "gone e")
        case False
        then have "map_of (node_scores ?ns) e = Some s" using mem j g by force
        then show ?thesis using False Some by simp
      next
        case True
        have "map_of (node_scores ?ns) e \<noteq> Some t" for t
        proof
          assume "map_of (node_scores ?ns) e = Some t"
          then obtain i where i: "i < length ns" "node_keys ns ! i = (t, e)" "i < a \<or> b \<le> i" using mem by blast
          then have "i = j" using rank[OF j] rank[OF i(1,2)] by simp
          then show False using i(3) g True by simp
        qed
        then show ?thesis using True by (cases "map_of (node_scores ?ns) e") auto
      qed
    qed
  qed
  have "dom m = {e. gone e} \<union> dom (map_of (node_scores ?ns))" "{e. gone e} \<inter> dom (map_of (node_scores ?ns)) = {}"
    unfolding new by (auto simp: gone_def split: if_splits)
  moreover have "finite (dom m)" by (simp add: m_def finite_dom_map_of)
  ultimately have "card (dom m) = card {e. gone e} + card (dom (map_of (node_scores ?ns)))"
    by (metis card_Un_disjoint finite_Un)
  then show "card {e. gone e} = length ns - length ?ns" using card_scores[OF d] card_scores[OF d'] by (simp add: m_def)
qed

subsection \<open>Properties\<close>

lemma zremrange_delete_spec:
  assumes z: "zset_nodes zs ns" and m: "m = map_of (node_scores ns)" and new: "map_of (node_scores ns') = (\<lambda>e. if gone e then None else m e)"
    and del: "\<forall>zs1. zset_nodes zs1 ns \<longrightarrow> (\<exists>zs2. del zs1 = Some (zs2, of_nat c) \<and> zset_nodes zs2 ns')"
  shows "\<exists>zs'. zremrange_delete env zs del = Some (zs', of_nat c, \<forall>e. m e \<noteq> None \<longrightarrow> gone e) \<and> zset_rep zs' (\<lambda>e. if gone e then None else m e)"
proof -
  have "ns' = [] \<longleftrightarrow> map_of (node_scores ns') = Map.empty" by (simp add: node_scores_def)
  then have empty: "(ns' = []) = (\<forall>e. m e \<noteq> None \<longrightarrow> gone e)" unfolding new fun_eq_iff by auto
  obtain zs' where "zremrange_delete env zs del = Some (zs', of_nat c, ns' = [])" "zset_nodes zs' ns'"
    using zremrange_delete_rep[OF z del] by blast
  then show ?thesis using zset_nodes_rep[of zs' ns'] unfolding empty new by blast
qed

definition example_zset :: "int \<Rightarrow> int \<Rightarrow> int \<Rightarrow> int zset" where
  "example_zset x y z =
     fst (the (do {
       zs \<leftarrow> createZset example_dict_type Map.empty 0;
       run_zset_ops (zset_step int_add) zs
         [ZAdd (example_env 1 [2147483647]) (Num x) [97] 0, ZAdd (example_env 2 [7, 2147483647]) (Num y) [98] 0,
          ZAdd (example_env 3 [2147483647]) (Num z) [99] 0]
     }))"

lemma example_zset_rep: "zset_rep (example_zset x y z) [[97] \<mapsto> x, [98] \<mapsto> y, [99] \<mapsto> z]"
proof -
  let ?ops = "[ZAdd (example_env 1 [2147483647]) (Num x) [97] 0, ZAdd (example_env 2 [7, 2147483647]) (Num y) [98] 0,
          ZAdd (example_env 3 [2147483647]) (Num z) [99] 0] :: (zenv, int) zset_op list"
  obtain zs where zs: "createZset example_dict_type (Map.empty :: int zheap) 0 = Some zs" "zset_rep zs Map.empty" "\<forall>y. y \<noteq> 0 \<longrightarrow> z_heap zs y = None"
    using createZset_rep[of Map.empty 0 example_dict_type] by auto
  have "\<forall>op\<in>set ?ops. z_usable zs (op_env op)" "sorted_wrt z_apart (map op_env ?ops)"
    using zs(3) by (simp_all add: z_usable_def z_apart_def example_env_def zslRandomLevel_def)
  then obtain st rs where "run_zset_ops (zset_step int_add) zs ?ops = Some (st, rs)" "case abs_zset_ops int_add Map.empty ?ops of (m', rs') \<Rightarrow> zset_rep st m' \<and> rs = rs'"
    using zs.run_refines[OF zs(2), of ?ops int_add] by auto
  moreover have "fst (abs_zset_ops int_add Map.empty ?ops) = [[97] \<mapsto> x, [98] \<mapsto> y, [99] \<mapsto> z]" by (simp add: abs_zadd_def)
  ultimately show ?thesis using zs(1) by (simp add: example_zset_def case_prod_beta)
qed

lemma example_ranks:
  "abs_rank [[97] \<mapsto> 3 :: int, [98] \<mapsto> 5, [99] \<mapsto> 9] [97] False = 0" "abs_rank [[97] \<mapsto> 3 :: int, [98] \<mapsto> 5, [99] \<mapsto> 9] [98] False = 1"
  "abs_rank [[97] \<mapsto> 3 :: int, [98] \<mapsto> 5, [99] \<mapsto> 9] [99] False = 2"
proof -
  have "{e. \<exists>t. [[97] \<mapsto> 3 :: int, [98] \<mapsto> 5, [99] \<mapsto> 9] e = Some t \<and> (t, e) < (3, [97 :: u8])} = {}"
    "{e. \<exists>t. [[97] \<mapsto> 3 :: int, [98] \<mapsto> 5, [99] \<mapsto> 9] e = Some t \<and> (t, e) < (5, [98 :: u8])} = {[97]}"
    "{e. \<exists>t. [[97] \<mapsto> 3 :: int, [98] \<mapsto> 5, [99] \<mapsto> 9] e = Some t \<and> (t, e) < (9, [99 :: u8])} = {[97], [98]}"
    by (auto split: if_splits)
  then show "abs_rank [[97] \<mapsto> 3 :: int, [98] \<mapsto> 5, [99] \<mapsto> 9] [97] False = 0" "abs_rank [[97] \<mapsto> 3 :: int, [98] \<mapsto> 5, [99] \<mapsto> 9] [98] False = 1"
    "abs_rank [[97] \<mapsto> 3 :: int, [98] \<mapsto> 5, [99] \<mapsto> 9] [99] False = 2"
    by (simp_all add: abs_rank_def)
qed

lemma zremrangebyscore_spec:
  assumes "zset_rep zs m"
  shows "let gone = (\<lambda>e. \<exists>s. m e = Some s \<and> score_in_range spec s) in
    \<exists>zs'. zremrangebyscore env zs spec = Some (zs', of_nat (card {e. gone e}), \<forall>e. m e \<noteq> None \<longrightarrow> gone e) \<and>
      zset_rep zs' (\<lambda>e. if gone e then None else m e)"
proof -
  define gone where "gone = (\<lambda>e. \<exists>s. m e = Some s \<and> score_in_range spec s)"
  obtain ns where ns: "zset_nodes zs ns" "m = map_of (node_scores ns)" using assms(1) by (auto simp: zset_rep_def)
  note d = zset_nodesD(2)[OF ns(1)]
  let ?ns = "filter (\<lambda>x. \<not> score_in_range spec (node_score x)) ns"
  have new: "map_of (node_scores ?ns) = (\<lambda>e. if gone e then None else m e)"
    using scores_filter(1)[OF d, of "\<lambda>_ s. \<not> score_in_range spec s"] by (auto simp: gone_def ns(2) fun_eq_iff split: option.split)
  have c: "card {e. gone e} = length (filter (\<lambda>x. score_in_range spec (node_score x)) ns)"
    using scores_filter(2)[OF d, of "\<lambda>_ s. score_in_range spec s"] by (simp add: gone_def ns(2))
  have "\<exists>zs'. zremrangebyscore env zs spec = Some (zs', of_nat (card {e. gone e}), \<forall>e. m e \<noteq> None \<longrightarrow> gone e) \<and>
      zset_rep zs' (\<lambda>e. if gone e then None else m e)"
    unfolding zremrangebyscore_def c using zslDeleteRangeByScore_rep by (intro zremrange_delete_spec[OF ns new] allI impI)
  then show ?thesis unfolding Let_def gone_def .
qed

text \<open>
  C14: ZREMRANGEBYSCORE on the skip list encoding removes exactly the elements whose score lies in the range,
  open or closed at either end, from list, dictionary and heap, returns their number and reports whether the set is
  empty.
\<close>

theorem zremrangebyscore_correct:
  assumes "zset_rep zs m"
  shows "let gone = (\<lambda>e. \<exists>s. m e = Some s \<and> score_in_range spec s) in
    \<exists>zs'. zremrangebyscore env zs spec = Some (zs', of_nat (card {e. gone e}), \<forall>e. m e \<noteq> None \<longrightarrow> gone e) \<and>
      zset_rep zs' (\<lambda>e. if gone e then None else m e)"
  using assms by (rule zremrangebyscore_spec)

theorem zremrangebyscore_correct_witness:
  "\<exists>zs'. zremrangebyscore (example_env 4 []) (example_zset 3 5 9) \<lparr>range_min = Num 3, range_max = Num 9, minex = True, maxex = False\<rparr> = Some (zs', 2, False) \<and>
    zset_rep zs' [[97] \<mapsto> 3]"
proof -
  let ?m = "[[97] \<mapsto> 3 :: int, [98] \<mapsto> 5, [99] \<mapsto> 9] :: sds \<rightharpoonup> int" and ?spec = "\<lparr>range_min = Num 3, range_max = Num 9, minex = True, maxex = False\<rparr> :: int zrangespec"
  have g: "(\<exists>s. ?m e = Some s \<and> score_in_range ?spec s) \<longleftrightarrow> e = [98] \<or> e = [99]" for e
    by (auto simp: score_in_range_def zslValueGteMin_def zslValueLteMax_def)
  have "{e. e = [98 :: u8] \<or> e = [99]} = {[98], [99]}" by auto
  then have c2: "of_nat (card {e. e = [98 :: u8] \<or> e = [99]}) = (2 :: u64)" by simp
  have f: "(\<forall>e. ?m e \<noteq> None \<longrightarrow> e = [98] \<or> e = [99]) = False" by auto
  have r: "(\<lambda>e. if e = [98] \<or> e = [99] then None else ?m e) = [[97] \<mapsto> 3]" by (auto simp: fun_eq_iff)
  from zremrangebyscore_correct[OF example_zset_rep[of 3 5 9], of ?spec "example_env 4 []"]
  show ?thesis unfolding Let_def g c2 f r .
qed

lemma zremrangebylex_spec:
  assumes "zset_rep zs m" "ran m \<subseteq> {s0}"
  shows "let gone = (\<lambda>e. m e \<noteq> None \<and> ele_in_range spec e) in
    \<exists>zs'. zremrangebylex env zs spec = Some (zs', of_nat (card {e. gone e}), \<forall>e. m e \<noteq> None \<longrightarrow> gone e) \<and>
      zset_rep zs' (\<lambda>e. if gone e then None else m e)"
proof -
  define gone where "gone = (\<lambda>e. m e \<noteq> None \<and> ele_in_range spec e)"
  obtain ns where ns: "zset_nodes zs ns" "m = map_of (node_scores ns)" using assms(1) by (auto simp: zset_rep_def)
  note d = zset_nodesD(2)[OF ns(1)]
  let ?ns = "filter (\<lambda>x. \<not> ele_in_range spec (node_ele x)) ns"
  have new: "map_of (node_scores ?ns) = (\<lambda>e. if gone e then None else m e)"
    using scores_filter(1)[OF d, of "\<lambda>e _. \<not> ele_in_range spec e"] by (auto simp: gone_def ns(2) fun_eq_iff split: option.split)
  have c: "card {e. gone e} = length (filter (\<lambda>x. ele_in_range spec (node_ele x)) ns)"
    using scores_filter(2)[OF d, of "\<lambda>e _. ele_in_range spec e"] by (simp add: gone_def ns(2))
  have "node_score x = s0" if x: "x \<in> set ns" for x
  proof -
    obtain j where j: "j < length ns" "x = ns ! j" using x by (metis in_set_conv_nth)
    then have "m (node_ele x) = Some (node_score x)" unfolding ns(2) scores_iff[OF d] using node_keys_nth[OF j(1)] by auto
    then show ?thesis using assms(2) by (auto simp: ran_def)
  qed
  then have eq: "\<forall>x\<in>set ns. node_score x = s0" by blast
  have "\<exists>zs'. zremrangebylex env zs spec = Some (zs', of_nat (card {e. gone e}), \<forall>e. m e \<noteq> None \<longrightarrow> gone e) \<and>
      zset_rep zs' (\<lambda>e. if gone e then None else m e)"
    unfolding zremrangebylex_def c using zslDeleteRangeByLex_rep[OF _ eq] by (intro zremrange_delete_spec[OF ns new] allI impI)
  then show ?thesis unfolding Let_def gone_def .
qed

text \<open>
  C40: ZREMRANGEBYLEX on a set whose elements have one score removes exactly the elements in the lexicographic range.
\<close>

theorem zremrangebylex_correct:
  assumes "zset_rep zs m" "ran m \<subseteq> {s0}"
  shows "let gone = (\<lambda>e. m e \<noteq> None \<and> ele_in_range spec e) in
    \<exists>zs'. zremrangebylex env zs spec = Some (zs', of_nat (card {e. gone e}), \<forall>e. m e \<noteq> None \<longrightarrow> gone e) \<and>
      zset_rep zs' (\<lambda>e. if gone e then None else m e)"
  using assms by (rule zremrangebylex_spec)

theorem zremrangebylex_correct_witness:
  "\<exists>zs'. zremrangebylex (example_env 4 []) (example_zset 1 1 1) \<lparr>lex_min = Minstring, lex_max = Str [98, 0], lex_minex = False, lex_maxex = True\<rparr> = Some (zs', 2, False) \<and>
    zset_rep zs' [[99] \<mapsto> 1]"
proof -
  let ?m = "[[97] \<mapsto> 1 :: int, [98] \<mapsto> 1, [99] \<mapsto> 1] :: sds \<rightharpoonup> int" and ?spec = "\<lparr>lex_min = Minstring, lex_max = Str [98, 0], lex_minex = False, lex_maxex = True\<rparr>"
  have g: "(?m e \<noteq> None \<and> ele_in_range ?spec e) \<longleftrightarrow> e = [97] \<or> e = [98]" for e
    by (auto simp: ele_in_range_def zslLexValueGteMin_def zslLexValueLteMax_def)
  have "{e. e = [97 :: u8] \<or> e = [98]} = {[97], [98]}" by auto
  then have c2: "of_nat (card {e. e = [97 :: u8] \<or> e = [98]}) = (2 :: u64)" by simp
  have "?m [99] \<noteq> None" "[99 :: u8] \<noteq> [97]" "[99 :: u8] \<noteq> [98]" by simp_all
  then have f: "(\<forall>e. ?m e \<noteq> None \<longrightarrow> e = [97] \<or> e = [98]) = False" by blast
  have r: "(\<lambda>e. if e = [97] \<or> e = [98] then None else ?m e) = [[99] \<mapsto> 1]" by (auto simp: fun_eq_iff)
  have "ran ?m \<subseteq> {1}" by (auto simp: ran_def split: if_splits)
  from zremrangebylex_correct[OF example_zset_rep[of 1 1 1] this, of ?spec "example_env 4 []"]
  show ?thesis unfolding Let_def g c2 f r .
qed

text \<open>The ranks of the elements are the positions, and the deletion of the positions from \<open>a\<close> to \<open>b\<close>.\<close>

lemma abs_rank_bounds:
  assumes "zset_nodes zs ns" "map_of (node_scores ns) e \<noteq> None"
  shows "0 \<le> abs_rank (map_of (node_scores ns)) e False" "abs_rank (map_of (node_scores ns)) e False < int (length ns)"
proof -
  note d = zset_nodesD(2)[OF assms(1)] and rep = zset_nodesD(1)[OF assms(1)]
  have sorted: "sorted_wrt (<) (node_keys ns)" using rep by (simp add: zsl_rep_def)
  obtain s where "map_of (node_scores ns) e = Some s" using assms(2) by blast
  then obtain j where j: "j < length ns" "node_keys ns ! j = (s, e)" unfolding scores_iff[OF d] by blast
  then have "abs_rank (map_of (node_scores ns)) e False = int j"
    using abs_rank_nodes[OF sorted d j(1), of _ _ s e False] by (cases "ns ! j") (simp add: node_keys_def)
  then show "0 \<le> abs_rank (map_of (node_scores ns)) e False" "abs_rank (map_of (node_scores ns)) e False < int (length ns)"
    using j(1) by simp_all
qed

lemma zremrange_ranks:
  assumes ns: "zset_nodes zs ns" "m = map_of (node_scores ns)" and ab: "a < b" "b \<le> length ns" and small: "length ns < 2 ^ 32"
    and gone: "\<forall>e. gone e \<longleftrightarrow> m e \<noteq> None \<and> int a \<le> abs_rank m e False \<and> abs_rank m e False < int b"
  shows "\<exists>zs'. zremrange_delete env zs (\<lambda>zs. zslDeleteRangeByRank env zs (of_nat (Suc a)) (of_nat b)) =
      Some (zs', of_nat (card {e. gone e}), \<forall>e. m e \<noteq> None \<longrightarrow> gone e) \<and> zset_rep zs' (\<lambda>e. if gone e then None else m e)"
proof -
  note d = zset_nodesD(2)[OF ns(1)] and rep = zset_nodesD(1)[OF ns(1)]
  have sorted: "sorted_wrt (<) (node_keys ns)" using rep by (simp add: zsl_rep_def)
  let ?ns = "take a ns @ drop b ns" and ?s = "of_nat (Suc a) :: u32" and ?t = "of_nat b :: u32"
  have "Suc a < 2 ^ 32" "b < 2 ^ 32" using ab small by auto
  then have us: "unat ?s = Suc a" "unat ?t = b" by (simp_all add: unat_of_nat del: of_nat_Suc)
  note cut = scores_cut[OF sorted d less_imp_le[OF ab(1)], folded ns(2), folded gone[rule_format]]
  have cnt: "card {e. gone e} = b - a" using cut(2) ab by simp
  have del: "\<forall>zs1. zset_nodes zs1 ns \<longrightarrow> (\<exists>zs2. zslDeleteRangeByRank env zs1 ?s ?t = Some (zs2, of_nat (b - a)) \<and> zset_nodes zs2 ?ns)"
  proof (intro allI impI)
    fix zs1 assume "zset_nodes zs1 ns"
    moreover have "min (Suc a - 1) (length ns) = a" "min (b - a) (length ns - a) = b - a" "a + (b - a) = b" "0 < Suc a" using ab by auto
    ultimately show "\<exists>zs2. zslDeleteRangeByRank env zs1 ?s ?t = Some (zs2, of_nat (b - a)) \<and> zset_nodes zs2 ?ns"
      using zslDeleteRangeByRank_rep[of zs1 ns ?s env ?t] unfolding us by (simp only:)
  qed
  show ?thesis using zremrange_delete_spec[OF ns cut(1) del, of env] unfolding cnt .
qed

lemma zremrangebyrank_spec:
  assumes "zset_rep zs m" "card (dom m) < 2 ^ 32"
  shows "let from_end = (\<lambda>i. if i < 0 then int (card (dom m)) + i else i);
      gone = (\<lambda>e. m e \<noteq> None \<and> from_end start \<le> abs_rank m e False \<and> abs_rank m e False \<le> from_end stop) in
    \<exists>zs'. zremrangebyrank env zs start stop = Some (zs', of_nat (card {e. gone e}), m \<noteq> Map.empty \<and> (\<forall>e. m e \<noteq> None \<longrightarrow> gone e)) \<and>
      zset_rep zs' (\<lambda>e. if gone e then None else m e)"
proof -
  define from_end where "from_end = (\<lambda>i. if i < 0 then int (card (dom m)) + i else i)"
  define gone where "gone = (\<lambda>e. m e \<noteq> None \<and> from_end start \<le> abs_rank m e False \<and> abs_rank m e False \<le> from_end stop)"
  obtain ns where ns: "zset_nodes zs ns" "m = map_of (node_scores ns)" using assms(1) by (auto simp: zset_rep_def)
  have len: "card (dom m) = length ns" using card_scores[OF zset_nodesD(2)[OF ns(1)]] ns(2) by simp
  have llen: "sint (zsetLength zs) = int (length ns)"
    using zset_nodesD(1)[OF ns(1)] assms(2) len by (simp add: zsetLength_def zsl_rep_def sint_small_nat)
  define a where "a = (if from_end start < 0 then 0 else from_end start)"
  define b where "b = (if from_end stop \<ge> int (length ns) then int (length ns) - 1 else from_end stop)"
  have rank: "0 \<le> abs_rank m e False" "abs_rank m e False < int (length ns)" if "m e \<noteq> None" for e
    using abs_rank_bounds[OF ns(1)] that unfolding ns(2) by blast+
  have gone: "gone e \<longleftrightarrow> m e \<noteq> None \<and> a \<le> abs_rank m e False \<and> abs_rank m e False \<le> b" for e
    using rank[of e] by (auto simp: gone_def a_def b_def)
  have run: "zremrangebyrank env zs start stop =
    (if a > from_end stop \<or> a \<ge> int (length ns) then Some (zs, 0, False)
     else zremrange_delete env zs (\<lambda>zs. zslDeleteRangeByRank env zs (of_int (a + 1)) (of_int (b + 1))))"
    by (simp add: zremrangebyrank_def Let_def llen a_def b_def from_end_def len)
  have "\<exists>zs'. zremrangebyrank env zs start stop = Some (zs', of_nat (card {e. gone e}), m \<noteq> Map.empty \<and> (\<forall>e. m e \<noteq> None \<longrightarrow> gone e)) \<and>
      zset_rep zs' (\<lambda>e. if gone e then None else m e)"
  proof (cases "a > from_end stop \<or> a \<ge> int (length ns)")
    case True
    then have no: "\<not> gone e" for e using rank[of e] by (auto simp: gone b_def split: if_splits)
    then show ?thesis using run True assms(1) by (auto simp: fun_eq_iff)
  next
    case False
    have ab: "0 \<le> a" "a \<le> b" "b < int (length ns)" using False by (auto simp: a_def b_def)
    have "a + 1 = int (Suc (nat a))" "b + 1 = int (nat (b + 1))" using ab by simp_all
    then have w: "(of_int (a + 1) :: u32) = of_nat (Suc (nat a))" "(of_int (b + 1) :: u32) = of_nat (nat (b + 1))"
      by (metis of_int_of_nat_eq)+
    have g: "\<forall>e. gone e \<longleftrightarrow> m e \<noteq> None \<and> int (nat a) \<le> abs_rank m e False \<and> abs_rank m e False < int (nat (b + 1))"
      using ab by (auto simp: gone)
    have "m \<noteq> Map.empty" using ab len by auto
    moreover have "nat a < nat (b + 1)" "nat (b + 1) \<le> length ns" "length ns < 2 ^ 32" using ab assms(2) len by auto
    ultimately show ?thesis using zremrange_ranks[OF ns _ _ _ g, of env] run False unfolding w by simp
  qed
  then show ?thesis unfolding Let_def gone_def from_end_def .
qed

text \<open>
  C15: ZREMRANGEBYRANK with any two indexes, negative ones counting from the end, removes exactly the elements whose
  rank lies between them, for sets of less than \<open>2\<^sup>3\<^sup>2\<close> elements.
\<close>

theorem zremrangebyrank_correct:
  assumes "zset_rep zs m" "card (dom m) < 2 ^ 32"
  shows "let from_end = (\<lambda>i. if i < 0 then int (card (dom m)) + i else i);
      gone = (\<lambda>e. m e \<noteq> None \<and> from_end start \<le> abs_rank m e False \<and> abs_rank m e False \<le> from_end stop) in
    \<exists>zs'. zremrangebyrank env zs start stop = Some (zs', of_nat (card {e. gone e}), m \<noteq> Map.empty \<and> (\<forall>e. m e \<noteq> None \<longrightarrow> gone e)) \<and>
      zset_rep zs' (\<lambda>e. if gone e then None else m e)"
  using assms by (rule zremrangebyrank_spec)

theorem zremrangebyrank_correct_witness:
  "\<exists>zs'. zremrangebyrank (example_env 4 []) (example_zset 3 5 9) 1 (-1) = Some (zs', 2, False) \<and> zset_rep zs' [[97] \<mapsto> 3]"
proof -
  let ?m = "[[97] \<mapsto> 3 :: int, [98] \<mapsto> 5, [99] \<mapsto> 9] :: sds \<rightharpoonup> int"
  have dom: "dom ?m = {[97], [98], [99]}" by auto
  then have c: "card (dom ?m) = 3" by simp
  have g: "(?m e \<noteq> None \<and> (if (1 :: int) < 0 then int (card (dom ?m)) + 1 else 1) \<le> abs_rank ?m e False \<and>
      abs_rank ?m e False \<le> (if (-1 :: int) < 0 then int (card (dom ?m)) + -1 else -1)) \<longleftrightarrow> e = [98] \<or> e = [99]" for e
  proof (cases "e \<in> dom ?m")
    case True
    then show ?thesis unfolding c using example_ranks unfolding dom by auto
  qed auto
  have "{e. e = [98 :: u8] \<or> e = [99]} = {[98], [99]}" by auto
  then have c2: "of_nat (card {e. e = [98 :: u8] \<or> e = [99]}) = (2 :: u64)" by simp
  have f: "(?m \<noteq> Map.empty \<and> (\<forall>e. ?m e \<noteq> None \<longrightarrow> e = [98] \<or> e = [99])) = False" by auto
  have r: "(\<lambda>e. if e = [98] \<or> e = [99] then None else ?m e) = [[97] \<mapsto> 3]" by (auto simp: fun_eq_iff)
  have "card (dom ?m) < 2 ^ 32" unfolding c by simp
  from zremrangebyrank_correct[OF example_zset_rep[of 3 5 9] this, of 1 "-1" "example_env 4 []"]
  show ?thesis unfolding Let_def g c2 f r .
qed

end
