(* ===== verification/Zzl_Range.thy ===== *)
theory Zzl_Range
  imports Zzl Zset_Range
begin

text \<open>
  \<^verbatim>\<open>src/t_zset.c\<close>: ranges of sorted sets in the listpack encoding. The searches for the first and the last pair
  in a range of scores or elements, and the deletion of ranges by score, element and rank.
\<close>

subsection \<open>Ranges in a listpack\<close>

definition zzlPrev :: "bytes \<Rightarrow> int option \<Rightarrow> int option \<Rightarrow> (int option \<times> int option) option" where
  "zzlPrev zl eptr sptr =
     do {
       ep \<leftarrow> eptr;
       _ \<leftarrow> sptr;
       sptr \<leftarrow> lpPrev zl ep;
       case sptr of
         None \<Rightarrow> Some (None, None)
       | Some sp \<Rightarrow> do { eptr \<leftarrow> lpPrev zl sp; ep \<leftarrow> eptr; Some (Some ep, sptr) }
     }"

definition zzlIsInRange :: "'s::{linorder, zero} fconv \<Rightarrow> bytes \<Rightarrow> 's zrangespec \<Rightarrow> bool option" where
  "zzlIsInRange fc zl rng =
     (if double_less (range_max rng) (range_min rng) \<or>
         double_eq (range_min rng) (range_max rng) \<and> (minex rng \<or> maxex rng)
      then Some False
      else do {
        p \<leftarrow> lpSeek zl (-1);
        case p of
          None \<Rightarrow> Some False
        | Some _ \<Rightarrow> do {
            sc \<leftarrow> zzlGetScore fc zl p;
            if \<not> zslValueGteMin sc rng then Some False
            else do {
              p \<leftarrow> lpSeek zl 1;
              _ \<leftarrow> p;
              sc \<leftarrow> zzlGetScore fc zl p;
              Some (zslValueLteMax sc rng)
            }
          }
      })"

text \<open>
  The searches from either end, for both kinds of ranges: \<open>gte\<close> and \<open>lte\<close> compare the pair at a position with
  the bounds.
\<close>

partial_function (option) zzlFirst_loop :: "(int \<Rightarrow> bool option) \<Rightarrow> (int \<Rightarrow> bool option) \<Rightarrow> bytes \<Rightarrow> int option \<Rightarrow> int option option" where
  "zzlFirst_loop gte lte zl eptr =
     (case eptr of
        None \<Rightarrow> Some None
      | Some p \<Rightarrow> do {
          ge \<leftarrow> gte p;
          if ge then do { le \<leftarrow> lte p; Some (if le then eptr else None) }
          else do { sptr \<leftarrow> lpNext zl p; sp \<leftarrow> sptr; eptr \<leftarrow> lpNext zl sp; zzlFirst_loop gte lte zl eptr }
        })"

partial_function (option) zzlLast_loop :: "(int \<Rightarrow> bool option) \<Rightarrow> (int \<Rightarrow> bool option) \<Rightarrow> bytes \<Rightarrow> int option \<Rightarrow> int option option" where
  "zzlLast_loop gte lte zl eptr =
     (case eptr of
        None \<Rightarrow> Some None
      | Some p \<Rightarrow> do {
          le \<leftarrow> lte p;
          if le then do { ge \<leftarrow> gte p; Some (if ge then eptr else None) }
          else do {
            sptr \<leftarrow> lpPrev zl p;
            case sptr of
              None \<Rightarrow> zzlLast_loop gte lte zl None
            | Some sp \<Rightarrow> do { eptr \<leftarrow> lpPrev zl sp; ep \<leftarrow> eptr; zzlLast_loop gte lte zl (Some ep) }
          }
        })"

definition score_after :: "'s::{linorder, zero} fconv \<Rightarrow> bytes \<Rightarrow> int \<Rightarrow> 's double option" where
  "score_after fc zl eptr = do { sptr \<leftarrow> lpNext zl eptr; sp \<leftarrow> sptr; zzlGetScore fc zl (Some sp) }"

definition zzlFirstInRange :: "'s::{linorder, zero} fconv \<Rightarrow> bytes \<Rightarrow> 's zrangespec \<Rightarrow> int option option" where
  "zzlFirstInRange fc zl rng =
     do {
       eptr \<leftarrow> lpSeek zl 0;
       b \<leftarrow> zzlIsInRange fc zl rng;
       if \<not> b then Some None
       else zzlFirst_loop (\<lambda>p. map_option (\<lambda>sc. zslValueGteMin sc rng) (score_after fc zl p))
              (\<lambda>p. map_option (\<lambda>sc. zslValueLteMax sc rng) (score_after fc zl p)) zl eptr
     }"

definition zzlLastInRange :: "'s::{linorder, zero} fconv \<Rightarrow> bytes \<Rightarrow> 's zrangespec \<Rightarrow> int option option" where
  "zzlLastInRange fc zl rng =
     do {
       eptr \<leftarrow> lpSeek zl (-2);
       b \<leftarrow> zzlIsInRange fc zl rng;
       if \<not> b then Some None
       else zzlLast_loop (\<lambda>p. map_option (\<lambda>sc. zslValueGteMin sc rng) (score_after fc zl p))
              (\<lambda>p. map_option (\<lambda>sc. zslValueLteMax sc rng) (score_after fc zl p)) zl eptr
     }"

definition zzlLexValueGteMin :: "bytes \<Rightarrow> int \<Rightarrow> zlexrangespec \<Rightarrow> bool option" where
  "zzlLexValueGteMin zl p spec = map_option (\<lambda>value. zslLexValueGteMin value spec) (lpGetObject zl (Some p))"

definition zzlLexValueLteMax :: "bytes \<Rightarrow> int \<Rightarrow> zlexrangespec \<Rightarrow> bool option" where
  "zzlLexValueLteMax zl p spec = map_option (\<lambda>value. zslLexValueLteMax value spec) (lpGetObject zl (Some p))"

definition zzlIsInLexRange :: "bytes \<Rightarrow> zlexrangespec \<Rightarrow> bool option" where
  "zzlIsInLexRange zl rng =
     (let cmp = sdscmplex (lex_min rng) (lex_max rng) in
      if cmp > 0 \<or> cmp = 0 \<and> (lex_minex rng \<or> lex_maxex rng) then Some False
      else do {
        p \<leftarrow> lpSeek zl (-2);
        case p of
          None \<Rightarrow> Some False
        | Some p \<Rightarrow> do {
            ge \<leftarrow> zzlLexValueGteMin zl p rng;
            if \<not> ge then Some False
            else do { p \<leftarrow> lpSeek zl 0; p \<leftarrow> p; zzlLexValueLteMax zl p rng }
          }
      })"

definition zzlFirstInLexRange :: "bytes \<Rightarrow> zlexrangespec \<Rightarrow> int option option" where
  "zzlFirstInLexRange zl rng =
     do {
       eptr \<leftarrow> lpSeek zl 0;
       b \<leftarrow> zzlIsInLexRange zl rng;
       if \<not> b then Some None
       else zzlFirst_loop (\<lambda>p. zzlLexValueGteMin zl p rng) (\<lambda>p. zzlLexValueLteMax zl p rng) zl eptr
     }"

definition zzlLastInLexRange :: "bytes \<Rightarrow> zlexrangespec \<Rightarrow> int option option" where
  "zzlLastInLexRange zl rng =
     do {
       eptr \<leftarrow> lpSeek zl (-2);
       b \<leftarrow> zzlIsInLexRange zl rng;
       if \<not> b then Some None
       else zzlLast_loop (\<lambda>p. zzlLexValueGteMin zl p rng) (\<lambda>p. zzlLexValueLteMax zl p rng) zl eptr
     }"

subsection \<open>Deletion\<close>

partial_function (option) zzlDelete_loop ::
  "(bytes \<Rightarrow> int \<Rightarrow> int \<Rightarrow> bool option) \<Rightarrow> allocator \<Rightarrow> bytes \<Rightarrow> int option \<Rightarrow> u64 \<Rightarrow> (bytes \<times> u64) option" where
  "zzlDelete_loop lte A zl eptr num =
     (case eptr of
        None \<Rightarrow> Some (zl, num)
      | Some p \<Rightarrow> do {
          sptr \<leftarrow> lpNext zl p;
          case sptr of
            None \<Rightarrow> Some (zl, num)
          | Some sp \<Rightarrow> do {
              le \<leftarrow> lte zl p sp;
              if le then do {
                (zl, eptr) \<leftarrow> lpDeleteRangeWithEntry A zl p 2;
                zzlDelete_loop lte A zl eptr (num + 1)
              }
              else Some (zl, num)
            }
        })"

definition zzlDeleteRangeByScore :: "allocator \<Rightarrow> 's::{linorder, zero} fconv \<Rightarrow> bytes \<Rightarrow> 's zrangespec \<Rightarrow> (bytes \<times> u64) option" where
  "zzlDeleteRangeByScore A fc zl rng =
     do {
       eptr \<leftarrow> zzlFirstInRange fc zl rng;
       case eptr of
         None \<Rightarrow> Some (zl, 0)
       | Some _ \<Rightarrow> zzlDelete_loop (\<lambda>zl p sp. map_option (\<lambda>sc. zslValueLteMax sc rng) (zzlGetScore fc zl (Some sp))) A zl eptr 0
     }"

definition zzlDeleteRangeByLex :: "allocator \<Rightarrow> bytes \<Rightarrow> zlexrangespec \<Rightarrow> (bytes \<times> u64) option" where
  "zzlDeleteRangeByLex A zl rng =
     do {
       eptr \<leftarrow> zzlFirstInLexRange zl rng;
       case eptr of
         None \<Rightarrow> Some (zl, 0)
       | Some _ \<Rightarrow> zzlDelete_loop (\<lambda>zl p sp. zzlLexValueLteMax zl p rng) A zl eptr 0
     }"

text \<open>The ranks are 1-based; the arithmetic is that of \<open>unsigned int\<close>.\<close>

definition zzlDeleteRangeByRank :: "allocator \<Rightarrow> bytes \<Rightarrow> u32 \<Rightarrow> u32 \<Rightarrow> (bytes \<times> u64) option" where
  "zzlDeleteRangeByRank A zl start stop =
     (let num = (stop - start) + 1 in
      do { zl \<leftarrow> lpDeleteRange A zl (int (unat (2 * (start - 1)))) (unat (2 * num)); Some (zl, ucast num) })"

subsection \<open>Correctness of the searches\<close>

definition gte_at :: "'s::{linorder, zero} fconv \<Rightarrow> ('s \<times> sds) list \<Rightarrow> (int \<Rightarrow> bool option) \<Rightarrow> ('s \<times> sds \<Rightarrow> bool) \<Rightarrow> bool" where
  "gte_at fc ps f P \<longleftrightarrow> (\<forall>i<length ps. f (epos fc ps i) = Some (P (ps ! i)))"

lemma zzlFirst_loop_rep:
  assumes rep: "zzl_rep fc zl ps" and f: "gte_at fc ps gte G" "gte_at fc ps lte L"
    and i: "i \<le> j" "j \<le> length ps" "\<And>k. i \<le> k \<Longrightarrow> k < j \<Longrightarrow> \<not> G (ps ! k)" "j < length ps \<Longrightarrow> G (ps ! j)"
  shows "zzlFirst_loop gte lte zl (epos_opt fc ps i) = Some (if j < length ps \<and> L (ps ! j) then Some (epos fc ps j) else None)"
  using i(1,3)
proof (induction "j - i" arbitrary: i)
  case 0
  then show ?case using f i(2,4) by (subst zzlFirst_loop.simps) (auto simp: epos_opt_def gte_at_def)
next
  case (Suc n)
  then have l: "i < j" "i < length ps" using i(2) by auto
  then have "zzlFirst_loop gte lte zl (epos_opt fc ps (Suc i)) = Some (if j < length ps \<and> L (ps ! j) then Some (epos fc ps j) else None)"
    using Suc by simp
  then show ?case using l f(1) Suc.prems(2)[of i] zzl_next[OF rep l(2)]
    by (subst zzlFirst_loop.simps) (simp add: epos_opt_def[of fc ps i] gte_at_def)
qed

text \<open>Stepping back; the position before \<open>i\<close> is the one with index \<open>i - 1\<close>.\<close>

definition before_opt :: "'s::{linorder, zero} fconv \<Rightarrow> ('s \<times> sds) list \<Rightarrow> nat \<Rightarrow> int option" where
  "before_opt fc ps i = (if 0 < i then Some (epos fc ps (i - 1)) else None)"

lemma zzl_prev:
  assumes "zzl_rep fc zl ps" "i < length ps"
  shows "lpPrev zl (epos fc ps i) = Some (if 0 < i then Some (spos fc ps (i - 1)) else None)"
    "lpPrev zl (spos fc ps i) = Some (Some (epos fc ps i))"
proof -
  have r: "lp_rep zl (zzl_payloads fc ps)" using assms(1) by (simp add: zzl_rep_def)
  have "2 * i - 1 = Suc (2 * (i - 1))" if "0 < i" using that by simp
  then show "lpPrev zl (epos fc ps i) = Some (if 0 < i then Some (spos fc ps (i - 1)) else None)"
    "lpPrev zl (spos fc ps i) = Some (Some (epos fc ps i))"
    using lpPrev_rep[OF r, of "2 * i"] lpPrev_rep[OF r, of "Suc (2 * i)"] assms(2)
    by (auto simp: epos_def spos_def)
qed

lemma zzlLast_loop_rep:
  assumes rep: "zzl_rep fc zl ps" and f: "gte_at fc ps gte G" "gte_at fc ps lte L"
    and i: "j \<le> i" "i \<le> length ps" "\<And>k. j \<le> k \<Longrightarrow> k < i \<Longrightarrow> \<not> L (ps ! k)" "0 < j \<Longrightarrow> L (ps ! (j - 1))"
  shows "zzlLast_loop gte lte zl (before_opt fc ps i) = Some (if 0 < j \<and> G (ps ! (j - 1)) then Some (epos fc ps (j - 1)) else None)"
  using i(1-3)
proof (induction "i - j" arbitrary: i)
  case 0
  then show ?case using f i(2,4) by (subst zzlLast_loop.simps) (auto simp: before_opt_def gte_at_def)
next
  case (Suc n)
  then obtain k where k: "i = Suc k" "j \<le> k" "k < length ps" by (cases i) auto
  then have "zzlLast_loop gte lte zl (before_opt fc ps k) = Some (if 0 < j \<and> G (ps ! (j - 1)) then Some (epos fc ps (j - 1)) else None)"
    using Suc by simp
  moreover have "lte (epos fc ps k) = Some False" using f(2) k Suc.prems(3)[of k] by (simp add: gte_at_def)
  ultimately show ?case using k zzl_prev(1)[OF rep k(3)] zzl_prev(2)[OF rep, of "k - 1"]
    by (subst zzlLast_loop.simps) (auto simp: before_opt_def)
qed

lemma zzl_ends:
  assumes "zzl_rep fc zl ps" "ps \<noteq> []"
  shows "lpSeek zl (-1) = Some (Some (spos fc ps (length ps - 1)))" "lpSeek zl 1 = Some (Some (spos fc ps 0))"
proof -
  have r: "lp_rep zl (zzl_payloads fc ps)" using assms(1) by (simp add: zzl_rep_def)
  have "seek_index (2 * length ps) (-1) = Some (Suc (2 * (length ps - 1)))" "seek_index (2 * length ps) 1 = Some 1"
    using assms(2) by (cases ps; simp add: seek_index_def)+
  then show "lpSeek zl (-1) = Some (Some (spos fc ps (length ps - 1)))" "lpSeek zl 1 = Some (Some (spos fc ps 0))"
    using lpSeek_rep[OF r] by (simp_all add: spos_def)
qed

lemma zzl_last: "zzl_rep fc zl ps \<Longrightarrow> lpSeek zl (-2) = Some (before_opt fc ps (length ps))"
proof -
  assume r: "zzl_rep fc zl ps"
  have "seek_index (2 * length ps) (-2) = (if ps = [] then None else Some (2 * (length ps - 1)))"
    by (cases ps; simp add: seek_index_def)
  then show ?thesis using lpSeek_rep[of zl "zzl_payloads fc ps" "-2"] r by (simp add: zzl_rep_def before_opt_def epos_def)
qed

lemma pairs_sorted: "zzl_rep fc zl ps \<Longrightarrow> sorted_wrt (\<lambda>x y. fst x \<le> fst y) ps"
  by (rule sorted_wrt_mono_rel[of _ "(<)"]) (auto simp: zzl_rep_def)

lemma sorted_ends:
  assumes "sorted_wrt R ps" "k \<in> set ps"
  shows "k = ps ! 0 \<or> R (ps ! 0) k" "k = ps ! (length ps - 1) \<or> R k (ps ! (length ps - 1))"
proof -
  obtain i where i: "i < length ps" "k = ps ! i" using assms(2) by (auto simp: in_set_conv_nth)
  show "k = ps ! 0 \<or> R (ps ! 0) k" using i sorted_wrt_nth_less[OF assms(1), of 0 i] by (cases i) auto
  show "k = ps ! (length ps - 1) \<or> R k (ps ! (length ps - 1))"
    using i sorted_wrt_nth_less[OF assms(1), of i "length ps - 1"] by (cases "i = length ps - 1") auto
qed

text \<open>The quick test returns false only if nothing is in the range.\<close>

lemma zzlIsInRange_rep:
  assumes fc: "fconv_ok fc" and rep: "zzl_rep fc zl ps"
  shows "\<exists>b. zzlIsInRange fc zl rng = Some b \<and> (\<not> b \<longrightarrow> (\<forall>k\<in>set ps. \<not> score_in_range rng (fst k)))"
proof (cases "double_less (range_max rng) (range_min rng) \<or> double_eq (range_min rng) (range_max rng) \<and> (minex rng \<or> maxex rng)")
  case True
  then have "\<not> score_in_range rng s" for s
    by (cases "range_min rng"; cases "range_max rng") (auto simp: score_in_range_tests zslValueGteMin_def zslValueLteMax_def split: if_splits)
  then show ?thesis using True by (auto simp: zzlIsInRange_def)
next
  case no: False
  show ?thesis
  proof (cases "ps = []")
    case True
    then have "lpSeek zl (-1) = Some None" using lpSeek_rep[of zl "[]" "-1"] rep by (simp add: zzl_rep_def seek_index_def)
    then show ?thesis using True no by (auto simp: zzlIsInRange_def)
  next
    case False
    let ?l = "fst (ps ! (length ps - 1))" and ?f = "fst (ps ! 0)"
    have i: "length ps - 1 < length ps" "0 < length ps" using False by auto
    have run: "zzlIsInRange fc zl rng = Some (zslValueGteMin (Num ?l) rng \<and> zslValueLteMax (Num ?f) rng)"
      using no zzl_ends[OF rep False] zzlGetScore_rep[OF fc rep i(1)] zzlGetScore_rep[OF fc rep i(2)] by (auto simp: zzlIsInRange_def)
    have "?f \<le> fst k \<and> fst k \<le> ?l" if "k \<in> set ps" for k
      using sorted_ends[OF pairs_sorted[OF rep] that] by auto
    then show ?thesis using run range_mono[where spec = rng] by (fastforce simp: score_in_range_tests)
  qed
qed

lemma zzlIsInLexRange_rep:
  assumes rep: "zzl_rep fc zl ps" and sorted: "sorted_wrt (\<lambda>x y. snd x < snd y) ps"
  shows "\<exists>b. zzlIsInLexRange zl rng = Some b \<and> (\<not> b \<longrightarrow> (\<forall>k\<in>set ps. \<not> ele_in_range rng (snd k)))"
proof (cases "sdscmplex (lex_min rng) (lex_max rng) > 0 \<or> sdscmplex (lex_min rng) (lex_max rng) = 0 \<and> (lex_minex rng \<or> lex_maxex rng)")
  case True
  have "\<not> ele_in_range rng e" for e
  proof -
    have "sdscmp e a = 0 \<longleftrightarrow> e = a" "sdscmp e a > 0 \<longleftrightarrow> a < e" "sdscmp e a < 0 \<longleftrightarrow> e < a" for e a
      using sdscmp_order[of e a] sdscmp_less[of e a] by (auto dest: linorder_neqE)
    then show ?thesis using True
      by (cases "lex_min rng"; cases "lex_max rng")
        (auto simp: ele_in_range_tests zslLexValueGteMin_def zslLexValueLteMax_def order_le_less split: if_splits)
  qed
  then show ?thesis using True by (auto simp: zzlIsInLexRange_def Let_def)
next
  case no: False
  show ?thesis
  proof (cases "ps = []")
    case True
    then show ?thesis using zzl_last[OF rep] no by (auto simp: zzlIsInLexRange_def Let_def before_opt_def)
  next
    case False
    let ?l = "snd (ps ! (length ps - 1))" and ?f = "snd (ps ! 0)"
    have i: "length ps - 1 < length ps" "0 < length ps" using False by auto
    have run: "zzlIsInLexRange zl rng = Some (zslLexValueGteMin ?l rng \<and> zslLexValueLteMax ?f rng)"
      using no False zzl_last[OF rep] zzl_first[OF rep] lpGetObject_rep[OF rep i(1)] lpGetObject_rep[OF rep i(2)]
      by (auto simp: zzlIsInLexRange_def Let_def before_opt_def epos_opt_def zzlLexValueGteMin_def zzlLexValueLteMax_def)
    have "?f \<le> snd k \<and> snd k \<le> ?l" if "k \<in> set ps" for k
      using sorted_ends[OF sorted that] by auto
    then show ?thesis using run lex_mono[where spec = rng] by (fastforce simp: ele_in_range_tests)
  qed
qed

text \<open>The first and the last position in the range, or none.\<close>

definition first_in :: "'s::{linorder, zero} fconv \<Rightarrow> ('s \<times> sds) list \<Rightarrow> ('s \<times> sds \<Rightarrow> bool) \<Rightarrow> int option \<Rightarrow> bool" where
  "first_in fc ps inr r \<longleftrightarrow>
     (case r of
        None \<Rightarrow> \<forall>k\<in>set ps. \<not> inr k
      | Some p \<Rightarrow> \<exists>i<length ps. p = epos fc ps i \<and> inr (ps ! i) \<and> (\<forall>j<i. \<not> inr (ps ! j)))"

definition last_in :: "'s::{linorder, zero} fconv \<Rightarrow> ('s \<times> sds) list \<Rightarrow> ('s \<times> sds \<Rightarrow> bool) \<Rightarrow> int option \<Rightarrow> bool" where
  "last_in fc ps inr r \<longleftrightarrow>
     (case r of
        None \<Rightarrow> \<forall>k\<in>set ps. \<not> inr k
      | Some p \<Rightarrow> \<exists>i<length ps. p = epos fc ps i \<and> inr (ps ! i) \<and> (\<forall>j. i < j \<longrightarrow> j < length ps \<longrightarrow> \<not> inr (ps ! j)))"

lemma zzlFirst_result:
  assumes rep: "zzl_rep fc zl ps" and f: "gte_at fc ps gte G" "gte_at fc ps lte L"
    and R: "sorted_wrt R ps" "\<forall>x y. R x y \<longrightarrow> G x \<longrightarrow> G y" "\<forall>x y. R x y \<longrightarrow> L y \<longrightarrow> L x"
    and b: "\<not> b \<longrightarrow> (\<forall>k\<in>set ps. \<not> (G k \<and> L k))"
  shows "\<exists>r. (if \<not> b then Some None else zzlFirst_loop gte lte zl (epos_opt fc ps 0)) = Some r \<and> first_in fc ps (\<lambda>k. G k \<and> L k) r"
proof -
  define j where "j = length (takeWhile (\<lambda>k. \<not> G k) ps)"
  have j: "j \<le> length ps" "\<And>k. k < j \<Longrightarrow> \<not> G (ps ! k)" "j < length ps \<Longrightarrow> G (ps ! j)"
    using length_takeWhile_le[of _ ps] nth_mem[of _ "takeWhile (\<lambda>k. \<not> G k) ps"] takeWhile_nth[of _ "\<lambda>k. \<not> G k" ps]
      nth_length_takeWhile[of "\<lambda>k. \<not> G k" ps] by (auto simp: j_def dest: set_takeWhileD)
  have loop: "zzlFirst_loop gte lte zl (epos_opt fc ps 0) = Some (if j < length ps \<and> L (ps ! j) then Some (epos fc ps j) else None)"
    using zzlFirst_loop_rep[OF rep f _ j(1), of 0] j(2,3) by simp
  have "first_in fc ps (\<lambda>k. G k \<and> L k) (if j < length ps \<and> L (ps ! j) then Some (epos fc ps j) else None)"
  proof (cases "j < length ps \<and> L (ps ! j)")
    case True
    then show ?thesis using j by (auto simp: first_in_def)
  next
    case False
    have "\<not> (G (ps ! k) \<and> L (ps ! k))" if "k < length ps" for k
    proof (cases "k < j")
      case no: False
      then have "k = j \<or> R (ps ! j) (ps ! k)" using sorted_wrt_nth_less[OF R(1), of j k] that by (cases "k = j") auto
      then show ?thesis using False no that R(3)[rule_format, of "ps ! j" "ps ! k"] by auto
    qed (use j(2) in auto)
    then have "\<forall>k\<in>set ps. \<not> (G k \<and> L k)" by (metis in_set_conv_nth)
    then show ?thesis using False by (auto simp: first_in_def)
  qed
  then show ?thesis using loop b by (auto simp: first_in_def)
qed

lemma zzlLast_result:
  assumes rep: "zzl_rep fc zl ps" and f: "gte_at fc ps gte G" "gte_at fc ps lte L"
    and R: "sorted_wrt R ps" "\<forall>x y. R x y \<longrightarrow> G x \<longrightarrow> G y" "\<forall>x y. R x y \<longrightarrow> L y \<longrightarrow> L x"
    and b: "\<not> b \<longrightarrow> (\<forall>k\<in>set ps. \<not> (G k \<and> L k))"
  shows "\<exists>r. (if \<not> b then Some None else zzlLast_loop gte lte zl (before_opt fc ps (length ps))) = Some r \<and> last_in fc ps (\<lambda>k. G k \<and> L k) r"
proof -
  define j where "j = length (takeWhile L ps)"
  have j: "L (ps ! k) \<longleftrightarrow> k < j" if "k < length ps" for k using cut_range(6)[OF R(1,3,3)] that by (auto simp: j_def)
  have le: "j \<le> length ps" by (simp add: j_def length_takeWhile_le)
  have loop: "zzlLast_loop gte lte zl (before_opt fc ps (length ps)) = Some (if 0 < j \<and> G (ps ! (j - 1)) then Some (epos fc ps (j - 1)) else None)"
    using j le by (intro zzlLast_loop_rep[OF rep f]) auto
  have "last_in fc ps (\<lambda>k. G k \<and> L k) (if 0 < j \<and> G (ps ! (j - 1)) then Some (epos fc ps (j - 1)) else None)"
  proof (cases "0 < j \<and> G (ps ! (j - 1))")
    case True
    then show ?thesis using j le by (auto simp: last_in_def intro!: exI[of _ "j - 1"])
  next
    case False
    have "\<not> (G (ps ! k) \<and> L (ps ! k))" if k: "k < length ps" for k
    proof
      assume a: "G (ps ! k) \<and> L (ps ! k)"
      then have "k < j" using j[OF k] by simp
      then have "k = j - 1 \<or> R (ps ! k) (ps ! (j - 1))" using sorted_wrt_nth_less[OF R(1), of k "j - 1"] le by (cases "k = j - 1") auto
      then show False using False a \<open>k < j\<close> R(2)[rule_format, of "ps ! k" "ps ! (j - 1)"] by auto
    qed
    then have "\<forall>k\<in>set ps. \<not> (G k \<and> L k)" by (metis in_set_conv_nth)
    then show ?thesis using False by (auto simp: last_in_def)
  qed
  then show ?thesis using loop b by (auto simp: last_in_def)
qed

lemma zzl_score_in:
  assumes fc: "fconv_ok fc" and rep: "zzl_rep fc zl ps"
  shows "\<exists>r. zzlFirstInRange fc zl rng = Some r \<and> first_in fc ps (\<lambda>k. score_in_range rng (fst k)) r"
    "\<exists>r. zzlLastInRange fc zl rng = Some r \<and> last_in fc ps (\<lambda>k. score_in_range rng (fst k)) r"
proof -
  have f: "gte_at fc ps (\<lambda>p. map_option (\<lambda>sc. zslValueGteMin sc rng) (score_after fc zl p)) (\<lambda>k. zslValueGteMin (Num (fst k)) rng)"
    "gte_at fc ps (\<lambda>p. map_option (\<lambda>sc. zslValueLteMax sc rng) (score_after fc zl p)) (\<lambda>k. zslValueLteMax (Num (fst k)) rng)"
    using zzl_next(1)[OF rep] zzlGetScore_rep[OF fc rep] by (simp_all add: gte_at_def score_after_def)
  obtain b where b: "zzlIsInRange fc zl rng = Some b" "\<not> b \<longrightarrow> (\<forall>k\<in>set ps. \<not> (zslValueGteMin (Num (fst k)) rng \<and> zslValueLteMax (Num (fst k)) rng))"
    using zzlIsInRange_rep[OF fc rep] unfolding score_in_range_tests by blast
  have m: "\<forall>x y. fst x \<le> fst y \<longrightarrow> zslValueGteMin (Num (fst x)) rng \<longrightarrow> zslValueGteMin (Num (fst y)) rng"
    "\<forall>x y. fst x \<le> fst y \<longrightarrow> zslValueLteMax (Num (fst y)) rng \<longrightarrow> zslValueLteMax (Num (fst x)) rng"
    using range_mono by blast+
  show "\<exists>r. zzlFirstInRange fc zl rng = Some r \<and> first_in fc ps (\<lambda>k. score_in_range rng (fst k)) r"
    using zzlFirst_result[OF rep f pairs_sorted[OF rep] m b(2)] b(1) zzl_first[OF rep]
    by (simp add: zzlFirstInRange_def score_in_range_tests)
  show "\<exists>r. zzlLastInRange fc zl rng = Some r \<and> last_in fc ps (\<lambda>k. score_in_range rng (fst k)) r"
    using zzlLast_result[OF rep f pairs_sorted[OF rep] m b(2)] b(1) zzl_last[OF rep]
    by (simp add: zzlLastInRange_def score_in_range_tests)
qed

lemma zzl_lex_in:
  assumes rep: "zzl_rep fc zl ps" and sorted: "sorted_wrt (\<lambda>x y. snd x < snd y) ps"
  shows "\<exists>r. zzlFirstInLexRange zl rng = Some r \<and> first_in fc ps (\<lambda>k. ele_in_range rng (snd k)) r"
    "\<exists>r. zzlLastInLexRange zl rng = Some r \<and> last_in fc ps (\<lambda>k. ele_in_range rng (snd k)) r"
proof -
  have f: "gte_at fc ps (\<lambda>p. zzlLexValueGteMin zl p rng) (\<lambda>k. zslLexValueGteMin (snd k) rng)"
    "gte_at fc ps (\<lambda>p. zzlLexValueLteMax zl p rng) (\<lambda>k. zslLexValueLteMax (snd k) rng)"
    using lpGetObject_rep[OF rep] by (simp_all add: gte_at_def zzlLexValueGteMin_def zzlLexValueLteMax_def)
  obtain b where b: "zzlIsInLexRange zl rng = Some b" "\<not> b \<longrightarrow> (\<forall>k\<in>set ps. \<not> (zslLexValueGteMin (snd k) rng \<and> zslLexValueLteMax (snd k) rng))"
    using zzlIsInLexRange_rep[OF rep sorted] unfolding ele_in_range_tests by blast
  have m: "\<forall>x y. snd x < snd y \<longrightarrow> zslLexValueGteMin (snd x) rng \<longrightarrow> zslLexValueGteMin (snd y) rng"
    "\<forall>x y. snd x < snd y \<longrightarrow> zslLexValueLteMax (snd y) rng \<longrightarrow> zslLexValueLteMax (snd x) rng"
    using lex_mono less_imp_le by blast+
  show "\<exists>r. zzlFirstInLexRange zl rng = Some r \<and> first_in fc ps (\<lambda>k. ele_in_range rng (snd k)) r"
    using zzlFirst_result[OF rep f sorted m b(2)] b(1) zzl_first[OF rep] by (simp add: zzlFirstInLexRange_def ele_in_range_tests)
  show "\<exists>r. zzlLastInLexRange zl rng = Some r \<and> last_in fc ps (\<lambda>k. ele_in_range rng (snd k)) r"
    using zzlLast_result[OF rep f sorted m b(2)] b(1) zzl_last[OF rep] by (simp add: zzlLastInLexRange_def ele_in_range_tests)
qed

lemma zzlDelete_loop_rep:
  assumes rep: "zzl_rep fc zl ps" and n: "r + n \<le> length ps"
    and lte: "\<And>zl ps i. zzl_rep fc zl ps \<Longrightarrow> i < length ps \<Longrightarrow> lte zl (epos fc ps i) (spos fc ps i) = Some (L (ps ! i))"
    and go: "\<And>i. i < n \<Longrightarrow> L (ps ! (r + i))" "r + n < length ps \<Longrightarrow> \<not> L (ps ! (r + n))"
  shows "\<exists>zl'. zzlDelete_loop lte A zl (epos_opt fc ps r) c = Some (zl', c + of_nat n) \<and> zzl_rep fc zl' (take r ps @ drop (r + n) ps)"
  using rep n go
proof (induction n arbitrary: zl ps c)
  case 0
  show ?case
  proof (cases "r < length ps")
    case True
    then show ?thesis using 0 lte[OF 0(1) True] zzl_next(1)[OF 0(1) True] by (subst zzlDelete_loop.simps) (simp add: epos_opt_def)
  next
    case False
    then show ?thesis using 0 by (subst zzlDelete_loop.simps) (simp add: epos_opt_def)
  qed
next
  case (Suc n)
  have r: "r < length ps" "L (ps ! r)" using Suc.prems(2) Suc.prems(3)[of 0] by auto
  obtain zl1 where d: "lpDeleteRangeWithEntry A zl (epos fc ps r) 2 = Some (zl1, epos_opt fc (del_at r ps) r)" "zzl_rep fc zl1 (del_at r ps)"
    using zzl_delete_entry[OF Suc.prems(1) r(1)] by blast
  have nth: "del_at r ps ! (r + i) = ps ! (r + Suc i)" if "r + Suc i < length ps" for i using that by (simp add: nth_del_at)
  have "r + n \<le> length (del_at r ps)" "\<And>i. i < n \<Longrightarrow> L (del_at r ps ! (r + i))"
      "r + n < length (del_at r ps) \<Longrightarrow> \<not> L (del_at r ps ! (r + n))"
    using Suc.prems(2) Suc.prems(3)[of "Suc i" for i] Suc.prems(4) r(1) by (simp_all add: nth)
  then obtain zl' where "zzlDelete_loop lte A zl1 (epos_opt fc (del_at r ps) r) (c + 1) = Some (zl', c + 1 + of_nat n)"
      "zzl_rep fc zl' (take r (del_at r ps) @ drop (r + n) (del_at r ps))"
    using Suc.IH[OF d(2), of "c + 1"] by blast
  then show ?case using d(1) r lte[OF Suc.prems(1) r(1)] zzl_next(1)[OF Suc.prems(1) r(1)] del_at_range[OF Suc.prems(2)]
    by (subst zzlDelete_loop.simps) (simp add: epos_opt_def[of fc ps] ac_simps)
qed

lemma zzl_delete_result:
  assumes rep: "zzl_rep fc zl ps"
    and lte: "\<And>zl ps i. zzl_rep fc zl ps \<Longrightarrow> i < length ps \<Longrightarrow> lte zl (epos fc ps i) (spos fc ps i) = Some (L (ps ! i))"
    and R: "sorted_wrt R ps" "\<forall>x y. R x y \<longrightarrow> G x \<longrightarrow> G y" "\<forall>x y. R x y \<longrightarrow> L y \<longrightarrow> L x"
    and first: "first_in fc ps (\<lambda>k. G k \<and> L k) r"
  shows "\<exists>zl'. (case r of None \<Rightarrow> Some (zl, 0) | Some _ \<Rightarrow> zzlDelete_loop lte A zl r 0) = Some (zl', of_nat (length (filter (\<lambda>k. G k \<and> L k) ps))) \<and>
    zzl_rep fc zl' (filter (\<lambda>k. \<not> (G k \<and> L k)) ps)"
proof (cases r)
  case None
  then have e: "filter (\<lambda>k. G k \<and> L k) ps = []" "filter (\<lambda>k. \<not> (G k \<and> L k)) ps = ps"
    using first by (auto simp: first_in_def filter_empty_conv filter_id_conv)
  show ?thesis unfolding e None using rep by simp
next
  case (Some p)
  then obtain i where i: "i < length ps" "p = epos fc ps i" "G (ps ! i)" "L (ps ! i)" "\<forall>j<i. \<not> (G (ps ! j) \<and> L (ps ! j))"
    using first by (auto simp: first_in_def)
  let ?P = "\<lambda>k. \<not> G k"
  have m: "\<forall>x y. R x y \<longrightarrow> ?P y \<longrightarrow> ?P x" using R(2) by blast
  note C = cut_range[OF R(1) m R(3)]
  let ?n = "length (takeWhile L (dropWhile ?P ps))"
  have "length (takeWhile ?P ps) = i"
  proof (rule linorder_cases[of "length (takeWhile ?P ps)" i])
    assume l: "length (takeWhile ?P ps) < i"
    let ?k = "length (takeWhile ?P ps)"
    have "G (ps ! ?k)" using C(6)[of ?k] l i(1) by simp
    moreover have "L (ps ! ?k)" using R(3)[rule_format, of "ps ! ?k" "ps ! i"] sorted_wrt_nth_less[OF R(1) l i(1)] i(4) by blast
    ultimately show ?thesis using i(5) l by blast
  next
    assume "i < length (takeWhile ?P ps)"
    then show ?thesis using C(6)[OF i(1)] i(3) by simp
  qed
  note C = C[unfolded this]
  obtain zl' where "zzlDelete_loop lte A zl (epos_opt fc ps i) 0 = Some (zl', 0 + of_nat ?n)" "zzl_rep fc zl' (take i ps @ drop (i + ?n) ps)"
    using zzlDelete_loop_rep[where A = A and c = 0 and L = L and lte = lte, OF rep C(3) lte C(4,5)] by blast
  then show ?thesis using Some i(1,2) C(1,2) by (simp add: epos_opt_def)
qed

lemma zzlDeleteRangeByScore_rep:
  assumes fc: "fconv_ok fc" and rep: "zzl_rep fc zl ps"
  shows "\<exists>zl'. zzlDeleteRangeByScore A fc zl rng = Some (zl', of_nat (length (filter (\<lambda>k. score_in_range rng (fst k)) ps))) \<and>
    zzl_rep fc zl' (filter (\<lambda>k. \<not> score_in_range rng (fst k)) ps)"
proof -
  obtain r where r: "zzlFirstInRange fc zl rng = Some r"
      "first_in fc ps (\<lambda>k. zslValueGteMin (Num (fst k)) rng \<and> zslValueLteMax (Num (fst k)) rng) r"
    using zzl_score_in(1)[OF fc rep] unfolding score_in_range_tests by blast
  have m: "\<forall>x y. fst x \<le> fst y \<longrightarrow> zslValueGteMin (Num (fst x)) rng \<longrightarrow> zslValueGteMin (Num (fst y)) rng"
    "\<forall>x y. fst x \<le> fst y \<longrightarrow> zslValueLteMax (Num (fst y)) rng \<longrightarrow> zslValueLteMax (Num (fst x)) rng"
    using range_mono by blast+
  have "map_option (\<lambda>sc. zslValueLteMax sc rng) (zzlGetScore fc zl (Some (spos fc ps i))) = Some (zslValueLteMax (Num (fst (ps ! i))) rng)"
    if "zzl_rep fc zl ps" "i < length ps" for zl ps i using zzlGetScore_rep[OF fc that] by simp
  from zzl_delete_result[where A = A, OF rep this pairs_sorted[OF rep] m r(2)] show ?thesis using r(1)
    by (simp add: zzlDeleteRangeByScore_def score_in_range_tests)
qed

lemma zzlDeleteRangeByLex_rep:
  assumes rep: "zzl_rep fc zl ps" and sorted: "sorted_wrt (\<lambda>x y. snd x < snd y) ps"
  shows "\<exists>zl'. zzlDeleteRangeByLex A zl rng = Some (zl', of_nat (length (filter (\<lambda>k. ele_in_range rng (snd k)) ps))) \<and>
    zzl_rep fc zl' (filter (\<lambda>k. \<not> ele_in_range rng (snd k)) ps)"
proof -
  obtain r where r: "zzlFirstInLexRange zl rng = Some r"
      "first_in fc ps (\<lambda>k. zslLexValueGteMin (snd k) rng \<and> zslLexValueLteMax (snd k) rng) r"
    using zzl_lex_in(1)[OF rep sorted] unfolding ele_in_range_tests by blast
  have m: "\<forall>x y. snd x < snd y \<longrightarrow> zslLexValueGteMin (snd x) rng \<longrightarrow> zslLexValueGteMin (snd y) rng"
    "\<forall>x y. snd x < snd y \<longrightarrow> zslLexValueLteMax (snd y) rng \<longrightarrow> zslLexValueLteMax (snd x) rng"
    using lex_mono less_imp_le by blast+
  have "zzlLexValueLteMax zl (epos fc ps i) rng = Some (zslLexValueLteMax (snd (ps ! i)) rng)"
    if "zzl_rep fc zl ps" "i < length ps" for zl ps i using lpGetObject_rep[OF that] by (simp add: zzlLexValueLteMax_def)
  from zzl_delete_result[where A = A, OF rep this sorted m r(2)] show ?thesis using r(1)
    by (simp add: zzlDeleteRangeByLex_def ele_in_range_tests)
qed

lemma zzlDeleteRangeByRank_rep:
  assumes rep: "zzl_rep fc zl ps" and ab: "a < b" "b \<le> length ps"
  shows "\<exists>zl'. zzlDeleteRangeByRank A zl (of_nat (Suc a)) (of_nat b) = Some (zl', of_nat (b - a)) \<and> zzl_rep fc zl' (take a ps @ drop b ps)"
proof -
  have lp: "lp_rep zl (zzl_payloads fc ps)" and len: "length ps \<le> 2 ^ 26" using rep by (auto simp: zzl_rep_def zzl_bound_def)
  have w: "unat (of_nat n :: u32) = n" if "n \<le> 2 ^ 27" for n using that by (simp add: unat_of_nat)
  have num: "(of_nat b :: u32) - of_nat (Suc a) + 1 = of_nat (b - a)" using ab by (simp add: of_nat_diff)
  have two: "2 * (of_nat (Suc a) - 1 :: u32) = of_nat (2 * a)" "2 * (of_nat (b - a) :: u32) = of_nat (2 * (b - a))" by simp_all
  have u: "unat (2 * (of_nat (Suc a) - 1 :: u32)) = 2 * a" "unat (2 * (of_nat (b - a) :: u32)) = 2 * (b - a)"
    unfolding two using ab len by (intro w, simp)+
  have uc: "ucast (of_nat (b - a) :: u32) = (of_nat (b - a) :: u64)"
  proof -
    have "unat (of_nat (b - a) :: u32) = b - a" using ab len by (intro w) simp
    then show ?thesis by (metis of_nat_unat)
  qed
  have "seek_index (length (zzl_payloads fc ps)) (int (2 * a)) = Some (2 * a)" using ab by (simp add: seek_index_def)
  moreover have "take (2 * a) (zzl_payloads fc ps) @ drop (2 * a + 2 * (b - a)) (zzl_payloads fc ps) = zzl_payloads fc (take a ps @ drop b ps)"
    using take_zzl_payloads[of a fc ps] drop_zzl_payloads[of b fc ps] ab by (simp flip: distrib_left)
  ultimately obtain zl' where "lpDeleteRange A zl (int (2 * a)) (2 * (b - a)) = Some zl'" "lp_rep zl' (zzl_payloads fc (take a ps @ drop b ps))"
    using lpDeleteRange_rep[OF lp, of A "int (2 * a)" "2 * (b - a)"] by auto
  then show ?thesis using zzl_rep_cut[OF rep, of a b zl'] ab(1) unfolding zzlDeleteRangeByRank_def Let_def num u uc by simp
qed

end
