(* ===== verification/Zobj_Range.thy ===== *)
theory Zobj_Range
  imports Zobj Zzl_Range
begin

text \<open>
  \<^verbatim>\<open>src/t_zset.c\<close>: deletion of ranges on sorted set objects (\<open>zremrangeGenericCommand\<close>) and the conversions of objects
  between the two encodings.
\<close>

subsection \<open>ZREMRANGE on objects\<close>

datatype 's zrange = ByScore "'s zrangespec" | ByLex zlexrangespec | ByRank int int

definition zzl_deleted :: "bytes \<times> u64 \<Rightarrow> (bytes \<times> u64 \<times> bool) option" where
  "zzl_deleted r = do { (zl, len) \<leftarrow> zzlLength (fst r); Some (zl, snd r, len = 0) }"

definition zzl_remrange :: "allocator \<Rightarrow> 's::{linorder, zero} fconv \<Rightarrow> bytes \<Rightarrow> 's zrange \<Rightarrow> (bytes \<times> u64 \<times> bool) option" where
  "zzl_remrange A fc zl rng =
     (case rng of
        ByScore spec \<Rightarrow> Option.bind (zzlDeleteRangeByScore A fc zl spec) zzl_deleted
      | ByLex spec \<Rightarrow> Option.bind (zzlDeleteRangeByLex A zl spec) zzl_deleted
      | ByRank start stop \<Rightarrow> do {
          (zl, len) \<leftarrow> zzlLength zl;
          let llen = int len;
          let start = (if start < 0 then llen + start else start);
          let stop = (if stop < 0 then llen + stop else stop);
          let start = (if start < 0 then 0 else start);
          if start > stop \<or> start \<ge> llen then Some (zl, 0, False)
          else
            let stop = (if stop \<ge> llen then llen - 1 else stop) in
            Option.bind (zzlDeleteRangeByRank A zl (of_int (start + 1)) (of_int (stop + 1))) zzl_deleted
        })"

definition zobj_remrange :: "'s::{linorder, zero} fconv \<Rightarrow> zoenv \<Rightarrow> 's zobj \<Rightarrow> 's zrange \<Rightarrow> ('s zobj \<times> u64 \<times> bool) option" where
  "zobj_remrange fc env ob rng =
     (case ob of
        ZListpack zl h \<Rightarrow> map_option (apfst (\<lambda>zl. ZListpack zl h)) (zzl_remrange (o_alloc env) fc zl rng)
      | ZSkiplist zs \<Rightarrow> map_option (apfst ZSkiplist)
          (case rng of
             ByScore spec \<Rightarrow> zremrangebyscore (o_env env) zs spec
           | ByLex spec \<Rightarrow> zremrangebylex (o_env env) zs spec
           | ByRank start stop \<Rightarrow> zremrangebyrank (o_env env) zs start stop))"

text \<open>What is removed: the specification for both encodings.\<close>

definition from_end :: "nat \<Rightarrow> int \<Rightarrow> int" where
  "from_end n i = (if i < 0 then int n + i else i)"

fun in_zrange :: "(sds \<rightharpoonup> 's::linorder) \<Rightarrow> 's zrange \<Rightarrow> sds \<Rightarrow> 's \<Rightarrow> bool" where
  "in_zrange m (ByScore spec) e s \<longleftrightarrow> score_in_range spec s"
| "in_zrange m (ByLex spec) e s \<longleftrightarrow> ele_in_range spec e"
| "in_zrange m (ByRank start stop) e s \<longleftrightarrow>
     from_end (card (dom m)) start \<le> abs_rank m e False \<and> abs_rank m e False \<le> from_end (card (dom m)) stop"

definition removed_by :: "(sds \<rightharpoonup> 's::linorder) \<Rightarrow> 's zrange \<Rightarrow> sds \<Rightarrow> bool" where
  "removed_by m rng e \<longleftrightarrow> (case m e of Some s \<Rightarrow> in_zrange m rng e s | None \<Rightarrow> False)"

lemma pair_map_filter:
  assumes "distinct (map snd ps)"
  shows "pair_map (filter (\<lambda>k. P (snd k) (fst k)) ps) = (\<lambda>e. case pair_map ps e of Some s \<Rightarrow> if P e s then Some s else None | None \<Rightarrow> None)"
    "card {e. \<exists>s. pair_map ps e = Some s \<and> P e s} = length (filter (\<lambda>k. P (snd k) (fst k)) ps)"
proof -
  have n: "pair_nodes (filter (\<lambda>k. P (snd k) (fst k)) ps) = filter (\<lambda>x. P (node_ele x) (node_score x)) (pair_nodes ps)"
    by (simp add: pair_nodes_def filter_map comp_def node_ele_def node_score_def case_prod_beta)
  have d: "distinct (map fst (node_index (pair_nodes ps)))" using assms by (simp add: pair_nodes_lists)
  show "pair_map (filter (\<lambda>k. P (snd k) (fst k)) ps) = (\<lambda>e. case pair_map ps e of Some s \<Rightarrow> if P e s then Some s else None | None \<Rightarrow> None)"
    using scores_filter(1)[OF d, of P] unfolding n[symmetric] pair_nodes_lists .
  show "card {e. \<exists>s. pair_map ps e = Some s \<and> P e s} = length (filter (\<lambda>k. P (snd k) (fst k)) ps)"
    using scores_filter(2)[OF d, of P] pair_nodes_lists(3)[of "filter (\<lambda>k. P (snd k) (fst k)) ps"] unfolding n[symmetric] pair_nodes_lists(4) by simp
qed

lemma card_pair_map: "zzl_rep fc zl ps \<Longrightarrow> card (dom (pair_map ps)) = length ps"
  using card_scores[of "pair_nodes ps"] by (simp add: pair_nodes_lists zzl_rep_def)

lemma pair_map_empty: "pair_map ps = Map.empty \<longleftrightarrow> ps = []"
  by (cases ps) (auto simp: pair_map_def fun_eq_iff)

lemma zzl_deleted_rep:
  assumes "zzl_rep fc zl ps" "pair_map ps = (\<lambda>e. if gone e then None else m e)"
  shows "\<exists>zl'. zzl_deleted (zl, c) = Some (zl', c, \<forall>e. m e \<noteq> None \<longrightarrow> gone e) \<and> zzl_rep fc zl' ps"
proof -
  have "(\<forall>e. (if gone e then None else m e) = None) = (\<forall>e. m e \<noteq> None \<longrightarrow> gone e)" by (rule iff_allI) auto
  then have empty: "(length ps = 0) = (\<forall>e. m e \<noteq> None \<longrightarrow> gone e)" using pair_map_empty[of ps] unfolding assms(2) fun_eq_iff by simp
  obtain zl' where "zzlLength zl = Some (zl', length ps)" "zzl_rep fc zl' ps" using zzlLength_rep[OF assms(1)] by blast
  then show ?thesis unfolding empty[symmetric] by (simp add: zzl_deleted_def)
qed

lemma zzl_remrange_filter:
  assumes rep: "zzl_rep fc zl ps" and del: "del = Some (zl1, of_nat (length (filter (\<lambda>k. P (snd k) (fst k)) ps)))"
    "zzl_rep fc zl1 (filter (\<lambda>k. \<not> P (snd k) (fst k)) ps)"
    and gone: "\<forall>e. gone e \<longleftrightarrow> (\<exists>s. pair_map ps e = Some s \<and> P e s)"
  shows "\<exists>zl' ps'. Option.bind del zzl_deleted = Some (zl', of_nat (card {e. gone e}), \<forall>e. pair_map ps e \<noteq> None \<longrightarrow> gone e) \<and>
    zzl_rep fc zl' ps' \<and> length ps' \<le> length ps \<and> pair_map ps' = (\<lambda>e. if gone e then None else pair_map ps e)"
proof -
  have d: "distinct (map snd ps)" using rep by (simp add: zzl_rep_def)
  let ?ps = "filter (\<lambda>k. \<not> P (snd k) (fst k)) ps"
  have m: "pair_map ?ps = (\<lambda>e. if gone e then None else pair_map ps e)"
    unfolding pair_map_filter(1)[OF d, of "\<lambda>e s. \<not> P e s"] using gone by (auto simp: fun_eq_iff split: option.split)
  have c: "card {e. gone e} = length (filter (\<lambda>k. P (snd k) (fst k)) ps)" using pair_map_filter(2)[OF d, of P] gone by simp
  obtain zl' where "zzl_deleted (zl1, of_nat (card {e. gone e})) = Some (zl', of_nat (card {e. gone e}), \<forall>e. pair_map ps e \<noteq> None \<longrightarrow> gone e)"
      "zzl_rep fc zl' ?ps"
    using zzl_deleted_rep[OF del(2) m] by blast
  then show ?thesis using del(1) m c by (auto intro!: exI[of _ ?ps])
qed

lemma zzl_remrange_rank:
  assumes rep: "zzl_rep fc zl ps" and ab: "a < b" "b \<le> length ps"
    and gone: "\<forall>e. gone e \<longleftrightarrow> pair_map ps e \<noteq> None \<and> int a \<le> abs_rank (pair_map ps) e False \<and> abs_rank (pair_map ps) e False < int b"
  shows "\<exists>zl' ps'. Option.bind (zzlDeleteRangeByRank A zl (of_nat (Suc a)) (of_nat b)) zzl_deleted =
      Some (zl', of_nat (card {e. gone e}), \<forall>e. pair_map ps e \<noteq> None \<longrightarrow> gone e) \<and>
    zzl_rep fc zl' ps' \<and> length ps' \<le> length ps \<and> pair_map ps' = (\<lambda>e. if gone e then None else pair_map ps e)"
proof -
  let ?ps = "take a ps @ drop b ps"
  have s: "sorted_wrt (<) (node_keys (pair_nodes ps))" "distinct (map fst (node_index (pair_nodes ps)))"
    using rep by (simp_all add: pair_nodes_lists zzl_rep_def)
  have n: "take a (pair_nodes ps) @ drop b (pair_nodes ps) = pair_nodes ?ps" by (simp add: pair_nodes_def take_map drop_map)
  note cut = scores_cut[OF s less_imp_le[OF ab(1)], unfolded n pair_nodes_lists, folded gone[rule_format]]
  obtain zl1 where del: "zzlDeleteRangeByRank A zl (of_nat (Suc a)) (of_nat b) = Some (zl1, of_nat (b - a))" "zzl_rep fc zl1 ?ps"
    using zzlDeleteRangeByRank_rep[OF rep ab] by blast
  have "card {e. gone e} = b - a" using cut(2) ab by simp
  moreover obtain zl' where "zzl_deleted (zl1, of_nat (b - a)) = Some (zl', of_nat (b - a), \<forall>e. pair_map ps e \<noteq> None \<longrightarrow> gone e)" "zzl_rep fc zl' ?ps"
    using zzl_deleted_rep[OF del(2) cut(1)] by blast
  ultimately show ?thesis using del(1) cut(1) ab by (auto intro!: exI[of _ ?ps])
qed

lemma zzl_rank_bounds:
  assumes "zzl_rep fc zl ps" "pair_map ps e \<noteq> None"
  shows "0 \<le> abs_rank (pair_map ps) e False" "abs_rank (pair_map ps) e False < int (length ps)"
proof -
  have s: "sorted_wrt (<) (node_keys (pair_nodes ps))" "distinct (map fst (node_index (pair_nodes ps)))"
    using assms(1) by (simp_all add: pair_nodes_lists zzl_rep_def)
  obtain c where "pair_map ps e = Some c" using assms(2) by blast
  then obtain i where i: "i < length ps" "ps ! i = (c, e)" using pair_map_iff[of ps e c] assms(1) by (auto simp: zzl_rep_def)
  then have "pair_nodes ps ! i = (0, 1, c, e)" by (simp add: pair_nodes_def)
  then have "abs_rank (pair_map ps) e False = int i"
    using abs_rank_nodes[OF s, of i 0 1 c e False] i(1) by (simp add: pair_nodes_lists)
  then show "0 \<le> abs_rank (pair_map ps) e False" "abs_rank (pair_map ps) e False < int (length ps)" using i(1) by simp_all
qed

lemma zzl_remrange_rep:
  assumes fc: "fconv_ok fc" and rep: "zzl_rep fc zl ps" and ne: "ps \<noteq> []"
    and lex: "case rng of ByLex _ \<Rightarrow> ran (pair_map ps) \<subseteq> {s0} | _ \<Rightarrow> True"
  shows "\<exists>zl' ps'. zzl_remrange A fc zl rng =
      Some (zl', of_nat (card {e. removed_by (pair_map ps) rng e}), \<forall>e. pair_map ps e \<noteq> None \<longrightarrow> removed_by (pair_map ps) rng e) \<and>
    zzl_rep fc zl' ps' \<and> length ps' \<le> length ps \<and> pair_map ps' = (\<lambda>e. if removed_by (pair_map ps) rng e then None else pair_map ps e)"
proof (cases rng)
  case (ByScore spec)
  obtain zl1 where "zzlDeleteRangeByScore A fc zl spec = Some (zl1, of_nat (length (filter (\<lambda>k. score_in_range spec (fst k)) ps)))"
      "zzl_rep fc zl1 (filter (\<lambda>k. \<not> score_in_range spec (fst k)) ps)"
    using zzlDeleteRangeByScore_rep[OF fc rep] by blast
  moreover have "\<forall>e. removed_by (pair_map ps) rng e \<longleftrightarrow> (\<exists>s. pair_map ps e = Some s \<and> score_in_range spec s)"
    by (auto simp: removed_by_def ByScore split: option.split)
  moreover have "zzl_remrange A fc zl rng = Option.bind (zzlDeleteRangeByScore A fc zl spec) zzl_deleted" by (simp add: zzl_remrange_def ByScore)
  ultimately show ?thesis using zzl_remrange_filter[of fc zl ps _ zl1 "\<lambda>e s. score_in_range spec s", OF rep] by simp
next
  case (ByLex spec)
  have d: "distinct (map snd ps)" using rep by (simp add: zzl_rep_def)
  have eq: "fst k = s0" if "k \<in> set ps" for k
  proof -
    have "pair_map ps (snd k) = Some (fst k)" using pair_map_iff[OF d, of "snd k" "fst k"] that by (auto simp: in_set_conv_nth)
    then show ?thesis using lex by (auto simp: ran_def ByLex)
  qed
  have "sorted_wrt (<) ps" using rep by (simp add: zzl_rep_def)
  then have "sorted_wrt (\<lambda>x y. snd x < snd y) ps" by (rule sorted_wrt_mono_rel[rotated]) (use eq in \<open>auto simp: less_prod_def\<close>)
  then obtain zl1 where "zzlDeleteRangeByLex A zl spec = Some (zl1, of_nat (length (filter (\<lambda>k. ele_in_range spec (snd k)) ps)))"
      "zzl_rep fc zl1 (filter (\<lambda>k. \<not> ele_in_range spec (snd k)) ps)"
    using zzlDeleteRangeByLex_rep[OF rep] by blast
  moreover have "\<forall>e. removed_by (pair_map ps) rng e \<longleftrightarrow> (\<exists>s. pair_map ps e = Some s \<and> ele_in_range spec e)"
    by (auto simp: removed_by_def ByLex split: option.split)
  moreover have "zzl_remrange A fc zl rng = Option.bind (zzlDeleteRangeByLex A zl spec) zzl_deleted" by (simp add: zzl_remrange_def ByLex)
  ultimately show ?thesis using zzl_remrange_filter[of fc zl ps _ zl1 "\<lambda>e s. ele_in_range spec e", OF rep] by simp
next
  case (ByRank start stop)
  obtain zl0 where l: "zzlLength zl = Some (zl0, length ps)" "zzl_rep fc zl0 ps" using zzlLength_rep[OF rep] by blast
  have c: "card (dom (pair_map ps)) = length ps" by (rule card_pair_map[OF rep])
  let ?fe = "from_end (length ps)" and ?gone = "removed_by (pair_map ps) rng"
  define a where "a = (if ?fe start < 0 then 0 else ?fe start)"
  define b where "b = (if ?fe stop \<ge> int (length ps) then int (length ps) - 1 else ?fe stop)"
  note rank = zzl_rank_bounds[OF rep]
  have gone: "?gone e \<longleftrightarrow> pair_map ps e \<noteq> None \<and> a \<le> abs_rank (pair_map ps) e False \<and> abs_rank (pair_map ps) e False \<le> b" for e
    using rank[of e] by (auto simp: removed_by_def ByRank c a_def b_def split: option.split)
  have run: "zzl_remrange A fc zl rng =
    (if a > ?fe stop \<or> a \<ge> int (length ps) then Some (zl0, 0, False)
     else Option.bind (zzlDeleteRangeByRank A zl0 (of_int (a + 1)) (of_int (b + 1))) zzl_deleted)"
    by (simp add: zzl_remrange_def ByRank l(1) Let_def a_def b_def from_end_def)
  show ?thesis
  proof (cases "a > ?fe stop \<or> a \<ge> int (length ps)")
    case True
    then have no: "\<not> ?gone e" for e using rank[of e] by (auto simp: gone b_def split: if_splits)
    moreover have "\<not> (\<forall>e. pair_map ps e = None)" using pair_map_empty[of ps] ne by (auto simp: fun_eq_iff)
    ultimately show ?thesis using run True l(2) by auto
  next
    case False
    have ab: "0 \<le> a" "a \<le> b" "b < int (length ps)" using False by (auto simp: a_def b_def)
    have "a + 1 = int (Suc (nat a))" "b + 1 = int (nat (b + 1))" using ab by simp_all
    then have w: "(of_int (a + 1) :: u32) = of_nat (Suc (nat a))" "(of_int (b + 1) :: u32) = of_nat (nat (b + 1))"
      by (metis of_int_of_nat_eq)+
    have g: "\<forall>e. ?gone e \<longleftrightarrow> pair_map ps e \<noteq> None \<and> int (nat a) \<le> abs_rank (pair_map ps) e False \<and> abs_rank (pair_map ps) e False < int (nat (b + 1))"
      using ab by (auto simp: gone)
    have "nat a < nat (b + 1)" "nat (b + 1) \<le> length ps" using ab by auto
    then show ?thesis using zzl_remrange_rank[OF l(2) _ _ g, of A] run False unfolding w by simp
  qed
qed

lemma zobj_remrange_skiplist:
  assumes z: "zset_rep zs m" and ne: "m \<noteq> Map.empty" "card (dom m) < 2 ^ 32" and lex: "case rng of ByLex _ \<Rightarrow> ran m \<subseteq> {s0} | _ \<Rightarrow> True"
  shows "\<exists>zs'. zobj_remrange fc env (ZSkiplist zs) rng =
      Some (ZSkiplist zs', of_nat (card {e. removed_by m rng e}), \<forall>e. m e \<noteq> None \<longrightarrow> removed_by m rng e) \<and>
    zset_rep zs' (\<lambda>e. if removed_by m rng e then None else m e)"
proof (cases rng)
  case (ByScore spec)
  have "removed_by m rng = (\<lambda>e. \<exists>s. m e = Some s \<and> score_in_range spec s)"
    by (auto simp: removed_by_def ByScore fun_eq_iff split: option.split)
  then show ?thesis using zremrangebyscore_spec[OF z, of spec "o_env env"] by (auto simp: zobj_remrange_def ByScore Let_def)
next
  case (ByLex spec)
  have "removed_by m rng = (\<lambda>e. m e \<noteq> None \<and> ele_in_range spec e)"
    by (auto simp: removed_by_def ByLex fun_eq_iff split: option.split)
  then show ?thesis using zremrangebylex_spec[OF z lex[unfolded ByLex zrange.case], of spec "o_env env"] by (auto simp: zobj_remrange_def ByLex Let_def)
next
  case (ByRank start stop)
  let ?fe = "\<lambda>i. if i < 0 then int (card (dom m)) + i else i"
  have "removed_by m rng = (\<lambda>e. m e \<noteq> None \<and> ?fe start \<le> abs_rank m e False \<and> abs_rank m e False \<le> ?fe stop)"
    by (auto simp: removed_by_def ByRank from_end_def fun_eq_iff split: option.split)
  then show ?thesis using zremrangebyrank_spec[OF z ne(2), of start stop "o_env env"] ne(1)
    by (auto simp: zobj_remrange_def ByRank Let_def)
qed

subsection \<open>Conversions\<close>

datatype zencoding = OBJ_ENCODING_LISTPACK | OBJ_ENCODING_SKIPLIST

text \<open>From a skip list to a listpack: the nodes are appended in order and freed on the way.\<close>

partial_function (option) convert_to_listpack_loop :: "allocator \<Rightarrow> 's::{linorder, zero} fconv \<Rightarrow> 's zheap \<Rightarrow> bytes \<Rightarrow> addr option \<Rightarrow> ('s zheap \<times> bytes) option" where
  "convert_to_listpack_loop A fc h zl node =
     (case node of
        None \<Rightarrow> Some (h, zl)
      | Some x \<Rightarrow> do {
          el \<leftarrow> zslGetNodeElement h x;
          n \<leftarrow> h x;
          zl \<leftarrow> zzlInsertAt A fc zl None el (score n);
          next \<leftarrow> forward_at h x 0;
          h \<leftarrow> zslFreeNode h x;
          convert_to_listpack_loop A fc h zl next
        })"

definition convert_to_listpack :: "allocator \<Rightarrow> 's::{linorder, zero} fconv \<Rightarrow> 's zset \<Rightarrow> 's zobj option" where
  "convert_to_listpack A fc zs =
     do {
       zl \<leftarrow> lpNew A 0;
       node \<leftarrow> forward_at (z_heap zs) (header (z_zsl zs)) 0;
       h \<leftarrow> zslFreeNode (z_heap zs) (header (z_zsl zs));
       (h, zl) \<leftarrow> convert_to_listpack_loop A fc h zl node;
       Some (ZListpack zl h)
     }"

definition zsetConvertAndExpand ::
  "'s::{linorder, zero} fconv \<Rightarrow> zconf \<Rightarrow> zoenv \<Rightarrow> 's zobj \<Rightarrow> zencoding \<Rightarrow> nat \<Rightarrow> 's zobj option" where
  "zsetConvertAndExpand fc cfg env ob encoding cap =
     (case (ob, encoding) of
        (ZListpack zl h, OBJ_ENCODING_SKIPLIST) \<Rightarrow> map_option ZSkiplist (convert_to_skiplist fc cfg env zl h cap)
      | (ZSkiplist zs, OBJ_ENCODING_LISTPACK) \<Rightarrow> convert_to_listpack (o_alloc env) fc zs
      | _ \<Rightarrow> Some ob)"

definition zobjLength :: "'s zobj \<Rightarrow> ('s zobj \<times> u64) option" where
  "zobjLength ob =
     (case ob of
        ZListpack zl h \<Rightarrow> do { (zl, n) \<leftarrow> zzlLength zl; Some (ZListpack zl h, of_nat n) }
      | ZSkiplist zs \<Rightarrow> Some (ob, zsetLength zs))"

definition zsetConvert :: "'s::{linorder, zero} fconv \<Rightarrow> zconf \<Rightarrow> zoenv \<Rightarrow> 's zobj \<Rightarrow> zencoding \<Rightarrow> 's zobj option" where
  "zsetConvert fc cfg env ob encoding = do { (ob, n) \<leftarrow> zobjLength ob; zsetConvertAndExpand fc cfg env ob encoding (unat n) }"

definition zsetTypeMaybeConvert :: "'s::{linorder, zero} fconv \<Rightarrow> zconf \<Rightarrow> zoenv \<Rightarrow> 's zobj \<Rightarrow> nat \<Rightarrow> 's zobj option" where
  "zsetTypeMaybeConvert fc cfg env ob size_hint =
     (case ob of
        ZListpack _ _ \<Rightarrow>
          if size_hint > zset_max_listpack_entries cfg then zsetConvertAndExpand fc cfg env ob OBJ_ENCODING_SKIPLIST size_hint else Some ob
      | ZSkiplist _ \<Rightarrow> Some ob)"

definition zsetConvertToListpackIfNeeded ::
  "'s::{linorder, zero} fconv \<Rightarrow> zconf \<Rightarrow> zoenv \<Rightarrow> 's zobj \<Rightarrow> nat \<Rightarrow> nat \<Rightarrow> 's zobj option" where
  "zsetConvertToListpackIfNeeded fc cfg env ob maxelelen totelelen =
     (case ob of
        ZListpack _ _ \<Rightarrow> Some ob
      | ZSkiplist zs \<Rightarrow>
          if unat (zlength (z_zsl zs)) \<le> zset_max_listpack_entries cfg \<and> maxelelen \<le> zset_max_listpack_value cfg then do {
            safe \<leftarrow> lpSafeToAdd None totelelen;
            if safe then zsetConvert fc cfg env ob OBJ_ENCODING_LISTPACK else Some ob
          }
          else Some ob)"

lemma zzl_bound_take: "zzl_bound ps \<Longrightarrow> zzl_bound (take j ps)"
proof -
  assume b: "zzl_bound ps"
  have "ele_bytes (xs @ ys) = ele_bytes xs + ele_bytes ys" for xs ys :: "('a \<times> sds) list" by (simp add: ele_bytes_def)
  from this[of "take j ps" "drop j ps"] show ?thesis using b by (auto simp: zzl_bound_def)
qed

lemma convert_to_listpack_loop_rep:
  assumes fc: "fconv_ok fc" and rep: "zsl_rep h zsl ns" and b: "zzl_bound (node_keys ns)"
    and same: "\<And>k. j \<le> k \<Longrightarrow> k < length ns \<Longrightarrow> h' (fst (ns ! k)) = h (fst (ns ! k))"
    and zl: "lp_rep zl (zzl_payloads fc (take j (node_keys ns)))" and j: "j \<le> length ns"
  shows "\<exists>h2 zl'. convert_to_listpack_loop A fc h' zl (if j < length ns then Some (fst (ns ! j)) else None) = Some (h2, zl') \<and>
    lp_rep zl' (zzl_payloads fc (node_keys ns)) \<and> (\<forall>y. h' y = None \<longrightarrow> h2 y = None)"
  using same zl j
proof (induction "length ns - j" arbitrary: j h' zl)
  case 0
  then show ?case by (subst convert_to_listpack_loop.simps) simp
next
  case (Suc n)
  then have j: "j < length ns" by simp
  obtain a l s e where n: "ns ! j = (a, l, s, e)" by (metis prod.exhaust)
  obtain m where m: "h a = Some m" "score m = Num s" "ele m = Some e"
      "forward_at h a 0 = Some (if Suc j < length ns then Some (fst (ns ! Suc j)) else None)"
    using node_at[OF rep j n] by blast
  have ha: "h' a = h a" using Suc.prems(1)[of j] j n by simp
  then have f: "forward_at h' a 0 = forward_at h a 0" by (simp add: forward_at_def level_at_def)
  have d: "distinct (map fst ns)" using rep by (simp add: zsl_rep_def node_addrs_def)
  have same: "(h'(a := None)) (fst (ns ! k)) = h (fst (ns ! k))" if k: "Suc j \<le> k" "k < length ns" for k
    using Suc.prems(1)[of k] k j n d nth_eq_iff_index_eq[of "map fst ns" k j] by auto
  let ?qs = "take j (node_keys ns)"
  have len: "length ?qs = j" using j by simp
  have app: "ins_at j (s, e) ?qs = take (Suc j) (node_keys ns)"
    using j n by (simp add: ins_at_def take_Suc_conv_app_nth node_keys_def)
  have "epos_opt fc ?qs j = None" using len by (simp add: epos_opt_def)
  then obtain zl1 where i: "zzlInsertAt A fc zl None e (Num s) = Some zl1" "lp_rep zl1 (zzl_payloads fc (take (Suc j) (node_keys ns)))"
    using zzlInsertAt_rep[OF fc Suc.prems(2), of j s e A] zzl_bound_take[OF b, of "Suc j"] len Suc.prems(3) unfolding app by auto
  have "\<exists>h2 zl'. convert_to_listpack_loop A fc (h'(a := None)) zl1 (if Suc j < length ns then Some (fst (ns ! Suc j)) else None) = Some (h2, zl') \<and>
    lp_rep zl' (zzl_payloads fc (node_keys ns)) \<and> (\<forall>y. (h'(a := None)) y = None \<longrightarrow> h2 y = None)"
    using Suc.hyps(2) j by (intro Suc.hyps(1)[OF _ same i(2)]) simp_all
  then show ?case using j n m f ha i(1)
    by (subst convert_to_listpack_loop.simps) (auto simp: zslFreeNode_def zslGetNodeElement_def)
qed

lemma convert_to_listpack_rep:
  assumes fc: "fconv_ok fc" and z: "zset_nodes zs ns" and b: "zzl_bound (node_keys ns)"
  shows "\<exists>zl h. convert_to_listpack A fc zs = Some (ZListpack zl h) \<and> zzl_rep fc zl (node_keys ns) \<and> (\<forall>y. z_heap zs y = None \<longrightarrow> h y = None)"
proof -
  let ?h = "z_heap zs" and ?x = "header (z_zsl zs)"
  note rep = zset_nodesD(1)[OF z]
  obtain zl where zl: "lpNew A 0 = Some zl" "lp_rep zl []" using lpNew_rep by blast
  have t: "towers ?h (zlevel (z_zsl zs)) (node_addrs (z_zsl zs) ns) (node_heights ns)" "heights_ok (zlevel (z_zsl zs)) (node_heights ns)"
      "distinct (node_addrs (z_zsl zs) ns)"
    using rep by (simp_all add: zsl_rep_def)
  have f: "forward_at ?h ?x 0 = Some (if 0 < length ns then Some (fst (ns ! 0)) else None)"
    using towers_forward[OF t(1), of 0 0] heights_pos[OF t(2), of 0] nxt_0[OF t(2), of 0] by auto
  have "?h ?x \<noteq> None" using node_in_heap[OF rep, of ?x] by (simp add: node_addrs_def)
  moreover have "\<exists>h2 zl'. convert_to_listpack_loop A fc (?h(?x := None)) zl (if 0 < length ns then Some (fst (ns ! 0)) else None) = Some (h2, zl') \<and>
    lp_rep zl' (zzl_payloads fc (node_keys ns)) \<and> (\<forall>y. (?h(?x := None)) y = None \<longrightarrow> h2 y = None)"
    using node_not_header[OF t(3)] zl(2) by (intro convert_to_listpack_loop_rep[OF fc rep b]) simp_all
  moreover have "sorted_wrt (<) (node_keys ns)" "distinct (map snd (node_keys ns))"
    using rep zset_nodesD(2)[OF z] by (simp_all add: zsl_rep_def node_keys_def node_index_def case_prod_beta comp_def)
  ultimately show ?thesis using f zl(1) b by (auto simp: convert_to_listpack_def zslFreeNode_def zzl_rep_def)
qed

lemma key_map: "pair_map (node_keys ns) = map_of (node_scores ns)"
proof -
  have "map (\<lambda>k. (snd k, fst k)) (node_keys ns) = node_scores ns" by (induction ns) (auto simp: node_keys_def node_scores_def)
  then show ?thesis by (simp add: pair_map_def)
qed

text \<open>The total length of the elements of a map bounds the bytes of their entries.\<close>

definition total_length :: "(sds \<rightharpoonup> 's) \<Rightarrow> nat" where
  "total_length m = (\<Sum>e\<in>dom m. length e)"

lemma total_length_pairs: "distinct (map snd ps) \<Longrightarrow> total_length (pair_map ps) = sum_list (map (\<lambda>k. length (snd k)) ps)"
proof -
  assume d: "distinct (map snd ps)"
  have "dom (pair_map ps) = set (map snd ps)" using pair_map_None[of ps] by (auto simp: dom_def)
  then have "total_length (pair_map ps) = sum_list (map length (map snd ps))"
    unfolding total_length_def using sum_list_distinct_conv_sum_set[OF d, of length] by simp
  then show ?thesis by (simp add: comp_def)
qed

lemma zzl_bound_total:
  assumes d: "distinct (map snd ps)" and t: "total_length (pair_map ps) \<le> 2 ^ 30" and len: "length ps \<le> 2 ^ 26"
  shows "zzl_bound ps"
proof -
  have each: "length (snd k) \<le> 2 ^ 30" if "k \<in> set ps" for k
    using member_le_sum_list[of "length (snd k)" "map (\<lambda>k. length (snd k)) ps"] that t total_length_pairs[OF d] by auto
  have "ele_bytes qs \<le> sum_list (map (\<lambda>k. length (snd k)) qs) + 10 * length qs" if "set qs \<subseteq> set ps" for qs
    using that
  proof (induction qs)
    case (Cons k qs)
    have "length (entry (lp_encode (snd k))) \<le> length (snd k) + 10" using each[of k] Cons.prems by (intro entry_length) simp
    then show ?case using Cons by (simp add: ele_bytes_def)
  qed (simp add: ele_bytes_def)
  from this[of ps] show ?thesis using t len total_length_pairs[OF d] by (simp add: zzl_bound_def)
qed

definition is_listpack :: "'s zobj \<Rightarrow> bool" where
  "is_listpack ob \<longleftrightarrow> (case ob of ZListpack _ _ \<Rightarrow> True | ZSkiplist _ \<Rightarrow> False)"

lemma maybe_convert_rep:
  assumes rep: "zobj_rep fc cfg ob m" and u: "zo_usable cfg ob env"
  shows "\<exists>ob'. zsetTypeMaybeConvert fc cfg env ob size_hint = Some ob' \<and> zobj_rep fc cfg ob' m \<and>
    (is_listpack ob' \<longleftrightarrow> is_listpack ob \<and> size_hint \<le> zset_max_listpack_entries cfg)"
proof (cases ob)
  case (ZListpack zl h)
  then obtain ps where ps: "zzl_rep fc zl ps" "length ps \<le> zset_max_listpack_entries cfg" "m = pair_map ps" "fconv_ok fc"
      "zset_max_listpack_entries cfg \<le> 2 ^ 26"
    using rep by (auto simp: zobj_rep_def)
  have r: "zo_ready cfg h env" using u ZListpack by (simp add: zo_usable_def)
  then obtain zs where "convert_to_skiplist fc cfg env zl h size_hint = Some zs" "zset_rep zs m"
    using convert_to_skiplist_rep[OF ps(4,1), of env h cfg size_hint] ps(2,3) by (auto simp: zo_ready_def)
  then show ?thesis using ZListpack rep ps(4,5)
    by (auto simp: zsetTypeMaybeConvert_def zsetConvertAndExpand_def zobj_rep_def is_listpack_def)
qed (use rep in \<open>simp add: zsetTypeMaybeConvert_def is_listpack_def\<close>)

lemma to_listpack_rep:
  assumes rep: "zobj_rep fc cfg ob m" and t: "total_length m \<le> tot"
  shows "\<exists>ob'. zsetConvertToListpackIfNeeded fc cfg env ob maxel tot = Some ob' \<and> zobj_rep fc cfg ob' m \<and>
    (is_listpack ob' \<longleftrightarrow> is_listpack ob \<or>
       card (dom m) \<le> zset_max_listpack_entries cfg \<and> maxel \<le> zset_max_listpack_value cfg \<and> tot \<le> 2 ^ 30)"
proof (cases ob)
  case (ZSkiplist zs)
  then obtain ns where ns: "zset_nodes zs ns" "m = map_of (node_scores ns)" and c: "fconv_ok fc" "zset_max_listpack_entries cfg \<le> 2 ^ 26"
    using rep by (auto simp: zobj_rep_def zset_rep_def)
  note d = zset_nodesD(2)[OF ns(1)]
  have len: "card (dom m) = length ns" using card_scores[OF d] ns(2) by simp
  have zlen: "unat (zlength (z_zsl zs)) = length ns"
    using zset_nodesD(1)[OF ns(1)] by (simp add: zsl_rep_def unat_of_nat)
  have safe: "lpSafeToAdd None tot = Some (tot \<le> 2 ^ 30)" by (auto simp: lpSafeToAdd_def)
  let ?go = "card (dom m) \<le> zset_max_listpack_entries cfg \<and> maxel \<le> zset_max_listpack_value cfg \<and> tot \<le> 2 ^ 30"
  have run: "zsetConvertToListpackIfNeeded fc cfg env ob maxel tot = (if ?go then convert_to_listpack (o_alloc env) fc zs else Some ob)"
    unfolding zsetConvertToListpackIfNeeded_def ZSkiplist zobj.case zlen safe len
    by (auto simp: zsetConvert_def zobjLength_def zsetConvertAndExpand_def)
  show ?thesis
  proof (cases ?go)
    case True
    have dk: "distinct (map snd (node_keys ns))" using d by (simp add: node_keys_def node_index_def case_prod_beta comp_def)
    have "zzl_bound (node_keys ns)" using True t c(2) len ns(2) by (intro zzl_bound_total[OF dk]) (simp_all add: key_map)
    then obtain zl h where "convert_to_listpack (o_alloc env) fc zs = Some (ZListpack zl h)" "zzl_rep fc zl (node_keys ns)"
      using convert_to_listpack_rep[OF c(1) ns(1), of "o_alloc env"] by blast
    then show ?thesis using run True c len ns(2) by (auto simp: zobj_rep_def is_listpack_def key_map intro!: exI[of _ "node_keys ns"])
  next
    case False
    have "zsetConvertToListpackIfNeeded fc cfg env ob maxel tot = Some ob" using run unfolding if_not_P[OF False] .
    moreover have "\<not> is_listpack ob" by (simp add: is_listpack_def ZSkiplist)
    ultimately show ?thesis using False rep by blast
  qed
qed (use rep in \<open>simp add: zsetConvertToListpackIfNeeded_def is_listpack_def\<close>)

subsection \<open>Properties\<close>

definition example_pairs :: "(u8 \<times> sds) list" where
  "example_pairs = [(5, [97]), (200, [98])]"

lemma example_zzl: "\<exists>zl. zzl_rep example_fconv zl example_pairs"
proof -
  let ?fc = example_fconv
  obtain zl where zl: "lpNew example_alloc 0 = Some zl" "lp_rep zl (zzl_payloads ?fc [])" using lpNew_rep by auto
  have le: "length (entry (lp_encode [c])) \<le> 20" for c :: u8 using entry_length[of "[c]"] by simp
  have b: "zzl_bound [(5 :: u8, [97])]" "zzl_bound example_pairs"
    using le[of 97] le[of 98] by (simp_all add: zzl_bound_def ele_bytes_def example_pairs_def)
  have "\<exists>zl'. zzlInsertAt example_alloc ?fc zl (epos_opt ?fc [] 0) [97] (Num 5) = Some zl' \<and> lp_rep zl' (zzl_payloads ?fc (ins_at 0 (5, [97]) []))"
    using b(1) by (intro zzlInsertAt_rep[OF example_fconv_ok zl(2)]) (simp_all add: ins_at_def)
  then obtain zl1 where "lp_rep zl1 (zzl_payloads ?fc [(5, [97])])" by (auto simp: ins_at_def)
  then have "\<exists>zl'. zzlInsertAt example_alloc ?fc zl1 (epos_opt ?fc [(5, [97])] 1) [98] (Num 200) = Some zl' \<and>
      lp_rep zl' (zzl_payloads ?fc (ins_at 1 (200, [98]) [(5, [97])]))"
    using b(2) by (intro zzlInsertAt_rep[OF example_fconv_ok]) (simp_all add: ins_at_def example_pairs_def)
  then obtain zl2 where "lp_rep zl2 (zzl_payloads ?fc example_pairs)" by (auto simp: ins_at_def example_pairs_def)
  then show ?thesis using b(2) by (auto simp: zzl_rep_def example_pairs_def)
qed

lemma example_zobj:
  assumes "zzl_rep example_fconv zl example_pairs"
  shows "zobj_rep example_fconv example_conf (ZListpack zl Map.empty) [[97] \<mapsto> 5, [98] \<mapsto> 200]"
proof -
  have "pair_map example_pairs = [[97] \<mapsto> 5, [98] \<mapsto> 200]" by (auto simp: pair_map_def example_pairs_def fun_eq_iff)
  then show ?thesis using assms example_fconv_ok
    by (auto simp: zobj_rep_def example_conf_def intro!: exI[of _ example_pairs]) (simp add: example_pairs_def)
qed

text \<open>
  The searches in the listpack encoding return the first and the last pair whose score lies in the range, and none
  if there is no such pair; for sets whose elements have one score the same holds for ranges of elements.
\<close>

lemma zzl_in_range:
  assumes "fconv_ok fc" "zzl_rep fc zl ps"
  shows "(\<exists>r. zzlFirstInRange fc zl rng = Some r \<and> first_in fc ps (\<lambda>k. score_in_range rng (fst k)) r) \<and>
    (\<exists>r. zzlLastInRange fc zl rng = Some r \<and> last_in fc ps (\<lambda>k. score_in_range rng (fst k)) r) \<and>
    (sorted_wrt (\<lambda>x y. snd x < snd y) ps \<longrightarrow>
      (\<exists>r. zzlFirstInLexRange zl lrng = Some r \<and> first_in fc ps (\<lambda>k. ele_in_range lrng (snd k)) r) \<and>
      (\<exists>r. zzlLastInLexRange zl lrng = Some r \<and> last_in fc ps (\<lambda>k. ele_in_range lrng (snd k)) r))"
  using zzl_score_in[OF assms] zzl_lex_in[OF assms(2)] by blast

lemma zzl_in_range_example:
  "\<exists>zl. zzl_rep example_fconv zl example_pairs \<and>
    zzlFirstInRange example_fconv zl \<lparr>range_min = Num 6, range_max = NaN, minex = False, maxex = False\<rparr> = Some None"
proof -
  let ?rng = "\<lparr>range_min = Num 6, range_max = NaN, minex = False, maxex = False\<rparr> :: u8 zrangespec"
  obtain zl where zl: "zzl_rep example_fconv zl example_pairs" using example_zzl by blast
  obtain r where r: "zzlFirstInRange example_fconv zl ?rng = Some r" "first_in example_fconv example_pairs (\<lambda>k. score_in_range ?rng (fst k)) r"
    using conjunct1[OF zzl_in_range[OF example_fconv_ok zl, of ?rng undefined]] by blast
  then show ?thesis using zl by (cases r) (auto simp: first_in_def score_in_range_tests zslValueLteMax_def)
qed

text \<open>
  Deletion of a range by score, element or rank removes exactly the elements in the range, returns their number and
  reports whether the object became empty, in both encodings. For elements the scores are equal, as the command
  requires; for ranks there are less than \<open>2\<^sup>3\<^sup>2\<close> elements, because the code narrows the ranks.
\<close>

lemma zobj_remrange_rep:
  assumes "zobj_rep fc cfg ob m" "m \<noteq> Map.empty" "card (dom m) < 2 ^ 32"
    "case rng of ByLex _ \<Rightarrow> ran m \<subseteq> {s0} | _ \<Rightarrow> True"
  shows "\<exists>ob'. zobj_remrange fc env ob rng =
      Some (ob', of_nat (card {e. removed_by m rng e}), \<forall>e. m e \<noteq> None \<longrightarrow> removed_by m rng e) \<and>
    zobj_rep fc cfg ob' (\<lambda>e. if removed_by m rng e then None else m e)"
proof (cases ob)
  case (ZListpack zl h)
  then obtain ps where ps: "zzl_rep fc zl ps" "length ps \<le> zset_max_listpack_entries cfg" "m = pair_map ps" "fconv_ok fc"
    "zset_max_listpack_entries cfg \<le> 2 ^ 26"
    using assms(1) by (auto simp: zobj_rep_def)
  obtain zl' ps' where "zzl_remrange (o_alloc env) fc zl rng =
      Some (zl', of_nat (card {e. removed_by m rng e}), \<forall>e. m e \<noteq> None \<longrightarrow> removed_by m rng e)"
      "zzl_rep fc zl' ps'" "length ps' \<le> length ps" "pair_map ps' = (\<lambda>e. if removed_by m rng e then None else m e)"
    using zzl_remrange_rep[OF ps(4,1) _ assms(4)[unfolded ps(3)], of "o_alloc env"] assms(2) pair_map_empty[of ps] unfolding ps(3) by blast
  then show ?thesis using ps(2,4,5) ZListpack by (auto simp: zobj_remrange_def zobj_rep_def intro!: exI[of _ ps'])
next
  case (ZSkiplist zs)
  then have z: "zset_rep zs m" "fconv_ok fc" "zset_max_listpack_entries cfg \<le> 2 ^ 26" using assms(1) by (simp_all add: zobj_rep_def)
  show ?thesis using zobj_remrange_skiplist[OF z(1) assms(2-4), of fc env] z(2,3) unfolding ZSkiplist
    by (auto simp: zobj_rep_def)
qed

lemma zobj_remrange_example:
  "\<exists>zl ob'. zobj_rep example_fconv example_conf (ZListpack zl Map.empty) [[97] \<mapsto> 5, [98] \<mapsto> 200] \<and>
    zobj_remrange example_fconv (example_zoenv 0) (ZListpack zl Map.empty)
      (ByScore \<lparr>range_min = Num 5, range_max = Num 200, minex = True, maxex = False\<rparr>) = Some (ob', 1, False) \<and>
    zobj_rep example_fconv example_conf ob' [[97] \<mapsto> 5]"
proof -
  let ?rng = "ByScore \<lparr>range_min = Num 5, range_max = Num 200, minex = True, maxex = False\<rparr> :: u8 zrange"
    and ?m = "[[97] \<mapsto> 5, [98] \<mapsto> 200] :: sds \<rightharpoonup> u8"
  obtain zl where zl: "zzl_rep example_fconv zl example_pairs" using example_zzl by blast
  have g: "removed_by ?m ?rng e \<longleftrightarrow> e = [98]" for e
    by (auto simp: removed_by_def score_in_range_tests zslValueGteMin_def zslValueLteMax_def)
  have dom: "dom ?m = {[97], [98]}" by auto
  have c: "card (dom ?m) < 2 ^ 32" unfolding dom by simp
  have f: "(\<forall>e. ?m e \<noteq> None \<longrightarrow> e = [98]) = False" by auto
  have r: "(\<lambda>e. if e = [98] then None else ?m e) = [[97] \<mapsto> 5]" by (auto simp: fun_eq_iff)
  have ne: "?m \<noteq> Map.empty" by simp
  have lex: "case ?rng of ByLex _ \<Rightarrow> ran ?m \<subseteq> {0} | _ \<Rightarrow> True" by simp
  have one: "of_nat (card {e. e = [98 :: u8]}) = (1 :: u64)" by simp
  from zobj_remrange_rep[OF example_zobj[OF zl] ne c lex, of "example_zoenv 0"]
  obtain ob' where "zobj_remrange example_fconv (example_zoenv 0) (ZListpack zl Map.empty) ?rng = Some (ob', 1, False)"
      "zobj_rep example_fconv example_conf ob' [[97] \<mapsto> 5]"
    unfolding g f r one by blast
  then show ?thesis using example_zobj[OF zl] by blast
qed

text \<open>
  C37: the conversions of a sorted set object between its encodings keep every element with its score. The one to a
  skip list happens exactly if the expected number of elements exceeds the limit, the one back to a listpack exactly if
  number, maximal and total length of the elements, as the caller gives the lengths, are within the limits; if the total is
  not less than that of the elements, the listpack never overflows.
\<close>

theorem zset_conversions_correct:
  assumes "zobj_rep fc cfg ob m" "zo_usable cfg ob env" "total_length m \<le> totelelen"
  shows "(\<exists>ob'. zsetTypeMaybeConvert fc cfg env ob size_hint = Some ob' \<and> zobj_rep fc cfg ob' m \<and>
      (is_listpack ob' \<longleftrightarrow> is_listpack ob \<and> size_hint \<le> zset_max_listpack_entries cfg)) \<and>
    (\<exists>ob'. zsetConvertToListpackIfNeeded fc cfg env ob maxelelen totelelen = Some ob' \<and> zobj_rep fc cfg ob' m \<and>
      (is_listpack ob' \<longleftrightarrow> is_listpack ob \<or>
         card (dom m) \<le> zset_max_listpack_entries cfg \<and> maxelelen \<le> zset_max_listpack_value cfg \<and> totelelen \<le> 2 ^ 30))"
  by (intro conjI maybe_convert_rep[OF assms(1,2)] to_listpack_rep[OF assms(1,3)])

theorem zset_conversions_correct_witness:
  "\<exists>zl ob'. zobj_rep example_fconv example_conf (ZListpack zl Map.empty) [[97] \<mapsto> 5, [98] \<mapsto> 200] \<and>
    zsetTypeMaybeConvert example_fconv example_conf (example_zoenv 0) (ZListpack zl Map.empty) 5 = Some ob' \<and>
    zobj_rep example_fconv example_conf ob' [[97] \<mapsto> 5, [98] \<mapsto> 200] \<and> \<not> is_listpack ob'"
proof -
  let ?m = "[[97] \<mapsto> 5, [98] \<mapsto> 200] :: sds \<rightharpoonup> u8"
  obtain zl where zl: "zzl_rep example_fconv zl example_pairs" using example_zzl by blast
  have u: "zo_usable example_conf (ZListpack zl Map.empty) (example_zoenv 0)"
    by (simp add: zo_usable_def example_zoenv_def zo_ready_def zo_addrs_def example_env_def example_conf_def zslRandomLevel_def)
  have dom: "dom ?m = {[97], [98]}" by auto
  have t: "total_length ?m \<le> 2" unfolding total_length_def dom by simp
  have "\<not> 5 \<le> zset_max_listpack_entries example_conf" by (simp add: example_conf_def)
  then show ?thesis
    using conjunct1[OF zset_conversions_correct[OF example_zobj[OF zl] u t, of 5 1]] example_zobj[OF zl] by blast
qed

end
