(* ===== verification/Spec2Isabelle.thy ===== *)
theory Spec2Isabelle
  imports Intset Fwtree Adlist Util_Num Glob Kvstore_Scan Listpack_Valid Skiplist_Correct Zobj_Range
begin

text \<open>
  A verification library for the data structures of Redis (\<^verbatim>\<open>src/redis-stable/src\<close>).

  The parts and how they interact.  A Redis database is a \<^verbatim>\<open>kvstore\<close>: an array of hash tables
  (\<^verbatim>\<open>dict\<close>), one per cluster slot, together with a Fenwick tree (\<^verbatim>\<open>fwtree\<close>) that counts the keys
  per slot.  The values are containers: integer sets (\<^verbatim>\<open>intset\<close>), compact sequences of strings and
  integers in one allocation (\<^verbatim>\<open>listpack\<close>), linked lists (\<^verbatim>\<open>adlist\<close>), and sorted sets, which are listpacks
  while they are small and later keep a skip list and a \<^verbatim>\<open>dict\<close> over the same nodes.  The commands use the conversions and the glob matcher of
  \<^verbatim>\<open>util.c\<close>.

  Conventions.  Operations pass the state explicitly and return \<open>None\<close> for undefined behaviour: a failed
  assertion, an access outside an array or an allocation, a null or dangling dereference.  Hence every
  theorem of the form \<open>\<exists>r. f x = Some r \<and> \<dots>\<close> also says that the operation returns and is free of these
  failures.  The integers of intsets, listpacks, Fenwick trees, key counts, cursors, spans and lengths keep their width
  (words of 8, 16, 32 and 64 bits, or numbers with the wrap-around written out).  The bookkeeping of one dictionary does not: the number of entries
  per table and \<open>pauserehash\<close> are natural numbers, \<open>rehashidx\<close> and \<open>pauseAutoResize\<close> integers, and the number of
  steps of \<open>dictRehash\<close> and its product with 10 are unbounded.  What comes from
  outside is an argument: allocated addresses, the contents of fresh memory, random numbers, hash
  functions, the global resize policy, configured limits, the addition of doubles, their casts, their printer
  (\<^verbatim>\<open>deps/fpconv\<close>) and their parser (\<^verbatim>\<open>fast_float_strtod.c\<close>, a port of the fast\_float library).  The laws assumed of casts,
  printer and parser are collected in \<open>fconv_ok\<close>; an instance of them is part of the development.

  Theories and sources.
  \<^item> \<^verbatim>\<open>Redis_Prelude\<close>: machine integers, byte blocks, bounds-checked array accesses, lemmas
    shared by all components.
  \<^item> \<^verbatim>\<open>Redis_Interfaces\<close>: the contracts between components as locales, with the simulation of whole
    sequences of calls proved once: \<open>bounded_set\<close> (interpreted by \<^verbatim>\<open>Intset\<close>), \<open>adaptive_map\<close> (by \<^verbatim>\<open>Dict\<close>)
    and \<open>bounded_seq\<close> (by \<^verbatim>\<open>Listpack_Seq\<close>).  The contract \<open>sorted_set\<close> stands in \<^verbatim>\<open>Zset\<close>, next to its
    specification and its interpretation.
  \<^item> \<^verbatim>\<open>Intset\<close> (\<^verbatim>\<open>intset.c\<close>): sorted arrays of 16, 32 or 64 bit integers on bytes; every operation keeps
    the array sorted and refines the mathematical set, and the validator accepts the well-formed blobs only.
  \<^item> \<^verbatim>\<open>Fwtree\<close> (\<^verbatim>\<open>fwtree.c\<close>): binary indexed tree; updates, prefix sums and the search by prefix sum
    agree with sums over the plain array.
  \<^item> \<^verbatim>\<open>Dict\<close> (\<^verbatim>\<open>dict.c\<close>): chained hash table with two tables and incremental rehashing; every operation
    keeps the invariant and refines a finite map, and a complete rehash ends.
    \<^verbatim>\<open>Dict_Link\<close> adds the lookup of buckets and insertion through them, \<^verbatim>\<open>Dict_Scan\<close> the cursor scan with
    reversed binary increment: it ends and misses no key that stays, whatever happens between the calls.
  \<^item> \<^verbatim>\<open>Kvstore\<close>, \<^verbatim>\<open>Kvstore_Scan\<close> (\<^verbatim>\<open>kvstore.c\<close>): the array of dictionaries; its counters and tree always
    agree with the dictionaries, and the scan of the whole store is complete.
  \<^item> \<^verbatim>\<open>Listpack_Enc\<close> (entry encodings), \<^verbatim>\<open>Listpack\<close> (operations), \<^verbatim>\<open>Listpack_Rep\<close> (the bytes of a
    sequence of entries), \<^verbatim>\<open>Listpack_Proofs\<close> and \<^verbatim>\<open>Listpack_Seq\<close> (every operation as an operation on
    lists of strings), \<^verbatim>\<open>Listpack_Batch\<close> (insertion of several entries), \<^verbatim>\<open>Listpack_Valid\<close> (the validator on arbitrary bytes), all of \<^verbatim>\<open>listpack.c\<close>.
  \<^item> \<^verbatim>\<open>Adlist\<close> (\<^verbatim>\<open>adlist.c\<close>): doubly linked list on an explicit heap, with iterators that survive the
    deletion of the node they returned.
  \<^item> \<^verbatim>\<open>Skiplist\<close> (\<^verbatim>\<open>t_zset.c\<close>, the \<open>zsl\<close> functions): data and operations.  \<^verbatim>\<open>Skiplist_Rep\<close> describes the
    towers of a sequence of heights by positions, \<^verbatim>\<open>Skiplist_Heap\<close> the effect of the link loops on the
    heap, \<^verbatim>\<open>Skiplist_Ins\<close> and \<^verbatim>\<open>Skiplist_Del\<close> insertion and unlinking, \<^verbatim>\<open>Skiplist_Ops\<close> the representation of
    a sorted list of nodes, \<^verbatim>\<open>Skiplist_Rank\<close> ranks and release, \<^verbatim>\<open>Skiplist_Correct\<close> the theorems.
  \<^item> \<^verbatim>\<open>Zset\<close> (\<^verbatim>\<open>t_zset.c\<close>, the \<open>zset\<close> functions): sorted sets composed of skip list and dictionary, refined
    to maps from elements to scores, with all flags of \<open>ZADD\<close>.  \<^verbatim>\<open>Zset_Range\<close>: deletion of ranges by score,
    element and rank (\<open>ZREMRANGE\<close>).
  \<^item> \<^verbatim>\<open>Util_Double\<close> (\<^verbatim>\<open>util.c\<close>, \<open>double2ll\<close> and \<open>d2string\<close>): the integer or text that stands for a score, and that
    reading it back gives the score.
  \<^item> \<^verbatim>\<open>Zzl\<close> (\<^verbatim>\<open>t_zset.c\<close>, the \<open>zzl\<close> functions): sorted sets as one listpack of alternating elements and scores.
    \<^verbatim>\<open>Zobj\<close>: the objects that choose between the two encodings and convert from the listpack to the skip list;
    they satisfy the contract \<open>sorted_set\<close> too, so the encoding cannot be observed.  \<^verbatim>\<open>Zzl_Range\<close>: searches and
    deletions of ranges in a listpack.  \<^verbatim>\<open>Zobj_Range\<close>: deletion of ranges from objects, with one specification
    for both encodings, and the conversions of objects in both directions.
  \<^item> \<^verbatim>\<open>Util_Num\<close>, \<^verbatim>\<open>Glob\<close> (\<^verbatim>\<open>util.c\<close>): number conversions, and the glob matcher against a declarative
    semantics of patterns.  The matcher looks at the byte after the pattern, which is taken not to be a star.

  Bounds and fuel.  The full rehash gets one call per bucket of the old table plus one, which is shown to
  be enough.  A scan of a dictionary whose tables never exceed \<open>2^e\<close> buckets ends within \<open>2^e\<close> calls, a scan
  of a store of \<open>2^b\<close> slots within \<open>2^(b+e)\<close>.  The loops along pointers of the skip list, the linked list and
  the deletion of ranges are partial functions whose value \<open>None\<close> would mean failure or divergence; the
  theorems show that they return.  Intsets and listpacks carry the size bounds that their 32-bit headers
  impose; for sorted sets in listpacks the bound follows from the tests the code makes before an insertion, if the
  configured number of entries is at most \<open>2^26\<close>.  Sorted sets hold fewer than \<open>2^63\<close> elements, and fewer than \<open>2^32\<close> for deletion by rank, where the
  code narrows the ranks to 32 bits.

  Not modelled.  Server core, networking, persistence, replication, cluster, modules and scripting are
  driven by the operating system, sockets and foreign code.  Of the commands only the core of those on
  sorted sets is covered; reply formats, key lookup and notifications are not, nor are range queries on
  skip lists, pops and set operations.  In the components that are
  modelled, memory accounting, defragmentation, statistics, random sampling and stateful iterators of
  dictionaries are left out, and so are the other conversions to and from floating point.
\<close>

end
